(* ===== verification/Prelude.thy ===== *)
theory Prelude
  imports Main "HOL-Library.Word" "HOL-Library.Monad_Syntax"
begin

text \<open>
  Shared vocabulary of the development: the character macros of
  \<^verbatim>\<open>common_functions.h\<close>, raw byte memory as the C code addresses it, the scanning
  loops \<^verbatim>\<open>for (; !P(*p); p++)\<close> that every parser of the server is built from, 32-bit
  unsigned counters, and the parts of the C library (\<^verbatim>\<open>strtol\<close>, \<^verbatim>\<open>atoi\<close>,
  \<^verbatim>\<open>memcmp\<close>, \<^verbatim>\<open>strstr\<close>) the sources call.

  A byte is a HOL \<^typ>\<open>char\<close> (8 bits, \<open>of_char\<close> reads its value).  A block of memory is
  a list of bytes of exactly its allocated size; a pointer into it is an index.  Reading or
  writing outside of the block is the value \<^term>\<open>None\<close>, so that \<open>f x \<noteq> None\<close> says that
  \<open>f\<close> stays inside its memory.
\<close>

section \<open>Characters\<close>

type_synonym mem = "char list"

named_theorems char_defs \<open>the character classes of the C headers\<close>

abbreviation NUL :: char where "NUL \<equiv> CHR 0x00"
abbreviation CR :: char where "CR \<equiv> CHR 0x0D"
abbreviation LF :: char where "LF \<equiv> CHR 0x0A"
abbreviation TAB :: char where "TAB \<equiv> CHR 0x09"

abbreviation ord :: "char \<Rightarrow> nat" where "ord c \<equiv> of_char c"

definition IS_SYM :: "char \<Rightarrow> bool" where [char_defs]:
  "IS_SYM c \<longleftrightarrow> 32 \<le> ord c \<and> ord c \<le> 126"

definition IS_UPPER :: "char \<Rightarrow> bool" where [char_defs]:
  "IS_UPPER c \<longleftrightarrow> 65 \<le> ord c \<and> ord c \<le> 90"

definition IS_LOWER :: "char \<Rightarrow> bool" where [char_defs]:
  "IS_LOWER c \<longleftrightarrow> 97 \<le> ord c \<and> ord c \<le> 122"

definition IS_DIGIT :: "char \<Rightarrow> bool" where [char_defs]:
  "IS_DIGIT c \<longleftrightarrow> 48 \<le> ord c \<and> ord c \<le> 57"

definition TO_LOWER :: "char \<Rightarrow> char" where
  "TO_LOWER c = (if IS_UPPER c then char_of (ord c + 32) else c)"

definition IS_SPACE :: "char \<Rightarrow> bool" where [char_defs]:
  "IS_SPACE c \<longleftrightarrow> c = CHR '' '' \<or> c = TAB \<or> c = LF"

definition IS_VALID_PATH_CHARACTER :: "char \<Rightarrow> bool" where [char_defs]:
  "IS_VALID_PATH_CHARACTER c \<longleftrightarrow> IS_LOWER c \<or> IS_UPPER c \<or> IS_DIGIT c \<or> c = CHR ''/'' \<or>
     c = CHR ''-'' \<or> c = CHR ''_'' \<or> c = CHR ''.'' \<or> c = CHR '','' \<or> c = CHR '':'' \<or> c = CHR ''~''"

definition IS_VALID_URL_KEY_CHARACTER :: "char \<Rightarrow> bool" where [char_defs]:
  "IS_VALID_URL_KEY_CHARACTER c \<longleftrightarrow>
     IS_LOWER c \<or> IS_UPPER c \<or> IS_DIGIT c \<or> c = CHR ''-'' \<or> c = CHR ''_''"

definition IS_VALID_URL_VALUE_CHARACTER :: "char \<Rightarrow> bool" where [char_defs]:
  "IS_VALID_URL_VALUE_CHARACTER c \<longleftrightarrow>
     IS_VALID_URL_KEY_CHARACTER c \<or> c = CHR ''+'' \<or> c = CHR ''%''"

lemma ord_less_256 [simp]: "ord c < 256"
  using nat_of_char_less_256 [of c] by simp

lemma ord_char_of_small: "n < 256 \<Longrightarrow> ord (char_of n) = n"
  by (simp add: of_char_of)

lemma ord_TO_LOWER: "ord (TO_LOWER c) = (if IS_UPPER c then ord c + 32 else ord c)"
  by (auto simp: TO_LOWER_def IS_UPPER_def ord_char_of_small)

lemma TO_LOWER_not_upper: "\<not> IS_UPPER (TO_LOWER c)"
  by (auto simp: IS_UPPER_def ord_TO_LOWER)

lemma TO_LOWER_idem [simp]: "TO_LOWER (TO_LOWER c) = TO_LOWER c"
  using TO_LOWER_not_upper [of c] by (simp add: TO_LOWER_def [of "TO_LOWER c"])

lemma TO_LOWER_IS_SYM: "IS_SYM c \<Longrightarrow> IS_SYM (TO_LOWER c)"
  by (auto simp: IS_SYM_def ord_TO_LOWER IS_UPPER_def)

section \<open>Memory\<close>

definition rd :: "mem \<Rightarrow> nat \<Rightarrow> char option" where
  "rd m i = (if i < length m then Some (m ! i) else None)"

definition wr :: "mem \<Rightarrow> nat \<Rightarrow> char \<Rightarrow> mem option" where
  "wr m i c = (if i < length m then Some (m[i := c]) else None)"

lemma rd_in [simp]: "i < length m \<Longrightarrow> rd m i = Some (m ! i)"
  by (simp add: rd_def)

lemma rd_out [simp]: "length m \<le> i \<Longrightarrow> rd m i = None"
  by (simp add: rd_def)

lemma wr_in [simp]: "i < length m \<Longrightarrow> wr m i c = Some (m[i := c])"
  by (simp add: wr_def)

lemma wr_out [simp]: "length m \<le> i \<Longrightarrow> wr m i c = None"
  by (simp add: wr_def)

lemma rd_SomeD: "rd m i = Some c \<Longrightarrow> i < length m \<and> m ! i = c"
  by (simp add: rd_def split: if_splits)

lemma wr_SomeD: "wr m i c = Some m' \<Longrightarrow> i < length m \<and> m' = m[i := c]"
  by (simp add: wr_def split: if_splits)

text \<open>The bytes from \<open>i\<close> up to, not including, \<open>j\<close>.\<close>

definition seg :: "mem \<Rightarrow> nat \<Rightarrow> nat \<Rightarrow> mem" where
  "seg m i j = take (j - i) (drop i m)"

lemma length_seg [simp]: "j \<le> length m \<Longrightarrow> length (seg m i j) = j - i"
  by (auto simp: seg_def)

lemma seg_nth: "i + k < j \<Longrightarrow> j \<le> length m \<Longrightarrow> seg m i j ! k = m ! (i + k)"
  by (simp add: seg_def)

lemma set_seg: "j \<le> length m \<Longrightarrow> set (seg m i j) = {m ! k | k. i \<le> k \<and> k < j}"
proof -
  assume j: "j \<le> length m"
  show ?thesis
  proof (intro set_eqI iffI)
    fix x assume "x \<in> set (seg m i j)"
    then obtain k where "k < j - i" "x = seg m i j ! k" using j by (auto simp: in_set_conv_nth)
    with j have "x = m ! (i + k)" "i \<le> i + k" "i + k < j" by (auto simp: seg_nth)
    then show "x \<in> {m ! k | k. i \<le> k \<and> k < j}" by blast
  next
    fix x assume "x \<in> {m ! k | k. i \<le> k \<and> k < j}"
    then obtain k where k: "x = m ! k" "i \<le> k" "k < j" by blast
    then have "seg m i j ! (k - i) = x" "k - i < length (seg m i j)" using j
      by (auto simp: seg_nth)
    then show "x \<in> set (seg m i j)" using nth_mem by metis
  qed
qed

section \<open>Scanning loops\<close>

text \<open>
  \<^verbatim>\<open>for (; !P(*p); p++);\<close> with no bound of its own: the index of the first byte at or
  after \<open>i\<close> that satisfies \<open>P\<close>, \<^term>\<open>None\<close> when the loop runs off the end of the block.
\<close>

function scan :: "(char \<Rightarrow> bool) \<Rightarrow> mem \<Rightarrow> nat \<Rightarrow> nat option" where
  "scan P m i = (if i < length m then (if P (m ! i) then Some i else scan P m (Suc i)) else None)"
  by pat_completeness auto
termination
  by (relation "measure (\<lambda>(P, m, i). length m - i)") auto

declare scan.simps [simp del]

lemma scan_here: "i < length m \<Longrightarrow> P (m ! i) \<Longrightarrow> scan P m i = Some i"
  by (simp add: scan.simps)

lemma scan_skip: "i < length m \<Longrightarrow> \<not> P (m ! i) \<Longrightarrow> scan P m i = scan P m (Suc i)"
  by (subst scan.simps) simp

lemma scan_SomeD:
  "scan P m i = Some j \<Longrightarrow> i \<le> j \<and> j < length m \<and> P (m ! j) \<and> (\<forall>k. i \<le> k \<and> k < j \<longrightarrow> \<not> P (m ! k))"
proof (induction P m i rule: scan.induct)
  case (1 P m i)
  show ?case
  proof (cases "i < length m \<and> \<not> P (m ! i)")
    case True
    with "1.prems" have "scan P m (Suc i) = Some j" by (simp add: scan_skip)
    with "1.IH" True have "Suc i \<le> j \<and> j < length m \<and> P (m ! j) \<and>
      (\<forall>k. Suc i \<le> k \<and> k < j \<longrightarrow> \<not> P (m ! k))" by blast
    with True show ?thesis by (metis Suc_leD le_antisym not_less_eq_eq)
  next
    case False
    with "1.prems" show ?thesis by (auto simp: scan.simps [of P m i] split: if_splits)
  qed
qed

lemma scan_finds: "i \<le> j \<Longrightarrow> j < length m \<Longrightarrow> P (m ! j) \<Longrightarrow> \<exists>k. scan P m i = Some k \<and> k \<le> j"
proof (induction P m i rule: scan.induct)
  case (1 P m i)
  show ?case
  proof (cases "P (m ! i)")
    case True
    with "1.prems" show ?thesis by (auto simp: scan_here)
  next
    case False
    with "1.prems" have lt: "i < length m" "Suc i \<le> j" by (auto simp: le_less Suc_le_eq)
    with False "1.IH" "1.prems" show ?thesis by (simp add: scan_skip)
  qed
qed

lemma scan_None: "scan P m i = None \<longleftrightarrow> (\<forall>k. i \<le> k \<and> k < length m \<longrightarrow> \<not> P (m ! k))"
  by (metis option.distinct(1) option.exhaust scan_SomeD scan_finds)

lemma scan_Some_iff:
  "scan P m i = Some j \<longleftrightarrow>
    i \<le> j \<and> j < length m \<and> P (m ! j) \<and> (\<forall>k. i \<le> k \<and> k < j \<longrightarrow> \<not> P (m ! k))"
proof
  assume r: "i \<le> j \<and> j < length m \<and> P (m ! j) \<and> (\<forall>k. i \<le> k \<and> k < j \<longrightarrow> \<not> P (m ! k))"
  then obtain k where k: "scan P m i = Some k" "k \<le> j" using scan_finds [of i j m P] by auto
  then have "i \<le> k" "P (m ! k)" using scan_SomeD [of P m i k] by auto
  with r k show "scan P m i = Some j" by (metis le_neq_implies_less)
qed (rule scan_SomeD)

section \<open>Unsigned 32-bit counters\<close>

text \<open>Counters declared \<^verbatim>\<open>uint\<close> are kept as natural numbers with the wrap-around written out.\<close>

definition inc32 :: "nat \<Rightarrow> nat" where
  "inc32 n = (n + 1) mod 2 ^ 32"

definition dec32 :: "nat \<Rightarrow> nat" where
  "dec32 n = (n + 2 ^ 32 - 1) mod 2 ^ 32"

lemma inc32_small [simp]: "n + 1 < 2 ^ 32 \<Longrightarrow> inc32 n = n + 1"
  by (simp add: inc32_def)

lemma dec32_small [simp]: "0 < n \<Longrightarrow> n < 2 ^ 32 \<Longrightarrow> dec32 n = n - 1"
proof -
  assume a: "0 < n" "n < 2 ^ 32"
  then have "n + 2 ^ 32 - 1 = (n - 1) + 2 ^ 32" by simp
  with a show ?thesis by (simp only: dec32_def mod_add_self2) simp
qed

lemma dec32_0 [simp]: "dec32 0 = 2 ^ 32 - 1"
  by (simp add: dec32_def)

lemma inc32_less: "inc32 n < 2 ^ 32" and dec32_less: "dec32 n < 2 ^ 32"
  by (simp_all add: inc32_def dec32_def)

section \<open>The C library\<close>

text \<open>
  \<^verbatim>\<open>strtol(s, NULL, 10)\<close>: skip white space, an optional sign, the longest run of digits,
  saturated at the bounds of a 64-bit \<^verbatim>\<open>long\<close>; \<^verbatim>\<open>atoi\<close> converts that value to a
  32-bit \<^verbatim>\<open>int\<close>, keeping the low bits.
\<close>

definition isspace :: "char \<Rightarrow> bool" where
  "isspace c \<longleftrightarrow> c = CHR '' '' \<or> (9 \<le> ord c \<and> ord c \<le> 13)"

fun digits_value :: "nat \<Rightarrow> string \<Rightarrow> nat" where
  "digits_value acc [] = acc"
| "digits_value acc (c # cs) =
     (if IS_DIGIT c then digits_value (10 * acc + (ord c - 48)) cs else acc)"

lemma digits_value_stop: "\<not> IS_DIGIT c \<Longrightarrow> digits_value a (ds @ c # cs) = digits_value a ds"
  by (induction ds arbitrary: a) auto

definition strtol :: "string \<Rightarrow> int" where
  "strtol s = (case dropWhile isspace s of
      [] \<Rightarrow> 0
    | c # cs \<Rightarrow>
        if c = CHR ''-'' then max (- (2 ^ 63)) (- int (digits_value 0 cs))
        else if c = CHR ''+'' then min (2 ^ 63 - 1) (int (digits_value 0 cs))
        else min (2 ^ 63 - 1) (int (digits_value 0 (c # cs))))"

definition atoi :: "string \<Rightarrow> int" where
  "atoi s = signed_take_bit 31 (strtol s)"

text \<open>A C string in memory: the bytes up to the first \<^verbatim>\<open>'\0'\<close>.\<close>

definition cstr :: "mem \<Rightarrow> string" where
  "cstr m = takeWhile (\<lambda>c. c \<noteq> NUL) m"

text \<open>\<^verbatim>\<open>strstr(h, n) != NULL\<close>.\<close>

fun is_prefix :: "string \<Rightarrow> string \<Rightarrow> bool" where
  "is_prefix [] ys = True"
| "is_prefix (x # xs) [] = False"
| "is_prefix (x # xs) (y # ys) = (x = y \<and> is_prefix xs ys)"

fun occurs :: "string \<Rightarrow> string \<Rightarrow> bool" where
  "occurs n [] = (n = [])"
| "occurs n (x # xs) = (is_prefix n (x # xs) \<or> occurs n xs)"

lemma is_prefix_iff: "is_prefix xs ys \<longleftrightarrow> (\<exists>zs. ys = xs @ zs)"
  by (induction xs ys rule: is_prefix.induct) auto

lemma is_prefix_take: "is_prefix xs ys \<longleftrightarrow> take (length xs) ys = xs"
  by (induction xs ys rule: is_prefix.induct) auto

lemma occurs_iff: "occurs n s \<longleftrightarrow> (\<exists>a b. s = a @ n @ b)"
proof (induction s)
  case Nil
  then show ?case by auto
next
  case (Cons x xs)
  have "(\<exists>a b. x # xs = a @ n @ b) \<longleftrightarrow> (\<exists>b. x # xs = n @ b) \<or> (\<exists>a b. xs = a @ n @ b)"
    by (metis Cons_eq_append_conv append_Cons append_Nil)
  then show ?case using Cons by (auto simp: is_prefix_iff)
qed

text \<open>\<^verbatim>\<open>p[i] == s[0] && p[i + 1] == s[1] && ...\<close>, read from left to right.\<close>

fun matches_at :: "mem \<Rightarrow> nat \<Rightarrow> string \<Rightarrow> bool option" where
  "matches_at m i [] = Some True"
| "matches_at m i (c # cs) =
     do { x \<leftarrow> rd m i; if x = c then matches_at m (Suc i) cs else Some False }"

lemma rd_at: "rd (pre @ x # post) (length pre) = Some x"
  by simp

lemma matches_at_defined: "i + length cs \<le> length m \<Longrightarrow> matches_at m i cs \<noteq> None"
  by (induction cs arbitrary: i) auto

lemma matches_here: "matches_at (pre @ s @ post) (length pre) s = Some True"
proof (induction s arbitrary: pre)
  case (Cons x s)
  from Cons.IH [of "pre @ [x]"] show ?case by (simp add: matches_at.simps)
qed (simp add: matches_at.simps)

lemma matches_prefix: "length cs \<le> length t \<Longrightarrow> matches_at (pre @ t) (length pre) cs = Some (is_prefix cs t)"
proof (induction cs arbitrary: pre t)
  case (Cons x cs)
  obtain y ys where t: "t = y # ys" using Cons.prems by (cases t) auto
  show ?case using Cons.IH [of ys "pre @ [y]"] Cons.prems t by (auto simp: matches_at.simps)
qed (simp add: matches_at.simps)

lemma digits_value_nonneg_bound:
  "\<forall>c \<in> set ds. IS_DIGIT c \<Longrightarrow> digits_value acc ds < (acc + 1) * 10 ^ length ds"
proof (induction ds arbitrary: acc)
  case Nil
  then show ?case by simp
next
  case (Cons c cs)
  then have d: "IS_DIGIT c" and "\<forall>c \<in> set cs. IS_DIGIT c" by auto
  with Cons.IH have "digits_value (10 * acc + (ord c - 48)) cs < (10 * acc + (ord c - 48) + 1) * 10 ^ length cs"
    by blast
  also have "\<dots> \<le> (10 * acc + 10) * 10 ^ length cs"
    using d by (intro mult_le_mono1) (auto simp: IS_DIGIT_def)
  finally show ?case using d by (simp add: algebra_simps)
qed

lemma atoi_in_range: "- (2 ^ 31) \<le> atoi s \<and> atoi s < 2 ^ 31"
  unfolding atoi_def
  using signed_take_bit_int_greater_eq_minus_exp [of 31 "strtol s"]
    signed_take_bit_int_less_exp [of 31 "strtol s"] by simp

section \<open>Lists\<close>

text \<open>\<^verbatim>\<open>realloc\<close> of an array to \<open>n\<close> cells: the common prefix survives, new cells hold \<open>u\<close>.\<close>

definition realloc_list :: "'a \<Rightarrow> nat \<Rightarrow> 'a list \<Rightarrow> 'a list" where
  "realloc_list u n xs = take n xs @ replicate (n - length xs) u"

lemma length_realloc_list [simp]: "length (realloc_list u n xs) = n"
  by (simp add: realloc_list_def)

lemma take_realloc_list: "k \<le> n \<Longrightarrow> k \<le> length xs \<Longrightarrow> take k (realloc_list u n xs) = take k xs"
  by (simp add: realloc_list_def take_append min_def)

lemma nth_realloc_list: "i < n \<Longrightarrow> i < length xs \<Longrightarrow> realloc_list u n xs ! i = xs ! i"
  by (simp add: realloc_list_def nth_append)

lemma realloc_list_snoc:
  "n \<le> length xs \<Longrightarrow> (realloc_list u (Suc n) xs)[n := a] = take n xs @ [a]"
  by (rule nth_equalityI) (auto simp: realloc_list_def nth_append nth_list_update less_Suc_eq)

text \<open>\<^verbatim>\<open>for (i = 0; i < n; i++) if (P(e[i])) ...\<close>: the index at which the search stops.\<close>

fun find_from :: "('a \<Rightarrow> bool) \<Rightarrow> nat \<Rightarrow> 'a list \<Rightarrow> nat option" where
  "find_from P i [] = None"
| "find_from P i (x # xs) = (if P x then Some i else find_from P (Suc i) xs)"

lemma find_from_SomeD:
  "find_from P i xs = Some k \<Longrightarrow>
     i \<le> k \<and> k < i + length xs \<and> P (xs ! (k - i)) \<and> (\<forall>j < k - i. \<not> P (xs ! j))"
proof (induction xs arbitrary: i)
  case Nil
  then show ?case by simp
next
  case (Cons x xs)
  show ?case
  proof (cases "P x")
    case True
    with Cons.prems show ?thesis by simp
  next
    case False
    with Cons.prems have "find_from P (Suc i) xs = Some k" by simp
    from Cons.IH [OF this] have k: "Suc i \<le> k" "k < Suc i + length xs" "P (xs ! (k - Suc i))"
      "\<forall>j < k - Suc i. \<not> P (xs ! j)" by auto
    then have "k - i = Suc (k - Suc i)" by simp
    with k False show ?thesis by (auto simp: less_Suc_eq_0_disj)
  qed
qed

lemma find_from_0_SomeD:
  "find_from P 0 xs = Some k \<Longrightarrow> k < length xs \<and> P (xs ! k) \<and> (\<forall>j < k. \<not> P (xs ! j))"
  using find_from_SomeD [of P 0 xs k] by simp

lemma find_from_None: "find_from P i xs = None \<longleftrightarrow> (\<forall>x \<in> set xs. \<not> P x)"
  by (induction xs arbitrary: i) auto

lemma find_from_append: "\<forall>c \<in> set xs. \<not> P c \<Longrightarrow> P y \<Longrightarrow> find_from P i (xs @ y # ys) = Some (i + length xs)"
  by (induction xs arbitrary: i) auto

lemma last_take_nth: "0 < i \<Longrightarrow> i \<le> length xs \<Longrightarrow> last (take i xs) = xs ! (i - 1)"
  by (cases i) (auto simp: take_Suc_conv_app_nth)

end
