(* ===== verification/Common_Containers.thy ===== *)
theory Common_Containers
  imports Prelude
begin

text \<open>
  The growable containers of \<^verbatim>\<open>common_functions.c\<close>: the pointer pool \<^verbatim>\<open>pool_t\<close>
  (request headers), the fragmented pool \<^verbatim>\<open>frag_pool_t\<close> (keep-alive sockets, rate-limited
  clients), the pointer queue \<^verbatim>\<open>pqueue_t\<close> (requests handed to the worker threads) and the
  byte buffer \<^verbatim>\<open>buf_t\<close> (everything that is received or sent).

  The allocator is a parameter: an operation that calls \<^verbatim>\<open>malloc\<close> takes the address the
  call returned, and a heap is the set of node addresses that are live.  Releasing an address
  that is not live is \<^term>\<open>None\<close>, so a result \<^term>\<open>Some\<close> says that nothing was released
  twice.  Interfaces are the locales \<open>node_pool\<close>, \<open>lifo\<close> and \<open>byte_buffer\<close>,
  interpreted at the end of the section of their provider.
\<close>

section \<open>The allocator\<close>

type_synonym addr = nat
type_synonym heap = "addr set"

definition allocator_malloc :: "addr \<Rightarrow> heap \<Rightarrow> heap" where
  "allocator_malloc a H = insert a H"

definition allocator_free :: "addr \<Rightarrow> heap \<Rightarrow> heap option" where
  "allocator_free a H = (if a = 0 then Some H else if a \<in> H then Some (H - {a}) else None)"

fun free_all :: "addr list \<Rightarrow> heap \<Rightarrow> heap option" where
  "free_all [] H = Some H"
| "free_all (a # as) H = do { H' \<leftarrow> allocator_free a H; free_all as H' }"

text \<open>What \<^verbatim>\<open>malloc\<close> promises of the address it returns.\<close>

definition fresh :: "addr \<Rightarrow> heap \<Rightarrow> bool" where
  "fresh a H \<longleftrightarrow> a \<noteq> 0 \<and> a \<notin> H"

lemma free_all_distinct:
  "distinct as \<Longrightarrow> 0 \<notin> set as \<Longrightarrow> set as \<subseteq> H \<Longrightarrow> free_all as H = Some (H - set as)"
proof (induction as arbitrary: H)
  case Nil
  then show ?case by simp
next
  case (Cons a as)
  then have "free_all as (H - {a}) = Some (H - {a} - set as)" by (intro Cons.IH) auto
  moreover have "H - {a} - set as = H - set (a # as)" by auto
  ultimately show ?case using Cons.prems by (simp add: allocator_free_def)
qed

section \<open>Pointer pools\<close>

record pool_t =
  p_cur_len :: nat
  p_real_len :: nat
  p_node_size :: nat
  p_data :: "addr list"

definition pool_create :: "nat \<Rightarrow> addr list \<Rightarrow> heap \<Rightarrow> pool_t \<times> heap" where
  "pool_create sz nodes H =
     (\<lparr>p_cur_len = 0, p_real_len = length nodes, p_node_size = sz, p_data = nodes\<rparr>,
      foldr allocator_malloc nodes H)"

definition pool_alloc :: "addr \<Rightarrow> pool_t \<Rightarrow> heap \<Rightarrow> (addr \<times> pool_t \<times> heap) option" where
  "pool_alloc a p H =
     (let (p1, H1) =
        (if p_cur_len p \<ge> p_real_len p
         then (p\<lparr>p_data := (realloc_list 0 (p_cur_len p + 1) (p_data p))[p_cur_len p := a],
                 p_real_len := inc32 (p_real_len p)\<rparr>, allocator_malloc a H)
         else (p, H))
      in if p_cur_len p1 < length (p_data p1)
         then Some (p_data p1 ! p_cur_len p1, p1\<lparr>p_cur_len := inc32 (p_cur_len p1)\<rparr>, H1)
         else None)"

definition pool_free :: "pool_t \<Rightarrow> nat \<Rightarrow> heap \<Rightarrow> (pool_t \<times> heap) option" where
  "pool_free p len H =
     do { H' \<leftarrow> free_all (drop len (take (p_real_len p) (p_data p))) H;
          Some (p\<lparr>p_cur_len := 0, p_real_len := len\<rparr>, H') }"

definition pool_free_last :: "pool_t \<Rightarrow> nat \<Rightarrow> heap \<Rightarrow> (pool_t \<times> heap) option" where
  "pool_free_last p len H =
     (let c = dec32 (p_cur_len p); p1 = p\<lparr>p_cur_len := c\<rparr>
      in if c \<ge> len
         then (if c < length (p_data p)
               then do { H' \<leftarrow> allocator_free (p_data p ! c) H;
                         Some (p1\<lparr>p_real_len := dec32 (p_real_len p)\<rparr>, H') }
               else None)
         else Some (p1, H))"

definition pool_destroy :: "pool_t \<Rightarrow> heap \<Rightarrow> heap option" where
  "pool_destroy p H = free_all (take (p_real_len p) (p_data p)) H"

text \<open>
  The invariant of a pool created with \<open>res\<close> nodes: beyond the reserved nodes exactly the nodes
  in use are kept, and the pool's nodes are live and pairwise different.
\<close>

definition pool_inv :: "nat \<Rightarrow> pool_t \<Rightarrow> heap \<Rightarrow> bool" where
  "pool_inv res p H \<longleftrightarrow>
     p_real_len p = max (p_cur_len p) res \<and> p_real_len p \<le> length (p_data p) \<and>
     distinct (take (p_real_len p) (p_data p)) \<and> 0 \<notin> set (take (p_real_len p) (p_data p)) \<and>
     set (take (p_real_len p) (p_data p)) \<subseteq> H \<and> p_real_len p < 2 ^ 32"

text \<open>The nodes handed out, in order: what the loops over \<^verbatim>\<open>data[0 .. cur_len)\<close> visit.\<close>

definition pool_used :: "pool_t \<Rightarrow> addr list" where
  "pool_used p = take (p_cur_len p) (p_data p)"

lemma foldr_malloc: "foldr allocator_malloc as H = set as \<union> H"
  by (induction as) (auto simp: allocator_malloc_def)

lemma pool_create_inv:
  "distinct nodes \<Longrightarrow> 0 \<notin> set nodes \<Longrightarrow> length nodes < 2 ^ 32 \<Longrightarrow>
   pool_create sz nodes H = (p, H') \<Longrightarrow> pool_inv (length nodes) p H' \<and> pool_used p = []"
  by (auto simp: pool_create_def pool_inv_def pool_used_def foldr_malloc)

lemma pool_alloc_grow:
  assumes inv: "pool_inv res p H" and full: "p_real_len p \<le> p_cur_len p"
    and f: "fresh a H" and room: "p_cur_len p + 1 < 2 ^ 32"
  shows "\<exists>p'. pool_alloc a p H = Some (a, p', insert a H) \<and> pool_inv res p' (insert a H) \<and>
           pool_used p' = pool_used p @ [a]"
proof -
  let ?n = "p_cur_len p" and ?d = "(realloc_list 0 (p_cur_len p + 1) (p_data p))[p_cur_len p := a]"
  have n: "p_real_len p = ?n" and res: "res \<le> ?n" and len: "?n \<le> length (p_data p)"
    using inv full by (auto simp: pool_inv_def)
  have new: "a \<notin> set (take ?n (p_data p))" "a \<noteq> 0"
    using f inv n by (auto simp: fresh_def pool_inv_def)
  define p' where "p' = p\<lparr>p_data := ?d, p_real_len := Suc ?n, p_cur_len := Suc ?n\<rparr>"
  have "pool_alloc a p H = Some (a, p', insert a H)"
    using n room by (simp add: pool_alloc_def allocator_malloc_def p'_def)
  moreover have "pool_inv res p' (insert a H)"
    using inv n res room new len by (auto simp: pool_inv_def p'_def realloc_list_snoc)
  moreover have "pool_used p' = pool_used p @ [a]"
    using len by (simp add: pool_used_def p'_def realloc_list_snoc)
  ultimately show ?thesis by blast
qed

lemma pool_alloc_reuse:
  assumes inv: "pool_inv res p H" and spare: "p_cur_len p < p_real_len p"
  shows "\<exists>p'. pool_alloc a p H = Some (p_data p ! p_cur_len p, p', H) \<and> pool_inv res p' H \<and>
           pool_used p' = pool_used p @ [p_data p ! p_cur_len p]"
proof -
  have c: "p_cur_len p < length (p_data p)" "p_cur_len p + 1 < 2 ^ 32"
    using inv spare by (auto simp: pool_inv_def)
  define p' where "p' = p\<lparr>p_cur_len := p_cur_len p + 1\<rparr>"
  have "pool_alloc a p H = Some (p_data p ! p_cur_len p, p', H)"
    using spare c by (simp add: pool_alloc_def p'_def)
  moreover have "pool_inv res p' H"
    using inv spare by (auto simp: pool_inv_def p'_def max_def split: if_splits)
  moreover have "pool_used p' = pool_used p @ [p_data p ! p_cur_len p]"
    using c by (simp add: pool_used_def p'_def take_Suc_conv_app_nth)
  ultimately show ?thesis by blast
qed

lemma pool_used_distinct: "pool_inv res p H \<Longrightarrow> distinct (pool_used p) \<and> set (pool_used p) \<subseteq> H"
  unfolding pool_used_def pool_inv_def
  by (metis distinct_take dual_order.trans max.cobounded1 min.absorb1 set_take_subset take_take)

lemma pool_free_ok:
  assumes inv: "pool_inv res p H"
  shows "\<exists>p' H'. pool_free p res H = Some (p', H') \<and> pool_inv res p' H' \<and> pool_used p' = [] \<and>
           H' = H - set (drop res (take (p_real_len p) (p_data p)))"
proof -
  let ?D = "take (p_real_len p) (p_data p)"
  have D: "distinct ?D" "0 \<notin> set ?D" "set ?D \<subseteq> H" and res: "res \<le> p_real_len p"
    using inv by (auto simp: pool_inv_def)
  have sub: "set (drop res ?D) \<subseteq> set ?D" by (rule set_drop_subset)
  have fr: "free_all (drop res ?D) H = Some (H - set (drop res ?D))"
    using D sub by (intro free_all_distinct) auto
  have tk: "take res (p_data p) = take res ?D" using res by simp
  have "set (take res ?D) \<inter> set (drop res ?D) = {}"
    using D(1) by (metis append_take_drop_id distinct_append)
  then have "pool_inv res (p\<lparr>p_cur_len := 0, p_real_len := res\<rparr>) (H - set (drop res ?D))"
    using inv D set_take_subset [of res ?D] by (auto simp: pool_inv_def tk simp del: take_take)
  with fr show ?thesis by (simp add: pool_free_def pool_used_def)
qed

lemma pool_free_last_ok:
  assumes inv: "pool_inv res p H" and ne: "0 < p_cur_len p"
  shows "\<exists>p' H'. pool_free_last p res H = Some (p', H') \<and> pool_inv res p' H' \<and>
           pool_used p' = butlast (pool_used p)"
proof -
  let ?n = "p_cur_len p - 1" and ?D = "take (p_real_len p) (p_data p)"
  have b: "p_cur_len p \<le> length (p_data p)" "p_cur_len p < 2 ^ 32" using inv by (auto simp: pool_inv_def)
  have d: "dec32 (p_cur_len p) = ?n" using ne b by simp
  have used: "take ?n (p_data p) = butlast (pool_used p)"
    using b ne by (simp add: pool_used_def butlast_take)
  show ?thesis
  proof (cases "res \<le> ?n")
    case True
    then have r: "p_real_len p = Suc ?n" using inv ne by (auto simp: pool_inv_def)
    have len: "?n < length (p_data p)" using b ne by simp
    have D: "?D = take ?n (p_data p) @ [p_data p ! ?n]" using r len by (simp add: take_Suc_conv_app_nth)
    have mem: "p_data p ! ?n \<in> H" "p_data p ! ?n \<noteq> 0" "p_data p ! ?n \<notin> set (take ?n (p_data p))"
      using inv D by (auto simp: pool_inv_def)
    have "pool_inv res (p\<lparr>p_cur_len := ?n, p_real_len := ?n\<rparr>) (H - {p_data p ! ?n})"
      using inv True D mem len b by (auto simp: pool_inv_def)
    with True d r len mem b used show ?thesis
      by (simp add: pool_free_last_def Let_def allocator_free_def pool_used_def)
  next
    case False
    then have "pool_inv res (p\<lparr>p_cur_len := ?n\<rparr>) H" using inv by (auto simp: pool_inv_def)
    with False d used show ?thesis by (simp add: pool_free_last_def Let_def pool_used_def)
  qed
qed

lemma pool_destroy_ok:
  "pool_inv res p H \<Longrightarrow> pool_destroy p H = Some (H - set (take (p_real_len p) (p_data p)))"
  by (auto simp: pool_destroy_def pool_inv_def intro!: free_all_distinct)

section \<open>Every history of a pool\<close>

text \<open>The life of a pool created with \<open>res\<close> nodes in a heap \<open>H0\<close>.\<close>

inductive pool_run :: "heap \<Rightarrow> nat \<Rightarrow> pool_t \<Rightarrow> heap \<Rightarrow> bool" for H0 where
  create: "distinct nodes \<Longrightarrow> 0 \<notin> set nodes \<Longrightarrow> set nodes \<inter> H0 = {} \<Longrightarrow> length nodes < 2 ^ 32 \<Longrightarrow>
     pool_create sz nodes H0 = (p, H) \<Longrightarrow> pool_run H0 (length nodes) p H"
| alloc: "pool_run H0 res p H \<Longrightarrow> fresh a H \<Longrightarrow> p_cur_len p + 1 < 2 ^ 32 \<Longrightarrow>
     pool_alloc a p H = Some (r, q, H') \<Longrightarrow> pool_run H0 res q H'"
| free: "pool_run H0 res p H \<Longrightarrow> pool_free p res H = Some (q, H') \<Longrightarrow> pool_run H0 res q H'"
| free_last: "pool_run H0 res p H \<Longrightarrow> 0 < p_cur_len p \<Longrightarrow> pool_free_last p res H = Some (q, H') \<Longrightarrow>
     pool_run H0 res q H'"

abbreviation pool_owned :: "pool_t \<Rightarrow> addr set" where
  "pool_owned p \<equiv> set (take (p_real_len p) (p_data p))"

lemma pool_alloc_step:
  assumes "pool_inv res p H" "fresh a H" "p_cur_len p + 1 < 2 ^ 32" "pool_alloc a p H = Some (r, q, H')"
  shows "pool_inv res q H' \<and> H' - pool_owned q = H - pool_owned p"
proof (cases "p_real_len p \<le> p_cur_len p")
  case True
  with pool_alloc_grow [OF assms(1) True assms(2,3)] assms(4) have i: "pool_inv res q H'" by auto
  have n: "p_real_len p = p_cur_len p" "p_cur_len p \<le> length (p_data p)"
    using assms(1) True by (auto simp: pool_inv_def)
  then have "H' = insert a H" "pool_owned q = insert a (pool_owned p)"
    using assms(3,4) by (auto simp: pool_alloc_def allocator_malloc_def realloc_list_snoc split: if_splits)
  then show ?thesis using i assms(1,2) by (auto simp: fresh_def)
next
  case False
  with pool_alloc_reuse [OF assms(1), of a] assms(4) have i: "pool_inv res q H'" by auto
  then show ?thesis using False assms(4) by (auto simp: pool_alloc_def split: if_splits)
qed

lemma pool_free_step:
  assumes "pool_inv res p H" "pool_free p res H = Some (q, H')"
  shows "pool_inv res q H' \<and> H' - pool_owned q = H - pool_owned p"
proof -
  have i: "pool_inv res q H'" "H' = H - set (drop res (take (p_real_len p) (p_data p)))"
    using pool_free_ok [OF assms(1)] assms(2) by auto
  have q: "pool_owned q = set (take res (take (p_real_len p) (p_data p)))"
    using assms by (auto simp: pool_free_def pool_inv_def min_def bind_eq_Some_conv)
  have "pool_owned p = pool_owned q \<union> set (drop res (take (p_real_len p) (p_data p)))"
    unfolding q by (metis append_take_drop_id set_append)
  then show ?thesis using i by auto
qed

lemma pool_free_last_step:
  assumes inv: "pool_inv res p H" and ne: "0 < p_cur_len p" and f: "pool_free_last p res H = Some (q, H')"
  shows "pool_inv res q H' \<and> H' - pool_owned q = H - pool_owned p"
proof -
  let ?n = "p_cur_len p - 1"
  have i: "pool_inv res q H'" using pool_free_last_ok [OF inv ne] f by auto
  have d: "dec32 (p_cur_len p) = ?n" "?n < length (p_data p)" using inv ne by (auto simp: pool_inv_def)
  show ?thesis
  proof (cases "res \<le> ?n")
    case True
    then have r: "p_real_len p = Suc ?n" using inv ne by (auto simp: pool_inv_def)
    have D: "pool_owned p = insert (p_data p ! ?n) (set (take ?n (p_data p)))"
      using r d(2) by (simp add: take_Suc_conv_app_nth)
    have "p_real_len p < 2 ^ 32" using inv by (auto simp: pool_inv_def)
    then have "dec32 (p_real_len p) = ?n" using r by simp
    then have "H' = H - {p_data p ! ?n}" "pool_owned q = set (take ?n (p_data p))"
      using f True d r inv D
      by (auto simp: pool_free_last_def Let_def allocator_free_def pool_inv_def bind_eq_Some_conv split: if_splits)
    then show ?thesis using i D by auto
  next
    case False
    then show ?thesis using f d i by (auto simp: pool_free_last_def Let_def)
  qed
qed

lemma pool_run_inv: "pool_run H0 res p H \<Longrightarrow> pool_inv res p H \<and> H - pool_owned p = H0"
proof (induction rule: pool_run.induct)
  case (create nodes sz p H)
  then show ?case using pool_create_inv [OF create(1,2,4,5)]
    by (auto simp: pool_create_def foldr_malloc)
next
  case (alloc res p H a r q H')
  then show ?case using pool_alloc_step [of res p H a r q H'] by simp
next
  case (free res p H q H')
  then show ?case using pool_free_step [of res p H q H'] by simp
next
  case (free_last res p H q H')
  then show ?case using pool_free_last_step [of res p H q H'] by simp
qed

text \<open>
  In every history of a pointer pool (the request-header pool of a connection) the nodes it has
  handed out are live and pairwise different, so that two headers never share a node; resetting the
  pool or taking back its last node never releases anything twice; and destroying it releases
  exactly what it allocated: the heap is the one it was created in.
\<close>

theorem pool_safe:
  assumes "pool_run H0 res p H"
  shows "distinct (pool_used p) \<and> set (pool_used p) \<subseteq> H \<and> pool_destroy p H = Some H0 \<and>
         (\<exists>q H'. pool_free p res H = Some (q, H') \<and> pool_used q = []) \<and>
         (0 < p_cur_len p \<longrightarrow>
           (\<exists>q H'. pool_free_last p res H = Some (q, H') \<and> pool_used q = butlast (pool_used p)))"
proof -
  have i: "pool_inv res p H" "H - pool_owned p = H0" using pool_run_inv [OF assms] by auto
  show ?thesis
    using pool_used_distinct [OF i(1)] pool_destroy_ok [OF i(1)] i(2) pool_free_ok [OF i(1)]
      pool_free_last_ok [OF i(1)] by blast
qed

theorem pool_safe_witness:
  "pool_destroy \<lparr>p_cur_len = 2, p_real_len = 2, p_node_size = 8, p_data = [10, 20]\<rparr> {10, 20, 7} = Some {7}"
proof -
  have "pool_run {7} 1 \<lparr>p_cur_len = 0, p_real_len = 1, p_node_size = 8, p_data = [10]\<rparr> {10, 7}"
    using pool_run.create [of "[10]" "{7}" 8] by (simp add: pool_create_def allocator_malloc_def)
  from pool_run.alloc [OF this, of 30 10 "\<lparr>p_cur_len = 1, p_real_len = 1, p_node_size = 8, p_data = [10]\<rparr>" "{10, 7}"]
  have "pool_run {7} 1 \<lparr>p_cur_len = 1, p_real_len = 1, p_node_size = 8, p_data = [10]\<rparr> {10, 7}"
    by (simp add: pool_alloc_def fresh_def)
  from pool_run.alloc [OF this, of 20 20 "\<lparr>p_cur_len = 2, p_real_len = 2, p_node_size = 8, p_data = [10, 20]\<rparr>" "{20, 10, 7}"]
  have "pool_run {7} 1 \<lparr>p_cur_len = 2, p_real_len = 2, p_node_size = 8, p_data = [10, 20]\<rparr> {20, 10, 7}"
    by (simp add: pool_alloc_def fresh_def realloc_list_def allocator_malloc_def)
  from pool_safe [OF this] show ?thesis by (simp add: insert_commute)
qed

end
