(* ===== verification/Frag_Pool.thy ===== *)
theory Frag_Pool
  imports Common_Containers "HOL-Library.Multiset"
begin

text \<open>
  The fragmented pool \<^verbatim>\<open>frag_pool_t\<close> of \<^verbatim>\<open>common_functions.c\<close>: an array of slots, each
  owning one node, that are marked free and reused; slots beyond the reserved ones are released
  from the end as soon as they are free.  A slot \<^verbatim>\<open>e[i]\<close> carries the address of its node and,
  because no other slot owns that node, the contents of the node as well.

  The locale \<open>node_pool\<close> is the interface the connection tables of \<^verbatim>\<open>core_server.c\<close> and the
  storage of \<^verbatim>\<open>file_temporary_storage.c\<close> rely on; its interpretation on the operations below
  discharges the laws.
\<close>

section \<open>Operations\<close>

record 'a frag_pool_elem_t =
  e_ptr :: addr
  e_data :: 'a
  e_free :: bool

record 'a frag_pool_t =
  f_cur_len :: nat
  f_reserved_len :: nat
  f_real_len :: nat
  f_node_size :: nat
  f_e :: "'a frag_pool_elem_t list"

definition frag_pool_create :: "nat \<Rightarrow> (addr \<times> 'a) list \<Rightarrow> heap \<Rightarrow> 'a frag_pool_t \<times> heap" where
  "frag_pool_create sz nodes H =
     (\<lparr>f_cur_len = 0, f_reserved_len = length nodes, f_real_len = length nodes, f_node_size = sz,
       f_e = map (\<lambda>(a, u). \<lparr>e_ptr = a, e_data = u, e_free = True\<rparr>) nodes\<rparr>,
      foldr allocator_malloc (map fst nodes) H)"

definition frag_pool_alloc ::
  "addr \<Rightarrow> 'a \<Rightarrow> 'a frag_pool_t \<Rightarrow> heap \<Rightarrow> addr \<times> 'a frag_pool_t \<times> heap" where
  "frag_pool_alloc a u p H =
     (case find_from e_free 0 (take (f_real_len p) (f_e p)) of
        Some i \<Rightarrow>
          (e_ptr (f_e p ! i),
           p\<lparr>f_cur_len := inc32 (f_cur_len p), f_e := (f_e p)[i := (f_e p ! i)\<lparr>e_free := False\<rparr>]\<rparr>, H)
      | None \<Rightarrow>
          (let n = inc32 (f_real_len p); x = \<lparr>e_ptr = a, e_data = u, e_free = False\<rparr>
           in (a, p\<lparr>f_cur_len := inc32 (f_cur_len p), f_real_len := n,
                    f_e := (realloc_list x n (f_e p))[n - 1 := x]\<rparr>, allocator_malloc a H)))"

text \<open>Assignment to the node a slot owns, through the pointer \<^verbatim>\<open>frag_pool_alloc\<close> returned.\<close>

definition frag_pool_store :: "addr \<Rightarrow> 'a \<Rightarrow> 'a frag_pool_t \<Rightarrow> 'a frag_pool_t" where
  "frag_pool_store q v p =
     p\<lparr>f_e := map (\<lambda>x. if e_ptr x = q then x\<lparr>e_data := v\<rparr> else x) (f_e p)\<rparr>"

fun frag_try_internal_pool_free ::
  "'a frag_pool_t \<Rightarrow> nat \<Rightarrow> heap \<Rightarrow> ('a frag_pool_t \<times> heap) option" where
  "frag_try_internal_pool_free p i H =
     (if i \<ge> f_reserved_len p \<and> i = dec32 (f_real_len p)
      then (if i < length (f_e p)
            then (case allocator_free (e_ptr (f_e p ! i)) H of
                    None \<Rightarrow> None
                  | Some H' \<Rightarrow>
                      if i > 0 \<and> e_free (f_e p ! (i - 1))
                      then frag_try_internal_pool_free
                             (p\<lparr>f_real_len := i, f_e := take i (f_e p)\<rparr>) (i - 1) H'
                      else Some (p\<lparr>f_real_len := i, f_e := take i (f_e p)\<rparr>, H'))
            else None)
      else Some (p, H))"

declare frag_try_internal_pool_free.simps [simp del]

definition frag_release :: "'a frag_pool_t \<Rightarrow> nat \<Rightarrow> heap \<Rightarrow> ('a frag_pool_t \<times> heap) option" where
  "frag_release p i H =
     frag_try_internal_pool_free
       (p\<lparr>f_cur_len := dec32 (f_cur_len p), f_e := (f_e p)[i := (f_e p ! i)\<lparr>e_free := True\<rparr>]\<rparr>) i H"

definition frag_pool_free_alt :: "'a frag_pool_t \<Rightarrow> nat \<Rightarrow> heap \<Rightarrow> ('a frag_pool_t \<times> heap) option" where
  "frag_pool_free_alt p i H =
     (if i < length (f_e p)
      then (if \<not> e_free (f_e p ! i) then frag_release p i H else Some (p, H))
      else None)"

definition frag_pool_free :: "'a frag_pool_t \<Rightarrow> addr \<Rightarrow> heap \<Rightarrow> ('a frag_pool_t \<times> heap) option" where
  "frag_pool_free p ptr H =
     (case find_from (\<lambda>x. \<not> e_free x \<and> e_ptr x = ptr) 0 (take (f_real_len p) (f_e p)) of
        Some i \<Rightarrow> frag_release p i H
      | None \<Rightarrow> Some (p, H))"

section \<open>Invariant and abstraction\<close>

text \<open>
  \<open>frag_pre\<close> relates the counters to the slots; \<open>frag_inv\<close> adds that a slot beyond the reserved
  ones is never left free at the end of the array.
\<close>

definition frag_pre :: "'a frag_pool_t \<Rightarrow> heap \<Rightarrow> bool" where
  "frag_pre p H \<longleftrightarrow>
     length (f_e p) = f_real_len p \<and> f_reserved_len p \<le> f_real_len p \<and> f_real_len p < 2 ^ 32 \<and>
     f_cur_len p = length (filter (\<lambda>x. \<not> e_free x) (f_e p)) \<and>
     distinct (map e_ptr (f_e p)) \<and> 0 \<notin> e_ptr ` set (f_e p) \<and> e_ptr ` set (f_e p) \<subseteq> H"

definition frag_inv :: "'a frag_pool_t \<Rightarrow> heap \<Rightarrow> bool" where
  "frag_inv p H \<longleftrightarrow>
     frag_pre p H \<and> (f_reserved_len p < f_real_len p \<longrightarrow> \<not> e_free (last (f_e p)))"

definition frag_nodes :: "'a frag_pool_t \<Rightarrow> (addr \<times> 'a) list" where
  "frag_nodes p = map (\<lambda>x. (e_ptr x, e_data x)) (filter (\<lambda>x. \<not> e_free x) (f_e p))"

lemma frag_inv_pre: "frag_inv p H \<Longrightarrow> frag_pre p H"
  by (simp add: frag_inv_def)

lemma frag_pre_count_le: "frag_pre p H \<Longrightarrow> f_cur_len p \<le> f_real_len p"
  by (auto simp: frag_pre_def intro: order.trans [OF length_filter_le])

lemma frag_cur_len_nodes: "frag_pre p H \<Longrightarrow> f_cur_len p = length (frag_nodes p)"
  by (simp add: frag_pre_def frag_nodes_def)

lemma frag_nodes_distinct: "frag_pre p H \<Longrightarrow> distinct (map fst (frag_nodes p))"
  by (auto simp: frag_pre_def frag_nodes_def comp_def distinct_map_filter)

lemma frag_pool_create_inv:
  assumes "distinct (map fst nodes)" "0 \<notin> fst ` set nodes" "length nodes < 2 ^ 32"
    and "frag_pool_create sz nodes H = (p, H')"
  shows "frag_inv p H' \<and> frag_nodes p = []"
  using assms
  by (auto simp: frag_pool_create_def frag_inv_def frag_pre_def frag_nodes_def foldr_malloc
        comp_def case_prod_unfold filter_map image_image, force+)

lemma filter_update_True:
  "i < length xs \<Longrightarrow> P (xs ! i) \<Longrightarrow> \<not> P y \<Longrightarrow>
   Suc (length (filter P (xs[i := y]))) = length (filter P xs)"
proof (induction xs arbitrary: i)
  case Nil
  then show ?case by simp
next
  case (Cons x xs)
  then show ?case by (cases i) auto
qed

lemma filter_update_False:
  "i < length xs \<Longrightarrow> \<not> P (xs ! i) \<Longrightarrow> P y \<Longrightarrow>
   mset (filter P (xs[i := y])) = add_mset y (mset (filter P xs))"
proof (induction xs arbitrary: i)
  case Nil
  then show ?case by simp
next
  case (Cons x xs)
  then show ?case by (cases i) auto
qed

lemma map_ptr_update [simp]:
  "e_ptr y = e_ptr (xs ! i) \<Longrightarrow> map e_ptr (xs[i := y]) = map e_ptr xs"
  by (metis list_update_id map_update)

section \<open>Releasing a slot\<close>

text \<open>
  The recursive trimming drops only free slots from the end, keeps every node in use and
  re-establishes the full invariant.
\<close>

definition trims :: "'a frag_pool_t \<Rightarrow> 'a frag_pool_t \<Rightarrow> bool" where
  "trims p q \<longleftrightarrow> (\<exists>ys. f_e p = f_e q @ ys \<and> (\<forall>x \<in> set ys. e_free x)) \<and>
     f_cur_len q = f_cur_len p \<and> f_reserved_len q = f_reserved_len p \<and> f_node_size q = f_node_size p"

lemma trims_nodes: "trims p q \<Longrightarrow> frag_nodes q = frag_nodes p"
  by (auto simp: trims_def frag_nodes_def)

lemma trims_trans: "trims p q \<Longrightarrow> trims q r \<Longrightarrow> trims p r"
  by (auto simp: trims_def)

lemma trims_refl: "trims p p"
  by (simp add: trims_def)

lemma frag_pre_drop_last:
  assumes pre: "frag_pre p H" and i: "Suc i = f_real_len p" and res: "f_reserved_len p \<le> i"
    and fr: "e_free (f_e p ! i)"
  defines "q \<equiv> p\<lparr>f_real_len := i, f_e := take i (f_e p)\<rparr>"
  shows "frag_pre q (H - {e_ptr (f_e p ! i)}) \<and> trims p q \<and>
         allocator_free (e_ptr (f_e p ! i)) H = Some (H - {e_ptr (f_e p ! i)})"
proof -
  have len: "length (f_e p) = Suc i" using pre i by (simp add: frag_pre_def)
  have split: "f_e p = take i (f_e p) @ [f_e p ! i]"
    using len by (metis lessI order_refl take_Suc_conv_app_nth take_all)
  have d: "distinct (map e_ptr (take i (f_e p)) @ [e_ptr (f_e p ! i)])"
    using pre split unfolding frag_pre_def by (metis list.map(1,2) map_append)
  have tr: "trims p q"
    unfolding trims_def q_def using fr split by auto
  have "frag_nodes q = frag_nodes p" by (rule trims_nodes [OF tr])
  then have "length (frag_nodes q) = f_cur_len p" using frag_cur_len_nodes [OF pre] by simp
  then have cnt: "length (filter (\<lambda>x. \<not> e_free x) (take i (f_e p))) = f_cur_len p"
    by (simp add: frag_nodes_def q_def)
  have "e_ptr ` set (take i (f_e p)) \<subseteq> e_ptr ` set (f_e p)" by (intro image_mono set_take_subset)
  then have z: "0 \<notin> e_ptr ` set (take i (f_e p))" and h: "e_ptr ` set (take i (f_e p)) \<subseteq> H"
    using pre unfolding frag_pre_def by blast+
  moreover have "e_ptr (f_e p ! i) \<notin> e_ptr ` set (take i (f_e p))" using d by simp
  ultimately have sub: "0 \<notin> e_ptr ` set (take i (f_e p))"
    "e_ptr ` set (take i (f_e p)) \<subseteq> H - {e_ptr (f_e p ! i)}" by blast+
  have "frag_pre q (H - {e_ptr (f_e p ! i)})"
    using pre res i len d cnt sub by (simp add: frag_pre_def q_def)
  moreover have "allocator_free (e_ptr (f_e p ! i)) H = Some (H - {e_ptr (f_e p ! i)})"
    using pre len unfolding frag_pre_def allocator_free_def
    by (metis image_eqI lessI nth_mem subsetD)
  ultimately show ?thesis using tr by blast
qed

lemma frag_try_ok:
  assumes "frag_pre p H" "i < f_real_len p" "e_free (f_e p ! i)"
    and "f_reserved_len p < f_real_len p \<and> e_free (last (f_e p)) \<longrightarrow> Suc i = f_real_len p"
  shows "\<exists>q H'. frag_try_internal_pool_free p i H = Some (q, H') \<and> frag_inv q H' \<and> trims p q \<and> H' \<subseteq> H"
  using assms
proof (induction p i H rule: frag_try_internal_pool_free.induct)
  case (1 p i H)
  let ?a = "e_ptr (f_e p ! i)" and ?q = "p\<lparr>f_real_len := i, f_e := take i (f_e p)\<rparr>"
  have len: "length (f_e p) = f_real_len p" "f_real_len p < 2 ^ 32" using "1.prems" by (auto simp: frag_pre_def)
  show ?case
  proof (cases "f_reserved_len p \<le> i \<and> Suc i = f_real_len p")
    case True
    then have dl: "frag_pre ?q (H - {?a})" "trims p ?q" "allocator_free ?a H = Some (H - {?a})"
      using frag_pre_drop_last [of p H i] "1.prems" by auto
    have guard: "f_reserved_len p \<le> i \<and> i = dec32 (f_real_len p)" using True len by (metis dec32_small diff_Suc_1 zero_less_Suc)
    show ?thesis
    proof (cases "i > 0 \<and> e_free (f_e p ! (i - 1))")
      case rec: True
      have "\<exists>q H'. frag_try_internal_pool_free ?q (i - 1) (H - {?a}) = Some (q, H') \<and>
              frag_inv q H' \<and> trims ?q q \<and> H' \<subseteq> H - {?a}"
        by (rule "1.IH" [OF guard _ dl(3) rec dl(1)]) (use "1.prems" len rec in auto)
      then obtain q H' where q: "frag_try_internal_pool_free ?q (i - 1) (H - {?a}) = Some (q, H')"
        "frag_inv q H'" "trims ?q q" "H' \<subseteq> H - {?a}" by blast
      have "frag_try_internal_pool_free p i H = Some (q, H')"
        using guard rec dl(3) q(1) "1.prems"(2) len by (simp add: frag_try_internal_pool_free.simps [of p])
      with q dl(2) show ?thesis using trims_trans by blast
    next
      case stop: False
      have "frag_try_internal_pool_free p i H = Some (?q, H - {?a})"
        using guard stop dl(3) "1.prems"(2) len by (auto simp: frag_try_internal_pool_free.simps [of p])
      moreover have "f_reserved_len p < i \<Longrightarrow> \<not> e_free (last (take i (f_e p)))"
        using stop len True by (simp add: last_take_nth)
      ultimately show ?thesis using dl by (auto simp: frag_inv_def)
    qed
  next
    case False
    then have "\<not> (f_reserved_len p \<le> i \<and> i = dec32 (f_real_len p))"
      using "1.prems"(2) len by (metis Suc_diff_1 dec32_small gr_implies_not0 neq0_conv)
    then have "frag_try_internal_pool_free p i H = Some (p, H)"
      by (subst frag_try_internal_pool_free.simps) (rule if_not_P)
    moreover have "frag_inv p H" using "1.prems" False by (auto simp: frag_inv_def)
    ultimately show ?thesis using trims_refl by blast
  qed
qed

lemma frag_release_trims:
  assumes inv: "frag_inv p H" and i: "i < f_real_len p" and used: "\<not> e_free (f_e p ! i)"
  shows "\<exists>q H'. frag_release p i H = Some (q, H') \<and> frag_inv q H' \<and> H' \<subseteq> H \<and>
           trims (p\<lparr>f_cur_len := dec32 (f_cur_len p), f_e := (f_e p)[i := (f_e p ! i)\<lparr>e_free := True\<rparr>]\<rparr>) q"
proof -
  let ?x = "f_e p ! i" and ?es = "(f_e p)[i := (f_e p ! i)\<lparr>e_free := True\<rparr>]"
  let ?p = "p\<lparr>f_cur_len := dec32 (f_cur_len p), f_e := ?es\<rparr>"
  have pre: "frag_pre p H" and len: "i < length (f_e p)" "length (f_e p) = f_real_len p"
    using inv i by (auto simp: frag_inv_def frag_pre_def)
  have cnt: "Suc (length (filter (\<lambda>x. \<not> e_free x) ?es)) = f_cur_len p"
    using filter_update_True [of i "f_e p" "\<lambda>x. \<not> e_free x"] len used pre by (simp add: frag_pre_def)
  have ptrs: "map e_ptr ?es = map e_ptr (f_e p)" by simp
  have ptrs': "e_ptr ` set ?es = e_ptr ` set (f_e p)" using ptrs by (metis set_map)
  have "f_cur_len p < 2 ^ 32" using frag_pre_count_le [OF pre] pre by (simp add: frag_pre_def)
  then have "dec32 (f_cur_len p) = length (filter (\<lambda>x. \<not> e_free x) ?es)"
    using cnt by (metis dec32_small diff_Suc_1 zero_less_Suc)
  then have pre': "frag_pre ?p H" using pre ptrs ptrs' by (simp add: frag_pre_def)
  have "\<exists>q H'. frag_try_internal_pool_free ?p i H = Some (q, H') \<and> frag_inv q H' \<and> trims ?p q \<and> H' \<subseteq> H"
  proof (rule frag_try_ok [OF pre'])
    show "f_reserved_len ?p < f_real_len ?p \<and> e_free (last (f_e ?p)) \<longrightarrow> Suc i = f_real_len ?p"
    proof (intro impI, rule ccontr)
      assume a: "f_reserved_len ?p < f_real_len ?p \<and> e_free (last (f_e ?p))" and n: "Suc i \<noteq> f_real_len ?p"
      then have "last ?es = last (f_e p)" using len i by (subst last_list_update) auto
      with a inv show False by (simp add: frag_inv_def)
    qed
  qed (use i len in auto)
  then show ?thesis by (auto simp: frag_release_def)
qed

lemma frag_release_ok:
  assumes inv: "frag_inv p H" and i: "i < f_real_len p" and used: "\<not> e_free (f_e p ! i)"
  shows "\<exists>q H'. frag_release p i H = Some (q, H') \<and> frag_inv q H' \<and> H' \<subseteq> H \<and>
           f_reserved_len q = f_reserved_len p \<and>
           mset (frag_nodes p) = add_mset (e_ptr (f_e p ! i), e_data (f_e p ! i)) (mset (frag_nodes q))"
proof -
  let ?x = "f_e p ! i" and ?es = "(f_e p)[i := (f_e p ! i)\<lparr>e_free := True\<rparr>]"
  let ?p = "p\<lparr>f_cur_len := dec32 (f_cur_len p), f_e := ?es\<rparr>"
  have len: "i < length (f_e p)" using inv i by (auto simp: frag_inv_def frag_pre_def)
  obtain q H' where q: "frag_release p i H = Some (q, H')" "frag_inv q H'" "trims ?p q" "H' \<subseteq> H"
    using frag_release_trims [OF assms] by blast
  have "mset (filter (\<lambda>x. \<not> e_free x) (f_e p)) = add_mset ?x (mset (filter (\<lambda>x. \<not> e_free x) ?es))"
    using filter_update_False [of i ?es "\<lambda>x. \<not> e_free x" ?x] len used by simp
  then have "mset (frag_nodes p) = add_mset (e_ptr ?x, e_data ?x) (mset (frag_nodes ?p))"
    by (simp add: frag_nodes_def)
  with q trims_nodes [OF q(3)] show ?thesis by (auto simp: trims_def)
qed

section \<open>Allocating a slot\<close>

lemma frag_pool_alloc_reuse:
  assumes inv: "frag_inv p H" and f: "find_from e_free 0 (f_e p) = Some i"
  shows "\<exists>q. frag_pool_alloc a u p H = (e_ptr (f_e p ! i), q, H) \<and> frag_inv q H \<and>
           f_reserved_len q = f_reserved_len p \<and> f_real_len q = f_real_len p \<and>
           mset (frag_nodes q) = add_mset (e_ptr (f_e p ! i), e_data (f_e p ! i)) (mset (frag_nodes p))"
proof -
  let ?es = "(f_e p)[i := (f_e p ! i)\<lparr>e_free := False\<rparr>]"
  let ?q = "p\<lparr>f_cur_len := f_cur_len p + 1, f_e := ?es\<rparr>"
  have i: "i < length (f_e p)" "e_free (f_e p ! i)" using find_from_0_SomeD [OF f] by auto
  have len: "length (f_e p) = f_real_len p" and pre: "frag_pre p H"
    using inv by (auto simp: frag_inv_def frag_pre_def)
  have ms: "mset (filter (\<lambda>x. \<not> e_free x) ?es) =
      add_mset ((f_e p ! i)\<lparr>e_free := False\<rparr>) (mset (filter (\<lambda>x. \<not> e_free x) (f_e p)))"
    using filter_update_False [of i "f_e p" "\<lambda>x. \<not> e_free x"] i by simp
  then have cnt: "length (filter (\<lambda>x. \<not> e_free x) ?es) = Suc (f_cur_len p)"
    using pre by (metis frag_pre_def size_add_mset size_mset)
  have ptrs: "map e_ptr ?es = map e_ptr (f_e p)" by simp
  then have ptrs': "e_ptr ` set ?es = e_ptr ` set (f_e p)" by (metis set_map)
  have "length (filter (\<lambda>x. \<not> e_free x) ?es) \<le> f_real_len p"
    using len by (metis length_filter_le length_list_update)
  with cnt have room: "f_cur_len p + 1 < 2 ^ 32" using pre by (simp add: frag_pre_def)
  have "last ?es = last (f_e p) \<or> last ?es = (f_e p ! i)\<lparr>e_free := False\<rparr>"
    using i by (cases "f_e p = []") (auto simp: last_conv_nth nth_list_update)
  then have "frag_inv ?q H" using inv cnt ptrs ptrs' by (auto simp: frag_inv_def frag_pre_def)
  moreover have "frag_pool_alloc a u p H = (e_ptr (f_e p ! i), ?q, H)"
    using f len room by (simp add: frag_pool_alloc_def)
  ultimately show ?thesis using ms by (simp add: frag_nodes_def)
qed

lemma frag_pool_alloc_grow:
  assumes inv: "frag_inv p H" and f: "find_from e_free 0 (f_e p) = None"
    and a: "fresh a H" and room: "f_real_len p + 1 < 2 ^ 32"
  shows "\<exists>q. frag_pool_alloc a u p H = (a, q, insert a H) \<and> frag_inv q (insert a H) \<and>
           f_reserved_len q = f_reserved_len p \<and> f_real_len q = f_real_len p + 1 \<and>
           mset (frag_nodes q) = add_mset (a, u) (mset (frag_nodes p))"
proof -
  let ?x = "\<lparr>e_ptr = a, e_data = u, e_free = False\<rparr>"
  let ?q = "p\<lparr>f_cur_len := f_cur_len p + 1, f_real_len := f_real_len p + 1, f_e := f_e p @ [?x]\<rparr>"
  have pre: "frag_pre p H" and len: "length (f_e p) = f_real_len p"
    using inv by (auto simp: frag_inv_def frag_pre_def)
  have "f_cur_len p + 1 < 2 ^ 32" using frag_pre_count_le [OF pre] room by simp
  then have "frag_pool_alloc a u p H = (a, ?q, insert a H)"
    using f len room realloc_list_snoc [of "f_real_len p" "f_e p"]
    by (simp add: frag_pool_alloc_def allocator_malloc_def)
  moreover have "frag_inv ?q (insert a H)"
    using inv a room by (auto simp: frag_inv_def frag_pre_def fresh_def)
  ultimately show ?thesis by (simp add: frag_nodes_def)
qed

lemma frag_pool_alloc_ok:
  assumes inv: "frag_inv p H" and a: "fresh a H" and room: "f_real_len p + 1 < 2 ^ 32"
  obtains r d q H' where "frag_pool_alloc a u p H = (r, q, H')" "frag_inv q H'"
    "f_reserved_len q = f_reserved_len p" "f_real_len q \<le> f_real_len p + 1"
    "mset (frag_nodes q) = add_mset (r, d) (mset (frag_nodes p))" "H \<subseteq> H'"
proof (cases "find_from e_free 0 (f_e p)")
  case None
  then show thesis using frag_pool_alloc_grow [OF inv None a room, of u] that by fastforce
next
  case (Some i)
  then show thesis using frag_pool_alloc_reuse [OF inv Some, of a u] that by fastforce
qed

lemma frag_pool_store_inv: "frag_inv (frag_pool_store r v p) H = frag_inv p H"
proof -
  define f where "f = (\<lambda>x :: 'a frag_pool_elem_t. if e_ptr x = r then x\<lparr>e_data := v\<rparr> else x)"
  have e: "e_ptr (f x) = e_ptr x" "e_free (f x) = e_free x" for x by (auto simp: f_def)
  have p: "frag_pool_store r v p = p\<lparr>f_e := map f (f_e p)\<rparr>" by (simp add: frag_pool_store_def f_def)
  show ?thesis
    by (cases "f_e p = []")
      (simp_all add: p frag_inv_def frag_pre_def e comp_def filter_map image_image last_map)
qed

lemma frag_nodes_store:
  "frag_nodes (frag_pool_store r v p) = map (\<lambda>(a, d). (a, if a = r then v else d)) (frag_nodes p)"
  by (simp add: frag_nodes_def frag_pool_store_def filter_map comp_def
      if_distrib [of e_free] if_distrib [of e_data] if_distrib [of e_ptr] cong: if_cong)

lemma frag_pool_free_alt_ok:
  assumes inv: "frag_inv p H" and i: "i < f_real_len p" and used: "\<not> e_free (f_e p ! i)"
  obtains q H' where "frag_pool_free_alt p i H = Some (q, H')" "frag_inv q H'" "H' \<subseteq> H"
    "f_reserved_len q = f_reserved_len p"
    "mset (frag_nodes p) = add_mset (e_ptr (f_e p ! i), e_data (f_e p ! i)) (mset (frag_nodes q))"
  using frag_release_ok [OF inv i used] inv i used that
  by (auto simp: frag_pool_free_alt_def frag_inv_def frag_pre_def)

lemma frag_pool_free_ok:
  assumes inv: "frag_inv p H" and mem: "(r, d) \<in> set (frag_nodes p)"
  shows "\<exists>q H'. frag_pool_free p r H = Some (q, H') \<and> frag_inv q H' \<and>
           mset (frag_nodes p) = add_mset (r, d) (mset (frag_nodes q))"
proof -
  have len: "length (f_e p) = f_real_len p" and dist: "distinct (map e_ptr (f_e p))"
    using inv by (auto simp: frag_inv_def frag_pre_def)
  obtain x where x: "x \<in> set (f_e p)" "\<not> e_free x" "e_ptr x = r" "e_data x = d"
    using mem by (auto simp: frag_nodes_def)
  then obtain i where i: "find_from (\<lambda>x. \<not> e_free x \<and> e_ptr x = r) 0 (f_e p) = Some i"
    by (metis (mono_tags, lifting) find_from_None not_Some_eq)
  then have ii: "i < length (f_e p)" "\<not> e_free (f_e p ! i)" "e_ptr (f_e p ! i) = r"
    using find_from_0_SomeD [OF i] by auto
  have "f_e p ! i = x"
    using dist ii x by (metis distinct_map inj_onD nth_mem)
  then show ?thesis
    using frag_release_ok [OF inv _ ii(2)] ii len i x by (fastforce simp: frag_pool_free_def)
qed

lemma frag_pool_free_absent:
  assumes inv: "frag_inv p H" and "r \<notin> fst ` set (frag_nodes p)"
  shows "frag_pool_free p r H = Some (p, H)"
proof -
  have "find_from (\<lambda>x. \<not> e_free x \<and> e_ptr x = r) 0 (f_e p) = None"
    using assms by (force simp: find_from_None frag_nodes_def)
  then show ?thesis using inv by (simp add: frag_pool_free_def frag_inv_def frag_pre_def)
qed

section \<open>The interface\<close>

locale node_pool =
  fixes inv :: "'p \<Rightarrow> heap \<Rightarrow> bool"
    and nodes :: "'p \<Rightarrow> (addr \<times> 'a) list"
    and room :: "'p \<Rightarrow> bool"
    and alloc :: "addr \<Rightarrow> 'a \<Rightarrow> 'p \<Rightarrow> heap \<Rightarrow> addr \<times> 'p \<times> heap"
    and store :: "addr \<Rightarrow> 'a \<Rightarrow> 'p \<Rightarrow> 'p"
    and release :: "'p \<Rightarrow> addr \<Rightarrow> heap \<Rightarrow> ('p \<times> heap) option"
  assumes nodes_distinct: "inv p H \<Longrightarrow> distinct (map fst (nodes p))"
    and alloc_law: "inv p H \<Longrightarrow> fresh a H \<Longrightarrow> room p \<Longrightarrow> alloc a u p H = (r, q, H') \<Longrightarrow>
      inv q H' \<and> (\<exists>d. mset (nodes q) = add_mset (r, d) (mset (nodes p)))"
    and store_inv: "inv p H \<Longrightarrow> inv (store r v p) H"
    and store_nodes: "nodes (store r v p) = map (\<lambda>(a, d). (a, if a = r then v else d)) (nodes p)"
    and release_law: "inv p H \<Longrightarrow> (r, d) \<in> set (nodes p) \<Longrightarrow>
      \<exists>q H'. release p r H = Some (q, H') \<and> inv q H' \<and> mset (nodes p) = add_mset (r, d) (mset (nodes q))"
    and release_absent: "inv p H \<Longrightarrow> r \<notin> fst ` set (nodes p) \<Longrightarrow> release p r H = Some (p, H)"
begin

lemma store_mset:
  assumes d: "distinct (map fst (r_d # ns))"
  shows "image_mset (\<lambda>(a, d). (a, if a = fst r_d then v else d)) (mset (r_d # ns)) =
         add_mset (fst r_d, v) (mset ns)"
proof -
  have "map (\<lambda>(a, d). (a, if a = fst r_d then v else d)) ns = ns"
    using d by (intro map_idI) (auto simp: image_iff split: prod.splits)
  then show ?thesis by (simp add: case_prod_unfold flip: mset_map)
qed

lemma insert_node:
  assumes inv: "inv p H" and f: "fresh a H" and room: "room p" and al: "alloc a u p H = (r, q, H')"
  shows "inv (store r v q) H' \<and> r \<notin> fst ` set (nodes p) \<and>
         mset (nodes (store r v q)) = add_mset (r, v) (mset (nodes p))"
proof -
  obtain d where q: "inv q H'" "mset (nodes q) = mset ((r, d) # nodes p)"
    using alloc_law [OF inv f room al] by auto
  have "mset (map fst (nodes q)) = mset (map fst ((r, d) # nodes p))" using q(2) by (simp only: mset_map)
  then have dist: "distinct (map fst ((r, d) # nodes p))"
    using nodes_distinct [OF q(1)] by (metis mset_eq_imp_distinct_iff)
  have "mset (nodes (store r v q)) = image_mset (\<lambda>(a, d). (a, if a = r then v else d)) (mset ((r, d) # nodes p))"
    unfolding store_nodes mset_map q(2) ..
  also have "\<dots> = add_mset (r, v) (mset (nodes p))" using store_mset [OF dist, of v] by simp
  finally show ?thesis using dist store_inv [OF q(1)] by simp
qed

lemma insert_release:
  assumes inv: "inv p H" and f: "fresh a H" and room: "room p" and al: "alloc a u p H = (r, q, H')"
  shows "\<exists>p' H''. release (store r v q) r H' = Some (p', H'') \<and> inv p' H'' \<and> mset (nodes p') = mset (nodes p)"
proof -
  have i: "inv (store r v q) H'" "mset (nodes (store r v q)) = add_mset (r, v) (mset (nodes p))"
    using insert_node [OF assms] by auto
  then have "(r, v) \<in> set (nodes (store r v q))" by (metis set_mset_mset union_single_eq_member)
  from release_law [OF i(1) this] i(2) show ?thesis by auto
qed

end

interpretation fp: node_pool frag_inv frag_nodes "\<lambda>p. f_real_len p + 1 < 2 ^ 32"
    frag_pool_alloc frag_pool_store frag_pool_free
proof
  fix p :: "'a frag_pool_t" and H a u r q H'
  assume "frag_inv p H" "fresh a H" "f_real_len p + 1 < 2 ^ 32" "frag_pool_alloc a u p H = (r, q, H')"
  then show "frag_inv q H' \<and> (\<exists>d. mset (frag_nodes q) = add_mset (r, d) (mset (frag_nodes p)))"
    using frag_pool_alloc_ok [of p H a u] by (metis prod.inject)
qed (auto intro: frag_nodes_distinct frag_inv_pre
       simp: frag_pool_store_inv frag_nodes_store frag_pool_free_ok frag_pool_free_absent)

section \<open>Histories of a pool\<close>

text \<open>
  Any sequence of allocations (with the assignment that follows them), releases by pointer and
  releases by slot.  The allocator may hand out any address that is not live.
\<close>

inductive frag_run :: "'a frag_pool_t \<Rightarrow> heap \<Rightarrow> bool" where
  create: "distinct (map fst ns) \<Longrightarrow> 0 \<notin> fst ` set ns \<Longrightarrow> length ns < 2 ^ 32 \<Longrightarrow>
     frag_pool_create sz ns H = (p, H') \<Longrightarrow> frag_run p H'"
| insert: "frag_run p H \<Longrightarrow> fresh a H \<Longrightarrow> f_real_len p + 1 < 2 ^ 32 \<Longrightarrow>
     frag_pool_alloc a u p H = (r, q, H') \<Longrightarrow> frag_run (frag_pool_store r v q) H'"
| free: "frag_run p H \<Longrightarrow> frag_pool_free p r H = Some (q, H') \<Longrightarrow> frag_run q H'"
| free_alt: "frag_run p H \<Longrightarrow> frag_pool_free_alt p i H = Some (q, H') \<Longrightarrow> frag_run q H'"

lemma frag_free_inv:
  assumes "frag_inv p H" "frag_pool_free p r H = Some (q, H')" shows "frag_inv q H'"
proof (cases "r \<in> fst ` set (frag_nodes p)")
  case True
  then obtain d where "(r, d) \<in> set (frag_nodes p)" by auto
  from frag_pool_free_ok [OF assms(1) this] assms(2) show ?thesis by auto
next
  case False
  from frag_pool_free_absent [OF assms(1) this] assms show ?thesis by simp
qed

lemma frag_free_alt_inv:
  assumes "frag_inv p H" "frag_pool_free_alt p i H = Some (q, H')" shows "frag_inv q H'"
proof (cases "i < f_real_len p \<and> \<not> e_free (f_e p ! i)")
  case True
  then show ?thesis using frag_pool_free_alt_ok [of p H i] assms by (metis option.inject prod.inject)
next
  case False
  then show ?thesis using assms by (auto simp: frag_pool_free_alt_def frag_inv_def frag_pre_def split: if_splits)
qed

lemma frag_run_inv: "frag_run p H \<Longrightarrow> frag_inv p H"
proof (induction rule: frag_run.induct)
  case (create ns sz H p H')
  then show ?case using frag_pool_create_inv by blast
next
  case (insert p H a u r q H' v)
  from fp.insert_node [OF insert.IH insert.hyps(2,3,4)] show ?case by blast
next
  case (free p H r q H')
  then show ?case by (blast intro: frag_free_inv)
next
  case (free_alt p H i q H')
  then show ?case by (blast intro: frag_free_alt_inv)
qed

text \<open>
  C35.  In every state a fragmented pool can reach, the counters agree with the slots, the nodes
  in use are live, pairwise different and not NULL, the array has never less slots than the reserve, and
  no free slot is left at its end beyond the reserved ones; releasing any slot in use succeeds (nothing
  is freed twice), keeps the reserve and removes exactly the node of that slot.
\<close>

theorem frag_pool_safe:
  assumes "frag_run p H"
  shows "f_cur_len p = length (frag_nodes p) \<and> distinct (map fst (frag_nodes p)) \<and>
         fst ` set (frag_nodes p) \<subseteq> H \<and> 0 \<notin> fst ` set (frag_nodes p) \<and>
         f_real_len p = length (f_e p) \<and> f_reserved_len p \<le> f_real_len p \<and>
         (f_reserved_len p < f_real_len p \<longrightarrow> \<not> e_free (last (f_e p))) \<and>
         (\<forall>i < f_real_len p. \<not> e_free (f_e p ! i) \<longrightarrow>
            (\<exists>q H'. frag_pool_free_alt p i H = Some (q, H') \<and> frag_run q H' \<and>
               f_reserved_len q = f_reserved_len p \<and> mset (frag_nodes p) =
                 add_mset (e_ptr (f_e p ! i), e_data (f_e p ! i)) (mset (frag_nodes q))))"
proof -
  have inv: "frag_inv p H" by (rule frag_run_inv [OF assms])
  have "fst ` set (frag_nodes p) \<subseteq> e_ptr ` set (f_e p)" by (auto simp: frag_nodes_def)
  then have "fst ` set (frag_nodes p) \<subseteq> H" "0 \<notin> fst ` set (frag_nodes p)"
    using inv by (auto simp: frag_inv_def frag_pre_def)
  moreover have "\<exists>q H'. frag_pool_free_alt p i H = Some (q, H') \<and> frag_run q H' \<and> f_reserved_len q = f_reserved_len p \<and>
      mset (frag_nodes p) = add_mset (e_ptr (f_e p ! i), e_data (f_e p ! i)) (mset (frag_nodes q))"
    if "i < f_real_len p" "\<not> e_free (f_e p ! i)" for i
    using frag_pool_free_alt_ok [OF inv that] frag_run.free_alt [OF assms] by metis
  ultimately show ?thesis
    using inv frag_cur_len_nodes [OF frag_inv_pre [OF inv]] frag_nodes_distinct [OF frag_inv_pre [OF inv]]
    by (simp add: frag_inv_def frag_pre_def)
qed

theorem frag_pool_safe_witness:
  "\<exists>p. frag_run p {10} \<and> f_e p = [\<lparr>e_ptr = 10, e_data = CHR ''v'', e_free = False\<rparr>] \<and>
       f_cur_len p = length (frag_nodes p) \<and>
       (\<exists>q H'. frag_pool_free_alt p 0 {10} = Some (q, H') \<and> frag_run q H')"
proof -
  define p0 where "p0 = fst (frag_pool_create 8 [(10, CHR ''u'')] {})"
  have c: "frag_pool_create 8 [(10, CHR ''u'')] {} = (p0, {10})"
    by (simp add: p0_def frag_pool_create_def allocator_malloc_def)
  have r0: "frag_run p0 {10}" by (rule frag_run.create [OF _ _ _ c]) auto
  define p1 where "p1 = p0\<lparr>f_cur_len := 1, f_e := [\<lparr>e_ptr = 10, e_data = CHR ''u'', e_free = False\<rparr>]\<rparr>"
  have al: "frag_pool_alloc 20 CHR ''w'' p0 {10} = (10, p1, {10})"
    by (simp add: p0_def p1_def frag_pool_create_def frag_pool_alloc_def)
  let ?p = "frag_pool_store 10 CHR ''v'' p1"
  have r: "frag_run ?p {10}"
    by (rule frag_run.insert [OF r0 _ _ al]) (auto simp: fresh_def p0_def frag_pool_create_def)
  have e: "f_e ?p = [\<lparr>e_ptr = 10, e_data = CHR ''v'', e_free = False\<rparr>]" "f_real_len ?p = 1"
    by (simp_all add: frag_pool_store_def p1_def p0_def frag_pool_create_def)
  show ?thesis using frag_pool_safe [OF r] r e by (intro exI [of _ ?p]) auto
qed

end
