(* ===== verification/Buffers.thy ===== *)
theory Buffers
  imports Common_Containers
begin

text \<open>
  The pointer queue \<^verbatim>\<open>pqueue_t\<close> through which \<^verbatim>\<open>core_http.c\<close> hands requests to its worker
  threads, and the byte buffer \<^verbatim>\<open>buf_t\<close>, with \<^verbatim>\<open>append_to_buffer\<close> of \<^verbatim>\<open>templates.c\<close> and
  \<^verbatim>\<open>web/callbacks/util.c\<close>, the only way pages are written.  Sizes are 32-bit words, as in the
  code: \<^verbatim>\<open>node_size * cur_len\<close> wraps.  Cells that \<^verbatim>\<open>malloc\<close> or \<^verbatim>\<open>realloc\<close> add hold an
  arbitrary value \<open>u\<close>.  The locales \<open>lifo\<close> and \<open>byte_buffer\<close> are the interfaces of the two.
\<close>

section \<open>The pointer queue\<close>

record 'a pqueue_t =
  q_cur_len :: nat
  q_reserved_len :: nat
  q_data :: "'a list"

definition pqueue_create :: "'a \<Rightarrow> nat \<Rightarrow> 'a pqueue_t" where
  "pqueue_create u res_len =
     \<lparr>q_cur_len = 0, q_reserved_len = res_len, q_data = replicate res_len u\<rparr>"

definition pqueue_push :: "'a \<Rightarrow> 'a pqueue_t \<Rightarrow> 'a \<Rightarrow> 'a pqueue_t option" where
  "pqueue_push u p ptr =
     (let c = inc32 (q_cur_len p);
          d = (if c > q_reserved_len p then realloc_list u c (q_data p) else q_data p)
      in if c - 1 < length d then Some (p\<lparr>q_cur_len := c, q_data := d[c - 1 := ptr]\<rparr>) else None)"

definition pqueue_fetch :: "'a \<Rightarrow> 'a pqueue_t \<Rightarrow> ('a \<times> 'a pqueue_t) option" where
  "pqueue_fetch u p =
     (let c = dec32 (q_cur_len p);
          d = (if c > q_reserved_len p then realloc_list u c (q_data p) else q_data p)
      in if c < length d then Some (d ! c, p\<lparr>q_cur_len := c, q_data := d\<rparr>) else None)"

definition pq_inv :: "'a pqueue_t \<Rightarrow> bool" where
  "pq_inv p \<longleftrightarrow> q_cur_len p \<le> length (q_data p) \<and> q_reserved_len p \<le> length (q_data p) \<and> q_cur_len p < 2 ^ 32"

definition pq_list :: "'a pqueue_t \<Rightarrow> 'a list" where
  "pq_list p = take (q_cur_len p) (q_data p)"

lemma pqueue_create_inv: "pq_inv (pqueue_create u n) \<and> pq_list (pqueue_create u n) = []"
  by (simp add: pq_inv_def pq_list_def pqueue_create_def)

lemma pq_list_length: "pq_inv p \<Longrightarrow> length (pq_list p) = q_cur_len p"
  by (simp add: pq_list_def pq_inv_def)

lemma pqueue_push_ok:
  assumes inv: "pq_inv p" and room: "q_cur_len p + 1 < 2 ^ 32"
  shows "\<exists>q. pqueue_push u p x = Some q \<and> pq_inv q \<and> q_reserved_len q = q_reserved_len p \<and>
           pq_list q = pq_list p @ [x]"
proof -
  let ?c = "Suc (q_cur_len p)"
  define d where "d = (if ?c > q_reserved_len p then realloc_list u ?c (q_data p) else q_data p)"
  have len: "?c \<le> length d" "q_reserved_len p \<le> length d" and tk: "take (q_cur_len p) d = pq_list p"
    using inv by (auto simp: d_def pq_inv_def pq_list_def take_realloc_list)
  define q where "q = p\<lparr>q_cur_len := ?c, q_data := d[q_cur_len p := x]\<rparr>"
  have "pqueue_push u p x = Some q"
    using len room by (simp add: pqueue_push_def q_def d_def)
  moreover have "pq_inv q" using len room by (simp add: pq_inv_def q_def)
  moreover have "pq_list q = pq_list p @ [x]"
    using len tk by (simp add: pq_list_def q_def take_Suc_conv_app_nth)
  ultimately show ?thesis by (simp add: q_def)
qed

lemma pqueue_fetch_ok:
  assumes inv: "pq_inv p" and ne: "pq_list p \<noteq> []" and cap: "q_cur_len p \<le> q_reserved_len p + 1"
  shows "\<exists>q. pqueue_fetch u p = Some (last (pq_list p), q) \<and> pq_inv q \<and>
           q_reserved_len q = q_reserved_len p \<and> pq_list q = butlast (pq_list p)"
proof -
  let ?c = "q_cur_len p - 1" and ?q = "p\<lparr>q_cur_len := q_cur_len p - 1, q_data := q_data p\<rparr>"
  have c: "0 < q_cur_len p" "q_cur_len p \<le> length (q_data p)"
    using inv ne by (auto simp: pq_inv_def pq_list_def)
  have "dec32 (q_cur_len p) = ?c" using c inv by (simp add: pq_inv_def)
  then have "pqueue_fetch u p = Some (q_data p ! ?c, ?q)"
    using c cap by (simp add: pqueue_fetch_def Let_def) linarith
  moreover have "q_data p ! ?c = last (pq_list p)" using c by (simp add: pq_list_def last_take_nth)
  moreover have "pq_inv ?q" "pq_list ?q = butlast (pq_list p)"
    using inv c by (auto simp: pq_inv_def pq_list_def butlast_take)
  ultimately show ?thesis by simp
qed

text \<open>
  The queue of requests is a stack: within the reserved cells (and one more) a fetch returns
  the request that was pushed last and leaves the others in place.
\<close>

theorem pqueue_push_fetch:
  assumes "pq_inv p" and "q_cur_len p \<le> q_reserved_len p" and "q_reserved_len p + 1 < 2 ^ 32"
  shows "\<exists>q p'. pqueue_push u p x = Some q \<and> pqueue_fetch u q = Some (x, p') \<and> pq_inv p' \<and>
           pq_list p' = pq_list p"
proof -
  obtain q where q: "pqueue_push u p x = Some q" "pq_inv q" "q_reserved_len q = q_reserved_len p"
    "pq_list q = pq_list p @ [x]"
    using pqueue_push_ok [OF assms(1)] assms by fastforce
  have "q_cur_len q = q_cur_len p + 1" using pq_list_length [OF q(2)] q(4) pq_list_length [OF assms(1)] by simp
  then show ?thesis using pqueue_fetch_ok [OF q(2), of u] q assms by auto
qed

theorem pqueue_push_fetch_witness:
  "\<exists>q p'. pqueue_push 0 (pqueue_create 0 2) (7::nat) = Some q \<and> pqueue_fetch 0 q = Some (7, p') \<and>
     pq_inv p' \<and> pq_list p' = []"
  using pqueue_push_fetch [of "pqueue_create (0::nat) 2" 0 7]
  by (auto simp: pqueue_create_inv) (simp_all add: pqueue_create_def)

text \<open>
  Once more than one request beyond the reserved cells is queued, \<^verbatim>\<open>pqueue_fetch\<close> first
  shrinks the array to the remaining requests and then reads the cell after its end: every fetch
  from such a queue leaves the allocated block.
\<close>

theorem pqueue_fetch_out_of_bounds:
  assumes "q_reserved_len p + 1 < q_cur_len p" and "q_cur_len p < 2 ^ 32"
  shows "pqueue_fetch u p = None"
proof -
  have "q_reserved_len p < q_cur_len p - 1" using assms(1) by linarith
  then show ?thesis using assms by (simp add: pqueue_fetch_def Let_def)
qed

theorem pqueue_fetch_out_of_bounds_witness:
  "\<exists>p. do { p1 \<leftarrow> pqueue_push 0 (pqueue_create 0 0) (7::nat); pqueue_push 0 p1 8 } = Some p \<and>
     pqueue_fetch 0 p = None"
proof -
  let ?p = "\<lparr>q_cur_len = 2, q_reserved_len = 0, q_data = [7, 8::nat]\<rparr>"
  have "do { p1 \<leftarrow> pqueue_push 0 (pqueue_create 0 0) (7::nat); pqueue_push 0 p1 8 } = Some ?p"
    by (simp add: pqueue_create_def pqueue_push_def realloc_list_def Let_def)
  then show ?thesis using pqueue_fetch_out_of_bounds [of ?p 0] by auto
qed

locale lifo =
  fixes inv :: "'q \<Rightarrow> bool"
    and elems :: "'q \<Rightarrow> 'a list"
    and cap :: "'q \<Rightarrow> nat"
    and push :: "'q \<Rightarrow> 'a \<Rightarrow> 'q option"
    and fetch :: "'q \<Rightarrow> ('a \<times> 'q) option"
  assumes push_law: "inv q \<Longrightarrow> length (elems q) + 1 < 2 ^ 32 \<Longrightarrow>
      \<exists>q'. push q x = Some q' \<and> inv q' \<and> cap q' = cap q \<and> elems q' = elems q @ [x]"
    and fetch_law: "inv q \<Longrightarrow> elems q \<noteq> [] \<Longrightarrow> length (elems q) \<le> cap q + 1 \<Longrightarrow>
      \<exists>q'. fetch q = Some (last (elems q), q') \<and> inv q' \<and> cap q' = cap q \<and> elems q' = butlast (elems q)"
begin

text \<open>A burst of pushes that fits is drained completely, newest first.\<close>

fun push_all :: "'q \<Rightarrow> 'a list \<Rightarrow> 'q option" where
  "push_all q [] = Some q"
| "push_all q (x # xs) = do { q' \<leftarrow> push q x; push_all q' xs }"

fun fetch_n :: "nat \<Rightarrow> 'q \<Rightarrow> ('a list \<times> 'q) option" where
  "fetch_n 0 q = Some ([], q)"
| "fetch_n (Suc n) q = do { (x, q') \<leftarrow> fetch q; (xs, q'') \<leftarrow> fetch_n n q'; Some (x # xs, q'') }"

lemma push_all_law:
  "inv q \<Longrightarrow> length (elems q) + length xs < 2 ^ 32 \<Longrightarrow>
   \<exists>q'. push_all q xs = Some q' \<and> inv q' \<and> cap q' = cap q \<and> elems q' = elems q @ xs"
proof (induction xs arbitrary: q)
  case Nil
  then show ?case by simp
next
  case (Cons x xs)
  obtain q1 where q1: "push q x = Some q1" "inv q1" "cap q1 = cap q" "elems q1 = elems q @ [x]"
    using push_law [of q x] Cons.prems by auto
  then show ?case using Cons.IH [OF q1(2)] Cons.prems by auto
qed

lemma fetch_n_law:
  "inv q \<Longrightarrow> n \<le> length (elems q) \<Longrightarrow> length (elems q) \<le> cap q + 1 \<Longrightarrow>
   \<exists>q'. fetch_n n q = Some (take n (rev (elems q)), q') \<and> inv q' \<and> cap q' = cap q \<and>
     elems q' = take (length (elems q) - n) (elems q)"
proof (induction n arbitrary: q)
  case 0
  then show ?case by simp
next
  case (Suc n)
  then have ne: "elems q \<noteq> []" by auto
  obtain q1 where q1: "fetch q = Some (last (elems q), q1)" "inv q1" "cap q1 = cap q"
    "elems q1 = butlast (elems q)" using fetch_law [OF Suc.prems(1) ne Suc.prems(3)] by auto
  have "\<exists>q'. fetch_n n q1 = Some (take n (rev (elems q1)), q') \<and> inv q' \<and> cap q' = cap q1 \<and>
     elems q' = take (length (elems q1) - n) (elems q1)"
    using Suc q1 by (intro Suc.IH) auto
  moreover have "rev (elems q) = last (elems q) # rev (elems q1)"
    using ne q1(4) by (metis append_butlast_last_id rev_eq_Cons_iff rev_rev_ident)
  then have "take (Suc n) (rev (elems q)) = last (elems q) # take n (rev (elems q1))"
    by (simp only: take_Suc_Cons)
  moreover have "take (length (elems q1) - n) (elems q1) = take (length (elems q) - Suc n) (elems q)"
    by (simp add: q1(4) butlast_conv_take)
  ultimately show ?case using q1 Suc.prems(2) by auto
qed

lemma push_all_fetch_all:
  assumes "inv q" "elems q = []" "length xs \<le> cap q + 1" "length xs < 2 ^ 32"
  shows "\<exists>q1 q2. push_all q xs = Some q1 \<and> fetch_n (length xs) q1 = Some (rev xs, q2) \<and>
           inv q2 \<and> elems q2 = []"
proof -
  obtain q1 where q1: "push_all q xs = Some q1" "inv q1" "cap q1 = cap q" "elems q1 = xs"
    using push_all_law [OF assms(1)] assms by auto
  then show ?thesis using fetch_n_law [OF q1(2), of "length xs"] assms by auto
qed

end

interpretation wr: lifo pq_inv pq_list q_reserved_len "pqueue_push u" "pqueue_fetch u" for u
proof
  fix q :: "'a pqueue_t" and x
  assume "pq_inv q" "length (pq_list q) + 1 < 2 ^ 32"
  then show "\<exists>q'. pqueue_push u q x = Some q' \<and> pq_inv q' \<and> q_reserved_len q' = q_reserved_len q \<and>
      pq_list q' = pq_list q @ [x]"
    using pqueue_push_ok [of q u x] by (simp add: pq_list_length)
next
  fix q :: "'a pqueue_t"
  assume "pq_inv q" "pq_list q \<noteq> []" "length (pq_list q) \<le> q_reserved_len q + 1"
  then show "\<exists>q'. pqueue_fetch u q = Some (last (pq_list q), q') \<and> pq_inv q' \<and>
      q_reserved_len q' = q_reserved_len q \<and> pq_list q' = butlast (pq_list q)"
    using pqueue_fetch_ok [of q u] by (simp add: pq_list_length)
qed

section \<open>Byte buffers\<close>

type_synonym uint = "32 word"

record buf_t =
  b_cur_len :: uint
  b_reserved_len :: uint
  b_node_size :: uint
  b_base :: int
  b_data :: mem

definition buf_create :: "char \<Rightarrow> int \<Rightarrow> uint \<Rightarrow> uint \<Rightarrow> buf_t" where
  "buf_create u base sz res_len =
     \<lparr>b_cur_len = 0, b_reserved_len = res_len, b_node_size = sz, b_base = base,
      b_data = replicate (unat (sz * res_len)) u\<rparr>"

text \<open>
  The growth step the three resizing operations share; the second component is the distance by
  which the data moved, the value they return.  \<open>base\<close> is the address \<^verbatim>\<open>realloc\<close> returned.
\<close>

definition buf_grow :: "char \<Rightarrow> int \<Rightarrow> buf_t \<Rightarrow> buf_t \<times> int" where
  "buf_grow u base b =
     (if b_cur_len b > b_reserved_len b
      then (b\<lparr>b_data := realloc_list u (unat (b_node_size b * b_cur_len b)) (b_data b), b_base := base\<rparr>,
            base - b_base b)
      else (b, 0))"

definition buf_expand :: "char \<Rightarrow> int \<Rightarrow> buf_t \<Rightarrow> uint \<Rightarrow> buf_t \<times> int" where
  "buf_expand u base b add = buf_grow u base (b\<lparr>b_cur_len := b_cur_len b + add\<rparr>)"

definition buf_expand_i :: "char \<Rightarrow> int \<Rightarrow> buf_t \<Rightarrow> int \<Rightarrow> buf_t \<times> int" where
  "buf_expand_i u base b add = buf_grow u base (b\<lparr>b_cur_len := b_cur_len b + word_of_int add\<rparr>)"

definition buf_resize :: "char \<Rightarrow> int \<Rightarrow> buf_t \<Rightarrow> uint \<Rightarrow> buf_t \<times> int" where
  "buf_resize u base b new_size = buf_grow u base (b\<lparr>b_cur_len := new_size\<rparr>)"

definition buf_free :: "char \<Rightarrow> int \<Rightarrow> buf_t \<Rightarrow> buf_t" where
  "buf_free u base b =
     (let b1 = (if b_cur_len b > b_reserved_len b
                then b\<lparr>b_data := realloc_list u (unat (b_node_size b * b_reserved_len b)) (b_data b),
                       b_base := base\<rparr>
                else b)
      in b1\<lparr>b_cur_len := 0\<rparr>)"

text \<open>The cells \<open>0 .. cur_len\<close> and the reserved cells are allocated.\<close>

definition buf_inv :: "buf_t \<Rightarrow> bool" where
  "buf_inv b \<longleftrightarrow>
     unat (b_node_size b) * unat (b_cur_len b) \<le> length (b_data b) \<and>
     unat (b_node_size b) * unat (b_reserved_len b) \<le> length (b_data b)"

text \<open>The size computation of the buffer does not wrap at \<open>n\<close> cells.\<close>

definition buf_fits :: "buf_t \<Rightarrow> nat \<Rightarrow> bool" where
  "buf_fits b n \<longleftrightarrow> n < 2 ^ 32 \<and> unat (b_node_size b) * n < 2 ^ 32"

definition buf_used :: "buf_t \<Rightarrow> mem" where
  "buf_used b = take (unat (b_node_size b) * unat (b_cur_len b)) (b_data b)"

lemma unat_mult_fits: "unat a * unat (b :: uint) < 2 ^ 32 \<Longrightarrow> unat (a * b) = unat a * unat b"
  by (simp add: unat_word_ariths)

lemma buf_create_inv:
  "unat sz * unat n < 2 ^ 32 \<Longrightarrow> buf_inv (buf_create u base sz n) \<and> buf_used (buf_create u base sz n) = []"
  by (simp add: buf_inv_def buf_create_def buf_used_def unat_mult_fits)

lemma buf_grow_ok:
  assumes res: "unat (b_node_size b) * unat (b_reserved_len b) \<le> length (b_data b)"
    and fits: "buf_fits b (unat (b_cur_len b))" and g: "buf_grow u base b = (b', off)"
    and n: "n \<le> unat (b_node_size b) * unat (b_cur_len b)" "n \<le> length (b_data b)"
  shows "buf_inv b' \<and> b_cur_len b' = b_cur_len b \<and> b_reserved_len b' = b_reserved_len b \<and>
         b_node_size b' = b_node_size b \<and> take n (b_data b') = take n (b_data b) \<and>
         (off = 0 \<or> off = b_base b' - b_base b)"
proof (cases "b_cur_len b > b_reserved_len b")
  case True
  then have b': "b' = b\<lparr>b_data := realloc_list u (unat (b_node_size b * b_cur_len b)) (b_data b), b_base := base\<rparr>"
    "off = base - b_base b" using g by (auto simp: buf_grow_def)
  have sz: "unat (b_node_size b * b_cur_len b) = unat (b_node_size b) * unat (b_cur_len b)"
    using fits by (intro unat_mult_fits) (simp add: buf_fits_def)
  have "unat (b_reserved_len b) \<le> unat (b_cur_len b)" using True by (simp add: word_less_nat_alt)
  then show ?thesis using n by (simp add: b' sz buf_inv_def take_realloc_list)
next
  case False
  then have "b' = b" "off = 0" using g by (auto simp: buf_grow_def)
  moreover have "unat (b_cur_len b) \<le> unat (b_reserved_len b)" using False by (simp add: word_less_nat_alt)
  then have "unat (b_node_size b) * unat (b_cur_len b) \<le> length (b_data b)"
    using res by (metis mult_le_mono2 order.trans)
  ultimately show ?thesis using res by (simp add: buf_inv_def)
qed

lemma buf_expand_law:
  assumes inv: "buf_inv b" and fits: "buf_fits b (unat (b_cur_len b) + unat add)"
    and e: "buf_expand u base b add = (b', off)"
  shows "buf_inv b' \<and> unat (b_cur_len b') = unat (b_cur_len b) + unat add \<and>
         take (length (buf_used b)) (buf_used b') = buf_used b \<and>
         (off = 0 \<or> off = b_base b' - b_base b)"
proof -
  let ?b = "b\<lparr>b_cur_len := b_cur_len b + add\<rparr>" and ?n = "unat (b_node_size b) * unat (b_cur_len b)"
  have c: "unat (b_cur_len b + add) = unat (b_cur_len b) + unat add"
    using fits by (simp add: buf_fits_def unat_word_ariths)
  have n: "?n \<le> unat (b_node_size b) * unat (b_cur_len b + add)" by (simp add: c)
  have g: "buf_grow u base ?b = (b', off)" using e by (simp add: buf_expand_def)
  have b': "buf_inv b'" "b_cur_len b' = b_cur_len b + add" "b_node_size b' = b_node_size b"
    "take ?n (b_data b') = take ?n (b_data b)" "off = 0 \<or> off = b_base b' - b_base b"
    using buf_grow_ok [OF _ _ g, of ?n] inv fits n by (auto simp: buf_inv_def buf_fits_def c)
  have "length (buf_used b) = ?n" using inv by (simp add: buf_used_def buf_inv_def)
  moreover have "take ?n (buf_used b') = take ?n (b_data b')"
    using n b' by (simp add: buf_used_def min.absorb1)
  ultimately show ?thesis using b' c by (simp add: buf_used_def)
qed

text \<open>
  Growing a buffer never loses data and never leaves it too small: if the byte size of the
  grown buffer fits 32 bits, all its cells are allocated afterwards and the bytes that were in use
  are unchanged.
\<close>

theorem buf_expand_ok:
  assumes inv: "buf_inv b" and fits: "buf_fits b (unat (b_cur_len b) + unat add)"
    and e: "buf_expand u base b add = (b', off)"
  shows "buf_inv b' \<and> unat (b_cur_len b') = unat (b_cur_len b) + unat add \<and>
         take (length (buf_used b)) (buf_used b') = buf_used b \<and>
         (off = 0 \<or> off = b_base b' - b_base b)"
  by (rule buf_expand_law [OF assms])

theorem buf_expand_ok_witness:
  "\<exists>b'. buf_expand CHR ''u'' 500 (buf_create CHR ''u'' 100 2 1) 3 = (b', 400) \<and> buf_inv b' \<and>
     unat (b_cur_len b') = 3"
proof -
  let ?b = "buf_create CHR ''u'' 100 2 1"
  obtain b' where b': "buf_expand CHR ''u'' 500 ?b 3 = (b', 400)"
    by (simp add: buf_expand_def buf_grow_def buf_create_def)
  have "buf_inv ?b" by (simp add: buf_inv_def buf_create_def)
  from buf_expand_ok [OF this _ b'] b' show ?thesis by (auto simp: buf_fits_def buf_create_def)
qed

text \<open>
  The size computation is 32 bits wide: a buffer of 2-byte cells that grows from
  \<open>2 ^ 31 - 1\<close> to \<open>2 ^ 31\<close> cells is reallocated to zero bytes, so that its cells are no longer
  allocated.
\<close>

theorem buf_expand_wraps:
  assumes "b_node_size b = 2" "b_cur_len b = 0x7FFFFFFF" "b_reserved_len b = 0"
  shows "length (b_data (fst (buf_expand u base b 1))) = 0 \<and> \<not> buf_inv (fst (buf_expand u base b 1))"
  using assms by (simp add: buf_expand_def buf_grow_def buf_inv_def)

theorem buf_expand_wraps_witness:
  "\<not> buf_inv (fst (buf_expand CHR ''u'' 0
      \<lparr>b_cur_len = 0x7FFFFFFF, b_reserved_len = 0, b_node_size = 2, b_base = 0, b_data = []\<rparr> 1))"
  using buf_expand_wraps [of "\<lparr>b_cur_len = 0x7FFFFFFF, b_reserved_len = 0, b_node_size = 2,
      b_base = 0, b_data = []\<rparr>"] by simp

section \<open>Appending to a page\<close>

definition memcpy_at :: "mem \<Rightarrow> nat \<Rightarrow> mem \<Rightarrow> mem option" where
  "memcpy_at m i s =
     (if i + length s \<le> length m then Some (take i m @ s @ drop (i + length s) m) else None)"

definition append_to_buffer :: "char \<Rightarrow> int \<Rightarrow> buf_t \<Rightarrow> string \<Rightarrow> buf_t option" where
  "append_to_buffer u base b s =
     (let b1 = fst (buf_expand u base b (of_nat (length s)))
      in do { d \<leftarrow> memcpy_at (b_data b1) (unat (b_cur_len b1 - of_nat (length s))) s;
              Some (b1\<lparr>b_data := d\<rparr>) })"

lemma append_to_buffer_ok:
  assumes inv: "buf_inv b" "b_node_size b = 1" and room: "length (buf_used b) + length s < 2 ^ 32"
  shows "\<exists>b'. append_to_buffer u base b s = Some b' \<and> buf_inv b' \<and> b_node_size b' = 1 \<and>
           buf_used b' = buf_used b @ s"
proof -
  define n where "n = unat (b_cur_len b)"
  obtain b1 off where e: "buf_expand u base b (of_nat (length s)) = (b1, off)" by (meson surj_pair)
  have n: "length (buf_used b) = n" using inv by (simp add: buf_used_def buf_inv_def n_def)
  have len: "unat (of_nat (length s) :: uint) = length s"
    using room by (simp add: unat_of_nat)
  have ns: "b_node_size b1 = 1" and c: "b_cur_len b1 = b_cur_len b + of_nat (length s)"
    using e inv by (auto simp: buf_expand_def buf_grow_def split: if_splits)
  have b1: "buf_inv b1" "unat (b_cur_len b1) = n + length s" "take n (buf_used b1) = buf_used b"
    using buf_expand_law [OF inv(1) _ e] room inv n by (auto simp: buf_fits_def len n_def)
  have d: "n + length s \<le> length (b_data b1)" using b1 ns by (simp add: buf_inv_def)
  have pos: "unat (b_cur_len b1 - of_nat (length s)) = n" by (simp add: c n_def)
  let ?b' = "b1\<lparr>b_data := take n (b_data b1) @ s @ drop (n + length s) (b_data b1)\<rparr>"
  have ap: "append_to_buffer u base b s = Some ?b'"
    using d by (simp add: append_to_buffer_def e pos memcpy_at_def)
  have iv: "buf_inv ?b'" using b1(1) d by (simp add: buf_inv_def)
  have "take n (b_data b1) = buf_used b"
    using b1 ns d by (simp add: buf_used_def [of b1] min.absorb1)
  moreover have "buf_used (b1\<lparr>b_data := xs @ s @ ys\<rparr>) = xs @ s" if "length xs = n" for xs ys
    using b1(2) ns that by (simp add: buf_used_def)
  ultimately have "buf_used ?b' = buf_used b @ s" using n by metis
  then show ?thesis using ap iv ns by simp
qed

lemma buf_free_ok:
  assumes "buf_inv b" "b_node_size b = 1"
  shows "buf_inv (buf_free u base b) \<and> b_node_size (buf_free u base b) = 1 \<and> buf_used (buf_free u base b) = []"
  using assms by (simp add: buf_free_def buf_inv_def buf_used_def Let_def)

locale byte_buffer =
  fixes inv :: "'b \<Rightarrow> bool"
    and content :: "'b \<Rightarrow> string"
    and app :: "'b \<Rightarrow> string \<Rightarrow> 'b option"
    and clear :: "'b \<Rightarrow> 'b"
  assumes app_law: "inv b \<Longrightarrow> length (content b) + length s < 2 ^ 32 \<Longrightarrow>
      \<exists>b'. app b s = Some b' \<and> inv b' \<and> content b' = content b @ s"
    and clear_law: "inv b \<Longrightarrow> inv (clear b) \<and> content (clear b) = []"
begin

fun app_all :: "'b \<Rightarrow> string list \<Rightarrow> 'b option" where
  "app_all b [] = Some b"
| "app_all b (s # ss) = do { b' \<leftarrow> app b s; app_all b' ss }"

lemma app_all_law:
  "inv b \<Longrightarrow> length (content b) + length (concat ss) < 2 ^ 32 \<Longrightarrow>
   \<exists>b'. app_all b ss = Some b' \<and> inv b' \<and> content b' = content b @ concat ss"
proof (induction ss arbitrary: b)
  case Nil
  then show ?case by simp
next
  case (Cons s ss)
  then obtain b1 where b1: "app b s = Some b1" "inv b1" "content b1 = content b @ s"
    using app_law [of b s] by auto
  then show ?case using Cons.IH [OF b1(2)] Cons.prems by auto
qed

lemma page_of_pieces:
  assumes "inv b" "length (concat ss) < 2 ^ 32"
  shows "\<exists>b'. app_all (clear b) ss = Some b' \<and> inv b' \<and> content b' = concat ss"
  using app_all_law [of "clear b" ss] clear_law [OF assms(1)] assms by auto

end

interpretation page: byte_buffer "\<lambda>b. buf_inv b \<and> b_node_size b = 1" buf_used
    "append_to_buffer u base" "buf_free u base" for u base
proof
  fix b and s :: string
  assume "buf_inv b \<and> b_node_size b = 1" "length (buf_used b) + length s < 2 ^ 32"
  then show "\<exists>b'. append_to_buffer u base b s = Some b' \<and> (buf_inv b' \<and> b_node_size b' = 1) \<and>
      buf_used b' = buf_used b @ s"
    using append_to_buffer_ok [of b s u base] by auto
qed (use buf_free_ok in auto)

end
