(* ===== verification/Common_Strings.thy ===== *)
theory Common_Strings
  imports Prelude
begin

text \<open>
  The string and number helpers of \<^verbatim>\<open>common_functions.c\<close>: \<^verbatim>\<open>str_reverse\<close>, the three
  integer printers (\<^verbatim>\<open>int_to_str\<close>, \<^verbatim>\<open>long_to_str\<close>, \<^verbatim>\<open>int64_to_str\<close>), \<^verbatim>\<open>digits_in_int\<close>,
  the character-class tests, the file predicates and \<^verbatim>\<open>gnu_basename\<close>.  A C string is the list
  of its bytes without the terminating \<^verbatim>\<open>'\0'\<close>.  The printers are verified against the positional
  notation \<open>numeral_of\<close> and against \<^verbatim>\<open>atoi\<close>, which reads their output back.
\<close>

section \<open>Reversal in place\<close>

text \<open>The two-pointer loop at the end of the integer printers.\<close>

function swap_loop :: "nat \<Rightarrow> nat \<Rightarrow> 'a list \<Rightarrow> 'a list" where
  "swap_loop i j xs =
     (if i < j then swap_loop (Suc i) (j - 1) (xs[i := xs ! j, j := xs ! i]) else xs)"
  by pat_completeness auto
termination
  by (relation "measure (\<lambda>(i, j, xs). j - i)") auto

declare swap_loop.simps [simp del]

text \<open>The counting loop of \<^verbatim>\<open>str_reverse\<close>; \<open>len\<close> is the length minus one.\<close>

function str_reverse_loop :: "nat \<Rightarrow> nat \<Rightarrow> nat \<Rightarrow> 'a list \<Rightarrow> 'a list" where
  "str_reverse_loop i half_len len xs =
     (if i < half_len
      then str_reverse_loop (Suc i) half_len len (xs[i := xs ! (len - i), len - i := xs ! i]) else xs)"
  by pat_completeness auto
termination
  by (relation "measure (\<lambda>(i, half_len, len, xs). half_len - i)") auto

declare str_reverse_loop.simps [simp del]

definition str_reverse :: "string \<Rightarrow> string" where
  "str_reverse str = str_reverse_loop 0 (length str div 2) (length str - 1) str"

lemma length_swap_loop [simp]: "length (swap_loop i j xs) = length xs"
  by (induction i j xs rule: swap_loop.induct) (simp add: swap_loop.simps)

lemma swap_loop_nth:
  "j < length xs \<Longrightarrow> k < length xs \<Longrightarrow>
   swap_loop i j xs ! k = (if i \<le> k \<and> k \<le> j then xs ! (i + j - k) else xs ! k)"
proof (induction i j xs rule: swap_loop.induct)
  case (1 i j xs)
  let ?ys = "xs[i := xs ! j, j := xs ! i]"
  show ?case
  proof (cases "i < j")
    case True
    have "swap_loop i j xs ! k = swap_loop (Suc i) (j - 1) ?ys ! k"
      using True by (simp add: swap_loop.simps [of i j])
    also have "\<dots> = (if Suc i \<le> k \<and> k \<le> j - 1 then ?ys ! (Suc i + (j - 1) - k) else ?ys ! k)"
      using True "1.prems" by (intro "1.IH") auto
    also have "\<dots> = (if i \<le> k \<and> k \<le> j then xs ! (i + j - k) else xs ! k)"
      using True "1.prems" by (auto simp: nth_list_update)
    finally show ?thesis .
  next
    case False
    then have "i \<le> k \<and> k \<le> j \<Longrightarrow> i + j - k = k" by auto
    with False show ?thesis by (auto simp: swap_loop.simps [of i j])
  qed
qed

lemma swap_loop_rev: "swap_loop 0 (length xs - 1) xs = rev xs"
proof (cases "xs = []")
  case True
  then show ?thesis by (simp add: swap_loop.simps)
next
  case False
  then show ?thesis by (intro nth_equalityI) (auto simp: swap_loop_nth rev_nth)
qed

lemma str_reverse_loop_swap:
  "half_len = (len + 1) div 2 \<Longrightarrow> i \<le> half_len \<Longrightarrow> len < length xs \<Longrightarrow>
   str_reverse_loop i half_len len xs = swap_loop i (len - i) xs"
proof (induction i half_len len xs rule: str_reverse_loop.induct)
  case (1 i half_len len xs)
  show ?case
  proof (cases "i < half_len")
    case True
    then have "i < len - i \<or> i = len - i" using "1.prems" by auto
    then show ?thesis
    proof
      assume lt: "i < len - i"
      have "str_reverse_loop (Suc i) half_len len (xs[i := xs ! (len - i), len - i := xs ! i]) =
            swap_loop (Suc i) (len - Suc i) (xs[i := xs ! (len - i), len - i := xs ! i])"
        using True "1.prems" by (intro "1.IH") auto
      with True lt show ?thesis
        by (simp add: str_reverse_loop.simps [of i] swap_loop.simps [of i])
    next
      assume eq: "i = len - i"
      then have "Suc i \<ge> half_len" using True "1.prems" by linarith
      with True eq show ?thesis
        by (simp add: str_reverse_loop.simps [of i] str_reverse_loop.simps [of "Suc i"] swap_loop.simps [of i])
    qed
  next
    case False
    then have "\<not> i < len - i" using "1.prems" by linarith
    with False show ?thesis
      by (subst str_reverse_loop.simps, subst swap_loop.simps) simp
  qed
qed

lemma str_reverse_rev: "str_reverse s = rev s"
proof (cases "s = []")
  case True
  then show ?thesis by (simp add: str_reverse_def str_reverse_loop.simps)
next
  case False
  then have "str_reverse s = swap_loop 0 (length s - 1) s"
    unfolding str_reverse_def by (subst str_reverse_loop_swap) auto
  then show ?thesis by (simp only: swap_loop_rev)
qed

section \<open>Printing integers\<close>

text \<open>Division of C integers truncates towards zero.\<close>

definition trunc_div :: "int \<Rightarrow> int \<Rightarrow> int" where
  "trunc_div a b = sgn a * sgn b * (\<bar>a\<bar> div \<bar>b\<bar>)"

definition x_to_str_chartable :: string where
  "x_to_str_chartable =
     ''zyxwvutsrqponmlkjihgfedcba9876543210123456789abcdefghijklmnopqrstuvwxyz''"

text \<open>
  The \<^verbatim>\<open>do ... while (value)\<close> loop: the characters written so far, least significant digit
  first, and the last \<^verbatim>\<open>tmp_value\<close>.  It does not end for a base of one; \<^term>\<open>None\<close> stands for
  that.
\<close>

partial_function (option) x_to_str_loop :: "int \<Rightarrow> int \<Rightarrow> string \<Rightarrow> (string \<times> int) option" where
  "x_to_str_loop value base out =
     (let value' = trunc_div value base;
          out' = out @ [x_to_str_chartable ! nat (35 + (value - value' * base))]
      in if value' = 0 then Some (out', value) else x_to_str_loop value' base out')"

declare x_to_str_loop.simps [code]

definition x_to_str :: "int \<Rightarrow> int \<Rightarrow> string option" where
  "x_to_str value base =
     do { (out, tmp_value) \<leftarrow> x_to_str_loop value base [];
          let out1 = (if tmp_value < 0 then out @ ''-'' else out);
          Some (swap_loop 0 (length out1 - 1) out1) }"

definition int_to_str :: "int \<Rightarrow> int \<Rightarrow> string option" where
  "int_to_str value base = x_to_str value base"

definition long_to_str :: "int \<Rightarrow> int \<Rightarrow> string option" where
  "long_to_str value base = x_to_str value base"

definition int64_to_str :: "int \<Rightarrow> int \<Rightarrow> string option" where
  "int64_to_str value base = x_to_str value base"

function digits_in_int_loop :: "int \<Rightarrow> nat \<Rightarrow> nat" where
  "digits_in_int_loop n i =
     (let n' = trunc_div n 10 in if n' \<noteq> 0 then digits_in_int_loop n' (i + 1) else i)"
  by pat_completeness auto
termination
proof (relation "measure (\<lambda>(n, i). nat \<bar>n\<bar>)")
  fix n :: int and i :: nat and n' assume "n' = trunc_div n 10" "n' \<noteq> 0"
  then have "\<bar>n'\<bar> = \<bar>n\<bar> div 10" "0 < \<bar>n\<bar>" by (auto simp: trunc_div_def abs_mult abs_sgn_eq)
  then show "((n', i + 1), n, i) \<in> measure (\<lambda>(n, i). nat \<bar>n\<bar>)" by auto
qed simp

declare digits_in_int_loop.simps [simp del]

definition digits_in_int :: "int \<Rightarrow> nat" where
  "digits_in_int n = digits_in_int_loop n 1"

text \<open>Positional notation, the reference the printers are compared with.\<close>

definition digit_char :: "nat \<Rightarrow> char" where
  "digit_char d = x_to_str_chartable ! (35 + d)"

fun numeral_of :: "nat \<Rightarrow> nat \<Rightarrow> string" where
  "numeral_of b n = (if b < 2 \<or> n < b then [digit_char n] else numeral_of b (n div b) @ [digit_char (n mod b)])"

declare numeral_of.simps [simp del]

lemma numeral_of_nonempty [simp]: "numeral_of b n \<noteq> []"
  by (subst numeral_of.simps) simp

lemma chartable_symmetric: "d < 36 \<Longrightarrow> x_to_str_chartable ! (35 - d) = digit_char d"
proof -
  have "\<forall>d \<in> {..<36}. x_to_str_chartable ! (35 - d) = x_to_str_chartable ! (35 + d)"
    by (simp add: lessThan_nat_numeral lessThan_Suc x_to_str_chartable_def)
  then show "d < 36 \<Longrightarrow> x_to_str_chartable ! (35 - d) = digit_char d" by (simp add: digit_char_def)
qed

lemma trunc_rem:
  assumes "2 \<le> b"
  shows "v - trunc_div v (int b) * int b = sgn v * int (nat \<bar>v\<bar> mod b)"
proof -
  have "\<bar>v\<bar> - (\<bar>v\<bar> div int b) * int b = \<bar>v\<bar> mod int b" by (simp add: minus_div_mult_eq_mod)
  then have m: "sgn v * (\<bar>v\<bar> - (\<bar>v\<bar> div int b) * int b) = sgn v * (\<bar>v\<bar> mod int b)" by simp
  have "sgn v * (\<bar>v\<bar> - (\<bar>v\<bar> div int b) * int b) = v - trunc_div v (int b) * int b"
    using assms by (simp add: trunc_div_def algebra_simps abs_mult_sgn)
  moreover have "\<bar>v\<bar> mod int b = int (nat \<bar>v\<bar> mod b)" by (simp add: zmod_int)
  ultimately show ?thesis using m by simp
qed

lemma digit_step:
  assumes "2 \<le> b" "b \<le> 36"
  shows "x_to_str_chartable ! nat (35 + (v - trunc_div v (int b) * int b)) = digit_char (nat \<bar>v\<bar> mod b)"
proof -
  let ?r = "nat \<bar>v\<bar> mod b"
  have r: "?r < 36" using assms by (meson less_le_trans mod_less_divisor zero_less_numeral)
  have "v < 0 \<or> v = 0 \<or> v > 0" by auto
  then show ?thesis unfolding trunc_rem [OF assms(1)]
    using chartable_symmetric [OF r] r by (auto simp: digit_char_def nat_diff_distrib' nat_add_distrib of_nat_diff)
qed

lemma nat_abs_trunc_div: "0 < b \<Longrightarrow> nat \<bar>trunc_div v (int b)\<bar> = nat \<bar>v\<bar> div b"
proof -
  assume "0 < b"
  then have "\<bar>trunc_div v (int b)\<bar> = \<bar>v\<bar> div int b"
    by (auto simp: trunc_div_def abs_mult abs_sgn_eq pos_imp_zdiv_nonneg_iff)
  then show ?thesis by (simp add: nat_div_distrib)
qed

lemma sgn_trunc_div:
  assumes "trunc_div v (int b) \<noteq> 0" "0 < b" shows "trunc_div v (int b) < 0 \<longleftrightarrow> v < 0"
proof -
  have "0 \<le> \<bar>v\<bar> div int b" using assms(2) by (simp add: pos_imp_zdiv_nonneg_iff)
  moreover have "trunc_div v (int b) = sgn v * (\<bar>v\<bar> div int b)"
    using assms(2) by (simp add: trunc_div_def sgn_if)
  ultimately show ?thesis using assms(1) by (auto simp: sgn_if split: if_splits)
qed

lemma x_to_str_loop_ok:
  assumes b: "2 \<le> b" "b \<le> 36"
  shows "\<exists>t. x_to_str_loop v (int b) out = Some (out @ rev (numeral_of b (nat \<bar>v\<bar>)), t) \<and> (t < 0 \<longleftrightarrow> v < 0)"
proof (induction "nat \<bar>v\<bar>" arbitrary: v out rule: less_induct)
  case less
  let ?v' = "trunc_div v (int b)" and ?n = "nat \<bar>v\<bar>"
  have v': "nat \<bar>?v'\<bar> = ?n div b" using b by (simp add: nat_abs_trunc_div)
  have z: "?v' = 0 \<longleftrightarrow> ?n < b" 
  proof -
    have "?v' = 0 \<longleftrightarrow> nat \<bar>?v'\<bar> = 0" by auto
    also have "\<dots> \<longleftrightarrow> ?n < b" using b unfolding v' by (simp add: div_eq_0_iff)
    finally show ?thesis .
  qed
  have step: "x_to_str_loop v (int b) out = (if ?v' = 0 then Some (out @ [digit_char (?n mod b)], v)
      else x_to_str_loop ?v' (int b) (out @ [digit_char (?n mod b)]))"
    by (subst x_to_str_loop.simps) (simp only: Let_def digit_step [OF b])
  show ?case
  proof (cases "?n < b")
    case True
    then show ?thesis using z b by (simp add: step numeral_of.simps [of b ?n])
  next
    case False
    then have lt: "nat \<bar>?v'\<bar> < nat \<bar>v\<bar>" using b by (auto simp: v' intro!: div_less_dividend)
    obtain t where "x_to_str_loop ?v' (int b) (out @ [digit_char (?n mod b)]) =
        Some ((out @ [digit_char (?n mod b)]) @ rev (numeral_of b (?n div b)), t)" "t < 0 \<longleftrightarrow> ?v' < 0"
      using less.hyps [OF lt, of "out @ [digit_char (?n mod b)]"] v' by auto
    then show ?thesis using False z b sgn_trunc_div [of v b] by (simp add: step numeral_of.simps [of b ?n])
  qed
qed

lemma x_to_str_numeral:
  assumes "2 \<le> b" "b \<le> 36"
  shows "x_to_str v (int b) = Some ((if v < 0 then ''-'' else []) @ numeral_of b (nat \<bar>v\<bar>))"
proof -
  obtain t where "x_to_str_loop v (int b) [] = Some (rev (numeral_of b (nat \<bar>v\<bar>)), t)" "t < 0 \<longleftrightarrow> v < 0"
    using x_to_str_loop_ok [OF assms, of v "[]"] by auto
  moreover have "swap_loop 0 (length xs - 1) xs = rev xs" for xs :: string by (rule swap_loop_rev)
  ultimately show ?thesis by (simp add: x_to_str_def Let_def del: One_nat_def)
qed

lemma digit_char_digit: "d < 10 \<Longrightarrow> IS_DIGIT (digit_char d) \<and> ord (digit_char d) = 48 + d"
proof -
  have "\<forall>d \<in> {..<10}. IS_DIGIT (digit_char d) \<and> ord (digit_char d) = 48 + d"
    by (simp add: lessThan_nat_numeral lessThan_Suc x_to_str_chartable_def digit_char_def IS_DIGIT_def)
  then show "d < 10 \<Longrightarrow> IS_DIGIT (digit_char d) \<and> ord (digit_char d) = 48 + d" by simp
qed

lemma digits_value_append:
  "\<forall>c \<in> set xs. IS_DIGIT c \<Longrightarrow> digits_value acc (xs @ ys) = digits_value (digits_value acc xs) ys"
  by (induction xs arbitrary: acc) auto

lemma numeral_of_10: "(\<forall>c \<in> set (numeral_of 10 n). IS_DIGIT c) \<and> digits_value 0 (numeral_of 10 n) = n"
proof (induction n rule: less_induct)
  case (less n)
  show ?case
  proof (cases "n < 10")
    case True
    then show ?thesis using digit_char_digit [OF True] by (simp add: numeral_of.simps [of 10 n])
  next
    case False
    then have "n div 10 < n" by simp
    from less.IH [OF this] digit_char_digit [of "n mod 10"] False
    show ?thesis by (simp add: numeral_of.simps [of 10 n] digits_value_append)
  qed
qed

lemma numeral_of_length:
  assumes "2 \<le> b" shows "n < b ^ k \<Longrightarrow> 0 < k \<Longrightarrow> length (numeral_of b n) \<le> k"
proof (induction k arbitrary: n)
  case 0
  then show ?case by simp
next
  case (Suc k)
  show ?case
  proof (cases "n < b")
    case True
    then show ?thesis by (simp add: numeral_of.simps [of b n])
  next
    case False
    with Suc.prems assms have "n div b < b ^ k" "0 < k"
      by (auto simp: less_mult_imp_div_less mult.commute intro!: Suc_leI) (metis gr0I power_0 mult_1_right not_less)
    with Suc.IH False assms show ?thesis by (simp add: numeral_of.simps [of b n])
  qed
qed

lemma digits_in_int_loop_numeral:
  "digits_in_int_loop n i + 1 = i + length (numeral_of 10 (nat \<bar>n\<bar>))"
proof (induction "nat \<bar>n\<bar>" arbitrary: n i rule: less_induct)
  case less
  have v': "nat \<bar>trunc_div n 10\<bar> = nat \<bar>n\<bar> div 10" using nat_abs_trunc_div [of 10 n] by simp
  show ?case
  proof (cases "nat \<bar>n\<bar> < 10")
    case True
    then have "trunc_div n 10 = 0" using v' by simp
    then show ?thesis using True by (simp add: digits_in_int_loop.simps [of n] numeral_of.simps [of 10 "nat \<bar>n\<bar>"])
  next
    case False
    then have nz: "trunc_div n 10 \<noteq> 0" and lt: "nat \<bar>trunc_div n 10\<bar> < nat \<bar>n\<bar>"
      using v' by (auto simp: div_eq_0_iff)
    from less.hyps [OF lt, of "i + 1"] nz False v' show ?thesis
      by (simp add: digits_in_int_loop.simps [of n] numeral_of.simps [of 10 "nat \<bar>n\<bar>"])
  qed
qed

text \<open>
  Every integer printer returns, for each base the character table supports, and writes the
  sign followed by the positional notation of the magnitude; this covers the most negative value,
  whose magnitude has no positive counterpart in its type.
\<close>

theorem int64_to_str_correct:
  assumes "2 \<le> b" "b \<le> 36" and "- (2 ^ 63) \<le> v" "v < 2 ^ 63"
  shows "int64_to_str v (int b) = Some ((if v < 0 then ''-'' else []) @ numeral_of b (nat \<bar>v\<bar>))"
  unfolding int64_to_str_def by (rule x_to_str_numeral [OF assms(1,2)])

theorem int64_to_str_correct_witness:
  "int64_to_str (- (2 ^ 63)) 10 = Some ''-9223372036854775808''"
  using int64_to_str_correct [of 10 "- (2 ^ 63)"]
  by (simp add: numeral_of.simps digit_char_def x_to_str_chartable_def)

text \<open>
  Printing a 32-bit integer in base ten and reading it back with \<^verbatim>\<open>atoi\<close> is the identity,
  and the text has exactly \<^verbatim>\<open>digits_in_int\<close> characters besides the sign, which is what the
  configuration reserves for the keep-alive timeout.
\<close>

theorem int_to_str_atoi:
  assumes "- (2 ^ 31) \<le> v" "v < 2 ^ 31"
  shows "\<exists>s. int_to_str v 10 = Some s \<and> atoi s = v \<and>
           length s = digits_in_int v + (if v < 0 then 1 else 0)"
proof -
  let ?d = "numeral_of 10 (nat \<bar>v\<bar>)" and ?s = "(if v < 0 then ''-'' else []) @ numeral_of 10 (nat \<bar>v\<bar>)"
  have s: "int_to_str v 10 = Some ?s" using x_to_str_numeral [of 10 v] by (simp add: int_to_str_def)
  obtain c cs where d: "?d = c # cs" by (cases ?d) auto
  have dig: "IS_DIGIT c" and val: "digits_value 0 (c # cs) = nat \<bar>v\<bar>"
    using numeral_of_10 [of "nat \<bar>v\<bar>"] d by auto
  then have "\<not> isspace c" "c \<noteq> CHR ''-''" "c \<noteq> CHR ''+''" by (auto simp: IS_DIGIT_def isspace_def)
  then have "strtol ?s = v"
    using assms val dig unfolding d by (auto simp: strtol_def isspace_def)
  moreover have "signed_take_bit 31 v = v" using assms by (intro signed_take_bit_int_eq_self) auto
  moreover have "length ?d = digits_in_int v"
    using digits_in_int_loop_numeral [of v 1] by (simp add: digits_in_int_def)
  ultimately show ?thesis using s by (simp add: atoi_def)
qed

theorem int_to_str_atoi_witness:
  "\<exists>s. int_to_str (-2147483648) 10 = Some s \<and> atoi s = -2147483648 \<and> length s = digits_in_int (-2147483648) + 1"
  using int_to_str_atoi [of "-2147483648"] by simp

text \<open>
  The fixed buffers the printers write into are large enough for every value of their type:
  \<^verbatim>\<open>char content_length[24]\<close> for a 64-bit decimal, \<^verbatim>\<open>char tmpid[10]\<close> for a socket number in base
  32, \<^verbatim>\<open>char port_str[8]\<close> for a 16-bit port (each with its terminator).
\<close>

theorem printer_buffers_suffice:
  "(\<forall>v s. - (2 ^ 63) \<le> v \<and> v < 2 ^ 63 \<and> int64_to_str v 10 = Some s \<longrightarrow> length s + 1 \<le> 24) \<and>
   (\<forall>v s. - (2 ^ 31) \<le> v \<and> v < 2 ^ 31 \<and> int_to_str v 32 = Some s \<longrightarrow> length s + 1 \<le> 10) \<and>
   (\<forall>v s. 0 \<le> v \<and> v < 2 ^ 16 \<and> int_to_str v 10 = Some s \<longrightarrow> length s + 1 \<le> 8)"
proof (intro conjI allI impI; elim conjE)
  fix v s assume v: "- (2 ^ 63) \<le> v" "v < 2 ^ 63" and s: "int64_to_str v 10 = Some s"
  have "length (numeral_of 10 (nat \<bar>v\<bar>)) \<le> 20" using v by (intro numeral_of_length) auto
  then show "length s + 1 \<le> 24" using s x_to_str_numeral [of 10 v] by (auto simp: int64_to_str_def)
next
  fix v s assume v: "- (2 ^ 31) \<le> v" "v < 2 ^ 31" and s: "int_to_str v 32 = Some s"
  have "length (numeral_of 32 (nat \<bar>v\<bar>)) \<le> 7" using v by (intro numeral_of_length) auto
  then show "length s + 1 \<le> 10" using s x_to_str_numeral [of 32 v] by (auto simp: int_to_str_def)
next
  fix v :: int and s assume v: "0 \<le> v" "v < 2 ^ 16" and s: "int_to_str v 10 = Some s"
  have "length (numeral_of 10 (nat \<bar>v\<bar>)) \<le> 5" using v by (intro numeral_of_length) auto
  then show "length s + 1 \<le> 8" using s v x_to_str_numeral [of 10 v] by (auto simp: int_to_str_def)
qed

theorem printer_buffers_suffice_witness:
  "int64_to_str (- 256) 10 = Some ''-256'' \<and> length ''-256'' + 1 \<le> 24"
proof -
  have e: "int64_to_str (- 256) 10 = Some ''-256''"
    using x_to_str_numeral [of 10 "- 256"]
    by (simp add: int64_to_str_def numeral_of.simps digit_char_def x_to_str_chartable_def)
  have "- (2 ^ 63) \<le> (- 256 :: int) \<and> (- 256 :: int) < 2 ^ 63 \<and> int64_to_str (- 256) 10 = Some ''-256'' \<longrightarrow>
        length ''-256'' + 1 \<le> 24"
    using printer_buffers_suffice by blast
  with e show ?thesis by simp
qed

section \<open>Character strings\<close>

text \<open>The length-and-pointer strings \<^verbatim>\<open>str_t\<close> and \<^verbatim>\<open>u_str_t\<close>, by value.\<close>

record str_t =
  s_str :: mem
  s_len :: nat

definition strlen :: "mem \<Rightarrow> nat" where
  "strlen src = length (takeWhile (\<lambda>c. c \<noteq> NUL) src)"

definition set_str :: "mem \<Rightarrow> str_t" where
  "set_str src = \<lparr>s_str = src, s_len = strlen src\<rparr>"

text \<open>The copying variants also take the terminator along.\<close>

definition set_cpy_str :: "mem \<Rightarrow> str_t" where
  "set_cpy_str src = (let len = strlen src in \<lparr>s_str = take (len + 1) src, s_len = len\<rparr>)"

definition str_to_lower :: "string \<Rightarrow> string" where
  "str_to_lower str = map TO_LOWER str"

definition is_num :: "string \<Rightarrow> bool" where
  "is_num str = list_all IS_DIGIT (case str of c # cs \<Rightarrow> (if c = CHR ''-'' then cs else str) | [] \<Rightarrow> [])"

definition is_path_absolute :: "string \<Rightarrow> bool" where
  "is_path_absolute path = (length path > 1 \<and> path ! 0 = CHR ''/'')"

text \<open>
  The backward loop of \<^verbatim>\<open>gnu_basename\<close>, from the last character down to, not including, the
  first: the offset of the returned pointer.
\<close>

fun gnu_basename_loop :: "string \<Rightarrow> nat \<Rightarrow> nat" where
  "gnu_basename_loop path 0 = 0"
| "gnu_basename_loop path (Suc p) =
     (if path ! Suc p = CHR ''/'' then Suc (Suc p) else gnu_basename_loop path p)"

definition gnu_basename :: "string \<Rightarrow> nat" where
  "gnu_basename path = (if path = [] then 0 else gnu_basename_loop path (length path - 1))"

lemma set_cpy_str_same:
  assumes "NUL \<in> set src"
  shows "s_len (set_cpy_str src) = s_len (set_str src)"
    and "length (s_str (set_cpy_str src)) = s_len (set_cpy_str src) + 1"
    and "cstr (s_str (set_cpy_str src)) = cstr src"
    and "s_str (set_cpy_str src) ! s_len (set_cpy_str src) = NUL"
proof -
  let ?a = "takeWhile (\<lambda>c. c \<noteq> NUL) src"
  obtain a b where "src = a @ NUL # b" "NUL \<notin> set a" using split_list_first [OF assms] by blast
  then have s: "src = a @ NUL # b" "?a = a" by (auto simp: takeWhile_tail takeWhile_append)
  show "s_len (set_cpy_str src) = s_len (set_str src)"
    "length (s_str (set_cpy_str src)) = s_len (set_cpy_str src) + 1"
    "cstr (s_str (set_cpy_str src)) = cstr src"
    "s_str (set_cpy_str src) ! s_len (set_cpy_str src) = NUL"
    using s \<open>NUL \<notin> set a\<close>
    by (auto simp: set_cpy_str_def set_str_def strlen_def Let_def cstr_def takeWhile_append)
qed

lemma str_to_lower_props:
  "length (str_to_lower s) = length s" "str_to_lower (str_to_lower s) = str_to_lower s"
  "\<forall>c \<in> set (str_to_lower s). \<not> IS_UPPER c"
  by (auto simp: str_to_lower_def TO_LOWER_not_upper)

lemma gnu_basename_loop_spec:
  "i < length path \<Longrightarrow> \<forall>k. i < k \<and> k < length path \<longrightarrow> path ! k \<noteq> CHR ''/'' \<Longrightarrow>
   (let b = gnu_basename_loop path i in
     b \<le> length path \<and> (\<forall>k. b \<le> k \<and> 0 < k \<and> k < length path \<longrightarrow> path ! k \<noteq> CHR ''/'') \<and>
     (b \<noteq> 0 \<longrightarrow> path ! (b - 1) = CHR ''/''))"
proof (induction path i rule: gnu_basename_loop.induct)
  case (1 path)
  then show ?case by (auto simp: Let_def)
next
  case (2 path p)
  show ?case
  proof (cases "path ! Suc p = CHR ''/''")
    case True
    with 2 show ?thesis by (auto simp: Let_def)
  next
    case False
    have "\<forall>k. p < k \<and> k < length path \<longrightarrow> path ! k \<noteq> CHR ''/''"
      using False "2.prems"(2) by (metis Suc_lessI)
    with False 2 show ?thesis by simp
  qed
qed

text \<open>
  \<^verbatim>\<open>gnu_basename\<close> stays inside its argument and returns what follows the last slash, with
  one exception the loop bound causes: a slash at the very first position is never looked at, so the
  base name of \<^verbatim>\<open>"/foo"\<close> is \<^verbatim>\<open>"/foo"\<close>.
\<close>

theorem gnu_basename_after_last_slash:
  "let b = gnu_basename path; base = drop b path in
     b \<le> length path \<and> CHR ''/'' \<notin> set (if b = 0 then tl base else base) \<and>
     (b \<noteq> 0 \<longrightarrow> path ! (b - 1) = CHR ''/'')"
proof (cases "path = []")
  case True
  then show ?thesis by (simp add: gnu_basename_def)
next
  case False
  let ?b = "gnu_basename path"
  have b: "?b \<le> length path" "\<forall>k. ?b \<le> k \<and> 0 < k \<and> k < length path \<longrightarrow> path ! k \<noteq> CHR ''/''"
    "?b \<noteq> 0 \<longrightarrow> path ! (?b - 1) = CHR ''/''"
  proof -
    have "length path - 1 < length path" "\<forall>k. length path - 1 < k \<and> k < length path \<longrightarrow> path ! k \<noteq> CHR ''/''"
      using False by auto
    from gnu_basename_loop_spec [OF this] False
    show "?b \<le> length path" "\<forall>k. ?b \<le> k \<and> 0 < k \<and> k < length path \<longrightarrow> path ! k \<noteq> CHR ''/''"
      "?b \<noteq> 0 \<longrightarrow> path ! (?b - 1) = CHR ''/''" by (simp_all add: gnu_basename_def Let_def)
  qed
  have "CHR ''/'' \<notin> set (drop (if ?b = 0 then 1 else ?b) path)"
    using b(2) by (auto simp: in_set_conv_nth)
  then show ?thesis using b by (auto simp: Let_def drop_Suc)
qed

theorem gnu_basename_after_last_slash_witness:
  "gnu_basename ''src/core_http.c'' = 4 \<and> ''src/core_http.c'' ! 3 = CHR ''/'' \<and> gnu_basename ''/foo'' = 0"
  using gnu_basename_after_last_slash [of "''src/core_http.c''"]
  by (simp add: gnu_basename_def eval_nat_numeral Let_def)

section \<open>Files\<close>

text \<open>
  \<^verbatim>\<open>stat\<close> is a parameter: it maps a path to \<^verbatim>\<open>st_mode\<close>, \<^term>\<open>None\<close> is its error return.  The
  constants are those of \<^verbatim>\<open>sys/stat.h\<close>.
\<close>

type_synonym mode_t = "16 word"

datatype io_access_rights = IOAR_FULL | IOAR_RW | IOAR_W | IOAR_R | IOAR_NONE

definition S_IFMT :: mode_t where "S_IFMT = 0xF000"
definition S_IFREG :: mode_t where "S_IFREG = 0x8000"
definition S_IFDIR :: mode_t where "S_IFDIR = 0x4000"
definition S_IRUSR :: mode_t where "S_IRUSR = 0x100"
definition S_IWUSR :: mode_t where "S_IWUSR = 0x080"
definition S_IXUSR :: mode_t where "S_IXUSR = 0x040"

unbundle bit_operations_syntax

definition is_file_exists :: "(string \<Rightarrow> mode_t option) \<Rightarrow> string \<Rightarrow> bool" where
  "is_file_exists stat path = (case stat path of
      None \<Rightarrow> False
    | Some st_mode \<Rightarrow> if st_mode AND S_IFMT = S_IFREG then True else False)"

definition is_directory_exists :: "(string \<Rightarrow> mode_t option) \<Rightarrow> string \<Rightarrow> io_access_rights \<Rightarrow> bool" where
  "is_directory_exists stat path ar = (case stat path of
      None \<Rightarrow> False
    | Some st_mode \<Rightarrow>
        if st_mode AND S_IFMT = S_IFDIR then
          (case ar of
             IOAR_FULL \<Rightarrow> st_mode AND (S_IRUSR OR S_IWUSR OR S_IXUSR) = S_IRUSR OR S_IWUSR OR S_IXUSR
           | IOAR_RW \<Rightarrow> st_mode AND (S_IRUSR OR S_IWUSR) = S_IRUSR OR S_IWUSR
           | IOAR_W \<Rightarrow> st_mode AND S_IWUSR = S_IWUSR
           | IOAR_R \<Rightarrow> st_mode AND S_IRUSR = S_IRUSR
           | IOAR_NONE \<Rightarrow> True)
        else False)"

definition is_node_exists :: "(string \<Rightarrow> mode_t option) \<Rightarrow> string \<Rightarrow> bool" where
  "is_node_exists stat path = (stat path \<noteq> None)"

text \<open>
  \<^verbatim>\<open>load_file_contents\<close>: the three system calls are arguments (\<^verbatim>\<open>open\<close>'s success, the offset
  \<^verbatim>\<open>lseek\<close> reports, and what \<^verbatim>\<open>read\<close> delivers, possibly fewer bytes than asked for);
  \<open>junk\<close> is the previous contents of the fresh block.  The state counts open descriptors and live
  blocks, so that a leak on an error path is visible.
\<close>

record res_state =
  r_fds :: nat
  r_blocks :: nat

definition load_file_contents ::
  "bool \<Rightarrow> int \<Rightarrow> string option \<Rightarrow> mem \<Rightarrow> res_state \<Rightarrow> str_t option \<times> res_state" where
  "load_file_contents open_ok size0 rd_res junk st =
     (if \<not> open_ok then (None, st)
      else
        let st = st\<lparr>r_fds := r_fds st + 1\<rparr> in
        if size0 = -1 then (None, st\<lparr>r_fds := r_fds st - 1\<rparr>)
        else
          let content = take (nat (size0 + 1)) junk;
              st = st\<lparr>r_blocks := r_blocks st + 1\<rparr> in
          case rd_res of
            None \<Rightarrow> (None, st\<lparr>r_blocks := r_blocks st - 1, r_fds := r_fds st - 1\<rparr>)
          | Some bytes \<Rightarrow>
              let content = bytes @ drop (length bytes) content;
                  st = st\<lparr>r_fds := r_fds st - 1\<rparr>;
                  content = content[nat size0 := NUL] in
              (Some \<lparr>s_str = content, s_len = nat size0\<rparr>, st))"

text \<open>
  \<^verbatim>\<open>load_file_contents\<close> gives back every resource on every error path, and on success leaves
  exactly one block behind: the bytes of the file (when the read is complete) and a terminator.
\<close>

theorem load_file_contents_ok:
  assumes junk: "length junk = nat (size0 + 1)" and sz: "-1 \<le> size0"
    and rd: "\<forall>b. rd_res = Some b \<longrightarrow> length b \<le> nat size0"
  shows "case load_file_contents open_ok size0 rd_res junk st of
      (None, st') \<Rightarrow> st' = st \<and> (\<not> open_ok \<or> size0 = -1 \<or> rd_res = None)
    | (Some out, st') \<Rightarrow> r_fds st' = r_fds st \<and> r_blocks st' = r_blocks st + 1 \<and>
        length (s_str out) = s_len out + 1 \<and> s_str out ! s_len out = NUL \<and>
        (\<forall>b. rd_res = Some b \<and> length b = nat size0 \<longrightarrow> s_str out = b @ [NUL])"
proof (cases "open_ok \<and> size0 \<noteq> -1 \<and> rd_res \<noteq> None")
  case True
  then obtain b where b: "rd_res = Some b" by auto
  let ?c = "(b @ drop (length b) junk)[nat size0 := NUL]"
  have n: "nat (size0 + 1) = nat size0 + 1" and l: "length b \<le> nat size0" using True sz b rd by auto
  have len: "length (b @ drop (length b) junk) = nat size0 + 1" using l junk n by simp
  have full: "?c = b @ [NUL]" if "length b = nat size0"
  proof -
    have "length (drop (length b) junk) = 1" using that junk n by simp
    then obtain x where "drop (length b) junk = [x]" by (auto simp del: length_drop simp: length_Suc_conv)
    then show ?thesis using that by (simp add: list_update_append)
  qed
  show ?thesis
    using True b len full junk by (simp add: load_file_contents_def Let_def)
next
  case False
  then show ?thesis by (auto simp: load_file_contents_def Let_def)
qed

theorem load_file_contents_ok_witness:
  "load_file_contents True 2 (Some ''ok'') ''???'' \<lparr>r_fds = 3, r_blocks = 7\<rparr> =
     (Some \<lparr>s_str = ''ok'' @ [NUL], s_len = 2\<rparr>, \<lparr>r_fds = 3, r_blocks = 8\<rparr>)"
  using load_file_contents_ok [of "''???''" 2 "Some ''ok''" "\<lparr>r_fds = 3, r_blocks = 7\<rparr>" True]
  by (simp add: load_file_contents_def Let_def eval_nat_numeral)

text \<open>Saving, changing and restoring the working directory; \<open>-1\<close> is \<^verbatim>\<open>open\<close>'s error return.\<close>

record cwd_state =
  w_cwd :: string
  w_saved :: "(nat \<times> string) list"

definition save_cwd :: "nat option \<Rightarrow> cwd_state \<Rightarrow> nat option \<times> cwd_state" where
  "save_cwd fd st = (case fd of None \<Rightarrow> (None, st)
     | Some d \<Rightarrow> (Some d, st\<lparr>w_saved := (d, w_cwd st) # w_saved st\<rparr>))"

definition close_dir :: "nat option \<Rightarrow> cwd_state \<Rightarrow> cwd_state" where
  "close_dir fd st = (case fd of None \<Rightarrow> st | Some d \<Rightarrow> st\<lparr>w_saved := filter (\<lambda>e. fst e \<noteq> d) (w_saved st)\<rparr>)"

definition save_and_change_cwd ::
  "nat option \<Rightarrow> (string \<Rightarrow> bool) \<Rightarrow> string \<Rightarrow> cwd_state \<Rightarrow> nat option \<times> cwd_state" where
  "save_and_change_cwd fd chdir_ok path st =
     (let (ret, st) = save_cwd fd st in
      if \<not> chdir_ok path then (None, close_dir ret st)
      else (ret, st\<lparr>w_cwd := path\<rparr>))"

definition restore_cwd :: "nat option \<Rightarrow> cwd_state \<Rightarrow> bool \<times> cwd_state" where
  "restore_cwd d st = (case d of
      None \<Rightarrow> (False, st)
    | Some fd \<Rightarrow>
        let ret = map_of (w_saved st) fd;
            st' = (case ret of None \<Rightarrow> st | Some p \<Rightarrow> st\<lparr>w_cwd := p\<rparr>) in
        (ret \<noteq> None, close_dir (Some fd) st'))"

text \<open>
  \<^verbatim>\<open>restore_cwd\<close> undoes \<^verbatim>\<open>save_and_change_cwd\<close>: after a successful pair of calls the
  process is back in its old directory with no descriptor left open, and a failing \<^verbatim>\<open>chdir\<close>
  changes nothing.
\<close>

theorem save_restore_cwd:
  assumes "\<forall>e \<in> set (w_saved st). fst e \<noteq> d"
  shows "if chdir_ok path
         then (let (r, st') = save_and_change_cwd (Some d) chdir_ok path st in
                w_cwd st' = path \<and> restore_cwd r st' = (True, st))
         else save_and_change_cwd (Some d) chdir_ok path st = (None, st)"
proof -
  have "filter (\<lambda>e. fst e \<noteq> d) (w_saved st) = w_saved st" using assms by (simp add: filter_id_conv)
  then show ?thesis
    by (simp add: save_and_change_cwd_def save_cwd_def restore_cwd_def close_dir_def)
qed

theorem save_restore_cwd_witness:
  "restore_cwd (Some 5) \<lparr>w_cwd = ''/data'', w_saved = [(5, ''/'')]\<rparr> = (True, \<lparr>w_cwd = ''/'', w_saved = []\<rparr>)"
  using save_restore_cwd [of "\<lparr>w_cwd = ''/'', w_saved = []\<rparr>" 5 "\<lambda>_. True" "''/data''"]
  by (simp add: save_and_change_cwd_def save_cwd_def)

end
