(* ===== verification/Http_Url.thy ===== *)
theory Http_Url
  imports Common_Strings
begin

text \<open>
  Decoding of URLs in \<^verbatim>\<open>core_http.c\<close>: percent escapes (\<^verbatim>\<open>http_hex_to_ascii\<close>), the
  key-value parser \<^verbatim>\<open>http_parse__\<close> behind \<^verbatim>\<open>http_parse_query_string\<close>,
  \<^verbatim>\<open>http_parse_cookies\<close> and URL-encoded bodies, and \<^verbatim>\<open>http_divide_uri\<close>, which splits a
  request URI into the path and the query string.

  The parser only moves forward, so its position is the rest of the memory it has not passed
  yet; running off the end of the memory (past the terminator) is an explicit outcome.  The loops
  are verified against \<open>url_fields\<close>, which says which fields a string has and what they decode
  to, and \<open>url_fields\<close> against the encoder \<open>url_encode\<close>.
\<close>

section \<open>Percent escapes\<close>

definition h2a_table_1 :: "nat list" where
  "h2a_table_1 = replicate 48 0x20 @
     [0x20, 0x10, 0x20, 0x30, 0x40, 0x50, 0x60, 0x70, 0x80, 0x90, 0x20, 0x20, 0x20, 0x20, 0x20, 0x20] @
     [0x20, 0xA0, 0xB0, 0xC0, 0xD0, 0xE0, 0xF0, 0x20, 0x20, 0x20, 0x20, 0x20, 0x20, 0x20, 0x20, 0x20] @
     replicate 16 0x20 @
     [0x20, 0xA0, 0xB0, 0xC0, 0xD0, 0xE0, 0xF0, 0x20, 0x20, 0x20, 0x20, 0x20, 0x20, 0x20, 0x20, 0x20] @
     replicate 16 0x20"

definition h2a_table_2 :: "nat list" where
  "h2a_table_2 = replicate 48 0x00 @
     [0x00, 0x01, 0x02, 0x03, 0x04, 0x05, 0x06, 0x07, 0x08, 0x09, 0x00, 0x00, 0x00, 0x00, 0x00, 0x00] @
     [0x00, 0x0A, 0x0B, 0x0C, 0x0D, 0x0E, 0x0F, 0x00, 0x00, 0x00, 0x00, 0x00, 0x00, 0x00, 0x00, 0x00] @
     replicate 16 0x00 @
     [0x00, 0x0A, 0x0B, 0x0C, 0x0D, 0x0E, 0x0F, 0x00, 0x00, 0x00, 0x00, 0x00, 0x00, 0x00, 0x00, 0x00] @
     replicate 16 0x00"

text \<open>The two characters after the percent sign; the sum is a \<^verbatim>\<open>uchar\<close>.\<close>

definition http_hex_to_ascii :: "char \<Rightarrow> char \<Rightarrow> char" where
  "http_hex_to_ascii c1 c2 =
     char_of ((h2a_table_1 ! (ord c1 mod 128) + h2a_table_2 ! (ord c2 mod 128)) mod 256)"

section \<open>Key-value strings\<close>

text \<open>
  What a scanning loop ends with: \<open>Found n s\<close> after \<open>n\<close> accepted characters in front of
  \<open>s\<close>, \<open>Leave n\<close> at the terminator (\<^verbatim>\<open>goto _leave_\<close>), \<open>Return\<close> at a character that
  is not accepted, \<open>Fault\<close> beyond the end of the memory.
\<close>

datatype scan_result = Found nat mem | Leave nat | Return | Fault

fun found_more :: "scan_result \<Rightarrow> scan_result" where
  "found_more (Found n s) = Found (Suc n) s"
| "found_more (Leave n) = Leave (Suc n)"
| "found_more Return = Return"
| "found_more Fault = Fault"

text \<open>The two inner loops of the first pass.\<close>

fun scan_key :: "mem \<Rightarrow> scan_result" where
  "scan_key [] = Fault"
| "scan_key (c # cs) =
     (if c = CHR ''='' then Found 0 (c # cs)
      else if c = NUL then Leave 0
      else if \<not> IS_VALID_URL_KEY_CHARACTER c then Return
      else found_more (scan_key cs))"

fun scan_value :: "char \<Rightarrow> mem \<Rightarrow> scan_result" where
  "scan_value separator [] = Fault"
| "scan_value separator (c # cs) =
     (if c = separator then Found 0 (c # cs)
      else if c = NUL then Leave 0
      else if \<not> IS_VALID_URL_VALUE_CHARACTER c then Return
      else found_more (scan_value separator cs))"

lemma scan_key_FoundD:
  "scan_key s = Found n r \<Longrightarrow> \<exists>k r'. s = k @ r \<and> r = CHR ''='' # r' \<and> length k = n \<and>
     (\<forall>c \<in> set k. IS_VALID_URL_KEY_CHARACTER c) \<and> CHR ''='' \<notin> set k"
proof (induction s arbitrary: n)
  case Nil
  then show ?case by simp
next
  case (Cons c cs)
  show ?case
  proof (cases "c = CHR ''=''")
    case True
    with Cons.prems show ?thesis by auto
  next
    case False
    with Cons.prems obtain m where m: "scan_key cs = Found m r" "n = Suc m"
      "IS_VALID_URL_KEY_CHARACTER c"
      by (auto split: if_splits) (cases "scan_key cs"; auto)
    from Cons.IH [OF m(1)] obtain k r' where "cs = k @ r" "r = CHR ''='' # r'" "length k = m"
      "\<forall>c \<in> set k. IS_VALID_URL_KEY_CHARACTER c" "CHR ''='' \<notin> set k" by blast
    with m False show ?thesis by - (rule exI [of _ "c # k"], auto)
  qed
qed

lemma scan_value_FoundD:
  "scan_value sep s = Found n r \<Longrightarrow> \<exists>v r'. s = v @ r \<and> r = sep # r' \<and> length v = n \<and>
     (\<forall>c \<in> set v. IS_VALID_URL_VALUE_CHARACTER c) \<and> sep \<notin> set v"
proof (induction s arbitrary: n)
  case Nil
  then show ?case by simp
next
  case (Cons c cs)
  show ?case
  proof (cases "c = sep")
    case True
    with Cons.prems show ?thesis by auto
  next
    case False
    with Cons.prems obtain m where m: "scan_value sep cs = Found m r" "n = Suc m"
      "IS_VALID_URL_VALUE_CHARACTER c"
      by (auto split: if_splits) (cases "scan_value sep cs"; auto)
    from Cons.IH [OF m(1)] obtain v r' where "cs = v @ r" "r = sep # r'" "length v = m"
      "\<forall>c \<in> set v. IS_VALID_URL_VALUE_CHARACTER c" "sep \<notin> set v" by blast
    with m False show ?thesis by - (rule exI [of _ "c # v"], auto)
  qed
qed

lemma scan_value_LeaveD:
  "scan_value sep s = Leave n \<Longrightarrow> \<exists>v r. s = v @ NUL # r \<and> length v = n \<and>
     (\<forall>c \<in> set v. IS_VALID_URL_VALUE_CHARACTER c) \<and> sep \<notin> set v"
proof (induction s arbitrary: n)
  case Nil
  then show ?case by simp
next
  case (Cons c cs)
  show ?case
  proof (cases "c = NUL")
    case True
    with Cons.prems show ?thesis by (auto split: if_splits)
  next
    case False
    with Cons.prems obtain m where m: "scan_value sep cs = Leave m" "n = Suc m"
      "IS_VALID_URL_VALUE_CHARACTER c" "c \<noteq> sep"
      by (auto split: if_splits) (cases "scan_value sep cs"; auto)
    from Cons.IH [OF m(1)] obtain v r where "cs = v @ NUL # r" "length v = m"
      "\<forall>c \<in> set v. IS_VALID_URL_VALUE_CHARACTER c" "sep \<notin> set v" by blast
    with m False show ?thesis by - (rule exI [of _ "c # v"], auto)
  qed
qed

lemma scan_key_length: "scan_key s = Found n r \<Longrightarrow> length r \<le> length s"
  using scan_key_FoundD by fastforce

lemma scan_value_length: "scan_value sep s = Found n r \<Longrightarrow> length r \<le> length s"
  using scan_value_FoundD by fastforce

text \<open>The first pass: how many arguments there are and how many bytes their values have.\<close>

datatype count_result = Counted nat nat | Rejected | Overrun

function count_args :: "char \<Rightarrow> mem \<Rightarrow> nat \<Rightarrow> nat \<Rightarrow> count_result" where
  "count_args separator [] na nv = Overrun"
| "count_args separator (c # cs) na nv =
     (if c = separator \<or> c = CHR ''='' \<or> c = CHR '' '' then count_args separator cs na nv
      else case scan_key (c # cs) of
        Fault \<Rightarrow> Overrun
      | Return \<Rightarrow> Rejected
      | Leave n \<Rightarrow> Counted na nv
      | Found n eq \<Rightarrow>
          (case scan_value separator (tl eq) of
             Fault \<Rightarrow> Overrun
           | Return \<Rightarrow> Rejected
           | Leave m \<Rightarrow> Counted (na + 1) (nv + m)
           | Found m rest \<Rightarrow> count_args separator (tl rest) (na + 1) (nv + m)))"
  by pat_completeness auto
termination
proof (relation "measure (\<lambda>(separator, s, na, nv). length s)", goal_cases)
  case (3 separator c cs na nv n eq m rest)
  then have "length rest \<le> length (tl eq)" "length eq \<le> length (c # cs)"
    using scan_value_length scan_key_length by blast+
  then show ?case by simp
qed auto

text \<open>The loop of the second pass that decodes one value into the values buffer of \<open>cap\<close> bytes.\<close>

definition put :: "nat \<Rightarrow> mem \<Rightarrow> char \<Rightarrow> mem option" where
  "put cap p c = (if length p < cap then Some (p @ [c]) else None)"

fun decode_value :: "char \<Rightarrow> nat \<Rightarrow> mem \<Rightarrow> mem \<Rightarrow> (mem \<times> mem) option" where
  "decode_value separator cap [] p = None"
| "decode_value separator cap (c # cs) p =
     (if c = separator then Some (c # cs, p)
      else if c = CHR ''+'' then do { p' \<leftarrow> put cap p CHR '' ''; decode_value separator cap cs p' }
      else if c = CHR ''%'' then
        (case cs of
           [] \<Rightarrow> None
         | c1 # cs1 \<Rightarrow>
             if c1 = NUL then do { p' \<leftarrow> put cap p c; decode_value separator cap cs p' }
             else case cs1 of
               [] \<Rightarrow> None
             | c2 # cs2 \<Rightarrow>
                 if c2 = NUL then do { p' \<leftarrow> put cap p c; decode_value separator cap cs p' }
                 else do { p' \<leftarrow> put cap p (http_hex_to_ascii c1 c2); decode_value separator cap cs2 p' })
      else if c = NUL then Some (c # cs, p)
      else do { p' \<leftarrow> put cap p c; decode_value separator cap cs p' })"

record url_arg_t =
  arg_key :: string
  arg_value :: string

text \<open>
  The second pass.  The key of an argument is the text up to the equals sign, which is overwritten
  by a terminator; its value is what the decoding loop wrote, followed by a terminator.
  \<open>d\<close> is the part of the string the pass has left behind, \<open>s\<close> the part in front of it;
  the result is the arguments, the values buffer and the whole string as it is in memory afterwards.
\<close>

fun find_equals :: "mem \<Rightarrow> (mem \<times> mem) option" where
  "find_equals [] = None"
| "find_equals (c # cs) =
     (if c = CHR ''='' then Some ([], cs)
      else do { (k, rest) \<leftarrow> find_equals cs; Some (c # k, rest) })"

lemma find_equals_length: "find_equals s = Some (k, rest) \<Longrightarrow> length rest < length s"
proof (induction s arbitrary: k)
  case (Cons c cs)
  then show ?case by (force split: if_splits simp: bind_eq_Some_conv)
qed simp

lemma decode_value_length: "decode_value sep cap s p = Some (rest, p') \<Longrightarrow> length rest \<le> length s"
  by (induction sep cap s p rule: decode_value.induct)
     (fastforce simp: bind_eq_Some_conv put_def split: if_splits list.splits)+

function fill_args :: "char \<Rightarrow> nat \<Rightarrow> nat \<Rightarrow> mem \<Rightarrow> mem \<Rightarrow> mem \<Rightarrow> url_arg_t list \<Rightarrow>
    (url_arg_t list \<times> mem \<times> mem) option" where
  "fill_args separator cap num d s p args =
     (if length args < num then
        (case s of
           [] \<Rightarrow> None
         | c # cs \<Rightarrow>
             if c = separator \<or> c = CHR ''='' \<or> c = CHR '' '' then fill_args separator cap num (d @ [c]) cs p args
             else (case find_equals (c # cs) of
                None \<Rightarrow> None
              | Some (key, vs) \<Rightarrow>
                  (case decode_value separator cap vs p of
                     None \<Rightarrow> None
                   | Some (rest, p1) \<Rightarrow>
                       (case put cap p1 NUL of
                          None \<Rightarrow> None
                        | Some p2 \<Rightarrow>
                            fill_args separator cap num (d @ key @ NUL # take (length vs - length rest) vs @ take 1 rest)
                              (tl rest) p2
                              (args @ [\<lparr>arg_key = key, arg_value = drop (length p) p1\<rparr>])))))
      else Some (args, p, d @ s))"
  by pat_completeness auto
termination
proof (relation "measure (\<lambda>(separator, cap, num, d, s, p, args). length s)", goal_cases)
  case (3 separator cap num d s p args c cs a key vs b rest p1 p2)
  then have "length rest \<le> length vs" "length vs < length (c # cs)"
    using decode_value_length find_equals_length by blast+
  with 3 show ?case by simp
qed auto

declare fill_args.simps [simp del]

text \<open>
  The arguments of a request: the number seen by the handlers, the arguments, and the length and
  capacity of the values buffer, whose reserved size is \<open>res\<close>; \<open>a_raw\<close> is the memory of the
  parsed string after the call, which the keys point into.
\<close>

record url_args =
  a_num :: nat
  a_args :: "url_arg_t list"
  a_b_len :: nat
  a_v_len :: nat
  a_v_cap :: nat
  a_raw :: mem

definition http_parse_args :: "char \<Rightarrow> nat \<Rightarrow> mem \<Rightarrow> url_args \<Rightarrow> url_args option" where
  "http_parse_args separator res raw_str a =
     (let a = a\<lparr>a_num := 0, a_raw := raw_str\<rparr> in
      case count_args separator raw_str 0 0 of
        Overrun \<Rightarrow> None
      | Rejected \<Rightarrow> Some a
      | Counted na nv \<Rightarrow>
          let a = a\<lparr>a_b_len := na\<rparr> in
          if na = 0 then Some a
          else
            let len = nv + na;
                a = a\<lparr>a_v_len := len, a_v_cap := (if len > res then len else a_v_cap a)\<rparr> in
            do { (args, p, m) \<leftarrow> fill_args separator (a_v_cap a) na [] raw_str [] [];
                 Some (a\<lparr>a_args := args, a_num := na, a_raw := m\<rparr>) })"

definition HTTP_URL_VALS_BUFFER_RESERVED_SIZE :: nat where
  "HTTP_URL_VALS_BUFFER_RESERVED_SIZE = 2048"

definition HTTP_COOKIES_VALS_BUFFER_RESERVED_SIZE :: nat where
  "HTTP_COOKIES_VALS_BUFFER_RESERVED_SIZE = 1024"

definition http_parse_query_string :: "mem \<Rightarrow> url_args \<Rightarrow> url_args option" where
  "http_parse_query_string query_string args =
     http_parse_args CHR ''&'' HTTP_URL_VALS_BUFFER_RESERVED_SIZE query_string args"

text \<open>Headers as key-value pairs; a value is a pointer into memory, so it carries what follows it.\<close>

fun http_parse_cookies :: "(string \<times> mem) list \<Rightarrow> url_args \<Rightarrow> url_args option" where
  "http_parse_cookies [] cookies = Some cookies"
| "http_parse_cookies ((key, value) # hs) cookies =
     (if length key = 6 \<and> key = ''cookie''
      then http_parse_args CHR '';'' HTTP_COOKIES_VALS_BUFFER_RESERVED_SIZE value cookies
      else http_parse_cookies hs cookies)"

section \<open>What a key-value string means\<close>

text \<open>Decoding of the text of one value; an escape that is cut off by the end stands for itself.\<close>

fun url_unescape :: "string \<Rightarrow> string" where
  "url_unescape [] = []"
| "url_unescape (c # cs) =
     (if c = CHR ''+'' then CHR '' '' # url_unescape cs
      else if c = CHR ''%'' \<and> 2 \<le> length cs then http_hex_to_ascii (cs ! 0) (cs ! 1) # url_unescape (drop 2 cs)
      else c # url_unescape cs)"

text \<open>Every escape has its two characters inside the text.\<close>

fun escapes_closed :: "string \<Rightarrow> bool" where
  "escapes_closed [] = True"
| "escapes_closed (c # cs) =
     (if c = CHR ''%'' then 2 \<le> length cs \<and> escapes_closed (drop 2 cs) else escapes_closed cs)"

abbreviation url_key :: "string \<Rightarrow> bool" where
  "url_key k \<equiv> \<forall>c \<in> set k. IS_VALID_URL_KEY_CHARACTER c"

abbreviation url_value :: "string \<Rightarrow> bool" where
  "url_value v \<equiv> \<forall>c \<in> set v. IS_VALID_URL_VALUE_CHARACTER c"

definition is_separator :: "char \<Rightarrow> bool" where
  "is_separator sep \<longleftrightarrow> \<not> IS_VALID_URL_VALUE_CHARACTER sep \<and> sep \<noteq> NUL \<and> sep \<noteq> CHR ''=''"

text \<open>
  The grammar of key-value strings, with the arguments they denote.  Separators, equals signs and
  blanks in front of a key are skipped; a trailing key without a value is ignored.
\<close>

inductive url_text :: "char \<Rightarrow> mem \<Rightarrow> url_arg_t list \<Rightarrow> bool" for sep where
  stop: "url_key k \<Longrightarrow> url_text sep (k @ NUL # r) []"
| skip: "c = sep \<or> c = CHR ''='' \<or> c = CHR '' '' \<Longrightarrow> url_text sep s as \<Longrightarrow> url_text sep (c # s) as"
| last: "url_key k \<Longrightarrow> k \<noteq> [] \<Longrightarrow> url_value v \<Longrightarrow>
     url_text sep (k @ CHR ''='' # v @ NUL # r) [\<lparr>arg_key = k, arg_value = url_unescape v\<rparr>]"
| field: "url_key k \<Longrightarrow> k \<noteq> [] \<Longrightarrow> url_value v \<Longrightarrow> escapes_closed v \<Longrightarrow> url_text sep s as \<Longrightarrow>
     url_text sep (k @ CHR ''='' # v @ sep # s) (\<lparr>arg_key = k, arg_value = url_unescape v\<rparr> # as)"

lemma not_key_chars [simp]:
  "\<not> IS_VALID_URL_KEY_CHARACTER NUL" "\<not> IS_VALID_URL_KEY_CHARACTER CHR ''=''" "\<not> IS_VALID_URL_KEY_CHARACTER CHR '' ''"
  "\<not> IS_VALID_URL_VALUE_CHARACTER NUL" "\<not> IS_VALID_URL_VALUE_CHARACTER CHR ''=''"
  by (simp_all add: char_defs)

lemma separators: "is_separator CHR ''&''" "is_separator CHR '';''"
  by (simp_all add: is_separator_def char_defs)

lemma not_key_separator: "is_separator sep \<Longrightarrow> \<not> IS_VALID_URL_KEY_CHARACTER sep"
  by (simp add: is_separator_def IS_VALID_URL_VALUE_CHARACTER_def)

lemma length_url_unescape: "length (url_unescape v) \<le> length v"
proof (induction v rule: url_unescape.induct)
  case (2 c cs)
  then show ?case by (simp add: le_SucI split: if_split) linarith
qed simp

lemma scan_key_stop: "url_key k \<Longrightarrow> scan_key (k @ NUL # r) = Leave (length k)"
  by (induction k) auto

lemma scan_key_found: "url_key k \<Longrightarrow> scan_key (k @ CHR ''='' # r) = Found (length k) (CHR ''='' # r)"
  by (induction k) auto

lemma scan_value_stop:
  "url_value v \<Longrightarrow> is_separator sep \<Longrightarrow> scan_value sep (v @ NUL # r) = Leave (length v)"
  by (induction v) (auto simp: is_separator_def)

lemma scan_value_found:
  "url_value v \<Longrightarrow> is_separator sep \<Longrightarrow> scan_value sep (v @ sep # r) = Found (length v) (sep # r)"
  by (induction v) (auto simp: is_separator_def)

lemma find_equals_key: "url_key k \<Longrightarrow> find_equals (k @ CHR ''='' # r) = Some (k, r)"
  by (induction k) auto

lemma decode_value_nul:
  "url_value v \<Longrightarrow> is_separator sep \<Longrightarrow> length p + length (url_unescape v) \<le> cap \<Longrightarrow>
   decode_value sep cap (v @ NUL # r) p = Some (NUL # r, p @ url_unescape v)"
proof (induction v arbitrary: p rule: url_unescape.induct)
  case 1
  then show ?case by (auto simp: is_separator_def)
next
  case (2 c cs)
  have c: "c \<noteq> sep" "c \<noteq> NUL" using "2.prems" by (auto simp: is_separator_def)
  show ?case
  proof (cases "c = CHR ''%'' \<and> 2 \<le> length cs")
    case True
    then obtain c1 c2 cs2 where cs: "cs = c1 # c2 # cs2" by (cases cs; cases "tl cs") auto
    with "2.prems" have "c1 \<noteq> NUL" "c2 \<noteq> NUL" by auto
    with True c cs "2.IH"(2) "2.prems" show ?thesis by (simp add: put_def)
  next
    case False
    have step: "decode_value sep cap (c # cs @ NUL # r) p =
        put cap p (if c = CHR ''+'' then CHR '' '' else c) \<bind> decode_value sep cap (cs @ NUL # r)"
    proof (cases "c = CHR ''%''")
      case True
      with False have "cs = [] \<or> (\<exists>c1. cs = [c1])" by (cases cs; cases "tl cs") auto
      with True c show ?thesis by (elim disjE exE) (simp del: decode_value.simps, subst decode_value.simps(2), simp del: decode_value.simps)+
    next
      case False
      with c show ?thesis by simp
    qed
    have u: "url_unescape (c # cs) = (if c = CHR ''+'' then CHR '' '' else c) # url_unescape cs" using False by auto
    have "decode_value sep cap (cs @ NUL # r) (p @ [if c = CHR ''+'' then CHR '' '' else c]) =
        Some (NUL # r, (p @ [if c = CHR ''+'' then CHR '' '' else c]) @ url_unescape cs)"
      using "2.IH"(1,3) False "2.prems" u by (cases "c = CHR ''+''") (simp_all del: url_unescape.simps)
    then show ?thesis using step u "2.prems"(3) by (simp add: put_def del: url_unescape.simps decode_value.simps)
  qed
qed

lemma decode_value_sep:
  "url_value v \<Longrightarrow> escapes_closed v \<Longrightarrow> is_separator sep \<Longrightarrow> length p + length (url_unescape v) \<le> cap \<Longrightarrow>
   decode_value sep cap (v @ sep # r) p = Some (sep # r, p @ url_unescape v)"
proof (induction v arbitrary: p rule: url_unescape.induct)
  case 1
  then show ?case by simp
next
  case (2 c cs)
  have c: "c \<noteq> sep" "c \<noteq> NUL" using "2.prems" by (auto simp: is_separator_def)
  show ?case
  proof (cases "c = CHR ''%''")
    case True
    with "2.prems" obtain c1 c2 cs2 where cs: "cs = c1 # c2 # cs2" by (cases cs; cases "tl cs") auto
    with "2.prems" have "c1 \<noteq> NUL" "c2 \<noteq> NUL" by auto
    with True c cs "2.IH"(2) "2.prems" show ?thesis by (simp add: put_def)
  next
    case False
    with c "2.IH"(1,3) "2.prems" show ?thesis by (simp add: put_def split: if_splits)
  qed
qed

lemma count_args_key:
  assumes "url_key k" "k \<noteq> []" "is_separator sep"
  shows "count_args sep (k @ s) na nv = (case scan_key (k @ s) of
        Fault \<Rightarrow> Overrun | Return \<Rightarrow> Rejected | Leave n \<Rightarrow> Counted na nv
      | Found n eq \<Rightarrow> (case scan_value sep (tl eq) of
             Fault \<Rightarrow> Overrun | Return \<Rightarrow> Rejected | Leave m \<Rightarrow> Counted (na + 1) (nv + m)
           | Found m rest \<Rightarrow> count_args sep (tl rest) (na + 1) (nv + m)))"
proof -
  obtain c cs where k: "k = c # cs" using assms by (cases k) auto
  with assms not_key_separator [OF assms(3)] have "\<not> (c = sep \<or> c = CHR ''='' \<or> c = CHR '' '')" by auto
  then show ?thesis unfolding k by (simp del: scan_key.simps)
qed

lemma fill_args_key:
  assumes "url_key k" "k \<noteq> []" "is_separator sep" "length args < num"
    and "decode_value sep cap s p = Some (rest, p @ v)" and "length p + length v < cap"
  shows "fill_args sep cap num d (k @ CHR ''='' # s) p args =
    fill_args sep cap num (d @ k @ NUL # take (length s - length rest) s @ take 1 rest) (tl rest)
      (p @ v @ [NUL]) (args @ [\<lparr>arg_key = k, arg_value = v\<rparr>])"
proof -
  obtain c cs where k: "k = c # cs" using assms by (cases k) auto
  with assms not_key_separator [OF assms(3)] have c: "\<not> (c = sep \<or> c = CHR ''='' \<or> c = CHR '' '')" by auto
  have "find_equals (c # cs @ CHR ''='' # s) = Some (c # cs, s)"
    using find_equals_key [OF assms(1), of s] k by simp
  then show ?thesis
    using assms(4-6) c unfolding k by (subst fill_args.simps) (simp add: put_def del: find_equals.simps)
qed

lemma url_text_parsed:
  "url_text sep s as \<Longrightarrow> is_separator sep \<Longrightarrow>
   \<exists>m. (\<forall>na nv. count_args sep s na nv = Counted (na + length as) (nv + m)) \<and>
       (\<forall>cap d p args. length p + m + length as \<le> cap \<longrightarrow>
          (\<exists>r'. fill_args sep cap (length args + length as) d s p args = Some (args @ as, r')))"
proof (induction rule: url_text.induct)
  case (stop k r)
  have "count_args sep (k @ NUL # r) na nv = Counted na nv" for na nv
  proof (cases "k = []")
    case True
    then show ?thesis using stop by (auto simp: is_separator_def)
  next
    case False
    then show ?thesis using stop by (simp add: count_args_key scan_key_stop)
  qed
  then show ?case by (auto simp: fill_args.simps)
next
  case (skip c s as)
  then obtain m where m: "\<forall>na nv. count_args sep s na nv = Counted (na + length as) (nv + m)"
    "\<forall>cap d p args. length p + m + length as \<le> cap \<longrightarrow>
          (\<exists>r'. fill_args sep cap (length args + length as) d s p args = Some (args @ as, r'))" by blast
  have "\<exists>r'. fill_args sep cap (length args + length as) d (c # s) p args = Some (args @ as, r')"
    if "length p + m + length as \<le> cap" for cap d p args
    using that m(2) skip.hyps by (subst fill_args.simps) (auto simp: fill_args.simps [of _ _ "length args"])
  then show ?case using m(1) skip.hyps by auto
next
  case (last k v r)
  have f: "\<exists>r'. fill_args sep cap (Suc (length args)) d (k @ CHR ''='' # v @ NUL # r) p args =
      Some (args @ [\<lparr>arg_key = k, arg_value = url_unescape v\<rparr>], r')"
    if "length p + length v + 1 \<le> cap" for cap d p args
  proof -
    have l: "length p + length (url_unescape v) < cap" using that length_url_unescape [of v] by simp
    with last have "decode_value sep cap (v @ NUL # r) p = Some (NUL # r, p @ url_unescape v)"
      by (intro decode_value_nul) auto
    from fill_args_key [OF last(1,2,4) _ this l, of args "Suc (length args)" d] show ?thesis
      by (simp add: fill_args.simps)
  qed
  have "count_args sep (k @ CHR ''='' # v @ NUL # r) na nv = Counted (na + 1) (nv + length v)" for na nv
    using last by (simp add: count_args_key scan_key_found scan_value_stop)
  with f show ?case by (intro exI [of _ "length v"]) simp
next
  case (field k v s as)
  then obtain m where m: "\<forall>na nv. count_args sep s na nv = Counted (na + length as) (nv + m)"
    "\<forall>cap d p args. length p + m + length as \<le> cap \<longrightarrow>
          (\<exists>r'. fill_args sep cap (length args + length as) d s p args = Some (args @ as, r'))" by blast
  let ?a = "\<lparr>arg_key = k, arg_value = url_unescape v\<rparr>"
  have f: "\<exists>r'. fill_args sep cap (length args + length (?a # as)) d (k @ CHR ''='' # v @ sep # s) p args =
      Some (args @ ?a # as, r')" if "length p + (length v + m) + length (?a # as) \<le> cap" for cap d p args
  proof -
    have l: "length p + length (url_unescape v) < cap" using that length_url_unescape [of v] by simp
    with field have "decode_value sep cap (v @ sep # s) p = Some (sep # s, p @ url_unescape v)"
      by (intro decode_value_sep) auto
    from fill_args_key [OF field(1,2) field.prems _ this l, of args "length args + length (?a # as)" d]
    have "fill_args sep cap (length args + length (?a # as)) d (k @ CHR ''='' # v @ sep # s) p args =
      fill_args sep cap (length (args @ [?a]) + length as) (d @ k @ NUL # v @ [sep]) s (p @ url_unescape v @ [NUL]) (args @ [?a])"
      by simp
    moreover have "length (p @ url_unescape v @ [NUL]) + m + length as \<le> cap"
      using that length_url_unescape [of v] by simp
    ultimately show ?thesis using m(2) by (metis append.assoc append_Cons append_Nil)
  qed
  have "count_args sep (k @ CHR ''='' # v @ sep # s) na nv = Counted (na + length (?a # as)) (nv + (length v + m))" for na nv
    using field m(1) by (simp add: count_args_key scan_key_found scan_value_found)
  with f show ?case by (intro exI [of _ "length v + m"]) blast
qed

text \<open>
  In the memory of the string both passes leave everything but the equals signs behind the keys,
  which become terminators.
\<close>

definition key_ended :: "char \<Rightarrow> char \<Rightarrow> bool" where
  "key_ended c c' \<longleftrightarrow> c' = c \<or> c = CHR ''='' \<and> c' = NUL"

lemma key_ended_refl [simp]: "list_all2 key_ended s s"
  by (simp add: list_all2_refl key_ended_def)

lemma find_equals_SomeD: "find_equals s = Some (k, r) \<Longrightarrow> s = k @ CHR ''='' # r"
  by (induction s arbitrary: k) (auto simp: bind_eq_Some_conv split: if_splits)

lemma decode_value_rest:
  "decode_value sep cap s p = Some (rest, p') \<Longrightarrow> (\<exists>v. s = v @ rest) \<and> rest \<noteq> []"
proof -
  assume d: "decode_value sep cap s p = Some (rest, p')"
  have "(\<forall>c cs. Q cs \<longrightarrow> Q (c # cs)) \<Longrightarrow> rest \<noteq> [] \<and> (Q rest \<longrightarrow> Q s)" for Q
    using d by (induction sep cap s p rule: decode_value.induct)
      (auto simp: bind_eq_Some_conv put_def split: if_splits list.splits)
  from this [of "\<lambda>s. \<exists>v. s = v @ rest"] show ?thesis by (metis append_Cons append_Nil)
qed

lemma fill_args_memory:
  "fill_args sep cap num d s p args = Some (args', p', m) \<Longrightarrow> \<exists>s'. m = d @ s' \<and> list_all2 key_ended s s'"
proof (induction sep cap num d s p args rule: fill_args.induct)
  case (1 sep cap num d s p args)
  note step = "1.prems" [unfolded fill_args.simps [of sep cap num d s p args]]
  show ?case
  proof (cases "length args < num")
    case False
    then show ?thesis using step by auto
  next
    case num: True
    then obtain c cs where s: "s = c # cs" using step by (cases s) auto
    show ?thesis
    proof (cases "c = sep \<or> c = CHR ''='' \<or> c = CHR '' ''")
      case True
      then have "fill_args sep cap num (d @ [c]) cs p args = Some (args', p', m)"
        using step num s by auto
      from "1.IH"(1) [OF num s True this] show ?thesis using s by (force simp: key_ended_def)
    next
      case False
      then obtain key vs rest p1 p2 where f: "find_equals (c # cs) = Some (key, vs)" "decode_value sep cap vs p = Some (rest, p1)"
          "put cap p1 NUL = Some p2" and rec: "fill_args sep cap num (d @ key @ NUL # take (length vs - length rest) vs @ take 1 rest)
            (tl rest) p2 (args @ [\<lparr>arg_key = key, arg_value = drop (length p) p1\<rparr>]) = Some (args', p', m)"
        using step num s by (auto simp del: find_equals.simps split: option.splits prod.splits)
      obtain v x xs where v: "vs = v @ x # xs" "rest = x # xs" using decode_value_rest [OF f(2)] by (cases rest) auto
      have "\<exists>s'. m = (d @ key @ NUL # v @ [x]) @ s' \<and> list_all2 key_ended xs s'"
        using "1.IH"(2) [OF num s False f(1) _ f(2) _ f(3) rec] v by simp
      then obtain s' where s': "m = d @ (key @ NUL # v @ x # s')" "list_all2 key_ended xs s'" by auto
      have "list_all2 key_ended s (key @ NUL # v @ x # s')"
        using s'(2) s v(1) find_equals_SomeD [OF f(1)] by (simp add: list_all2_appendI key_ended_def)
      then show ?thesis using s'(1) by blast
    qed
  qed
qed


section \<open>Encoding\<close>

definition hex_digit :: "nat \<Rightarrow> char" where
  "hex_digit n = char_of (if n < 10 then 48 + n else 55 + n)"

definition url_escape :: "char \<Rightarrow> string" where
  "url_escape c =
     (if IS_VALID_URL_KEY_CHARACTER c then [c]
      else if c = CHR '' '' then ''+''
      else [CHR ''%'', hex_digit (ord c div 16), hex_digit (ord c mod 16)])"

definition url_encode :: "string \<Rightarrow> string" where
  "url_encode v = concat (map url_escape v)"

fun url_query :: "char \<Rightarrow> (string \<times> string) list \<Rightarrow> string" where
  "url_query sep [] = []"
| "url_query sep [(k, v)] = k @ CHR ''='' # url_encode v"
| "url_query sep ((k, v) # f # fs) = k @ CHR ''='' # url_encode v @ sep # url_query sep (f # fs)"

lemma ord_hex_digit: "n < 16 \<Longrightarrow> ord (hex_digit n) = (if n < 10 then 48 + n else 55 + n)"
  by (simp add: hex_digit_def ord_char_of_small)

lemma h2a_table_1_hex: "n < 16 \<Longrightarrow> h2a_table_1 ! (ord (hex_digit n) mod 128) = (if n = 0 then 32 else 16 * n)"
proof -
  have "\<forall>n \<in> {..<16}. h2a_table_1 ! (if n < 10 then 48 + n else 55 + n) = (if n = 0 then 32 else 16 * n)"
    by (simp add: h2a_table_1_def lessThan_nat_numeral lessThan_Suc nth_append nth_Cons')
  then show "n < 16 \<Longrightarrow> ?thesis" by (simp add: ord_hex_digit)
qed

lemma h2a_table_2_hex: "n < 16 \<Longrightarrow> h2a_table_2 ! (ord (hex_digit n) mod 128) = n"
proof -
  have "\<forall>n \<in> {..<16}. h2a_table_2 ! (if n < 10 then 48 + n else 55 + n) = n"
    by (simp add: h2a_table_2_def lessThan_nat_numeral lessThan_Suc nth_append nth_Cons')
  then show "n < 16 \<Longrightarrow> ?thesis" by (simp add: ord_hex_digit)
qed

lemma hex_value:
  assumes "h < 16" "l < 16"
  shows "http_hex_to_ascii (hex_digit h) (hex_digit l) = char_of (if h = 0 then 32 + l else 16 * h + l)"
  using assms by (simp add: http_hex_to_ascii_def h2a_table_1_hex h2a_table_2_hex)


lemma hex_digit_key: "n < 16 \<Longrightarrow> IS_VALID_URL_KEY_CHARACTER (hex_digit n)"
  by (auto simp: char_defs ord_hex_digit)

lemma ord_div_16 [simp]: "ord c div 16 < 16"
  using ord_less_256 [of c] by (simp add: less_mult_imp_div_less)

lemma url_escape_value: "url_value (url_escape c)"
  by (auto simp: url_escape_def IS_VALID_URL_VALUE_CHARACTER_def hex_digit_key)

lemma key_char_plain: "IS_VALID_URL_KEY_CHARACTER c \<Longrightarrow> c \<noteq> CHR ''%'' \<and> c \<noteq> CHR ''+''"
  by (auto simp: char_defs)

lemma escapes_closed_escape: "escapes_closed (url_escape c @ s) = escapes_closed s"
  by (auto simp: url_escape_def dest: key_char_plain)

lemma url_unescape_escape:
  assumes "16 \<le> ord c" shows "url_unescape (url_escape c @ s) = c # url_unescape s"
proof -
  have "http_hex_to_ascii (hex_digit (ord c div 16)) (hex_digit (ord c mod 16)) = c"
  proof -
    have "ord c div 16 < 16" "ord c div 16 \<noteq> 0" using assms by auto
    then show ?thesis by (simp add: hex_value)
  qed
  then show ?thesis by (auto simp: url_escape_def dest: key_char_plain)
qed

lemma url_encode_props:
  "url_value (url_encode v)" "escapes_closed (url_encode v)"
  "\<forall>c \<in> set v. 16 \<le> ord c \<Longrightarrow> url_unescape (url_encode v) = v"
proof -
  show "url_value (url_encode v)" using url_escape_value by (auto simp: url_encode_def)
  show "escapes_closed (url_encode v)" by (induction v) (auto simp: url_encode_def escapes_closed_escape)
  show "\<forall>c \<in> set v. 16 \<le> ord c \<Longrightarrow> url_unescape (url_encode v) = v"
    by (induction v) (auto simp: url_encode_def url_unescape_escape)
qed

lemma url_query_text:
  "\<forall>(k, v) \<in> set fs. url_key k \<and> k \<noteq> [] \<and> (\<forall>c \<in> set v. 16 \<le> ord c) \<Longrightarrow>
   url_text sep (url_query sep fs @ NUL # r) (map (\<lambda>(k, v). \<lparr>arg_key = k, arg_value = v\<rparr>) fs)"
proof (induction sep fs rule: url_query.induct)
  case (1 sep)
  then show ?case using url_text.stop [of "[]"] by simp
next
  case (2 sep k v)
  then show ?case using url_text.last [of k "url_encode v" sep r] url_encode_props [of v] by simp
next
  case (3 sep k v f fs)
  then show ?case using url_text.field [of k "url_encode v" sep] url_encode_props [of v] by simp
qed

text \<open>
  A query string that a client encodes for a form (any number of fields, any values of bytes
  from 16 upwards) comes back from the parser field by field, whatever follows it in memory.
\<close>

theorem url_query_round_trip:
  assumes "fs \<noteq> []" "\<forall>(k, v) \<in> set fs. url_key k \<and> k \<noteq> [] \<and> (\<forall>c \<in> set v. 16 \<le> ord c)"
    and "2048 \<le> a_v_cap a"
  shows "\<exists>a'. http_parse_query_string (url_query CHR ''&'' fs @ NUL # r) a = Some a' \<and>
     a_num a' = length fs \<and> map (\<lambda>x. (arg_key x, arg_value x)) (a_args a') = fs"
proof -
  let ?as = "map (\<lambda>(k, v). \<lparr>arg_key = k, arg_value = v\<rparr>) fs"
  have t: "url_text CHR ''&'' (url_query CHR ''&'' fs @ NUL # r) ?as" by (rule url_query_text [OF assms(2)])
  obtain m where c: "count_args CHR ''&'' (url_query CHR ''&'' fs @ NUL # r) 0 0 = Counted (length fs) m"
    and f: "\<forall>cap d p args. length p + m + length fs \<le> cap \<longrightarrow>
      (\<exists>r'. fill_args CHR ''&'' cap (length args + length fs) d (url_query CHR ''&'' fs @ NUL # r) p args =
         Some (args @ ?as, r'))"
    using url_text_parsed [OF t separators(1)] by force
  define cap where "cap = (if m + length fs > 2048 then m + length fs else a_v_cap a)"
  have "m + length fs \<le> cap" using assms(3) by (simp add: cap_def)
  then obtain p' t where "fill_args CHR ''&'' cap (length fs) [] (url_query CHR ''&'' fs @ NUL # r) [] [] = Some (?as, p', t)"
    using f [rule_format, of "[]" cap "[]" "[]"] by auto
  moreover have "map (\<lambda>x. (arg_key x, arg_value x)) ?as = fs" by (induction fs) auto
  ultimately show ?thesis
    using c assms(1) unfolding cap_def
    by (auto simp: http_parse_query_string_def http_parse_args_def Let_def HTTP_URL_VALS_BUFFER_RESERVED_SIZE_def)
qed

theorem url_query_round_trip_witness:
  "\<exists>a'. http_parse_query_string (''t=%3F%26&n='' @ [NUL])
      \<lparr>a_num = 0, a_args = [], a_b_len = 0, a_v_len = 0, a_v_cap = 2048, a_raw = []\<rparr> = Some a' \<and>
     map (\<lambda>x. (arg_key x, arg_value x)) (a_args a') = [(''t'', ''?&''), (''n'', [])]"
proof -
  have q: "url_query CHR ''&'' [(''t'', ''?&''), (''n'', [])] = ''t=%3F%26&n=''"
    by (simp add: url_encode_def url_escape_def hex_digit_def char_defs char_of_def bit_Suc_0_iff)
  show ?thesis
    using url_query_round_trip [of "[(''t'', ''?&''), (''n'', [])]"
        "\<lparr>a_num = 0, a_args = [], a_b_len = 0, a_v_len = 0, a_v_cap = 2048, a_raw = []\<rparr>" "[]"] unfolding q
    by (auto simp: char_defs)
qed

text \<open>
  The lookup tables agree with hexadecimal notation except for one row: a high digit
  \<^verbatim>\<open>0\<close> counts as 2, so every escape of a control character decodes to a printable one
  (\<^verbatim>\<open>%0A\<close>, a line feed, becomes an asterisk).
\<close>

theorem http_hex_to_ascii_values:
  "\<forall>h < 16. \<forall>l < 16. ord (http_hex_to_ascii (hex_digit h) (hex_digit l)) = (if h = 0 then 32 + l else 16 * h + l)"
  by (auto simp: hex_value ord_char_of_small)

theorem http_hex_to_ascii_values_witness:
  "http_hex_to_ascii CHR ''0'' CHR ''A'' = CHR ''*''"
proof -
  have "ord (http_hex_to_ascii (hex_digit 0) (hex_digit 10)) = 42"
    using http_hex_to_ascii_values [rule_format, of 0 10] by simp
  moreover have "hex_digit 0 = CHR ''0''" "hex_digit 10 = CHR ''A''" by (simp_all add: hex_digit_def char_of_def bit_Suc_0_iff)
  ultimately have "ord (http_hex_to_ascii CHR ''0'' CHR ''A'') = ord CHR ''*''" by simp
  then show ?thesis by (simp only: of_char_eq_iff)
qed

text \<open>
  The first pass counts the separator as the end of a value, the second may take it for part
  of an escape: after \<^verbatim>\<open>a=%&b=1\<close> the second pass looks for an argument behind the terminator.
  Nothing but the bytes that happen to follow the string then decides what is parsed; if they hold no
  equals sign, the parser runs out of its memory.
\<close>

theorem http_parse_args_overrun:
  assumes "CHR ''='' \<notin> set r" "2048 \<le> a_v_cap a"
  shows "http_parse_query_string (''a=%&b=1'' @ NUL # r) a = None"
proof -
  have fe: "find_equals s = None" if "CHR ''='' \<notin> set s" for s using that by (induction s) auto
  have over: "fill_args CHR ''&'' cap 2 d s p [x] = None" if "CHR ''='' \<notin> set s" for d s cap p x
    using that
  proof (induction s arbitrary: d)
    case Nil
    then show ?case by (simp add: fill_args.simps)
  next
    case (Cons c cs)
    then show ?case using fe [of "c # cs"] by (subst fill_args.simps) (simp del: find_equals.simps)
  qed
  have c: "count_args CHR ''&'' (''a=%&b=1'' @ NUL # r) 0 0 = Counted 2 2"
    by (simp add: char_defs)
  have "fill_args CHR ''&'' cap 2 [] (''a=%&b=1'' @ NUL # r) [] [] = None" if "4 \<le> cap" for cap
    using that assms(1) over [where s = r] by (subst fill_args.simps) (simp add: put_def)
  then show ?thesis using assms(2) c
    by (simp add: http_parse_query_string_def http_parse_args_def Let_def HTTP_URL_VALS_BUFFER_RESERVED_SIZE_def
        del: count_args.simps)
qed

theorem http_parse_args_overrun_witness:
  "http_parse_query_string (''a=%&b=1'' @ NUL # '' HTTP/1.1'')
     \<lparr>a_num = 0, a_args = [], a_b_len = 0, a_v_len = 0, a_v_cap = 2048, a_raw = []\<rparr> = None"
  using http_parse_args_overrun [of "'' HTTP/1.1''"] by simp

section \<open>Splitting the URI\<close>

definition HTTP_PATH_PREALLOC :: nat where
  "HTTP_PATH_PREALLOC = 128"

text \<open>
  The request buffer \<open>m\<close>, the URI's offset \<open>u\<close> and length \<open>n\<close> in it, the capacity of the
  path buffer and what has been written to it.  The loop ends at a question mark or at the end of
  the URI (\<open>Divided\<close>), or at a character a path may not have (\<open>Refused\<close>); \<^term>\<open>None\<close> is an
  access outside of one of the buffers.
\<close>

datatype divide_result = Divided mem nat | Refused

function divide_loop :: "mem \<Rightarrow> nat \<Rightarrow> nat \<Rightarrow> nat \<Rightarrow> nat \<Rightarrow> mem \<Rightarrow> divide_result option" where
  "divide_loop m u n cap i path =
     (if i < n then
        (case rd m (u + i) of
           None \<Rightarrow> None
         | Some c \<Rightarrow>
             if c = CHR ''?'' then Some (Divided path i)
             else if c = CHR ''%'' \<and> i < n - 2 then
               (case (rd m (u + i + 1), rd m (u + i + 2)) of
                  (Some c1, Some c2) \<Rightarrow>
                    let h = http_hex_to_ascii c1 c2 in
                    (case put cap path h of
                       None \<Rightarrow> None
                     | Some path' \<Rightarrow>
                         divide_loop m u n cap (i + 3)
                           (if h \<noteq> CHR ''/'' \<and> h \<noteq> CHR ''.'' then path' else path))
                | _ \<Rightarrow> None)
             else if c = CHR ''.'' \<and> rd m (u + i + 1) = Some CHR ''.'' \<and> rd m (u + i + 2) = Some CHR ''/'' then
               divide_loop m u n cap (i + 3) path
             else if c = CHR ''.'' \<and> (rd m (u + i + 1) = None \<or>
                       rd m (u + i + 1) = Some CHR ''.'' \<and> rd m (u + i + 2) = None) then None
             else if IS_VALID_PATH_CHARACTER c then
               (case put cap path c of
                  None \<Rightarrow> None
                | Some path' \<Rightarrow> divide_loop m u n cap (i + 1) path')
             else Some Refused)
      else Some (Divided path i))"
  by pat_completeness auto
termination
  by (relation "measure (\<lambda>(m, u, n, cap, i, path). n - i)") auto

declare divide_loop.simps [simp del]

record path_state =
  pa_cap :: nat
  pa_path :: string
  pa_query :: nat
  pa_query_len :: nat

definition http_divide_uri :: "mem \<Rightarrow> nat \<Rightarrow> nat \<Rightarrow> path_state \<Rightarrow> (bool \<times> path_state) option" where
  "http_divide_uri m u n st =
     (let st = (if n > HTTP_PATH_PREALLOC then st\<lparr>pa_cap := n\<rparr> else st) in
      do { path0 \<leftarrow> put (pa_cap st) [] CHR ''/'';
           res \<leftarrow> divide_loop m u n (pa_cap st) 1 path0;
           (case res of
              Refused \<Rightarrow> Some (False, st)
            | Divided path i \<Rightarrow>
                do { _ \<leftarrow> put (pa_cap st) path NUL;
                     q \<leftarrow> rd m (u + i);
                     Some (True, if q = CHR ''?''
                       then st\<lparr>pa_path := path, pa_query := u + i + 1, pa_query_len := n - i - 1\<rparr>
                       else st\<lparr>pa_path := path, pa_query := u + i, pa_query_len := 0\<rparr>) }) })"

text \<open>
  One round of the loop inside a terminated URI.  The terminator is what keeps the two-character
  lookahead for \<^verbatim>\<open>../\<close> inside.
\<close>

definition in_buffer :: "mem \<Rightarrow> nat \<Rightarrow> nat \<Rightarrow> bool" where
  "in_buffer m u n \<longleftrightarrow> u + n < length m \<and> m ! (u + n) = NUL"

lemma divide_step:
  assumes "in_buffer m u n" "i < n" "length path < cap"
  shows "divide_loop m u n cap i path =
    (let c = m ! (u + i); h = http_hex_to_ascii (m ! (u + i + 1)) (m ! (u + i + 2)) in
     if c = CHR ''?'' then Some (Divided path i)
     else if c = CHR ''%'' \<and> i + 2 < n
     then divide_loop m u n cap (i + 3) (if h \<noteq> CHR ''/'' \<and> h \<noteq> CHR ''.'' then path @ [h] else path)
     else if c = CHR ''.'' \<and> i + 2 < n \<and> m ! (u + i + 1) = CHR ''.'' \<and> m ! (u + i + 2) = CHR ''/''
     then divide_loop m u n cap (i + 3) path
     else if IS_VALID_PATH_CHARACTER c then divide_loop m u n cap (i + 1) (path @ [c])
     else Some Refused)"
proof -
  have b: "u + n < length m" "m ! (u + n) = NUL" using assms(1) by (auto simp: in_buffer_def)
  have r: "rd m (u + i) = Some (m ! (u + i))" "rd m (u + i + 1) = Some (m ! (u + i + 1))"
    using assms(2) b by simp_all
  have r2: "rd m (u + i + 2) = Some (m ! (u + i + 2))" if "i + 1 < n" using that b by simp
  have last: "m ! (u + i + 1) \<noteq> CHR ''.''" if "\<not> i + 1 < n"
  proof -
    have "i + 1 = n" using that assms(2) by simp
    then show ?thesis using b by (auto simp: add.assoc)
  qed
  have last2: "m ! (u + i + 2) \<noteq> CHR ''/''" if "\<not> i + 2 < n" "i + 1 < n"
  proof -
    have "i + 2 = n" using that assms(2) by simp
    then show ?thesis using b by (auto simp: add.assoc)
  qed
  have n2: "i < n - 2 \<longleftrightarrow> i + 2 < n" using assms(2) by auto
  show ?thesis
  proof (cases "i + 1 < n")
    case True
    then show ?thesis
      using r r2 last2 n2 assms(2,3)
      by (subst divide_loop.simps) (auto simp: put_def Let_def)
  next
    case False
    then show ?thesis
      using r last n2 assms(2,3)
      by (subst divide_loop.simps) (auto simp: put_def Let_def)
  qed
qed

definition divide_good :: "mem \<Rightarrow> nat \<Rightarrow> nat \<Rightarrow> divide_result option \<Rightarrow> bool" where
  "divide_good m u n r \<longleftrightarrow> r \<noteq> None \<and> (\<forall>p j. r = Some (Divided p j) \<longrightarrow>
      j \<le> n \<and> length p \<le> j \<and> p \<noteq> [] \<and> p ! 0 = CHR ''/'' \<and> (j < n \<longrightarrow> m ! (u + j) = CHR ''?''))"

lemma divide_loop_ok:
  assumes buf: "in_buffer m u n" and cap: "n \<le> cap"
  shows "1 \<le> i \<Longrightarrow> i \<le> n \<Longrightarrow> length path \<le> i \<Longrightarrow> path \<noteq> [] \<and> path ! 0 = CHR ''/'' \<Longrightarrow>
   divide_good m u n (divide_loop m u n cap i path)"
proof (induction "n - i" arbitrary: i path rule: less_induct)
  case less
  show ?case
  proof (cases "i < n")
    case False
    then show ?thesis using less.prems by (simp add: divide_loop.simps divide_good_def)
  next
    case True
    have room: "length path < cap" using True less.prems cap by simp
    have ih: "divide_good m u n (divide_loop m u n cap k q)"
      if "i < k" "k \<le> n" "q = path \<or> (\<exists>c. q = path @ [c])" for k q
      using that less.prems True by (intro less.hyps) (auto simp: nth_append)
    show ?thesis
      unfolding divide_step [OF buf True room] Let_def
      using True less.prems by (simp add: ih divide_good_def [of m u n "Some _"])
  qed
qed

text \<open>
  Splitting a terminated URI stays inside the request buffer and, with one exception, inside the
  path buffer: the path starts with a slash, is never longer than the URI, and the query string is what
  follows the first question mark.  The exception is the terminator of a path as long as a URI of 128
  bytes or more.
\<close>

theorem http_divide_uri_safe:
  assumes "in_buffer m u n" "0 < n" "HTTP_PATH_PREALLOC \<le> pa_cap st"
  shows "case http_divide_uri m u n st of
      None \<Rightarrow> HTTP_PATH_PREALLOC \<le> n \<and>
        divide_loop m u n (if n > HTTP_PATH_PREALLOC then n else pa_cap st) 1 ''/'' \<noteq> None
    | Some (ok, st') \<Rightarrow> HTTP_PATH_PREALLOC \<le> pa_cap st' \<and>
        (ok \<longrightarrow> length (pa_path st') \<le> n \<and> pa_path st' \<noteq> [] \<and> pa_path st' ! 0 = CHR ''/'' \<and>
                pa_query st' + pa_query_len st' = u + n)"
proof -
  define cap where "cap = (if n > HTTP_PATH_PREALLOC then n else pa_cap st)"
  let ?st = "if n > HTTP_PATH_PREALLOC then st\<lparr>pa_cap := n\<rparr> else st"
  have cap: "n \<le> cap" "0 < cap" "pa_cap ?st = cap" "HTTP_PATH_PREALLOC \<le> cap" "cap = n \<or> n \<le> HTTP_PATH_PREALLOC"
    using assms(2,3) by (auto simp: cap_def HTTP_PATH_PREALLOC_def)
  have ok: "divide_loop m u n cap 1 ''/'' \<noteq> None"
    "\<And>p j. divide_loop m u n cap 1 ''/'' = Some (Divided p j) \<Longrightarrow>
      j \<le> n \<and> length p \<le> j \<and> p \<noteq> [] \<and> p ! 0 = CHR ''/'' \<and> (j < n \<longrightarrow> m ! (u + j) = CHR ''?'')"
    using divide_loop_ok [OF assms(1) cap(1), of 1 "''/''"] assms(2) by (auto simp: divide_good_def)
  have q: "rd m (u + j) = Some (m ! (u + j))" "m ! (u + n) \<noteq> CHR ''?''" if "j \<le> n" for j
    using that assms(1) by (auto simp: in_buffer_def)
  show ?thesis
  proof (cases "divide_loop m u n cap 1 ''/''")
    case None
    then show ?thesis using ok by simp
  next
    case (Some res)
    show ?thesis
    proof (cases res)
      case Refused
      then show ?thesis using Some cap by (simp add: http_divide_uri_def put_def Let_def)
    next
      case (Divided p j)
      have pj: "j \<le> n" "length p \<le> j" "p \<noteq> []" "p ! 0 = CHR ''/''" "j < n \<longrightarrow> m ! (u + j) = CHR ''?''"
        using ok(2) [of p j] Some Divided by auto
      have qj: "m ! (u + j) = CHR ''?'' \<longrightarrow> j < n" using pj(1) q(2) [of n] by (metis le_neq_implies_less le_refl)
      have full: "HTTP_PATH_PREALLOC \<le> n" if "\<not> length p < cap" using that pj cap by auto
      show ?thesis
        using Some Divided pj q [of j] qj cap full ok(1)
        by (cases "length p < cap") (auto simp: http_divide_uri_def put_def Let_def cap_def [symmetric] split: option.splits)
    qed
  qed
qed

theorem http_divide_uri_safe_witness:
  "HTTP_PATH_PREALLOC \<le> 128 \<and>
   (case http_divide_uri (''GET /a?b'' @ [NUL]) 4 4 \<lparr>pa_cap = 128, pa_path = [], pa_query = 0, pa_query_len = 0\<rparr> of
      None \<Rightarrow> False
    | Some (ok, st') \<Rightarrow> ok \<longrightarrow> length (pa_path st') \<le> 4 \<and> pa_query st' + pa_query_len st' = 8)"
  using http_divide_uri_safe [of "''GET /a?b'' @ [NUL]" 4 4 "\<lparr>pa_cap = 128, pa_path = [], pa_query = 0, pa_query_len = 0\<rparr>"]
  by (auto simp: in_buffer_def HTTP_PATH_PREALLOC_def split: option.splits)

lemma divide_loop_plain:
  assumes buf: "in_buffer m u n" and cap: "n \<le> cap" and j: "j \<le> n" "j < n \<longrightarrow> m ! (u + j) = CHR ''?''"
    and valid: "\<forall>k. 1 \<le> k \<and> k < j \<longrightarrow> IS_VALID_PATH_CHARACTER (m ! (u + k))"
    and plain: "\<forall>k. 1 \<le> k \<and> k + 2 < n \<and> k < j \<longrightarrow>
      \<not> (m ! (u + k) = CHR ''.'' \<and> m ! (u + k + 1) = CHR ''.'' \<and> m ! (u + k + 2) = CHR ''/'')"
  shows "1 \<le> i \<Longrightarrow> i \<le> j \<Longrightarrow> length path \<le> i \<Longrightarrow>
    divide_loop m u n cap i path = Some (Divided (path @ seg m (u + i) (u + j)) j)"
proof (induction "j - i" arbitrary: i path)
  case 0
  then have i: "i = j" by simp
  show ?case
  proof (cases "j < n")
    case True
    then show ?thesis using j 0 i buf cap by (simp add: divide_step Let_def seg_def)
  next
    case False
    then show ?thesis using i by (simp add: divide_loop.simps seg_def)
  qed
next
  case (Suc d)
  then have lt: "i < j" "i < n" using j by auto
  have len: "u + j < length m" using buf j by (auto simp: in_buffer_def)
  have v: "IS_VALID_PATH_CHARACTER (m ! (u + i))" using valid Suc.prems lt by simp
  then have c: "m ! (u + i) \<noteq> CHR ''?''" "m ! (u + i) \<noteq> CHR ''%''" by (auto simp: char_defs)
  have "divide_loop m u n cap i path = divide_loop m u n cap (i + 1) (path @ [m ! (u + i)])"
    using divide_step [OF buf lt(2), of path cap] c v plain [rule_format, of i] Suc.prems lt cap by (auto simp: Let_def)
  also have "\<dots> = Some (Divided ((path @ [m ! (u + i)]) @ seg m (u + (i + 1)) (u + j)) j)"
    using Suc.hyps(2) Suc.prems lt by (intro Suc.hyps(1)) auto
  also have "(path @ [m ! (u + i)]) @ seg m (u + (i + 1)) (u + j) = path @ seg m (u + i) (u + j)"
  proof -
    have "seg m (u + i) (u + j) = m ! (u + i) # seg m (u + (i + 1)) (u + j)"
    using lt len by (simp add: seg_def Cons_nth_drop_Suc [symmetric] Suc_diff_Suc take_Suc_Cons [symmetric] del: take_Suc_Cons)
    then show ?thesis by simp
  qed
  finally show ?case .
qed

text \<open>
  A path without escapes and without a parent reference is taken over unchanged, up to the
  question mark, and the query string is what follows it.
\<close>

theorem http_divide_uri_plain:
  assumes buf: "in_buffer m u n" and n: "n < HTTP_PATH_PREALLOC" and cap: "HTTP_PATH_PREALLOC \<le> pa_cap st"
    and j: "1 \<le> j" "j \<le> n" "j < n \<longrightarrow> m ! (u + j) = CHR ''?''" and slash: "m ! u = CHR ''/''"
    and valid: "\<forall>k. 1 \<le> k \<and> k < j \<longrightarrow> IS_VALID_PATH_CHARACTER (m ! (u + k))"
    and plain: "\<forall>k. 1 \<le> k \<and> k + 2 < n \<and> k < j \<longrightarrow>
      \<not> (m ! (u + k) = CHR ''.'' \<and> m ! (u + k + 1) = CHR ''.'' \<and> m ! (u + k + 2) = CHR ''/'')"
  shows "http_divide_uri m u n st = Some (True, st\<lparr>pa_path := seg m u (u + j),
           pa_query := (if j < n then u + j + 1 else u + j), pa_query_len := n - j - 1\<rparr>)"
proof -
  have len: "u + j < length m" and nul: "m ! (u + n) = NUL" using buf j by (auto simp: in_buffer_def)
  have c: "n \<le> pa_cap st" "0 < pa_cap st" using n cap j by (auto simp: HTTP_PATH_PREALLOC_def)
  have "divide_loop m u n (pa_cap st) 1 ''/'' = Some (Divided (''/'' @ seg m (u + 1) (u + j)) j)"
    by (rule divide_loop_plain [OF buf c(1) j(2,3) valid plain]) (use j in auto)
  also have "''/'' @ seg m (u + 1) (u + j) = seg m u (u + j)"
  proof -
    have d: "drop u m = m ! u # drop (u + 1) m" using len by (simp add: Cons_nth_drop_Suc)
    obtain k where "j = Suc k" using j by (cases j) auto
    then show ?thesis using slash by (simp add: seg_def d)
  qed
  finally have l: "divide_loop m u n (pa_cap st) 1 ''/'' = Some (Divided (seg m u (u + j)) j)" .
  have "length (seg m u (u + j)) < pa_cap st" using len j n cap by simp
  moreover have "m ! (u + j) = CHR ''?'' \<longleftrightarrow> j < n" using j nul by (cases "j = n") auto
  ultimately show ?thesis
    using l n c len j by (cases "j < n") (auto simp: http_divide_uri_def put_def Let_def)
qed

theorem http_divide_uri_plain_witness:
  "http_divide_uri (''/a.b?q'' @ [NUL]) 0 6 \<lparr>pa_cap = 128, pa_path = [], pa_query = 0, pa_query_len = 0\<rparr> =
     Some (True, \<lparr>pa_cap = 128, pa_path = ''/a.b'', pa_query = 5, pa_query_len = 1\<rparr>)"
proof -
  have v: "\<forall>k. 1 \<le> k \<and> k < 4 \<longrightarrow> IS_VALID_PATH_CHARACTER ((''/a.b?q'' @ [NUL]) ! (0 + k))"
    by (auto simp: less_Suc_eq numeral_eq_Suc char_defs)
  have p: "\<forall>k. 1 \<le> k \<and> k + 2 < 6 \<and> k < 4 \<longrightarrow> \<not> ((''/a.b?q'' @ [NUL]) ! (0 + k) = CHR ''.'' \<and>
      (''/a.b?q'' @ [NUL]) ! (0 + k + 1) = CHR ''.'' \<and> (''/a.b?q'' @ [NUL]) ! (0 + k + 2) = CHR ''/'')"
    by (auto simp: less_Suc_eq numeral_eq_Suc)
  show ?thesis
    using http_divide_uri_plain [OF _ _ _ _ _ _ _ v p, of "\<lparr>pa_cap = 128, pa_path = [], pa_query = 0, pa_query_len = 0\<rparr>"]
    by (simp add: in_buffer_def HTTP_PATH_PREALLOC_def seg_def)
qed

text \<open>
  The removal of parent references is a single pass, so it can create what it removes:
  \<^verbatim>\<open>/....//x\<close> and \<^verbatim>\<open>/.%2e./x\<close> both become the path \<^verbatim>\<open>/../x\<close>, which is opened
  relative to the document root.
\<close>

theorem http_divide_uri_traversal:
  "\<exists>st1 st2. http_divide_uri (''/....//x'' @ [NUL]) 0 8 \<lparr>pa_cap = 128, pa_path = [], pa_query = 0, pa_query_len = 0\<rparr> = Some (True, st1) \<and>
     http_divide_uri (''/.%2e./x'' @ [NUL]) 0 8 \<lparr>pa_cap = 128, pa_path = [], pa_query = 0, pa_query_len = 0\<rparr> = Some (True, st2) \<and>
     pa_path st1 = ''/../x'' \<and> pa_path st2 = ''/../x''"
proof -
  have h: "http_hex_to_ascii CHR ''2'' CHR ''e'' = CHR ''.''"
    by (simp add: http_hex_to_ascii_def h2a_table_1_def h2a_table_2_def char_of_def nth_append nth_Cons' bit_Suc_0_iff)
  show ?thesis
    by (simp add: http_divide_uri_def put_def Let_def HTTP_PATH_PREALLOC_def divide_loop.simps h char_defs)
qed

text \<open>
  The terminator of the path has no room when a URI of exactly 128 bytes consists of path
  characters only: the write is one byte behind the preallocated buffer.
\<close>

theorem http_divide_uri_off_by_one:
  "http_divide_uri (CHR ''/'' # replicate 127 CHR ''a'' @ [NUL]) 0 128 (st\<lparr>pa_cap := 128\<rparr>) = None"
proof -
  define m where "m = CHR ''/'' # replicate 127 CHR ''a'' @ [NUL]"
  have m: "m ! k = CHR ''a''" if "1 \<le> k" "k < 128" for k
    using that by (cases k) (simp_all add: m_def nth_append)
  have b: "in_buffer m 0 128" "length m = 129" by (simp_all add: in_buffer_def nth_append m_def)
  have "divide_loop m 0 128 128 1 ''/'' = Some (Divided (''/'' @ seg m (0 + 1) (0 + 128)) 128)"
    by (rule divide_loop_plain [OF b(1)]) (simp_all add: m char_defs)
  moreover have "length (''/'' @ seg m (0 + 1) (0 + 128)) = 128" using b by simp
  ultimately show ?thesis unfolding m_def [symmetric] by (simp add: http_divide_uri_def put_def Let_def HTTP_PATH_PREALLOC_def)
qed

end
