(* ===== verification/Http_Headers.thy ===== *)
theory Http_Headers
  imports Common_Strings
begin

text \<open>
  \<^verbatim>\<open>http_parse_headers\<close> of \<^verbatim>\<open>core_http.c\<close>: the request line and the header lines of a request,
  parsed in place in the receive buffer.  Offsets into the buffer stand for the pointers the code
  stores; an access outside of the buffer is \<^term>\<open>None\<close>, a status code other than 0 is an error the
  caller answers.  \<^verbatim>\<open>new_keepalive_socket\<close> belongs to the event loop: it is the argument
  \<open>nks\<close> on a state of any type.
\<close>

record header_t =
  key_str :: nat
  key_len :: nat
  val_str :: nat
  val_len :: nat

record headers_in =
  hi_b :: mem
  method_get :: bool
  method_post :: bool
  method_head :: bool
  uri_str :: nat
  uri_len :: nat
  ver_str :: nat
  ver_len :: nat
  hi_p :: "header_t list"
  hi_alloc :: nat
  hi_keepalive :: bool

definition parse_method :: "headers_in \<Rightarrow> (nat \<times> headers_in) option option" where
  "parse_method h =
     do { g \<leftarrow> matches_at (hi_b h) 0 ''GET '';
          if g then Some (Some (4, h\<lparr>method_get := True\<rparr>))
          else do { p \<leftarrow> matches_at (hi_b h) 0 ''POST '';
                    if p then Some (Some (5, h\<lparr>method_post := True\<rparr>))
                    else do { d \<leftarrow> matches_at (hi_b h) 0 ''HEAD '';
                              if d then Some (Some (5, h\<lparr>method_head := True\<rparr>)) else Some None } } }"

text \<open>
  The loop over a header name, lower-casing it in place: the position of the colon, or the buffer as
  it is left when a character is no printable one.
\<close>

function key_loop :: "mem \<Rightarrow> nat \<Rightarrow> (mem + mem \<times> nat) option" where
  "key_loop m p = (case rd m p of
      None \<Rightarrow> None
    | Some c \<Rightarrow>
        if c = CHR '':'' then Some (Inr (m, p))
        else if \<not> IS_SYM c then Some (Inl m)
        else key_loop (m[p := TO_LOWER c]) (Suc p))"
  by pat_completeness auto
termination
  by (relation "measure (\<lambda>(m, p). length m - p)") (auto dest: rd_SomeD)

declare key_loop.simps [simp del]

text \<open>\<^verbatim>\<open>for (...; p[0] != '\r' || p[1] != '\n'; p++)\<close>\<close>

function crlf_loop :: "mem \<Rightarrow> nat \<Rightarrow> nat option" where
  "crlf_loop m p = (case rd m p of
      None \<Rightarrow> None
    | Some c \<Rightarrow>
        if c \<noteq> CR then crlf_loop m (Suc p)
        else (case rd m (Suc p) of
                None \<Rightarrow> None
              | Some d \<Rightarrow> if d \<noteq> LF then crlf_loop m (Suc p) else Some p))"
  by pat_completeness auto
termination
  by (relation "measure (\<lambda>(m, p). length m - p)") (auto dest: rd_SomeD)

declare crlf_loop.simps [simp del]

text \<open>
  The test for a persistent connection looks at the first and the tenth letter of the value only.
\<close>

definition wants_keepalive :: "mem \<Rightarrow> header_t \<Rightarrow> bool" where
  "wants_keepalive m hdr \<longleftrightarrow>
     key_len hdr = 10 \<and> cstr (drop (key_str hdr) m) = ''connection'' \<and> val_len hdr > 9 \<and>
     (m ! val_str hdr = CHR ''k'' \<or> m ! val_str hdr = CHR ''K'') \<and>
     (m ! (val_str hdr + 9) = CHR ''e'' \<or> m ! (val_str hdr + 9) = CHR ''E'')"

text \<open>One header line starting at \<open>p\<close>: \<open>Inl\<close> is the status 400, \<open>Inr\<close> the place of the next line.\<close>

definition header_line :: "('k \<Rightarrow> bool \<times> 'k) \<Rightarrow> nat \<Rightarrow> headers_in \<Rightarrow> 'k \<Rightarrow>
    (headers_in \<times> 'k + nat \<times> headers_in \<times> 'k) option" where
  "header_line nks p h k =
     (let h = h\<lparr>hi_alloc := hi_alloc h + 1\<rparr> in
      do { r \<leftarrow> key_loop (hi_b h) p;
           (case r of
              Inl m \<Rightarrow> Some (Inl (h\<lparr>hi_b := m\<rparr>, k))
            | Inr (m, colon) \<Rightarrow>
                let m = m[colon := NUL] in
                do { v \<leftarrow> scan (\<lambda>c. c \<noteq> CHR '' '') m (Suc colon);
                     e \<leftarrow> crlf_loop m v;
                     let m = m[e := NUL];
                         hdr = \<lparr>key_str = p, key_len = colon - p, val_str = v, val_len = e - v\<rparr>;
                         (ka, k) = (if wants_keepalive m hdr then nks k else (hi_keepalive h, k)) in
                     Some (Inr (e + 2, h\<lparr>hi_b := m, hi_p := hi_p h @ [hdr], hi_keepalive := ka\<rparr>, k)) }) })"

lemma length_key_loop:
  "key_loop m p = Some (Inr (m', q)) \<Longrightarrow> length m' = length m \<and> p \<le> q \<and> q < length m"
proof (induction m p rule: key_loop.induct)
  case (1 m p)
  show ?case
  proof (cases "rd m p")
    case None
    then show ?thesis using "1.prems" by (simp add: key_loop.simps)
  next
    case (Some c)
    then have p: "p < length m" using rd_SomeD by blast
    show ?thesis
    proof (cases "c = CHR '':'' \<or> \<not> IS_SYM c")
      case True
      then show ?thesis using "1.prems" Some p by (auto simp: key_loop.simps [of m p] split: if_splits)
    next
      case False
      then have "key_loop (m[p := TO_LOWER c]) (Suc p) = Some (Inr (m', q))"
        using "1.prems" Some by (simp add: key_loop.simps [of m p])
      from "1.IH" [OF Some _ _ this] False show ?thesis by simp
    qed
  qed
qed

lemma crlf_loop_SomeD:
  "crlf_loop m p = Some e \<Longrightarrow> p \<le> e \<and> Suc e < length m \<and> m ! e = CR \<and> m ! Suc e = LF"
proof (induction m p rule: crlf_loop.induct)
  case (1 m p)
  have p: "p < length m" using "1.prems" by (cases "p < length m") (auto simp: crlf_loop.simps [of m p])
  have "Suc p < length m" if "m ! p = CR"
    using "1.prems" p that by (cases "Suc p < length m") (simp_all add: crlf_loop.simps [of m p])
  then consider "m ! p \<noteq> CR" | "m ! p = CR" "Suc p < length m" "m ! Suc p \<noteq> LF"
    | "m ! p = CR" "Suc p < length m" "m ! Suc p = LF" by blast
  then show ?case
  proof cases
    case 1
    then have "crlf_loop m (Suc p) = Some e" using "1.prems" p by (simp add: crlf_loop.simps [of m p])
    then show ?thesis using "1.IH"(1) [of "m ! p"] 1 p by auto
  next
    case 2
    then have "crlf_loop m (Suc p) = Some e" using "1.prems" p by (simp add: crlf_loop.simps [of m p])
    then show ?thesis using "1.IH"(2) [of "m ! p" "m ! Suc p"] 2 p by auto
  next
    case 3
    then have "e = p" using "1.prems" p by (simp add: crlf_loop.simps [of m p])
    then show ?thesis using 3 by simp
  qed
qed

lemma header_line_InrE:
  assumes "header_line nks p h k = Some (Inr (p', h', k'))"
  obtains m c v e where "key_loop (hi_b h) p = Some (Inr (m, c))"
    "scan (\<lambda>c. c \<noteq> CHR '' '') (m[c := NUL]) (Suc c) = Some v" "crlf_loop (m[c := NUL]) v = Some e"
    "p' = e + 2" "hi_b h' = m[c := NUL, e := NUL]"
    "hi_p h' = hi_p h @ [\<lparr>key_str = p, key_len = c - p, val_str = v, val_len = e - v\<rparr>]"
proof -
  obtain r where r: "key_loop (hi_b h) p = Some r"
    using assms by (cases "key_loop (hi_b h) p") (auto simp: header_line_def)
  obtain m c where i: "r = Inr (m, c)"
    using assms r by (cases r) (auto simp: header_line_def)
  obtain v where v: "scan (\<lambda>c. c \<noteq> CHR '' '') (m[c := NUL]) (Suc c) = Some v"
    using assms r i by (cases "scan (\<lambda>c. c \<noteq> CHR '' '') (m[c := NUL]) (Suc c)") (auto simp: header_line_def Let_def)
  obtain e where e: "crlf_loop (m[c := NUL]) v = Some e"
    using assms r i v by (cases "crlf_loop (m[c := NUL]) v") (auto simp: header_line_def Let_def)
  show ?thesis
    by (rule that [of m c v e]) (use assms r i v e in \<open>auto simp: header_line_def Let_def split: prod.splits if_splits\<close>)
qed

lemma header_line_length:
  assumes "header_line nks p h k = Some (Inr (p', h', k'))"
  shows "length (hi_b h') = length (hi_b h) \<and> p < p'"
  using assms
proof (rule header_line_InrE)
  fix m c v e
  assume *: "key_loop (hi_b h) p = Some (Inr (m, c))" "scan (\<lambda>c. c \<noteq> CHR '' '') (m[c := NUL]) (Suc c) = Some v"
    "crlf_loop (m[c := NUL]) v = Some e" "p' = e + 2" "hi_b h' = m[c := NUL, e := NUL]"
  then show "length (hi_b h') = length (hi_b h) \<and> p < p'"
    using length_key_loop [OF *(1)] scan_SomeD [OF *(2)] crlf_loop_SomeD [OF *(3)] by simp
qed

function header_lines :: "('k \<Rightarrow> bool \<times> 'k) \<Rightarrow> nat \<Rightarrow> headers_in \<Rightarrow> 'k \<Rightarrow>
    (nat \<times> headers_in \<times> 'k) option" where
  "header_lines nks p h k = (case rd (hi_b h) p of
      None \<Rightarrow> None
    | Some c \<Rightarrow>
        if c = CHR 0x01 then Some (0, h, k)
        else (case header_line nks p h k of
                None \<Rightarrow> None
              | Some (Inl (h', k')) \<Rightarrow> Some (400, h', k')
              | Some (Inr (p', h', k')) \<Rightarrow> header_lines nks p' h' k'))"
  by pat_completeness auto
termination
proof (relation "measure (\<lambda>(nks, p, h, k). length (hi_b h) - p)", goal_cases)
  case (2 nks p h k c r z p' q h' k')
  then have "length (hi_b h') = length (hi_b h) \<and> p < p'" using header_line_length by fastforce
  with 2 show ?case by (auto dest: rd_SomeD)
qed simp

declare header_lines.simps [simp del]

definition http_parse_headers :: "('k \<Rightarrow> bool \<times> 'k) \<Rightarrow> headers_in \<Rightarrow> 'k \<Rightarrow> (nat \<times> headers_in \<times> 'k) option" where
  "http_parse_headers nks h k =
     do { mt \<leftarrow> parse_method h;
          (case mt of
             None \<Rightarrow> Some (501, h, k)
           | Some (p, h) \<Rightarrow>
               do { c \<leftarrow> rd (hi_b h) p;
                    if c \<noteq> CHR ''/'' then Some (400, h, k)
                    else do {
                      e \<leftarrow> scan (\<lambda>c. c = CHR '' '') (hi_b h) p;
                      let len = uri_len h + (e - p);
                      m \<leftarrow> wr (hi_b h) (p + len) NUL;
                      let h = h\<lparr>hi_b := m, uri_str := p, uri_len := len\<rparr>;
                      http \<leftarrow> matches_at (hi_b h) (Suc e) ''HTTP/'';
                      if \<not> http then Some (400, h, k)
                      else do {
                        let v = e + 6;
                        f \<leftarrow> scan (\<lambda>c. c = CR) (hi_b h) v;
                        header_lines nks (f + 2)
                          (h\<lparr>hi_b := (hi_b h)[f := NUL], ver_str := v, ver_len := f - v\<rparr>) k } } }) }"

section \<open>What parsing leaves alone\<close>

definition same_request :: "headers_in \<Rightarrow> headers_in \<Rightarrow> bool" where
  "same_request h h' \<longleftrightarrow> length (hi_b h') = length (hi_b h) \<and> uri_str h' = uri_str h \<and> uri_len h' = uri_len h \<and>
     ver_str h' = ver_str h \<and> ver_len h' = ver_len h \<and>
     method_get h' = method_get h \<and> method_post h' = method_post h \<and> method_head h' = method_head h"

lemma length_key_loop_Inl: "key_loop m p = Some (Inl m') \<Longrightarrow> length m' = length m"
proof (induction m p rule: key_loop.induct)
  case (1 m p)
  obtain c where c: "rd m p = Some c" using "1.prems" by (cases "rd m p") (auto simp: key_loop.simps [of m p])
  show ?case
    using "1.prems" "1.IH" [OF c] c by (auto simp: key_loop.simps [of m p] split: if_splits)
qed

lemma header_line_frame:
  assumes "header_line nks p h k = Some r"
  shows "same_request h (case r of Inl (h', k') \<Rightarrow> h' | Inr (p', h', k') \<Rightarrow> h')"
proof -
  obtain x where x: "key_loop (hi_b h) p = Some x" using assms by (cases "key_loop (hi_b h) p") (auto simp: header_line_def)
  show ?thesis
  proof (cases x)
    case (Inl m)
    then show ?thesis using assms x length_key_loop_Inl [of "hi_b h" p m] by (auto simp: header_line_def same_request_def)
  next
    case (Inr mc)
    then show ?thesis using assms x length_key_loop [of "hi_b h" p "fst mc" "snd mc"]
      by (auto simp: header_line_def same_request_def Let_def split: option.splits prod.splits if_splits Option.bind_splits)
  qed
qed

lemma same_request_trans: "same_request h h1 \<Longrightarrow> same_request h1 h2 \<Longrightarrow> same_request h h2"
  by (simp add: same_request_def)

lemma header_lines_frame: "header_lines nks p h k = Some (code, h', k') \<Longrightarrow> same_request h h'"
proof (induction nks p h k rule: header_lines.induct)
  case (1 nks p h k)
  obtain c where c: "rd (hi_b h) p = Some c" using "1.prems" by (cases "rd (hi_b h) p") (auto simp: header_lines.simps [of nks p])
  show ?case
  proof (cases "c = CHR 0x01")
    case True
    then show ?thesis using "1.prems" c by (simp add: header_lines.simps [of nks p] same_request_def)
  next
    case False
    obtain r where r: "header_line nks p h k = Some r"
      using "1.prems" c False by (cases "header_line nks p h k") (auto simp: header_lines.simps [of nks p])
    show ?thesis
    proof (cases r)
      case (Inl x)
      then show ?thesis using "1.prems" c False r header_line_frame [OF r] by (cases x) (simp add: header_lines.simps [of nks p])
    next
      case (Inr x)
      obtain p1 h1 k1 where x: "x = (p1, h1, k1)" by (cases x)
      have "header_lines nks p1 h1 k1 = Some (code, h', k')" using "1.prems" c False r Inr x by (simp add: header_lines.simps [of nks p])
      then have "same_request h1 h'" using "1.IH" [OF c False r Inr x [symmetric] refl] by blast
      then show ?thesis using header_line_frame [OF r] Inr x same_request_trans by fastforce
    qed
  qed
qed

lemma parse_method_frame:
  "parse_method h = Some (Some (p, h1)) \<Longrightarrow> hi_b h1 = hi_b h \<and> uri_len h1 = uri_len h \<and> hi_p h1 = hi_p h"
  by (auto simp: parse_method_def split: Option.bind_splits if_splits)

lemma http_parse_headers_frame:
  assumes "http_parse_headers nks h k = Some (code, h', k')"
  shows "length (hi_b h') = length (hi_b h) \<and> (code = 0 \<longrightarrow> 0 < uri_len h')"
proof -
  obtain mt where mt: "parse_method h = Some mt" using assms by (cases "parse_method h") (auto simp: http_parse_headers_def)
  show ?thesis
  proof (cases mt)
    case None
    then show ?thesis using assms mt by (auto simp: http_parse_headers_def)
  next
    case (Some ph)
    obtain p h1 where ph: "ph = (p, h1)" by (cases ph)
    note h1 = parse_method_frame [OF mt [unfolded Some ph]]
    obtain c where c: "rd (hi_b h1) p = Some c" using assms mt Some ph by (cases "rd (hi_b h1) p") (auto simp: http_parse_headers_def)
    show ?thesis
    proof (cases "c = CHR ''/''")
      case False
      then show ?thesis using assms mt Some ph c h1 by (auto simp: http_parse_headers_def)
    next
      case True
      obtain e where e: "scan (\<lambda>c. c = CHR '' '') (hi_b h1) p = Some e"
        using assms mt Some ph c True by (cases "scan (\<lambda>c. c = CHR '' '') (hi_b h1) p") (auto simp: http_parse_headers_def)
      have pe: "p < e" using scan_SomeD [OF e] rd_SomeD [OF c] True by (cases "p = e") auto
      show ?thesis
        using assms mt Some ph c True e pe h1
        by (auto simp: http_parse_headers_def Let_def same_request_def split: Option.bind_splits if_splits
            dest!: header_lines_frame wr_SomeD)
    qed
  qed
qed

section \<open>The parser stays inside the header block\<close>

text \<open>
  The receive loop has found the empty line and replaced its carriage return by a byte 1: at \<open>s\<close>
  stand CR, LF and 1.  While lines are parsed from \<open>p\<close>, this end marker stays in front of it.
\<close>

definition block_end :: "mem \<Rightarrow> nat \<Rightarrow> bool" where
  "block_end m s \<longleftrightarrow> s + 2 < length m \<and> m ! s = CR \<and> m ! (s + 1) = LF \<and> m ! (s + 2) = CHR 0x01"

definition lines_inv :: "mem \<Rightarrow> nat \<Rightarrow> nat \<Rightarrow> bool" where
  "lines_inv m s p \<longleftrightarrow> s + 2 < length m \<and> m ! (s + 1) = LF \<and> m ! (s + 2) = CHR 0x01 \<and>
     p \<le> s + 2 \<and> (p \<le> s \<longrightarrow> m ! s = CR)"

definition header_inside :: "nat \<Rightarrow> header_t \<Rightarrow> bool" where
  "header_inside s hdr \<longleftrightarrow>
     key_str hdr + key_len hdr < val_str hdr \<and> val_str hdr + val_len hdr \<le> s"

lemma key_loop_inside:
  assumes "lines_inv m s p" "p \<le> s + 1"
  shows "\<exists>r. key_loop m p = Some r \<and> (\<forall>m' q. r = Inr (m', q) \<longrightarrow>
     p \<le> q \<and> q < s \<and> length m' = length m \<and> (\<forall>k \<ge> q. m' ! k = m ! k))"
  using assms
proof (induction m p rule: key_loop.induct)
  case (1 m p)
  then have p: "p < length m" by (auto simp: lines_inv_def)
  have r: "rd m p = Some (m ! p)" using p by simp
  show ?case
  proof (cases "m ! p = CHR '':'' \<or> \<not> IS_SYM (m ! p)")
    case True
    have "p < s" if "m ! p = CHR '':''"
    proof (rule ccontr)
      assume "\<not> p < s"
      then have "p = s \<or> p = s + 1" using "1.prems" by auto
      then show False using "1.prems" that by (auto simp: lines_inv_def)
    qed
    with True r show ?thesis by (auto simp: key_loop.simps [of m p])
  next
    case False
    have "p \<noteq> s" "p \<noteq> s + 1" using False "1.prems"(1) by (auto simp: lines_inv_def IS_SYM_def)
    then have lt: "p < s" using "1.prems"(2) by simp
    let ?m = "m[p := TO_LOWER (m ! p)]"
    have inv: "lines_inv ?m s (Suc p)" using "1.prems"(1) lt by (auto simp: lines_inv_def)
    have "key_loop m p = key_loop ?m (Suc p)" using False r by (simp add: key_loop.simps [of m p])
    moreover have "\<exists>r. key_loop ?m (Suc p) = Some r \<and> (\<forall>m' q. r = Inr (m', q) \<longrightarrow>
        Suc p \<le> q \<and> q < s \<and> length m' = length ?m \<and> (\<forall>k \<ge> q. m' ! k = ?m ! k))"
      using False lt by (intro "1.IH" [OF r] inv) auto
    ultimately show ?thesis by fastforce
  qed
qed

lemma crlf_loop_inside:
  assumes "p \<le> s" "s + 1 < length m" "m ! s = CR" "m ! (s + 1) = LF"
  shows "\<exists>e. crlf_loop m p = Some e \<and> p \<le> e \<and> e \<le> s"
  using assms
proof (induction m p rule: crlf_loop.induct)
  case (1 m p)
  have r: "rd m p = Some (m ! p)" "rd m (Suc p) = Some (m ! Suc p)" using "1.prems" by auto
  show ?case
  proof (cases "m ! p = CR \<and> m ! Suc p = LF")
    case True
    then show ?thesis using r "1.prems" by (auto simp: crlf_loop.simps [of m p])
  next
    case False
    then have e: "crlf_loop m p = crlf_loop m (Suc p)" using r by (auto simp: crlf_loop.simps [of m p])
    have "Suc p \<le> s" using False "1.prems" by (metis Suc_eq_plus1 Suc_leI le_neq_implies_less)
    then have "\<exists>e. crlf_loop m (Suc p) = Some e \<and> Suc p \<le> e \<and> e \<le> s"
      using False r "1.prems" "1.IH" by (cases "m ! p = CR") auto
    then show ?thesis using e by auto
  qed
qed

lemma header_line_inside:
  assumes inv: "lines_inv (hi_b h) s p" and p: "p \<le> s + 1"
  shows "\<exists>r. header_line nks p h k = Some r \<and> (\<forall>p' h' k'. r = Inr (p', h', k') \<longrightarrow>
     lines_inv (hi_b h') s p' \<and> (\<exists>hdr. hi_p h' = hi_p h @ [hdr] \<and> header_inside s hdr))"
proof -
  obtain r where r: "key_loop (hi_b h) p = Some r" and ok: "\<And>m' q. r = Inr (m', q) \<Longrightarrow>
      p \<le> q \<and> q < s \<and> length m' = length (hi_b h) \<and> (\<forall>k \<ge> q. m' ! k = hi_b h ! k)"
    using key_loop_inside [OF inv p] by blast
  show ?thesis
  proof (cases r)
    case (Inl m)
    then show ?thesis using r by (simp add: header_line_def)
  next
    case (Inr mc)
    obtain m c where mc: "mc = (m, c)" by (cases mc)
    have c: "p \<le> c" "c < s" "length m = length (hi_b h)" "\<And>k. c \<le> k \<Longrightarrow> m ! k = hi_b h ! k"
      using ok [of m c] Inr mc by auto
    let ?m = "m[c := NUL]"
    have m: "s + 2 < length ?m" "?m ! s = CR" "?m ! (s + 1) = LF" "?m ! (s + 2) = CHR 0x01"
      using inv c by (auto simp: lines_inv_def)
    obtain v where v: "scan (\<lambda>c. c \<noteq> CHR '' '') ?m (Suc c) = Some v" "v \<le> s"
      using scan_finds [of "Suc c" s ?m "\<lambda>c. c \<noteq> CHR '' ''"] c m by auto
    have vc: "c < v" using scan_SomeD [OF v(1)] by simp
    obtain e where e: "crlf_loop ?m v = Some e" "v \<le> e" "e \<le> s"
      using crlf_loop_inside [of v s ?m] v m by auto
    have "?m ! Suc e = LF" "?m ! e = CR" using crlf_loop_SomeD [OF e(1)] by auto
    then have "lines_inv (?m[e := NUL]) s (e + 2)"
      using m e by (auto simp: lines_inv_def nth_list_update)
    moreover have "header_inside s \<lparr>key_str = p, key_len = c - p, val_str = v, val_len = e - v\<rparr>"
      using c vc e by (simp add: header_inside_def)
    ultimately show ?thesis
      using r Inr mc v e by (auto simp: header_line_def Let_def split: prod.splits)
  qed
qed

lemma header_lines_inside:
  assumes "lines_inv (hi_b h) s p" "\<forall>hdr \<in> set (hi_p h). header_inside s hdr"
  shows "\<exists>code h' k'. header_lines nks p h k = Some (code, h', k') \<and> code \<in> {0, 400} \<and>
           (code = 0 \<longrightarrow> (\<forall>hdr \<in> set (hi_p h'). header_inside s hdr))"
  using assms
proof (induction nks p h k rule: header_lines.induct)
  case (1 nks p h k)
  have r: "rd (hi_b h) p = Some (hi_b h ! p)" using "1.prems"(1) by (auto simp: lines_inv_def)
  show ?case
  proof (cases "hi_b h ! p = CHR 0x01")
    case True
    then show ?thesis using r "1.prems" by (simp add: header_lines.simps [of nks p])
  next
    case False
    then have p: "p \<le> s + 1" using "1.prems"(1) by (auto simp: lines_inv_def le_Suc_eq)
    obtain r' where r': "header_line nks p h k = Some r'" and ok: "\<And>p' h' k'. r' = Inr (p', h', k') \<Longrightarrow>
       lines_inv (hi_b h') s p' \<and> (\<exists>hdr. hi_p h' = hi_p h @ [hdr] \<and> header_inside s hdr)"
      using header_line_inside [OF "1.prems"(1) p, of nks k] by blast
    show ?thesis
    proof (cases r')
      case (Inl hk)
      then show ?thesis using r r' False by (cases hk) (simp add: header_lines.simps [of nks p])
    next
      case (Inr x)
      obtain p' h' k' where x: "x = (p', h', k')" by (cases x)
      have "\<exists>code h'' k''. header_lines nks p' h' k' = Some (code, h'', k'') \<and> code \<in> {0, 400} \<and>
           (code = 0 \<longrightarrow> (\<forall>hdr \<in> set (hi_p h''). header_inside s hdr))"
        using ok [of p' h' k'] "1.prems"(2) Inr x by (intro "1.IH" [OF r False r' Inr x [symmetric] refl]) auto
      then show ?thesis using r r' False Inr x by (simp add: header_lines.simps [of nks p])
    qed
  qed
qed

lemma matches_at_inside:
  "i \<le> s \<Longrightarrow> s < length m \<Longrightarrow> m ! s \<notin> set cs \<Longrightarrow> \<exists>b. matches_at m i cs = Some b \<and> (b \<longrightarrow> i + length cs \<le> s)"
proof (induction cs arbitrary: i)
  case (Cons c cs)
  show ?case
  proof (cases "m ! i = c")
    case True
    then have "Suc i \<le> s" using Cons.prems by (metis list.set_intros(1) not_less_eq_eq le_antisym)
    then show ?thesis using Cons.IH [of "Suc i"] Cons.prems True by simp
  next
    case False
    then show ?thesis using Cons.prems by auto
  qed
qed auto

declare matches_at.simps [simp del]

lemma matches_at_SomeD: "matches_at m i cs = Some True \<Longrightarrow> take (length cs) (drop i m) = cs"
proof (induction cs arbitrary: i)
  case (Cons c cs)
  then have "i < length m" "m ! i = c" "matches_at m (Suc i) cs = Some True"
    by (auto simp: matches_at.simps rd_def split: if_splits)
  then show ?case using Cons.IH [of "Suc i"] Cons_nth_drop_Suc [of i m] by (metis length_Cons take_Suc_Cons)
qed simp

text \<open>A method the server knows, a blank and the slash of the URI.\<close>

definition starts_uri :: "mem \<Rightarrow> bool" where
  "starts_uri m \<longleftrightarrow> take 5 m = ''GET /'' \<or> take 6 m = ''POST /'' \<or> take 6 m = ''HEAD /''"

definition blank_before :: "mem \<Rightarrow> nat \<Rightarrow> bool" where
  "blank_before m s \<longleftrightarrow> CHR '' '' \<in> set (drop 5 (take s m))"

lemma blank_beforeE:
  assumes "blank_before m s" "s \<le> length m"
  obtains j where "5 \<le> j" "j < s" "m ! j = CHR '' ''"
proof -
  obtain i where "i < length (drop 5 (take s m))" "drop 5 (take s m) ! i = CHR '' ''"
    using assms(1) by (auto simp: blank_before_def in_set_conv_nth)
  then show ?thesis using that [of "5 + i"] assms(2) by simp
qed

lemma blank_beforeI: "5 \<le> j \<Longrightarrow> j < s \<Longrightarrow> s \<le> length m \<Longrightarrow> m ! j = CHR '' '' \<Longrightarrow> blank_before m s"
  unfolding blank_before_def in_set_conv_nth by (intro exI [of _ "j - 5"]) auto

lemma parse_method_defined:
  assumes "s < length (hi_b h)" "hi_b h ! s = CR"
  shows "\<exists>r. parse_method h = Some r \<and> (\<forall>p h'. r = Some (p, h') \<longrightarrow> (p = 4 \<or> p = 5) \<and> p \<le> s \<and>
     hi_b h' = hi_b h \<and> uri_len h' = uri_len h \<and> hi_p h' = hi_p h \<and>
     (hi_b h ! p = CHR ''/'' \<longrightarrow> starts_uri (hi_b h)))"
proof -
  obtain g p d where m: "matches_at (hi_b h) 0 ''GET '' = Some g" "matches_at (hi_b h) 0 ''POST '' = Some p"
    "matches_at (hi_b h) 0 ''HEAD '' = Some d" and le: "g \<longrightarrow> 4 \<le> s" "p \<longrightarrow> 5 \<le> s" "d \<longrightarrow> 5 \<le> s"
    using matches_at_inside [of 0 s "hi_b h" "''GET ''"] matches_at_inside [of 0 s "hi_b h" "''POST ''"]
      matches_at_inside [of 0 s "hi_b h" "''HEAD ''"] assms by auto
  have "g \<longrightarrow> take 4 (hi_b h) = ''GET ''" "p \<longrightarrow> take 5 (hi_b h) = ''POST ''" "d \<longrightarrow> take 5 (hi_b h) = ''HEAD ''"
    using matches_at_SomeD [of "hi_b h" 0 "''GET ''"] matches_at_SomeD [of "hi_b h" 0 "''POST ''"]
      matches_at_SomeD [of "hi_b h" 0 "''HEAD ''"] m by (auto simp: numeral_eq_Suc)
  then show ?thesis using m le assms(1) take_Suc_conv_app_nth [of 4 "hi_b h"] take_Suc_conv_app_nth [of 5 "hi_b h"]
    by (auto simp: parse_method_def starts_uri_def)
qed

lemma http_parse_headers_lines:
  assumes blk: "block_end (hi_b h) s" and len0: "uri_len h = 0"
    and sp: "starts_uri (hi_b h) \<longrightarrow> blank_before (hi_b h) s"
  shows "(\<exists>r. http_parse_headers nks h k = Some r \<and> fst r \<in> {400, 501})
    \<or> (\<exists>p h'. lines_inv (hi_b h') s p \<and> hi_p h' = hi_p h \<and> http_parse_headers nks h k = header_lines nks p h' k)"
proof -
  let ?b = "hi_b h"
  have b: "s + 2 < length ?b" "?b ! s = CR" "?b ! (s + 1) = LF" "?b ! (s + 2) = CHR 0x01"
    using blk by (auto simp: block_end_def)
  obtain mt where mt: "parse_method h = Some mt" and ok: "\<And>p h'. mt = Some (p, h') \<Longrightarrow> (p = 4 \<or> p = 5) \<and> p \<le> s \<and>
     hi_b h' = hi_b h \<and> uri_len h' = uri_len h \<and> hi_p h' = hi_p h \<and> (hi_b h ! p = CHR ''/'' \<longrightarrow> starts_uri (hi_b h))"
    using parse_method_defined [of s h] b by auto
  show ?thesis
  proof (cases mt)
    case None
    then show ?thesis using mt by (simp add: http_parse_headers_def)
  next
    case (Some ph)
    obtain p h1 where ph: "ph = (p, h1)" by (cases ph)
    have h1: "p = 4 \<or> p = 5" "hi_b h1 = ?b" "uri_len h1 = 0" "hi_p h1 = hi_p h" using ok [of p h1] Some ph len0 by auto
    have p: "p < length ?b" "?b ! p = CHR ''/'' \<longrightarrow> starts_uri ?b" using ok [of p h1] Some ph b by auto
    show ?thesis
    proof (cases "?b ! p = CHR ''/''")
      case False
      then show ?thesis using mt Some ph h1 p by (simp add: http_parse_headers_def)
    next
      case True
      obtain j where j: "5 \<le> j" "j < s" "?b ! j = CHR '' ''" using blank_beforeE [of ?b s] sp p(2) True b by auto
      have pj: "p \<le> j" using h1(1) j(1) by auto
      obtain e where e: "scan (\<lambda>c. c = CHR '' '') ?b p = Some e" "e \<le> j"
        using scan_finds [of p j ?b "\<lambda>c. c = CHR '' ''"] pj b j by auto
      have pe: "p \<le> e" using scan_SomeD [OF e(1)] by simp
      let ?m = "?b[e := NUL]"
      have m: "?m ! s = CR" "?m ! (s + 1) = LF" "?m ! (s + 2) = CHR 0x01" using b e j by auto
      obtain http where ht: "matches_at ?m (Suc e) ''HTTP/'' = Some http" "http \<longrightarrow> Suc e + 5 \<le> s"
        using matches_at_inside [of "Suc e" s ?m "''HTTP/''"] m b e j by auto
      have w: "wr ?b (p + (e - p)) NUL = Some ?m" using pe e j b by simp
      show ?thesis
      proof (cases http)
        case False
        then show ?thesis using mt Some ph h1 p e ht w True by (simp add: http_parse_headers_def Let_def)
      next
        case http: True
        then obtain f where f: "scan (\<lambda>c. c = CR) ?m (e + 6) = Some f" "f \<le> s"
          using scan_finds [of "e + 6" s ?m "\<lambda>c. c = CR"] m b ht(2) by auto
        let ?h = "h1\<lparr>hi_b := ?m, uri_str := p, uri_len := e - p, hi_b := ?m[f := NUL], ver_str := e + 6, ver_len := f - (e + 6)\<rparr>"
        have "lines_inv (hi_b ?h) s (f + 2)" using m b f by (auto simp: lines_inv_def)
        moreover have "http_parse_headers nks h k = header_lines nks (f + 2) ?h k"
          using mt Some ph h1 p e ht w True http f by (simp add: http_parse_headers_def Let_def)
        moreover have "hi_p ?h = hi_p h" using h1 by simp
        ultimately show ?thesis by blast
      qed
    qed
  qed
qed

lemma http_parse_headers_inside:
  assumes "block_end (hi_b h) s" "uri_len h = 0" "hi_p h = []" "starts_uri (hi_b h) \<longrightarrow> blank_before (hi_b h) s"
  shows "\<exists>code h' k'. http_parse_headers nks h k = Some (code, h', k') \<and> code \<in> {0, 400, 501} \<and>
           (code = 0 \<longrightarrow> (\<forall>hdr \<in> set (hi_p h'). header_inside s hdr))"
proof -
  consider r where "http_parse_headers nks h k = Some r" "fst r \<in> {400, 501}"
    | p h' where "lines_inv (hi_b h') s p" "hi_p h' = []" "http_parse_headers nks h k = header_lines nks p h' k"
    using http_parse_headers_lines [OF assms(1,2,4), of nks k] assms(3) by auto
  then show ?thesis
  proof cases
    case 1
    then show ?thesis by (cases r) auto
  next
    case 2
    then show ?thesis using header_lines_inside [of h' s p nks k] by auto
  qed
qed

text \<open>
  Nothing bounds the search for the blank after the URI: for a request whose buffer has no
  blank behind the method, the loop runs off the end of the buffer.
\<close>

lemma parse_method_text:
  "hi_b h = ''GET '' @ r \<Longrightarrow> parse_method h = Some (Some (4, h\<lparr>method_get := True\<rparr>))"
  "hi_b h = ''POST '' @ r \<Longrightarrow> parse_method h = Some (Some (5, h\<lparr>method_post := True\<rparr>))"
  "hi_b h = ''HEAD '' @ r \<Longrightarrow> parse_method h = Some (Some (5, h\<lparr>method_head := True\<rparr>))"
  by (simp_all add: parse_method_def matches_at.simps)

lemma starts_uri_method:
  assumes "starts_uri (hi_b h)"
  obtains p h1 where "parse_method h = Some (Some (p, h1))" "hi_b h1 = hi_b h" "p = 4 \<or> p = 5" "rd (hi_b h) p = Some CHR ''/''"
proof -
  consider "hi_b h = ''GET '' @ ''/'' @ drop 5 (hi_b h)" | "hi_b h = ''POST '' @ ''/'' @ drop 6 (hi_b h)"
    | "hi_b h = ''HEAD '' @ ''/'' @ drop 6 (hi_b h)"
    using assms append_take_drop_id [of 5 "hi_b h"] append_take_drop_id [of 6 "hi_b h"] unfolding starts_uri_def
    by (metis append_Cons append_Nil)
  then show ?thesis
  proof cases
    case 1
    have "rd (''GET '' @ ''/'' @ drop 5 (hi_b h)) 4 = Some CHR ''/''" by simp
    then have "rd (hi_b h) 4 = Some CHR ''/''" using 1 by (rule ssubst [where P = "\<lambda>m. rd m 4 = _", rotated])
    then show ?thesis using that [OF parse_method_text(1) [OF 1]] by simp
  next
    case 2
    have "rd (''POST '' @ ''/'' @ drop 6 (hi_b h)) 5 = Some CHR ''/''" by simp
    then have "rd (hi_b h) 5 = Some CHR ''/''" using 2 by (rule ssubst [where P = "\<lambda>m. rd m 5 = _", rotated])
    then show ?thesis using that [OF parse_method_text(2) [OF 2]] by simp
  next
    case 3
    have "rd (''HEAD '' @ ''/'' @ drop 6 (hi_b h)) 5 = Some CHR ''/''" by simp
    then have "rd (hi_b h) 5 = Some CHR ''/''" using 3 by (rule ssubst [where P = "\<lambda>m. rd m 5 = _", rotated])
    then show ?thesis using that [OF parse_method_text(3) [OF 3]] by simp
  qed
qed

lemma http_parse_headers_runs_off:
  assumes "starts_uri (hi_b h)" "\<not> blank_before (hi_b h) (length (hi_b h))"
  shows "http_parse_headers nks h k = None"
proof -
  obtain p h1 where p: "parse_method h = Some (Some (p, h1))" "hi_b h1 = hi_b h" "p = 4 \<or> p = 5" "rd (hi_b h) p = Some CHR ''/''"
    using starts_uri_method [OF assms(1)] .
  have no: "hi_b h ! i \<noteq> CHR '' ''" if "p \<le> i" "i < length (hi_b h)" for i
  proof (cases "i = p")
    case True
    then show ?thesis using p(4) by (auto simp: rd_def split: if_splits)
  next
    case False
    then show ?thesis using assms(2) blank_beforeI [of i "length (hi_b h)" "hi_b h"] that p(3) by auto
  qed
  then have "scan (\<lambda>c. c = CHR '' '') (hi_b h) p = None" unfolding scan_None by blast
  then show ?thesis using p by (simp add: http_parse_headers_def)
qed

theorem http_parse_headers_no_blank:
  assumes "hi_b h = ''GET /'' @ r" "CHR '' '' \<notin> set r"
  shows "http_parse_headers nks h k = None"
  by (rule http_parse_headers_runs_off) (simp_all add: assms starts_uri_def blank_before_def)

theorem http_parse_headers_no_blank_witness:
  "http_parse_headers (\<lambda>u. (True, u))
      \<lparr>hi_b = ''GET /'' @ [CR, LF, CHR 0x01, LF], method_get = False,
       method_post = False, method_head = False, uri_str = 0, uri_len = 0, ver_str = 0, ver_len = 0,
       hi_p = [], hi_alloc = 0, hi_keepalive = False\<rparr> () = None"
  by (rule http_parse_headers_no_blank [of _ "[CR, LF, CHR 0x01, LF]"]) simp_all

text \<open>
  C2.  Parsing the headers of a request, when the block is ended by the empty line the receive loop
  marked.  If the request line is not one with a known method and a URI, or has a blank in front of the end of the block,
  \<^verbatim>\<open>http_parse_headers\<close> returns one of its three status codes, and the names and values of all
  accepted headers lie in front of the empty line, each name in front of its value.
  The condition on the blank is needed: with a known method, a URI and no blank
  anywhere behind it the parser reads past the end of its buffer.
\<close>

theorem http_parse_headers_safe:
  assumes "block_end (hi_b h) s" "uri_len h = 0" "hi_p h = []"
  shows "(\<not> starts_uri (hi_b h) \<or> blank_before (hi_b h) s \<longrightarrow>
           (\<exists>code h' k'. http_parse_headers nks h k = Some (code, h', k') \<and> code \<in> {0, 400, 501} \<and>
              (code = 0 \<longrightarrow> (\<forall>hdr \<in> set (hi_p h'). header_inside s hdr)))) \<and>
         (starts_uri (hi_b h) \<and> \<not> blank_before (hi_b h) (length (hi_b h)) \<longrightarrow> http_parse_headers nks h k = None)"
  using http_parse_headers_inside [OF assms, of nks k] http_parse_headers_runs_off [of h nks k] by blast

theorem http_parse_headers_safe_witness:
  "(\<exists>code h' k'. http_parse_headers (\<lambda>u. (True, u))
      \<lparr>hi_b = ''GET / HTTP/1.1'' @ [CR, LF] @ ''A:b'' @ [CR, LF, CHR 0x01, LF], method_get = False,
       method_post = False, method_head = False, uri_str = 0, uri_len = 0, ver_str = 0, ver_len = 0,
       hi_p = [], hi_alloc = 0, hi_keepalive = False\<rparr> () = Some (code, h', k') \<and> code \<in> {0, 400, 501}) \<and>
   http_parse_headers (\<lambda>u. (True, u))
      \<lparr>hi_b = ''GET /'' @ [CR, LF, CHR 0x01, LF], method_get = False,
       method_post = False, method_head = False, uri_str = 0, uri_len = 0, ver_str = 0, ver_len = 0,
       hi_p = [], hi_alloc = 0, hi_keepalive = False\<rparr> () = None"
proof
  let ?g = "\<lparr>hi_b = ''GET / HTTP/1.1'' @ [CR, LF] @ ''A:b'' @ [CR, LF, CHR 0x01, LF], method_get = False,
       method_post = False, method_head = False, uri_str = 0, uri_len = 0, ver_str = 0, ver_len = 0,
       hi_p = [], hi_alloc = 0, hi_keepalive = False\<rparr>"
  have "block_end (hi_b ?g) 19" "blank_before (hi_b ?g) 19" by (simp_all add: block_end_def blank_before_def)
  then show "\<exists>code h' k'. http_parse_headers (\<lambda>u. (True, u)) ?g () = Some (code, h', k') \<and> code \<in> {0, 400, 501}"
    using http_parse_headers_safe [of ?g 19 "\<lambda>u. (True, u)" "()"] by (auto simp only: headers_in.simps)
next
  let ?b = "\<lparr>hi_b = ''GET /'' @ [CR, LF, CHR 0x01, LF], method_get = False,
       method_post = False, method_head = False, uri_str = 0, uri_len = 0, ver_str = 0, ver_len = 0,
       hi_p = [], hi_alloc = 0, hi_keepalive = False\<rparr>"
  have "block_end (hi_b ?b) 5" "starts_uri (hi_b ?b)" "\<not> blank_before (hi_b ?b) (length (hi_b ?b))"
    by (simp_all add: block_end_def blank_before_def starts_uri_def)
  then show "http_parse_headers (\<lambda>u. (True, u)) ?b () = None"
    using http_parse_headers_safe [of ?b 5 "\<lambda>u. (True, u)" "()"] by (auto simp only: headers_in.simps)
qed

section \<open>A well-formed request is read back\<close>

text \<open>A header line as a client sends it, and what it is turned into in place.\<close>

definition line_text :: "string \<times> string \<Rightarrow> string" where
  "line_text kv = fst kv @ '': '' @ snd kv @ [CR, LF]"

definition line_done :: "string \<times> string \<Rightarrow> string" where
  "line_done kv = map TO_LOWER (fst kv) @ [NUL, CHR '' ''] @ snd kv @ [NUL, LF]"

definition line_ok :: "string \<times> string \<Rightarrow> bool" where
  "line_ok kv \<longleftrightarrow> fst kv \<noteq> [] \<and> (\<forall>c \<in> set (fst kv). IS_SYM c \<and> c \<noteq> CHR '':'') \<and> CR \<notin> set (snd kv) \<and>
     NUL \<notin> set (snd kv) \<and> (snd kv \<noteq> [] \<longrightarrow> snd kv ! 0 \<noteq> CHR '' '')"

definition line_header :: "nat \<Rightarrow> string \<times> string \<Rightarrow> header_t" where
  "line_header p kv = \<lparr>key_str = p, key_len = length (fst kv), val_str = p + length (fst kv) + 2, val_len = length (snd kv)\<rparr>"

fun layout :: "nat \<Rightarrow> (string \<times> string) list \<Rightarrow> header_t list" where
  "layout p [] = []"
| "layout p (kv # kvs) = line_header p kv # layout (p + length (line_text kv)) kvs"

definition asks_keepalive :: "string \<times> string \<Rightarrow> bool" where
  "asks_keepalive kv \<longleftrightarrow> map TO_LOWER (fst kv) = ''connection'' \<and> 9 < length (snd kv) \<and>
     (snd kv ! 0 = CHR ''k'' \<or> snd kv ! 0 = CHR ''K'') \<and> (snd kv ! 9 = CHR ''e'' \<or> snd kv ! 9 = CHR ''E'')"

fun keepalive_after :: "('k \<Rightarrow> bool \<times> 'k) \<Rightarrow> (string \<times> string) list \<Rightarrow> bool \<times> 'k \<Rightarrow> bool \<times> 'k" where
  "keepalive_after nks [] x = x"
| "keepalive_after nks (kv # kvs) x =
     keepalive_after nks kvs (if asks_keepalive kv then nks (snd x) else x)"

lemma key_loop_text:
  "\<forall>c \<in> set k. IS_SYM c \<and> c \<noteq> CHR '':'' \<Longrightarrow>
   key_loop (d @ k @ CHR '':'' # r) (length d) = Some (Inr (d @ map TO_LOWER k @ CHR '':'' # r, length d + length k))"
proof (induction k arbitrary: d)
  case Nil
  then show ?case by (simp add: key_loop.simps)
next
  case (Cons c k)
  have "key_loop (d @ (c # k) @ CHR '':'' # r) (length d) =
    key_loop ((d @ [TO_LOWER c]) @ k @ CHR '':'' # r) (length (d @ [TO_LOWER c]))"
    using Cons.prems by (subst key_loop.simps) (simp add: list_update_append)
  also have "\<dots> = Some (Inr ((d @ [TO_LOWER c]) @ map TO_LOWER k @ CHR '':'' # r, length (d @ [TO_LOWER c]) + length k))"
    using Cons.prems by (intro Cons.IH) auto
  finally show ?case by simp
qed

lemma crlf_loop_text:
  "CR \<notin> set v \<Longrightarrow> crlf_loop (d @ v @ CR # LF # r) (length d) = Some (length d + length v)"
proof (induction v arbitrary: d)
  case Nil
  have "(d @ CR # LF # r) ! Suc (length d) = LF" by (simp add: nth_append)
  then show ?case by (simp add: crlf_loop.simps)
next
  case (Cons c v)
  have "crlf_loop (d @ (c # v) @ CR # LF # r) (length d) = crlf_loop ((d @ [c]) @ v @ CR # LF # r) (length (d @ [c]))"
    using Cons.prems by (subst crlf_loop.simps) auto
  also have "\<dots> = Some (length (d @ [c]) + length v)" using Cons.prems by (intro Cons.IH) auto
  finally show ?case by simp
qed

lemma cstr_append_NUL: "NUL \<notin> set k \<Longrightarrow> cstr (k @ NUL # r) = k"
  by (auto simp: cstr_def takeWhile_append)

lemma IS_SYM_not_NUL: "IS_SYM c \<Longrightarrow> TO_LOWER c \<noteq> NUL"
  using TO_LOWER_IS_SYM [of c] by (auto simp: IS_SYM_def)

lemma wants_keepalive_text:
  assumes "line_ok kv"
  shows "wants_keepalive (d @ line_done kv @ r) (line_header (length d) kv) = asks_keepalive kv"
proof -
  let ?k = "map TO_LOWER (fst kv)" and ?v = "snd kv"
  have "NUL \<notin> set ?k" using assms IS_SYM_not_NUL by (force simp: line_ok_def)
  then have cs: "cstr (drop (length d) (d @ line_done kv @ r)) = ?k"
    by (simp add: line_done_def cstr_append_NUL)
  have n: "(d @ line_done kv @ r) ! (length d + length (fst kv) + 2 + i) = ?v ! i" if "i < length ?v" for i
    using that by (simp add: line_done_def nth_append)
  show ?thesis
  proof (cases "9 < length ?v")
    case True
    then have "(d @ line_done kv @ r) ! (length d + length (fst kv) + 2) = ?v ! 0"
      "(d @ line_done kv @ r) ! (length d + length (fst kv) + 2 + 9) = ?v ! 9" using n [of 0] n [of 9] by fastforce+
    moreover have "?k = ''connection'' \<longrightarrow> length (fst kv) = 10" by (auto dest: arg_cong [of _ _ length])
    ultimately show ?thesis using cs
      unfolding wants_keepalive_def line_header_def asks_keepalive_def header_t.simps by metis
  qed (simp add: wants_keepalive_def line_header_def asks_keepalive_def)
qed

lemma header_line_text:
  assumes ok: "line_ok kv" and b: "hi_b h = d @ line_text kv @ r"
  shows "\<exists>h'. header_line nks (length d) h k = Some (Inr (length d + length (line_text kv), h',
       snd (if asks_keepalive kv then nks k else (hi_keepalive h, k)))) \<and>
     hi_b h' = d @ line_done kv @ r \<and> hi_p h' = hi_p h @ [line_header (length d) kv] \<and>
     hi_keepalive h' = fst (if asks_keepalive kv then nks k else (hi_keepalive h, k)) \<and>
     uri_str h' = uri_str h \<and> uri_len h' = uri_len h"
proof -
  let ?d = "d @ map TO_LOWER (fst kv)" and ?v = "snd kv"
  let ?m = "?d @ NUL # CHR '' '' # ?v @ CR # LF # r"
  have key: "key_loop (hi_b h) (length d) = Some (Inr (?d @ CHR '':'' # CHR '' '' # ?v @ CR # LF # r, length ?d))"
    using key_loop_text [of "fst kv" d "CHR '' '' # ?v @ CR # LF # r"] ok b by (simp add: line_ok_def line_text_def)
  have upd: "(?d @ CHR '':'' # CHR '' '' # ?v @ CR # LF # r)[length ?d := NUL] = ?m"
    by (rule list_update_length)
  have e: "crlf_loop ?m (length ?d + 2) = Some (length ?d + 2 + length ?v)"
    using crlf_loop_text [of ?v "?d @ [NUL, CHR '' '']" r] ok by (simp add: line_ok_def)
  have nb: "?m ! (length ?d + 2) \<noteq> CHR '' ''" using ok by (cases ?v) (auto simp: line_ok_def nth_append)
  have v: "scan (\<lambda>c. c \<noteq> CHR '' '') ?m (Suc (length ?d)) = Some (length ?d + 2)"
  proof -
    have "?m ! Suc (length ?d) = CHR '' ''" by (simp add: nth_append)
    then show ?thesis using scan_here [of "length ?d + 2" ?m "\<lambda>c. c \<noteq> CHR '' ''"]
        scan_skip [of "Suc (length ?d)" ?m "\<lambda>c. c \<noteq> CHR '' ''"] nb by simp
  qed
  have "?m[length ?d + 2 + length ?v := NUL] = d @ line_done kv @ r"
    using list_update_length [of "?d @ [NUL, CHR '' ''] @ ?v" CR "LF # r" NUL] by (simp add: line_done_def add.assoc)
  moreover have "\<lparr>key_str = length d, key_len = length ?d - length d, val_str = length ?d + 2,
      val_len = length ?d + 2 + length ?v - (length ?d + 2)\<rparr> = line_header (length d) kv"
    by (simp add: line_header_def)
  ultimately show ?thesis
    using key upd v e wants_keepalive_text [OF ok, of d r]
    by (simp add: header_line_def Let_def line_text_def split: prod.split)
qed

lemma length_line_done: "length (line_done kv) = length (line_text kv)"
  by (simp add: line_done_def line_text_def)

lemma header_lines_text:
  assumes "\<forall>kv \<in> set kvs. line_ok kv" "hi_b h = d @ concat (map line_text kvs) @ CHR 0x01 # r"
  shows "\<exists>h'. header_lines nks (length d) h k = Some (0, h', snd (keepalive_after nks kvs (hi_keepalive h, k))) \<and>
     hi_b h' = d @ concat (map line_done kvs) @ CHR 0x01 # r \<and> hi_p h' = hi_p h @ layout (length d) kvs \<and>
     hi_keepalive h' = fst (keepalive_after nks kvs (hi_keepalive h, k)) \<and>
     uri_str h' = uri_str h \<and> uri_len h' = uri_len h"
  using assms
proof (induction kvs arbitrary: d h k)
  case Nil
  then show ?case by (simp add: header_lines.simps)
next
  case (Cons kv kvs)
  let ?r = "concat (map line_text kvs) @ CHR 0x01 # r"
  let ?x = "if asks_keepalive kv then nks k else (hi_keepalive h, k)"
  have ok: "line_ok kv" and b: "hi_b h = d @ line_text kv @ ?r" using Cons.prems by auto
  obtain h1 where h1: "header_line nks (length d) h k = Some (Inr (length d + length (line_text kv), h1, snd ?x))"
    "hi_b h1 = d @ line_done kv @ ?r" "hi_p h1 = hi_p h @ [line_header (length d) kv]" "hi_keepalive h1 = fst ?x"
    "uri_str h1 = uri_str h" "uri_len h1 = uri_len h"
    using header_line_text [OF ok b, of nks k] by blast
  have c: "rd (hi_b h) (length d) = Some (fst kv ! 0)" "fst kv ! 0 \<noteq> CHR 0x01"
  proof -
    obtain x xs where x: "fst kv = x # xs" "IS_SYM x" using ok by (cases "fst kv") (auto simp: line_ok_def)
    show "rd (hi_b h) (length d) = Some (fst kv ! 0)" unfolding b line_text_def x(1) by simp
    show "fst kv ! 0 \<noteq> CHR 0x01" using x by (auto simp: IS_SYM_def)
  qed
  have len: "length (d @ line_done kv) = length d + length (line_text kv)" by (simp add: length_line_done)
  obtain h2 where "header_lines nks (length (d @ line_done kv)) h1 (snd ?x) =
      Some (0, h2, snd (keepalive_after nks kvs (hi_keepalive h1, snd ?x)))"
    "hi_b h2 = (d @ line_done kv) @ concat (map line_done kvs) @ CHR 0x01 # r"
    "hi_p h2 = hi_p h1 @ layout (length (d @ line_done kv)) kvs"
    "hi_keepalive h2 = fst (keepalive_after nks kvs (hi_keepalive h1, snd ?x))"
    "uri_str h2 = uri_str h1" "uri_len h2 = uri_len h1"
    using Cons.IH [of h1 "d @ line_done kv" "snd ?x"] Cons.prems(1) h1(2) by auto
  then show ?case
    using h1 c len by (subst header_lines.simps) (simp del: keepalive_after.simps add: keepalive_after.simps(2) split: if_splits)
qed

text \<open>The text of a header in a buffer.\<close>

definition header_text :: "mem \<Rightarrow> header_t \<Rightarrow> string \<times> string" where
  "header_text b hdr = (seg b (key_str hdr) (key_str hdr + key_len hdr), seg b (val_str hdr) (val_str hdr + val_len hdr))"

lemma seg_append: "seg (d @ x @ r) (length d) (length d + length x) = x"
  by (simp add: seg_def)

lemma header_text_line:
  "header_text (d @ line_done kv @ r) (line_header (length d) kv) = (map TO_LOWER (fst kv), snd kv)"
proof -
  let ?k = "map TO_LOWER (fst kv)"
  have "d @ line_done kv @ r = (d @ ?k @ [NUL, CHR '' '']) @ snd kv @ [NUL, LF] @ r"
    "d @ line_done kv @ r = d @ ?k @ [NUL, CHR '' ''] @ snd kv @ [NUL, LF] @ r" by (simp_all add: line_done_def)
  then show ?thesis
    using seg_append [of "d @ ?k @ [NUL, CHR '' '']" "snd kv" "[NUL, LF] @ r"]
      seg_append [of d ?k "[NUL, CHR '' ''] @ snd kv @ [NUL, LF] @ r"]
    by (simp add: header_text_def line_header_def add.assoc)
qed

lemma header_text_layout:
  "map (header_text (d @ concat (map line_done kvs) @ r)) (layout (length d) kvs) =
     map (\<lambda>kv. (map TO_LOWER (fst kv), snd kv)) kvs"
proof (induction kvs arbitrary: d)
  case (Cons kv kvs)
  have "map (header_text ((d @ line_done kv) @ concat (map line_done kvs) @ r)) (layout (length (d @ line_done kv)) kvs) =
     map (\<lambda>kv. (map TO_LOWER (fst kv), snd kv)) kvs" by (rule Cons.IH)
  then show ?case
    using header_text_line [of d kv "concat (map line_done kvs) @ r"] by (simp add: length_line_done)
qed simp

text \<open>A header whose name and value are as long as the header says, the value ended by a \<^verbatim>\<open>'\0'\<close>.\<close>

definition header_well :: "mem \<Rightarrow> header_t \<Rightarrow> bool" where
  "header_well b hdr \<longleftrightarrow> length (fst (header_text b hdr)) = key_len hdr \<and> length (snd (header_text b hdr)) = val_len hdr \<and>
     cstr (drop (val_str hdr) b) = snd (header_text b hdr)"

lemma header_well_line:
  assumes "line_ok kv"
  shows "header_well (d @ line_done kv @ r) (line_header (length d) kv)"
proof -
  have "drop (val_str (line_header (length d) kv)) (d @ line_done kv @ r) = snd kv @ NUL # LF # r"
    by (simp add: line_header_def line_done_def)
  moreover have "cstr (snd kv @ NUL # LF # r) = snd kv"
    using assms by (simp add: cstr_def line_ok_def takeWhile_append)
  ultimately show ?thesis by (simp add: header_well_def header_text_line) (simp add: line_header_def)
qed

lemma header_well_layout:
  "\<forall>kv \<in> set kvs. line_ok kv \<Longrightarrow> \<forall>hdr \<in> set (layout (length d) kvs). header_well (d @ concat (map line_done kvs) @ r) hdr"
proof (induction kvs arbitrary: d)
  case (Cons kv kvs)
  have "\<forall>hdr \<in> set (layout (length (d @ line_done kv)) kvs). header_well ((d @ line_done kv) @ concat (map line_done kvs) @ r) hdr"
    using Cons.prems by (intro Cons.IH) simp
  then show ?case using header_well_line [of kv d "concat (map line_done kvs) @ r"] Cons.prems by (simp add: length_line_done)
qed simp

definition request_text :: "string \<Rightarrow> string \<Rightarrow> string \<Rightarrow> (string \<times> string) list \<Rightarrow> string" where
  "request_text method uri ver kvs =
     method @ '' '' @ uri @ '' HTTP/'' @ ver @ [CR, LF] @ concat (map line_text kvs) @ [CHR 0x01, LF]"

lemma scan_text: "\<forall>c \<in> set x. \<not> P c \<Longrightarrow> P y \<Longrightarrow> scan P (d @ x @ y # r) (length d) = Some (length d + length x)"
proof (induction x arbitrary: d)
  case Nil
  then show ?case by (simp add: scan_here)
next
  case (Cons c x)
  have "scan P (d @ (c # x) @ y # r) (length d) = scan P ((d @ [c]) @ x @ y # r) (length (d @ [c]))"
    using Cons.prems by (subst scan_skip) auto
  also have "\<dots> = Some (length (d @ [c]) + length x)" using Cons.prems by (intro Cons.IH) auto
  finally show ?case by simp
qed

lemma http_parse_headers_text:
  assumes m: "method \<in> {''GET'', ''POST'', ''HEAD''}" and uri: "uri ! 0 = CHR ''/''" "uri \<noteq> []" "CHR '' '' \<notin> set uri"
    and ver: "CR \<notin> set ver" and kvs: "\<forall>kv \<in> set kvs. line_ok kv"
    and h: "hi_b h = request_text method uri ver kvs @ rest" "uri_len h = 0" "hi_p h = []"
  shows "\<exists>h'. http_parse_headers nks h k = Some (0, h', snd (keepalive_after nks kvs (hi_keepalive h, k))) \<and>
     seg (hi_b h') (uri_str h') (uri_str h' + uri_len h') = uri \<and>
     map (header_text (hi_b h')) (hi_p h') = map (\<lambda>kv. (map TO_LOWER (fst kv), snd kv)) kvs \<and>
     hi_keepalive h' = fst (keepalive_after nks kvs (hi_keepalive h, k)) \<and> uri_len h' = length uri \<and>
     (method_post h' \<longleftrightarrow> method = ''POST'' \<or> method_post h) \<and> (\<forall>hdr \<in> set (hi_p h'). header_well (hi_b h') hdr) \<and>
     drop (length (request_text method uri ver kvs)) (hi_b h') = rest \<and> rd (hi_b h') (uri_str h' + uri_len h') = Some NUL \<and>
     seg (hi_b h') (ver_str h') (ver_str h' + ver_len h') = ver \<and>
     (method_get h' \<longleftrightarrow> method = ''GET'' \<or> method_get h) \<and> (method_head h' \<longleftrightarrow> method = ''HEAD'' \<or> method_head h)"
proof -
  let ?d = "method @ '' ''" and ?t = "concat (map line_text kvs) @ CHR 0x01 # LF # rest"
  let ?m = "?d @ uri @ NUL # ''HTTP/'' @ ver @ CR # LF # ?t"
  let ?D = "?d @ uri @ NUL # ''HTTP/'' @ ver @ [NUL, LF]"
  obtain h1 where h1: "parse_method h = Some (Some (length ?d, h1))"
    "hi_b h1 = ?d @ uri @ CHR '' '' # ''HTTP/'' @ ver @ CR # LF # ?t" "uri_len h1 = 0" "hi_p h1 = []"
    "hi_keepalive h1 = hi_keepalive h" "method_post h1 \<longleftrightarrow> method = ''POST'' \<or> method_post h"
    "method_get h1 \<longleftrightarrow> method = ''GET'' \<or> method_get h" "method_head h1 \<longleftrightarrow> method = ''HEAD'' \<or> method_head h"
    using m h parse_method_text [of h] by (auto simp: request_text_def)
  obtain c cs where cs: "uri = c # cs" using uri(2) by (cases uri) auto
  have slash: "rd (hi_b h1) (length ?d) = Some CHR ''/''" using h1(2) uri(1) cs by (simp add: nth_append)
  have e: "scan (\<lambda>c. c = CHR '' '') (hi_b h1) (length ?d) = Some (length ?d + length uri)"
    unfolding h1(2) by (rule scan_text) (use uri(3) in auto)
  have w: "wr (hi_b h1) (length ?d + length uri) NUL = Some ?m"
    using list_update_length [of "?d @ uri" "CHR '' ''" "''HTTP/'' @ ver @ CR # LF # ?t" NUL]
    unfolding h1(2) by (simp add: wr_def)
  have http: "matches_at ?m (Suc (length ?d + length uri)) ''HTTP/'' = Some True"
    by (simp add: matches_at.simps nth_append)
  have f: "scan (\<lambda>c. c = CR) ?m (length ?d + length uri + 6) = Some (length ?d + length uri + 6 + length ver)"
    using scan_text [of ver "\<lambda>c. c = CR" CR "?d @ uri @ NUL # ''HTTP/''" "LF # ?t"] ver
    by (simp add: add.assoc numeral_eq_Suc) blast
  have u: "?m[length ?d + length uri + 6 + length ver := NUL] = ?D @ ?t"
    using list_update_length [of "?d @ uri @ NUL # ''HTTP/'' @ ver" CR "LF # ?t" NUL] by (simp add: add.assoc numeral_eq_Suc)
  define h2 where "h2 = h1\<lparr>hi_b := ?m, uri_str := length ?d, uri_len := length uri, hi_b := ?D @ ?t,
      ver_str := length ?d + length uri + 6, ver_len := length ver\<rparr>"
  have p: "http_parse_headers nks h k = header_lines nks (length ?D) h2 k"
    using h1 slash e w http f u
    by (simp add: http_parse_headers_def Let_def h2_def add.assoc numeral_eq_Suc)
  obtain h3 where h3: "header_lines nks (length ?D) h2 k = Some (0, h3, snd (keepalive_after nks kvs (hi_keepalive h2, k)))"
     "hi_b h3 = ?D @ concat (map line_done kvs) @ CHR 0x01 # LF # rest" "hi_p h3 = hi_p h2 @ layout (length ?D) kvs"
     "hi_keepalive h3 = fst (keepalive_after nks kvs (hi_keepalive h2, k))"
     "uri_str h3 = uri_str h2" "uri_len h3 = uri_len h2"
    using header_lines_text [OF kvs, of h2 ?D "LF # rest" nks k] by (auto simp: h2_def)
  have "seg (hi_b h3) (uri_str h3) (uri_str h3 + uri_len h3) = uri"
    using h3 seg_append [of ?d uri] by (simp add: h2_def)
  moreover have "map (header_text (hi_b h3)) (hi_p h3) = map (\<lambda>kv. (map TO_LOWER (fst kv), snd kv)) kvs"
    using h3 h1 header_text_layout [of ?D kvs] by (simp add: h2_def)
  moreover have "hi_keepalive h2 = hi_keepalive h" using h1 by (simp add: h2_def)
  moreover have "method_post h3 \<longleftrightarrow> method = ''POST'' \<or> method_post h"
    "method_get h3 \<longleftrightarrow> method = ''GET'' \<or> method_get h" "method_head h3 \<longleftrightarrow> method = ''HEAD'' \<or> method_head h"
    using header_lines_frame [OF h3(1)] h1(6-8) by (simp_all add: same_request_def h2_def)
  moreover have "seg (hi_b h3) (ver_str h3) (ver_str h3 + ver_len h3) = ver"
  proof -
    have "ver_str h3 = length (?d @ uri @ NUL # ''HTTP/'')" "ver_len h3 = length ver"
      using header_lines_frame [OF h3(1)] by (simp_all add: same_request_def h2_def)
    moreover have "hi_b h3 = (?d @ uri @ NUL # ''HTTP/'') @ ver @ [NUL, LF] @ concat (map line_done kvs) @ CHR 0x01 # LF # rest"
      using h3(2) by simp
    ultimately show ?thesis using seg_append by metis
  qed
  moreover have "uri_len h3 = length uri" using h3(6) by (simp add: h2_def)
  moreover have "\<forall>hdr \<in> set (hi_p h3). header_well (hi_b h3) hdr"
    using header_well_layout [OF kvs, of ?D] h3(2,3) h1(4) by (simp add: h2_def)
  moreover have "drop (length (request_text method uri ver kvs)) (hi_b h3) = rest"
  proof -
    have b: "hi_b h3 = (?D @ concat (map line_done kvs) @ [CHR 0x01, LF]) @ rest" using h3(2) by simp
    have l: "length (request_text method uri ver kvs) = length (?D @ concat (map line_done kvs) @ [CHR 0x01, LF])"
      by (simp add: request_text_def length_line_done length_concat comp_def)
    show ?thesis unfolding b l by (rule append_eq_conv_conj [THEN iffD1, THEN conjunct2, OF refl, symmetric])
  qed
  moreover have "rd (hi_b h3) (uri_str h3 + uri_len h3) = Some NUL" using h3(2,5,6) by (simp add: h2_def nth_append)
  ultimately show ?thesis using p h3 by auto
qed



end
