(* ===== verification/Http_Output.thy ===== *)
theory Http_Output
  imports Common_Strings
begin

text \<open>
  Building and sending responses (\<^verbatim>\<open>core_http.c\<close>, \<^verbatim>\<open>error_page.h\<close>, \<^verbatim>\<open>mime.h\<close>, and
  \<^verbatim>\<open>events_out_data\<close> of \<^verbatim>\<open>core_server.c\<close>): the status and error tables, the output vector, the
  response head, redirects and error pages, the content type of a file, dates, and the transmission of
  a response in as many pieces as the socket accepts.

  An entry of the output vector is the bytes it points to.  System calls are arguments: what
  \<^verbatim>\<open>writev\<close> or \<^verbatim>\<open>sendfile\<close> returned.  Transmission is verified against the
  specification that what has been sent, followed by what is still to be sent, is the response.
\<close>

section \<open>Tables\<close>

definition SERVER_STRING :: string where
  "SERVER_STRING = ''Opentube/0.1alpha''"

definition HTTP_HTML_PAGE_TEMPLATE_TOP :: string where
  \<open>HTTP_HTML_PAGE_TEMPLATE_TOP =
     ''<!DOCTYPE html PUBLIC "-//W3C//DTD XHTML 1.0 Transitional//EN" "http://www.w3.org/TR/xhtml1/DTD/xhtml1-transitional.dtd">'' @ [LF] @
     ''<html xmlns="http://www.w3.org/1999/xhtml">'' @ [LF] @
     ''<head>'' @ [LF, TAB] @ ''<title>''\<close>

definition HTTP_HTML_PAGE_TEMPLATE_CON1 :: string where
  \<open>HTTP_HTML_PAGE_TEMPLATE_CON1 =
     ''</title>'' @ [LF, TAB] @ ''<style type="text/css">'' @ [LF, TAB, TAB] @
     ''html, body, h1, h2 {padding:0;margin:0;} body {background:#eee;} h1 {color:#943535;font-family:"Times New Roman";font-size:128px;padding-top:40px;} h2, span {font-family:Arial;text-shadow:1px 1px 0 #fff;} h2 {color:#444;font-size:35px;} .server-info {color:#888;font-size:14px;}'' @
     [LF, TAB] @ ''</style>'' @ [LF] @ ''</head>'' @ [LF, LF] @ ''<body>'' @ [LF, TAB] @
     ''<div align="center">'' @ [LF, TAB, TAB] @ ''<h1>''\<close>

definition HTTP_HTML_PAGE_TEMPLATE_CON2 :: string where
  "HTTP_HTML_PAGE_TEMPLATE_CON2 = ''</h1>'' @ [LF, TAB, TAB] @ ''<h2>''"

definition HTTP_HTML_PAGE_TEMPLATE_BOT :: string where
  \<open>HTTP_HTML_PAGE_TEMPLATE_BOT =
     ''</h2>'' @ [LF, TAB, TAB] @ ''<br />'' @ [LF, TAB, TAB] @ ''<span class="server-info">'' @ SERVER_STRING @
     ''</span>'' @ [LF, TAB] @ ''</div>'' @ [LF] @ ''</body>'' @ [LF] @ ''</html>'' @ [LF]\<close>

text \<open>The assignments of \<^verbatim>\<open>http_init_constants\<close>; entries that are not assigned are empty.\<close>

definition status_table :: "(nat \<times> string) list" where
  "status_table =
     [(200, ''200 OK''),
      (206, ''206 Partial Content''),
      (301, ''301 Moved Permanently''),
      (304, ''304 Not Modified''),
      (400, ''400 Bad Request''),
      (401, ''401 Unauthorized''),
      (402, ''402 Payment Required''),
      (403, ''403 Forbidden''),
      (404, ''404 Not Found''),
      (405, ''405 Method Not Allowed''),
      (406, ''406 Not Acceptable''),
      (408, ''408 Request Timeout''),
      (411, ''411 Length Required''),
      (413, ''413 Request Entity Too Large''),
      (414, ''414 Request-URL Too Long''),
      (415, ''415 Unsupported Media Type''),
      (416, ''416 Requested Range Not Satisfiable''),
      (500, ''500 Internal Server Error''),
      (501, ''501 Not Implemented''),
      (502, ''502 Bad Gateway''),
      (503, ''503 Service Unavailable''),
      (504, ''504 Gateway Timeout''),
      (505, ''505 HTTP Version Not Supported'')]"

definition error_table :: "(nat \<times> string \<times> string \<times> string) list" where
  "error_table =
     [(400, ''400 - Bad Request'', ''400'', ''Bad Request''),
      (401, ''401 - Unauthorized'', ''401'', ''Unauthorized''),
      (402, ''402 - Payment Required'', ''402'', ''Payment Required''),
      (403, ''403 - Forbidden'', ''403'', ''Forbidden''),
      (404, ''404 - Not Found'', ''404'', ''Not Found''),
      (405, ''405 - Method Not Allowed'', ''405'', ''Method Not Allowed''),
      (406, ''406 - Not Acceptable'', ''406'', ''Not Acceptable''),
      (408, ''408 - Request Timeout'', ''408'', ''Request Timeout''),
      (411, ''411 - Length Required'', ''411'', ''Length Required''),
      (413, ''413 - Request Entity Too Large'', ''413'', ''Request Entity Too Large''),
      (414, ''414 - Request-URL Too Long'', ''414'', ''Request-URL Too Long''),
      (415, ''415 - Unsupported Media Type'', ''415'', ''Unsupported Media Type''),
      (416, ''416 - Requested Range Not Satisfiable'', ''416'', ''Requested Range Not Satisfiable''),
      (500, ''500 - Internal Server Error'', ''500'', ''Internal Server Error''),
      (501, ''501 - Not Implemented'', ''501'', ''Not Implemented''),
      (502, ''502 - Bad Gateway'', ''502'', ''Bad Gateway''),
      (503, ''503 - Service Unavailable'', ''503'', ''Service Unavailable''),
      (504, ''504 - Gateway Timeout'', ''504'', ''Gateway Timeout''),
      (505, ''505 - HTTP Version Not Supported'', ''505'', ''HTTP Version Not Supported'')]"

definition http_status_code :: "nat \<Rightarrow> string" where
  "http_status_code code = (case map_of status_table code of Some s \<Rightarrow> s | None \<Rightarrow> [])"

definition http_error_message :: "nat \<Rightarrow> string" where
  "http_error_message code = (case map_of error_table code of
      Some (t, h1, h2) \<Rightarrow> HTTP_HTML_PAGE_TEMPLATE_TOP @ t @ HTTP_HTML_PAGE_TEMPLATE_CON1 @ h1 @
        HTTP_HTML_PAGE_TEMPLATE_CON2 @ h2 @ HTTP_HTML_PAGE_TEMPLATE_BOT
    | None \<Rightarrow> [])"

text \<open>The lengths are kept in a \<^verbatim>\<open>uchar\<close> and a \<^verbatim>\<open>ushort\<close>.\<close>

definition http_status_code_len :: "nat \<Rightarrow> nat" where
  "http_status_code_len code = length (http_status_code code) mod 256"

definition http_error_message_len :: "nat \<Rightarrow> nat" where
  "http_error_message_len code = length (http_error_message code) mod 65536"

definition HTTP_ERROR_CONTENT_TYPE :: string where "HTTP_ERROR_CONTENT_TYPE = ''text/html''"
definition HTTP_ERROR_CONTENT_TYPE_LEN :: nat where "HTTP_ERROR_CONTENT_TYPE_LEN = 9"

definition header_server_string :: string where
  "header_server_string = ''Server: '' @ SERVER_STRING"

definition http_mime_types :: "(string \<times> string \<times> nat) list" where
  "http_mime_types =
     [(''.html'', ''text/html'', 9),
      (''.htm'', ''text/html'', 9),
      (''.shtml'', ''text/html'', 9),
      (''.css'', ''text/css'', 8),
      (''.js'', ''application/x-javascript'', 24),
      (''.png'', ''image/png'', 9),
      (''.gif'', ''image/gif'', 9),
      (''.jpg'', ''image/jpeg'', 10),
      (''.jpeg'', ''image/jpeg'', 10),
      (''.ico'', ''image/x-icon'', 12),
      (''.txt'', ''text/plain'', 10),
      (''.svg'', ''image/svg+xml'', 13),
      (''.xml'', ''text/xml'', 8),
      (''.swf'', ''application/x-shockwave-flash'', 29),
      (''.flv'', ''video/x-flv'', 11),
      (''.mp4'', ''video/mp4'', 9),
      (''.webm'', ''video/webm'', 10),
      (''.ogv'', ''video/ogg'', 9),
      (''.mp3'', ''audio/mpeg'', 10),
      ([], ''application/octet-stream'', 24)]"

section \<open>The output vector\<close>

record out_req =
  o_vec :: "string list"
  o_total :: int
  o_pvec :: "string list option"
  o_epollout :: bool
  o_keepalive :: bool
  o_content_length :: int
  o_type :: string
  o_type_len :: nat
  o_fd :: bool
  o_offset :: int
  o_last :: int

text \<open>
  \<^verbatim>\<open>http_append_to_output_buf\<close>: \<open>pointer\<close> is the memory at the pointer; an entry longer than
  that memory is an error (\<^term>\<open>None\<close>).
\<close>

definition http_append_to_output_buf :: "string \<Rightarrow> nat \<Rightarrow> out_req \<Rightarrow> out_req option" where
  "http_append_to_output_buf pointer len r =
     (if len \<le> length pointer
      then Some (r\<lparr>o_vec := o_vec r @ [take len pointer], o_total := o_total r + int len\<rparr>) else None)"

definition http_append_str :: "string \<Rightarrow> out_req \<Rightarrow> out_req option" where
  "http_append_str str r = http_append_to_output_buf str (length str) r"

abbreviation CLRF :: string where "CLRF \<equiv> [CR, LF]"

definition http_append_headers :: "string \<Rightarrow> nat \<Rightarrow> out_req \<Rightarrow> out_req option" where
  "http_append_headers keepalive_timeout code r =
     (if code < 506 then do {
        r \<leftarrow> http_append_to_output_buf ''HTTP/1.1 '' 9 r;
        r \<leftarrow> http_append_to_output_buf (http_status_code code) (http_status_code_len code) r;
        r \<leftarrow> http_append_to_output_buf CLRF 2 r;
        r \<leftarrow> http_append_to_output_buf header_server_string (length header_server_string) r;
        r \<leftarrow> http_append_to_output_buf CLRF 2 r;
        r \<leftarrow> http_append_to_output_buf ''Content-Type: '' 14 r;
        r \<leftarrow> http_append_to_output_buf (o_type r) (o_type_len r) r;
        r \<leftarrow> http_append_to_output_buf CLRF 2 r;
        r \<leftarrow> http_append_to_output_buf ''Content-Length: '' 16 r;
        digits \<leftarrow> int64_to_str (o_content_length r) 10;
        r \<leftarrow> http_append_str digits r;
        r \<leftarrow> http_append_to_output_buf CLRF 2 r;
        r \<leftarrow> (if o_keepalive r then do {
                r \<leftarrow> http_append_to_output_buf (''Connection: keep-alive'' @ CLRF @ ''Keep-Alive: timeout='') 44 r;
                http_append_to_output_buf keepalive_timeout (length keepalive_timeout) r }
              else http_append_to_output_buf ''Connection: close'' 17 r);
        http_append_to_output_buf CLRF 2 r }
      else None)"

section \<open>Sending\<close>

datatype io_result = Done nat | WouldBlock | Failed

text \<open>
  The loop that drops \<open>res\<close> sent bytes from the front of a vector; \<open>size\<close> is a \<^verbatim>\<open>uint\<close>.
  \<^term>\<open>None\<close>: the loop ends without having found the entry.
\<close>

fun skip_iov :: "nat \<Rightarrow> nat \<Rightarrow> string list \<Rightarrow> string list option" where
  "skip_iov sz res [] = None"
| "skip_iov sz res (v # vs) =
     (let sz = (sz + length v) mod 2 ^ 32 in
      if sz \<ge> res then Some (drop (length v - (sz - res)) v # vs) else skip_iov sz res vs)"

definition http_send :: "io_result \<Rightarrow> out_req \<Rightarrow> bool \<times> out_req" where
  "http_send w r = (case w of
      Failed \<Rightarrow> (True, r)
    | _ \<Rightarrow>
        let res = (case w of Done n \<Rightarrow> int n | _ \<Rightarrow> -1) in
        if res < o_total r then
          (False,
           (if res > 0 then
              let r = r\<lparr>o_total := o_total r - res\<rparr> in
              (case skip_iov 0 (nat res) (o_vec r) of Some v \<Rightarrow> r\<lparr>o_pvec := Some v\<rparr> | None \<Rightarrow> r)
            else r)\<lparr>o_epollout := True\<rparr>)
        else (True, r\<lparr>o_total := 0\<rparr>))"

definition http_redirect :: "string \<Rightarrow> io_result \<Rightarrow> string \<Rightarrow> bool \<Rightarrow> string \<Rightarrow> out_req \<Rightarrow> (bool \<times> out_req) option" where
  "http_redirect keepalive_timeout w location append_query query_string r =
     (let r = r\<lparr>o_content_length := 0, o_type := HTTP_ERROR_CONTENT_TYPE, o_type_len := HTTP_ERROR_CONTENT_TYPE_LEN\<rparr> in
      do { r \<leftarrow> http_append_headers keepalive_timeout 301 r;
           r \<leftarrow> http_append_to_output_buf ''Location: '' 10 r;
           r \<leftarrow> http_append_to_output_buf location (length location) r;
           r \<leftarrow> (if append_query \<and> length query_string \<noteq> 0 then do {
                   r \<leftarrow> http_append_to_output_buf ''?'' 1 r;
                   http_append_to_output_buf query_string (length query_string) r }
                 else Some r);
           r \<leftarrow> http_append_to_output_buf (CLRF @ CLRF) 4 r;
           Some (http_send w r) })"

definition http_error_build :: "string \<Rightarrow> nat \<Rightarrow> out_req \<Rightarrow> out_req option" where
  "http_error_build keepalive_timeout code r =
     (let r = r\<lparr>o_content_length := int (http_error_message_len code), o_type := HTTP_ERROR_CONTENT_TYPE,
                o_type_len := HTTP_ERROR_CONTENT_TYPE_LEN\<rparr> in
      do { r \<leftarrow> http_append_headers keepalive_timeout code r;
           r \<leftarrow> http_append_to_output_buf CLRF 2 r;
           http_append_to_output_buf (http_error_message code) (nat (o_content_length r)) r })"

definition http_error :: "string \<Rightarrow> io_result \<Rightarrow> nat \<Rightarrow> out_req \<Rightarrow> (bool \<times> out_req) option" where
  "http_error keepalive_timeout w code r =
     do { r \<leftarrow> http_error_build keepalive_timeout code r; Some (http_send w r) }"

text \<open>
  \<^verbatim>\<open>events_out_data\<close> for the request that owns the socket: \<open>w\<close> and \<open>f\<close> are the results of
  \<^verbatim>\<open>writev\<close> and \<^verbatim>\<open>sendfile\<close>, if they are called.
\<close>

datatype out_action = Waiting | Ended | CleanedUp

definition events_out_data :: "io_result \<Rightarrow> io_result \<Rightarrow> out_req \<Rightarrow> (out_action \<times> out_req) option" where
  "events_out_data w f r =
     (if o_total r > 0 then
        (case o_pvec r of
           None \<Rightarrow> None
         | Some vec \<Rightarrow>
             (case w of
                Done res \<Rightarrow>
                  let r = r\<lparr>o_total := o_total r - int res\<rparr> in
                  Some (Waiting, (case skip_iov 0 res vec of Some v \<Rightarrow> r\<lparr>o_pvec := Some v\<rparr> | None \<Rightarrow> r))
              | _ \<Rightarrow> Some (CleanedUp, r)))
      else if o_fd r then
        (case f of
           Failed \<Rightarrow> Some (CleanedUp, r\<lparr>o_fd := False\<rparr>)
         | _ \<Rightarrow>
             let r = (case f of Done n \<Rightarrow> r\<lparr>o_offset := o_offset r + int n\<rparr> | _ \<Rightarrow> r) in
             if o_offset r < o_last r then Some (Waiting, r) else Some (Ended, r\<lparr>o_fd := False\<rparr>))
      else Some (Ended, r))"

section \<open>Files: content type and dates\<close>

text \<open>The backward loop for the last dot (never at position 0); the offset of the extension.\<close>

fun last_dot :: "string \<Rightarrow> nat \<Rightarrow> nat option" where
  "last_dot path 0 = None"
| "last_dot path (Suc i) = (if path ! Suc i = CHR ''.'' then Some (Suc i) else last_dot path i)"

fun mime_index :: "string \<Rightarrow> (string \<times> string \<times> nat) list \<Rightarrow> (string \<times> nat) option" where
  "mime_index ext [] = None"
| "mime_index ext ((e, s, n) # ts) = (if e = [] \<or> e = ext then Some (s, n) else mime_index ext ts)"

definition http_set_mime_type :: "string \<Rightarrow> out_req \<Rightarrow> out_req option" where
  "http_set_mime_type path r =
     (let ext = (case last_dot path (length path - 1) of Some i \<Rightarrow> drop i path | None \<Rightarrow> []) in
      do { (s, n) \<leftarrow> mime_index ext http_mime_types; Some (r\<lparr>o_type := s, o_type_len := n\<rparr>) })"

section \<open>Heads and error pages\<close>

abbreviation out_text :: "out_req \<Rightarrow> string" where
  "out_text r \<equiv> concat (o_vec r)"

text \<open>What the head of a response has to look like.\<close>

definition head_text :: "string \<Rightarrow> nat \<Rightarrow> out_req \<Rightarrow> string" where
  "head_text keepalive_timeout code r =
     ''HTTP/1.1 '' @ http_status_code code @ CLRF @ header_server_string @ CLRF @
     ''Content-Type: '' @ o_type r @ CLRF @
     ''Content-Length: '' @ numeral_of 10 (nat (o_content_length r)) @ CLRF @
     (if o_keepalive r then ''Connection: keep-alive'' @ CLRF @ ''Keep-Alive: timeout='' @ keepalive_timeout
      else ''Connection: close'') @ CLRF"

definition vec_ok :: "out_req \<Rightarrow> bool" where
  "vec_ok r \<longleftrightarrow> o_total r = int (length (out_text r))"

lemma status_lengths: "\<forall>e \<in> set status_table. length (snd e) < 256"
  by (simp add: status_table_def)

lemma map_of_table: "map_of t k = Some v \<Longrightarrow> (k, v) \<in> set t"
  by (rule map_of_SomeD)

lemma http_status_code_len_eq: "http_status_code_len code = length (http_status_code code)"
  using status_lengths map_of_table [of status_table code]
  by (fastforce simp: http_status_code_len_def http_status_code_def split: option.split)

lemma append_out:
  "http_append_to_output_buf p (length p) r = Some (r\<lparr>o_vec := o_vec r @ [p], o_total := o_total r + int (length p)\<rparr>)"
  by (simp add: http_append_to_output_buf_def)

lemma http_append_headers_text:
  assumes "code < 506" "o_type_len r = length (o_type r)" "0 \<le> o_content_length r" "vec_ok r"
  shows "\<exists>r'. http_append_headers keepalive_timeout code r = Some r' \<and> vec_ok r' \<and>
     out_text r' = out_text r @ head_text keepalive_timeout code r \<and>
     o_content_length r' = o_content_length r \<and> o_keepalive r' = o_keepalive r \<and>
     o_offset r' = o_offset r \<and> o_last r' = o_last r \<and> o_pvec r' = o_pvec r \<and> o_fd r' = o_fd r"
proof -
  have d: "int64_to_str (o_content_length r) 10 = Some (numeral_of 10 (nat (o_content_length r)))"
    using x_to_str_numeral [of 10 "o_content_length r"] assms(3) by (simp add: int64_to_str_def)
  show ?thesis
  proof (cases "o_keepalive r")
    case True
    then show ?thesis
      using assms d by (simp add: http_append_headers_def http_append_to_output_buf_def http_append_str_def
          http_status_code_len_eq head_text_def vec_ok_def)
  next
    case False
    then show ?thesis
      using assms d by (simp add: http_append_headers_def http_append_to_output_buf_def http_append_str_def
          http_status_code_len_eq head_text_def vec_ok_def)
  qed
qed

lemma error_lengths: "\<forall>(c, t, h1, h2) \<in> set error_table. length t + length h1 + length h2 < 200 \<and> c < 506"
  by (simp add: error_table_def)

lemma http_error_message_len_eq: "http_error_message_len code = length (http_error_message code)"
proof (cases "map_of error_table code")
  case None
  then show ?thesis by (simp add: http_error_message_len_def http_error_message_def)
next
  case (Some e)
  obtain t h1 h2 where e: "e = (t, h1, h2)" by (cases e)
  have "length t + length h1 + length h2 < 200" using Some map_of_table error_lengths e by fastforce
  then show ?thesis using Some e
    by (simp add: http_error_message_len_def http_error_message_def HTTP_HTML_PAGE_TEMPLATE_TOP_def
        HTTP_HTML_PAGE_TEMPLATE_CON1_def HTTP_HTML_PAGE_TEMPLATE_CON2_def HTTP_HTML_PAGE_TEMPLATE_BOT_def SERVER_STRING_def)
qed

text \<open>
  C40.  Every error response is complete and consistent: the vector holds the head for the code,
  an empty line and the error page, the announced \<^verbatim>\<open>Content-Length\<close> is the length of the page, and
  \<^verbatim>\<open>writev_total\<close> counts exactly the bytes of the vector.
\<close>

theorem http_error_response:
  assumes "code < 506" "o_vec r = []" "o_total r = 0"
  shows "\<exists>r'. http_error_build keepalive_timeout code r = Some r' \<and>
     (let page = http_error_message code;
          q = r\<lparr>o_content_length := int (length page), o_type := ''text/html''\<rparr> in
      out_text r' = head_text keepalive_timeout code q @ CLRF @ page \<and>
      o_total r' = int (length (out_text r')))"
proof -
  let ?n = "http_error_message_len code"
  let ?q = "r\<lparr>o_content_length := int ?n, o_type := HTTP_ERROR_CONTENT_TYPE, o_type_len := HTTP_ERROR_CONTENT_TYPE_LEN\<rparr>"
  have "\<exists>r'. http_append_headers keepalive_timeout code ?q = Some r' \<and> vec_ok r' \<and>
     out_text r' = out_text ?q @ head_text keepalive_timeout code ?q \<and> o_content_length r' = o_content_length ?q"
    using http_append_headers_text [of code ?q keepalive_timeout] assms
    by (auto simp: vec_ok_def HTTP_ERROR_CONTENT_TYPE_def HTTP_ERROR_CONTENT_TYPE_LEN_def)
  then obtain r1 where r1: "http_append_headers keepalive_timeout code ?q = Some r1" "vec_ok r1"
    "out_text r1 = head_text keepalive_timeout code ?q" "o_content_length r1 = int ?n"
    using assms(2) by auto
  have h: "head_text keepalive_timeout code ?q =
    head_text keepalive_timeout code (r\<lparr>o_content_length := int ?n, o_type := ''text/html''\<rparr>)"
    by (simp add: head_text_def HTTP_ERROR_CONTENT_TYPE_def)
  show ?thesis
    using r1 h by (simp add: http_error_build_def Let_def http_append_to_output_buf_def vec_ok_def http_error_message_len_eq)
qed

theorem http_error_response_witness:
  "\<exists>r'. http_error_build ''25'' 404 \<lparr>o_vec = [], o_total = 0, o_pvec = None, o_epollout = False, o_keepalive = False,
      o_content_length = 0, o_type = [], o_type_len = 0, o_fd = False, o_offset = 0, o_last = 0\<rparr> = Some r' \<and>
     o_total r' = int (length (out_text r'))"
  using http_error_response [of 404 "\<lparr>o_vec = [], o_total = 0, o_pvec = None, o_epollout = False, o_keepalive = False,
      o_content_length = 0, o_type = [], o_type_len = 0, o_fd = False, o_offset = 0, o_last = 0\<rparr>" "''25''"]
  by (auto simp: Let_def)

text \<open>
  The tables agree with each other: each error code has a page and a status line, both begin with
  the decimal code, the title of the page repeats the status line with a dash, and every length fits the
  narrow type it is stored in.
\<close>

theorem http_tables_consistent:
  "\<forall>(c, t, h1, h2) \<in> set error_table.
     http_status_code c = h1 @ '' '' @ h2 \<and> t = h1 @ '' - '' @ h2 \<and> int_to_str (int c) 10 = Some h1 \<and>
     http_status_code_len c = length (http_status_code c) \<and> http_error_message_len c = length (http_error_message c)"
proof -
  have "\<forall>(c, t, h1, h2) \<in> set error_table.
     http_status_code c = h1 @ '' '' @ h2 \<and> t = h1 @ '' - '' @ h2 \<and> numeral_of 10 c = h1"
    by (simp add: error_table_def http_status_code_def status_table_def numeral_of.simps digit_char_def x_to_str_chartable_def)
  then show ?thesis
    using x_to_str_numeral [of 10]
    by (auto simp: http_status_code_len_eq http_error_message_len_eq int_to_str_def)
qed

theorem http_tables_consistent_witness:
  "http_status_code 416 = ''416 Requested Range Not Satisfiable''"
proof -
  have "(416, ''416 - Requested Range Not Satisfiable'', ''416'', ''Requested Range Not Satisfiable'') \<in> set error_table"
    by (simp add: error_table_def)
  from http_tables_consistent [rule_format, OF this] show ?thesis by simp
qed

section \<open>Delivery\<close>

lemma skip_iov_drop:
  "vs \<noteq> [] \<Longrightarrow> sz \<le> res \<Longrightarrow> res \<le> sz + length (concat vs) \<Longrightarrow> sz + length (concat vs) < 2 ^ 32 \<Longrightarrow>
   \<exists>v. skip_iov sz res vs = Some v \<and> v \<noteq> [] \<and> concat v = drop (res - sz) (concat vs)"
proof (induction vs arbitrary: sz)
  case (Cons v vs)
  have m: "(sz + length v) mod 2 ^ 32 = sz + length v" using Cons.prems by simp
  show ?case
  proof (cases "res \<le> sz + length v")
    case True
    have "length v - (sz + length v - res) = res - sz" "res - sz - length v = 0" using True Cons.prems by auto
    then show ?thesis using True m by simp
  next
    case False
    then have "vs \<noteq> []" using Cons.prems by auto
    then obtain v' where "skip_iov (sz + length v) res vs = Some v'" "v' \<noteq> []"
      "concat v' = drop (res - (sz + length v)) (concat vs)"
      using Cons.IH [of "sz + length v"] Cons.prems False by auto
    moreover have "drop (res - sz) (concat (v # vs)) = drop (res - (sz + length v)) (concat vs)"
      using False by simp
    ultimately show ?thesis using False m by (simp add: Let_def)
  qed
qed simp

text \<open>What a file transfer has still to send, and what a response has still to send.\<close>

definition file_part :: "string \<Rightarrow> out_req \<Rightarrow> string" where
  "file_part body r = (if o_fd r then seg body (nat (o_offset r)) (nat (o_last r)) else [])"

definition unsent :: "string \<Rightarrow> out_req \<Rightarrow> string" where
  "unsent body r = (if o_total r > 0 then concat (the (o_pvec r)) else []) @ file_part body r"

text \<open>The bytes a write event puts on the wire.\<close>

definition wire :: "string \<Rightarrow> io_result \<Rightarrow> io_result \<Rightarrow> out_req \<Rightarrow> string" where
  "wire body w f r =
     (if o_total r > 0 then (case w of Done n \<Rightarrow> take n (concat (the (o_pvec r))) | _ \<Rightarrow> [])
      else if o_fd r then (case f of Done n \<Rightarrow> take n (file_part body r) | _ \<Rightarrow> [])
      else [])"

text \<open>The system calls send no more than they are given.\<close>

definition io_honest :: "string \<Rightarrow> io_result \<Rightarrow> io_result \<Rightarrow> out_req \<Rightarrow> bool" where
  "io_honest body w f r \<longleftrightarrow>
     (\<forall>n. w = Done n \<longrightarrow> o_total r > 0 \<longrightarrow> n \<le> length (concat (the (o_pvec r)))) \<and>
     (\<forall>n. f = Done n \<longrightarrow> n \<le> length (file_part body r))"

definition transfer_inv :: "string \<Rightarrow> out_req \<Rightarrow> bool" where
  "transfer_inv body r \<longleftrightarrow>
     (o_total r > 0 \<longrightarrow> (\<exists>v. o_pvec r = Some v \<and> v \<noteq> [] \<and> o_total r = int (length (concat v)) \<and>
        length (concat v) < 2 ^ 32)) \<and> o_total r \<ge> 0 \<and>
     (o_fd r \<longrightarrow> 0 \<le> o_offset r \<and> o_offset r \<le> o_last r \<and> o_last r \<le> int (length body))"

text \<open>
  The life of a response whose head and body are in the vector of \<open>r0\<close>, followed by a part of
  \<open>body\<close> if one is attached: the first \<^verbatim>\<open>writev\<close> in \<^verbatim>\<open>http_send\<close>, then one step for each
  write event of the socket.  The first argument is what has been sent.
\<close>

inductive delivery :: "string \<Rightarrow> out_req \<Rightarrow> string \<Rightarrow> out_req \<Rightarrow> bool" for body r0 where
  first: "http_send (Done n) r0 = (False, r) \<Longrightarrow> 0 < n \<Longrightarrow> delivery body r0 (take n (out_text r0)) r"
| whole: "http_send (Done n) r0 = (True, r) \<Longrightarrow> n = length (out_text r0) \<Longrightarrow> delivery body r0 (out_text r0) r"
| event: "delivery body r0 net r \<Longrightarrow> io_honest body w f r \<Longrightarrow> events_out_data w f r = Some (Waiting, r') \<Longrightarrow>
     delivery body r0 (net @ wire body w f r) r'"

lemma file_part_drop:
  assumes "o_fd r" "0 \<le> o_offset r" "o_offset r \<le> o_last r" "o_last r \<le> int (length body)" "n \<le> length (file_part body r)"
  shows "o_offset r + int n \<le> o_last r"
    and "file_part body r = take n (file_part body r) @ file_part body (r\<lparr>o_offset := o_offset r + int n\<rparr>)"
proof -
  have l: "length (file_part body r) = nat (o_last r) - nat (o_offset r)"
    using assms(1-4) by (simp add: file_part_def)
  show 1: "o_offset r + int n \<le> o_last r" using l assms by linarith
  have "nat (o_offset r + int n) = nat (o_offset r) + n" using assms(2) by simp
  then have "file_part body (r\<lparr>o_offset := o_offset r + int n\<rparr>) = drop n (file_part body r)"
    using assms(1) by (simp add: file_part_def seg_def drop_take add.commute)
  then show "file_part body r = take n (file_part body r) @ file_part body (r\<lparr>o_offset := o_offset r + int n\<rparr>)"
    by simp
qed

lemma event_step:
  assumes inv: "transfer_inv body r" and io: "io_honest body w f r"
    and e: "events_out_data w f r = Some (act, r')" and act: "act \<noteq> CleanedUp"
  shows "transfer_inv body r' \<and> unsent body r = wire body w f r @ unsent body r' \<and>
         (act = Ended \<longrightarrow> unsent body r' = [])"
proof (cases "o_total r > 0")
  case True
  then obtain v where v: "o_pvec r = Some v" "v \<noteq> []" "o_total r = int (length (concat v))" "length (concat v) < 2 ^ 32"
    using inv by (auto simp: transfer_inv_def)
  obtain n where n: "w = Done n" "n \<le> length (concat v)"
    using e act True v io by (cases w) (auto simp: events_out_data_def io_honest_def)
  obtain v' where v': "skip_iov 0 n v = Some v'" "v' \<noteq> []" "concat v' = drop n (concat v)"
    using skip_iov_drop [of v 0 n] v n by auto
  have r': "r' = r\<lparr>o_total := o_total r - int n, o_pvec := Some v'\<rparr>" "act = Waiting"
    using e True v n v' by (auto simp: events_out_data_def Let_def)
  have len: "length (concat v') = length (concat v) - n" using v'(3) by simp
  have t: "o_total r' = int (length (concat v'))" using r' v(3) len n by simp
  have inv': "transfer_inv body r'" using inv r' t v' v(4) len by (auto simp: transfer_inv_def)
  have "unsent body r' = concat v' @ file_part body r"
    using t r' len by (cases "length (concat v') = 0") (auto simp: unsent_def file_part_def)
  moreover have "concat v = take n (concat v) @ concat v'" using v' by simp
  ultimately show ?thesis using inv' r' True v n by (simp add: unsent_def wire_def)
next
  case False
  then have t0: "o_total r = 0" using inv by (simp add: transfer_inv_def)
  show ?thesis
  proof (cases "o_fd r")
    case fd: True
    have off: "0 \<le> o_offset r" "o_offset r \<le> o_last r" "o_last r \<le> int (length body)"
      using inv fd by (auto simp: transfer_inv_def)
    show ?thesis
    proof (cases f)
      case (Done n)
      have n: "n \<le> length (file_part body r)" using io Done by (simp add: io_honest_def)
      note fp = file_part_drop [OF fd off n]
      let ?q = "r\<lparr>o_offset := o_offset r + int n\<rparr>"
      have full: "file_part body ?q = []" if "\<not> o_offset ?q < o_last r"
        using that fp(1) by (simp add: file_part_def seg_def)
      show ?thesis
        using e t0 fd Done fp off full
        by (auto simp: events_out_data_def Let_def unsent_def wire_def transfer_inv_def file_part_def split: if_splits)
    next
      case WouldBlock
      then show ?thesis
        using e t0 fd off
        by (auto simp: events_out_data_def Let_def unsent_def wire_def transfer_inv_def file_part_def seg_def split: if_splits)
    next
      case Failed
      then show ?thesis using e t0 fd act by (simp add: events_out_data_def)
    qed
  next
    case nofd: False
    then have "r' = r" using e t0 by (simp add: events_out_data_def)
    then show ?thesis using inv t0 nofd by (simp add: unsent_def wire_def file_part_def)
  qed
qed

definition ready :: "string \<Rightarrow> out_req \<Rightarrow> bool" where
  "ready body r \<longleftrightarrow> vec_ok r \<and> o_vec r \<noteq> [] \<and> length (out_text r) < 2 ^ 32 \<and>
     (o_fd r \<longrightarrow> 0 \<le> o_offset r \<and> o_offset r \<le> o_last r \<and> o_last r \<le> int (length body))"

lemma first_step:
  assumes "ready body r0" "http_send (Done n) r0 = (False, r)" "0 < n"
  shows "transfer_inv body r \<and> take n (out_text r0) @ unsent body r = out_text r0 @ file_part body r0"
proof -
  have r0: "o_total r0 = int (length (out_text r0))" "o_vec r0 \<noteq> []" "length (out_text r0) < 2 ^ 32"
    using assms(1) by (auto simp: ready_def vec_ok_def)
  have lt: "int n < o_total r0" using assms(2) by (auto simp: http_send_def Let_def split: if_splits)
  obtain v where v: "skip_iov 0 n (o_vec r0) = Some v" "v \<noteq> []" "concat v = drop n (out_text r0)"
    using skip_iov_drop [of "o_vec r0" 0 n] r0 lt by auto
  have r: "r = r0\<lparr>o_total := o_total r0 - int n, o_pvec := Some v, o_epollout := True\<rparr>"
    using assms(2,3) lt v by (simp add: http_send_def Let_def)
  have t: "o_total r = int (length (concat v))" "o_total r > 0" using r v(3) r0(1) lt by auto
  have "transfer_inv body r" using assms(1) r t v r0(3) by (auto simp: transfer_inv_def ready_def)
  moreover have "file_part body r = file_part body r0" using r by (simp add: file_part_def)
  ultimately show ?thesis using t v r by (simp add: unsent_def)
qed

lemma whole_step:
  assumes "ready body r0" "http_send (Done n) r0 = (True, r)" "n = length (out_text r0)"
  shows "transfer_inv body r \<and> unsent body r = file_part body r0"
proof -
  have "r = r0\<lparr>o_total := 0\<rparr>" using assms by (auto simp: http_send_def Let_def ready_def vec_ok_def split: if_splits)
  then show ?thesis using assms(1) by (auto simp: transfer_inv_def unsent_def file_part_def ready_def)
qed

lemma delivery_inv:
  assumes "ready body r0"
  shows "delivery body r0 net r \<Longrightarrow> transfer_inv body r \<and> net @ unsent body r = out_text r0 @ file_part body r0"
proof (induction rule: delivery.induct)
  case (first n r)
  then show ?case using first_step [OF assms] by blast
next
  case (whole n r)
  then show ?case using whole_step [OF assms] by auto
next
  case (event net r w f r')
  then show ?case using event_step [of body r w f Waiting r'] by auto
qed

text \<open>
  C3.  A response is delivered byte by byte, in order and exactly once, however the socket cuts it
  into pieces: at every moment what was sent and what is left make up the response (head, body and
  the announced part of the file), and when a write event ends the request everything has been sent.
\<close>

theorem delivery_complete:
  assumes "ready body r0" "delivery body r0 net r"
  shows "(\<exists>rest. out_text r0 @ file_part body r0 = net @ rest) \<and>
    (\<forall>w f r'. io_honest body w f r \<and> events_out_data w f r = Some (Ended, r') \<longrightarrow>
       net @ wire body w f r = out_text r0 @ file_part body r0)"
proof -
  have inv: "transfer_inv body r" "net @ unsent body r = out_text r0 @ file_part body r0"
    using delivery_inv [OF assms] by auto
  have "net @ wire body w f r = out_text r0 @ file_part body r0"
    if "io_honest body w f r" "events_out_data w f r = Some (Ended, r')" for w f r'
    using event_step [OF inv(1) that] inv(2) by (metis append.assoc append.right_neutral out_action.distinct(5))
  then show ?thesis using inv(2) by metis
qed

theorem delivery_complete_witness:
  "\<exists>r. delivery [] \<lparr>o_vec = [''ab'', ''c''], o_total = 3, o_pvec = None, o_epollout = False,
      o_keepalive = False, o_content_length = 0, o_type = [], o_type_len = 0, o_fd = False, o_offset = 0, o_last = 0\<rparr> ''abc'' r \<and>
     ''abc'' @ wire [] (Done 0) (Done 0) r = ''abc''"
proof -
  define r0 where "r0 = \<lparr>o_vec = [''ab'', ''c''], o_total = 3, o_pvec = None, o_epollout = False,
      o_keepalive = False, o_content_length = 0, o_type = [], o_type_len = 0, o_fd = False, o_offset = 0, o_last = 0\<rparr>"
  have rd: "ready [] r0" by (simp add: ready_def vec_ok_def r0_def)
  have 1: "delivery [] r0 (take 1 (out_text r0)) (r0\<lparr>o_total := 2, o_pvec := Some [''b'', ''c''], o_epollout := True\<rparr>)"
    by (rule delivery.first) (simp_all add: http_send_def r0_def)
  let ?r1 = "r0\<lparr>o_total := 2, o_pvec := Some [''b'', ''c''], o_epollout := True\<rparr>"
  have h: "io_honest [] (Done 2) WouldBlock ?r1" by (simp add: io_honest_def)
  have e: "events_out_data (Done 2) WouldBlock ?r1 = Some (Waiting, r0\<lparr>o_total := 0, o_pvec := Some [[]], o_epollout := True\<rparr>)"
    by (simp add: events_out_data_def)
  have d: "delivery [] r0 ''abc'' (r0\<lparr>o_total := 0, o_pvec := Some [[]], o_epollout := True\<rparr>)"
    using delivery.event [OF 1 h e] by (simp add: wire_def r0_def)
  have "''abc'' @ wire [] (Done 0) (Done 0) (r0\<lparr>o_total := 0, o_pvec := Some [[]], o_epollout := True\<rparr>) =
      out_text r0 @ file_part [] r0"
    using delivery_complete [OF rd d]
    by (simp add: io_honest_def events_out_data_def r0_def)
  then show ?thesis using d unfolding r0_def by (auto simp: file_part_def)
qed

text \<open>
  One way out of this guarantee: if the very first \<^verbatim>\<open>writev\<close> would block, the request waits
  for a write event although its remaining vector was never set up; the event handler then works on
  a stale or uninitialised pointer.
\<close>

theorem http_send_would_block:
  assumes "0 < o_total r" "o_pvec r = None"
  shows "let (finished, r') = http_send WouldBlock r in
           \<not> finished \<and> o_epollout r' \<and> events_out_data w f r' = None"
  using assms by (simp add: http_send_def events_out_data_def)

theorem http_send_would_block_witness:
  "let (finished, r') = http_send WouldBlock \<lparr>o_vec = [''abc''], o_total = 3, o_pvec = None, o_epollout = False,
      o_keepalive = False, o_content_length = 0, o_type = [], o_type_len = 0, o_fd = False, o_offset = 0, o_last = 0\<rparr> in
   \<not> finished \<and> o_epollout r' \<and> events_out_data (Done 3) WouldBlock r' = None"
  by (rule http_send_would_block) simp_all

end
