(* ===== verification/Http_File.thy ===== *)
theory Http_File
  imports Http_Output
begin

text \<open>
  \<^verbatim>\<open>http_send_file\<close> of \<^verbatim>\<open>core_http.c\<close>: static files with conditional requests
  (\<^verbatim>\<open>If-Modified-Since\<close>), byte ranges and the hand-over to the write events.  The system calls and
  \<^verbatim>\<open>gmtime_r\<close> are arguments.  A header is a pair of its lower-case name and its value.
\<close>

section \<open>Dates\<close>

record tm =
  tm_wday :: nat
  tm_mday :: nat
  tm_mon :: nat
  tm_year :: nat
  tm_hour :: nat
  tm_min :: nat
  tm_sec :: nat

definition days_three_sym :: "string list" where
  "days_three_sym = [''Sun'', ''Mon'', ''Tue'', ''Wed'', ''Thu'', ''Fri'', ''Sat'']"

definition months_three_sym :: "string list" where
  "months_three_sym = [''Jan'', ''Feb'', ''Mar'', ''Apr'', ''May'', ''Jun'', ''Jul'', ''Aug'', ''Sep'', ''Oct'', ''Nov'', ''Dec'']"

text \<open>\<^verbatim>\<open>%0wd\<close> for a number that is not negative.\<close>

definition fmt_0d :: "nat \<Rightarrow> nat \<Rightarrow> string" where
  "fmt_0d w n = (let s = numeral_of 10 n in replicate (w - length s) CHR ''0'' @ s)"

definition http_rfc822_date :: "tm \<Rightarrow> string" where
  "http_rfc822_date t =
     days_three_sym ! tm_wday t @ '', '' @ fmt_0d 2 (tm_mday t) @ '' '' @ months_three_sym ! tm_mon t @ '' '' @
     fmt_0d 4 (tm_year t + 1900) @ '' '' @ fmt_0d 2 (tm_hour t) @ '':'' @ fmt_0d 2 (tm_min t) @ '':'' @
     fmt_0d 2 (tm_sec t) @ '' GMT''"

definition tm_ok :: "tm \<Rightarrow> bool" where
  "tm_ok t \<longleftrightarrow> tm_wday t < 7 \<and> tm_mday t \<le> 31 \<and> tm_mon t < 12 \<and> tm_year t + 1900 \<le> 9999 \<and>
     tm_hour t < 24 \<and> tm_min t < 60 \<and> tm_sec t \<le> 60"

lemma length_fmt_0d: "0 < w \<Longrightarrow> n < 10 ^ w \<Longrightarrow> length (fmt_0d w n) = w"
  using numeral_of_length [of 10 n w] by (simp add: fmt_0d_def Let_def)

lemma length_rfc822_date:
  assumes "tm_ok t" shows "length (http_rfc822_date t) = 29"
proof -
  have "length (days_three_sym ! tm_wday t) = 3"
  proof -
    have "\<forall>i < 7. length (days_three_sym ! i) = 3"
      by (simp add: days_three_sym_def All_less_Suc numeral_eq_Suc)
    then show ?thesis using assms by (simp add: tm_ok_def)
  qed
  moreover have "length (months_three_sym ! tm_mon t) = 3"
  proof -
    have "\<forall>i < 12. length (months_three_sym ! i) = 3"
      by (simp add: months_three_sym_def All_less_Suc numeral_eq_Suc)
    then show ?thesis using assms by (simp add: tm_ok_def)
  qed
  ultimately show ?thesis using assms by (simp add: http_rfc822_date_def tm_ok_def length_fmt_0d)
qed

section \<open>Ranges\<close>

type_synonym header = "string \<times> string"

text \<open>
  One \<^verbatim>\<open>Range\<close> header, for a file of \<open>sz\<close> bytes: the dash ends the first number; the second one, if
  there is one, gives the last byte.
\<close>

definition range_step :: "int \<Rightarrow> string \<Rightarrow> int \<Rightarrow> int \<times> int" where
  "range_step sz val lst =
     (case find_from (\<lambda>c. c = CHR ''-'') 6 (drop 6 val) of
        Some it \<Rightarrow>
          let rest = cstr (drop (it + 1) val);
              lst = (if rest \<noteq> [] then min sz (max 0 (atoi rest) + 1) else lst) in
          (atoi (cstr (take (it - 6) (drop 6 val))), lst)
      | None \<Rightarrow> (atoi (cstr (drop 6 val)), lst))"

text \<open>The loop over the request headers; \<open>Inl\<close> is the early return with status 416.\<close>

fun file_headers :: "int \<Rightarrow> string \<Rightarrow> header list \<Rightarrow> nat \<Rightarrow> int \<Rightarrow> int \<Rightarrow> unit + nat \<times> int \<times> int" where
  "file_headers sz date [] code off lst = Inr (code, off, lst)"
| "file_headers sz date ((key, val) # hs) code off lst =
     (if length key = 17 \<and> length val = 29 \<and> key = ''if-modified-since'' \<and> val = take 29 date
      then Inr (304, off, lst)
      else if length key = 5 \<and> key = ''range'' \<and> length val > 6 \<and> take 6 val = ''bytes='' then
        (let (off, lst) = range_step sz val lst in
         if off \<ge> sz then Inl ()
         else file_headers sz date hs 206 off (if off > lst then off + 1 else lst))
      else file_headers sz date hs code off lst)"

section \<open>Sending a file\<close>

datatype errno = ENOENT | ENOTDIR | EACCES | EOTHER

record file_stat =
  st_reg :: bool
  st_size :: int
  st_mtime :: tm

text \<open>\<^verbatim>\<open>sprintf\<close> with the unsigned 64-bit format.\<close>

definition fmt_u64 :: "int \<Rightarrow> string" where
  "fmt_u64 n = numeral_of 10 (nat (n mod 2 ^ 64))"

definition content_range :: "int \<Rightarrow> int \<Rightarrow> int \<Rightarrow> string" where
  "content_range off lst sz =
     ''Content-Range: bytes '' @ fmt_u64 off @ ''-'' @ fmt_u64 (lst - 1) @ ''/'' @ fmt_u64 sz @ CLRF"

text \<open>The head of a file response, up to the empty line.\<close>

definition file_head :: "string \<Rightarrow> nat \<Rightarrow> file_stat \<Rightarrow> tm \<Rightarrow> tm \<Rightarrow> out_req \<Rightarrow> out_req option" where
  "file_head keepalive_timeout code st now expires r =
     (let r = r\<lparr>o_content_length := o_last r - o_offset r\<rparr>;
          m = http_rfc822_date (st_mtime st) in
      do { r \<leftarrow> http_append_headers keepalive_timeout code r;
           r \<leftarrow> http_append_to_output_buf ''Last-Modified: '' 15 r;
           r \<leftarrow> http_append_to_output_buf m 29 r;
           r \<leftarrow> http_append_to_output_buf CLRF 2 r;
           r \<leftarrow> http_append_to_output_buf ''Date: '' 6 r;
           r \<leftarrow> http_append_to_output_buf (http_rfc822_date now) 29 r;
           r \<leftarrow> http_append_to_output_buf CLRF 2 r;
           r \<leftarrow> http_append_to_output_buf ''Expires: '' 9 r;
           r \<leftarrow> http_append_to_output_buf (http_rfc822_date expires) 29 r;
           r \<leftarrow> http_append_to_output_buf CLRF 2 r;
           r \<leftarrow> (if code = 206 then http_append_str (content_range (o_offset r) (o_last r) (st_size st)) r else Some r);
           http_append_to_output_buf (''Accept-Ranges: bytes'' @ CLRF @ CLRF) 24 r })"

text \<open>
  The result: the return val, whether the descriptor of the file is still open, and the request.
  \<open>w\<close> and \<open>f\<close> are the results of \<^verbatim>\<open>writev\<close> and of the first \<^verbatim>\<open>sendfile\<close>.
\<close>

definition http_send_file ::
  "string \<Rightarrow> io_result \<Rightarrow> io_result \<Rightarrow> tm \<Rightarrow> tm \<Rightarrow> (string \<Rightarrow> errno + file_stat option) \<Rightarrow>
   string \<Rightarrow> string \<Rightarrow> header list \<Rightarrow> out_req \<Rightarrow> (bool \<times> bool \<times> out_req) option" where
  "http_send_file kt w f now expires fs path filepath hdrs r =
     (let fail = (\<lambda>code. map_option (\<lambda>(b, r). (b, False, r)) (http_error kt w code r)) in
      if filepath = [] then fail 403
      else case fs filepath of
        Inl e \<Rightarrow>
          if e = ENOENT \<or> e = ENOTDIR then fail 404
          else if e = EACCES then fail 403
          else fail 500
      | Inr None \<Rightarrow> fail 500
      | Inr (Some st) \<Rightarrow>
          if \<not> st_reg st then fail 403
          else do {
            r \<leftarrow> http_set_mime_type path r;
            (case file_headers (st_size st) (http_rfc822_date (st_mtime st)) hdrs 200 0 (st_size st) of
               Inl _ \<Rightarrow> map_option (\<lambda>(b, r). (b, False, r)) (http_error kt w 416 r)
             | Inr (code, off, lst) \<Rightarrow>
                 do { r \<leftarrow> file_head kt code st now expires (r\<lparr>o_offset := off, o_last := lst\<rparr>);
                      let (sent, r) = http_send w r;
                      if code = 304 then Some (sent, False, r)
                      else if \<not> sent then Some (False, True, r\<lparr>o_fd := True\<rparr>)
                      else
                        (case f of
                           Failed \<Rightarrow> Some (True, True, r)
                         | _ \<Rightarrow>
                             let res = (case f of Done n \<Rightarrow> int n | _ \<Rightarrow> -1);
                                 r = (case f of Done n \<Rightarrow> r\<lparr>o_offset := o_offset r + int n\<rparr> | _ \<Rightarrow> r) in
                             if res < o_content_length r
                             then Some (False, True, r\<lparr>o_fd := True, o_epollout := True\<rparr>)
                             else Some (True, False, r)) }) })"

lemma file_headers_bounds:
  assumes "file_headers sz date hs code off lst = Inr (code', off', lst')" "0 < sz"
    "code = 206 \<longrightarrow> off < sz" "off \<le> lst" "lst \<le> sz" "off < sz" "code \<in> {200, 206}"
  shows "code' \<in> {200, 206, 304} \<and> off' < sz \<and> off' \<le> lst' \<and> lst' \<le> sz"
  using assms
proof (induction sz date hs code off lst rule: file_headers.induct)
  case (1 sz date code off lst)
  then show ?case by auto
next
  case (2 sz date key val hs code off lst)
  show ?case
  proof (cases "length key = 17 \<and> length val = 29 \<and> key = ''if-modified-since'' \<and> val = take 29 date")
    case True
    then show ?thesis using "2.prems" by auto
  next
    case not304: False
    show ?thesis
    proof (cases "length key = 5 \<and> key = ''range'' \<and> length val > 6 \<and> take 6 val = ''bytes=''")
      case True
      obtain o1 l1 where r: "range_step sz val lst = (o1, l1)" by (cases "range_step sz val lst")
      have l1: "l1 \<le> sz" using r "2.prems" by (auto simp: range_step_def Let_def split: option.splits if_splits)
      show ?thesis
        using not304 True r l1 "2.prems" "2.IH"(1) [OF not304 True r [symmetric] refl]
        by (auto split: if_splits)
    next
      case False
      then show ?thesis using not304 "2.prems" "2.IH"(2) by auto
    qed
  qed
qed

lemma mime_types_ok: "\<forall>(e, s, n) \<in> set http_mime_types. n = length s \<and> length s \<le> 29"
  by (simp add: http_mime_types_def)

lemma mime_index_in:
  "([], s0, n0) \<in> set ts \<Longrightarrow> \<exists>x \<in> set ts. mime_index ext ts = Some (snd x)"
proof (induction ts)
  case (Cons t ts)
  obtain e s n where t: "t = (e, s, n)" by (cases t)
  show ?case
  proof (cases "e = [] \<or> e = ext")
    case False
    then have "([], s0, n0) \<in> set ts" using Cons.prems t by auto
    from Cons.IH [OF this] False t show ?thesis by auto
  qed (simp add: t)
qed simp

lemma http_set_mime_type_ok:
  "\<exists>s. http_set_mime_type path r = Some (r\<lparr>o_type := s, o_type_len := length s\<rparr>) \<and> length s \<le> 29"
proof -
  let ?ext = "case last_dot path (length path - 1) of Some i \<Rightarrow> drop i path | None \<Rightarrow> []"
  have "([], ''application/octet-stream'', 24) \<in> set http_mime_types" by (simp add: http_mime_types_def)
  then obtain e s n where "mime_index ?ext http_mime_types = Some (s, n)" "(e, s, n) \<in> set http_mime_types"
    using mime_index_in by (metis prod.collapse)
  moreover from this mime_types_ok have "n = length s" "length s \<le> 29" by auto
  ultimately show ?thesis by (intro exI [of _ s]) (simp add: http_set_mime_type_def Let_def)
qed

text \<open>The text of the head, and why it is short.\<close>

definition file_head_text :: "string \<Rightarrow> nat \<Rightarrow> file_stat \<Rightarrow> tm \<Rightarrow> tm \<Rightarrow> out_req \<Rightarrow> string" where
  "file_head_text kt code st now expires r =
     head_text kt code (r\<lparr>o_content_length := o_last r - o_offset r\<rparr>) @
     ''Last-Modified: '' @ http_rfc822_date (st_mtime st) @ CLRF @ ''Date: '' @ http_rfc822_date now @ CLRF @
     ''Expires: '' @ http_rfc822_date expires @ CLRF @
     (if code = 206 then content_range (o_offset r) (o_last r) (st_size st) else []) @
     ''Accept-Ranges: bytes'' @ CLRF @ CLRF"

lemma length_fmt_u64: "length (fmt_u64 n) \<le> 20"
proof -
  have "nat (n mod 2 ^ 64) < 10 ^ 20"
  proof -
    have "n mod 2 ^ 64 < 2 ^ 64" by simp
    also have "(2 :: int) ^ 64 < 10 ^ 20" by simp
    finally show ?thesis by simp
  qed
  then show ?thesis unfolding fmt_u64_def by (intro numeral_of_length) auto
qed

lemma length_content_range: "length (content_range off lst sz) \<le> 85"
  using length_fmt_u64 [of off] length_fmt_u64 [of "lst - 1"] length_fmt_u64 [of sz]
  by (simp add: content_range_def)

lemma status_short: "length (http_status_code code) < 256"
  using http_status_code_len_eq [of code] by (simp add: http_status_code_len_def)

lemma length_file_head:
  assumes "tm_ok (st_mtime st)" "tm_ok now" "tm_ok expires" "length (o_type r) \<le> 29" "length kt \<le> 1000"
    "0 \<le> o_last r - o_offset r" "o_last r - o_offset r < 2 ^ 63"
  shows "length (file_head_text kt code st now expires r) < 2000"
proof -
  have "nat (o_last r - o_offset r) < 10 ^ 20" using assms(7) by simp
  then have "length (numeral_of 10 (nat (o_last r - o_offset r))) \<le> 20" by (intro numeral_of_length) auto
  then show ?thesis
    using assms status_short [of code] length_content_range [of "o_offset r" "o_last r" "st_size st"]
    by (cases "o_keepalive r"; cases "code = 206") (simp_all add: file_head_text_def head_text_def length_rfc822_date header_server_string_def SERVER_STRING_def)
qed

definition append_all :: "string list \<Rightarrow> out_req \<Rightarrow> out_req" where
  "append_all ps r = r\<lparr>o_vec := o_vec r @ ps, o_total := o_total r + int (length (concat ps))\<rparr>"

lemma append_all_Nil: "append_all [] r = r"
  by (simp add: append_all_def)

lemma append_first: "len = length p \<Longrightarrow> http_append_to_output_buf p len r = Some (append_all [p] r)"
  by (simp add: append_all_def http_append_to_output_buf_def)

lemma append_step:
  "append_all qs (append_all ps r) = append_all (ps @ qs) r"
  "o_offset (append_all ps r) = o_offset r" "o_last (append_all ps r) = o_last r"
  by (simp_all add: append_all_def)

lemma append_all_ok: "vec_ok r \<Longrightarrow> vec_ok (append_all ps r)"
  by (simp add: append_all_def vec_ok_def)

lemma file_head_ok:
  assumes "code < 506" "tm_ok (st_mtime st)" "tm_ok now" "tm_ok expires" "o_type_len r = length (o_type r)"
    "0 \<le> o_last r - o_offset r" "o_vec r = []" "o_total r = 0"
  shows "\<exists>r'. file_head kt code st now expires r = Some r' \<and> vec_ok r' \<and>
     out_text r' = file_head_text kt code st now expires r \<and> o_content_length r' = o_last r - o_offset r \<and>
     o_offset r' = o_offset r \<and> o_last r' = o_last r \<and> o_vec r' \<noteq> [] \<and> o_pvec r' = o_pvec r \<and> o_fd r' = o_fd r"
proof -
  let ?q = "r\<lparr>o_content_length := o_last r - o_offset r\<rparr>"
  obtain r1 where r1: "http_append_headers kt code ?q = Some r1" "vec_ok r1"
    "out_text r1 = head_text kt code ?q" "o_content_length r1 = o_last r - o_offset r"
    "o_offset r1 = o_offset r" "o_last r1 = o_last r" "o_pvec r1 = o_pvec r" "o_fd r1 = o_fd r"
    using http_append_headers_text [of code ?q kt] assms by (auto simp: vec_ok_def)
  have d: "length (http_rfc822_date (st_mtime st)) = 29" "length (http_rfc822_date now) = 29"
    "length (http_rfc822_date expires) = 29" using assms by (auto simp: length_rfc822_date)
  let ?c = "if code = 206 then [content_range (o_offset r) (o_last r) (st_size st)] else []"
  let ?ps = "[''Last-Modified: '', http_rfc822_date (st_mtime st), CLRF, ''Date: '', http_rfc822_date now, CLRF,
    ''Expires: '', http_rfc822_date expires, CLRF] @ ?c @ [''Accept-Ranges: bytes'' @ CLRF @ CLRF]"
  have "file_head kt code st now expires r = Some (append_all ?ps r1)"
    using r1(1,5,6) d append_all_Nil [of r1]
    by (cases "code = 206") (simp_all add: file_head_def Let_def append_first append_step http_append_str_def)
  moreover have "out_text (append_all ?ps r1) = file_head_text kt code st now expires r"
    using r1(3) by (simp add: append_all_def file_head_text_def)
  ultimately show ?thesis using r1 by (simp add: append_all_ok) (simp add: append_all_def)
qed

text \<open>
  The text of the first number of a range: what stands between \<^verbatim>\<open>bytes=\<close> and the next dash.  It has no sign,
  so \<^verbatim>\<open>atoi\<close> makes a negative number of it only if it does not fit.
\<close>

definition range_start :: "string \<Rightarrow> string" where
  "range_start val = cstr (takeWhile (\<lambda>c. c \<noteq> CHR ''-'') (drop 6 val))"

definition starts_fit :: "header list \<Rightarrow> bool" where
  "starts_fit hs \<longleftrightarrow> (\<forall>(key, val) \<in> set hs. key = ''range'' \<longrightarrow> strtol (range_start val) < 2 ^ 31)"

lemma find_from_takeWhile:
  "(case find_from P i xs of Some k \<Rightarrow> take (k - i) xs | None \<Rightarrow> xs) = takeWhile (\<lambda>x. \<not> P x) xs"
proof (induction xs arbitrary: i)
  case (Cons x xs)
  show ?case
  proof (cases "P x")
    case False
    have "i < k" if "find_from P (Suc i) xs = Some k" for k using find_from_SomeD [OF that] by simp
    then show ?thesis using Cons.IH [of "Suc i"] False
      by (auto simp: take_Cons' split: option.splits)
  qed simp
qed simp

lemma range_step_start: "fst (range_step sz val lst) = atoi (range_start val)"
  using find_from_takeWhile [where P = "\<lambda>c. c = CHR ''-''" and i = 6 and xs = "drop 6 val"]
  by (auto simp: range_step_def range_start_def Let_def split: option.splits)

lemma strtol_nonneg: "CHR ''-'' \<notin> set s \<Longrightarrow> 0 \<le> strtol s"
  using set_dropWhileD [of "CHR ''-''" isspace s] by (auto simp: strtol_def split: list.split)

lemma range_start_fits:
  assumes "strtol (range_start val) < 2 ^ 31"
  shows "0 \<le> fst (range_step sz val lst)"
proof -
  have "CHR ''-'' \<notin> set (range_start val)"
    by (auto simp: range_start_def cstr_def dest: set_takeWhileD)
  then have "0 \<le> strtol (range_start val)" by (rule strtol_nonneg)
  then show ?thesis using assms unfolding range_step_start atoi_def by (simp add: signed_take_bit_int_eq_self)
qed

lemma file_headers_start:
  assumes "file_headers sz date hs code off lst = Inr (code', off', lst')" "starts_fit hs" "0 \<le> off"
  shows "0 \<le> off'"
  using assms
proof (induction sz date hs code off lst rule: file_headers.induct)
  case (2 sz date key val hs code off lst)
  have fit: "starts_fit hs" "key = ''range'' \<Longrightarrow> 0 \<le> fst (range_step sz val lst)"
    using "2.prems"(2) range_start_fits [of val sz lst] by (auto simp: starts_fit_def)
  obtain o1 l1 where "range_step sz val lst = (o1, l1)" by (cases "range_step sz val lst")
  then show ?case using fit "2.prems"(1,3) "2.IH" by (auto split: if_splits)
qed simp

text \<open>
  C37.  Byte ranges do not lead outside of the file: whatever \<^verbatim>\<open>Range\<close> headers a request has, the
  part selected starts before the end of the file and ends at most there (or the request is answered
  with 416); and if the first numbers of the ranges are below 2^31, it starts at 0 or behind, so that
  \<^verbatim>\<open>Content-Length\<close> is the number of bytes of a part of the file.  A bigger first number can be read
  as a negative one (\<^verbatim>\<open>range_deviations\<close> below).
\<close>

theorem range_within_file:
  assumes "0 < sz" "file_headers sz date hs 200 0 sz = Inr (code, off, lst)"
  shows "code \<in> {200, 206, 304} \<and> off < sz \<and> off \<le> lst \<and> lst \<le> sz \<and>
     (starts_fit hs \<longrightarrow> 0 \<le> off \<and> lst - off \<le> sz)"
  using file_headers_bounds [OF assms(2)] file_headers_start [OF assms(2)] assms(1) by auto

theorem range_within_file_witness:
  "file_headers 10 [] [(''range'', ''bytes=2-4'')] 200 0 10 = Inr (206, 2, 5) \<and>
   starts_fit [(''range'', ''bytes=2-4'')] \<and> (0 :: int) \<le> 2 \<and> (5 :: int) - 2 \<le> 10"
proof -
  have e: "file_headers 10 [] [(''range'', ''bytes=2-4'')] 200 0 10 = Inr (206, 2, 5)"
    by (simp add: range_step_def Let_def cstr_def atoi_def strtol_def isspace_def char_defs)
  have f: "starts_fit [(''range'', ''bytes=2-4'')]"
    by (simp add: starts_fit_def range_start_def cstr_def strtol_def isspace_def char_defs)
  show ?thesis using range_within_file [OF _ e] e f by simp
qed

lemma strtol_numeral: "n < 2 ^ 63 \<Longrightarrow> strtol (numeral_of 10 n) = int n"
proof -
  assume n: "n < 2 ^ 63"
  obtain c cs where d: "numeral_of 10 n = c # cs" by (cases "numeral_of 10 n") auto
  have dig: "IS_DIGIT c" and v: "digits_value 0 (c # cs) = n" using numeral_of_10 [of n] d by auto
  then have "\<not> isspace c" "c \<noteq> CHR ''-''" "c \<noteq> CHR ''+''" by (auto simp: IS_DIGIT_def isspace_def)
  then show ?thesis using v n dig unfolding d by (simp add: strtol_def)
qed

lemma atoi_numeral: "n < 2 ^ 31 \<Longrightarrow> atoi (numeral_of 10 n) = int n"
  using strtol_numeral [of n] signed_take_bit_int_eq_self [of 31 "int n"] by (simp add: atoi_def)

lemma numeral_of_plain: "NUL \<notin> set (numeral_of 10 n)" "CHR ''-'' \<notin> set (numeral_of 10 n)" "numeral_of 10 n \<noteq> []"
proof -
  have "\<forall>c \<in> set (numeral_of 10 n). IS_DIGIT c" using numeral_of_10 by blast
  then show "NUL \<notin> set (numeral_of 10 n)" "CHR ''-'' \<notin> set (numeral_of 10 n)" by (auto simp: IS_DIGIT_def)
  show "numeral_of 10 n \<noteq> []" by (simp add: numeral_of.simps)
qed

lemma cstr_plain: "NUL \<notin> set s \<Longrightarrow> cstr s = s"
  by (auto simp: cstr_def takeWhile_eq_all_conv)

lemma range_step_text:
  assumes "a < 2 ^ 31" "b < 2 ^ 31"
  shows "range_step sz (''bytes='' @ numeral_of 10 a @ ''-'' @ numeral_of 10 b) lst = (int a, min sz (int b + 1))"
    and "range_step sz (''bytes='' @ numeral_of 10 a @ ''-'') lst = (int a, lst)"
proof -
  let ?a = "numeral_of 10 a" and ?b = "numeral_of 10 b"
  have f: "find_from (\<lambda>c. c = CHR ''-'') 6 (?a @ CHR ''-'' # r) = Some (6 + length ?a)" for r
    using find_from_append [of ?a "\<lambda>c. c = CHR ''-''" "CHR ''-''" 6 r] numeral_of_plain(2) [of a] by auto
  have d: "drop 6 (''bytes='' @ xs) = xs" for xs by simp
  have rest: "drop (6 + length ?a + 1) (''bytes='' @ ?a @ CHR ''-'' # r) = r" for r
    by (simp add: numeral_eq_Suc)
  show "range_step sz (''bytes='' @ ?a @ ''-'' @ ?b) lst = (int a, min sz (int b + 1))"
    using f [of ?b] rest [of ?b] numeral_of_plain [of a] numeral_of_plain [of b] assms
    by (simp add: range_step_def Let_def cstr_plain atoi_numeral)
  show "range_step sz (''bytes='' @ ?a @ ''-'') lst = (int a, lst)"
    using f [of "[]"] rest [of "[]"] numeral_of_plain [of a] assms
    by (simp add: range_step_def Let_def cstr_plain atoi_numeral)
qed

text \<open>
  A range \<^verbatim>\<open>bytes=a-b\<close> or \<^verbatim>\<open>bytes=a-\<close> of a file selects the bytes from \<open>a\<close> to \<open>b\<close>
  inclusive (or to the end), cut at the end of the file.
\<close>

theorem range_selects:
  assumes "a < 2 ^ 31" "b < 2 ^ 31" "int a < sz" "a \<le> b"
  shows "file_headers sz date [(''range'', ''bytes='' @ numeral_of 10 a @ ''-'' @ numeral_of 10 b)] 200 0 sz =
           Inr (206, int a, min sz (int b + 1)) \<and>
         file_headers sz date [(''range'', ''bytes='' @ numeral_of 10 a @ ''-'')] 200 0 sz = Inr (206, int a, sz)"
  using range_step_text [OF assms(1,2)] assms(3,4) numeral_of_plain(3) [of a]
  by (simp add: min_def)

theorem range_selects_witness:
  "file_headers 1000 [] [(''range'', ''bytes='' @ numeral_of 10 500 @ ''-'')] 200 0 1000 = Inr (206, 500, 1000)"
  using range_selects [of 500 999 1000 "[]"] by simp

text \<open>
  What ranges do beyond that: a suffix range \<^verbatim>\<open>bytes=-500\<close> sends the first 501 bytes instead of
  the last 500, a range that ends before it starts is answered 206 with an empty body and the
  \<^verbatim>\<open>Content-Range\<close> 5-4, and a start of 4294967295 becomes the offset -1.
\<close>

theorem range_deviations:
  "file_headers 1000 [] [(''range'', ''bytes=-500'')] 200 0 1000 = Inr (206, 0, 501) \<and>
   file_headers 1000 [] [(''range'', ''bytes=5-4'')] 200 0 1000 = Inr (206, 5, 5) \<and>
   file_headers 1000 [] [(''range'', ''bytes=4294967295-'')] 200 0 1000 = Inr (206, -1, 1000)"
  by (simp add: range_step_def Let_def cstr_def atoi_def strtol_def isspace_def char_defs)

section \<open>Files are delivered\<close>

text \<open>The request as \<^verbatim>\<open>http_send_file\<close> hands it to \<^verbatim>\<open>http_send\<close>.\<close>

definition file_request :: "string \<Rightarrow> nat \<Rightarrow> int \<Rightarrow> int \<Rightarrow> file_stat \<Rightarrow> tm \<Rightarrow> tm \<Rightarrow> string \<Rightarrow> out_req \<Rightarrow> out_req option" where
  "file_request kt code off lst st now expires path r =
     do { r \<leftarrow> http_set_mime_type path r; file_head kt code st now expires (r\<lparr>o_offset := off, o_last := lst\<rparr>) }"

definition file_case :: "(string \<Rightarrow> errno + file_stat option) \<Rightarrow> string \<Rightarrow> header list \<Rightarrow> file_stat \<Rightarrow> nat \<Rightarrow> int \<Rightarrow> int \<Rightarrow> bool" where
  "file_case fs filepath hdrs st code off lst \<longleftrightarrow> filepath \<noteq> [] \<and> fs filepath = Inr (Some st) \<and> st_reg st \<and>
     file_headers (st_size st) (http_rfc822_date (st_mtime st)) hdrs 200 0 (st_size st) = Inr (code, off, lst)"

lemma http_send_file_eq:
  assumes "file_case fs filepath hdrs st code off lst" "file_request kt code off lst st now expires path r = Some r1"
  shows "http_send_file kt w f now expires fs path filepath hdrs r =
    (let (sent, r) = http_send w r1 in
     if code = 304 then Some (sent, False, r)
     else if \<not> sent then Some (False, True, r\<lparr>o_fd := True\<rparr>)
     else (case f of
         Failed \<Rightarrow> Some (True, True, r)
       | _ \<Rightarrow> let res = (case f of Done n \<Rightarrow> int n | _ \<Rightarrow> -1);
                  r = (case f of Done n \<Rightarrow> r\<lparr>o_offset := o_offset r + int n\<rparr> | _ \<Rightarrow> r) in
              if res < o_content_length r then Some (False, True, r\<lparr>o_fd := True, o_epollout := True\<rparr>)
              else Some (True, False, r)))"
proof -
  obtain r0 where r0: "http_set_mime_type path r = Some r0"
    "file_head kt code st now expires (r0\<lparr>o_offset := off, o_last := lst\<rparr>) = Some r1"
    using assms(2) by (auto simp: file_request_def bind_eq_Some_conv)
  show ?thesis using assms(1) r0 unfolding http_send_file_def file_case_def by (simp add: Let_def)
qed

lemma file_request_ready:
  assumes fc: "file_case fs filepath hdrs st code off lst" and data: "st_size st = int (length data)" "data \<noteq> []"
      "length data < 2 ^ 63" and off: "0 \<le> off"
    and tm: "tm_ok (st_mtime st)" "tm_ok now" "tm_ok expires" and kt: "length kt \<le> 1000"
    and r: "o_vec r = []" "o_total r = 0"
  shows "\<exists>r1 s. file_request kt code off lst st now expires path r = Some r1 \<and>
     ready data (r1\<lparr>o_fd := True, o_epollout := True\<rparr>) \<and> o_content_length r1 = lst - off \<and>
     o_offset r1 = off \<and> o_last r1 = lst \<and> o_total r1 = int (length (out_text r1)) \<and> 0 < o_total r1 \<and> o_fd r1 = o_fd r \<and>
     http_set_mime_type path r = Some (r\<lparr>o_type := s, o_type_len := length s\<rparr>) \<and>
     out_text r1 = file_head_text kt code st now expires (r\<lparr>o_type := s, o_offset := off, o_last := lst\<rparr>)"
proof -
  have b: "code \<in> {200, 206, 304}" "off < st_size st" "off \<le> lst" "lst \<le> st_size st"
    using file_headers_bounds [of "st_size st" "http_rfc822_date (st_mtime st)" hdrs 200 0 "st_size st" code off lst]
      fc data by (auto simp: file_case_def)
  obtain s where s: "http_set_mime_type path r = Some (r\<lparr>o_type := s, o_type_len := length s\<rparr>)" "length s \<le> 29"
    using http_set_mime_type_ok by blast
  let ?q = "r\<lparr>o_type := s, o_type_len := length s, o_offset := off, o_last := lst\<rparr>"
  obtain r1 where r1: "file_head kt code st now expires ?q = Some r1" "vec_ok r1"
     "out_text r1 = file_head_text kt code st now expires ?q" "o_content_length r1 = lst - off"
     "o_offset r1 = off" "o_last r1 = lst" "o_vec r1 \<noteq> []" "o_fd r1 = o_fd r"
  proof -
    have "code < 506" "o_type_len ?q = length (o_type ?q)" "0 \<le> o_last ?q - o_offset ?q" "o_vec ?q = []" "o_total ?q = 0"
      using b r by auto
    from file_head_ok [OF this(1) tm this(2-5), of kt] that show ?thesis by simp blast
  qed
  have "length (out_text r1) < 2000"
    unfolding r1(3) using tm s kt b data off by (intro length_file_head) auto
  moreover have "0 < length (out_text r1)" unfolding r1(3) by (simp add: file_head_text_def)
  moreover have "file_head_text kt code st now expires ?q =
      file_head_text kt code st now expires (r\<lparr>o_type := s, o_offset := off, o_last := lst\<rparr>)"
    by (simp add: file_head_text_def head_text_def)
  ultimately show ?thesis
    using r1 s b off data
    by (intro exI [of _ r1] exI [of _ s]) (auto simp: file_request_def ready_def vec_ok_def)
qed

text \<open>What is left of a delivery after the first \<^verbatim>\<open>writev\<close>, and after the first \<^verbatim>\<open>sendfile\<close>.\<close>

lemma head_sent_partly:
  assumes "int n < o_total r1" "0 < n"
  shows "\<not> fst (http_send (Done n) r1)"
    "delivery data (r1\<lparr>o_fd := True, o_epollout := True\<rparr>) (take n (out_text (r1\<lparr>o_fd := True, o_epollout := True\<rparr>))) ((snd (http_send (Done n) r1))\<lparr>o_fd := True\<rparr>)"
proof -
  have hs: "http_send (Done n) (r1\<lparr>o_fd := True, o_epollout := True\<rparr>) = (False, (snd (http_send (Done n) r1))\<lparr>o_fd := True\<rparr>)" "\<not> fst (http_send (Done n) r1)"
    using assms by (auto simp: http_send_def Let_def split: option.split)
  show "\<not> fst (http_send (Done n) r1)" by (rule hs(2))
  show "delivery data (r1\<lparr>o_fd := True, o_epollout := True\<rparr>) (take n (out_text (r1\<lparr>o_fd := True, o_epollout := True\<rparr>))) ((snd (http_send (Done n) r1))\<lparr>o_fd := True\<rparr>)"
    by (rule delivery.first [OF hs(1) assms(2)])
qed

lemma file_sent_partly:
  assumes w: "delivery data (r1\<lparr>o_fd := True, o_epollout := True\<rparr>) net (r1\<lparr>o_fd := True, o_epollout := True, o_total := 0\<rparr>)"
    and k: "int k < o_last r1 - o_offset r1" "o_last r1 - o_offset r1 = int (length (file_part data (r1\<lparr>o_fd := True, o_epollout := True\<rparr>)))"
  shows "\<exists>net. delivery data (r1\<lparr>o_fd := True, o_epollout := True\<rparr>) net (r1\<lparr>o_total := 0, o_offset := o_offset r1 + int k, o_fd := True, o_epollout := True\<rparr>)"
proof -
  let ?r0 = "r1\<lparr>o_fd := True, o_epollout := True\<rparr>"
  have "io_honest data (Done 0) (Done k) (?r0\<lparr>o_total := 0\<rparr>)" using k by (simp add: io_honest_def file_part_def)
  moreover have "events_out_data (Done 0) (Done k) (?r0\<lparr>o_total := 0\<rparr>) = Some (Waiting, ?r0\<lparr>o_total := 0, o_offset := o_offset r1 + int k\<rparr>)"
    using k(1) by (simp add: events_out_data_def)
  ultimately have "delivery data ?r0 (net @ wire data (Done 0) (Done k) (?r0\<lparr>o_total := 0\<rparr>)) (?r0\<lparr>o_total := 0, o_offset := o_offset r1 + int k\<rparr>)"
    by (rule delivery.event [OF w])
  moreover have "?r0\<lparr>o_total := 0, o_offset := o_offset r1 + int k\<rparr> = r1\<lparr>o_total := 0, o_offset := o_offset r1 + int k, o_fd := True, o_epollout := True\<rparr>" by (cases r1) simp
  ultimately show ?thesis by (metis (no_types))
qed

text \<open>
  C17.  A request for a regular file that is not empty and not answered with 304 is answered with the whole file or
  the selected range.  The head is the text with the status code, the type of the file's name, the number of bytes selected,
  the dates and, for a range, its position and the size of the file.  \<^verbatim>\<open>http_send_file\<close> returns, and either
  everything has been sent then, or the request is left in a state of the delivery of head and file part
  that the write events complete.  The start of the range must not have been read as a negative number, and the first
  \<^verbatim>\<open>sendfile\<close> must not fail (\<^verbatim>\<open>http_send_file_leak\<close> below).
\<close>

theorem http_send_file_delivers:
  assumes fc: "file_case fs filepath hdrs st code off lst" "code \<noteq> 304" and data: "st_size st = int (length data)" "data \<noteq> []"
      "length data < 2 ^ 63" and off: "0 \<le> off"
    and tm: "tm_ok (st_mtime st)" "tm_ok now" "tm_ok expires" and kt: "length kt \<le> 1000"
    and r: "o_vec r = []" "o_total r = 0" "\<not> o_fd r"
    and io: "0 < n" "\<And>r1. file_request kt code off lst st now expires path r = Some r1 \<Longrightarrow> n \<le> length (out_text r1)"
      "\<And>k. f = Done k \<Longrightarrow> int k \<le> lst - off" "f \<noteq> Failed"
  shows "\<exists>ret opened r' r0 s. http_send_file kt (Done n) f now expires fs path filepath hdrs r = Some (ret, opened, r') \<and>
     http_set_mime_type path r = Some (r\<lparr>o_type := s, o_type_len := length s\<rparr>) \<and>
     out_text r0 = file_head_text kt code st now expires (r\<lparr>o_type := s, o_offset := off, o_last := lst\<rparr>) \<and>
     ready data r0 \<and> file_part data r0 = seg data (nat off) (nat lst) \<and>
     o_content_length r0 = int (length (file_part data r0)) \<and> opened = o_fd r' \<and>
     (if ret then n = length (out_text r0) \<and> f = Done (length (file_part data r0)) else \<exists>net. delivery data r0 net r')"
proof -
  obtain r1 s where r1: "file_request kt code off lst st now expires path r = Some r1"
     "ready data (r1\<lparr>o_fd := True, o_epollout := True\<rparr>)" "o_content_length r1 = lst - off"
     "o_offset r1 = off" "o_last r1 = lst" "o_total r1 = int (length (out_text r1))" "0 < o_total r1" "o_fd r1 = o_fd r"
     "http_set_mime_type path r = Some (r\<lparr>o_type := s, o_type_len := length s\<rparr>)"
     "out_text r1 = file_head_text kt code st now expires (r\<lparr>o_type := s, o_offset := off, o_last := lst\<rparr>)"
    using file_request_ready [OF fc(1) data off tm kt r(1,2), of path] by blast
  let ?r0 = "r1\<lparr>o_fd := True, o_epollout := True\<rparr>"
  have fp: "file_part data ?r0 = seg data (nat off) (nat lst)" using r1 by (simp add: file_part_def)
  have len: "lst - off = int (length (file_part data ?r0))"
    using r1(2,4,5) fp by (auto simp: ready_def)
  have n: "n \<le> length (out_text r1)" using io(2) r1(1) by blast
  note eq = http_send_file_eq [OF fc(1) r1(1), of "Done n" f]
  obtain ret opened r' where sent: "http_send_file kt (Done n) f now expires fs path filepath hdrs r = Some (ret, opened, r')"
  proof -
    have "http_send_file kt (Done n) f now expires fs path filepath hdrs r \<noteq> None"
      unfolding eq by (cases "http_send (Done n) r1"; cases f) (auto simp del: not_None_eq simp: Let_def)
    then show ?thesis using that by auto
  qed
  have goal: "opened = o_fd r' \<and> (if ret then n = length (out_text ?r0) \<and> f = Done (length (file_part data ?r0))
      else \<exists>net. delivery data ?r0 net r')"
  proof (cases "int n < o_total r1")
    case True
    note hs = head_sent_partly(1) [OF True io(1)] head_sent_partly(2) [OF True io(1), where data = data]
    show ?thesis using sent eq hs fc(2) by (auto simp: case_prod_beta Let_def)
  next
    case False
    then have n': "n = length (out_text r1)" using n r1(6) by simp
    have hs: "http_send (Done n) r1 = (True, r1\<lparr>o_total := 0\<rparr>)" using False by (simp add: http_send_def)
    have w: "delivery data ?r0 (out_text ?r0) (?r0\<lparr>o_total := 0\<rparr>)"
      by (rule delivery.whole [of n]) (use False n' in \<open>simp_all add: http_send_def\<close>)
    show ?thesis
    proof (cases f)
      case (Done k)
      show ?thesis
      proof (cases "int k < lst - off")
        case True
        have "\<exists>net. delivery data ?r0 net (r1\<lparr>o_total := 0, o_offset := off + int k, o_fd := True, o_epollout := True\<rparr>)"
          using file_sent_partly [OF w, of k] True len r1(4,5) by simp
        then show ?thesis using sent eq hs True Done fc(2) r1(3,4) by (auto simp: Let_def)
      next
        case False
        then have "int k = lst - off" using io(3) Done by force
        then show ?thesis using sent eq hs Done fc(2) r1(3,8) r(3) n' len by (auto simp: Let_def)
      qed
    next
      case WouldBlock
      have "-1 < lst - off" using len by simp
      have "?r0\<lparr>o_total := 0\<rparr> = r1\<lparr>o_total := 0, o_fd := True, o_epollout := True\<rparr>" by (cases r1) simp
      then have "delivery data ?r0 (out_text ?r0) (r1\<lparr>o_total := 0, o_fd := True, o_epollout := True\<rparr>)"
        using w by (simp only:)
      then show ?thesis using sent eq hs WouldBlock fc(2) r1(3) \<open>-1 < lst - off\<close> by (auto simp: Let_def)
    qed (use io(4) in simp)
  qed
  show ?thesis using r1(2,3,9,10) fp len goal sent
    by (intro exI [of _ ret] exI [of _ opened] exI [of _ r'] exI [of _ ?r0] exI [of _ s]) auto
qed

theorem http_send_file_delivers_witness:
  "\<exists>r0 r'. http_send_file ''25'' (Done 1) WouldBlock
       \<lparr>tm_wday = 4, tm_mday = 1, tm_mon = 0, tm_year = 70, tm_hour = 0, tm_min = 0, tm_sec = 0\<rparr>
       \<lparr>tm_wday = 4, tm_mday = 1, tm_mon = 0, tm_year = 70, tm_hour = 0, tm_min = 0, tm_sec = 0\<rparr>
       (\<lambda>p. Inr (Some \<lparr>st_reg = True, st_size = 5, st_mtime =
          \<lparr>tm_wday = 4, tm_mday = 1, tm_mon = 0, tm_year = 70, tm_hour = 0, tm_min = 0, tm_sec = 0\<rparr>\<rparr>))
       ''/a.txt'' ''a.txt'' [(''range'', ''bytes=1-'')]
       \<lparr>o_vec = [], o_total = 0, o_pvec = None, o_epollout = False, o_keepalive = False, o_content_length = 0,
        o_type = [], o_type_len = 0, o_fd = False, o_offset = 0, o_last = 0\<rparr> = Some (False, True, r') \<and>
     ready ''hello'' r0 \<and> file_part ''hello'' r0 = ''ello'' \<and> (\<exists>net. delivery ''hello'' r0 net r')"
proof -
  define t where "t = \<lparr>tm_wday = 4, tm_mday = 1, tm_mon = 0, tm_year = 70, tm_hour = 0, tm_min = 0, tm_sec = 0\<rparr>"
  define st where "st = \<lparr>st_reg = True, st_size = 5, st_mtime = t\<rparr>"
  define fs where "fs = (\<lambda>p :: string. (Inr (Some st) :: errno + file_stat option))"
  define r :: out_req where "r = \<lparr>o_vec = [], o_total = 0, o_pvec = None, o_epollout = False, o_keepalive = False, o_content_length = 0,
        o_type = [], o_type_len = 0, o_fd = False, o_offset = 0, o_last = 0\<rparr>"
  have t: "tm_ok t" "st_mtime st = t" by (simp_all add: tm_ok_def t_def st_def)
  have fc: "file_case fs ''a.txt'' [(''range'', ''bytes=1-'')] st 206 1 5"
    by (simp add: file_case_def fs_def st_def range_step_def Let_def cstr_def atoi_def strtol_def isspace_def char_defs)
  have d: "st_size st = int (length ''hello'')" "''hello'' \<noteq> []" "length ''hello'' < 2 ^ 63" by (simp_all add: st_def)
  have r: "o_vec r = []" "o_total r = 0" "\<not> o_fd r" by (simp_all add: r_def)
  obtain r1 s where r1: "file_request ''25'' 206 1 5 st t t ''/a.txt'' r = Some r1"
     "o_total r1 = int (length (out_text r1))" "out_text r1 = file_head_text ''25'' 206 st t t (r\<lparr>o_type := s, o_offset := 1, o_last := 5\<rparr>)"
    using file_request_ready [OF fc d _ _ t(1) t(1) _ r(1,2), of "''25''" "''/a.txt''"] t by auto
  have n: "1 < length (out_text r1)" unfolding r1(3) by (simp add: file_head_text_def head_text_def)
  obtain q where q: "http_send (Done 1) r1 = (False, q)" using n r1(2) by (simp add: http_send_def)
  have s: "http_send_file ''25'' (Done 1) WouldBlock t t fs ''/a.txt'' ''a.txt'' [(''range'', ''bytes=1-'')] r =
      Some (False, True, q\<lparr>o_fd := True\<rparr>)" using q unfolding http_send_file_eq [OF fc r1(1)] by simp
  have "\<exists>r0 s. out_text r0 = file_head_text ''25'' 206 st t t (r\<lparr>o_type := s, o_offset := 1, o_last := 5\<rparr>) \<and>
      ready ''hello'' r0 \<and> file_part ''hello'' r0 = seg ''hello'' (nat 1) (nat 5) \<and>
      (\<exists>net. delivery ''hello'' r0 net (q\<lparr>o_fd := True\<rparr>))"
    using http_send_file_delivers [OF fc _ d _ _ t(1) t(1) _ r, of "''25''" 1 "''/a.txt''" WouldBlock] t n r1(1) s by auto
  then show ?thesis using s unfolding t_def st_def fs_def r_def by (auto simp: seg_def)
qed

text \<open>
  A descriptor is lost when the first \<^verbatim>\<open>sendfile\<close> fails: the request is reported as finished
  with the file still open and not recorded anywhere.
\<close>

theorem http_send_file_leak:
  assumes "file_case fs filepath hdrs st code off lst" "code \<noteq> 304"
    "file_request kt code off lst st now expires path r = Some r1" "\<not> o_fd r1"
    "o_total r1 \<le> int n"
  shows "\<exists>r'. http_send_file kt (Done n) Failed now expires fs path filepath hdrs r = Some (True, True, r') \<and> \<not> o_fd r'"
  using assms(2,4,5) unfolding http_send_file_eq [OF assms(1,3)] by (simp add: http_send_def)

theorem http_send_file_leak_witness:
  "\<exists>r'. http_send_file ''25'' (Done 100000) Failed
       \<lparr>tm_wday = 4, tm_mday = 1, tm_mon = 0, tm_year = 70, tm_hour = 0, tm_min = 0, tm_sec = 0\<rparr>
       \<lparr>tm_wday = 4, tm_mday = 1, tm_mon = 0, tm_year = 70, tm_hour = 0, tm_min = 0, tm_sec = 0\<rparr>
       (\<lambda>p. Inr (Some \<lparr>st_reg = True, st_size = 5, st_mtime =
          \<lparr>tm_wday = 4, tm_mday = 1, tm_mon = 0, tm_year = 70, tm_hour = 0, tm_min = 0, tm_sec = 0\<rparr>\<rparr>))
       ''/a.txt'' ''a.txt'' []
       \<lparr>o_vec = [], o_total = 0, o_pvec = None, o_epollout = False, o_keepalive = False, o_content_length = 0,
        o_type = [], o_type_len = 0, o_fd = False, o_offset = 0, o_last = 0\<rparr> = Some (True, True, r') \<and> \<not> o_fd r'"
proof -
  define t where "t = \<lparr>tm_wday = 4, tm_mday = 1, tm_mon = 0, tm_year = 70, tm_hour = 0, tm_min = 0, tm_sec = 0\<rparr>"
  define st where "st = \<lparr>st_reg = True, st_size = 5, st_mtime = t\<rparr>"
  define r :: out_req where "r = \<lparr>o_vec = [], o_total = 0, o_pvec = None, o_epollout = False, o_keepalive = False, o_content_length = 0,
        o_type = [], o_type_len = 0, o_fd = False, o_offset = 0, o_last = 0\<rparr>"
  have t: "tm_ok t" "st_mtime st = t" by (simp_all add: tm_ok_def t_def st_def)
  have fc: "file_case (\<lambda>p. Inr (Some st)) ''a.txt'' [] st 200 0 5" by (simp add: file_case_def st_def)
  have d: "st_size st = int (length ''hello'')" "''hello'' \<noteq> []" "length ''hello'' < 2 ^ 63" by (simp_all add: st_def)
  have r: "o_vec r = []" "o_total r = 0" "\<not> o_fd r" by (simp_all add: r_def)
  obtain r1 s where r1: "file_request ''25'' 200 0 5 st t t ''/a.txt'' r = Some r1" "o_fd r1 = o_fd r"
     "o_total r1 = int (length (out_text r1))" "out_text r1 = file_head_text ''25'' 200 st t t (r\<lparr>o_type := s, o_offset := 0, o_last := 5\<rparr>)"
     "ready ''hello'' (r1\<lparr>o_fd := True, o_epollout := True\<rparr>)"
    using file_request_ready [OF fc d _ _ t(1) t(1) _ r(1,2), of "''25''" "''/a.txt''"] t by auto
  obtain s' where s': "http_set_mime_type ''/a.txt'' r = Some (r\<lparr>o_type := s', o_type_len := length s'\<rparr>)" "length s' \<le> 29"
    using http_set_mime_type_ok by blast
  have "out_text r1 = file_head_text ''25'' 200 st t t (r\<lparr>o_type := s', o_type_len := length s', o_offset := 0, o_last := 5\<rparr>)"
    using file_head_ok [of 200 st t t "r\<lparr>o_type := s', o_type_len := length s', o_offset := 0, o_last := 5\<rparr>" "''25''"]
      t r r1(1) s' by (auto simp: file_request_def)
  then have "length (out_text r1) < 2000" using t s' by (simp add: length_file_head)
  then show ?thesis
    using http_send_file_leak [OF fc _ r1(1), of 100000] r r1(2,3) unfolding t_def st_def r_def by simp
qed

text \<open>
  A date of the response takes 29 characters and a terminator, one more than the 29 bytes the
  request reserves for the \<^verbatim>\<open>Expires\<close> date (93 bytes of which 64 belong to \<^verbatim>\<open>Content-Range\<close>).
\<close>

theorem expires_overflow:
  assumes "tm_ok t"
  shows "length (http_rfc822_date t) + 1 = (93 - 64) + 1"
  using length_rfc822_date [OF assms] by simp

theorem expires_overflow_witness:
  "length (http_rfc822_date \<lparr>tm_wday = 4, tm_mday = 1, tm_mon = 0, tm_year = 70, tm_hour = 0, tm_min = 0, tm_sec = 0\<rparr>) + 1 = 30"
  using expires_overflow [of "\<lparr>tm_wday = 4, tm_mday = 1, tm_mon = 0, tm_year = 70, tm_hour = 0, tm_min = 0, tm_sec = 0\<rparr>"]
  by (simp add: tm_ok_def)

end
