(* ===== verification/Http_Post.thy ===== *)
theory Http_Post
  imports Http_Url Http_Headers
begin

text \<open>
  \<^verbatim>\<open>http_parse_post\<close> of \<^verbatim>\<open>core_http.c\<close>: the fields and files of a POST body.  A form in URL encoding is parsed
  like a query string; a multipart form is parsed in place: \<open>m\<close> is the memory that begins with the body,
  \<open>c\<close> an offset in it.  Texts are pairs of an offset and a length.  A loop gives \<^term>\<open>None\<close> if it leaves the
  memory (or does not end), a flag \<^term>\<open>False\<close> if it meets a terminator, at which the function returns.
\<close>

section \<open>The loops\<close>

text \<open>To the next line end.\<close>

partial_function (option) to_crlf :: "mem \<Rightarrow> nat \<Rightarrow> (bool \<times> nat) option" where
  "to_crlf m c =
     do { a \<leftarrow> rd m c;
          nl \<leftarrow> (if a = CR then map_option (\<lambda>b. b = LF) (rd m (c + 1)) else Some False);
          if nl then Some (True, c)
          else if a = NUL then Some (False, c)
          else to_crlf m (c + 1) }"

text \<open>The name of a header, in lower case, up to its colon.\<close>

partial_function (option) name_to_colon :: "mem \<Rightarrow> nat \<Rightarrow> (bool \<times> mem \<times> nat) option" where
  "name_to_colon m c =
     do { a \<leftarrow> rd m c;
          if a = CHR '':'' then Some (True, m, c)
          else if a = NUL then Some (False, m, c)
          else name_to_colon (m[c := TO_LOWER a]) (c + 1) }"

partial_function (option) skip_blanks :: "mem \<Rightarrow> nat \<Rightarrow> nat option" where
  "skip_blanks m c = do { a \<leftarrow> rd m c; if a = CHR '' '' then skip_blanks m (c + 1) else Some c }"

partial_function (option) to_quote :: "mem \<Rightarrow> nat \<Rightarrow> (bool \<times> nat) option" where
  "to_quote m c =
     do { a \<leftarrow> rd m c;
          if a = CHR 0x22 \<or> a = CHR ''&'' then Some (True, c)
          else if a = NUL then Some (False, c)
          else to_quote m (c + 1) }"

type_synonym span = "nat \<times> nat"

text \<open>A quoted value behind an equals sign: it is terminated in place.\<close>

definition quoted :: "mem \<Rightarrow> nat \<Rightarrow> (bool \<times> mem \<times> nat \<times> span) option" where
  "quoted m c =
     do { a \<leftarrow> rd m c;
          let s = (if a = CHR 0x22 then c + 1 else c);
          (ok, e) \<leftarrow> to_quote m s;
          if ok then Some (True, m[e := NUL], e, (s, e - s)) else Some (False, m, e, (s, 0)) }"

text \<open>The parameters of \<^verbatim>\<open>Content-Disposition\<close>.\<close>

partial_function (option) disposition ::
  "mem \<Rightarrow> nat \<Rightarrow> span option \<Rightarrow> span option \<Rightarrow> (bool \<times> mem \<times> nat \<times> span option \<times> span option) option" where
  "disposition m c name filename =
     do { a \<leftarrow> rd m c;
          nl \<leftarrow> (if a = CR then map_option (\<lambda>b. b = LF) (rd m (c + 1)) else Some False);
          if nl then Some (True, m, c, name, filename)
          else if a = NUL then Some (False, m, c, name, filename)
          else do {
            n \<leftarrow> matches_at m c '' name='';
            if n then do { (ok, m, e, s) \<leftarrow> quoted m (c + 6);
                           if ok then disposition m (e + 1) (Some s) filename else Some (False, m, e, name, filename) }
            else do {
              f \<leftarrow> matches_at m c '' filename='';
              if f then do { (ok, m, e, s) \<leftarrow> quoted m (c + 10);
                             if ok then disposition m (e + 1) name (Some s) else Some (False, m, e, name, filename) }
              else disposition m (c + 1) name filename } } }"

record part_head =
  ph_name :: "span option"
  ph_filename :: "span option"
  ph_type :: "span option"

text \<open>The headers of a part, up to its empty line.\<close>

partial_function (option) part_headers :: "mem \<Rightarrow> nat \<Rightarrow> part_head \<Rightarrow> (bool \<times> mem \<times> nat \<times> part_head) option" where
  "part_headers m c h =
     do { a \<leftarrow> rd m c;
          nl \<leftarrow> (if a = CR then map_option (\<lambda>b. b = LF) (rd m (c + 1)) else Some False);
          if nl then Some (True, m, c, h)
          else do {
            (ok, m, e) \<leftarrow> name_to_colon m c;
            if \<not> ok then Some (False, m, e, h)
            else do {
              let m = m[e := NUL];
              let key = seg m c e;
              v \<leftarrow> skip_blanks m (e + 1);
              if key = ''content-disposition'' then
                do { (ok, m, e, name, filename) \<leftarrow> disposition m v (ph_name h) (ph_filename h);
                     let h = h\<lparr>ph_name := name, ph_filename := filename\<rparr>;
                     if ok then part_headers m (e + 2) h else Some (False, m, e, h) }
              else
                do { (ok, e) \<leftarrow> to_crlf m v;
                     if \<not> ok then Some (False, m, e, h)
                     else if key = ''content-type'' then part_headers (m[e := NUL]) (e + 2) (h\<lparr>ph_type := Some (v, e - v)\<rparr>)
                     else part_headers m (e + 2) h } } } }"

text \<open>The end of the data of a part: a line end and two dashes, in a body of \<open>len\<close> bytes.\<close>

partial_function (option) data_end :: "mem \<Rightarrow> nat \<Rightarrow> nat \<Rightarrow> (bool \<times> nat) option" where
  "data_end m len c =
     (if c + 4 > len then Some (False, c)
      else do { e \<leftarrow> matches_at m c [CR, LF, CHR ''-'', CHR ''-''];
                if e then Some (True, c) else data_end m len (c + 1) })"

record post_arg_t =
  pa_key :: span
  pa_value :: span

record post_file_t =
  pf_data :: span
  pf_key :: span
  pf_name :: span
  pf_type :: "span option"

text \<open>
  The loop over the parts.  A file without a type (\<^term>\<open>None\<close>) has the type \<^verbatim>\<open>application/octet-stream\<close>.
\<close>

partial_function (option) parse_parts ::
  "mem \<Rightarrow> nat \<Rightarrow> nat \<Rightarrow> post_arg_t list \<Rightarrow> post_file_t list \<Rightarrow> (mem \<times> post_arg_t list \<times> post_file_t list) option" where
  "parse_parts m len c args files =
     do { (ok, c) \<leftarrow> to_crlf m c;
          if \<not> ok then Some (m, args, files)
          else do {
            a \<leftarrow> rd m (c + 2);
            if a = NUL then Some (m, args, files)
            else do {
              (ok, m, c, h) \<leftarrow> part_headers m (c + 2) \<lparr>ph_name = None, ph_filename = None, ph_type = None\<rparr>;
              if \<not> ok then Some (m, args, files)
              else (case ph_name h of
                 None \<Rightarrow> parse_parts m len (c + 2) args files
               | Some name \<Rightarrow>
                   do { (ok, e) \<leftarrow> data_end m len (c + 2);
                        if \<not> ok then Some (m, args, files)
                        else (case ph_filename h of
                           Some filename \<Rightarrow>
                             parse_parts (m[e := NUL]) len (e + 2) args
                               (files @ [\<lparr>pf_data = (c + 2, e - (c + 2)), pf_key = name, pf_name = filename, pf_type = ph_type h\<rparr>])
                         | None \<Rightarrow>
                             parse_parts (m[e := NUL]) len (e + 2)
                               (args @ [\<lparr>pa_key = name, pa_value = (c + 2, e - (c + 2))\<rparr>]) files) }) } } }"

definition http_parse_multipart :: "mem \<Rightarrow> nat \<Rightarrow> (mem \<times> post_arg_t list \<times> post_file_t list) option" where
  "http_parse_multipart m len = (if len < 12 then Some (m, [], []) else parse_parts m len 0 [] [])"

declare to_crlf.simps [code] name_to_colon.simps [code] skip_blanks.simps [code] to_quote.simps [code] disposition.simps [code]
  part_headers.simps [code] data_end.simps [code] parse_parts.simps [code]


definition HTTP_POST_VALS_BUFFER_RESERVED_SIZE :: nat where
  "HTTP_POST_VALS_BUFFER_RESERVED_SIZE = 16384"

datatype post_result = Url_Args url_args | Form "post_arg_t list" "post_file_t list"

definition http_parse_post :: "bool \<Rightarrow> mem \<Rightarrow> nat \<Rightarrow> url_args \<Rightarrow> (mem \<times> post_result) option" where
  "http_parse_post urlenc m len args =
     (if urlenc then map_option (\<lambda>a. (a_raw a, Url_Args a)) (http_parse_args CHR ''&'' HTTP_POST_VALS_BUFFER_RESERVED_SIZE m args)
      else map_option (\<lambda>(m, as, fs). (m, Form as fs)) (http_parse_multipart m len))"

section \<open>The parser stays inside the body\<close>

text \<open>A body of \<open>len\<close> bytes and its terminator, and a place in it.\<close>

definition in_body :: "nat \<Rightarrow> mem \<Rightarrow> nat \<Rightarrow> bool" where
  "in_body len m c \<longleftrightarrow> len < length m \<and> m ! len = NUL \<and> c \<le> len"

text \<open>Nothing was written in front of \<open>c\<close> and behind the body.\<close>

definition same_outside :: "nat \<Rightarrow> nat \<Rightarrow> mem \<Rightarrow> mem \<Rightarrow> bool" where
  "same_outside c len m m' \<longleftrightarrow> length m' = length m \<and> (\<forall>j. j < c \<or> len \<le> j \<longrightarrow> m' ! j = m ! j)"

lemma same_outside_refl [simp]: "same_outside c len m m"
  by (simp add: same_outside_def)

lemma same_outside_trans: "same_outside c len m m' \<Longrightarrow> same_outside e len m' m'' \<Longrightarrow> c \<le> e \<Longrightarrow> same_outside c len m m''"
  by (auto simp: same_outside_def)

lemma same_outside_update: "c \<le> i \<Longrightarrow> i < len \<Longrightarrow> same_outside c len m (m[i := x])"
  by (auto simp: same_outside_def)

lemma in_body_same: "in_body len m c \<Longrightarrow> same_outside c' len m m' \<Longrightarrow> e \<le> len \<Longrightarrow> in_body len m' e"
  by (auto simp: in_body_def same_outside_def)

lemma in_body_le: "in_body len m c \<Longrightarrow> e \<le> len \<Longrightarrow> in_body len m e"
  by (simp add: in_body_def)

lemma in_body_rd: "in_body len m c \<Longrightarrow> rd m c = Some (m ! c)"
  by (simp add: in_body_def)

lemma in_body_step: "in_body len m c \<Longrightarrow> m ! c \<noteq> NUL \<Longrightarrow> c < len \<and> in_body len m (c + 1)"
  by (cases "c = len") (auto simp: in_body_def)

lemma in_body_two: "in_body len m c \<Longrightarrow> m ! c \<noteq> NUL \<Longrightarrow> m ! (c + 1) \<noteq> NUL \<Longrightarrow> c + 2 \<le> len"
  using in_body_step [of len m c] in_body_step [of len m "c + 1"] by auto

text \<open>The test for a line end.\<close>

definition at_crlf :: "mem \<Rightarrow> nat \<Rightarrow> bool" where
  "at_crlf m c \<longleftrightarrow> m ! c = CR \<and> m ! (c + 1) = LF"

lemma crlf_test:
  assumes "in_body len m c"
  shows "(if m ! c = CR then map_option (\<lambda>b. b = LF) (rd m (c + 1)) else Some False) = Some (at_crlf m c)"
proof (cases "m ! c = CR")
  case True
  then have "in_body len m (c + 1)" using in_body_step [OF assms] by simp
  then show ?thesis using True in_body_rd by (simp add: at_crlf_def)
qed (simp add: at_crlf_def)

lemma at_crlf_end: "in_body len m c \<Longrightarrow> at_crlf m c \<Longrightarrow> c + 2 \<le> len"
  using in_body_two [of len m c] by (simp add: at_crlf_def)

lemma to_crlf_step:
  assumes "in_body len m c"
  shows "to_crlf m c = (if at_crlf m c then Some (True, c) else if m ! c = NUL then Some (False, c) else to_crlf m (c + 1))"
  by (subst to_crlf.simps) (simp add: in_body_rd [OF assms] crlf_test [OF assms])

lemma to_crlf_ok:
  assumes "in_body len m c"
  shows "\<exists>ok e. to_crlf m c = Some (ok, e) \<and> c \<le> e \<and> e \<le> len \<and> (ok \<longrightarrow> e + 2 \<le> len)"
  using assms
proof (induction "len - c" arbitrary: c rule: less_induct)
  case less
  show ?case
  proof (cases "at_crlf m c \<or> m ! c = NUL")
    case True
    then show ?thesis using to_crlf_step [OF less.prems] at_crlf_end [OF less.prems] less.prems by (auto simp: in_body_def)
  next
    case False
    then have s: "c < len" "in_body len m (c + 1)" using in_body_step [OF less.prems] by auto
    have dec: "len - (c + 1) < len - c" using s(1) by simp
    show ?thesis using less.hyps [OF dec s(2)] False to_crlf_step [OF less.prems] by fastforce
  qed
qed

lemma name_to_colon_ok:
  assumes "in_body len m c"
  shows "\<exists>ok m' e. name_to_colon m c = Some (ok, m', e) \<and> c \<le> e \<and> e \<le> len \<and> same_outside c len m m' \<and> (ok \<longrightarrow> e < len)"
  using assms
proof (induction "len - c" arbitrary: c m rule: less_induct)
  case less
  have rd: "rd m c = Some (m ! c)" by (rule in_body_rd [OF less.prems])
  show ?case
  proof (cases "m ! c = CHR '':'' \<or> m ! c = NUL")
    case True
    then show ?thesis using rd less.prems in_body_step [OF less.prems]
      by (subst name_to_colon.simps) (auto simp: in_body_def)
  next
    case False
    then have s: "c < len" "in_body len m (c + 1)" using in_body_step [OF less.prems] by auto
    have dec: "len - (c + 1) < len - c" using s(1) by simp
    let ?m = "m[c := TO_LOWER (m ! c)]"
    have so: "same_outside c len m ?m" using s(1) by (intro same_outside_update) simp_all
    have "in_body len ?m (c + 1)" using in_body_same [OF less.prems so] s(1) by simp
    then obtain ok m' e where r: "name_to_colon ?m (c + 1) = Some (ok, m', e)" "c + 1 \<le> e" "e \<le> len" "same_outside (c + 1) len ?m m'" "ok \<longrightarrow> e < len"
      using less.hyps [OF dec] by blast
    have "same_outside c len m m'" using same_outside_trans [OF so r(4)] by simp
    then show ?thesis using r rd False by (subst name_to_colon.simps) auto
  qed
qed

lemma skip_blanks_ok:
  assumes "in_body len m c"
  shows "\<exists>e. skip_blanks m c = Some e \<and> c \<le> e \<and> e \<le> len"
  using assms
proof (induction "len - c" arbitrary: c rule: less_induct)
  case less
  show ?case
  proof (cases "m ! c = CHR '' ''")
    case True
    then have s: "c < len" "in_body len m (c + 1)" using in_body_step [OF less.prems] by auto
    have dec: "len - (c + 1) < len - c" using s(1) by simp
    obtain e where "skip_blanks m (c + 1) = Some e" "c + 1 \<le> e" "e \<le> len" using less.hyps [OF dec s(2)] by blast
    then show ?thesis using True in_body_rd [OF less.prems] by (subst skip_blanks.simps) auto
  next
    case False
    then show ?thesis using in_body_rd [OF less.prems] less.prems by (subst skip_blanks.simps) (auto simp: in_body_def)
  qed
qed

lemma to_quote_ok:
  assumes "in_body len m c"
  shows "\<exists>ok e. to_quote m c = Some (ok, e) \<and> c \<le> e \<and> e \<le> len \<and> (ok \<longrightarrow> e < len)"
  using assms
proof (induction "len - c" arbitrary: c rule: less_induct)
  case less
  have rd: "rd m c = Some (m ! c)" by (rule in_body_rd [OF less.prems])
  show ?case
  proof (cases "m ! c = CHR 0x22 \<or> m ! c = CHR ''&'' \<or> m ! c = NUL")
    case True
    then show ?thesis using rd less.prems in_body_step [OF less.prems] by (subst to_quote.simps) (auto simp: in_body_def)
  next
    case False
    then have s: "c < len" "in_body len m (c + 1)" using in_body_step [OF less.prems] by auto
    have dec: "len - (c + 1) < len - c" using s(1) by simp
    obtain ok e where "to_quote m (c + 1) = Some (ok, e)" "c + 1 \<le> e" "e \<le> len" "ok \<longrightarrow> e < len" using less.hyps [OF dec s(2)] by blast
    then show ?thesis using False rd by (subst to_quote.simps) auto
  qed
qed


text \<open>A text in front of \<open>c\<close>, with its terminator.\<close>

definition span_ok :: "mem \<Rightarrow> nat \<Rightarrow> span \<Rightarrow> bool" where
  "span_ok m c s \<longleftrightarrow> fst s + snd s < c \<and> m ! (fst s + snd s) = NUL"

definition span_opt :: "mem \<Rightarrow> nat \<Rightarrow> span option \<Rightarrow> bool" where
  "span_opt m c x \<longleftrightarrow> (\<forall>s. x = Some s \<longrightarrow> span_ok m c s)"

lemma span_ok_same: "span_ok m c s \<Longrightarrow> same_outside c len m m' \<Longrightarrow> c \<le> e \<Longrightarrow> span_ok m' e s"
  by (auto simp: span_ok_def same_outside_def)

lemma span_opt_simps [simp]: "span_opt m c None" "span_opt m c (Some s) \<longleftrightarrow> span_ok m c s"
  by (auto simp: span_opt_def)

lemma span_opt_same: "span_opt m c x \<Longrightarrow> same_outside c len m m' \<Longrightarrow> c \<le> e \<Longrightarrow> span_opt m' e x"
  by (cases x) (auto intro: span_ok_same)

lemma quoted_ok:
  assumes "in_body len m c"
  shows "\<exists>ok m' e s. quoted m c = Some (ok, m', e, s) \<and> c \<le> e \<and> e \<le> len \<and> same_outside c len m m' \<and>
     (ok \<longrightarrow> e < len \<and> span_ok m' (e + 1) s)"
proof -
  let ?s = "if m ! c = CHR 0x22 then c + 1 else c"
  have s: "in_body len m ?s" "c \<le> ?s" using in_body_step [OF assms] assms by auto
  obtain ok e where q: "to_quote m ?s = Some (ok, e)" "?s \<le> e" "e \<le> len" "ok \<longrightarrow> e < len" using to_quote_ok [OF s(1)] by blast
  have eq: "quoted m c = Some (if ok then (True, m[e := NUL], e, (?s, e - ?s)) else (False, m, e, (?s, 0)))"
    using in_body_rd [OF assms] q(1) by (simp add: quoted_def Let_def)
  show ?thesis
  proof (cases ok)
    case True
    have "same_outside c len m (m[e := NUL])" using q s(2) True by (intro same_outside_update) auto
    moreover have "span_ok (m[e := NUL]) (e + 1) (?s, e - ?s)" using q True assms by (auto simp: span_ok_def in_body_def)
    moreover have "c \<le> e" using q(2) s(2) by simp
    ultimately show ?thesis using eq True q by auto
  next
    case False
    then show ?thesis using eq q s(2) by (auto intro!: order_trans [OF s(2) q(2)])
  qed
qed

definition disp_good :: "nat \<Rightarrow> mem \<Rightarrow> nat \<Rightarrow> (bool \<times> mem \<times> nat \<times> span option \<times> span option) option \<Rightarrow> bool" where
  "disp_good len m c r \<longleftrightarrow> (\<exists>ok m' e n f. r = Some (ok, m', e, n, f) \<and> c \<le> e \<and> e \<le> len \<and> same_outside c len m m' \<and>
     (ok \<longrightarrow> e + 2 \<le> len \<and> span_opt m' e n \<and> span_opt m' e f))"

lemma disp_good_later:
  assumes "disp_good len m' c' r" "same_outside c len m m'" "c \<le> c'"
  shows "disp_good len m c r"
  using assms same_outside_trans [of c len m m' c'] by (fastforce simp: disp_good_def)

lemma disposition_step:
  assumes "in_body len m c"
  shows "disposition m c name filename =
    (if at_crlf m c then Some (True, m, c, name, filename)
     else if m ! c = NUL then Some (False, m, c, name, filename)
     else do {
       n \<leftarrow> matches_at m c '' name='';
       if n then do { (ok, m, e, s) \<leftarrow> quoted m (c + 6);
                      if ok then disposition m (e + 1) (Some s) filename else Some (False, m, e, name, filename) }
       else do {
         f \<leftarrow> matches_at m c '' filename='';
         if f then do { (ok, m, e, s) \<leftarrow> quoted m (c + 10);
                        if ok then disposition m (e + 1) name (Some s) else Some (False, m, e, name, filename) }
         else disposition m (c + 1) name filename } })"
  by (subst disposition.simps) (simp add: in_body_rd [OF assms] crlf_test [OF assms])

lemma disposition_ok:
  assumes "in_body len m c" "span_opt m c name" "span_opt m c filename"
  shows "disp_good len m c (disposition m c name filename)"
  using assms
proof (induction "len - c" arbitrary: c m name filename rule: less_induct)
  case less
  note b = less.prems(1)
  have cl: "len < length m" "m ! len = NUL" "c \<le> len" using b by (auto simp: in_body_def)
  show ?case
  proof (cases "at_crlf m c \<or> m ! c = NUL")
    case True
    then show ?thesis using disposition_step [OF b] at_crlf_end [OF b] less.prems cl by (auto simp: disp_good_def)
  next
    case False
    then have lt: "c < len" "in_body len m (c + 1)" using in_body_step [OF b] by auto
    have quote: "\<exists>ok m' e s. quoted m (c + k) = Some (ok, m', e, s) \<and> c + k \<le> e \<and> e \<le> len \<and> same_outside c len m m' \<and>
        (ok \<longrightarrow> e < len \<and> in_body len m' (e + 1) \<and> span_ok m' (e + 1) s \<and> span_opt m' (e + 1) name \<and> span_opt m' (e + 1) filename)"
      if k: "c + k \<le> len" for k
    proof -
      obtain ok m' e s where q: "quoted m (c + k) = Some (ok, m', e, s)" "c + k \<le> e" "e \<le> len" "same_outside (c + k) len m m'"
          "ok \<longrightarrow> e < len \<and> span_ok m' (e + 1) s" using quoted_ok [OF in_body_le [OF b k]] by blast
      have so: "same_outside c len m m'" using same_outside_trans [OF same_outside_refl q(4)] by simp
      have "span_opt m' (e + 1) name" "span_opt m' (e + 1) filename" using less.prems(2,3) so q(2) by (auto intro: span_opt_same)
      then show ?thesis using q so in_body_same [OF b so] by auto
    qed
    obtain n where n: "matches_at m c '' name='' = Some n" "n \<longrightarrow> c + 6 \<le> len"
      using matches_at_inside [of c len m "'' name=''"] cl by auto
    obtain f where f: "matches_at m c '' filename='' = Some f" "f \<longrightarrow> c + 10 \<le> len"
      using matches_at_inside [of c len m "'' filename=''"] cl by auto
    show ?thesis
    proof (cases n)
      case True
      then obtain ok m' e s where q: "quoted m (c + 6) = Some (ok, m', e, s)" "c + 6 \<le> e" "e \<le> len" "same_outside c len m m'"
        "ok \<longrightarrow> e < len \<and> in_body len m' (e + 1) \<and> span_ok m' (e + 1) s \<and> span_opt m' (e + 1) name \<and> span_opt m' (e + 1) filename"
        using quote [of 6] n(2) by blast
      have "disp_good len m c (disposition m' (e + 1) (Some s) filename)" if ok
      proof -
        have "len - (e + 1) < len - c" "in_body len m' (e + 1)" "span_opt m' (e + 1) (Some s)" "span_opt m' (e + 1) filename" using q that lt(1) by auto
        from disp_good_later [OF less.hyps [OF this] q(4)] show ?thesis using q(2) by simp
      qed
      then show ?thesis using disposition_step [OF b, of name filename] False n True q by (auto simp: disp_good_def [of len m c "Some _"])
    next
      case nf: False
      show ?thesis
      proof (cases f)
        case True
        then obtain ok m' e s where q: "quoted m (c + 10) = Some (ok, m', e, s)" "c + 10 \<le> e" "e \<le> len" "same_outside c len m m'"
          "ok \<longrightarrow> e < len \<and> in_body len m' (e + 1) \<and> span_ok m' (e + 1) s \<and> span_opt m' (e + 1) name \<and> span_opt m' (e + 1) filename"
          using quote [of 10] f(2) by blast
        have "disp_good len m c (disposition m' (e + 1) name (Some s))" if ok
        proof -
          have "len - (e + 1) < len - c" "in_body len m' (e + 1)" "span_opt m' (e + 1) name" "span_opt m' (e + 1) (Some s)" using q that lt(1) by auto
          from disp_good_later [OF less.hyps [OF this] q(4)] show ?thesis using q(2) by simp
        qed
        then show ?thesis using disposition_step [OF b, of name filename] False n nf f True q by (auto simp: disp_good_def [of len m c "Some _"])
      next
        case ff: False
        have dec: "len - (c + 1) < len - c" using lt(1) by simp
        have "disp_good len m (c + 1) (disposition m (c + 1) name filename)"
          using less.prems(2,3) by (intro less.hyps [OF dec lt(2)]) (auto intro: span_opt_same [OF _ same_outside_refl])
        then have "disp_good len m c (disposition m (c + 1) name filename)" by (rule disp_good_later) simp_all
        then show ?thesis using disposition_step [OF b, of name filename] False n nf f ff by simp
      qed
    qed
  qed
qed


definition head_ok :: "mem \<Rightarrow> nat \<Rightarrow> part_head \<Rightarrow> bool" where
  "head_ok m c h \<longleftrightarrow> span_opt m c (ph_name h) \<and> span_opt m c (ph_filename h) \<and> span_opt m c (ph_type h)"

lemma head_ok_same: "head_ok m c h \<Longrightarrow> same_outside c len m m' \<Longrightarrow> c \<le> e \<Longrightarrow> head_ok m' e h"
  by (auto simp: head_ok_def intro: span_opt_same)

definition heads_good :: "nat \<Rightarrow> mem \<Rightarrow> nat \<Rightarrow> (bool \<times> mem \<times> nat \<times> part_head) option \<Rightarrow> bool" where
  "heads_good len m c r \<longleftrightarrow> (\<exists>ok m' e h. r = Some (ok, m', e, h) \<and> c \<le> e \<and> e \<le> len \<and> same_outside c len m m' \<and>
     (ok \<longrightarrow> e + 2 \<le> len \<and> head_ok m' e h))"

lemma heads_good_later:
  assumes "heads_good len m' c' r" "same_outside c len m m'" "c \<le> c'"
  shows "heads_good len m c r"
  using assms same_outside_trans [of c len m m' c'] by (fastforce simp: heads_good_def)

lemma heads_good_stop: "c \<le> e \<Longrightarrow> e \<le> len \<Longrightarrow> same_outside c len m m' \<Longrightarrow> heads_good len m c (Some (False, m', e, h))"
  by (auto simp: heads_good_def)

lemma part_headers_ok:
  assumes "in_body len m c" "head_ok m c h"
  shows "heads_good len m c (part_headers m c h)"
  using assms
proof (induction "len - c" arbitrary: c m h rule: less_induct)
  case less
  note b = less.prems(1)
  show ?case
  proof (cases "at_crlf m c")
    case True
    then show ?thesis using at_crlf_end [OF b True] less.prems
      by (subst part_headers.simps) (auto simp: in_body_rd [OF b] crlf_test [OF b] heads_good_def in_body_def)
  next
    case False
    obtain ok m1 e1 where k: "name_to_colon m c = Some (ok, m1, e1)" "c \<le> e1" "e1 \<le> len" "same_outside c len m m1" "ok \<longrightarrow> e1 < len"
      using name_to_colon_ok [OF b] by blast
    let ?m2 = "m1[e1 := NUL]"
    show ?thesis
    proof (cases ok)
      case notok: False
      then show ?thesis using k False
        by (subst part_headers.simps) (simp add: in_body_rd [OF b] crlf_test [OF b] heads_good_stop)
    next
      case ok: True
      have s2: "same_outside c len m ?m2"
        using k ok by (intro same_outside_trans [OF k(4) same_outside_update [OF order_refl]]) auto
      have b2: "in_body len ?m2 (e1 + 1)" using in_body_same [OF b s2] k ok by simp
      obtain v where v: "skip_blanks ?m2 (e1 + 1) = Some v" "e1 + 1 \<le> v" "v \<le> len" using skip_blanks_ok [OF b2] by blast
      have b3: "in_body len ?m2 v" "c < v" using in_body_le [OF b2 v(3)] v k by auto
      have h3: "head_ok ?m2 v h" using head_ok_same [OF less.prems(2) s2] b3 by simp
      have ih: "heads_good len m c (part_headers m' (e + 2) h')" if "c \<le> e" "e + 2 \<le> len" "same_outside c len m m'" "head_ok m' (e + 2) h'" for m' e h'
      proof -
        have "len - (e + 2) < len - c" "in_body len m' (e + 2)" using that in_body_same [OF b that(3)] by auto
        from heads_good_later [OF less.hyps [OF this that(4)] that(3)] show ?thesis using that(1) by simp
      qed
      have v': "skip_blanks ?m2 (Suc e1) = Some v" using v(1) by simp
      note unfold = part_headers.simps [of m c h] in_body_rd [OF b] crlf_test [OF b] k(1) v'
      show ?thesis
      proof (cases "seg ?m2 c e1 = ''content-disposition''")
        case True
        obtain ok2 m3 e2 n f where d: "disposition ?m2 v (ph_name h) (ph_filename h) = Some (ok2, m3, e2, n, f)" "v \<le> e2" "e2 \<le> len"
            "same_outside v len ?m2 m3" "ok2 \<longrightarrow> e2 + 2 \<le> len \<and> span_opt m3 e2 n \<and> span_opt m3 e2 f"
          using disposition_ok [OF b3(1)] h3 unfolding head_ok_def disp_good_def by blast
        have s3: "same_outside c len m m3" using same_outside_trans [OF s2 d(4)] b3 by simp
        have "head_ok m3 (e2 + 2) (h\<lparr>ph_name := n, ph_filename := f\<rparr>)" if ok2
          using d that h3 span_opt_same [OF _ same_outside_refl, of m3 e2 _ "e2 + 2"] span_opt_same [OF _ d(4), of "ph_type h" "e2 + 2"]
          by (simp add: head_ok_def)
        then have "ok2 \<Longrightarrow> heads_good len m c (part_headers m3 (e2 + 2) (h\<lparr>ph_name := n, ph_filename := f\<rparr>))"
          using d s3 b3(2) by (intro ih) auto
        then show ?thesis using d s3 b3(2) True False ok by (simp add: unfold Let_def heads_good_stop)
      next
        case nd: False
        obtain ok2 e2 where d: "to_crlf ?m2 v = Some (ok2, e2)" "v \<le> e2" "e2 \<le> len" "ok2 \<longrightarrow> e2 + 2 \<le> len"
          using to_crlf_ok [OF b3(1)] by blast
        let ?m3 = "?m2[e2 := NUL]"
        have s3: "same_outside c len m ?m3" "same_outside v len ?m2 ?m3" if ok2
          using same_outside_trans [OF s2 same_outside_update [OF d(2), of len ?m2 NUL]] same_outside_update [OF d(2), of len ?m2 NUL] d that b3 by auto
        have "head_ok ?m3 (e2 + 2) (h\<lparr>ph_type := Some (v, e2 - v)\<rparr>)" if ok2
        proof -
          have "head_ok ?m3 (e2 + 2) h" using head_ok_same [OF h3 s3(2) [OF that]] d(2) by simp
          moreover have "span_ok ?m3 (e2 + 2) (v, e2 - v)" using d that b3 by (auto simp: span_ok_def in_body_def)
          ultimately show ?thesis by (simp add: head_ok_def)
        qed
        then have t: "ok2 \<Longrightarrow> heads_good len m c (part_headers ?m3 (e2 + 2) (h\<lparr>ph_type := Some (v, e2 - v)\<rparr>))"
          using d s3 b3(2) by (intro ih) auto
        have o: "ok2 \<Longrightarrow> heads_good len m c (part_headers ?m2 (e2 + 2) h)"
          using d s2 b3(2) head_ok_same [OF h3 same_outside_refl, of "e2 + 2"] by (intro ih) auto
        show ?thesis using d s2 b3(2) nd False ok t o by (simp add: unfold Let_def heads_good_stop)
      qed
    qed
  qed
qed

lemma data_end_ok:
  assumes "len \<le> length m"
  shows "\<exists>ok e. data_end m len c = Some (ok, e) \<and> c \<le> e \<and> (ok \<longrightarrow> e + 4 \<le> len)"
proof (induction "len - c" arbitrary: c rule: less_induct)
  case less
  show ?case
  proof (cases "c + 4 > len")
    case True
    then show ?thesis by (subst data_end.simps) auto
  next
    case False
    then obtain b where b: "matches_at m c [CR, LF, CHR ''-'', CHR ''-''] = Some b"
      using matches_at_defined [of c "[CR, LF, CHR ''-'', CHR ''-'']" m] assms by auto
    have dec: "len - (c + 1) < len - c" using False by simp
    obtain ok e where "data_end m len (c + 1) = Some (ok, e)" "c + 1 \<le> e" "ok \<longrightarrow> e + 4 \<le> len" using less.hyps [OF dec] by blast
    then show ?thesis using False b by (subst data_end.simps) auto
  qed
qed


definition fields_ok :: "mem \<Rightarrow> nat \<Rightarrow> post_arg_t list \<Rightarrow> post_file_t list \<Rightarrow> bool" where
  "fields_ok m c args files \<longleftrightarrow> list_all (\<lambda>a. span_ok m c (pa_key a) \<and> span_ok m c (pa_value a)) args \<and>
     list_all (\<lambda>f. span_ok m c (pf_data f) \<and> span_ok m c (pf_key f) \<and> span_ok m c (pf_name f) \<and> span_opt m c (pf_type f)) files"

lemma fields_ok_same: "fields_ok m c args files \<Longrightarrow> same_outside c len m m' \<Longrightarrow> c \<le> e \<Longrightarrow> fields_ok m' e args files"
  by (auto simp: fields_ok_def list_all_iff intro: span_ok_same span_opt_same)

definition parts_good :: "nat \<Rightarrow> mem \<Rightarrow> nat \<Rightarrow> (mem \<times> post_arg_t list \<times> post_file_t list) option \<Rightarrow> bool" where
  "parts_good len m c r \<longleftrightarrow> (\<exists>m' args files. r = Some (m', args, files) \<and> same_outside c len m m' \<and> fields_ok m' len args files)"

lemma parts_good_later: "parts_good len m' c' r \<Longrightarrow> same_outside c len m m' \<Longrightarrow> c \<le> c' \<Longrightarrow> parts_good len m c r"
  using same_outside_trans [of c len m m' c'] by (fastforce simp: parts_good_def)

lemma parts_good_stop: "fields_ok m' c args files \<Longrightarrow> same_outside c len m m' \<Longrightarrow> c \<le> len \<Longrightarrow> parts_good len m c (Some (m', args, files))"
  using fields_ok_same [OF _ same_outside_refl, of m' c args files len] by (auto simp: parts_good_def)

lemma parse_parts_ok:
  assumes "in_body len m c" "fields_ok m c args files"
  shows "parts_good len m c (parse_parts m len c args files)"
  using assms
proof (induction "len - c" arbitrary: c m args files rule: less_induct)
  case less
  note b = less.prems(1)
  have c: "c \<le> len" "len \<le> length m" using b by (auto simp: in_body_def)
  let ?h0 = "\<lparr>ph_name = None, ph_filename = None, ph_type = None\<rparr>"
  obtain ok e where l: "to_crlf m c = Some (ok, e)" "c \<le> e" "e \<le> len" "ok \<longrightarrow> e + 2 \<le> len" using to_crlf_ok [OF b] by blast
  have stop: "parts_good len m c (Some (m', args, files))" if "same_outside c len m m'" for m'
    using parts_good_stop [OF fields_ok_same [OF less.prems(2) that order_refl] that c(1)] .
  show ?case
  proof (cases ok)
    case False
    then show ?thesis using l stop [OF same_outside_refl] by (subst parse_parts.simps) simp
  next
    case True
    have b2: "in_body len m (e + 2)" using in_body_le [OF b] l True by simp
    have r2: "rd m (Suc (Suc e)) = Some (m ! Suc (Suc e))" using in_body_rd [OF b2] by simp
    show ?thesis
    proof (cases "m ! (e + 2) = NUL")
      case nul: True
      then show ?thesis using l True stop [OF same_outside_refl] r2 by (subst parse_parts.simps) simp
    next
      case nn: False
      obtain ok2 m2 e2 h where p: "part_headers m (e + 2) ?h0 = Some (ok2, m2, e2, h)" "e + 2 \<le> e2" "e2 \<le> len" "same_outside (e + 2) len m m2"
          "ok2 \<longrightarrow> e2 + 2 \<le> len \<and> head_ok m2 e2 h"
        using part_headers_ok [OF b2, of ?h0] unfolding heads_good_def head_ok_def by auto
      have s2: "same_outside c len m m2" using same_outside_trans [OF same_outside_refl p(4)] l(2) by simp
      have f2: "fields_ok m2 k args files" if "c \<le> k" for k using fields_ok_same [OF less.prems(2) s2 that] .
      have ih: "parts_good len m c (parse_parts m' len k as fs)" if "same_outside c len m m'" "c < k" "k \<le> len" "fields_ok m' k as fs" for m' k as fs
      proof -
        have "len - k < len - c" "in_body len m' k" using that in_body_same [OF b that(1)] by auto
        from parts_good_later [OF less.hyps [OF this that(4)] that(1)] show ?thesis using that(2) by simp
      qed
      have p': "part_headers m (Suc (Suc e)) ?h0 = Some (ok2, m2, e2, h)" using p(1) by simp
      note unfold = parse_parts.simps [of m len c args files] l(1) r2 p'
      show ?thesis
      proof (cases "ok2 \<and> ph_name h \<noteq> None")
        case False
        have "ok2 \<Longrightarrow> parts_good len m c (parse_parts m2 len (e2 + 2) args files)" using p l s2 f2 by (intro ih) auto
        then show ?thesis using True nn False stop [OF s2] by (cases ok2; cases "ph_name h") (simp_all add: unfold)
      next
        case named: True
        then obtain name where n: "ph_name h = Some name" by auto
        have e2: "e2 + 2 \<le> len" "head_ok m2 e2 h" using p(5) named by auto
        obtain ok3 d where d: "data_end m2 len (e2 + 2) = Some (ok3, d)" "e2 + 2 \<le> d" "ok3 \<longrightarrow> d + 4 \<le> len"
        proof -
          have "len \<le> length m2" using c(2) s2 by (simp add: same_outside_def)
          from data_end_ok [OF this, of "e2 + 2"] show ?thesis using that by blast
        qed
        have d': "data_end m2 len (Suc (Suc e2)) = Some (ok3, d)" using d(1) by simp
        let ?m3 = "m2[d := NUL]"
        have s3: "same_outside e2 len m2 ?m3" "same_outside c len m ?m3" if ok3
          using same_outside_update [of e2 d len m2 NUL] same_outside_trans [OF s2, of e2 ?m3] d that p(2) l(2) by auto
        have v: "span_ok ?m3 (d + 2) (e2 + 2, d - (e2 + 2))" if ok3
        proof -
          have eq: "e2 + 2 + (d - (e2 + 2)) = d" using d(2) by simp
          have "d < length m2" using d(3) that c(2) s2 by (simp add: same_outside_def)
          then show ?thesis unfolding span_ok_def fst_conv snd_conv eq by simp
        qed
        have h3: "head_ok ?m3 (d + 2) h" "fields_ok ?m3 (d + 2) args files" if ok3
          using head_ok_same [OF e2(2) s3(1) [OF that], of "d + 2"] fields_ok_same [OF f2 s3(1) [OF that], of "d + 2"] d(2) p(2) l(2) by auto
        have "parts_good len m c (parse_parts ?m3 len (d + 2) as fs)" if ok3 "fields_ok ?m3 (d + 2) as fs" for as fs
          using s3 that d p(2) l(2) by (intro ih) auto
        then have "ok3 \<Longrightarrow> parts_good len m c (case ph_filename h of
              Some filename \<Rightarrow> parse_parts ?m3 len (d + 2) args
                (files @ [\<lparr>pf_data = (e2 + 2, d - (e2 + 2)), pf_key = name, pf_name = filename, pf_type = ph_type h\<rparr>])
            | None \<Rightarrow> parse_parts ?m3 len (d + 2) (args @ [\<lparr>pa_key = name, pa_value = (e2 + 2, d - (e2 + 2))\<rparr>]) files)"
          using v h3 n by (auto simp: fields_ok_def head_ok_def split: option.split)
        then show ?thesis using True nn named n d' stop [OF s2] by (simp add: unfold)
      qed
    qed
  qed
qed


section \<open>Forms are read back\<close>

text \<open>Steps of the loops on a memory that is given by its parts.\<close>

lemma to_crlf_text:
  "CR \<notin> set s \<Longrightarrow> NUL \<notin> set s \<Longrightarrow> to_crlf (pre @ s @ CR # LF # post) (length pre) = Some (True, length pre + length s)"
proof (induction s arbitrary: pre)
  case Nil
  then show ?case by (subst to_crlf.simps) (simp add: nth_append)
next
  case (Cons x s)
  have "to_crlf (pre @ (x # s) @ CR # LF # post) (length pre) = to_crlf ((pre @ [x]) @ s @ CR # LF # post) (length (pre @ [x]))"
    using Cons.prems by (subst to_crlf.simps) auto
  then show ?case using Cons.IH [of "pre @ [x]"] Cons.prems by simp
qed

lemma name_to_colon_text:
  "CHR '':'' \<notin> set s \<Longrightarrow> NUL \<notin> set s \<Longrightarrow> name_to_colon (pre @ s @ CHR '':'' # post) (length pre) =
     Some (True, pre @ map TO_LOWER s @ CHR '':'' # post, length pre + length s)"
proof (induction s arbitrary: pre)
  case Nil
  then show ?case by (subst name_to_colon.simps) simp
next
  case (Cons x s)
  have "name_to_colon (pre @ (x # s) @ CHR '':'' # post) (length pre) =
      name_to_colon ((pre @ [TO_LOWER x]) @ s @ CHR '':'' # post) (length (pre @ [TO_LOWER x]))"
    using Cons.prems by (subst name_to_colon.simps) (auto simp: list_update_append)
  then show ?case using Cons.IH [of "pre @ [TO_LOWER x]"] Cons.prems by simp
qed

lemma skip_blank_text: "x \<noteq> CHR '' '' \<Longrightarrow> skip_blanks (pre @ CHR '' '' # x # post) (length pre) = Some (Suc (length pre))"
  by (subst skip_blanks.simps, subst skip_blanks.simps) (simp add: nth_append)

lemma to_quote_text:
  "CHR 0x22 \<notin> set s \<Longrightarrow> CHR ''&'' \<notin> set s \<Longrightarrow> NUL \<notin> set s \<Longrightarrow>
   to_quote (pre @ s @ CHR 0x22 # post) (length pre) = Some (True, length pre + length s)"
proof (induction s arbitrary: pre)
  case Nil
  then show ?case by (subst to_quote.simps) simp
next
  case (Cons x s)
  have "to_quote (pre @ (x # s) @ CHR 0x22 # post) (length pre) = to_quote ((pre @ [x]) @ s @ CHR 0x22 # post) (length (pre @ [x]))"
    using Cons.prems by (subst to_quote.simps) auto
  then show ?case using Cons.IH [of "pre @ [x]"] Cons.prems by simp
qed

definition plain_name :: "string \<Rightarrow> bool" where
  "plain_name s \<longleftrightarrow> CHR 0x22 \<notin> set s \<and> CHR ''&'' \<notin> set s \<and> NUL \<notin> set s"

lemma quoted_text:
  assumes "plain_name s"
  shows "quoted (pre @ CHR 0x22 # s @ CHR 0x22 # post) (length pre) =
    Some (True, pre @ CHR 0x22 # s @ NUL # post, length pre + 1 + length s, (length pre + 1, length s))"
proof -
  have "to_quote ((pre @ [CHR 0x22]) @ s @ CHR 0x22 # post) (length (pre @ [CHR 0x22])) = Some (True, length (pre @ [CHR 0x22]) + length s)"
    using assms by (intro to_quote_text) (simp_all add: plain_name_def)
  then have q: "to_quote (pre @ CHR 0x22 # s @ CHR 0x22 # post) (Suc (length pre)) = Some (True, length pre + 1 + length s)" by simp
  have "(pre @ CHR 0x22 # s @ CHR 0x22 # post)[length pre + 1 + length s := NUL] = pre @ CHR 0x22 # s @ NUL # post"
    by (simp add: list_update_append)
  then show ?thesis using q by (simp add: quoted_def)
qed

lemma disposition_skip:
  "CHR '' '' \<notin> set s \<Longrightarrow> CR \<notin> set s \<Longrightarrow> NUL \<notin> set s \<Longrightarrow>
   disposition (pre @ s @ post) (length pre) n f = disposition (pre @ s @ post) (length pre + length s) n f"
proof (induction s arbitrary: pre)
  case (Cons x s)
  have "disposition (pre @ (x # s) @ post) (length pre) n f = disposition ((pre @ [x]) @ s @ post) (length (pre @ [x])) n f"
    using Cons.prems by (subst disposition.simps) (auto simp: matches_at.simps)
  then show ?case using Cons.IH [of "pre @ [x]"] Cons.prems by simp
qed simp

lemma disposition_name:
  assumes "plain_name s"
  shows "disposition (pre @ '' name='' @ CHR 0x22 # s @ CHR 0x22 # post) (length pre) n f =
    disposition (pre @ '' name='' @ CHR 0x22 # s @ NUL # post) (length pre + 8 + length s) (Some (length pre + 7, length s)) f"
proof -
  let ?m = "pre @ '' name='' @ CHR 0x22 # s @ CHR 0x22 # post"
  have q: "quoted ?m (length pre + 6) = Some (True, pre @ '' name='' @ CHR 0x22 # s @ NUL # post, length pre + 7 + length s, (length pre + 7, length s))"
    using quoted_text [OF assms, of "pre @ '' name=''" post] by (simp add: eval_nat_numeral)
  have a: "matches_at ?m (length pre) '' name='' = Some True" using matches_here [of pre "'' name=''" "CHR 0x22 # s @ CHR 0x22 # post"] by simp
  have r: "rd ?m (length pre) = Some (CHR '' '')" by simp
  show ?thesis unfolding disposition.simps [of ?m "length pre" n f] r a q by (simp add: eval_nat_numeral)
qed

lemma disposition_filename:
  assumes "plain_name s"
  shows "disposition (pre @ '' filename='' @ CHR 0x22 # s @ CHR 0x22 # post) (length pre) n f =
    disposition (pre @ '' filename='' @ CHR 0x22 # s @ NUL # post) (length pre + 12 + length s) n (Some (length pre + 11, length s))"
proof -
  let ?m = "pre @ '' filename='' @ CHR 0x22 # s @ CHR 0x22 # post"
  have q: "quoted ?m (length pre + 10) = Some (True, pre @ '' filename='' @ CHR 0x22 # s @ NUL # post, length pre + 11 + length s, (length pre + 11, length s))"
    using quoted_text [OF assms, of "pre @ '' filename=''" post] by (simp add: eval_nat_numeral)
  have a: "matches_at ?m (length pre) '' filename='' = Some True" using matches_here [of pre "'' filename=''" "CHR 0x22 # s @ CHR 0x22 # post"] by simp
  have b: "matches_at ?m (length pre) '' name='' = Some False" by (simp add: matches_at.simps nth_append)
  have r: "rd ?m (length pre) = Some (CHR '' '')" by simp
  show ?thesis unfolding disposition.simps [of ?m "length pre" n f] r a b q by (simp add: eval_nat_numeral)
qed

lemma disposition_end: "disposition (pre @ CR # LF # post) (length pre) n f = Some (True, pre @ CR # LF # post, length pre, n, f)"
  by (subst disposition.simps) (simp add: nth_append)

lemma prefix_dashes:
  assumes "\<not> is_prefix [CR, LF, CHR ''-'', CHR ''-''] (x # d)"
  shows "\<not> is_prefix [CR, LF, CHR ''-'', CHR ''-''] ((x # d) @ CR # LF # t)"
proof (cases d)
  case (Cons y e)
  then show ?thesis using assms by (cases e; cases "tl e") auto
qed simp

lemma data_end_text:
  assumes "length pre + length d + 4 \<le> len" "\<not> occurs [CR, LF, CHR ''-'', CHR ''-''] d"
  shows "data_end (pre @ d @ CR # LF # CHR ''-'' # CHR ''-'' # post) len (length pre) = Some (True, length pre + length d)"
  using assms
proof (induction d arbitrary: pre)
  case Nil
  have "matches_at (pre @ [CR, LF, CHR ''-'', CHR ''-''] @ post) (length pre) [CR, LF, CHR ''-'', CHR ''-''] = Some True" by (rule matches_here)
  then show ?case using Nil by (subst data_end.simps) simp
next
  case (Cons x d)
  have no: "\<not> occurs [CR, LF, CHR ''-'', CHR ''-''] d" "\<not> is_prefix [CR, LF, CHR ''-'', CHR ''-''] (x # d)"
    using Cons.prems(2) unfolding occurs_iff is_prefix_iff by (metis append_Cons, metis append_Nil)
  have "matches_at (pre @ (x # d) @ CR # LF # CHR ''-'' # CHR ''-'' # post) (length pre) [CR, LF, CHR ''-'', CHR ''-''] = Some False"
    using prefix_dashes [OF no(2), of "CHR ''-'' # CHR ''-'' # post"] by (subst matches_prefix) simp_all
  then show ?case using Cons.IH [of "pre @ [x]"] no(1) Cons.prems(1) by (subst data_end.simps) simp
qed


abbreviation QUOTE :: char where "QUOTE \<equiv> CHR 0x22"

lemma disposition_field:
  assumes "plain_name n"
  shows "disposition (pre @ ''form-data; name='' @ QUOTE # n @ QUOTE # CR # LF # post) (length pre) nm f =
    Some (True, pre @ ''form-data; name='' @ QUOTE # n @ NUL # CR # LF # post, length (pre @ ''form-data; name='' @ QUOTE # n @ [NUL]),
      Some (length (pre @ ''form-data; name='' @ [QUOTE]), length n), f)"
proof -
  let ?pre = "pre @ ''form-data;''" and ?m = "\<lambda>x. pre @ ''form-data; name='' @ QUOTE # n @ x # CR # LF # post"
  have "disposition (?m QUOTE) (length pre) nm f = disposition (?pre @ '' name='' @ QUOTE # n @ QUOTE # CR # LF # post) (length ?pre) nm f"
    using disposition_skip [of "''form-data;''" pre "'' name='' @ QUOTE # n @ QUOTE # CR # LF # post" nm f] by simp
  also have "\<dots> = disposition (?m NUL) (length ?pre + 8 + length n) (Some (length ?pre + 7, length n)) f"
    unfolding disposition_name [OF assms] by simp
  also have "\<dots> = disposition ((pre @ ''form-data; name='' @ QUOTE # n @ [NUL]) @ CR # LF # post) (length (pre @ ''form-data; name='' @ QUOTE # n @ [NUL]))
      (Some (length (pre @ ''form-data; name='' @ [QUOTE]), length n)) f"
    by (simp add: eval_nat_numeral add.assoc)
  finally show ?thesis unfolding disposition_end by simp
qed

lemma disposition_file:
  assumes "plain_name n" "plain_name fn"
  shows "disposition (pre @ ''form-data; name='' @ QUOTE # n @ QUOTE # ''; filename='' @ QUOTE # fn @ QUOTE # CR # LF # post) (length pre) nm f =
    Some (True, pre @ ''form-data; name='' @ QUOTE # n @ NUL # ''; filename='' @ QUOTE # fn @ NUL # CR # LF # post,
      length (pre @ ''form-data; name='' @ QUOTE # n @ NUL # ''; filename='' @ QUOTE # fn @ [NUL]),
      Some (length (pre @ ''form-data; name='' @ [QUOTE]), length n),
      Some (length (pre @ ''form-data; name='' @ QUOTE # n @ NUL # ''; filename='' @ [QUOTE]), length fn))"
proof -
  let ?pre = "pre @ ''form-data;''" and ?t = "''; filename='' @ QUOTE # fn @ QUOTE # CR # LF # post"
  let ?pre2 = "pre @ ''form-data; name='' @ QUOTE # n @ NUL # '';''"
  let ?n = "Some (length (pre @ ''form-data; name='' @ [QUOTE]), length n)"
  have "disposition (pre @ ''form-data; name='' @ QUOTE # n @ QUOTE # ?t) (length pre) nm f =
      disposition (?pre @ '' name='' @ QUOTE # n @ QUOTE # ?t) (length ?pre) nm f"
    using disposition_skip [of "''form-data;''" pre "'' name='' @ QUOTE # n @ QUOTE # ?t" nm f] by simp
  also have "\<dots> = disposition (?pre @ '' name='' @ QUOTE # n @ NUL # ?t) (length ?pre + 8 + length n) (Some (length ?pre + 7, length n)) f"
    by (rule disposition_name [OF assms(1)])
  also have "\<dots> = disposition ((pre @ ''form-data; name='' @ QUOTE # n @ [NUL]) @ '';'' @ '' filename='' @ QUOTE # fn @ QUOTE # CR # LF # post)
      (length (pre @ ''form-data; name='' @ QUOTE # n @ [NUL])) ?n f"
    by (simp add: eval_nat_numeral add.assoc)
  also have "\<dots> = disposition (?pre2 @ '' filename='' @ QUOTE # fn @ QUOTE # CR # LF # post) (length ?pre2) ?n f"
    using disposition_skip [of "'';''" "pre @ ''form-data; name='' @ QUOTE # n @ [NUL]" "'' filename='' @ QUOTE # fn @ QUOTE # CR # LF # post" ?n f] by simp
  also have "\<dots> = disposition (?pre2 @ '' filename='' @ QUOTE # fn @ NUL # CR # LF # post) (length ?pre2 + 12 + length fn) ?n (Some (length ?pre2 + 11, length fn))"
    by (rule disposition_filename [OF assms(2)])
  also have "\<dots> = disposition ((?pre2 @ '' filename='' @ QUOTE # fn @ [NUL]) @ CR # LF # post) (length (?pre2 @ '' filename='' @ QUOTE # fn @ [NUL])) ?n
      (Some (length (?pre2 @ '' filename='' @ [QUOTE]), length fn))"
    by (simp add: eval_nat_numeral add.assoc)
  finally show ?thesis unfolding disposition_end by simp
qed

text \<open>One header line of a part.\<close>

lemma part_headers_line:
  fixes pre nm t :: string and x :: char
  assumes "nm \<noteq> []" "hd nm \<noteq> CR" "CHR '':'' \<notin> set nm" "NUL \<notin> set nm" "x \<noteq> CHR '' ''"
  defines "m2 \<equiv> pre @ map TO_LOWER nm @ NUL # CHR '' '' # x # t" and "v \<equiv> length (pre @ nm) + 2"
  shows "part_headers (pre @ nm @ CHR '':'' # CHR '' '' # x # t) (length pre) h =
    (if map TO_LOWER nm = ''content-disposition'' then
       do { (ok, m, e, name, filename) \<leftarrow> disposition m2 v (ph_name h) (ph_filename h);
            let h = h\<lparr>ph_name := name, ph_filename := filename\<rparr>;
            if ok then part_headers m (e + 2) h else Some (False, m, e, h) }
     else
       do { (ok, e) \<leftarrow> to_crlf m2 v;
            if \<not> ok then Some (False, m2, e, h)
            else if map TO_LOWER nm = ''content-type'' then part_headers (m2[e := NUL]) (e + 2) (h\<lparr>ph_type := Some (v, e - v)\<rparr>)
            else part_headers m2 (e + 2) h })"
proof -
  obtain y ys where nm: "nm = y # ys" "y \<noteq> CR" using assms(1,2) by (cases nm) auto
  let ?m = "pre @ nm @ CHR '':'' # CHR '' '' # x # t"
  have n: "name_to_colon ?m (length pre) = Some (True, pre @ map TO_LOWER nm @ CHR '':'' # CHR '' '' # x # t, length pre + length nm)"
    by (rule name_to_colon_text [OF assms(3,4)])
  have u: "(pre @ map TO_LOWER nm @ CHR '':'' # CHR '' '' # x # t)[length pre + length nm := NUL] = m2"
    by (simp add: m2_def list_update_append)
  have sg: "seg m2 (length pre) (length pre + length nm) = map TO_LOWER nm" by (simp add: seg_def m2_def)
  have b: "skip_blanks m2 (Suc (length pre + length nm)) = Some v"
    using skip_blank_text [OF assms(5), of "pre @ map TO_LOWER nm @ [NUL]" t] by (simp add: m2_def v_def)
  have r: "rd ?m (length pre) = Some y" using nm by simp
  show ?thesis
    unfolding part_headers.simps [of ?m] r n bind.simps prod.case Let_def u sg not_True_eq_False if_False
    using nm(2) b by simp
qed

lemma part_headers_end: "part_headers (pre @ CR # LF # post) (length pre) h = Some (True, pre @ CR # LF # post, length pre, h)"
  by (subst part_headers.simps) (simp add: nth_append)


text \<open>The fixed texts of a part, kept as constants.\<close>

definition CD :: string where "CD = ''Content-Disposition''"
definition cd :: string where "cd = ''content-disposition''"
definition CT :: string where "CT = ''Content-Type''"
definition ct :: string where "ct = ''content-type''"
definition FD :: string where "FD = ''form-data; name=''"
definition FN :: string where "FN = ''; filename=''"

lemma names:
  "CD \<noteq> []" "hd CD \<noteq> CR" "CHR '':'' \<notin> set CD" "NUL \<notin> set CD" "map TO_LOWER CD = cd" "length CD = length cd"
  "CT \<noteq> []" "hd CT \<noteq> CR" "CHR '':'' \<notin> set CT" "NUL \<notin> set CT" "map TO_LOWER CT = ct" "length CT = length ct" "ct \<noteq> cd"
  by (simp_all add: CD_def CT_def cd_def ct_def TO_LOWER_def IS_UPPER_def char_of_def bit_Suc_0_iff)

lemma FD_Cons: "\<exists>t. FD = CHR ''f'' # t"
  by (simp add: FD_def)

text \<open>What a client sends for a form: fields and files, between lines of two dashes and the boundary.\<close>

datatype form_part = Field string string | Upload string string "string option" string

definition type_line :: "string option \<Rightarrow> string" where
  "type_line ty = (case ty of None \<Rightarrow> [] | Some t \<Rightarrow> CT @ '': '' @ t @ [CR, LF])"

fun part_head_text :: "form_part \<Rightarrow> string" where
  "part_head_text (Field n v) = CD @ '': '' @ FD @ QUOTE # n @ [QUOTE, CR, LF]"
| "part_head_text (Upload n fn ty d) =
     CD @ '': '' @ FD @ QUOTE # n @ QUOTE # FN @ QUOTE # fn @ [QUOTE, CR, LF] @ type_line ty"

fun part_data :: "form_part \<Rightarrow> string" where
  "part_data (Field n v) = v"
| "part_data (Upload n fn ty d) = d"

definition part_text :: "string \<Rightarrow> form_part \<Rightarrow> string" where
  "part_text b p = ''--'' @ b @ [CR, LF] @ part_head_text p @ [CR, LF] @ part_data p @ [CR, LF]"

definition form_text :: "string \<Rightarrow> form_part list \<Rightarrow> string" where
  "form_text b ps = concat (map (part_text b) ps) @ ''--'' @ b @ ''--'' @ [CR, LF]"

fun part_ok :: "form_part \<Rightarrow> bool" where
  "part_ok (Field n v) \<longleftrightarrow> plain_name n \<and> \<not> occurs [CR, LF, CHR ''-'', CHR ''-''] v"
| "part_ok (Upload n fn ty d) \<longleftrightarrow> plain_name n \<and> plain_name fn \<and> \<not> occurs [CR, LF, CHR ''-'', CHR ''-''] d \<and>
     (case ty of None \<Rightarrow> True | Some t \<Rightarrow> CR \<notin> set t \<and> NUL \<notin> set t \<and> (t \<noteq> [] \<longrightarrow> hd t \<noteq> CHR '' ''))"

text \<open>How the head lies in memory when it has been parsed.\<close>

fun part_head_mem :: "form_part \<Rightarrow> string" where
  "part_head_mem (Field n v) = cd @ NUL # '' '' @ FD @ QUOTE # n @ [NUL, CR, LF]"
| "part_head_mem (Upload n fn ty d) =
     cd @ NUL # '' '' @ FD @ QUOTE # n @ NUL # FN @ QUOTE # fn @ [NUL, CR, LF] @
     (case ty of None \<Rightarrow> [] | Some t \<Rightarrow> ct @ NUL # '' '' @ t @ [NUL, LF])"

definition text_at :: "mem \<Rightarrow> span \<Rightarrow> string" where
  "text_at m s = take (snd s) (drop (fst s) m)"

fun head_reads :: "mem \<Rightarrow> part_head \<Rightarrow> form_part \<Rightarrow> bool" where
  "head_reads m h (Field n v) \<longleftrightarrow> map_option (text_at m) (ph_name h) = Some n \<and> ph_filename h = None"
| "head_reads m h (Upload n fn ty d) \<longleftrightarrow> map_option (text_at m) (ph_name h) = Some n \<and>
     map_option (text_at m) (ph_filename h) = Some fn \<and> map_option (text_at m) (ph_type h) = ty"

abbreviation no_head :: part_head where "no_head \<equiv> \<lparr>ph_name = None, ph_filename = None, ph_type = None\<rparr>"

lemma text_at_here: "text_at (a @ s @ b) (length a, length s) = s"
  by (simp add: text_at_def)

lemma part_headers_disp:
  assumes "x \<noteq> CHR '' ''" "disposition (pre @ cd @ NUL # CHR '' '' # x # t) (length (pre @ cd @ [NUL, CHR '' ''])) (ph_name h) (ph_filename h) = Some (True, m, e, n, f)"
  shows "part_headers (pre @ CD @ CHR '':'' # CHR '' '' # x # t) (length pre) h = part_headers m (e + 2) (h\<lparr>ph_name := n, ph_filename := f\<rparr>)"
proof -
  have "length (pre @ CD) + 2 = length (pre @ cd @ [NUL, CHR '' ''])" using names(6) by simp
  then show ?thesis using part_headers_line [OF names(1-4) assms(1), of pre t h] assms(2)
    unfolding names(5) cd_def [symmetric] by (simp add: Let_def)
qed

lemma part_headers_type:
  assumes "CR \<notin> set t" "NUL \<notin> set t" "t \<noteq> [] \<longrightarrow> hd t \<noteq> CHR '' ''"
  shows "part_headers (pre @ CT @ '': '' @ t @ CR # LF # post) (length pre) h =
    part_headers (pre @ ct @ NUL # '' '' @ t @ NUL # LF # post) (length (pre @ ct @ NUL # '' '' @ t @ [NUL, LF]))
      (h\<lparr>ph_type := Some (length (pre @ ct @ [NUL, CHR '' '']), length t)\<rparr>)"
proof -
  obtain x r where x: "t @ CR # LF # post = x # r" "x \<noteq> CHR '' ''" using assms(3) by (cases t) auto
  let ?v = "length (pre @ ct @ [NUL, CHR '' ''])"
  let ?m2 = "(pre @ ct @ [NUL, CHR '' '']) @ t @ CR # LF # post"
  have v: "length (pre @ CT) + 2 = ?v" using names(12) by simp
  have c: "to_crlf ?m2 ?v = Some (True, ?v + length t)" by (rule to_crlf_text [OF assms(1,2)])
  have u: "?m2[?v + length t := NUL] = pre @ ct @ NUL # '' '' @ t @ NUL # LF # post" by (simp add: list_update_append)
  have m: "pre @ ct @ NUL # CHR '' '' # x # r = ?m2" using x(1) by simp
  have "part_headers (pre @ CT @ CHR '':'' # CHR '' '' # x # r) (length pre) h =
      part_headers (?m2[?v + length t := NUL]) (?v + length t + 2) (h\<lparr>ph_type := Some (?v, ?v + length t - ?v)\<rparr>)"
    unfolding part_headers_line [OF names(7-10) x(2)] names(11) m v c cd_def [symmetric] ct_def [symmetric]
    using names(13) by simp
  then show ?thesis unfolding u using x(1) by (simp add: add.assoc)
qed

lemma heads_field:
  assumes "plain_name n"
  shows "part_headers (pre @ part_head_text (Field n v) @ CR # LF # post) (length pre) no_head =
    Some (True, pre @ part_head_mem (Field n v) @ CR # LF # post, length (pre @ part_head_mem (Field n v)),
      no_head\<lparr>ph_name := Some (length (pre @ cd @ NUL # '' '' @ FD @ [QUOTE]), length n)\<rparr>)"
proof -
  obtain t where t: "FD = CHR ''f'' # t" using FD_Cons by blast
  let ?pre = "pre @ cd @ NUL # '' ''"
  let ?m = "\<lambda>x. ?pre @ FD @ QUOTE # n @ x # CR # LF # CR # LF # post"
  have d: "disposition (?m QUOTE) (length ?pre) None None =
      Some (True, ?m NUL, length (?pre @ FD @ QUOTE # n @ [NUL]), Some (length (?pre @ FD @ [QUOTE]), length n), None)"
    unfolding FD_def by (rule disposition_field [OF assms])
  have "part_headers (pre @ CD @ CHR '':'' # CHR '' '' # CHR ''f'' # t @ QUOTE # n @ QUOTE # CR # LF # CR # LF # post) (length pre) no_head =
      part_headers (?m NUL) (length (?pre @ FD @ QUOTE # n @ [NUL]) + 2)
        (no_head\<lparr>ph_name := Some (length (?pre @ FD @ [QUOTE]), length n), ph_filename := None\<rparr>)"
    using d by (intro part_headers_disp) (simp_all add: t)
  also have "\<dots> = part_headers ((pre @ part_head_mem (Field n v)) @ CR # LF # post) (length (pre @ part_head_mem (Field n v)))
      (no_head\<lparr>ph_name := Some (length (?pre @ FD @ [QUOTE]), length n)\<rparr>)" by simp
  finally show ?thesis unfolding part_headers_end by (simp add: t)
qed


lemma heads_upload:
  assumes "plain_name n" "plain_name fn" "case ty of None \<Rightarrow> True | Some t \<Rightarrow> CR \<notin> set t \<and> NUL \<notin> set t \<and> (t \<noteq> [] \<longrightarrow> hd t \<noteq> CHR '' '')"
  shows "\<exists>h. part_headers (pre @ part_head_text (Upload n fn ty d) @ CR # LF # post) (length pre) no_head =
      Some (True, pre @ part_head_mem (Upload n fn ty d) @ CR # LF # post, length (pre @ part_head_mem (Upload n fn ty d)), h) \<and>
    ph_name h = Some (length (pre @ cd @ NUL # '' '' @ FD @ [QUOTE]), length n) \<and>
    ph_filename h = Some (length (pre @ cd @ NUL # '' '' @ FD @ QUOTE # n @ NUL # FN @ [QUOTE]), length fn) \<and>
    ph_type h = map_option (\<lambda>t. (length (pre @ cd @ NUL # '' '' @ FD @ QUOTE # n @ NUL # FN @ QUOTE # fn @ [NUL, CR, LF] @ ct @ [NUL, CHR '' '']), length t)) ty"
proof -
  obtain t where t: "FD = CHR ''f'' # t" using FD_Cons by blast
  let ?pre = "pre @ cd @ NUL # '' ''" and ?post = "type_line ty @ CR # LF # post"
  let ?m = "\<lambda>x y. ?pre @ FD @ QUOTE # n @ x # FN @ QUOTE # fn @ y # CR # LF # ?post"
  let ?n = "Some (length (?pre @ FD @ [QUOTE]), length n)" and ?f = "Some (length (?pre @ FD @ QUOTE # n @ NUL # FN @ [QUOTE]), length fn)"
  let ?e = "length (?pre @ FD @ QUOTE # n @ NUL # FN @ QUOTE # fn @ [NUL])"
  let ?pre2 = "pre @ cd @ NUL # '' '' @ FD @ QUOTE # n @ NUL # FN @ QUOTE # fn @ [NUL, CR, LF]"
  let ?h = "no_head\<lparr>ph_name := ?n, ph_filename := ?f\<rparr>"
  have dd: "disposition (?m QUOTE QUOTE) (length ?pre) None None = Some (True, ?m NUL NUL, ?e, ?n, ?f)"
    unfolding FD_def FN_def by (rule disposition_file [OF assms(1,2)])
  have "part_headers (pre @ CD @ CHR '':'' # CHR '' '' # CHR ''f'' # t @ QUOTE # n @ QUOTE # FN @ QUOTE # fn @ QUOTE # CR # LF # ?post) (length pre) no_head =
      part_headers (?m NUL NUL) (?e + 2) ?h"
    using dd by (intro part_headers_disp) (simp_all add: t)
  also have "\<dots> = part_headers (?pre2 @ ?post) (length ?pre2) ?h" by simp
  finally have 1: "part_headers (pre @ part_head_text (Upload n fn ty d) @ CR # LF # post) (length pre) no_head = part_headers (?pre2 @ ?post) (length ?pre2) ?h"
    by (simp add: t)
  show ?thesis
  proof (cases ty)
    case None
    then show ?thesis unfolding 1 using part_headers_end [of ?pre2 post ?h] by (simp add: type_line_def)
  next
    case (Some u)
    let ?pre3 = "pre @ part_head_mem (Upload n fn ty d)"
    have "part_headers (?pre2 @ CT @ '': '' @ u @ CR # LF # CR # LF # post) (length ?pre2) ?h =
        part_headers (?pre2 @ ct @ NUL # '' '' @ u @ NUL # LF # CR # LF # post) (length (?pre2 @ ct @ NUL # '' '' @ u @ [NUL, LF]))
          (?h\<lparr>ph_type := Some (length (?pre2 @ ct @ [NUL, CHR '' '']), length u)\<rparr>)"
      using assms(3) Some by (intro part_headers_type) auto
    also have "\<dots> = part_headers (?pre3 @ CR # LF # post) (length ?pre3) (?h\<lparr>ph_type := Some (length (?pre2 @ ct @ [NUL, CHR '' '']), length u)\<rparr>)"
      using Some by simp
    finally have 2: "part_headers (?pre2 @ ?post) (length ?pre2) ?h =
        Some (True, ?pre3 @ CR # LF # post, length ?pre3, ?h\<lparr>ph_type := Some (length (?pre2 @ ct @ [NUL, CHR '' '']), length u)\<rparr>)"
      unfolding part_headers_end using Some by (simp add: type_line_def)
    show ?thesis unfolding 1 2 using Some by simp
  qed
qed

lemma heads_read:
  assumes "part_ok p"
  shows "\<exists>h. part_headers (pre @ part_head_text p @ CR # LF # post) (length pre) no_head =
      Some (True, pre @ part_head_mem p @ CR # LF # post, length (pre @ part_head_mem p), h) \<and>
    (\<forall>rest. head_reads (pre @ part_head_mem p @ rest) h p)"
proof (cases p)
  case (Field n v)
  have "text_at (pre @ part_head_mem p @ rest) (length (pre @ cd @ NUL # '' '' @ FD @ [QUOTE]), length n) = n" for rest
    using text_at_here [of "pre @ cd @ NUL # '' '' @ FD @ [QUOTE]" n "[NUL, CR, LF] @ rest"] Field by simp
  then show ?thesis using heads_field [of n pre v post] assms Field by simp
next
  case (Upload n fn ty d)
  obtain h where h: "part_headers (pre @ part_head_text p @ CR # LF # post) (length pre) no_head =
      Some (True, pre @ part_head_mem p @ CR # LF # post, length (pre @ part_head_mem p), h)"
    "ph_name h = Some (length (pre @ cd @ NUL # '' '' @ FD @ [QUOTE]), length n)"
    "ph_filename h = Some (length (pre @ cd @ NUL # '' '' @ FD @ QUOTE # n @ NUL # FN @ [QUOTE]), length fn)"
    "ph_type h = map_option (\<lambda>t. (length (pre @ cd @ NUL # '' '' @ FD @ QUOTE # n @ NUL # FN @ QUOTE # fn @ [NUL, CR, LF] @ ct @ [NUL, CHR '' '']), length t)) ty"
    using heads_upload [of n fn ty pre d post] assms Upload by auto
  have "head_reads (pre @ part_head_mem p @ rest) h p" for rest
  proof -
    let ?m = "pre @ part_head_mem p @ rest"
    let ?ty = "case ty of None \<Rightarrow> [] | Some t \<Rightarrow> ct @ NUL # '' '' @ t @ [NUL, LF]"
    have 1: "text_at ?m (length (pre @ cd @ NUL # '' '' @ FD @ [QUOTE]), length n) = n"
      using text_at_here [of "pre @ cd @ NUL # '' '' @ FD @ [QUOTE]" n "NUL # FN @ QUOTE # fn @ [NUL, CR, LF] @ ?ty @ rest"] Upload by simp
    have 2: "text_at ?m (length (pre @ cd @ NUL # '' '' @ FD @ QUOTE # n @ NUL # FN @ [QUOTE]), length fn) = fn"
      using text_at_here [of "pre @ cd @ NUL # '' '' @ FD @ QUOTE # n @ NUL # FN @ [QUOTE]" fn "[NUL, CR, LF] @ ?ty @ rest"] Upload by simp
    have 3: "text_at ?m (length (pre @ cd @ NUL # '' '' @ FD @ QUOTE # n @ NUL # FN @ QUOTE # fn @ [NUL, CR, LF] @ ct @ [NUL, CHR '' '']), length t) = t" if "ty = Some t" for t
      using text_at_here [of "pre @ cd @ NUL # '' '' @ FD @ QUOTE # n @ NUL # FN @ QUOTE # fn @ [NUL, CR, LF] @ ct @ [NUL, CHR '' '']" t "[NUL, LF] @ rest"] Upload that by simp
    show ?thesis using Upload h(2-4) 1 2 3 by (cases ty) simp_all
  qed
  then show ?thesis using h(1) by blast
qed


definition part_mem :: "string \<Rightarrow> form_part \<Rightarrow> string" where
  "part_mem b p = ''--'' @ b @ [CR, LF] @ part_head_mem p @ [CR, LF] @ part_data p @ [NUL, LF]"

definition read_arg :: "mem \<Rightarrow> post_arg_t \<Rightarrow> string \<times> string" where
  "read_arg m a = (text_at m (pa_key a), text_at m (pa_value a))"

definition read_file :: "mem \<Rightarrow> post_file_t \<Rightarrow> string \<times> string \<times> string option \<times> string" where
  "read_file m f = (text_at m (pf_key f), text_at m (pf_name f), map_option (text_at m) (pf_type f), text_at m (pf_data f))"

fun part_fields :: "form_part \<Rightarrow> (string \<times> string) list" where
  "part_fields (Field n v) = [(n, v)]"
| "part_fields (Upload n fn ty d) = []"

fun part_uploads :: "form_part \<Rightarrow> (string \<times> string \<times> string option \<times> string) list" where
  "part_uploads (Field n v) = []"
| "part_uploads (Upload n fn ty d) = [(n, fn, ty, d)]"

definition boundary_ok :: "string \<Rightarrow> bool" where
  "boundary_ok b \<longleftrightarrow> CR \<notin> set b \<and> NUL \<notin> set b"

lemma part_head_first: "\<exists>t. part_head_text p = CHR ''C'' # t"
  by (cases p) (simp_all add: CD_def)


text \<open>A part is consumed, and its texts can be read from the memory whatever follows.\<close>

lemma parse_part:
  assumes b: "boundary_ok b" and p: "part_ok p" and len: "length (pre @ part_text b p) + 2 \<le> len"
  shows "\<exists>as fs. parse_parts (pre @ part_text b p @ ''--'' @ rest) len (length pre) args files =
      parse_parts (pre @ part_mem b p @ ''--'' @ rest) len (length (pre @ part_mem b p)) (args @ as) (files @ fs) \<and>
    (\<forall>r. map (read_arg (pre @ part_mem b p @ r)) as = part_fields p \<and> map (read_file (pre @ part_mem b p @ r)) fs = part_uploads p)"
proof -
  let ?m = "pre @ part_text b p @ ''--'' @ rest"
  define pre1 where "pre1 = pre @ ''--'' @ b @ [CR, LF]"
  define pre2 where "pre2 = pre1 @ part_head_mem p @ [CR, LF]"
  let ?tail = "part_data p @ CR # LF # CHR ''-'' # CHR ''-'' # rest" and ?n = "length pre2 + length (part_data p)"
  have bs: "CR \<notin> set (''--'' @ b)" "NUL \<notin> set (''--'' @ b)" using b by (auto simp: boundary_ok_def)
  have m1: "?m = pre1 @ part_head_text p @ CR # LF # ?tail" by (simp add: pre1_def part_text_def)
  have c: "to_crlf ?m (length pre) = Some (True, length pre + length (''--'' @ b))"
    using to_crlf_text [OF bs, of pre "part_head_text p @ CR # LF # ?tail"] by (simp add: part_text_def)
  have l1: "length pre + length (''--'' @ b) + 2 = length pre1" by (simp add: pre1_def)
  have r: "rd ?m (length pre1) = Some (CHR ''C'')" using part_head_first [of p] unfolding m1 by auto
  obtain h where h: "part_headers ?m (length pre1) no_head = Some (True, pre2 @ ?tail, length (pre1 @ part_head_mem p), h)"
    and reads: "\<And>r. head_reads (pre1 @ part_head_mem p @ r) h p"
    using heads_read [OF p, of pre1 ?tail] unfolding m1 pre2_def by auto
  have l2: "length (pre1 @ part_head_mem p) + 2 = length pre2" by (simp add: pre2_def)
  have lh: "length (part_head_mem p) = length (part_head_text p)"
    using names(6,12) by (cases p) (auto simp: type_line_def split: option.split)
  have no: "\<not> occurs [CR, LF, CHR ''-'', CHR ''-''] (part_data p)" using p by (cases p) simp_all
  have e: "data_end (pre2 @ ?tail) len (length pre2) = Some (True, ?n)"
    using len by (intro data_end_text no) (simp add: pre2_def pre1_def part_text_def lh)
  have u: "(pre2 @ ?tail)[?n := NUL] = pre @ part_mem b p @ ''--'' @ rest"
    by (simp add: list_update_append part_mem_def pre2_def pre1_def)
  have l3: "?n + 2 = length (pre @ part_mem b p)" by (simp add: pre2_def pre1_def part_mem_def)
  have mem: "pre @ part_mem b p @ r = pre1 @ part_head_mem p @ [CR, LF] @ part_data p @ [NUL, LF] @ r" for r
    by (simp add: part_mem_def pre1_def)
  have d: "text_at (pre @ part_mem b p @ r) (length pre2, ?n - length pre2) = part_data p" for r
    using text_at_here [of pre2 "part_data p" "[NUL, LF] @ r"] by (simp add: mem pre2_def)
  note heads = reads [of "[CR, LF] @ part_data p @ [NUL, LF] @ r" for r, folded mem]
  note unfolded = parse_parts.simps [of ?m] c bind.simps prod.case l1 r h not_True_eq_False if_False l2 e u l3
  show ?thesis
  proof (cases p)
    case (Field n v)
    then obtain name where n: "ph_name h = Some name" "ph_filename h = None" "\<And>r. text_at (pre @ part_mem b p @ r) name = n"
      using heads by (cases "ph_name h") auto
    let ?a = "[\<lparr>pa_key = name, pa_value = (length pre2, ?n - length pre2)\<rparr>]"
    have s: "parse_parts ?m len (length pre) args files =
        parse_parts (pre @ part_mem b p @ ''--'' @ rest) len (length (pre @ part_mem b p)) (args @ ?a) (files @ [])"
      unfolding unfolded n option.case by simp
    show ?thesis using n(3) d Field
      by (intro exI [of _ ?a] exI [of _ "[]"] conjI allI s) (simp_all add: read_arg_def)
  next
    case (Upload n fn ty dd)
    then obtain name fname where n: "ph_name h = Some name" "ph_filename h = Some fname" "\<And>r. text_at (pre @ part_mem b p @ r) name = n"
        "\<And>r. text_at (pre @ part_mem b p @ r) fname = fn" "\<And>r. map_option (text_at (pre @ part_mem b p @ r)) (ph_type h) = ty"
      using heads by (cases "ph_name h"; cases "ph_filename h") auto
    let ?f = "[\<lparr>pf_data = (length pre2, ?n - length pre2), pf_key = name, pf_name = fname, pf_type = ph_type h\<rparr>]"
    have s: "parse_parts ?m len (length pre) args files =
        parse_parts (pre @ part_mem b p @ ''--'' @ rest) len (length (pre @ part_mem b p)) (args @ []) (files @ ?f)"
      unfolding unfolded n(1,2) option.case by simp
    show ?thesis using n(3-) d Upload
      by (intro exI [of _ "[]"] exI [of _ ?f] conjI allI s) (simp_all add: read_file_def)
  qed
qed


text \<open>The whole form, and how it lies in memory when it has been parsed.\<close>

definition form_mem :: "string \<Rightarrow> form_part list \<Rightarrow> string" where
  "form_mem b ps = concat (map (part_mem b) ps) @ ''--'' @ b @ ''--'' @ [CR, LF]"

lemma form_simps [simp]:
  "form_text b (p # ps) = part_text b p @ form_text b ps" "form_mem b (p # ps) = part_mem b p @ form_mem b ps"
  by (simp_all add: form_text_def form_mem_def)

lemma form_dashes: "\<exists>rest. form_text b ps @ junk = ''--'' @ rest"
  by (cases ps) (simp_all add: form_text_def part_text_def)

lemma parse_form_end:
  assumes "boundary_ok b"
  shows "parse_parts (pre @ form_text b [] @ NUL # junk) len (length pre) args files = Some (pre @ form_mem b [] @ NUL # junk, args, files)"
proof -
  let ?s = "''--'' @ b @ ''--''" and ?m = "pre @ form_text b [] @ NUL # junk"
  have m: "?m = pre @ ?s @ CR # LF # NUL # junk" by (simp add: form_text_def)
  have c: "to_crlf ?m (length pre) = Some (True, length pre + length ?s)"
    unfolding m using assms by (intro to_crlf_text) (auto simp: boundary_ok_def)
  have r: "rd ?m (length pre + length ?s + 2) = Some NUL"
    using rd_at [of "pre @ ?s @ [CR, LF]" NUL junk] unfolding m by (simp add: add.assoc)
  show ?thesis unfolding parse_parts.simps [of ?m] c bind.simps prod.case r by (simp add: form_text_def form_mem_def)
qed

lemma parse_form:
  assumes "boundary_ok b" "list_all part_ok ps" "length (pre @ form_text b ps) \<le> len"
  shows "\<exists>as fs. parse_parts (pre @ form_text b ps @ NUL # junk) len (length pre) args files =
      Some (pre @ form_mem b ps @ NUL # junk, args @ as, files @ fs) \<and>
    map (read_arg (pre @ form_mem b ps @ NUL # junk)) as = concat (map part_fields ps) \<and>
    map (read_file (pre @ form_mem b ps @ NUL # junk)) fs = concat (map part_uploads ps)"
  using assms(2,3)
proof (induction ps arbitrary: pre args files)
  case Nil
  then show ?case using parse_form_end [OF assms(1), of pre junk len args files] by simp
next
  case (Cons p ps)
  obtain rest where rest: "form_text b ps @ NUL # junk = ''--'' @ rest" using form_dashes by blast
  have two: "2 \<le> length (form_text b ps)" by (simp add: form_text_def)
  have p: "part_ok p" "length (pre @ part_text b p) + 2 \<le> len" using Cons.prems two by simp_all
  let ?pre = "pre @ part_mem b p" and ?tl = "form_mem b ps @ NUL # junk"
  obtain as fs where 1: "parse_parts (pre @ part_text b p @ ''--'' @ rest) len (length pre) args files =
      parse_parts (pre @ part_mem b p @ ''--'' @ rest) len (length ?pre) (args @ as) (files @ fs)"
    "\<And>r. map (read_arg (pre @ part_mem b p @ r)) as = part_fields p" "\<And>r. map (read_file (pre @ part_mem b p @ r)) fs = part_uploads p"
    using parse_part [OF assms(1) p, of rest args files] by blast
  have "length (part_mem b p) = length (part_text b p)"
    using names(6,12) by (cases p) (auto simp: part_mem_def part_text_def type_line_def split: option.split)
  then have "list_all part_ok ps" "length (?pre @ form_text b ps) \<le> len" using Cons.prems by simp_all
  from Cons.IH [OF this, of "args @ as" "files @ fs"]
  obtain as' fs' where 2: "parse_parts (?pre @ ''--'' @ rest) len (length ?pre) (args @ as) (files @ fs) =
      Some (?pre @ ?tl, (args @ as) @ as', (files @ fs) @ fs')"
    "map (read_arg (?pre @ ?tl)) as' = concat (map part_fields ps)" "map (read_file (?pre @ ?tl)) fs' = concat (map part_uploads ps)"
    unfolding rest by blast
  have "pre @ form_text b (p # ps) @ NUL # junk = pre @ part_text b p @ ''--'' @ rest" using rest by simp
  then show ?case using 1 2 by (intro exI [of _ "as @ as'"] exI [of _ "fs @ fs'"]) simp
qed

section \<open>Claims\<close>

text \<open>
  C18.  Whatever bytes a client sends as a multipart form, the parser returns: a body of \<open>len\<close> bytes and its
  terminator is never left, nothing behind the body is written, and every name, file name, type and value
  it reports is a text inside the body that ends in a terminator.
\<close>

theorem http_parse_post_safe:
  assumes "in_body len m 0"
  shows "\<exists>m' args files. http_parse_post False m len v = Some (m', Form args files) \<and>
    same_outside 0 len m m' \<and> fields_ok m' len args files"
proof -
  have f: "fields_ok m 0 [] []" by (simp add: fields_ok_def)
  from parse_parts_ok [OF assms f] obtain m' args files where
    "parse_parts m len 0 [] [] = Some (m', args, files)" "same_outside 0 len m m'" "fields_ok m' len args files"
    by (auto simp: parts_good_def)
  then show ?thesis by (cases "len < 12") (auto simp: http_parse_post_def http_parse_multipart_def fields_ok_def)
qed

theorem http_parse_post_safe_witness:
  "\<exists>m' args files. http_parse_post False (''--b'' @ [CR, LF] @ ''broken header'' @ [NUL]) 18 \<lparr>a_num = 0, a_args = [], a_b_len = 0, a_v_len = 0, a_v_cap = 0, a_raw = []\<rparr> = Some (m', Form args files) \<and>
    same_outside 0 18 (''--b'' @ [CR, LF] @ ''broken header'' @ [NUL]) m' \<and> fields_ok m' 18 args files"
  by (rule http_parse_post_safe) (simp add: in_body_def)

text \<open>
  C19.  A form with fields and files, sent with a boundary line in front of each part, is read back: the
  fields and the files are found in the order in which they were sent, with their names, types and
  contents.  The names must not contain quotes or ampersands, the contents no line that begins with two dashes.
\<close>

theorem http_parse_multipart_round_trip:
  assumes "boundary_ok b" "list_all part_ok ps" "ps \<noteq> []"
  shows "\<exists>m' args files. http_parse_post False (form_text b ps @ NUL # junk) (length (form_text b ps)) v = Some (m', Form args files) \<and>
    map (read_arg m') args = concat (map part_fields ps) \<and> map (read_file m') files = concat (map part_uploads ps)"
proof -
  have "12 \<le> length (form_text b ps)"
  proof (cases ps)
    case (Cons p qs)
    have "19 \<le> length (part_head_text p)" by (cases p) (simp_all add: CD_def)
    then show ?thesis unfolding Cons by (simp add: part_text_def)
  qed (use assms in simp)
  then show ?thesis using parse_form [OF assms(1,2), of "[]" "length (form_text b ps)" junk "[]" "[]"]
    by (auto simp: http_parse_post_def http_parse_multipart_def)
qed

theorem http_parse_multipart_round_trip_witness:
  "\<exists>m' args files. http_parse_post False
      (form_text ''XX'' [Field ''user'' ''joe'', Upload ''pic'' ''a.gif'' (Some ''image/gif'') ''GIF''] @ [NUL])
      (length (form_text ''XX'' [Field ''user'' ''joe'', Upload ''pic'' ''a.gif'' (Some ''image/gif'') ''GIF''])) \<lparr>a_num = 0, a_args = [], a_b_len = 0, a_v_len = 0, a_v_cap = 0, a_raw = []\<rparr> =
    Some (m', Form args files) \<and> map (read_arg m') args = [(''user'', ''joe'')] \<and>
    map (read_file m') files = [(''pic'', ''a.gif'', Some ''image/gif'', ''GIF'')]"
  using http_parse_multipart_round_trip [of "''XX''" "[Field ''user'' ''joe'', Upload ''pic'' ''a.gif'' (Some ''image/gif'') ''GIF'']" "[]" "\<lparr>a_num = 0, a_args = [], a_b_len = 0, a_v_len = 0, a_v_cap = 0, a_raw = []\<rparr>"]
  by (simp add: boundary_ok_def plain_name_def)

end
