(* ===== verification/Http_Serve.thy ===== *)
theory Http_Serve
  imports Http_Headers Buffers
begin

text \<open>
  \<^verbatim>\<open>http_serve_client\<close> of \<^verbatim>\<open>core_http.c\<close>: reading a request from its socket.  Bytes are received into
  the buffer of the request until an empty line ends the header block, the headers are parsed there, and
  the body of a POST request is gathered behind them or in a mapped file.  The calls that end the
  function (\<^verbatim>\<open>return http_error(...)\<close> and \<^verbatim>\<open>return http_response(...)\<close>) are values of the result type, so
  that the response theories can be composed with it.
\<close>

section \<open>The socket\<close>

text \<open>
  What the calls of \<^verbatim>\<open>recv\<close> will find, in order: a segment of bytes (the empty one is the end of the
  stream), nothing yet, or an error.  A call that asks for less than a segment leaves the rest of it.
\<close>

datatype recv_result = Got string | Block | Gone

fun recv :: "nat \<Rightarrow> recv_result list \<Rightarrow> recv_result \<times> recv_result list" where
  "recv n [] = (Block, [])"
| "recv n (Got s # rs) = (Got (take n s), if drop n s = [] then rs else Got (drop n s) # rs)"
| "recv n (Block # rs) = (Block, rs)"
| "recv n (Gone # rs) = (Gone, rs)"

fun recv_left :: "recv_result list \<Rightarrow> nat" where
  "recv_left [] = 0"
| "recv_left (Got s # rs) = length s + 1 + recv_left rs"
| "recv_left (r # rs) = 1 + recv_left rs"

lemma recv_left_less: "recv n rs = (Got s, rs') \<Longrightarrow> s \<noteq> [] \<Longrightarrow> recv_left rs' < recv_left rs"
  by (cases "(n, rs)" rule: recv.cases) (auto split: if_splits)

section \<open>The pointers into the buffer\<close>

text \<open>
  Offsets into the buffer stand for the pointers of the request.  The code keeps absolute ones and
  corrects them when the buffer moves.
\<close>

record in_ptrs =
  ip_uri :: int
  ip_version :: int
  ip_body :: int
  ip_headers :: "(int \<times> int) list"

definition http_buffer_moved :: "int \<Rightarrow> in_ptrs \<Rightarrow> in_ptrs" where
  "http_buffer_moved offset r =
     r\<lparr>ip_uri := ip_uri r + offset, ip_version := ip_version r + offset, ip_body := ip_body r + offset,
       ip_headers := map (\<lambda>(key, val). (key + offset, val + offset)) (ip_headers r)\<rparr>"

section \<open>Receiving a request\<close>

definition HTTP_RECV_BUFFER :: nat where "HTTP_RECV_BUFFER = 8192"
definition HTTP_MAX_HEADERS_SIZE :: nat where "HTTP_MAX_HEADERS_SIZE = 16384"
definition HTTP_MAX_REQUEST_BODY_SIZE :: nat where "HTTP_MAX_REQUEST_BODY_SIZE = 33554432"
definition HTTP_REQUEST_BODY_SIZE_STORE_IN_FILE :: nat where "HTTP_REQUEST_BODY_SIZE_STORE_IN_FILE = 4194304"

lemmas serve_limits = HTTP_RECV_BUFFER_def HTTP_MAX_HEADERS_SIZE_def HTTP_MAX_REQUEST_BODY_SIZE_def
  HTTP_REQUEST_BODY_SIZE_STORE_IN_FILE_def

text \<open>
  The part of \<^verbatim>\<open>request_t\<close> the receiver works on.  \<open>cn_map\<close> is the mapped file that holds a big body;
  \<open>cn_body_str\<close> is the offset of the body in the buffer when there is none.
\<close>

record conn =
  cn_b :: buf_t
  cn_in :: headers_in
  cn_body_str :: nat
  cn_body_len :: nat
  cn_content_type :: "header_t option"
  cn_content_length :: "header_t option"
  cn_content_length_val :: uint
  cn_multipart :: bool
  cn_urlenc :: bool
  cn_map :: "mem option"

datatype serve_result = Http_Error nat | Http_Response | Wait | Closed

text \<open>The search for the empty line in the bytes just received, from index 4 on.\<close>

function head_end :: "string \<Rightarrow> nat \<Rightarrow> nat option" where
  "head_end s i =
     (if i < length s
      then (if s ! i = LF \<and> s ! (i - 1) = CR \<and> s ! (i - 2) = LF \<and> s ! (i - 3) = CR then Some i
            else head_end s (Suc i))
      else None)"
  by pat_completeness auto
termination by (relation "measure (\<lambda>(s, i). length s - i)") auto

declare head_end.simps [simp del]

text \<open>The search for the headers that describe the body.\<close>

fun post_headers :: "mem \<Rightarrow> header_t list \<Rightarrow> header_t option \<Rightarrow> header_t option \<Rightarrow> header_t option \<times> header_t option" where
  "post_headers m [] ct cl = (ct, cl)"
| "post_headers m (hdr # hs) ct cl =
     (if key_len hdr = 12 \<and> ct = None \<and> seg m (key_str hdr) (key_str hdr + 12) = ''content-type''
      then post_headers m hs (Some hdr) cl
      else if key_len hdr = 14 \<and> cl = None \<and> seg m (key_str hdr) (key_str hdr + 14) = ''content-length''
      then post_headers m hs ct (Some hdr)
      else post_headers m hs ct cl)"

text \<open>Writing to the body at offset \<open>k\<close>, in the buffer or in the mapped file.\<close>

definition body_write :: "conn \<Rightarrow> nat \<Rightarrow> string \<Rightarrow> conn option" where
  "body_write c k s =
     (case cn_map c of
        None \<Rightarrow> do { d \<leftarrow> memcpy_at (b_data (cn_b c)) (cn_body_str c + k) s;
                     Some (c\<lparr>cn_b := (cn_b c)\<lparr>b_data := d\<rparr>\<rparr>) }
      | Some m \<Rightarrow> do { d \<leftarrow> memcpy_at m k s; Some (c\<lparr>cn_map := Some d\<rparr>) })"

text \<open>The code at the label \<^verbatim>\<open>_post_\<close>: is the body complete?\<close>

definition post_done :: "conn \<Rightarrow> (serve_result \<times> conn) option" where
  "post_done c =
     (if unat (cn_content_length_val c) \<le> cn_body_len c
      then do { c \<leftarrow> body_write c (unat (cn_content_length_val c)) [NUL];
                Some (Http_Response, c\<lparr>cn_body_len := unat (cn_content_length_val c)\<rparr>) }
      else Some (Wait, c))"

text \<open>
  The body of a POST request begins at offset \<open>start\<close>, \<open>len\<close> bytes of it have arrived.  \<open>u\<close> is what fresh
  memory holds and \<open>base\<close> where \<^verbatim>\<open>realloc\<close> puts the buffer.
\<close>

definition serve_post :: "char \<Rightarrow> int \<Rightarrow> conn \<Rightarrow> nat \<Rightarrow> nat \<Rightarrow> (serve_result \<times> conn) option" where
  "serve_post u base c start len =
     (let m = b_data (cn_b c);
          (ct, cl) = post_headers m (hi_p (cn_in c)) (cn_content_type c) (cn_content_length c);
          c = c\<lparr>cn_body_str := start, cn_body_len := len, cn_content_type := ct, cn_content_length := cl\<rparr> in
      case ct of None \<Rightarrow> Some (Http_Error 400, c) | Some ct \<Rightarrow>
      case cl of None \<Rightarrow> Some (Http_Error 411, c) | Some cl \<Rightarrow>
      (let urlenc = (val_len ct = 33 \<and> seg m (val_str ct) (val_str ct + 33) = ''application/x-www-form-urlencoded'');
           multi = (\<not> urlenc \<and> val_len ct > 18 \<and> seg m (val_str ct) (val_str ct + 19) = ''multipart/form-data'');
           c = c\<lparr>cn_urlenc := urlenc, cn_multipart := multi\<rparr> in
       if \<not> urlenc \<and> \<not> multi then Some (Http_Error 415, c)
       else let clv = word_of_int (atoi (cstr (drop (val_str cl) m))) :: uint;
                c = c\<lparr>cn_content_length_val := clv\<rparr> in
         if unat clv > HTTP_MAX_REQUEST_BODY_SIZE then Some (Http_Error 413, c)
         else if unat clv > HTTP_REQUEST_BODY_SIZE_STORE_IN_FILE
         then do { d \<leftarrow> memcpy_at (replicate (unat clv + 1) u) 0 (seg m start (start + len));
                   post_done (c\<lparr>cn_map := Some d\<rparr>) }
         else post_done (c\<lparr>cn_b := fst (buf_expand_i u base (cn_b c) (sint (clv - of_nat len + 1)))\<rparr>)))"

text \<open>
  The empty line was found at index \<open>i\<close> of the \<open>r\<close> bytes received at offset \<open>off\<close>.
\<close>

definition serve_head :: "('k \<Rightarrow> bool \<times> 'k) \<Rightarrow> char \<Rightarrow> int \<Rightarrow> conn \<Rightarrow> 'k \<Rightarrow> nat \<Rightarrow> nat \<Rightarrow> nat \<Rightarrow>
    (serve_result \<times> conn \<times> 'k) option" where
  "serve_head nks u base c k off i r =
     (if unat (b_cur_len (cn_b c)) > HTTP_MAX_HEADERS_SIZE then Some (Http_Error 414, c, k)
      else do {
        d \<leftarrow> wr (b_data (cn_b c)) (off + i - 1) (CHR 0x01);
        (code, h, k) \<leftarrow> http_parse_headers nks ((cn_in c)\<lparr>hi_b := d\<rparr>) k;
        let c = c\<lparr>cn_b := (cn_b c)\<lparr>b_data := hi_b h\<rparr>, cn_in := h\<rparr>;
        if code \<noteq> 0 then Some (Http_Error code, c, k)
        else if \<not> method_post h then Some (Http_Response, c, k)
        else do { (res, c) \<leftarrow> serve_post u base c (off + i + 1) (r - (i + 1)); Some (res, c, k) } })"

text \<open>
  The whole function; \<open>rks\<close> is \<^verbatim>\<open>remove_keepalive_socket\<close>.
\<close>

function http_serve_client :: "('k \<Rightarrow> bool \<times> 'k) \<Rightarrow> ('k \<Rightarrow> 'k) \<Rightarrow> char \<Rightarrow> int \<Rightarrow> conn \<Rightarrow> 'k \<Rightarrow> recv_result list \<Rightarrow>
    (serve_result \<times> conn \<times> 'k \<times> recv_result list) option" where
  "http_serve_client nks rks u base c k rs =
     (let post = method_post (cn_in c);
          c = (if post then c else c\<lparr>cn_b := fst (buf_expand u base (cn_b c) (of_nat HTTP_RECV_BUFFER))\<rparr>);
          off = (if post then cn_body_str c + cn_body_len c else unat (b_cur_len (cn_b c) - of_nat HTTP_RECV_BUFFER));
          n = (if post then unat (cn_content_length_val c - of_nat (cn_body_len c)) else HTTP_RECV_BUFFER);
          closed = c\<lparr>cn_in := (cn_in c)\<lparr>hi_keepalive := False\<rparr>\<rparr> in
      (case recv n rs of
         (Got s, rs') \<Rightarrow>
           if s = [] then Some (Closed, closed, rks k, rs')
           else (case (if post then body_write c (cn_body_len c) s
                  else do { d \<leftarrow> memcpy_at (b_data (cn_b c)) off s;
                            Some (c\<lparr>cn_b := (cn_b c)\<lparr>b_data := d,
                              b_cur_len := b_cur_len (cn_b c) - (of_nat HTTP_RECV_BUFFER - of_nat (length s))\<rparr>\<rparr>) }) of
             None \<Rightarrow> None
           | Some c \<Rightarrow>
             if uri_len (cn_in c) = 0 then
               (case head_end s 4 of
                  Some i \<Rightarrow> map_option (\<lambda>(res, c, k). (res, c, k, rs')) (serve_head nks u base c k off i (length s))
                | None \<Rightarrow>
                    if unat (b_cur_len (cn_b c)) > HTTP_MAX_HEADERS_SIZE then Some (Http_Error 414, c, k, rs')
                    else if length s < HTTP_RECV_BUFFER then Some (Wait, c, k, rs')
                    else http_serve_client nks rks u base c k rs')
             else if \<not> post then Some (Wait, c, k, rs')
             else map_option (\<lambda>(res, c). (res, c, k, rs')) (post_done (c\<lparr>cn_body_len := cn_body_len c + length s\<rparr>)))
       | (Block, rs') \<Rightarrow>
           Some (Wait, c\<lparr>cn_b := (cn_b c)\<lparr>b_cur_len := b_cur_len (cn_b c) - of_nat HTTP_RECV_BUFFER\<rparr>\<rparr>, k, rs')
       | (Gone, rs') \<Rightarrow> Some (Closed, closed, rks k, rs')))"
  by pat_completeness auto
termination
  by (relation "measure (\<lambda>(nks, rks, u, base, c, k, rs). recv_left rs)") (auto intro: recv_left_less [OF sym])

declare http_serve_client.simps [simp del]

section \<open>The pointers follow the buffer\<close>

definition at_base :: "int \<Rightarrow> headers_in \<Rightarrow> nat \<Rightarrow> in_ptrs" where
  "at_base base h body =
     \<lparr>ip_uri = base + int (uri_str h), ip_version = base + int (ver_str h), ip_body = base + int body,
      ip_headers = map (\<lambda>hdr. (base + int (key_str hdr), base + int (val_str hdr))) (hi_p h)\<rparr>"

lemma http_buffer_moved_at_base:
  "http_buffer_moved (base' - base) (at_base base h body) = at_base base' h body"
  by (simp add: http_buffer_moved_def at_base_def)

section \<open>One chunk of the header block\<close>

definition head_inv :: "conn \<Rightarrow> bool" where
  "head_inv c \<longleftrightarrow> buf_inv (cn_b c) \<and> b_node_size (cn_b c) = 1 \<and> unat (b_cur_len (cn_b c)) \<le> HTTP_MAX_HEADERS_SIZE \<and>
     \<not> method_post (cn_in c) \<and> uri_len (cn_in c) = 0 \<and> hi_p (cn_in c) = [] \<and> cn_map c = None \<and>
     cn_content_type c = None \<and> cn_content_length c = None"

abbreviation received :: "conn \<Rightarrow> string" where
  "received c \<equiv> buf_used (cn_b c)"

lemma length_received: "buf_inv b \<Longrightarrow> b_node_size b = 1 \<Longrightarrow> length (buf_used b) = unat (b_cur_len b)"
  by (simp add: buf_used_def buf_inv_def)

lemma chunk_received:
  fixes u base b
  defines "b1 \<equiv> fst (buf_expand u base b (of_nat HTTP_RECV_BUFFER))"
  assumes inv: "buf_inv b" "b_node_size b = 1" and room: "unat (b_cur_len b) + HTTP_RECV_BUFFER < 2 ^ 32"
    and s: "length s \<le> HTTP_RECV_BUFFER"
  shows "unat (b_cur_len b1 - of_nat HTTP_RECV_BUFFER) = unat (b_cur_len b) \<and>
    (\<exists>d. memcpy_at (b_data b1) (unat (b_cur_len b)) s = Some d \<and>
       (let b' = b1\<lparr>b_data := d, b_cur_len := b_cur_len b1 - (of_nat HTTP_RECV_BUFFER - of_nat (length s))\<rparr> in
         buf_inv b' \<and> b_node_size b' = 1 \<and> buf_used b' = buf_used b @ s))"
proof -
  define n where "n = unat (b_cur_len b)"
  obtain off where e: "buf_expand u base b (of_nat HTTP_RECV_BUFFER) = (b1, off)" by (metis b1_def prod.collapse)
  have R: "unat (of_nat HTTP_RECV_BUFFER :: uint) = HTTP_RECV_BUFFER" by (simp add: HTTP_RECV_BUFFER_def)
  have ns: "b_node_size b1 = 1" and c: "b_cur_len b1 = b_cur_len b + of_nat HTTP_RECV_BUFFER"
    using e inv by (auto simp: buf_expand_def buf_grow_def split: if_splits)
  have b1: "buf_inv b1" "unat (b_cur_len b1) = n + HTTP_RECV_BUFFER" "take n (buf_used b1) = buf_used b"
    using buf_expand_law [OF inv(1) _ e] room inv by (auto simp: buf_fits_def R n_def length_received)
  have len: "n + HTTP_RECV_BUFFER \<le> length (b_data b1)" using b1(1,2) ns by (simp add: buf_inv_def)
  have cur: "b_cur_len b1 - (of_nat HTTP_RECV_BUFFER - of_nat (length s)) = b_cur_len b + of_nat (length s)" by (simp add: c)
  have m: "unat (b_cur_len b + of_nat (length s)) = n + length s"
    using s room by (subst unat_add_lem [THEN iffD1]) (auto simp: n_def unat_of_nat HTTP_RECV_BUFFER_def)
  have t: "take n (b_data b1) = buf_used b" using b1(2,3) ns len by (simp add: buf_used_def [of b1] min.absorb1)
  let ?d = "take n (b_data b1) @ s @ drop (n + length s) (b_data b1)"
  have "memcpy_at (b_data b1) n s = Some ?d" using s len by (simp add: memcpy_at_def)
  moreover have "buf_inv (b1\<lparr>b_data := ?d, b_cur_len := b_cur_len b + of_nat (length s)\<rparr>)"
    using b1(1) ns s len by (simp add: buf_inv_def m)
  moreover have "buf_used (b1\<lparr>b_data := ?d, b_cur_len := b_cur_len b + of_nat (length s)\<rparr>) = buf_used b @ s"
    using ns len by (simp add: buf_used_def [of "b1\<lparr>b_data := _, b_cur_len := _\<rparr>"] m t [symmetric])
  ultimately show ?thesis using ns by (simp add: cur n_def c Let_def)
qed

text \<open>A chunk that arrives while the header block is incomplete is appended to the buffer and searched.\<close>

lemma serve_chunk:
  assumes inv: "head_inv c" and s: "s \<noteq> []" "length s \<le> HTTP_RECV_BUFFER"
  shows "\<exists>b'. buf_inv b' \<and> b_node_size b' = 1 \<and> buf_used b' = received c @ s \<and>
    http_serve_client nks rks u base c k (Got s # rs) =
      (case head_end s 4 of
         Some i \<Rightarrow> map_option (\<lambda>(res, c, k). (res, c, k, rs))
                    (serve_head nks u base (c\<lparr>cn_b := b'\<rparr>) k (length (received c)) i (length s))
       | None \<Rightarrow>
           if length (received c @ s) > HTTP_MAX_HEADERS_SIZE then Some (Http_Error 414, c\<lparr>cn_b := b'\<rparr>, k, rs)
           else if length s < HTTP_RECV_BUFFER then Some (Wait, c\<lparr>cn_b := b'\<rparr>, k, rs)
           else http_serve_client nks rks u base (c\<lparr>cn_b := b'\<rparr>) k rs)"
proof -
  let ?b = "cn_b c"
  define b1 where "b1 = fst (buf_expand u base ?b (of_nat HTTP_RECV_BUFFER))"
  have i: "buf_inv ?b" "b_node_size ?b = 1" "unat (b_cur_len ?b) + HTTP_RECV_BUFFER < 2 ^ 32" "\<not> method_post (cn_in c)"
    "uri_len (cn_in c) = 0" using inv by (auto simp: head_inv_def serve_limits)
  obtain d b' where d: "unat (b_cur_len b1 - of_nat HTTP_RECV_BUFFER) = unat (b_cur_len ?b)"
    "memcpy_at (b_data b1) (unat (b_cur_len ?b)) s = Some d"
    "b' = b1\<lparr>b_data := d, b_cur_len := b_cur_len b1 - (of_nat HTTP_RECV_BUFFER - of_nat (length s))\<rparr>"
    and b': "buf_inv b'" "b_node_size b' = 1" "buf_used b' = received c @ s"
    using chunk_received [OF i(1-3) s(2), of u base] unfolding b1_def Let_def by blast
  have l: "unat (b_cur_len b') = length (received c @ s)" "length (received c) = unat (b_cur_len ?b)"
    using b' i length_received [of b'] length_received [of ?b] by auto
  have r: "recv HTTP_RECV_BUFFER (Got s # rs) = (Got s, rs)" using s by simp
  show ?thesis
    by (rule exI [of _ b'], intro conjI b', subst http_serve_client.simps)
      (use i r d s l in \<open>simp del: recv.simps add: Let_def b1_def [symmetric] split: option.split\<close>)
qed

section \<open>The empty line\<close>

abbreviation blank_line :: string where "blank_line \<equiv> [CR, LF, CR, LF]"

lemma head_end_SomeD:
  "head_end s i = Some j \<Longrightarrow> i \<le> j \<and> j < length s \<and> s ! j = LF \<and> s ! (j - 1) = CR \<and> s ! (j - 2) = LF \<and> s ! (j - 3) = CR"
proof (induction s i rule: head_end.induct)
  case (1 s i)
  then show ?case by (subst (asm) head_end.simps) (auto split: if_splits)
qed

lemma head_end_finds:
  "\<lbrakk>i \<le> j; j < length s; s ! j = LF; s ! (j - 1) = CR; s ! (j - 2) = LF; s ! (j - 3) = CR;
    \<And>k. i \<le> k \<Longrightarrow> k < j \<Longrightarrow> \<not> (s ! k = LF \<and> s ! (k - 1) = CR \<and> s ! (k - 2) = LF \<and> s ! (k - 3) = CR)\<rbrakk>
   \<Longrightarrow> head_end s i = Some j"
proof (induction s i rule: head_end.induct)
  case (1 s i)
  show ?case
  proof (cases "i = j")
    case True
    then show ?thesis using "1.prems" by (simp add: head_end.simps)
  next
    case False
    then have "head_end s (Suc i) = Some j" using "1.prems" by (intro "1.IH") auto
    then show ?thesis using "1.prems" False by (subst head_end.simps) auto
  qed
qed

lemma four_nth:
  assumes "3 \<le> k" "k < length s" "s ! k = d" "s ! (k - 1) = c" "s ! (k - 2) = b" "s ! (k - 3) = a"
  shows "occurs [a, b, c, d] (take (Suc k) s)"
proof -
  define j where "j = k - 3"
  have j: "k = j + 3" using assms(1) by (simp add: j_def)
  have "take (Suc k) s = take j s @ [s ! j, s ! (j + 1), s ! (j + 2), s ! (j + 3)]"
    using assms(2) by (simp add: j take_Suc_conv_app_nth numeral_eq_Suc)
  then have "take (Suc k) s = take j s @ [a, b, c, d] @ []" using assms(3-6) by (simp add: j)
  then show ?thesis unfolding occurs_iff by blast
qed

lemma occurs_take: "occurs n (take i s) \<Longrightarrow> i \<le> j \<Longrightarrow> occurs n (take j s)"
  unfolding occurs_iff by (metis append.assoc append_take_drop_id min.absorb1 take_take)

lemma head_end_first:
  assumes "s = a @ blank_line" "a \<noteq> []" "\<not> occurs blank_line (butlast s)"
  shows "head_end (s @ rest) 4 = Some (length s - 1)"
proof (rule head_end_finds)
  have l: "length s = length a + 4" using assms(1) by simp
  then show "4 \<le> length s - 1" "length s - 1 < length (s @ rest)" using assms(2) by (cases a; simp)+
  show "(s @ rest) ! (length s - 1) = LF" "(s @ rest) ! (length s - 1 - 1) = CR" "(s @ rest) ! (length s - 1 - 2) = LF"
    "(s @ rest) ! (length s - 1 - 3) = CR" using assms(1) by (simp_all add: nth_append)
  fix k assume k: "4 \<le> k" "k < length s - 1"
  show "\<not> ((s @ rest) ! k = LF \<and> (s @ rest) ! (k - 1) = CR \<and> (s @ rest) ! (k - 2) = LF \<and> (s @ rest) ! (k - 3) = CR)"
  proof
    assume "(s @ rest) ! k = LF \<and> (s @ rest) ! (k - 1) = CR \<and> (s @ rest) ! (k - 2) = LF \<and> (s @ rest) ! (k - 3) = CR"
    then have "occurs blank_line (take (Suc k) (s @ rest))" using k by (intro four_nth) auto
    then have "occurs blank_line (take (length s - 1) (s @ rest))" using k by (elim occurs_take) simp
    then show False using assms(3) by (simp add: butlast_conv_take)
  qed
qed

lemma head_end_short: "length s \<le> 4 \<Longrightarrow> head_end s 4 = None"
  by (simp add: head_end.simps)

section \<open>A request that arrives in pieces\<close>

text \<open>The calls of \<^verbatim>\<open>http_serve_client\<close> the event loop makes as segments arrive, until one does not wait.\<close>

fun serve_segments :: "('k \<Rightarrow> bool \<times> 'k) \<Rightarrow> ('k \<Rightarrow> 'k) \<Rightarrow> char \<Rightarrow> int \<Rightarrow> conn \<Rightarrow> 'k \<Rightarrow> string list \<Rightarrow>
    (serve_result \<times> conn \<times> 'k \<times> recv_result list) option" where
  "serve_segments nks rks u base c k [] = Some (Wait, c, k, [])"
| "serve_segments nks rks u base c k (s # ss) =
     (case http_serve_client nks rks u base c k [Got s] of
        None \<Rightarrow> None
      | Some (Wait, c', k', []) \<Rightarrow> serve_segments nks rks u base c' k' ss
      | Some (r, c', k', rs) \<Rightarrow> Some (r, c', k', rs @ map Got ss))"

lemma serve_segment_waits:
  assumes inv: "head_inv c" and s: "s \<noteq> []" "length s < HTTP_RECV_BUFFER" "head_end s 4 = None"
    "length (received c @ s) \<le> HTTP_MAX_HEADERS_SIZE"
  shows "\<exists>c'. http_serve_client nks rks u base c k [Got s] = Some (Wait, c', k, []) \<and> head_inv c' \<and> received c' = received c @ s"
proof -
  obtain b' where "buf_inv b'" "b_node_size b' = 1" "buf_used b' = received c @ s"
    "http_serve_client nks rks u base c k [Got s] = Some (Wait, c\<lparr>cn_b := b'\<rparr>, k, [])"
    using serve_chunk [OF inv s(1), of nks rks u base k "[]"] s by auto
  moreover from this have "head_inv (c\<lparr>cn_b := b'\<rparr>)"
    using inv s(4) length_received [of b'] by (simp add: head_inv_def)
  ultimately show ?thesis by (intro exI [of _ "c\<lparr>cn_b := b'\<rparr>"]) simp
qed

text \<open>
  The end of the header block is only searched inside each received piece, and not at its
  first byte: a request none of whose pieces contains the whole empty line behind its first byte (for
  instance one that is sent byte by byte, or whose last line feed arrives alone) is never answered,
  although it was received completely.
\<close>

theorem http_serve_client_stalls:
  assumes "head_inv c" "\<forall>s \<in> set ss. s \<noteq> [] \<and> length s < HTTP_RECV_BUFFER \<and> head_end s 4 = None"
    "length (received c @ concat ss) \<le> HTTP_MAX_HEADERS_SIZE"
  shows "\<exists>c'. serve_segments nks rks u base c k ss = Some (Wait, c', k, []) \<and> received c' = received c @ concat ss"
  using assms
proof (induction ss arbitrary: c)
  case (Cons s ss)
  obtain c1 where c1: "http_serve_client nks rks u base c k [Got s] = Some (Wait, c1, k, [])" "head_inv c1" "received c1 = received c @ s"
    using serve_segment_waits [OF Cons.prems(1), of s nks rks u base k] Cons.prems(2,3) by auto
  have "\<exists>c'. serve_segments nks rks u base c1 k ss = Some (Wait, c', k, []) \<and> received c' = received c1 @ concat ss"
    using Cons.prems(2,3) c1(2,3) by (intro Cons.IH) auto
  then show ?case using c1 by auto
qed simp

text \<open>A connection that is ready for a request.\<close>

definition fresh_conn :: conn where
  "fresh_conn = \<lparr>cn_b = \<lparr>b_cur_len = 0, b_reserved_len = 0, b_node_size = 1, b_base = 0, b_data = []\<rparr>,
     cn_in = \<lparr>hi_b = [], method_get = False, method_post = False, method_head = False, uri_str = 0, uri_len = 0,
       ver_str = 0, ver_len = 0, hi_p = [], hi_alloc = 0, hi_keepalive = False\<rparr>,
     cn_body_str = 0, cn_body_len = 0, cn_content_type = None, cn_content_length = None, cn_content_length_val = 0,
     cn_multipart = False, cn_urlenc = False, cn_map = None\<rparr>"

lemma fresh_conn_inv: "head_inv fresh_conn \<and> received fresh_conn = []"
  by (simp add: head_inv_def fresh_conn_def buf_inv_def buf_used_def)

theorem http_serve_client_stalls_witness:
  "\<exists>c'. serve_segments (\<lambda>k. (True, k)) id CHR ''u'' 0 fresh_conn () [''GET / HTTP/1.0'' @ [CR, LF, CR], [LF]] =
      Some (Wait, c', (), []) \<and> received c' = ''GET / HTTP/1.0'' @ [CR, LF, CR, LF]"
  using http_serve_client_stalls [of fresh_conn "[''GET / HTTP/1.0'' @ [CR, LF, CR], [LF]]" "\<lambda>k. (True, k)" id "CHR ''u''" 0 "()"]
    fresh_conn_inv by (simp add: serve_limits head_end.simps)

section \<open>The body of a POST request\<close>

definition body_mem :: "conn \<Rightarrow> nat \<Rightarrow> string" where
  "body_mem c n = (case cn_map c of None \<Rightarrow> take n (drop (cn_body_str c) (b_data (cn_b c))) | Some m \<Rightarrow> take n m)"

definition body_room :: "conn \<Rightarrow> bool" where
  "body_room c \<longleftrightarrow> (case cn_map c of
      None \<Rightarrow> cn_body_str c + unat (cn_content_length_val c) < length (b_data (cn_b c))
    | Some m \<Rightarrow> unat (cn_content_length_val c) < length m)"

definition post_inv :: "conn \<Rightarrow> bool" where
  "post_inv c \<longleftrightarrow> method_post (cn_in c) \<and> 0 < uri_len (cn_in c) \<and> cn_body_len c < unat (cn_content_length_val c) \<and> body_room c"

abbreviation body_bytes :: "conn \<Rightarrow> string" where
  "body_bytes c \<equiv> body_mem c (cn_body_len c)"

lemma take_memcpy: "k + length s \<le> length m \<Longrightarrow> take (k + length s) (take k m @ s @ drop (k + length s) m) = take k m @ s"
  by simp

lemma take_take_append: "n \<le> k \<Longrightarrow> k \<le> length xs \<Longrightarrow> take n (take k xs @ ys) = take n xs"
  by (simp add: min_def)

lemma body_write_ok:
  assumes "body_room c" "k + length s \<le> Suc (unat (cn_content_length_val c))"
  shows "\<exists>b m. body_write c k s = Some (c\<lparr>cn_b := b, cn_map := m\<rparr>) \<and> body_room (c\<lparr>cn_b := b, cn_map := m\<rparr>) \<and>
     (\<forall>n \<le> k. body_mem (c\<lparr>cn_b := b, cn_map := m\<rparr>) n = body_mem c n) \<and>
     body_mem (c\<lparr>cn_b := b, cn_map := m\<rparr>) (k + length s) = body_mem c k @ s"
proof (cases "cn_map c")
  case None
  let ?d = "b_data (cn_b c)" and ?o = "cn_body_str c"
  have l: "?o + k + length s \<le> length ?d" using assms None by (simp add: body_room_def)
  let ?d' = "take (?o + k) ?d @ s @ drop (?o + k + length s) ?d"
  have "body_write c k s = Some (c\<lparr>cn_b := (cn_b c)\<lparr>b_data := ?d'\<rparr>, cn_map := None\<rparr>)"
    using None l by (cases c) (simp add: body_write_def memcpy_at_def)
  moreover have d: "drop ?o ?d' = take k (drop ?o ?d) @ s @ drop (?o + k + length s) ?d"
    using l by (simp add: drop_take)
  moreover have "take n (drop ?o ?d') = take n (drop ?o ?d)" if "n \<le> k" for n
    unfolding d using that l by (intro take_take_append) simp_all
  moreover have "take (k + length s) (drop ?o ?d') = take k (drop ?o ?d) @ s" unfolding d using l by simp
  ultimately show ?thesis using None assms(1) l
    by (intro exI [of _ "(cn_b c)\<lparr>b_data := ?d'\<rparr>"] exI [of _ None]) (simp add: body_room_def body_mem_def)
next
  case (Some m)
  have l: "k + length s \<le> length m" using assms Some by (simp add: body_room_def)
  let ?m = "take k m @ s @ drop (k + length s) m"
  have "body_write c k s = Some (c\<lparr>cn_b := cn_b c, cn_map := Some ?m\<rparr>)"
    using Some l by (cases c) (simp add: body_write_def memcpy_at_def)
  then show ?thesis using Some assms(1) l take_memcpy [OF l]
    by (intro exI [of _ "cn_b c"] exI [of _ "Some ?m"]) (auto simp: body_room_def body_mem_def min_def)
qed

text \<open>The label \<^verbatim>\<open>_post_\<close>: a body that is complete is cut to its length and terminated.\<close>

lemma post_done_ok:
  assumes "body_room c"
  shows "\<exists>c'. post_done c = Some (if unat (cn_content_length_val c) \<le> cn_body_len c then Http_Response else Wait, c') \<and>
     cn_in c' = cn_in c \<and> body_room c' \<and> cn_content_length_val c' = cn_content_length_val c \<and>
     cn_body_len c' = min (cn_body_len c) (unat (cn_content_length_val c)) \<and>
     body_bytes c' = body_mem c (min (cn_body_len c) (unat (cn_content_length_val c)))"
proof (cases "unat (cn_content_length_val c) \<le> cn_body_len c")
  case True
  obtain b m where b: "body_write c (unat (cn_content_length_val c)) [NUL] = Some (c\<lparr>cn_b := b, cn_map := m\<rparr>)"
    "body_room (c\<lparr>cn_b := b, cn_map := m\<rparr>)"
    "\<forall>n \<le> unat (cn_content_length_val c). body_mem (c\<lparr>cn_b := b, cn_map := m\<rparr>) n = body_mem c n"
    using body_write_ok [OF assms, of "unat (cn_content_length_val c)" "[NUL]"] by auto
  let ?c = "c\<lparr>cn_b := b, cn_map := m, cn_body_len := unat (cn_content_length_val c)\<rparr>"
  have "body_mem ?c n = body_mem (c\<lparr>cn_b := b, cn_map := m\<rparr>) n" for n by (cases m) (simp_all add: body_mem_def)
  moreover have "body_room ?c" using b(2) by (cases m) (simp_all add: body_room_def)
  ultimately show ?thesis using b True by (intro exI [of _ ?c]) (simp add: post_done_def)
next
  case False
  then show ?thesis using assms by (simp add: post_done_def)
qed

lemma serve_body:
  fixes c :: conn
  defines "n \<equiv> unat (cn_content_length_val c) - cn_body_len c"
  assumes inv: "post_inv c" and s: "s \<noteq> []"
  shows "\<exists>c'. http_serve_client nks rks u base c k [Got s] =
       Some (if length s < n then Wait else Http_Response, c', k, if length s \<le> n then [] else [Got (drop n s)]) \<and>
     cn_in c' = cn_in c \<and> cn_content_length_val c' = cn_content_length_val c \<and>
     body_bytes c' = body_bytes c @ take n s \<and> cn_body_len c' = cn_body_len c + min (length s) n \<and> (length s < n \<longrightarrow> post_inv c')"
proof -
  let ?l = "unat (cn_content_length_val c)" and ?k = "cn_body_len c"
  have i: "method_post (cn_in c)" "0 < uri_len (cn_in c)" "?k < ?l" "body_room c" using inv by (auto simp: post_inv_def)
  have k: "unat (of_nat ?k :: uint) = ?k" using i(3) unsigned_less [of "cn_content_length_val c", where 'a = nat] by (simp add: unat_of_nat)
  have n: "unat (cn_content_length_val c - of_nat ?k) = n" "0 < n"
    using i(3) k by (simp_all add: n_def unat_sub word_le_nat_alt)
  have r: "recv n [Got s] = (Got (take n s), if length s \<le> n then [] else [Got (drop n s)])" by simp
  have ne: "take n s \<noteq> []" using n(2) s by simp
  have fit: "?k + length (take n s) \<le> Suc ?l" using i(3) by (simp add: n_def)
  obtain b m where b: "body_write c ?k (take n s) = Some (c\<lparr>cn_b := b, cn_map := m\<rparr>)" "body_room (c\<lparr>cn_b := b, cn_map := m\<rparr>)"
    "body_mem (c\<lparr>cn_b := b, cn_map := m\<rparr>) (?k + length (take n s)) = body_mem c ?k @ take n s"
    using body_write_ok [OF i(4) fit] by blast
  let ?c = "c\<lparr>cn_b := b, cn_map := m, cn_body_len := ?k + length (take n s)\<rparr>"
  have room: "body_room ?c" using b(2) by (cases m) (simp_all add: body_room_def)
  have mem: "body_mem ?c (?k + length (take n s)) = body_bytes c @ take n s" using b(3) by (cases m) (simp_all add: body_mem_def)
  have le: "?k + length (take n s) \<le> ?l" "(?l \<le> ?k + length (take n s)) = (\<not> length s < n)" using i(3) by (auto simp: n_def)
  obtain c' where c': "post_done ?c = Some (if length s < n then Wait else Http_Response, c')" "cn_in c' = cn_in c" "body_room c'"
    "cn_content_length_val c' = cn_content_length_val c" "cn_body_len c' = ?k + length (take n s)"
    "body_bytes c' = body_bytes c @ take n s"
    using post_done_ok [OF room] le mem by (auto simp: min_def split: if_splits)
  have "http_serve_client nks rks u base c k [Got s] =
      Some (if length s < n then Wait else Http_Response, c', k, if length s \<le> n then [] else [Got (drop n s)])"
    by (subst http_serve_client.simps) (use i r n ne b(1) c'(1) in \<open>simp del: recv.simps add: Let_def\<close>)
  moreover have "post_inv c'" if "length s < n" using i c' that by (simp add: post_inv_def n_def)
  ultimately show ?thesis using c' by (intro exI [of _ c']) simp
qed

lemma serve_body_segments:
  assumes "post_inv c" "\<forall>s \<in> set ss. s \<noteq> []"
  shows "\<exists>r c' rs. serve_segments nks rks u base c k ss = Some (r, c', k, rs) \<and>
     body_bytes c' = take (unat (cn_content_length_val c)) (body_bytes c @ concat ss) \<and>
     r = (if length (body_bytes c @ concat ss) < unat (cn_content_length_val c) then Wait else Http_Response)"
  using assms
proof (induction ss arbitrary: c)
  case Nil
  have "length (body_bytes c) = cn_body_len c" "cn_body_len c < unat (cn_content_length_val c)"
    using Nil.prems(1) by (auto simp: post_inv_def body_room_def body_mem_def split: option.splits)
  then show ?case by simp
next
  case (Cons s ss)
  let ?l = "unat (cn_content_length_val c)" and ?n = "unat (cn_content_length_val c) - cn_body_len c"
  have len: "length (body_bytes c) = cn_body_len c" "cn_body_len c < ?l"
    using Cons.prems(1) by (auto simp: post_inv_def body_room_def body_mem_def split: option.splits)
  obtain c1 where c1: "http_serve_client nks rks u base c k [Got s] =
       Some (if length s < ?n then Wait else Http_Response, c1, k, if length s \<le> ?n then [] else [Got (drop ?n s)])"
     "cn_content_length_val c1 = cn_content_length_val c"
     "body_bytes c1 = body_bytes c @ take ?n s" "length s < ?n \<longrightarrow> post_inv c1"
    using serve_body [OF Cons.prems(1), of s nks rks u base k] Cons.prems(2) by (auto simp del: append_take_drop_id)
  show ?case
  proof (cases "length s < ?n")
    case True
    then have "\<exists>r c' rs. serve_segments nks rks u base c1 k ss = Some (r, c', k, rs) \<and>
       body_bytes c' = take (unat (cn_content_length_val c1)) (body_bytes c1 @ concat ss) \<and>
       r = (if length (body_bytes c1 @ concat ss) < unat (cn_content_length_val c1) then Wait else Http_Response)"
      using c1(4) Cons.prems(2) by (intro Cons.IH) auto
    then show ?thesis using True c1(1-3) by simp
  next
    case False
    then have "serve_segments nks rks u base c k (s # ss) =
        Some (Http_Response, c1, k, (if length s \<le> ?n then [] else [Got (drop ?n s)]) @ map Got ss)"
      using c1(1) by simp
    moreover have "body_bytes c1 = take ?l (body_bytes c @ concat (s # ss))"
      using False len c1(3) by simp
    moreover have "\<not> length (body_bytes c @ concat (s # ss)) < ?l" using False len by simp
    ultimately show ?thesis by auto
  qed
qed

section \<open>A request that arrives whole\<close>

text \<open>The header block as a client sends it.\<close>

definition client_text :: "string \<Rightarrow> string \<Rightarrow> string \<Rightarrow> (string \<times> string) list \<Rightarrow> string" where
  "client_text method uri ver kvs =
     method @ '' '' @ uri @ '' HTTP/'' @ ver @ [CR, LF] @ concat (map line_text kvs) @ [CR, LF]"

lemma lines_end: "\<exists>a. concat (map line_text kvs) = [] \<or> concat (map line_text kvs) = a @ [CR, LF]"
  by (cases kvs rule: rev_cases) (auto simp: line_text_def)

lemma client_text_blank: "\<exists>a. client_text method uri ver kvs = a @ blank_line \<and> a \<noteq> []"
proof -
  consider "concat (map line_text kvs) = []" | a where "concat (map line_text kvs) = a @ [CR, LF]" using lines_end by blast
  then show ?thesis
  proof cases
    case 1
    then show ?thesis by (intro exI [of _ "method @ '' '' @ uri @ '' HTTP/'' @ ver"]) (simp add: client_text_def)
  next
    case 2
    then show ?thesis by (intro exI [of _ "method @ '' '' @ uri @ '' HTTP/'' @ ver @ [CR, LF] @ a"]) (simp add: client_text_def)
  qed
qed

lemma client_text_marked:
  "(client_text method uri ver kvs @ r)[length (client_text method uri ver kvs) - 2 := CHR 0x01] = request_text method uri ver kvs @ r"
proof -
  let ?a = "method @ '' '' @ uri @ '' HTTP/'' @ ver @ [CR, LF] @ concat (map line_text kvs)"
  have c: "client_text method uri ver kvs = ?a @ [CR, LF]" and q: "request_text method uri ver kvs = ?a @ [CHR 0x01, LF]"
    by (simp_all add: client_text_def request_text_def)
  show ?thesis unfolding c q using list_update_length [of ?a CR "LF # r" "CHR 0x01"] by simp
qed

text \<open>A well-formed header block that arrives in one piece, with bytes behind it: what is left to do is \<^const>\<open>serve_post\<close>.\<close>

definition well_formed :: "string \<Rightarrow> string \<Rightarrow> string \<Rightarrow> (string \<times> string) list \<Rightarrow> bool" where
  "well_formed method uri ver kvs \<longleftrightarrow> method \<in> {''GET'', ''POST'', ''HEAD''} \<and> uri \<noteq> [] \<and> uri ! 0 = CHR ''/'' \<and>
     CHR '' '' \<notin> set uri \<and> CR \<notin> set ver \<and> (\<forall>kv \<in> set kvs. line_ok kv) \<and>
     \<not> occurs blank_line (butlast (client_text method uri ver kvs))"

definition parsed :: "string \<Rightarrow> string \<Rightarrow> (string \<times> string) list \<Rightarrow> conn \<Rightarrow> bool" where
  "parsed method uri kvs c \<longleftrightarrow>
     (let m = b_data (cn_b c); h = cn_in c in
      seg m (uri_str h) (uri_str h + uri_len h) = uri \<and> uri_len h = length uri \<and> rd m (uri_str h + uri_len h) = Some NUL \<and> (method_post h \<longleftrightarrow> method = ''POST'') \<and>
      map (header_text m) (hi_p h) = map (\<lambda>kv. (map TO_LOWER (fst kv), snd kv)) kvs \<and> (\<forall>hdr \<in> set (hi_p h). header_well m hdr))"

lemma serve_whole_head:
  fixes nks :: "'k \<Rightarrow> bool \<times> 'k" and c k kvs
  defines "ka \<equiv> keepalive_after nks kvs (hi_keepalive (cn_in c), k)"
  assumes inv: "head_inv c" "received c = []" and wf: "well_formed method uri ver kvs"
    and s: "s = client_text method uri ver kvs @ rest" "length s \<le> HTTP_RECV_BUFFER"
  shows "\<exists>c'. http_serve_client nks rks u base c k (Got s # rs) =
      (if method \<noteq> ''POST'' then Some (Http_Response, c', snd ka, rs)
       else map_option (\<lambda>(res, c). (res, c, snd ka, rs))
              (serve_post u base c' (length (client_text method uri ver kvs)) (length rest))) \<and>
     parsed method uri kvs c' \<and> hi_keepalive (cn_in c') = fst ka \<and> buf_inv (cn_b c') \<and> b_node_size (cn_b c') = 1 \<and>
     unat (b_cur_len (cn_b c')) = length s \<and> cn_map c' = None \<and> cn_content_type c' = None \<and> cn_content_length c' = None \<and>
     take (length rest) (drop (length (client_text method uri ver kvs)) (b_data (cn_b c'))) = rest"
proof -
  let ?t = "client_text method uri ver kvs"
  obtain a where a: "?t = a @ blank_line" "a \<noteq> []" using client_text_blank by blast
  have tl: "5 \<le> length ?t" using a by (cases a) simp_all
  have he: "head_end s 4 = Some (length ?t - 1)" unfolding s(1) using a wf by (intro head_end_first) (auto simp: well_formed_def)
  have ne: "s \<noteq> []" using s(1) a by simp
  obtain b' where b': "buf_inv b'" "b_node_size b' = 1" "buf_used b' = s" and
    sv: "http_serve_client nks rks u base c k (Got s # rs) = map_option (\<lambda>(res, c, k). (res, c, k, rs))
           (serve_head nks u base (c\<lparr>cn_b := b'\<rparr>) k 0 (length ?t - 1) (length s))"
    using serve_chunk [OF inv(1) ne s(2), of nks rks u base k rs] he inv(2) by auto
  have cur: "unat (b_cur_len b') = length s" using length_received [OF b'(1,2)] b'(3) by simp
  define junk where "junk = drop (length s) (b_data b')"
  have data: "b_data b' = ?t @ rest @ junk"
    using b' cur s(1) append_take_drop_id [of "length s" "b_data b'"] by (simp add: buf_used_def junk_def)
  define d where "d = request_text method uri ver kvs @ rest @ junk"
  have w: "wr (b_data b') (length ?t - 1 - 1) (CHR 0x01) = Some d"
    using client_text_marked [of "method" uri ver kvs "rest @ junk"] tl unfolding data d_def by (simp add: wr_def numeral_eq_Suc)
  let ?h = "(cn_in c)\<lparr>hi_b := d\<rparr>"
  have rt: "length (request_text method uri ver kvs) = length ?t" by (simp add: request_text_def client_text_def)
  have hi: "\<not> method_post (cn_in c)" "uri_len ?h = 0" "hi_p ?h = []" using inv(1) by (simp_all add: head_inv_def)
  have wf': "method \<in> {''GET'', ''POST'', ''HEAD''}" "uri ! 0 = CHR ''/''" "uri \<noteq> []" "CHR '' '' \<notin> set uri" "CR \<notin> set ver"
    "\<forall>kv \<in> set kvs. line_ok kv" using wf unfolding well_formed_def by blast+
  have hb: "hi_b ?h = request_text method uri ver kvs @ rest @ junk" by (simp add: d_def)
  have hk: "hi_keepalive ?h = hi_keepalive (cn_in c)" and mp: "method_post ?h = False" using hi(1) by simp_all
  obtain h' where h': "http_parse_headers nks ?h k = Some (0, h', snd ka)" "seg (hi_b h') (uri_str h') (uri_str h' + uri_len h') = uri"
    "map (header_text (hi_b h')) (hi_p h') = map (\<lambda>kv. (map TO_LOWER (fst kv), snd kv)) kvs" "hi_keepalive h' = fst ka"
    "uri_len h' = length uri" "method_post h' \<longleftrightarrow> method = ''POST'' \<or> False" "\<forall>hdr \<in> set (hi_p h'). header_well (hi_b h') hdr"
    "drop (length ?t) (hi_b h') = rest @ junk" "rd (hi_b h') (uri_str h' + uri_len h') = Some NUL"
    using http_parse_headers_text [OF wf' hb hi(2,3), of nks k, unfolded hk mp rt, folded ka_def]
    by (elim exE conjE) (rule that; assumption)
  define c' where "c' = c\<lparr>cn_b := b'\<lparr>b_data := hi_b h'\<rparr>, cn_in := h'\<rparr>"
  have len: "length (hi_b h') = length (b_data b')"
    using http_parse_headers_frame [OF h'(1)] rt by (simp add: data d_def)
  have le: "length s \<le> HTTP_MAX_HEADERS_SIZE" using s(2) by (simp add: serve_limits)
  define n where "n = length ?t"
  have n: "length s = n + length rest" "5 \<le> n" and w': "wr (b_data b') (n - Suc (Suc 0)) (CHR 0x01) = Some d"
    using s(1) tl w by (simp_all add: n_def)
  have "serve_head nks u base (c\<lparr>cn_b := b'\<rparr>) k 0 (n - 1) (length s) =
      (if method \<noteq> ''POST'' then Some (Http_Response, c', snd ka)
       else map_option (\<lambda>(res, c). (res, c, snd ka)) (serve_post u base c' n (length rest)))"
    using cur le w' h'(1,6) n
    by (simp add: serve_head_def c'_def Let_def map_conv_bind_option comp_def split_def)
  then have sh: "serve_head nks u base (c\<lparr>cn_b := b'\<rparr>) k 0 (length ?t - 1) (length s) =
      (if method \<noteq> ''POST'' then Some (Http_Response, c', snd ka)
       else map_option (\<lambda>(res, c). (res, c, snd ka)) (serve_post u base c' (length ?t) (length rest)))"
    unfolding n_def .
  have "http_serve_client nks rks u base c k (Got s # rs) =
      (if method \<noteq> ''POST'' then Some (Http_Response, c', snd ka, rs)
       else map_option (\<lambda>(res, c). (res, c, snd ka, rs)) (serve_post u base c' (length ?t) (length rest)))"
    unfolding sv sh by (simp add: option.map_comp comp_def split_def)
  moreover have "parsed method uri kvs c'" using h' by (simp add: parsed_def c'_def)
  moreover have "buf_inv (cn_b c')" using b'(1) len by (simp add: c'_def buf_inv_def)
  moreover have "take (length rest) (drop (length ?t) (b_data (cn_b c'))) = rest" using h'(8) by (simp add: c'_def)
  ultimately show ?thesis using h'(4) b'(2) cur inv(1) by (intro exI [of _ c']) (simp add: c'_def head_inv_def)
qed

lemma find_map: "find P (map f xs) = map_option f (find (\<lambda>x. P (f x)) xs)"
  by (induction xs) auto

lemma key_test: "length lit = n \<Longrightarrow> length (seg m i (i + k)) = k \<Longrightarrow> k = n \<and> seg m i (i + n) = lit \<longleftrightarrow> seg m i (i + k) = lit"
  by auto

lemma prefix_test: "length lit = Suc n \<Longrightarrow> length (seg m i (i + k)) = k \<Longrightarrow>
    n < k \<and> seg m i (i + Suc n) = lit \<longleftrightarrow> is_prefix lit (seg m i (i + k))"
proof -
  assume l: "length lit = Suc n" "length (seg m i (i + k)) = k"
  show ?thesis
  proof (cases "n < k")
    case True
    then have "seg m i (i + Suc n) = take (Suc n) (seg m i (i + k))" by (simp add: seg_def min_def)
    then show ?thesis using l True by (simp add: is_prefix_take)
  next
    case False
    then have "\<not> is_prefix lit (seg m i (i + k))" using l by (auto simp: is_prefix_iff dest!: arg_cong [of _ _ length])
    then show ?thesis using False by simp
  qed
qed

lemma post_headers_find:
  "\<forall>hdr \<in> set hs. header_well m hdr \<Longrightarrow>
   post_headers m hs ct cl =
     (case ct of None \<Rightarrow> find (\<lambda>hdr. fst (header_text m hdr) = ''content-type'') hs | Some x \<Rightarrow> Some x,
      case cl of None \<Rightarrow> find (\<lambda>hdr. fst (header_text m hdr) = ''content-length'') hs | Some x \<Rightarrow> Some x)"
proof (induction hs arbitrary: ct cl)
  case (Cons hdr hs)
  let ?k = "seg m (key_str hdr) (key_str hdr + key_len hdr)"
  have l: "length ?k = key_len hdr" using Cons.prems by (simp add: header_well_def header_text_def)
  have e: "key_len hdr = 12 \<and> seg m (key_str hdr) (key_str hdr + 12) = ''content-type'' \<longleftrightarrow> ?k = ''content-type''"
    "key_len hdr = 14 \<and> seg m (key_str hdr) (key_str hdr + 14) = ''content-length'' \<longleftrightarrow> ?k = ''content-length''"
    by (rule key_test [OF _ l]; simp)+
  have IH: "post_headers m hs ct cl =
     (case ct of None \<Rightarrow> find (\<lambda>hdr. fst (header_text m hdr) = ''content-type'') hs | Some x \<Rightarrow> Some x,
      case cl of None \<Rightarrow> find (\<lambda>hdr. fst (header_text m hdr) = ''content-length'') hs | Some x \<Rightarrow> Some x)" for ct cl
    using Cons by simp
  consider "?k = ''content-type''" | "?k = ''content-length''" | "?k \<noteq> ''content-type''" "?k \<noteq> ''content-length''" by blast
  then show ?case
  proof cases
    case 1
    then have "key_len hdr = 12" "seg m (key_str hdr) (key_str hdr + 12) = ''content-type''" using e(1) by blast+
    then show ?thesis using 1 by (cases ct) (simp_all add: IH header_text_def split: option.split)
  next
    case 2
    then have "key_len hdr = 14" "seg m (key_str hdr) (key_str hdr + 14) = ''content-length''" using e(2) by blast+
    then show ?thesis using 2 by (cases cl) (simp_all add: IH header_text_def split: option.split)
  next
    case 3
    then have "\<not> (key_len hdr = 12 \<and> seg m (key_str hdr) (key_str hdr + 12) = ''content-type'')"
      "\<not> (key_len hdr = 14 \<and> seg m (key_str hdr) (key_str hdr + 14) = ''content-length'')" using e by blast+
    then have "post_headers m (hdr # hs) ct cl = post_headers m hs ct cl" by auto
    then show ?thesis using 3 by (simp add: IH header_text_def split: option.split)
  qed
qed (simp split: option.split)

text \<open>What a POST request's headers lead to: an error, or the length of its body.\<close>

definition header_value :: "string \<Rightarrow> (string \<times> string) list \<Rightarrow> string option" where
  "header_value name kvs = map_option snd (find (\<lambda>kv. map TO_LOWER (fst kv) = name) kvs)"

definition post_verdict :: "(string \<times> string) list \<Rightarrow> nat + nat" where
  "post_verdict kvs =
     (case header_value ''content-type'' kvs of
        None \<Rightarrow> Inl 400
      | Some ct \<Rightarrow>
         (case header_value ''content-length'' kvs of
            None \<Rightarrow> Inl 411
          | Some cl \<Rightarrow>
              if ct \<noteq> ''application/x-www-form-urlencoded'' \<and> \<not> is_prefix ''multipart/form-data'' ct then Inl 415
              else if atoi cl < 0 \<or> atoi cl > int HTTP_MAX_REQUEST_BODY_SIZE then Inl 413
              else Inr (nat (atoi cl))))"

lemma unat_atoi: "unat (word_of_int (atoi s) :: uint) =
    (if atoi s < 0 then nat (2 ^ 32 + atoi s) else nat (atoi s))"
proof (cases "atoi s < 0")
  case True
  then have "atoi s mod 2 ^ 32 = (2 ^ 32 + atoi s) mod 2 ^ 32" by simp
  also have "\<dots> = 2 ^ 32 + atoi s" using True atoi_in_range [of s] by (intro mod_pos_pos_trivial) auto
  finally show ?thesis using True by (simp add: unsigned_of_int take_bit_eq_mod)
next
  case False
  then have "atoi s mod 2 ^ 32 = atoi s" using atoi_in_range [of s] by (intro mod_pos_pos_trivial) auto
  then show ?thesis using False by (simp add: unsigned_of_int take_bit_eq_mod)
qed

lemma too_big_iff:
  "unat (word_of_int (atoi s) :: uint) > HTTP_MAX_REQUEST_BODY_SIZE \<longleftrightarrow> atoi s < 0 \<or> atoi s > int HTTP_MAX_REQUEST_BODY_SIZE"
  "\<not> atoi s < 0 \<Longrightarrow> nat (atoi s) = unat (word_of_int (atoi s) :: uint)"
  using atoi_in_range [of s] by (auto simp: unat_atoi HTTP_MAX_REQUEST_BODY_SIZE_def)

lemma body_in_file:
  assumes "cn_body_len c = length rest" "length rest \<le> unat (cn_content_length_val c)"
  shows "memcpy_at (replicate (unat (cn_content_length_val c) + 1) u) 0 rest =
      Some (rest @ replicate (unat (cn_content_length_val c) + 1 - length rest) u) \<and>
    (let c' = c\<lparr>cn_map := Some (rest @ replicate (unat (cn_content_length_val c) + 1 - length rest) u)\<rparr> in
      body_room c' \<and> (\<forall>n \<le> length rest. body_mem c' n = take n rest))"
  using assms by (simp add: memcpy_at_def body_room_def body_mem_def drop_replicate flip: replicate_Suc)

lemma body_in_buffer:
  fixes c :: conn
  defines "n \<equiv> unat (cn_content_length_val c)"
  assumes b: "buf_inv (cn_b c)" "b_node_size (cn_b c) = 1" "unat (b_cur_len (cn_b c)) = start + len"
    and c: "cn_map c = None" "cn_body_str c = start" and small: "start + n + len + 1 < 2 ^ 32"
    and rest: "take len (drop start (b_data (cn_b c))) = rest"
    and c': "c' = c\<lparr>cn_b := fst (buf_expand_i u base (cn_b c) (sint (cn_content_length_val c - of_nat len + 1)))\<rparr>"
  shows "body_room c' \<and> (\<forall>k \<le> min len n. body_mem c' k = take k rest)"
proof -
  let ?b = "(cn_b c)\<lparr>b_cur_len := b_cur_len (cn_b c) + (cn_content_length_val c - of_nat len + 1)\<rparr>"
  obtain b' off where g: "buf_grow u base ?b = (b', off)" by (meson surj_pair)
  have cb: "cn_b c' = b'" using g by (simp add: c' buf_expand_i_def)
  have cur: "b_cur_len (cn_b c) = of_nat (start + len)" using b(3) by (metis word_unat_eq_iff unat_of_nat unsigned_less mod_less of_nat_unat)
  have "b_cur_len ?b = of_nat (start + n + 1)" by (simp add: cur n_def)
  then have un: "unat (b_cur_len ?b) = start + n + 1" using small by (simp only: unat_of_nat) simp
  let ?k = "start + min len n"
  have res: "unat (b_node_size ?b) * unat (b_reserved_len ?b) \<le> length (b_data ?b)" using b(1) by (simp add: buf_inv_def)
  have fits: "buf_fits ?b (unat (b_cur_len ?b))" using small b(2) unfolding un by (simp add: buf_fits_def)
  have k: "?k \<le> unat (b_node_size ?b) * unat (b_cur_len ?b)" "?k \<le> length (b_data ?b)"
    using b unfolding un by (auto simp: buf_inv_def min_def)
  have b': "buf_inv b'" "b_cur_len b' = b_cur_len ?b" "b_node_size b' = 1" "take ?k (b_data b') = take ?k (b_data (cn_b c))"
    using buf_grow_ok [OF res fits g k] b(2) by auto
  have "start + n < length (b_data b')" using b'(1-3) un by (simp add: buf_inv_def)
  moreover have "take k (drop start (b_data b')) = take k rest" if "k \<le> min len n" for k
  proof -
    have "take k (drop start (b_data b')) = drop start (take (start + k) (take ?k (b_data b')))" using that by (simp add: drop_take)
    also have "\<dots> = take k (take len (drop start (b_data (cn_b c))))" unfolding b'(4) using that by (simp add: drop_take min.absorb1)
    finally show ?thesis unfolding rest .
  qed
  moreover have "cn_map c' = None" "cn_body_str c' = start" "unat (cn_content_length_val c') = n"
    using c by (simp_all add: c' n_def)
  ultimately show ?thesis by (simp add: body_room_def body_mem_def cb)
qed

lemma serve_post_ok:
  assumes p: "parsed method uri kvs c" and b: "buf_inv (cn_b c)" "b_node_size (cn_b c) = 1" "unat (b_cur_len (cn_b c)) = start + len"
    and c: "cn_map c = None" "cn_content_type c = None" "cn_content_length c = None" and small: "len \<le> HTTP_RECV_BUFFER"
    "start \<le> HTTP_MAX_HEADERS_SIZE"
    and rest: "take len (drop start (b_data (cn_b c))) = rest" "length rest = len"
  shows "case post_verdict kvs of
      Inl code \<Rightarrow> \<exists>c'. serve_post u base c start len = Some (Http_Error code, c')
    | Inr n \<Rightarrow> \<exists>c'. serve_post u base c start len = Some (if len < n then Wait else Http_Response, c') \<and>
        cn_in c' = cn_in c \<and> unat (cn_content_length_val c') = n \<and> body_bytes c' = take n rest \<and>
        cn_body_len c' = min len n \<and> body_room c'"
proof -
  let ?m = "b_data (cn_b c)" and ?hs = "hi_p (cn_in c)"
  have hw: "\<forall>hdr \<in> set ?hs. header_well ?m hdr" and
    hm: "map (header_text ?m) ?hs = map (\<lambda>kv. (map TO_LOWER (fst kv), snd kv)) kvs" using p by (auto simp: parsed_def Let_def)
  define F where "F name = find (\<lambda>hdr. fst (header_text ?m hdr) = name) ?hs" for name
  have ph: "post_headers ?m ?hs None None = (F ''content-type'', F ''content-length'')"
    using post_headers_find [OF hw, of None None] by (simp add: F_def)
  have hv: "header_value name kvs = map_option (\<lambda>hdr. snd (header_text ?m hdr)) (F name)" for name
    using arg_cong [OF hm, of "\<lambda>l. map_option snd (find (\<lambda>p. fst p = name) l)"]
    by (simp add: find_map F_def header_value_def option.map_comp comp_def)
  have Fw: "header_well ?m hdr" if "F name = Some hdr" for name hdr
    using that hw unfolding F_def find_Some_iff by (metis nth_mem)
  show ?thesis
  proof (cases "F ''content-type''")
    case None
    then show ?thesis using ph hv c by (simp add: post_verdict_def serve_post_def)
  next
    case ct: (Some ct)
    show ?thesis
    proof (cases "F ''content-length''")
      case None
      then show ?thesis using ct ph hv c by (simp add: post_verdict_def serve_post_def)
    next
      case cl: (Some cl)
      let ?ct = "snd (header_text ?m ct)" and ?cl = "snd (header_text ?m cl)"
      have tl: "length (seg ?m (val_str ct) (val_str ct + val_len ct)) = val_len ct" "?ct = seg ?m (val_str ct) (val_str ct + val_len ct)"
        using Fw [OF ct] by (simp_all add: header_well_def header_text_def)
      have ue: "val_len ct = 33 \<and> seg ?m (val_str ct) (val_str ct + 33) = ''application/x-www-form-urlencoded'' \<longleftrightarrow>
          ?ct = ''application/x-www-form-urlencoded''" unfolding tl(2) by (rule key_test [OF _ tl(1)]) simp
      have mp: "val_len ct > 18 \<and> seg ?m (val_str ct) (val_str ct + 19) = ''multipart/form-data'' \<longleftrightarrow> is_prefix ''multipart/form-data'' ?ct"
        unfolding tl(2) using prefix_test [OF _ tl(1), of "''multipart/form-data''" 18] by simp
      have cv: "cstr (drop (val_str cl) ?m) = ?cl" using Fw [OF cl] by (simp add: header_well_def)
      define clv where "clv = (word_of_int (atoi ?cl) :: uint)"
      define c1 where "c1 = c\<lparr>cn_body_str := start, cn_body_len := len, cn_content_type := Some ct, cn_content_length := Some cl,
         cn_urlenc := ?ct = ''application/x-www-form-urlencoded'',
         cn_multipart := ?ct \<noteq> ''application/x-www-form-urlencoded'' \<and> is_prefix ''multipart/form-data'' ?ct\<rparr>"
      define c2 where "c2 = c1\<lparr>cn_content_length_val := clv\<rparr>"
      have sp: "serve_post u base c start len =
        (if ?ct \<noteq> ''application/x-www-form-urlencoded'' \<and> \<not> is_prefix ''multipart/form-data'' ?ct then Some (Http_Error 415, c1)
         else if unat clv > HTTP_MAX_REQUEST_BODY_SIZE then Some (Http_Error 413, c2)
         else if unat clv > HTTP_REQUEST_BODY_SIZE_STORE_IN_FILE
         then do { d \<leftarrow> memcpy_at (replicate (unat clv + 1) u) 0 (seg ?m start (start + len)); post_done (c2\<lparr>cn_map := Some d\<rparr>) }
         else post_done (c2\<lparr>cn_b := fst (buf_expand_i u base (cn_b c) (sint (clv - of_nat len + 1)))\<rparr>))"
        unfolding serve_post_def c(2,3) ph Let_def prod.case ct cl option.case ue mp cv clv_def [symmetric]
        by (simp add: c1_def c2_def)
      have pv: "post_verdict kvs = (if ?ct \<noteq> ''application/x-www-form-urlencoded'' \<and> \<not> is_prefix ''multipart/form-data'' ?ct then Inl 415
         else if unat clv > HTTP_MAX_REQUEST_BODY_SIZE then Inl 413 else Inr (unat clv))"
        by (simp add: post_verdict_def hv ct cl clv_def too_big_iff)
      have v: "cn_content_length_val c2 = clv" "cn_body_len c2 = len" "cn_in c2 = cn_in c" "cn_map c2 = None" "cn_body_str c2 = start"
        "cn_b c2 = cn_b c" using c by (simp_all add: c1_def c2_def)
      have body: "\<exists>c'. post_done c3 = Some (if len < unat clv then Wait else Http_Response, c') \<and> cn_in c' = cn_in c \<and>
          unat (cn_content_length_val c') = unat clv \<and> body_bytes c' = take (unat clv) rest \<and> cn_body_len c' = min len (unat clv) \<and> body_room c'"
        if "body_room c3" "\<forall>k \<le> min len (unat clv). body_mem c3 k = take k rest" "cn_content_length_val c3 = clv" "cn_body_len c3 = len"
          "cn_in c3 = cn_in c" for c3
        using post_done_ok [OF that(1)] that rest(2) by (auto simp: not_less min_def)
      have inf: "\<exists>c3. do { d \<leftarrow> memcpy_at (replicate (unat clv + 1) u) 0 (seg ?m start (start + len)); post_done (c2\<lparr>cn_map := Some d\<rparr>) } = post_done c3 \<and>
          body_room c3 \<and> (\<forall>k \<le> min len (unat clv). body_mem c3 k = take k rest) \<and> cn_content_length_val c3 = clv \<and> cn_body_len c3 = len \<and> cn_in c3 = cn_in c"
        if "unat clv > HTTP_REQUEST_BODY_SIZE_STORE_IN_FILE"
        using body_in_file [of c2 rest u] that small rest v by (auto simp: serve_limits seg_def Let_def)
      have buf: "\<exists>c3. post_done (c2\<lparr>cn_b := fst (buf_expand_i u base (cn_b c) (sint (clv - of_nat len + 1)))\<rparr>) = post_done c3 \<and>
          body_room c3 \<and> (\<forall>k \<le> min len (unat clv). body_mem c3 k = take k rest) \<and> cn_content_length_val c3 = clv \<and> cn_body_len c3 = len \<and> cn_in c3 = cn_in c"
        if "unat clv \<le> HTTP_REQUEST_BODY_SIZE_STORE_IN_FILE"
        using body_in_buffer [of c2 start len rest _ u base] that small rest(1) b v by (auto simp: serve_limits)
      show ?thesis
        unfolding pv sp using body inf buf by (auto split: if_splits simp: not_less)
    qed
  qed
qed

text \<open>
  C9.  A well-formed GET or HEAD request that arrives in one piece is answered at once, from exactly
  the URI and the headers the client sent, and the connection is kept alive as the headers ask.
\<close>

theorem http_serve_client_request:
  assumes "head_inv c" "received c = []" "well_formed method uri ver kvs" "method \<noteq> ''POST''"
    "length (client_text method uri ver kvs @ rest) \<le> HTTP_RECV_BUFFER"
  shows "\<exists>c'. http_serve_client nks rks u base c k (Got (client_text method uri ver kvs @ rest) # rs) =
       Some (Http_Response, c', snd (keepalive_after nks kvs (hi_keepalive (cn_in c), k)), rs) \<and> parsed method uri kvs c' \<and>
     hi_keepalive (cn_in c') = fst (keepalive_after nks kvs (hi_keepalive (cn_in c), k))"
  using serve_whole_head [OF assms(1-3) refl assms(5), where nks = nks and k = k and rks = rks and u = u and base = base and rs = rs] assms(4) by auto

theorem http_serve_client_request_witness:
  "\<exists>c'. http_serve_client (\<lambda>n. (True, Suc n)) id CHR ''u'' 0 fresh_conn 0 [Got (client_text ''GET'' ''/x'' ''1.1'' [(''Host'', ''h'')])] =
       Some (Http_Response, c', 0, []) \<and> parsed ''GET'' ''/x'' [(''Host'', ''h'')] c'"
proof -
  have low: "map TO_LOWER ''Host'' = ''host''" by (simp add: TO_LOWER_def IS_UPPER_def char_of_def bit_Suc_0_iff)
  have "\<not> asks_keepalive (''Host'', ''h'')" unfolding asks_keepalive_def fst_conv snd_conv low by simp
  then have ka: "keepalive_after (\<lambda>n. (True, Suc n)) [(''Host'', ''h'')] (hi_keepalive (cn_in fresh_conn), 0) = (False, 0)"
    by (simp add: fresh_conn_def)
  have wf: "well_formed ''GET'' ''/x'' ''1.1'' [(''Host'', ''h'')]"
    by (simp add: well_formed_def line_ok_def IS_SYM_def client_text_def line_text_def)
  have l: "length (client_text ''GET'' ''/x'' ''1.1'' [(''Host'', ''h'')] @ []) \<le> HTTP_RECV_BUFFER"
    by (simp add: client_text_def line_text_def HTTP_RECV_BUFFER_def)
  have m: "''GET'' \<noteq> ''POST''" by simp
  show ?thesis
    using http_serve_client_request [OF fresh_conn_inv [THEN conjunct1] fresh_conn_inv [THEN conjunct2] wf m l,
        of "\<lambda>n. (True, Suc n)" id "CHR ''u''" 0 0 "[]"] unfolding ka append_Nil2 by auto
qed

text \<open>
  C10.  A POST request whose header block arrives in the first piece, whatever follows it there and
  in the later pieces: the headers decide between the errors 400, 411, 413 and 415 and a length, and in
  the latter case the request is answered exactly when that many bytes have arrived, with these bytes as
  its body.  The body lies in the receive buffer or in a mapped file, and no write leaves either.
\<close>

theorem http_serve_client_post:
  assumes c: "head_inv c" "received c = []" and wf: "well_formed ''POST'' uri ver kvs"
    and fits: "length (client_text ''POST'' uri ver kvs @ rest) \<le> HTTP_RECV_BUFFER" and ss: "\<forall>s \<in> set ss. s \<noteq> []"
  shows "\<exists>r c' k' rs. serve_segments nks rks u base c k ((client_text ''POST'' uri ver kvs @ rest) # ss) = Some (r, c', k', rs) \<and>
     k' = snd (keepalive_after nks kvs (hi_keepalive (cn_in c), k)) \<and>
     (case post_verdict kvs of
        Inl code \<Rightarrow> r = Http_Error code
      | Inr n \<Rightarrow> r = (if length (rest @ concat ss) < n then Wait else Http_Response) \<and> body_bytes c' = take n (rest @ concat ss))"
proof -
  let ?t = "client_text ''POST'' uri ver kvs" and ?k = "snd (keepalive_after nks kvs (hi_keepalive (cn_in c), k))"
  obtain c1 where sv: "http_serve_client nks rks u base c k [Got (?t @ rest)] =
      map_option (\<lambda>(res, c). (res, c, ?k, [])) (serve_post u base c1 (length ?t) (length rest))"
    and c1: "parsed ''POST'' uri kvs c1" "buf_inv (cn_b c1)" "b_node_size (cn_b c1) = 1" "unat (b_cur_len (cn_b c1)) = length ?t + length rest"
      "cn_map c1 = None" "cn_content_type c1 = None" "cn_content_length c1 = None"
      "take (length rest) (drop (length ?t) (b_data (cn_b c1))) = rest"
    using serve_whole_head [OF c wf refl fits, where nks = nks and k = k and rks = rks and u = u and base = base and rs = "[]"] by auto
  have small: "length rest \<le> HTTP_RECV_BUFFER" "length ?t \<le> HTTP_MAX_HEADERS_SIZE" using fits by (simp_all add: serve_limits)
  note sp = serve_post_ok [OF c1(1-7) small c1(8) refl, of u base]
  show ?thesis
  proof (cases "post_verdict kvs")
    case (Inl code)
    then obtain c' where "serve_post u base c1 (length ?t) (length rest) = Some (Http_Error code, c')" using sp by auto
    then show ?thesis using sv Inl by simp
  next
    case (Inr n)
    then obtain c2 where c2: "serve_post u base c1 (length ?t) (length rest) = Some (if length rest < n then Wait else Http_Response, c2)"
      "cn_in c2 = cn_in c1" "unat (cn_content_length_val c2) = n" "body_bytes c2 = take n rest" "cn_body_len c2 = min (length rest) n" "body_room c2"
      using sp by auto
    show ?thesis
    proof (cases "length rest < n")
      case True
      have "method_post (cn_in c1)" "uri_len (cn_in c1) = length uri" "uri \<noteq> []"
        using c1(1) wf by (auto simp: parsed_def Let_def well_formed_def)
      then have "post_inv c2" using True c2 by (simp add: post_inv_def)
      from serve_body_segments [OF this ss, of nks rks u base ?k] show ?thesis using sv Inr c2 True by simp
    next
      case False
      then show ?thesis using sv Inr c2 by simp
    qed
  qed
qed

theorem http_serve_client_post_witness:
  "\<exists>c' k' rs. serve_segments (\<lambda>n. (True, Suc n)) id CHR ''u'' 0 fresh_conn (0 :: nat)
      [client_text ''POST'' ''/'' ''1.0'' [(''content-type'', ''application/x-www-form-urlencoded''), (''content-length'', ''3'')] @ ''a'', ''='', ''bc''] =
      Some (Http_Response, c', k', rs) \<and> body_bytes c' = ''a=b''"
proof -
  define kvs where "kvs = [(''content-type'', ''application/x-www-form-urlencoded''), (''content-length'', ''3'')]"
  have low: "map TO_LOWER ''content-type'' = ''content-type''" "map TO_LOWER ''content-length'' = ''content-length''"
    by (simp_all add: TO_LOWER_def IS_UPPER_def)
  have hv: "header_value ''content-type'' kvs = Some ''application/x-www-form-urlencoded''" "header_value ''content-length'' kvs = Some ''3''"
    unfolding header_value_def kvs_def by (simp_all only: find.simps fst_conv low) simp_all
  have "atoi ''3'' = 3" by (simp add: atoi_def strtol_def isspace_def IS_DIGIT_def signed_take_bit_int_eq_self)
  then have pv: "post_verdict kvs = Inr 3" unfolding post_verdict_def hv option.case by (simp add: HTTP_MAX_REQUEST_BODY_SIZE_def)
  have wf: "well_formed ''POST'' ''/'' ''1.0'' kvs"
    by (simp add: kvs_def well_formed_def line_ok_def IS_SYM_def client_text_def line_text_def)
  have l: "length (client_text ''POST'' ''/'' ''1.0'' kvs @ ''a'') \<le> HTTP_RECV_BUFFER"
    by (simp add: kvs_def client_text_def line_text_def HTTP_RECV_BUFFER_def)
  have "\<forall>s \<in> set [''='', ''bc'']. s \<noteq> []" by simp
  from http_serve_client_post [OF fresh_conn_inv [THEN conjunct1] fresh_conn_inv [THEN conjunct2] wf l this,
      of "\<lambda>n. (True, Suc n)" id "CHR ''u''" 0 0]
  show ?thesis unfolding kvs_def [symmetric] pv by auto
qed

end
