(* ===== verification/Memcache.thy ===== *)
theory Memcache
  imports Buffers Common_Strings
begin

unbundle bit_operations_syntax

text \<open>
  The content cache (\<^verbatim>\<open>memcache.c\<close>) and the preprocessor that fills it
  (\<^verbatim>\<open>static_content_preprocessor.c\<close>).  The names of all entries lie in one byte buffer and the entries
  hold absolute pointers into it, which are corrected whenever the buffer moves.  The block of an entry
  holds its value and, behind it, the value as a gzip member.  \<^verbatim>\<open>deflate\<close> and \<^verbatim>\<open>crc32\<close> belong to zlib:
  what the successive calls of \<^verbatim>\<open>deflate\<close> return is an argument (\<open>calls\<close>), and so is \<open>crc\<close>.
\<close>

section \<open>Entries and their gzip member\<close>

record cache_t =
  c_key_str :: int
  c_key_len :: nat
  c_mem :: mem
  c_value_len :: nat
  c_gz_str :: nat
  c_gz_len :: nat
  c_update :: "(int \<Rightarrow> string \<Rightarrow> string option) option"
  c_time :: int

datatype z_result = Z_OK | Z_STREAM_END | Z_FAILED

definition GZIP_BUFFER_SIZE :: nat where "GZIP_BUFFER_SIZE = 512"

definition GZIP_HEADER :: string where
  "GZIP_HEADER = map char_of [0x1F, 0x8B, 8, 0, 0, 0, 0, 0, 0, 3 :: nat]"

text \<open>A 32-bit number in memory, lowest byte first (on a big-endian machine the code swaps the bytes).\<close>

definition le32 :: "32 word \<Rightarrow> string" where
  "le32 w = map (\<lambda>i. char_of (unat (drop_bit (8 * i) w AND 0xFF))) [0..<4]"

lemma length_gzip_parts [simp]: "length GZIP_HEADER = 10" "length (le32 w) = 4"
  by (simp_all add: GZIP_HEADER_def le32_def)

text \<open>
  The compression loop: \<open>vl\<close> is the length of the value, \<open>len\<close> the space made for the compressed data.
  The result: did it succeed, \<open>len\<close>, the space left over in the last step, and the block.
\<close>

fun gz_loop :: "char \<Rightarrow> nat \<Rightarrow> (z_result \<times> string) list \<Rightarrow> nat \<Rightarrow> mem \<Rightarrow> (bool \<times> nat \<times> nat \<times> mem) option" where
  "gz_loop u vl [] len m = None"
| "gz_loop u vl ((r, bs) # calls) len m =
     (let len = len + GZIP_BUFFER_SIZE;
          m = realloc_list u (vl + len + 18) m;
          avail_out = GZIP_BUFFER_SIZE - length bs in
      do { m \<leftarrow> memcpy_at m (vl + len + 10 - GZIP_BUFFER_SIZE) bs;
           if r = Z_STREAM_END then Some (True, len, avail_out, m)
           else if r \<noteq> Z_OK then Some (False, len, avail_out, m)
           else if avail_out = 0 then gz_loop u vl calls len m
           else Some (True, len, avail_out, m) })"

definition gen_gzipped_value :: "char \<Rightarrow> (z_result \<times> string) list \<Rightarrow> (string \<Rightarrow> 32 word) \<Rightarrow> cache_t \<Rightarrow> cache_t option" where
  "gen_gzipped_value u calls crc c =
     (let vl = c_value_len c in
      do { (ok, len, avail_out, m) \<leftarrow> gz_loop u vl calls 0 (c_mem c);
           if \<not> ok then Some (c\<lparr>c_mem := realloc_list u vl m, c_gz_str := 0, c_gz_len := 0\<rparr>)
           else do {
             let (len, m) = (if avail_out \<noteq> 0 then (len - avail_out, realloc_list u (vl + (len - avail_out) + 18) m) else (len, m));
             m \<leftarrow> memcpy_at m vl GZIP_HEADER;
             m \<leftarrow> memcpy_at m (vl + len + 10) (le32 (crc (take vl m)) @ le32 (of_nat vl));
             Some (c\<lparr>c_mem := m, c_gz_str := vl, c_gz_len := len + 18\<rparr>) } })"

section \<open>The cache\<close>

record cache_state =
  cs_cache :: "cache_t list"
  cs_names :: buf_t

definition key_text :: "buf_t \<Rightarrow> cache_t \<Rightarrow> string" where
  "key_text names c = take (c_key_len c) (drop (nat (c_key_str c - b_base names)) (b_data names))"

text \<open>\<^verbatim>\<open>name->len == c->key.len && memcmp(name->str, c->key.str, name->len) == 0\<close>\<close>

definition key_matches :: "buf_t \<Rightarrow> string \<Rightarrow> cache_t \<Rightarrow> bool" where
  "key_matches names name c \<longleftrightarrow> length name = c_key_len c \<and>
     take (length name) (drop (nat (c_key_str c - b_base names)) (b_data names)) = name"

definition value_text :: "cache_t \<Rightarrow> string" where
  "value_text c = take (c_value_len c) (c_mem c)"

definition gzip_text :: "cache_t \<Rightarrow> string" where
  "gzip_text c = take (c_gz_len c) (drop (c_gz_str c) (c_mem c))"

text \<open>The time of the entry, its text and whether that is the compressed one.\<close>

definition cache_find :: "string \<Rightarrow> bool \<Rightarrow> cache_state \<Rightarrow> (int \<times> string \<times> bool) option" where
  "cache_find name accept_gzip s =
     (case find (key_matches (cs_names s) name) (cs_cache s) of
        None \<Rightarrow> None
      | Some c \<Rightarrow> if accept_gzip \<and> c_gz_len c \<noteq> 0 then Some (c_time c, gzip_text c, True)
                  else Some (c_time c, value_text c, False))"

definition cache_update :: "char \<Rightarrow> (z_result \<times> string) list \<Rightarrow> (string \<Rightarrow> 32 word) \<Rightarrow> int \<Rightarrow> string \<Rightarrow> cache_state \<Rightarrow> cache_state option" where
  "cache_update u calls crc now name s =
     (case find_from (key_matches (cs_names s) name) 0 (cs_cache s) of
        None \<Rightarrow> Some s
      | Some i \<Rightarrow>
          let c = cs_cache s ! i in
          (case c_update c of
             None \<Rightarrow> Some s
           | Some cb \<Rightarrow>
               (case cb (c_time c) name of
                  None \<Rightarrow> Some s
                | Some res \<Rightarrow>
                    do { m \<leftarrow> memcpy_at (realloc_list u (length res) (c_mem c)) 0 res;
                         c \<leftarrow> gen_gzipped_value u calls crc (c\<lparr>c_mem := m, c_value_len := length res, c_time := now\<rparr>);
                         Some (s\<lparr>cs_cache := (cs_cache s)[i := c]\<rparr>) })))"

definition ajust_key_ptrs :: "int \<Rightarrow> cache_t list \<Rightarrow> cache_t list" where
  "ajust_key_ptrs offset = map (\<lambda>c. c\<lparr>c_key_str := c_key_str c + offset\<rparr>)"

definition cache_store :: "char \<Rightarrow> int \<Rightarrow> (z_result \<times> string) list \<Rightarrow> (string \<Rightarrow> 32 word) \<Rightarrow> int \<Rightarrow>
    (int \<Rightarrow> string \<Rightarrow> string option) option \<Rightarrow> string \<Rightarrow> string \<Rightarrow> cache_state \<Rightarrow> cache_state option" where
  "cache_store u base calls crc now cb name data s =
     (let (names, offset) = buf_expand u base (cs_names s) (of_nat (length name));
          cs = (if offset \<noteq> 0 then ajust_key_ptrs offset (cs_cache s) else cs_cache s);
          at = unat (b_cur_len names - of_nat (length name)) in
      do { d \<leftarrow> memcpy_at (b_data names) at name;
           c \<leftarrow> gen_gzipped_value u calls crc
                 \<lparr>c_key_str = b_base names + int at, c_key_len = length name, c_mem = data, c_value_len = length data,
                  c_gz_str = 0, c_gz_len = 0, c_update = cb, c_time = now\<rparr>;
           Some \<lparr>cs_cache = cs @ [c], cs_names = names\<lparr>b_data := d\<rparr>\<rparr> })"

definition cache_free :: "char \<Rightarrow> int \<Rightarrow> cache_state \<Rightarrow> cache_state" where
  "cache_free u base s = \<lparr>cs_cache = [], cs_names = buf_free u base (cs_names s)\<rparr>"

definition cache_create :: "char \<Rightarrow> int \<Rightarrow> cache_state" where
  "cache_create u base = \<lparr>cs_cache = [], cs_names = buf_create u base 1 0\<rparr>"

section \<open>The compressed member\<close>

text \<open>
  What zlib documents of \<^verbatim>\<open>deflate(strm, Z_FINISH)\<close>: it returns \<^verbatim>\<open>Z_OK\<close> as long as the output space is
  used up and \<^verbatim>\<open>Z_STREAM_END\<close> when everything has been put out; \<open>out\<close> is the whole output.
\<close>

fun deflate_ok :: "(z_result \<times> string) list \<Rightarrow> string \<Rightarrow> bool" where
  "deflate_ok [] out \<longleftrightarrow> False"
| "deflate_ok ((r, bs) # calls) out \<longleftrightarrow>
     (if r = Z_OK then length bs = GZIP_BUFFER_SIZE \<and> is_prefix bs out \<and> deflate_ok calls (drop GZIP_BUFFER_SIZE out)
      else r = Z_STREAM_END \<and> length bs \<le> GZIP_BUFFER_SIZE \<and> out = bs)"

text \<open>While the loop runs, the value stands at the start of the block and the output so far from \<open>vl + 10\<close> on.\<close>

definition gz_inv :: "string \<Rightarrow> string \<Rightarrow> mem \<Rightarrow> bool" where
  "gz_inv v d m \<longleftrightarrow> (\<exists>h t. m = v @ h @ d @ t \<and> length h = 10) \<or> d = [] \<and> m = v"

lemma gz_inv_grow:
  assumes "gz_inv v d m" "length v + length d + 10 \<le> n"
  shows "\<exists>h t. realloc_list u n m = v @ h @ d @ t \<and> length h = 10 \<and> length t = n - (length v + length d + 10)"
proof (cases "d = [] \<and> m = v")
  case True
  let ?r = "replicate (n - length v) u"
  have "realloc_list u n m = v @ ?r" using True assms(2) by (simp add: realloc_list_def)
  then have "realloc_list u n m = v @ take 10 ?r @ [] @ drop 10 ?r" by (simp only: append_take_drop_id append_Nil)
  then show ?thesis using True assms(2) by (intro exI [of _ "take 10 ?r"] exI [of _ "drop 10 ?r"]) auto
next
  case False
  then obtain h t where m: "m = v @ h @ d @ t" "length h = 10" using assms(1) by (auto simp: gz_inv_def)
  let ?t = "take (n - (length v + length d + 10)) t @ replicate (n - length m) u"
  have "realloc_list u n m = v @ h @ d @ ?t" using m assms(2) by (simp add: realloc_list_def add_ac)
  moreover have "length ?t = n - (length v + length d + 10)" using m by simp
  ultimately show ?thesis using m(2) by blast
qed

lemma memcpy_at_append: "length a = i \<Longrightarrow> length b = length s \<Longrightarrow> memcpy_at (a @ b @ c) i s = Some (a @ s @ c)"
  by (simp add: memcpy_at_def)

lemma gz_loop_ok:
  assumes "deflate_ok calls out" "gz_inv v d m"
  shows "\<exists>avail h t. gz_loop u (length v) calls (length d) m = Some (True, length d + length out + avail, avail, v @ h @ d @ out @ t) \<and>
     length h = 10 \<and> length t = avail + 8"
  using assms
proof (induction calls arbitrary: out d m)
  case (Cons call calls)
  obtain r bs where call: "call = (r, bs)" by (cases call)
  let ?n = "length v + (length d + GZIP_BUFFER_SIZE) + 18"
  have bs: "length bs \<le> GZIP_BUFFER_SIZE" "r = Z_OK \<or> r = Z_STREAM_END" using Cons.prems(1) call by (auto split: if_splits)
  obtain h t where g: "realloc_list u ?n m = v @ h @ d @ t" "length h = 10" "length t = GZIP_BUFFER_SIZE + 8"
    using gz_inv_grow [OF Cons.prems(2), of ?n u] by auto
  define t1 t2 where "t1 = take (length bs) t" and "t2 = drop (length bs) t"
  have t: "t = t1 @ t2" "length t1 = length bs" "length t2 = GZIP_BUFFER_SIZE + 8 - length bs" using bs g(3) by (auto simp: t1_def t2_def)
  have w: "memcpy_at (realloc_list u ?n m) (length v + (length d + GZIP_BUFFER_SIZE) + 10 - GZIP_BUFFER_SIZE) bs = Some (v @ h @ d @ bs @ t2)"
    using memcpy_at_append [of "v @ h @ d" "length v + (length d + GZIP_BUFFER_SIZE) + 10 - GZIP_BUFFER_SIZE" t1 bs t2] g t by simp
  show ?case
  proof (cases "r = Z_OK")
    case True
    then have b: "length bs = GZIP_BUFFER_SIZE" "is_prefix bs out" "deflate_ok calls (drop GZIP_BUFFER_SIZE out)"
      using Cons.prems(1) call by auto
    have out: "out = bs @ drop GZIP_BUFFER_SIZE out" using b(1,2) by (auto simp: is_prefix_iff)
    have inv: "gz_inv v (d @ bs) (v @ h @ d @ bs @ t2)" using g(2) by (auto simp: gz_inv_def)
    obtain avail h' t' where IH: "gz_loop u (length v) calls (length (d @ bs)) (v @ h @ d @ bs @ t2) =
        Some (True, length (d @ bs) + length (drop GZIP_BUFFER_SIZE out) + avail, avail, v @ h' @ (d @ bs) @ drop GZIP_BUFFER_SIZE out @ t')"
      "length h' = 10" "length t' = avail + 8" using Cons.IH [OF b(3) inv] by blast
    have l: "length out = length bs + length (drop GZIP_BUFFER_SIZE out)" by (subst out) (rule length_append)
    have "gz_loop u (length v) (call # calls) (length d) m = gz_loop u (length v) calls (length (d @ bs)) (v @ h @ d @ bs @ t2)"
      using call True w b(1) by (simp add: Let_def)
    also have "\<dots> = Some (True, length d + length out + avail, avail, v @ h' @ d @ out @ t')"
      unfolding IH(1) using l out by simp
    finally show ?thesis using IH(2,3) by blast
  next
    case False
    then have o: "r = Z_STREAM_END" "out = bs" using Cons.prems(1) call by auto
    have "gz_loop u (length v) (call # calls) (length d) m =
        Some (True, length d + length out + (GZIP_BUFFER_SIZE - length bs), GZIP_BUFFER_SIZE - length bs, v @ h @ d @ out @ t2)"
      using call o w bs(1) by (simp add: Let_def)
    then show ?thesis using g(2) t(3) bs(1) by auto
  qed
qed simp

lemma gen_gzipped_value_law:
  assumes "deflate_ok calls out" "c_mem c = v" "c_value_len c = length v"
  shows "gen_gzipped_value u calls crc c =
    Some (c\<lparr>c_mem := v @ GZIP_HEADER @ out @ le32 (crc v) @ le32 (of_nat (length v)), c_gz_str := length v, c_gz_len := length out + 18\<rparr>)"
proof -
  obtain avail h t where g: "gz_loop u (length v) calls 0 v = Some (True, length out + avail, avail, v @ h @ out @ t)"
    "length h = 10" "length t = avail + 8" using gz_loop_ok [OF assms(1), of v "[]" v u] by (auto simp: gz_inv_def)
  define m where "m = v @ h @ out @ take 8 t"
  have m: "(if avail \<noteq> 0 then (length out + avail - avail, realloc_list u (length v + (length out + avail - avail) + 18) (v @ h @ out @ t))
      else (length out + avail, v @ h @ out @ t)) = (length out, m)"
    using g(2,3) by (simp add: m_def realloc_list_def)
  have w1: "memcpy_at m (length v) GZIP_HEADER = Some (v @ GZIP_HEADER @ out @ take 8 t)"
    unfolding m_def using g(2) by (intro memcpy_at_append) simp_all
  have w2: "memcpy_at (v @ GZIP_HEADER @ out @ take 8 t) (length v + length out + 10) (le32 a @ le32 b) =
      Some (v @ GZIP_HEADER @ out @ le32 a @ le32 b)" for a b
    using memcpy_at_append [of "v @ GZIP_HEADER @ out" "length v + length out + 10" "take 8 t" "le32 a @ le32 b" "[]"] g(3) by simp
  show ?thesis
    unfolding gen_gzipped_value_def Let_def assms(2,3) g(1) bind.bind_lunit prod.case m w1
    using w2 by simp
qed

text \<open>
  The compressed form of a cache entry is a gzip member of its value: behind the unchanged value
  the block holds the gzip header, exactly the output of the compressor however many calls it took, the
  checksum of the value and its length, and it is as long as the entry says.
\<close>

theorem gen_gzipped_value_ok:
  assumes "deflate_ok calls out" "c_mem c = v" "c_value_len c = length v" "gen_gzipped_value u calls crc c = Some c'"
  shows "value_text c' = v \<and> gzip_text c' = GZIP_HEADER @ out @ le32 (crc v) @ le32 (of_nat (length v)) \<and>
     length (c_mem c') = c_gz_str c' + c_gz_len c'"
  using assms(3,4) unfolding gen_gzipped_value_law [OF assms(1-3)] by (auto simp: value_text_def gzip_text_def)

theorem gen_gzipped_value_ok_witness:
  "\<exists>c'. gen_gzipped_value CHR ''u'' [(Z_OK, replicate 512 CHR ''x''), (Z_STREAM_END, ''yz'')] (\<lambda>_. 7)
      \<lparr>c_key_str = 0, c_key_len = 0, c_mem = ''val'', c_value_len = 3, c_gz_str = 0, c_gz_len = 0, c_update = None, c_time = 0\<rparr> = Some c' \<and>
     value_text c' = ''val'' \<and> c_gz_len c' = 532"
proof -
  let ?c = "\<lparr>c_key_str = 0, c_key_len = 0, c_mem = ''val'', c_value_len = 3, c_gz_str = 0, c_gz_len = 0, c_update = None, c_time = 0\<rparr>"
  let ?calls = "[(Z_OK, replicate 512 CHR ''x''), (Z_STREAM_END, ''yz'')]" and ?out = "replicate 512 CHR ''x'' @ ''yz''"
  have d: "deflate_ok ?calls ?out" by (simp add: GZIP_BUFFER_SIZE_def is_prefix_iff)
  have v: "c_mem ?c = ''val''" "c_value_len ?c = length ''val''" by simp_all
  obtain c' where c': "gen_gzipped_value CHR ''u'' ?calls (\<lambda>_. 7) ?c = Some c'" "c_gz_len c' = length ?out + 18"
    using gen_gzipped_value_law [OF d v] by simp
  then show ?thesis using gen_gzipped_value_ok [OF d v c'(1)] by simp
qed

section \<open>Storing and finding\<close>

definition cache_inv :: "cache_state \<Rightarrow> bool" where
  "cache_inv s \<longleftrightarrow> buf_inv (cs_names s) \<and> b_node_size (cs_names s) = 1 \<and>
     (\<forall>c \<in> set (cs_cache s). b_base (cs_names s) \<le> c_key_str c \<and>
        nat (c_key_str c - b_base (cs_names s)) + c_key_len c \<le> unat (b_cur_len (cs_names s)))"

text \<open>What the cache holds, in the order in which it is searched.\<close>

definition cache_view :: "cache_state \<Rightarrow> (string \<times> int \<times> string \<times> string option) list" where
  "cache_view s = map (\<lambda>c. (key_text (cs_names s) c, c_time c, value_text c, if c_gz_len c = 0 then None else Some (gzip_text c))) (cs_cache s)"

definition cache_pick :: "bool \<Rightarrow> int \<times> string \<times> string option \<Rightarrow> int \<times> string \<times> bool" where
  "cache_pick accept_gzip e = (case e of (t, v, gz) \<Rightarrow>
     (case gz of Some z \<Rightarrow> if accept_gzip then (t, z, True) else (t, v, False) | None \<Rightarrow> (t, v, False)))"

lemma key_matches_text:
  assumes "cache_inv s" "c \<in> set (cs_cache s)"
  shows "key_matches (cs_names s) name c \<longleftrightarrow> key_text (cs_names s) c = name"
proof -
  have "nat (c_key_str c - b_base (cs_names s)) + c_key_len c \<le> length (b_data (cs_names s))"
    using assms by (force simp: cache_inv_def buf_inv_def)
  then have "length (key_text (cs_names s) c) = c_key_len c" by (simp add: key_text_def)
  then show ?thesis by (auto simp: key_matches_def key_text_def)
qed

lemma cache_find_view:
  assumes "cache_inv s"
  shows "cache_find name acc s = map_option (cache_pick acc) (map_of (cache_view s) name)"
proof -
  let ?e = "\<lambda>c. (c_time c, value_text c, if c_gz_len c = 0 then None else Some (gzip_text c))"
  have "map_of (map (\<lambda>c. (key_text (cs_names s) c, ?e c)) cs) name = map_option ?e (find (key_matches (cs_names s) name) cs)"
    if "set cs \<subseteq> set (cs_cache s)" for cs
    using that by (induction cs) (use key_matches_text [OF assms] in auto)
  then show ?thesis
    by (simp add: cache_find_def cache_view_def cache_pick_def split: option.split)
qed

lemma buf_expand_off: "buf_expand u base b add = (b', off) \<Longrightarrow> off = b_base b' - b_base b"
  by (auto simp: buf_expand_def buf_grow_def split: if_splits)

definition gzip_member :: "(string \<Rightarrow> 32 word) \<Rightarrow> (z_result \<times> string) list \<Rightarrow> string \<Rightarrow> string" where
  "gzip_member crc calls v = GZIP_HEADER @ concat (map snd calls) @ le32 (crc v) @ le32 (of_nat (length v))"

definition storable :: "cache_state \<Rightarrow> string \<Rightarrow> (z_result \<times> string) list \<Rightarrow> bool" where
  "storable s name calls \<longleftrightarrow> unat (b_cur_len (cs_names s)) + length name < 2 ^ 32 \<and> deflate_ok calls (concat (map snd calls))"

lemma key_text_moved:
  assumes "b_base n \<le> c_key_str c" "nat (c_key_str c - b_base n) + c_key_len c \<le> k" "take k (b_data n') = take k (b_data n)"
  shows "key_text n' (c\<lparr>c_key_str := c_key_str c + (b_base n' - b_base n)\<rparr>) = key_text n c"
proof -
  let ?i = "nat (c_key_str c - b_base n)"
  have "take (c_key_len c) (drop ?i xs) = drop ?i (take (?i + c_key_len c) (take k xs))" for xs :: mem
    using assms(2) by (simp add: drop_take min.absorb1)
  from this [of "b_data n'"] this [of "b_data n"] show ?thesis unfolding assms(3) by (simp add: key_text_def)
qed

lemma cache_store_law:
  assumes inv: "cache_inv s" and st: "storable s name calls"
  shows "\<exists>s'. cache_store u base calls crc now cb name data s = Some s' \<and> cache_inv s' \<and>
     cache_view s' = cache_view s @ [(name, now, data, Some (gzip_member crc calls data))]"
proof -
  let ?n = "cs_names s" and ?k = "unat (b_cur_len (cs_names s))"
  obtain n1 off where e: "buf_expand u base ?n (of_nat (length name)) = (n1, off)" by (meson surj_pair)
  have i: "buf_inv ?n" "b_node_size ?n = 1" using inv by (simp_all add: cache_inv_def)
  have len: "unat (of_nat (length name) :: uint) = length name" using st by (simp add: storable_def unat_of_nat)
  have c1: "b_cur_len n1 = b_cur_len ?n + of_nat (length name)" "b_node_size n1 = 1"
    using e i by (auto simp: buf_expand_def buf_grow_def split: if_splits)
  have n1: "buf_inv n1" "unat (b_cur_len n1) = ?k + length name" "take ?k (buf_used n1) = buf_used ?n"
    using buf_expand_law [OF i(1) _ e] st i by (auto simp: buf_fits_def len storable_def buf_used_def buf_inv_def)
  have off: "off = b_base n1 - b_base ?n" by (rule buf_expand_off [OF e])
  have "at": "unat (b_cur_len n1 - of_nat (length name)) = ?k" by (simp add: c1)
  have d: "?k + length name \<le> length (b_data n1)" using n1(1,2) c1(2) by (simp add: buf_inv_def)
  define d' where "d' = take ?k (b_data n1) @ name @ drop (?k + length name) (b_data n1)"
  have w: "memcpy_at (b_data n1) ?k name = Some d'" using d by (simp add: memcpy_at_def d'_def)
  define n2 where "n2 = n1\<lparr>b_data := d'\<rparr>"
  have n2: "buf_inv n2" "b_node_size n2 = 1" "b_base n2 = b_base n1" "unat (b_cur_len n2) = ?k + length name"
    using n1 c1 d by (simp_all add: n2_def buf_inv_def d'_def)
  have pre: "take ?k (b_data n2) = take ?k (b_data ?n)"
    using n1(2,3) c1(2) i d by (simp add: n2_def d'_def buf_used_def buf_inv_def min.absorb1)
  define move where "move c = c\<lparr>c_key_str := c_key_str c + (b_base n2 - b_base ?n)\<rparr>" for c :: cache_t
  have cs: "(if off \<noteq> 0 then ajust_key_ptrs off (cs_cache s) else cs_cache s) = map move (cs_cache s)"
    by (auto simp: ajust_key_ptrs_def move_def off n2(3) intro!: map_idI [symmetric])
  define c where "c = \<lparr>c_key_str = b_base n2 + int ?k, c_key_len = length name, c_mem = data @ gzip_member crc calls data,
     c_value_len = length data, c_gz_str = length data, c_gz_len = length (concat (map snd calls)) + 18, c_update = cb, c_time = now\<rparr>"
  have "deflate_ok calls (concat (map snd calls))" using st by (simp add: storable_def)
  from gen_gzipped_value_law [OF this] have g: "gen_gzipped_value u calls crc
      \<lparr>c_key_str = b_base n1 + int ?k, c_key_len = length name, c_mem = data, c_value_len = length data,
       c_gz_str = 0, c_gz_len = 0, c_update = cb, c_time = now\<rparr> = Some c"
    by (simp add: c_def gzip_member_def n2(3))
  let ?s = "\<lparr>cs_cache = map move (cs_cache s) @ [c], cs_names = n2\<rparr>"
  have eq: "cache_store u base calls crc now cb name data s = Some ?s"
    unfolding cache_store_def e Let_def prod.case "at" w bind.bind_lunit g cs by (simp add: n2_def)
  have iv: "cache_inv ?s"
    using inv n2 by (auto simp: cache_inv_def move_def c_def)
  have "key_text n2 (move x) = key_text ?n x" if "x \<in> set (cs_cache s)" for x
    unfolding move_def using inv that pre by (intro key_text_moved [where k = ?k]) (auto simp: cache_inv_def)
  moreover have "key_text n2 c = name" using d by (simp add: key_text_def c_def n2_def d'_def)
  moreover have "value_text c = data" "gzip_text c = gzip_member crc calls data" "c_gz_len c \<noteq> 0" "c_time c = now"
    by (simp_all add: value_text_def gzip_text_def c_def gzip_member_def)
  moreover have "value_text (move x) = value_text x" "gzip_text (move x) = gzip_text x" "c_gz_len (move x) = c_gz_len x"
    "c_time (move x) = c_time x" for x by (simp_all add: move_def value_text_def gzip_text_def)
  ultimately have "cache_view ?s = cache_view s @ [(name, now, data, Some (gzip_member crc calls data))]"
    by (simp add: cache_view_def)
  then show ?thesis using eq iv by blast
qed

lemma cache_create_inv: "cache_inv (cache_create u base) \<and> cache_view (cache_create u base) = []"
  using buf_create_inv [of 1 0 u base] by (simp add: cache_inv_def cache_create_def cache_view_def buf_create_def)

lemma cache_free_inv: "cache_inv s \<Longrightarrow> cache_inv (cache_free u base s) \<and> cache_view (cache_free u base s) = []"
  using buf_free_ok [of "cs_names s" u base] by (simp add: cache_inv_def cache_free_def cache_view_def)

section \<open>The cache as its clients see it\<close>

locale content_cache =
  fixes inv :: "'s \<Rightarrow> bool"
    and lookup :: "'s \<Rightarrow> 'n \<Rightarrow> 'e option"
    and put :: "'s \<Rightarrow> 'n \<Rightarrow> 'd \<Rightarrow> 's option"
    and ok :: "'s \<Rightarrow> 'n \<Rightarrow> 'd \<Rightarrow> bool"
    and entry :: "'d \<Rightarrow> 'e"
    and empty :: 's
  assumes empty_law: "inv empty" "lookup empty n = None"
    and put_law: "inv s \<Longrightarrow> ok s n d \<Longrightarrow> \<exists>s'. put s n d = Some s' \<and> inv s' \<and>
        (\<forall>m. lookup s' m = (if m = n \<and> lookup s n = None then Some (entry d) else lookup s m))"
begin

inductive filled :: "('n \<times> 'd) list \<Rightarrow> 's \<Rightarrow> bool" where
  fill_none: "filled [] empty"
| fill_put: "filled ds s \<Longrightarrow> ok s n d \<Longrightarrow> put s n d = Some s' \<Longrightarrow> filled (ds @ [(n, d)]) s'"

lemma filled_lookup: "filled ds s \<Longrightarrow> inv s \<and> (\<forall>m. lookup s m = map_option entry (map_of ds m))"
proof (induction rule: filled.induct)
  case fill_none
  then show ?case using empty_law by simp
next
  case (fill_put ds s n d s')
  then have "inv s'" "\<forall>m. lookup s' m = (if m = n \<and> lookup s n = None then Some (entry d) else lookup s m)"
    using put_law [of s n d] by auto
  then show ?case using fill_put.IH by (auto simp: map_add_def split: option.split)
qed

lemma filled_progress: "filled ds s \<Longrightarrow> ok s n d \<Longrightarrow> \<exists>s'. filled (ds @ [(n, d)]) s'"
  using filled_lookup put_law fill_put by blast

end

definition cache_entry :: "(string \<Rightarrow> 32 word) \<Rightarrow> int \<Rightarrow> bool \<Rightarrow> string \<times> (z_result \<times> string) list \<Rightarrow> int \<times> string \<times> bool" where
  "cache_entry crc now acc d = cache_pick acc (now, fst d, Some (gzip_member crc (snd d) (fst d)))"

interpretation cc: content_cache cache_inv "\<lambda>s n. cache_find n acc s"
    "\<lambda>s n d. cache_store u base (snd d) crc now cb n (fst d) s" "\<lambda>s n d. storable s n (snd d)" "cache_entry crc now acc" "cache_create u base0"
  for acc u base crc now cb base0
proof
  show "cache_inv (cache_create u base0)" "\<And>n. cache_find n acc (cache_create u base0) = None"
    using cache_create_inv cache_find_view by auto
  fix s n and d :: "string \<times> (z_result \<times> string) list"
  assume "cache_inv s" "storable s n (snd d)"
  from cache_store_law [OF this, of u base crc now cb "fst d"]
  obtain s' where "cache_store u base (snd d) crc now cb n (fst d) s = Some s'" "cache_inv s'"
    "cache_view s' = cache_view s @ [(n, now, fst d, Some (gzip_member crc (snd d) (fst d)))]" by blast
  then show "\<exists>s'. cache_store u base (snd d) crc now cb n (fst d) s = Some s' \<and> cache_inv s' \<and>
      (\<forall>m. cache_find m acc s' = (if m = n \<and> cache_find n acc s = None then Some (cache_entry crc now acc d) else cache_find m acc s))"
    using \<open>cache_inv s\<close> by (auto simp: cache_find_view cache_entry_def map_add_def split: option.split)
qed

text \<open>
  C36.  The cache keeps what is stored in it: storing succeeds and keeps all entries consistent although
  the buffer of names may move, the new name is then found with its value (or its gzip member, for a
  client that accepts it), every name that was there before is found as before, and a second entry for
  the same name never hides the first.
\<close>

theorem cache_store_found:
  assumes "cache_inv s" "storable s name calls"
  shows "\<exists>s'. cache_store u base calls crc now cb name data s = Some s' \<and> cache_inv s' \<and>
     (\<forall>m. cache_find m acc s' =
        (if m = name \<and> cache_find name acc s = None
         then Some (if acc then (now, gzip_member crc calls data, True) else (now, data, False)) else cache_find m acc s))"
proof -
  have e: "cache_entry crc now acc (data, calls) = (if acc then (now, gzip_member crc calls data, True) else (now, data, False))"
    by (simp add: cache_entry_def cache_pick_def)
  show ?thesis
    using cc.put_law [of s name "(data, calls)" u base crc now cb acc] assms unfolding fst_conv snd_conv e by blast
qed

theorem cache_store_found_witness:
  "\<exists>s'. cache_store CHR ''u'' 64 [(Z_STREAM_END, ''z'')] (\<lambda>_. 7) 100 None ''a.css'' ''body{}'' (cache_create CHR ''u'' 0) = Some s' \<and>
     cache_find ''a.css'' False s' = Some (100, ''body{}'', False)"
proof -
  let ?s = "cache_create CHR ''u'' 0" and ?c = "[(Z_STREAM_END, ''z'')]"
  have "cache_inv ?s" "cache_find ''a.css'' False ?s = None" using cache_create_inv [of "CHR ''u''" 0] cache_find_view by auto
  moreover have "storable ?s ''a.css'' ?c" by (simp add: storable_def cache_create_def buf_create_def GZIP_BUFFER_SIZE_def)
  ultimately show ?thesis
    using cache_store_found [of ?s "''a.css''" ?c "CHR ''u''" 64 "\<lambda>_. 7" 100 None "''body{}''" False] by auto
qed

lemma key_text_cong: "c_key_str c' = c_key_str c \<Longrightarrow> c_key_len c' = c_key_len c \<Longrightarrow> key_text n c' = key_text n c"
  by (simp add: key_text_def)

text \<open>
  Refreshing an entry: if the entry's callback has new content, the first entry of that name is
  replaced by it, with the current time, and nothing else changes; otherwise the cache stays as it is.
\<close>

theorem cache_update_ok:
  assumes inv: "cache_inv s" and d: "deflate_ok calls (concat (map snd calls))"
    and i: "find_from (key_matches (cs_names s) name) 0 (cs_cache s) = Some i" and cb: "c_update (cs_cache s ! i) = Some cb"
  shows "\<exists>s'. cache_update u calls crc now name s = Some s' \<and> cache_inv s' \<and>
     cache_view s' = (case cb (c_time (cs_cache s ! i)) name of
        None \<Rightarrow> cache_view s
      | Some res \<Rightarrow> (cache_view s)[i := (name, now, res, Some (gzip_member crc calls res))])"
proof (cases "cb (c_time (cs_cache s ! i)) name")
  case None
  then show ?thesis using i cb inv by (simp add: cache_update_def)
next
  case (Some res)
  let ?c = "cs_cache s ! i"
  have il: "i < length (cs_cache s)" "key_matches (cs_names s) name ?c" using find_from_0_SomeD [OF i] by auto
  then have key: "key_text (cs_names s) ?c = name" using key_matches_text [OF inv nth_mem] by blast
  let ?c1 = "?c\<lparr>c_mem := res, c_value_len := length res, c_time := now\<rparr>"
  have m: "memcpy_at (realloc_list u (length res) (c_mem ?c)) 0 res = Some res" by (simp add: memcpy_at_def)
  obtain c2 where c2: "gen_gzipped_value u calls crc ?c1 = Some c2" "c2 = ?c1\<lparr>c_mem := res @ gzip_member crc calls res,
      c_gz_str := length res, c_gz_len := length (concat (map snd calls)) + 18\<rparr>"
    using gen_gzipped_value_law [OF d, of ?c1 res u crc] by (simp add: gzip_member_def)
  let ?s = "s\<lparr>cs_cache := (cs_cache s)[i := c2]\<rparr>"
  have "cache_update u calls crc now name s = Some ?s" using i cb Some m c2(1) by (simp add: cache_update_def)
  moreover have "cache_inv ?s"
    using inv il(1) c2(2) nth_mem [OF il(1)] by (auto simp: cache_inv_def dest!: set_update_subset_insert [THEN subsetD])
  moreover have "cache_view ?s = (cache_view s)[i := (name, now, res, Some (gzip_member crc calls res))]"
  proof -
    have "key_text (cs_names s) c2 = name" using key by (subst key_text_cong [of _ ?c]) (simp_all add: c2(2))
    moreover have "value_text c2 = res" "gzip_text c2 = gzip_member crc calls res" "c_gz_len c2 \<noteq> 0" "c_time c2 = now"
      by (simp_all add: c2(2) value_text_def gzip_text_def gzip_member_def)
    ultimately show ?thesis by (simp add: cache_view_def map_update)
  qed
  ultimately show ?thesis using Some by (intro exI [of _ ?s]) simp
qed

theorem cache_update_ok_witness:
  "\<exists>s'. cache_update CHR ''u'' [(Z_STREAM_END, ''z'')] (\<lambda>_. 7) 200 ''a''
      \<lparr>cs_cache = [\<lparr>c_key_str = 10, c_key_len = 1, c_mem = ''old'', c_value_len = 3, c_gz_str = 0, c_gz_len = 0,
          c_update = Some (\<lambda>t n. Some ''new!''), c_time = 100\<rparr>],
       cs_names = \<lparr>b_cur_len = 1, b_reserved_len = 0, b_node_size = 1, b_base = 10, b_data = ''a''\<rparr>\<rparr> = Some s' \<and>
     map (fst \<circ> snd \<circ> snd) (cache_view s') = [''new!'']"
proof -
  let ?s = "\<lparr>cs_cache = [\<lparr>c_key_str = 10, c_key_len = 1, c_mem = ''old'', c_value_len = 3, c_gz_str = 0, c_gz_len = 0,
          c_update = Some (\<lambda>t n. Some ''new!''), c_time = 100\<rparr>],
       cs_names = \<lparr>b_cur_len = 1, b_reserved_len = 0, b_node_size = 1, b_base = 10, b_data = ''a''\<rparr>\<rparr>"
  have "cache_inv ?s" "deflate_ok [(Z_STREAM_END, ''z'')] (concat (map snd [(Z_STREAM_END, ''z'')]))"
    "find_from (key_matches (cs_names ?s) ''a'') 0 (cs_cache ?s) = Some 0" "c_update (cs_cache ?s ! 0) = Some (\<lambda>t n. Some ''new!'')"
    by (simp_all add: cache_inv_def buf_inv_def GZIP_BUFFER_SIZE_def key_matches_def)
  from cache_update_ok [OF this, of "CHR ''u''" "\<lambda>_. 7" 200] show ?thesis by (auto simp: cache_view_def)
qed

end
