(* ===== verification/Http_Response.thy ===== *)
theory Http_Response
  imports Http_File Http_Url Memcache
begin

text \<open>
  \<^verbatim>\<open>http_response\<close> of \<^verbatim>\<open>core_http.c\<close>: what becomes of a request whose headers have been read.  A URI the
  pages have registered (\<^verbatim>\<open>web_set_callback\<close>, \<^verbatim>\<open>web.c\<close>) is handed to the worker threads through the queue
  or redirected, a path below the cache prefix is answered from the content cache, everything else is a
  file.  Handlers and requests are numbers.
\<close>

section \<open>Registered URIs\<close>

record uri_map_t =
  um_uri :: string
  um_func :: nat
  um_strict_comparison :: bool
  um_full_match :: bool

text \<open>An empty URI would be read in front of its text.\<close>

definition web_set_callback :: "nat \<Rightarrow> string \<Rightarrow> bool \<Rightarrow> uri_map_t list \<Rightarrow> uri_map_t list option" where
  "web_set_callback func uri full_match m =
     (if uri = [] then None
      else Some (m @ [\<lparr>um_uri = uri, um_func = func,
                       um_strict_comparison = (if last uri = CHR ''/'' then False else True), um_full_match = full_match\<rparr>]))"

datatype route = Handler nat | Redirect string | No_Handler

text \<open>The loop over the map; \<open>path\<close> is not empty.\<close>

fun route_uri :: "uri_map_t list \<Rightarrow> string \<Rightarrow> route" where
  "route_uri [] path = No_Handler"
| "route_uri (m # ms) path =
     (if um_full_match m then
        if um_strict_comparison m \<or> last path = CHR ''/'' then
          if length path \<noteq> length (um_uri m) \<or> path \<noteq> take (length path) (um_uri m) then route_uri ms path
          else Handler (um_func m)
        else if length path = length (um_uri m) - 1 \<and> path = take (length path) (um_uri m) then Redirect (um_uri m)
        else route_uri ms path
      else if length (um_uri m) > length path \<or> take (length (um_uri m)) path \<noteq> um_uri m then route_uri ms path
      else Handler (um_func m))"

section \<open>Cached contents\<close>

text \<open>Does some \<^verbatim>\<open>Accept-Encoding\<close> header name gzip?\<close>

definition accepts_gzip :: "header list \<Rightarrow> bool" where
  "accepts_gzip hdrs = list_ex (\<lambda>(key, val). key = ''accept-encoding'' \<and> occurs ''gzip'' (cstr val)) hdrs"

text \<open>Does some \<^verbatim>\<open>If-Modified-Since\<close> header have exactly this date?\<close>

definition not_modified :: "string \<Rightarrow> header list \<Rightarrow> bool" where
  "not_modified date hdrs = list_ex (\<lambda>(key, val). key = ''if-modified-since'' \<and> length val = 29 \<and> val = take 29 date) hdrs"

definition cached_build :: "string \<Rightarrow> tm \<Rightarrow> tm \<Rightarrow> tm \<Rightarrow> string \<Rightarrow> header list \<Rightarrow> string \<Rightarrow> bool \<Rightarrow> out_req \<Rightarrow> out_req option" where
  "cached_build kt mtime now expires path hdrs content gz r =
     do { r \<leftarrow> http_set_mime_type path r;
          let date = http_rfc822_date mtime;
          let code = (if not_modified date hdrs then 304 else 200);
          r \<leftarrow> http_append_headers kt code (r\<lparr>o_content_length := (if code < 300 then int (length content) else 0)\<rparr>);
          r \<leftarrow> (if gz \<and> code < 300
                then http_append_to_output_buf (''Content-Encoding: gzip'' @ CLRF @ ''Vary: Accept-Encoding'' @ CLRF) 47 r else Some r);
          r \<leftarrow> http_append_to_output_buf ''Last-Modified: '' 15 r;
          r \<leftarrow> http_append_to_output_buf date 29 r;
          r \<leftarrow> http_append_to_output_buf CLRF 2 r;
          r \<leftarrow> http_append_to_output_buf ''Date: '' 6 r;
          r \<leftarrow> http_append_to_output_buf (http_rfc822_date now) 29 r;
          r \<leftarrow> http_append_to_output_buf CLRF 2 r;
          r \<leftarrow> http_append_to_output_buf ''Expires: '' 9 r;
          r \<leftarrow> http_append_to_output_buf (http_rfc822_date expires) 29 r;
          r \<leftarrow> http_append_to_output_buf (CLRF @ CLRF) 4 r;
          if code \<noteq> 304 then http_append_to_output_buf content (length content) r else Some r }"

section \<open>The response\<close>

text \<open>
  The configuration the response depends on, the outside world (results of \<^verbatim>\<open>writev\<close> and \<^verbatim>\<open>sendfile\<close>, times,
  the files, the compressor), and the state it changes: the request's output and path, whether its socket
  has events, the handler it waits for, the queue, the semaphore and the cache.
\<close>

record resp_config =
  rc_keepalive_timeout :: string
  rc_cache_prefix :: string
  rc_cache_update :: bool
  rc_gzip :: bool
  rc_uri_map :: "uri_map_t list"

record resp_world =
  rw_writev :: io_result
  rw_sendfile :: io_result
  rw_now :: int
  rw_gmtime :: "int \<Rightarrow> tm"
  rw_fs :: "string \<Rightarrow> errno + file_stat option"
  rw_junk :: char
  rw_deflate :: "(z_result \<times> string) list"
  rw_crc :: "string \<Rightarrow> 32 word"

record resp_state =
  rs_out :: out_req
  rs_path :: path_state
  rs_events :: bool
  rs_func :: "nat option"
  rs_queue :: "nat pqueue_t"
  rs_posts :: nat
  rs_cache :: cache_state
  rs_file_open :: bool

definition HTTP_STATIC_EXPIRES :: int where "HTTP_STATIC_EXPIRES = 172800"

definition answer :: "resp_state \<Rightarrow> (bool \<times> out_req) option \<Rightarrow> (bool \<times> resp_state) option" where
  "answer s x = map_option (\<lambda>(b, r). (b, s\<lparr>rs_out := r\<rparr>)) x"

definition http_response ::
  "resp_config \<Rightarrow> resp_world \<Rightarrow> nat \<Rightarrow> mem \<Rightarrow> nat \<Rightarrow> nat \<Rightarrow> header list \<Rightarrow> resp_state \<Rightarrow> (bool \<times> resp_state) option" where
  "http_response cfg wd rid m u n hdrs s =
     (let kt = rc_keepalive_timeout cfg; w = rw_writev wd in
      case http_divide_uri m u n (rs_path s) of
        None \<Rightarrow> None
      | Some (ok, p) \<Rightarrow>
          let s = s\<lparr>rs_path := p\<rparr>; path = pa_path p in
          if \<not> ok then answer s (http_error kt w 400 (rs_out s))
          else (case route_uri (rc_uri_map cfg) path of
             Redirect uri \<Rightarrow> answer s (http_redirect kt w uri True (take (pa_query_len p) (drop (pa_query p) m)) (rs_out s))
           | Handler func \<Rightarrow>
               do { q \<leftarrow> pqueue_push 0 (rs_queue s) rid;
                    Some (False, s\<lparr>rs_events := False, rs_func := Some func, rs_queue := q, rs_posts := rs_posts s + 1\<rparr>) }
           | No_Handler \<Rightarrow>
               do { let k = length (rc_cache_prefix cfg);
                    let below = (length path > k \<and> take k path = rc_cache_prefix cfg);
                    c \<leftarrow> (if below \<and> rc_cache_update cfg
                          then cache_update (rw_junk wd) (rw_deflate wd) (rw_crc wd) (rw_now wd) (drop k path) (rs_cache s)
                          else Some (rs_cache s));
                    let s = s\<lparr>rs_cache := c\<rparr>;
                    (case (if below then cache_find (drop k path) (rc_gzip cfg \<and> accepts_gzip hdrs) c else None) of
                       Some (t, content, gz) \<Rightarrow>
                         answer s (map_option (http_send w)
                           (cached_build kt (rw_gmtime wd t) (rw_gmtime wd (rw_now wd)) (rw_gmtime wd (rw_now wd + HTTP_STATIC_EXPIRES))
                              path hdrs content gz (rs_out s)))
                     | None \<Rightarrow>
                         map_option (\<lambda>(b, fo, r). (b, s\<lparr>rs_out := r, rs_file_open := fo\<rparr>))
                           (http_send_file kt w (rw_sendfile wd) (rw_gmtime wd (rw_now wd)) (rw_gmtime wd (rw_now wd + HTTP_STATIC_EXPIRES))
                              (rw_fs wd) path (drop 1 path) hdrs (rs_out s))) }))"

section \<open>Routing\<close>

text \<open>What a registered URI is meant to catch.\<close>

definition catches :: "uri_map_t \<Rightarrow> string \<Rightarrow> bool" where
  "catches m path \<longleftrightarrow>
     (if um_full_match m then path = um_uri m \<or> last path \<noteq> CHR ''/'' \<and> um_uri m = path @ ''/''
      else \<exists>rest. path = um_uri m @ rest)"

definition map_ok :: "uri_map_t list \<Rightarrow> bool" where
  "map_ok ms \<longleftrightarrow> list_all (\<lambda>m. um_uri m \<noteq> [] \<and> um_strict_comparison m = (last (um_uri m) \<noteq> CHR ''/'')) ms"

lemma web_set_callback_ok: "map_ok ms \<Longrightarrow> web_set_callback f uri full ms = Some ms' \<Longrightarrow> map_ok ms'"
  by (auto simp: web_set_callback_def map_ok_def split: if_splits)

lemma take_prefix_iff: "\<not> (length u > length p \<or> take (length u) p \<noteq> u) \<longleftrightarrow> (\<exists>rest. p = u @ rest)"
  by (metis append_eq_conv_conj append_take_drop_id length_append not_add_less1)

lemma redirect_iff:
  assumes "u \<noteq> []" "last u = CHR ''/''" "last p \<noteq> CHR ''/''"
  shows "length p = length u - 1 \<and> p = take (length p) u \<longleftrightarrow> u = p @ ''/''"
proof
  assume a: "length p = length u - 1 \<and> p = take (length p) u"
  then have "p = butlast u" by (metis butlast_conv_take)
  then show "u = p @ ''/''" using assms(1,2) append_butlast_last_id [of u] by simp
qed auto

lemma route_uri_first:
  assumes "map_ok ms" "path \<noteq> []"
  shows "route_uri ms path =
    (case find (\<lambda>m. catches m path) ms of
       None \<Rightarrow> No_Handler
     | Some m \<Rightarrow> if um_full_match m \<and> um_uri m \<noteq> path then Redirect (um_uri m) else Handler (um_func m))"
  using assms(1)
proof (induction ms)
  case (Cons m ms)
  have ok: "um_uri m \<noteq> []" "um_strict_comparison m \<longleftrightarrow> last (um_uri m) \<noteq> CHR ''/''" "map_ok ms" using Cons.prems by (auto simp: map_ok_def)
  note IH = Cons.IH [OF ok(3)]
  show ?case
  proof (cases "um_full_match m")
    case False
    then have "catches m path \<longleftrightarrow> \<not> (length (um_uri m) > length path \<or> take (length (um_uri m)) path \<noteq> um_uri m)"
      unfolding take_prefix_iff by (simp add: catches_def)
    then show ?thesis using IH False by auto
  next
    case full: True
    show ?thesis
    proof (cases "um_strict_comparison m \<or> last path = CHR ''/''")
      case True
      have "length path \<noteq> length (um_uri m) \<or> path \<noteq> take (length path) (um_uri m) \<longleftrightarrow> path \<noteq> um_uri m" by auto
      moreover have "catches m path \<longleftrightarrow> path = um_uri m" using True ok full by (auto simp: catches_def)
      ultimately show ?thesis using full True IH by auto
    next
      case False
      then have "um_uri m \<noteq> path" using ok by auto
      moreover have "catches m path \<longleftrightarrow> um_uri m = path @ ''/''" using False ok full by (auto simp: catches_def)
      ultimately show ?thesis using full False IH redirect_iff [OF ok(1)] ok(2) by auto
    qed
  qed
qed simp


section \<open>Cached answers\<close>

definition cached_head :: "string \<Rightarrow> string \<Rightarrow> nat \<Rightarrow> tm \<Rightarrow> tm \<Rightarrow> tm \<Rightarrow> string \<Rightarrow> bool \<Rightarrow> out_req \<Rightarrow> string" where
  "cached_head kt ty code mtime now expires content gz r =
     head_text kt code (r\<lparr>o_type := ty, o_content_length := (if code < 300 then int (length content) else 0)\<rparr>) @
     (if gz \<and> code < 300 then ''Content-Encoding: gzip'' @ CLRF @ ''Vary: Accept-Encoding'' @ CLRF else []) @
     ''Last-Modified: '' @ http_rfc822_date mtime @ CLRF @ ''Date: '' @ http_rfc822_date now @ CLRF @
     ''Expires: '' @ http_rfc822_date expires @ CLRF @ CLRF"

lemma head_text_short:
  assumes "length (o_type r) \<le> 1000" "length kt \<le> 1000" "0 \<le> o_content_length r" "o_content_length r < 2 ^ 63"
  shows "length (head_text kt code r) < 2700"
proof -
  have "nat (o_content_length r) < 10 ^ 20" using assms(4) by simp
  then have "length (numeral_of 10 (nat (o_content_length r))) \<le> 20" by (intro numeral_of_length) auto
  then show ?thesis using assms status_short [of code]
    by (cases "o_keepalive r") (simp_all add: head_text_def header_server_string_def SERVER_STRING_def)
qed

lemma head_text_o_type_len: "head_text kt code (r\<lparr>o_type := ty, o_type_len := n, o_content_length := k\<rparr>) = head_text kt code (r\<lparr>o_type := ty, o_content_length := k\<rparr>)"
  by (simp add: head_text_def)

lemma cached_build_ok:
  assumes tm: "tm_ok mtime" "tm_ok now" "tm_ok expires" and r: "o_vec r = []" "o_total r = 0" "\<not> o_fd r"
    and small: "length content < 2 ^ 31" "length kt \<le> 1000"
    and code: "code = (if not_modified (http_rfc822_date mtime) hdrs then 304 else 200)"
  shows "\<exists>r0 ty. cached_build kt mtime now expires path hdrs content gz r = Some r0 \<and> ready [] r0 \<and> \<not> o_fd r0 \<and>
     out_text r0 = cached_head kt ty code mtime now expires content gz r @ (if code = 304 then [] else content)"
proof -
  obtain ty where ty: "http_set_mime_type path r = Some (r\<lparr>o_type := ty, o_type_len := length ty\<rparr>)" "length ty \<le> 29"
    using http_set_mime_type_ok by blast
  let ?n = "if code < 300 then int (length content) else 0"
  let ?q = "r\<lparr>o_type := ty, o_type_len := length ty, o_content_length := ?n\<rparr>"
  have c: "code = 304 \<or> code = 200" using code by simp
  then have c506: "code < 506" by auto
  obtain r1 where r1: "http_append_headers kt code ?q = Some r1" "vec_ok r1" "out_text r1 = head_text kt code ?q"
    "o_fd r1 = o_fd r"
  proof -
    have "o_type_len ?q = length (o_type ?q)" "0 \<le> o_content_length ?q" "vec_ok ?q" using r by (auto simp: vec_ok_def)
    from http_append_headers_text [OF c506 this, of kt] show ?thesis using that r by auto
  qed
  have d: "length (http_rfc822_date mtime) = 29" "length (http_rfc822_date now) = 29"
    "length (http_rfc822_date expires) = 29" using tm by (auto simp: length_rfc822_date)
  let ?g = "if gz \<and> code < 300 then [''Content-Encoding: gzip'' @ CLRF @ ''Vary: Accept-Encoding'' @ CLRF] else []"
  let ?ps = "?g @ [''Last-Modified: '', http_rfc822_date mtime, CLRF, ''Date: '', http_rfc822_date now, CLRF,
    ''Expires: '', http_rfc822_date expires, CLRF @ CLRF] @ (if code = 304 then [] else [content])"
  have b: "cached_build kt mtime now expires path hdrs content gz r = Some (append_all ?ps r1)"
    using ty(1) r1(1) d c append_all_Nil [of r1]
    by (cases "gz \<and> code < 300"; cases "code = 304")
      (simp_all add: cached_build_def Let_def append_first append_step code [symmetric])
  have t: "out_text (append_all ?ps r1) = cached_head kt ty code mtime now expires content gz r @ (if code = 304 then [] else content)"
    using r1(3) by (simp add: append_all_def cached_head_def head_text_o_type_len)
  have "length (head_text kt code ?q) < 2700" using ty(2) small by (intro head_text_short) auto
  then have "length (out_text (append_all ?ps r1)) < 2 ^ 32"
    unfolding t using d small(1) by (auto simp: cached_head_def head_text_o_type_len)
  then have "ready [] (append_all ?ps r1)" using append_all_ok [OF r1(2), of ?ps] r1(4) r(3)
    by (simp add: ready_def append_all_def)
  moreover have "\<not> o_fd (append_all ?ps r1)" using r1(4) r(3) by (simp add: append_all_def)
  ultimately show ?thesis using b t by blast
qed


text \<open>
  C16.  A request goes to the first registered URI that catches its path: a page of exactly that path or a prefix of
  it is handed, once, to the worker threads (the request is put on the queue with its handler and its socket
  has no events until it is answered), and a directory that was asked for without its slash is redirected there.
\<close>

theorem http_response_handler:
  assumes "map_ok (rc_uri_map cfg)" "http_divide_uri m u n (rs_path s) = Some (True, p)" "pa_path p \<noteq> []"
    and "find (\<lambda>e. catches e (pa_path p)) (rc_uri_map cfg) = Some e" "pq_inv (rs_queue s)" "q_cur_len (rs_queue s) + 1 < 2 ^ 32"
  shows "if um_full_match e \<and> um_uri e \<noteq> pa_path p
    then http_response cfg wd rid m u n hdrs s =
      answer (s\<lparr>rs_path := p\<rparr>) (http_redirect (rc_keepalive_timeout cfg) (rw_writev wd) (pa_path p @ ''/'') True
        (take (pa_query_len p) (drop (pa_query p) m)) (rs_out s))
    else \<exists>q. http_response cfg wd rid m u n hdrs s =
        Some (False, s\<lparr>rs_path := p, rs_events := False, rs_func := Some (um_func e), rs_queue := q, rs_posts := rs_posts s + 1\<rparr>) \<and>
      pq_inv q \<and> pq_list q = pq_list (rs_queue s) @ [rid]"
proof -
  have r: "route_uri (rc_uri_map cfg) (pa_path p) =
      (if um_full_match e \<and> um_uri e \<noteq> pa_path p then Redirect (um_uri e) else Handler (um_func e))"
    using route_uri_first [OF assms(1,3)] assms(4) by simp
  show ?thesis
  proof (cases "um_full_match e \<and> um_uri e \<noteq> pa_path p")
    case True
    have "catches e (pa_path p)" using assms(4) by (auto simp: find_Some_iff)
    then have "um_uri e = pa_path p @ ''/''" using True by (auto simp: catches_def)
    then show ?thesis using True r assms(2) by (simp add: http_response_def Let_def)
  next
    case False
    obtain q where "pqueue_push 0 (rs_queue s) rid = Some q" "pq_inv q" "pq_list q = pq_list (rs_queue s) @ [rid]"
      using pqueue_push_ok [OF assms(5,6)] by blast
    then show ?thesis using False r assms(2) by (auto simp: http_response_def Let_def)
  qed
qed

text \<open>
  A path below the cache prefix that no page has registered is answered from the cache: the content (the
  compressed one if the client accepts it and there is one) with its length and date, or, if the client has
  the version of that date, an empty answer 304.  The answer is complete and ready to be delivered.
\<close>

theorem http_response_cached:
  assumes div: "http_divide_uri m u n (rs_path s) = Some (True, p)" and rt: "route_uri (rc_uri_map cfg) (pa_path p) = No_Handler"
    and pre: "pa_path p = rc_cache_prefix cfg @ name" "name \<noteq> []" "\<not> rc_cache_update cfg"
    and found: "cache_find name (rc_gzip cfg \<and> accepts_gzip hdrs) (rs_cache s) = Some (t, content, gz)"
    and tm: "tm_ok (rw_gmtime wd t)" "tm_ok (rw_gmtime wd (rw_now wd))" "tm_ok (rw_gmtime wd (rw_now wd + HTTP_STATIC_EXPIRES))"
    and r: "o_vec (rs_out s) = []" "o_total (rs_out s) = 0" "\<not> o_fd (rs_out s)"
    and small: "length content < 2 ^ 31" "length (rc_keepalive_timeout cfg) \<le> 1000"
    and code: "code = (if not_modified (http_rfc822_date (rw_gmtime wd t)) hdrs then 304 else 200)"
  shows "\<exists>r0 ty. http_response cfg wd rid m u n hdrs s = answer (s\<lparr>rs_path := p\<rparr>) (Some (http_send (rw_writev wd) r0)) \<and> ready [] r0 \<and>
    out_text r0 = cached_head (rc_keepalive_timeout cfg) ty code (rw_gmtime wd t) (rw_gmtime wd (rw_now wd))
      (rw_gmtime wd (rw_now wd + HTTP_STATIC_EXPIRES)) content gz (rs_out s) @ (if code = 304 then [] else content)"
proof -
  let ?k = "length (rc_cache_prefix cfg)"
  have below: "length (pa_path p) > ?k \<and> take ?k (pa_path p) = rc_cache_prefix cfg" "drop ?k (pa_path p) = name" using pre by auto
  obtain r0 ty where b: "cached_build (rc_keepalive_timeout cfg) (rw_gmtime wd t) (rw_gmtime wd (rw_now wd))
      (rw_gmtime wd (rw_now wd + HTTP_STATIC_EXPIRES)) (pa_path p) hdrs content gz (rs_out s) = Some r0" and rest: "ready [] r0"
      "out_text r0 = cached_head (rc_keepalive_timeout cfg) ty code (rw_gmtime wd t) (rw_gmtime wd (rw_now wd))
      (rw_gmtime wd (rw_now wd + HTTP_STATIC_EXPIRES)) content gz (rs_out s) @ (if code = 304 then [] else content)"
    using cached_build_ok [OF tm r small code] by blast
  have "http_response cfg wd rid m u n hdrs s = answer (s\<lparr>rs_path := p\<rparr>) (Some (http_send (rw_writev wd) r0))"
    using div rt below pre(3) found b by (simp add: http_response_def Let_def)
  then show ?thesis using rest by blast
qed


definition sample_out :: out_req where
  "sample_out = \<lparr>o_vec = [], o_total = 0, o_pvec = None, o_epollout = False, o_keepalive = False, o_content_length = 0,
     o_type = [], o_type_len = 0, o_fd = False, o_offset = 0, o_last = 0\<rparr>"

definition sample_cache :: cache_state where
  "sample_cache = \<lparr>cs_cache = [\<lparr>c_key_str = 10, c_key_len = 1, c_mem = ''body'', c_value_len = 4, c_gz_str = 0, c_gz_len = 0,
       c_update = None, c_time = 100\<rparr>],
     cs_names = \<lparr>b_cur_len = 1, b_reserved_len = 0, b_node_size = 1, b_base = 10, b_data = ''x''\<rparr>\<rparr>"

definition sample_state :: resp_state where
  "sample_state = \<lparr>rs_out = sample_out, rs_path = \<lparr>pa_cap = 128, pa_path = [], pa_query = 0, pa_query_len = 0\<rparr>, rs_events = True,
     rs_func = None, rs_queue = pqueue_create 0 2, rs_posts = 0, rs_cache = sample_cache, rs_file_open = False\<rparr>"

definition sample_tm :: tm where
  "sample_tm = \<lparr>tm_wday = 4, tm_mday = 1, tm_mon = 0, tm_year = 70, tm_hour = 0, tm_min = 0, tm_sec = 0\<rparr>"

definition sample_world :: resp_world where
  "sample_world = \<lparr>rw_writev = WouldBlock, rw_sendfile = WouldBlock, rw_now = 0, rw_gmtime = (\<lambda>t. sample_tm), rw_fs = (\<lambda>p. Inl ENOENT),
     rw_junk = CHR ''u'', rw_deflate = [], rw_crc = (\<lambda>s. 0)\<rparr>"

definition sample_config :: resp_config where
  "sample_config = \<lparr>rc_keepalive_timeout = ''25'', rc_cache_prefix = ''/c/'', rc_cache_update = False, rc_gzip = True,
     rc_uri_map = [\<lparr>um_uri = ''/a/'', um_func = 7, um_strict_comparison = False, um_full_match = True\<rparr>,
       \<lparr>um_uri = ''/a'', um_func = 8, um_strict_comparison = True, um_full_match = False\<rparr>]\<rparr>"

lemmas sample_defs = sample_out_def sample_cache_def sample_state_def sample_world_def sample_config_def sample_tm_def

theorem http_response_handler_witness:
  "(\<exists>q. http_response sample_config sample_world 5 (''/ab'' @ [NUL]) 0 3 [] sample_state =
      Some (False, sample_state\<lparr>rs_path := \<lparr>pa_cap = 128, pa_path = ''/ab'', pa_query = 3, pa_query_len = 0\<rparr>, rs_events := False,
        rs_func := Some 8, rs_queue := q, rs_posts := 1\<rparr>) \<and> pq_list q = [5])"
proof -
  have d: "http_divide_uri (''/ab'' @ [NUL]) 0 3 (rs_path sample_state) = Some (True, \<lparr>pa_cap = 128, pa_path = ''/ab'', pa_query = 3, pa_query_len = 0\<rparr>)"
    by (simp add: sample_defs http_divide_uri_def put_def Let_def HTTP_PATH_PREALLOC_def divide_loop.simps char_defs)
  have ok: "map_ok (rc_uri_map sample_config)" by (simp add: map_ok_def sample_config_def)
  have f: "find (\<lambda>e. catches e ''/ab'') (rc_uri_map sample_config) = Some \<lparr>um_uri = ''/a'', um_func = 8, um_strict_comparison = True, um_full_match = False\<rparr>"
    by (simp add: sample_config_def catches_def)
  have q: "pq_inv (rs_queue sample_state)" "q_cur_len (rs_queue sample_state) + 1 < 2 ^ 32" "pq_list (rs_queue sample_state) = []" "rs_posts sample_state = 0"
    using pqueue_create_inv [of "0 :: nat" 2] by (simp_all add: sample_state_def pqueue_create_def)
  show ?thesis using http_response_handler [OF ok d _ _ q(1,2), of _ sample_world 5 "[]"] f q(3,4) by auto
qed

theorem http_response_cached_witness:
  "\<exists>r0. http_response sample_config sample_world 5 (''/c/x'' @ [NUL]) 0 4 [] sample_state =
      answer (sample_state\<lparr>rs_path := \<lparr>pa_cap = 128, pa_path = ''/c/x'', pa_query = 4, pa_query_len = 0\<rparr>\<rparr>) (Some (http_send WouldBlock r0)) \<and>
    ready [] r0 \<and> (\<exists>head. out_text r0 = head @ ''body'')"
proof -
  have d: "http_divide_uri (''/c/x'' @ [NUL]) 0 4 (rs_path sample_state) = Some (True, \<lparr>pa_cap = 128, pa_path = ''/c/x'', pa_query = 4, pa_query_len = 0\<rparr>)"
    by (simp add: sample_defs http_divide_uri_def put_def Let_def HTTP_PATH_PREALLOC_def divide_loop.simps char_defs)
  have rt: "route_uri (rc_uri_map sample_config) ''/c/x'' = No_Handler" by (simp add: sample_config_def)
  have f: "cache_find ''x'' (rc_gzip sample_config \<and> accepts_gzip []) (rs_cache sample_state) = Some (100, ''body'', False)"
    by (simp add: cache_find_def sample_defs key_matches_def value_text_def accepts_gzip_def)
  have t: "tm_ok (rw_gmtime sample_world x)" for x by (simp add: sample_defs tm_ok_def)
  have c: "(200 :: nat) = (if not_modified (http_rfc822_date (rw_gmtime sample_world 100)) [] then 304 else 200)" by (simp add: not_modified_def)
  have w: "rw_writev sample_world = WouldBlock" by (simp add: sample_world_def)
  have "rc_cache_prefix sample_config = ''/c/''" "\<not> rc_cache_update sample_config" "length (rc_keepalive_timeout sample_config) \<le> 1000"
    "o_vec (rs_out sample_state) = []" "o_total (rs_out sample_state) = 0" "\<not> o_fd (rs_out sample_state)"
    by (simp_all add: sample_defs)
  with http_response_cached [where name = "''x''" and cfg = sample_config and hdrs = "[]" and rid = 5, OF d _ _ _ _ f t t t _ _ _ _ _ c] rt w
  show ?thesis by auto
qed

end
