(* ===== verification/Http_Worker.thy ===== *)
theory Http_Worker
  imports Http_Response Http_Serve
begin

text \<open>
  The worker threads of \<^verbatim>\<open>core_http.c\<close>: one round of \<^verbatim>\<open>http_pass_to_handlers_routine\<close> for a request taken
  from the queue, with the compression of the page the handler has produced, and \<^verbatim>\<open>http_cleanup\<close>, which
  makes the request structure ready for the next request.  The handler is outside of the model: it gives
  a page.  The results of \<^verbatim>\<open>deflate\<close> are a list of return values with the bytes each call put out.
\<close>

section \<open>Compression\<close>

text \<open>
  The loop around \<^verbatim>\<open>deflate\<close>: \<open>avail\<close> bytes are free at the end of the buffer.  The result: did it
  succeed, the buffer and \<^verbatim>\<open>avail_out\<close>.
\<close>

fun page_deflate :: "char \<Rightarrow> int \<Rightarrow> nat \<Rightarrow> (z_result \<times> string) list \<Rightarrow> buf_t \<Rightarrow> (bool \<times> buf_t \<times> nat) option" where
  "page_deflate u base avail [] b = None"
| "page_deflate u base avail ((res, bs) # calls) b =
     do { d \<leftarrow> memcpy_at (b_data b) (unat (b_cur_len b) - avail) bs;
          let b = b\<lparr>b_data := d\<rparr>;
          let avail_out = avail - length bs;
          if avail_out > 0 \<or> res = Z_STREAM_END then Some (True, b, avail_out)
          else if res = Z_OK then page_deflate u base 256 calls (fst (buf_expand u base b 256))
          else Some (False, b, avail_out) }"

section \<open>The page\<close>

text \<open>The answer for a page; \<open>z\<close> is the compressed page, if it is sent compressed.\<close>

definition page_build :: "string \<Rightarrow> tm \<Rightarrow> (string \<Rightarrow> 32 word) \<Rightarrow> string \<Rightarrow> string option \<Rightarrow> out_req \<Rightarrow> out_req option" where
  "page_build kt now crc page z r =
     do { r \<leftarrow> (case z of
             Some d \<Rightarrow> do { r \<leftarrow> http_append_headers kt 200 (r\<lparr>o_content_length := int (length d + 18)\<rparr>);
                            http_append_to_output_buf (''Content-Encoding: gzip'' @ CLRF @ ''Vary: Accept-Encoding'' @ CLRF) 47 r }
           | None \<Rightarrow> http_append_headers kt 200 (r\<lparr>o_content_length := int (length page)\<rparr>));
          r \<leftarrow> http_append_to_output_buf (''Cache-Control: no-cache, must-revalidate'' @ CLRF @ ''Pragma: no-cache'' @ CLRF) 60 r;
          r \<leftarrow> http_append_to_output_buf ''Date: '' 6 r;
          r \<leftarrow> http_append_to_output_buf (http_rfc822_date now) 29 r;
          r \<leftarrow> http_append_to_output_buf (CLRF @ CLRF) 4 r;
          (case z of
             Some d \<Rightarrow> do { r \<leftarrow> http_append_to_output_buf GZIP_HEADER 10 r;
                            r \<leftarrow> http_append_to_output_buf d (length d) r;
                            http_append_to_output_buf (le32 (crc page) @ le32 (of_nat (length page))) 8 r }
           | None \<Rightarrow> http_append_to_output_buf page (nat (o_content_length r)) r) }"

datatype worker_result = Gone_Meanwhile | Sent bool

text \<open>
  A handler gives a page, with the text and the length it last called \<^verbatim>\<open>set_content_type\<close> with, if it did, or
  it leaves with an exception (an HTTP status).
\<close>

datatype handler_result = Page string "(string \<times> nat) option" | Exception nat

definition set_content_type :: "string \<Rightarrow> nat \<Rightarrow> out_req \<Rightarrow> out_req" where
  "set_content_type str len r = r\<lparr>o_type := str, o_type_len := len\<rparr>"

text \<open>Sending under the lock: the connection may have been closed since the handler returned (\<open>late\<close>).\<close>

definition send_page :: "io_result \<Rightarrow> bool \<Rightarrow> buf_t \<Rightarrow> out_req \<Rightarrow> worker_result \<times> buf_t \<times> out_req" where
  "send_page w late b r = (if late then (Gone_Meanwhile, b, r) else case http_send w r of (s, r) \<Rightarrow> (Sent s, b, r))"

text \<open>
  One round: \<open>gone\<close> tells that the client closed the connection while the handler ran, \<open>late\<close> that it did
  so while the answer was put together, \<open>allow\<close> is \<^verbatim>\<open>thread_allow_compression\<close>, \<open>min_size\<close> is
  \<^verbatim>\<open>gzip_min_page_size\<close>.  The result of sending decides whether \<^verbatim>\<open>end_request\<close> is called.
\<close>

definition worker_round ::
  "string \<Rightarrow> bool \<Rightarrow> nat \<Rightarrow> io_result \<Rightarrow> tm \<Rightarrow> (string \<Rightarrow> 32 word) \<Rightarrow> char \<Rightarrow> int \<Rightarrow> (z_result \<times> string) list \<Rightarrow>
   bool \<Rightarrow> bool \<Rightarrow> bool \<Rightarrow> handler_result \<Rightarrow> header list \<Rightarrow> buf_t \<Rightarrow> out_req \<Rightarrow> (worker_result \<times> buf_t \<times> out_req) option" where
  "worker_round kt gzip min_size w now crc u base calls gone late allow handler hdrs gzip_buf r =
     (let r = r\<lparr>o_type := ''text/html'', o_type_len := 9\<rparr> in
      case handler of
        Exception code \<Rightarrow> map_option (\<lambda>(s, r). (Sent s, gzip_buf, r)) (http_error kt w code r)
      | Page page ty \<Rightarrow>
          let r = (case ty of None \<Rightarrow> r | Some (str, len) \<Rightarrow> set_content_type str len r) in
          if gone then Some (Gone_Meanwhile, gzip_buf, r)
          else if gzip \<and> allow \<and> length page > min_size \<and> accepts_gzip hdrs then
            (let b = fst (buf_expand u base gzip_buf (of_nat (length page))) in
             do { (ok, b, avail_out) \<leftarrow> page_deflate u base (unat (b_cur_len b)) calls b;
                  if \<not> ok then map_option (\<lambda>(s, r). (Sent s, b, r)) (http_error kt w 500 r)
                  else do { r \<leftarrow> page_build kt now crc page (Some (take (unat (b_cur_len b) - avail_out) (b_data b))) r;
                            Some (send_page w late b r) } })
          else do { r \<leftarrow> page_build kt now crc page None r;
                    Some (send_page w late gzip_buf r) })"

section \<open>The end of a request\<close>

datatype socket_event = Wait_For_Input int | Close_Socket int

record req_state =
  rq_sock :: int
  rq_conn :: conn
  rq_out :: out_req
  rq_gzip_buf :: buf_t

text \<open>
  \<^verbatim>\<open>http_cleanup\<close>: the request and what happens to the socket.  The pointer into the output vector is left
  as it is; a mapped file is given back.
\<close>

definition http_cleanup :: "char \<Rightarrow> int \<Rightarrow> bool \<Rightarrow> req_state \<Rightarrow> req_state \<times> socket_event" where
  "http_cleanup u base gzip q =
     (let c = rq_conn q; h = cn_in c;
          h' = h\<lparr>hi_keepalive := False, method_get := False, method_post := False, method_head := False, uri_len := 0, hi_p := []\<rparr>;
          c' = c\<lparr>cn_in := h', cn_content_type := None, cn_content_length := None, cn_map := None, cn_b := buf_free u base (cn_b c)\<rparr>;
          r' = (rq_out q)\<lparr>o_keepalive := False, o_total := 0, o_fd := False, o_vec := []\<rparr> in
      (\<lparr>rq_sock = -1, rq_conn = c', rq_out = r',
        rq_gzip_buf = (if gzip then buf_free u base (rq_gzip_buf q) else rq_gzip_buf q)\<rparr>,
       if hi_keepalive h then Wait_For_Input (rq_sock q) else Close_Socket (rq_sock q)))"

text \<open>\<^verbatim>\<open>http_prepare\<close>: a fresh request structure; \<open>save_space\<close> leaves the buffers without reserve.\<close>

definition HTTP_BUFFER_RESERVED_SIZE :: nat where "HTTP_BUFFER_RESERVED_SIZE = 262144"
definition HTTP_GZIP_BUFFER_RESERVED_SIZE :: nat where "HTTP_GZIP_BUFFER_RESERVED_SIZE = 65536"

definition http_prepare :: "char \<Rightarrow> int \<Rightarrow> bool \<Rightarrow> bool \<Rightarrow> req_state \<Rightarrow> req_state" where
  "http_prepare u base gzip save_space q =
     (let c = rq_conn q; h = cn_in c;
          h' = h\<lparr>hi_keepalive := False, method_get := False, method_post := False, method_head := False, uri_len := 0, hi_p := [], hi_alloc := 0\<rparr>;
          c' = c\<lparr>cn_in := h', cn_content_type := None, cn_content_length := None, cn_map := None,
                 cn_b := buf_create u base 1 (of_nat (if save_space then 0 else HTTP_BUFFER_RESERVED_SIZE))\<rparr>;
          r' = (rq_out q)\<lparr>o_keepalive := False, o_total := 0, o_fd := False, o_vec := []\<rparr> in
      \<lparr>rq_sock = -1, rq_conn = c', rq_out = r',
       rq_gzip_buf = (if gzip then buf_create u base 1 (of_nat (if save_space then 0 else HTTP_GZIP_BUFFER_RESERVED_SIZE)) else rq_gzip_buf q)\<rparr>)"

section \<open>Ready for the next request\<close>

definition ready_for_request :: "bool \<Rightarrow> req_state \<Rightarrow> bool" where
  "ready_for_request gzip q \<longleftrightarrow> head_inv (rq_conn q) \<and> received (rq_conn q) = [] \<and> \<not> hi_keepalive (cn_in (rq_conn q)) \<and>
     o_vec (rq_out q) = [] \<and> o_total (rq_out q) = 0 \<and> \<not> o_fd (rq_out q) \<and>
     (gzip \<longrightarrow> buf_inv (rq_gzip_buf q) \<and> b_node_size (rq_gzip_buf q) = 1 \<and> b_cur_len (rq_gzip_buf q) = 0)"

definition req_inv :: "bool \<Rightarrow> req_state \<Rightarrow> bool" where
  "req_inv gzip q \<longleftrightarrow> buf_inv (cn_b (rq_conn q)) \<and> b_node_size (cn_b (rq_conn q)) = 1 \<and>
     (gzip \<longrightarrow> buf_inv (rq_gzip_buf q) \<and> b_node_size (rq_gzip_buf q) = 1)"

lemma buf_free_inv:
  assumes "buf_inv b" "b_node_size b = 1"
  shows "buf_inv (buf_free u base b) \<and> b_node_size (buf_free u base b) = 1 \<and> b_cur_len (buf_free u base b) = 0 \<and> buf_used (buf_free u base b) = []"
  using assms by (auto simp: buf_free_def buf_inv_def buf_used_def Let_def)

lemma http_cleanup_ready: "req_inv gzip q \<Longrightarrow> ready_for_request gzip (fst (http_cleanup u base gzip q))"
  using buf_free_inv [of "cn_b (rq_conn q)" u base] buf_free_inv [of "rq_gzip_buf q" u base]
  by (auto simp: req_inv_def http_cleanup_def Let_def ready_for_request_def head_inv_def)

lemma http_prepare_ready: "ready_for_request gzip (http_prepare u base gzip save_space q)"
proof -
  have "buf_inv (buf_create u base 1 (of_nat n)) \<and> buf_used (buf_create u base 1 (of_nat n)) = []" if "n < 2 ^ 32" for n
    using that by (intro buf_create_inv) (simp add: unat_of_nat)
  from this [of "if save_space then 0 else HTTP_BUFFER_RESERVED_SIZE"] this [of "if save_space then 0 else HTTP_GZIP_BUFFER_RESERVED_SIZE"]
  show ?thesis by (simp add: http_prepare_def ready_for_request_def head_inv_def Let_def HTTP_BUFFER_RESERVED_SIZE_def HTTP_GZIP_BUFFER_RESERVED_SIZE_def buf_create_def)
qed

section \<open>Compressed pages\<close>

text \<open>
  What zlib documents of \<^verbatim>\<open>deflate(z, Z_FINISH)\<close>, with \<open>avail\<close> bytes of space for the first call and 256 for
  every further one: \<^verbatim>\<open>Z_OK\<close> while the space is used up, \<^verbatim>\<open>Z_STREAM_END\<close> at the end of the output.
\<close>

fun finishes :: "nat \<Rightarrow> (z_result \<times> string) list \<Rightarrow> string \<Rightarrow> bool" where
  "finishes avail [] out \<longleftrightarrow> False"
| "finishes avail ((res, bs) # calls) out \<longleftrightarrow>
     (if res = Z_OK then length bs = avail \<and> is_prefix bs out \<and> finishes 256 calls (drop avail out)
      else res = Z_STREAM_END \<and> length bs \<le> avail \<and> out = bs)"

lemma byte_expand:
  assumes "buf_inv b" "b_node_size b = 1" "unat (b_cur_len b) + n < 2 ^ 32"
  shows "buf_inv (fst (buf_expand u base b (of_nat n)))" "b_node_size (fst (buf_expand u base b (of_nat n))) = 1"
    "unat (b_cur_len (fst (buf_expand u base b (of_nat n)))) = unat (b_cur_len b) + n"
    "take (unat (b_cur_len b)) (b_data (fst (buf_expand u base b (of_nat n)))) = take (unat (b_cur_len b)) (b_data b)"
proof -
  obtain b' off where e: "buf_expand u base b (of_nat n) = (b', off)" by (cases "buf_expand u base b (of_nat n)")
  have un: "unat (of_nat n :: uint) = n" using assms(3) by (simp add: unat_of_nat)
  have law: "buf_inv b'" "unat (b_cur_len b') = unat (b_cur_len b) + n" "take (length (buf_used b)) (buf_used b') = buf_used b"
    using buf_expand_law [OF assms(1) _ e] assms(2,3) by (auto simp: buf_fits_def un)
  have ns: "b_node_size b' = 1" using e assms(2) by (auto simp: buf_expand_def buf_grow_def split: if_splits)
  have l: "length (buf_used b) = unat (b_cur_len b)" using length_received [OF assms(1,2)] .
  have "take (unat (b_cur_len b)) (b_data b') = take (unat (b_cur_len b)) (buf_used b')" using law(2) ns by (simp add: buf_used_def min.absorb1)
  also have "\<dots> = take (unat (b_cur_len b)) (b_data b)" using law(3) l assms(2) by (simp add: buf_used_def)
  finally show "buf_inv (fst (buf_expand u base b (of_nat n)))" "b_node_size (fst (buf_expand u base b (of_nat n))) = 1"
    "unat (b_cur_len (fst (buf_expand u base b (of_nat n)))) = unat (b_cur_len b) + n"
    "take (unat (b_cur_len b)) (b_data (fst (buf_expand u base b (of_nat n)))) = take (unat (b_cur_len b)) (b_data b)"
    using e law(1,2) ns by simp_all
qed

lemma page_deflate_law:
  assumes "buf_inv b" "b_node_size b = 1" "avail \<le> unat (b_cur_len b)" "finishes avail calls out"
    and "unat (b_cur_len b) - avail + length out + 256 < 2 ^ 32"
  shows "\<exists>b' av. page_deflate u base avail calls b = Some (True, b', av) \<and> buf_inv b' \<and> b_node_size b' = 1 \<and>
     take (unat (b_cur_len b') - av) (b_data b') = take (unat (b_cur_len b) - avail) (b_data b) @ out"
  using assms
proof (induction calls arbitrary: avail b out)
  case (Cons x calls)
  obtain res bs where x: "x = (res, bs)" by (cases x)
  let ?k = "unat (b_cur_len b) - avail"
  have bs: "length bs \<le> avail" using Cons.prems(4) x by (auto split: if_splits)
  have len: "unat (b_cur_len b) \<le> length (b_data b)" using Cons.prems(1,2) by (simp add: buf_inv_def)
  then have room: "?k + length bs \<le> length (b_data b)" using bs Cons.prems(3) by simp
  let ?d = "take ?k (b_data b) @ bs @ drop (?k + length bs) (b_data b)"
  have d: "memcpy_at (b_data b) ?k bs = Some ?d" using room by (simp add: memcpy_at_def)
  have ld: "length ?d = length (b_data b)" using room by simp
  let ?b = "b\<lparr>b_data := ?d\<rparr>"
  have inv: "buf_inv ?b" "b_node_size ?b = 1" using Cons.prems(1,2) ld by (simp_all add: buf_inv_def)
  have tk: "take (?k + length bs) ?d = take ?k (b_data b) @ bs" using room by simp
  show ?case
  proof (cases "res = Z_OK")
    case False
    then have "res = Z_STREAM_END" "out = bs" using Cons.prems(4) x by auto
    then show ?thesis using x d inv tk bs Cons.prems(3) by (auto simp: Let_def)
  next
    case True
    then have o: "length bs = avail" "is_prefix bs out" "finishes 256 calls (drop avail out)" using Cons.prems(4) x by auto
    obtain rest where out: "out = bs @ rest" using o(2) unfolding is_prefix_iff by blast
    then have fin: "finishes 256 calls rest" and ll: "length out = avail + length rest" using o by simp_all
    let ?e = "fst (buf_expand u base ?b (of_nat 256))"
    have fits: "unat (b_cur_len ?b) + 256 < 2 ^ 32" using Cons.prems(3,5) ll by simp
    note e = byte_expand [OF inv fits, of u base]
    have c: "unat (b_cur_len ?e) = unat (b_cur_len b) + 256" using e(3) by simp
    have "256 \<le> unat (b_cur_len ?e)" "unat (b_cur_len ?e) - 256 + length rest + 256 < 2 ^ 32"
      unfolding c using ll Cons.prems(3,5) by linarith+
    then obtain b' av where r: "page_deflate u base 256 calls ?e = Some (True, b', av)" "buf_inv b'" "b_node_size b' = 1"
        "take (unat (b_cur_len b') - av) (b_data b') = take (unat (b_cur_len ?e) - 256) (b_data ?e) @ rest"
      using Cons.IH [OF e(1,2) _ fin] by blast
    have "take (unat (b_cur_len ?e) - 256) (b_data ?e) = take ?k (b_data b) @ bs"
      unfolding c using e(4) tk o(1) Cons.prems(3) by simp
    then have "take (unat (b_cur_len b') - av) (b_data b') = take ?k (b_data b) @ out" using r(4) out by simp
    then show ?thesis using r(1-3) x d True o(1) by (simp add: Let_def)
  qed
qed simp


definition page_body :: "(string \<Rightarrow> 32 word) \<Rightarrow> string \<Rightarrow> string option \<Rightarrow> string" where
  "page_body crc page z = (case z of None \<Rightarrow> page | Some d \<Rightarrow> GZIP_HEADER @ d @ le32 (crc page) @ le32 (of_nat (length page)))"

definition page_head :: "string \<Rightarrow> tm \<Rightarrow> nat \<Rightarrow> bool \<Rightarrow> out_req \<Rightarrow> string" where
  "page_head kt now n gz r =
     head_text kt 200 (r\<lparr>o_content_length := int n\<rparr>) @
     (if gz then ''Content-Encoding: gzip'' @ CLRF @ ''Vary: Accept-Encoding'' @ CLRF else []) @
     ''Cache-Control: no-cache, must-revalidate'' @ CLRF @ ''Pragma: no-cache'' @ CLRF @
     ''Date: '' @ http_rfc822_date now @ CLRF @ CLRF"

lemma page_build_ok:
  assumes tm: "tm_ok now" and r: "o_vec r = []" "o_total r = 0" "\<not> o_fd r" "o_type_len r = length (o_type r)" "length (o_type r) \<le> 1000"
    and small: "length (page_body crc page z) < 2 ^ 31" "length kt \<le> 1000"
  shows "\<exists>r0. page_build kt now crc page z r = Some r0 \<and> ready [] r0 \<and>
     out_text r0 = page_head kt now (length (page_body crc page z)) (z \<noteq> None) r @ page_body crc page z"
proof -
  let ?n = "length (page_body crc page z)"
  let ?q = "r\<lparr>o_content_length := int ?n\<rparr>"
  have q: "o_type_len ?q = length (o_type ?q)" "0 \<le> o_content_length ?q" "vec_ok ?q" using r by (simp_all add: vec_ok_def)
  obtain r1 where r1: "http_append_headers kt 200 ?q = Some r1" "vec_ok r1" "out_text r1 = head_text kt 200 ?q" "o_fd r1 = o_fd r" "o_content_length r1 = int ?n"
    using http_append_headers_text [OF _ q, of 200 kt] r by auto
  have d: "length (http_rfc822_date now) = 29" using tm by (rule length_rfc822_date)
  let ?mid = "[''Cache-Control: no-cache, must-revalidate'' @ CLRF @ ''Pragma: no-cache'' @ CLRF, ''Date: '', http_rfc822_date now, CLRF @ CLRF]"
  let ?ps = "case z of None \<Rightarrow> ?mid @ [page]
    | Some e \<Rightarrow> [''Content-Encoding: gzip'' @ CLRF @ ''Vary: Accept-Encoding'' @ CLRF] @ ?mid @ [GZIP_HEADER, e, le32 (crc page) @ le32 (of_nat (length page))]"
  have cl: "o_content_length (append_all ps r1) = int ?n" for ps using r1(5) by (simp add: append_all_def)
  have b: "page_build kt now crc page z r = Some (append_all ?ps r1)"
  proof (cases z)
    case None
    then have "page_body crc page z = page" by (simp add: page_body_def)
    then show ?thesis using None r1(1) d cl by (simp add: page_build_def append_first append_step)
  next
    case (Some e)
    then have "?n = length e + 18" by (simp add: page_body_def)
    then show ?thesis using Some r1(1) d by (simp add: page_build_def append_first append_step)
  qed
  have t: "out_text (append_all ?ps r1) = page_head kt now ?n (z \<noteq> None) r @ page_body crc page z"
    using r1(3) by (cases z) (simp_all add: append_all_def page_head_def page_body_def)
  have "length (head_text kt 200 ?q) < 2700" using r small by (intro head_text_short) auto
  then have "length (out_text (append_all ?ps r1)) < 2 ^ 32" unfolding t using d small(1) by (cases z) (simp_all add: page_head_def)
  moreover have "o_vec (append_all ?ps r1) \<noteq> []" by (cases z) (simp_all add: append_all_def)
  moreover have "\<not> o_fd (append_all ?ps r1)" using r1(4) r(3) by (simp add: append_all_def)
  ultimately have "ready [] (append_all ?ps r1)" using append_all_ok [OF r1(2), of ?ps] by (simp add: ready_def)
  then show ?thesis using b t by blast
qed

text \<open>
  C11.  A page a handler has produced is sent whole (if the client is still there): uncompressed, or, if compression is on, the page is big enough
  and the client accepts it, as a gzip member whose header, compressed data, checksum and length are all
  there; \<^verbatim>\<open>Content-Type\<close> is \<^verbatim>\<open>text/html\<close> or what the handler has set (with its length, at most 1000 bytes),
  \<^verbatim>\<open>Content-Length\<close> is the number of bytes that follow, and the answer is ready to be delivered.
\<close>

theorem worker_round_page:
  fixes page hdrs allow gzip min_size calls out ty
  defines "content_type \<equiv> (case ty of None \<Rightarrow> ''text/html'' | Some (str, len) \<Rightarrow> str)"
  defines "compress \<equiv> gzip \<and> allow \<and> length page > min_size \<and> accepts_gzip hdrs"
  assumes rdy: "o_vec r = []" "o_total r = 0" "\<not> o_fd r" and buf: "compress \<Longrightarrow> buf_inv gb \<and> b_node_size gb = 1 \<and> b_cur_len gb = 0"
    and z: "compress \<Longrightarrow> finishes (length page) calls out" and small: "length page < 2 ^ 30" "length out < 2 ^ 30" "length kt \<le> 1000"
    and tm: "tm_ok now" and ty: "case ty of None \<Rightarrow> True | Some (str, len) \<Rightarrow> len = length str \<and> len \<le> 1000"
  shows "\<exists>b r0. worker_round kt gzip min_size w now crc u base calls False late allow (Page page ty) hdrs gb r =
      Some (send_page w late b r0) \<and> ready [] r0 \<and>
    out_text r0 = page_head kt now (length (page_body crc page (if compress then Some out else None))) compress
      (r\<lparr>o_type := content_type\<rparr>) @ page_body crc page (if compress then Some out else None)"
proof -
  let ?r = "r\<lparr>o_type := content_type, o_type_len := length content_type\<rparr>" and ?z = "if compress then Some out else None"
  have "length (page_body crc page ?z) < 2 ^ 31" using small by (auto simp: page_body_def)
  then obtain r0 where r0: "page_build kt now crc page ?z ?r = Some r0" "ready [] r0"
      "out_text r0 = page_head kt now (length (page_body crc page ?z)) (?z \<noteq> None) ?r @ page_body crc page ?z"
    using page_build_ok [OF tm, of ?r crc page ?z kt] rdy small(3) ty by (auto simp: content_type_def split: option.splits)
  have c: "(?z \<noteq> None) = compress" by simp
  have h: "page_head kt now n g ?r = page_head kt now n g (r\<lparr>o_type := content_type\<rparr>)" for n g
    by (simp add: page_head_def head_text_def)
  have set_type: "(case ty of None \<Rightarrow> r\<lparr>o_type := ''text/html'', o_type_len := 9\<rparr>
      | Some (str, len) \<Rightarrow> set_content_type str len (r\<lparr>o_type := ''text/html'', o_type_len := 9\<rparr>)) = ?r"
    using ty by (cases ty) (auto simp: content_type_def set_content_type_def)
  show ?thesis
  proof (cases compress)
    case False
    then have "worker_round kt gzip min_size w now crc u base calls False late allow (Page page ty) hdrs gb r =
        Some (send_page w late gb r0)"
      using r0(1) set_type by (auto simp: worker_round_def compress_def Let_def)
    then show ?thesis using r0(2,3) unfolding c h by blast
  next
    case True
    let ?b = "fst (buf_expand u base gb (of_nat (length page)))"
    have g: "buf_inv gb" "b_node_size gb = 1" "unat (b_cur_len gb) + length page < 2 ^ 32" "unat (b_cur_len gb) = 0" using buf [OF True] small(1) by auto
    note e = byte_expand [OF g(1-3), of u base]
    obtain b' av where p: "page_deflate u base (unat (b_cur_len ?b)) calls ?b = Some (True, b', av)"
        "take (unat (b_cur_len b') - av) (b_data b') = take (unat (b_cur_len ?b) - unat (b_cur_len ?b)) (b_data ?b) @ out"
      using page_deflate_law [OF e(1,2) order_refl, of calls out u base] z [OF True] small(2) e(3) g(4) by auto
    then have "worker_round kt gzip min_size w now crc u base calls False late allow (Page page ty) hdrs gb r =
        Some (send_page w late b' r0)"
      using True r0(1) set_type by (simp add: worker_round_def compress_def Let_def)
    then show ?thesis using r0(2,3) unfolding c h by blast
  qed
qed


definition sample_buf :: buf_t where
  "sample_buf = \<lparr>b_cur_len = 0, b_reserved_len = 0, b_node_size = 1, b_base = 0, b_data = []\<rparr>"

theorem worker_round_page_witness:
  "\<exists>b r0. worker_round ''25'' True 1 WouldBlock sample_tm (\<lambda>_. 7) CHR ''u'' 0 [(Z_OK, ''xyz''), (Z_STREAM_END, ''w'')] False False True
       (Page ''abc'' (Some (''text/css'', 8)))
       [(''accept-encoding'', ''gzip'')] sample_buf sample_out = Some (send_page WouldBlock False b r0) \<and>
     out_text r0 = page_head ''25'' sample_tm 22 True (sample_out\<lparr>o_type := ''text/css''\<rparr>) @ GZIP_HEADER @ ''xyzw'' @ le32 7 @ le32 3"
proof -
  have a: "accepts_gzip [(''accept-encoding'', ''gzip'')]" by (simp add: accepts_gzip_def cstr_def)
  have "tm_ok sample_tm" by (simp add: tm_ok_def sample_tm_def)
  moreover have "finishes 3 [(Z_OK, ''xyz''), (Z_STREAM_END, ''w'')] ''xyzw''" by simp
  ultimately show ?thesis
    using worker_round_page [of sample_out True True 1 "''abc''" "[(''accept-encoding'', ''gzip'')]" sample_buf
        "[(Z_OK, ''xyz''), (Z_STREAM_END, ''w'')]" "''xyzw''" "''25''" sample_tm "Some (''text/css'', 8)" WouldBlock "\<lambda>_. 7" "CHR ''u''" 0 False] a
    by (simp add: sample_out_def sample_buf_def buf_inv_def page_body_def) blast
qed

section \<open>One request after another\<close>

text \<open>
  C8.  A connection that is kept alive starts afresh: whatever a request has left behind, after its clean-up the
  structure is as after \<^verbatim>\<open>http_prepare\<close> (nothing received, no output, no file, not kept alive), so that the
  next request, if it arrives in one piece, is answered from its own URI and headers only; and the socket is
  watched again exactly if the connection is kept alive, else closed.
\<close>

theorem http_cleanup_next_request:
  assumes inv: "req_inv gzip q" and q': "http_cleanup u base gzip q = (q', ev)"
    and next_req: "well_formed method uri ver kvs" "method \<noteq> ''POST''" "length (client_text method uri ver kvs @ rest) \<le> HTTP_RECV_BUFFER"
  shows "ready_for_request gzip q' \<and> rq_sock q' = -1 \<and>
    ev = (if hi_keepalive (cn_in (rq_conn q)) then Wait_For_Input (rq_sock q) else Close_Socket (rq_sock q)) \<and>
    (\<exists>c'. http_serve_client nks rks u base (rq_conn q') k (Got (client_text method uri ver kvs @ rest) # rs) =
       Some (Http_Response, c', snd (keepalive_after nks kvs (False, k)), rs) \<and> parsed method uri kvs c')"
proof -
  have rdy: "ready_for_request gzip q'" using http_cleanup_ready [OF inv, of u base] q' by simp
  then have c: "head_inv (rq_conn q')" "received (rq_conn q') = []" "\<not> hi_keepalive (cn_in (rq_conn q'))" by (simp_all add: ready_for_request_def)
  have "\<exists>c'. http_serve_client nks rks u base (rq_conn q') k (Got (client_text method uri ver kvs @ rest) # rs) =
       Some (Http_Response, c', snd (keepalive_after nks kvs (False, k)), rs) \<and> parsed method uri kvs c'"
    using serve_whole_head [OF c(1,2) next_req(1) refl next_req(3), where nks = nks and k = k and rks = rks and u = u and base = base and rs = rs]
      next_req(2) c(3) by auto
  then show ?thesis using rdy q' by (auto simp: http_cleanup_def Let_def)
qed


definition sample_req :: req_state where
  "sample_req = \<lparr>rq_sock = 9, rq_conn = fresh_conn\<lparr>cn_in := (cn_in fresh_conn)\<lparr>hi_keepalive := True, uri_len := 4\<rparr>\<rparr>,
     rq_out = sample_out, rq_gzip_buf = sample_buf\<rparr>"

theorem http_cleanup_next_request_witness:
  "\<exists>q' c'. http_cleanup CHR ''u'' 0 True sample_req = (q', Wait_For_Input 9) \<and>
     http_serve_client (\<lambda>n. (True, Suc n)) id CHR ''u'' 0 (rq_conn q') 0 [Got (client_text ''GET'' ''/x'' ''1.1'' [])] =
       Some (Http_Response, c', 0, []) \<and> parsed ''GET'' ''/x'' [] c'"
proof -
  have inv: "req_inv True sample_req" by (simp add: req_inv_def sample_req_def fresh_conn_def sample_buf_def buf_inv_def)
  obtain q' ev where q: "http_cleanup CHR ''u'' 0 True sample_req = (q', ev)" by (cases "http_cleanup CHR ''u'' 0 True sample_req")
  have wf: "well_formed ''GET'' ''/x'' ''1.1'' []" by (simp add: well_formed_def client_text_def)
  have l: "length (client_text ''GET'' ''/x'' ''1.1'' [] @ []) \<le> HTTP_RECV_BUFFER" by (simp add: client_text_def HTTP_RECV_BUFFER_def)
  have s: "hi_keepalive (cn_in (rq_conn sample_req))" "rq_sock sample_req = 9" by (simp_all add: sample_req_def)
  show ?thesis
    using http_cleanup_next_request [OF inv q wf _ l, of "\<lambda>n. (True, Suc n)" id 0 "[]"] q s by simp
qed

end
