(* ===== verification/Core_Server.thy ===== *)
theory Core_Server
  imports Frag_Pool
begin

text \<open>
  The connection tables of \<^verbatim>\<open>core_server.c\<close>: sockets that are kept alive
  (\<^verbatim>\<open>new_keepalive_socket\<close>, \<^verbatim>\<open>remove_keepalive_socket\<close>), the request rate limit
  (\<^verbatim>\<open>limit_requests\<close>), the limit of simultaneous requests (\<^verbatim>\<open>limit_sim_requests\<close>), the
  list of request structures (\<^verbatim>\<open>event_find_request\<close>, \<^verbatim>\<open>event_fetch_request\<close>), the periodic
  \<^verbatim>\<open>event_iter\<close>, the accept loop of \<^verbatim>\<open>event_routine\<close> and the clock.

  The three tables are fragmented pools; what is known of them comes from the interface
  \<open>node_pool\<close>.  \<open>peer\<close> stands for \<^verbatim>\<open>getpeername\<close>: the binary address behind a socket.
  \<^verbatim>\<open>ipv6_addr\<close> is the global flag for a server on an IPv6 address; there a successful \<^verbatim>\<open>getpeername\<close> writes
  the 28 bytes of a \<^verbatim>\<open>sockaddr_in6\<close> over static \<^verbatim>\<open>sockaddr\<close>s of 16, which is the result \<open>None\<close>.  The
  address \<open>a\<close> and the junk value \<open>u\<close> of an allocating operation are what \<^verbatim>\<open>malloc\<close> returned.
\<close>

type_synonym sock = int
type_synonym ip = "char list"

section \<open>Data\<close>

record keepalive_sock_t =
  ks_sock :: sock
  ks_time :: int

record limit_req_t =
  lr_addr :: ip
  lr_time :: int
  lr_dtime :: int
  lr_req :: nat

record server_config =
  keepalive_max_conn_per_client :: nat
  keepalive_max_conn :: nat
  keepalive_timeout_val :: int
  limit_rate :: nat
  limit_delay :: int
  limit_sim_threshold :: nat
  prealloc_request_structures :: nat
  idle_request_structures :: bool
  cfg_limit_req :: bool
  cfg_limit_sim_req :: bool
  ipv6_addr :: bool

section \<open>Sockets that are kept alive\<close>

text \<open>
  The loop over the slots: \<open>Inl i\<close> if the socket is known (slot \<open>i\<close>), else how many sockets with a
  peer there are, in total and from the same client.
\<close>

fun keepalive_scan :: "(sock \<Rightarrow> ip option) \<Rightarrow> sock \<Rightarrow> ip \<Rightarrow> nat \<Rightarrow> nat \<Rightarrow> nat \<Rightarrow>
    keepalive_sock_t frag_pool_elem_t list \<Rightarrow> nat + nat \<times> nat" where
  "keepalive_scan peer s addr i tot percli [] = Inr (tot, percli)"
| "keepalive_scan peer s addr i tot percli (x # xs) =
     (if e_free x then keepalive_scan peer s addr (Suc i) tot percli xs
      else if ks_sock (e_data x) = s then Inl i
      else (case peer (ks_sock (e_data x)) of
              None \<Rightarrow> keepalive_scan peer s addr (Suc i) tot percli xs
            | Some saddr \<Rightarrow>
                keepalive_scan peer s addr (Suc i) (tot + 1) (if addr = saddr then percli + 1 else percli) xs))"

definition new_keepalive_socket ::
  "server_config \<Rightarrow> (sock \<Rightarrow> ip option) \<Rightarrow> int \<Rightarrow> addr \<Rightarrow> keepalive_sock_t \<Rightarrow> sock \<Rightarrow>
   keepalive_sock_t frag_pool_t \<Rightarrow> heap \<Rightarrow> (bool \<times> keepalive_sock_t frag_pool_t \<times> heap) option" where
  "new_keepalive_socket config peer curtime a u s p H =
     (case peer s of
        None \<Rightarrow> Some (False, p, H)
      | Some addr \<Rightarrow>
          if ipv6_addr config then None
          else (case keepalive_scan peer s addr 0 0 0 (take (f_real_len p) (f_e p)) of
             Inl i \<Rightarrow>
               Some (True, p\<lparr>f_e := (f_e p)[i := (f_e p ! i)\<lparr>e_data := (e_data (f_e p ! i))\<lparr>ks_time := curtime\<rparr>\<rparr>]\<rparr>, H)
           | Inr (tot, percli) \<Rightarrow>
               if percli \<ge> keepalive_max_conn_per_client config then Some (False, p, H)
               else if tot \<ge> keepalive_max_conn config then Some (False, p, H)
               else
                 let (k, p, H) = frag_pool_alloc a u p H in
                 Some (True, frag_pool_store k \<lparr>ks_sock = s, ks_time = curtime\<rparr> p, H)))"

definition remove_keepalive_socket ::
  "sock \<Rightarrow> keepalive_sock_t frag_pool_t \<Rightarrow> heap \<Rightarrow> (keepalive_sock_t frag_pool_t \<times> heap) option" where
  "remove_keepalive_socket s p H =
     (case find_from (\<lambda>x. \<not> e_free x \<and> ks_sock (e_data x) = s) 0 (take (f_real_len p) (f_e p)) of
        Some i \<Rightarrow> frag_pool_free_alt p i H
      | None \<Rightarrow> Some (p, H))"

section \<open>The request rate\<close>

definition limit_requests ::
  "server_config \<Rightarrow> int \<Rightarrow> addr \<Rightarrow> limit_req_t \<Rightarrow> ip \<Rightarrow> limit_req_t frag_pool_t \<Rightarrow> heap \<Rightarrow>
   (bool \<times> limit_req_t frag_pool_t \<times> heap) option" where
  "limit_requests config curtime a u bin p H =
     (case find_from (\<lambda>x. \<not> e_free x \<and> lr_addr (e_data x) = bin) 0 (take (f_real_len p) (f_e p)) of
        Some i \<Rightarrow>
          let cli = e_data (f_e p ! i);
              upd = (\<lambda>c. p\<lparr>f_e := (f_e p)[i := (f_e p ! i)\<lparr>e_data := c\<rparr>]\<rparr>) in
          if lr_req cli > limit_rate config then Some (True, p, H)
          else if curtime - lr_time cli \<le> 1 then
            let cli = cli\<lparr>lr_req := inc32 (lr_req cli)\<rparr> in
            if lr_req cli > limit_rate config
            then Some (True, upd (cli\<lparr>lr_dtime := curtime + limit_delay config\<rparr>), H)
            else Some (False, upd cli, H)
          else map_option (\<lambda>(p, H). (False, p, H)) (frag_pool_free_alt p i H)
      | None \<Rightarrow>
          let (k, p, H) = frag_pool_alloc a u p H in
          Some (False, frag_pool_store k \<lparr>lr_addr = bin, lr_time = curtime, lr_dtime = 0, lr_req = 1\<rparr> p, H))"

section \<open>Simultaneous requests\<close>

text \<open>
  The loop visits the slots in order while it releases some of them; it stops at the current
  \<^verbatim>\<open>real_len\<close>, which a release can only make smaller, so that the indices below the first
  \<^verbatim>\<open>real_len\<close> are enough.  \<open>Inl\<close> is the early return.
\<close>

fun limit_sim_loop ::
  "server_config \<Rightarrow> (sock \<Rightarrow> ip option) \<Rightarrow> ip \<Rightarrow> sock \<Rightarrow> nat list \<Rightarrow> nat \<Rightarrow> sock frag_pool_t \<Rightarrow> heap \<Rightarrow>
   (sock frag_pool_t \<times> heap + sock frag_pool_t \<times> heap) option" where
  "limit_sim_loop config peer bin1 s [] tot p H = Some (Inr (p, H))"
| "limit_sim_loop config peer bin1 s (i # is) tot p H =
     (if i < f_real_len p then
        if e_free (f_e p ! i) then limit_sim_loop config peer bin1 s is tot p H
        else
          let cli = e_data (f_e p ! i) in
          if cli = s \<or> peer cli = None
          then (case frag_pool_free_alt p i H of
                  None \<Rightarrow> None
                | Some (p, H) \<Rightarrow> limit_sim_loop config peer bin1 s is tot p H)
          else if ipv6_addr config then None
          else if peer cli = Some bin1
          then (if tot + 1 \<ge> limit_sim_threshold config then Some (Inl (p, H))
                else limit_sim_loop config peer bin1 s is (tot + 1) p H)
          else limit_sim_loop config peer bin1 s is tot p H
      else Some (Inr (p, H)))"

definition limit_sim_requests ::
  "server_config \<Rightarrow> (sock \<Rightarrow> ip option) \<Rightarrow> addr \<Rightarrow> sock \<Rightarrow> ip \<Rightarrow> sock \<Rightarrow> sock frag_pool_t \<Rightarrow> heap \<Rightarrow>
   (bool \<times> sock frag_pool_t \<times> heap) option" where
  "limit_sim_requests config peer a u bin1 s p H =
     (case limit_sim_loop config peer bin1 s [0..<f_real_len p] 0 p H of
        None \<Rightarrow> None
      | Some (Inl (p, H)) \<Rightarrow> Some (True, p, H)
      | Some (Inr (p, H)) \<Rightarrow>
          let (k, p, H) = frag_pool_alloc a u p H in Some (False, frag_pool_store k s p, H))"

section \<open>Request structures\<close>

text \<open>The list \<^verbatim>\<open>requests_vector\<close> by the socket each structure serves, \<open>-1\<close> for none.\<close>

definition event_find_request :: "sock \<Rightarrow> sock list \<Rightarrow> nat option \<times> sock list" where
  "event_find_request s rs =
     (case find_from (\<lambda>x. x = s) 0 rs of
        Some i \<Rightarrow> (Some i, rs)
      | None \<Rightarrow>
          (case find_from (\<lambda>x. x = -1) 0 rs of
             Some i \<Rightarrow> (Some i, rs[i := s])
           | None \<Rightarrow> (None, rs)))"

definition event_fetch_request :: "sock \<Rightarrow> sock list \<Rightarrow> nat \<times> sock list" where
  "event_fetch_request s rs =
     (case find_from (\<lambda>x. x = s) 0 rs of
        Some i \<Rightarrow> (i, rs)
      | None \<Rightarrow>
          (case find_from (\<lambda>x. x = -1) 0 rs of
             Some i \<Rightarrow> (i, rs[i := s])
           | None \<Rightarrow> (length rs, rs @ [s])))"

text \<open>\<^verbatim>\<open>event_startup\<close>: the preallocated structures.\<close>

fun event_startup :: "nat \<Rightarrow> sock list \<Rightarrow> sock list" where
  "event_startup 0 rs = rs"
| "event_startup (Suc n) rs = event_startup n (rs @ [-1])"

section \<open>The periodic work\<close>

text \<open>Sockets whose keep-alive time is over and that no structure serves are closed.\<close>

fun keepalive_expire ::
  "server_config \<Rightarrow> int \<Rightarrow> sock list \<Rightarrow> nat list \<Rightarrow> keepalive_sock_t frag_pool_t \<Rightarrow> heap \<Rightarrow> sock list \<Rightarrow>
   (keepalive_sock_t frag_pool_t \<times> heap \<times> sock list) option" where
  "keepalive_expire config curtime rs [] p H closed = Some (p, H, closed)"
| "keepalive_expire config curtime rs (i # is) p H closed =
     (if i < f_real_len p then
        if e_free (f_e p ! i) then keepalive_expire config curtime rs is p H closed
        else
          let k = e_data (f_e p ! i); dlt = curtime - ks_time k in
          if (dlt > keepalive_timeout_val config \<or> dlt < 0) \<and> ks_sock k \<notin> set rs
          then (case frag_pool_free_alt p i H of
                  None \<Rightarrow> None
                | Some (p, H) \<Rightarrow> keepalive_expire config curtime rs is p H (closed @ [ks_sock k]))
          else keepalive_expire config curtime rs is p H closed
      else Some (p, H, closed))"

fun release_idle :: "sock list \<Rightarrow> sock list" where
  "release_idle [] = []"
| "release_idle (r # rs) = (if r = -1 then release_idle rs else r # release_idle rs)"

fun limit_expire :: "int \<Rightarrow> nat list \<Rightarrow> limit_req_t frag_pool_t \<Rightarrow> heap \<Rightarrow> (limit_req_t frag_pool_t \<times> heap) option" where
  "limit_expire curtime [] p H = Some (p, H)"
| "limit_expire curtime (i # is) p H =
     (if i < f_real_len p then
        if \<not> e_free (f_e p ! i) \<and> lr_dtime (e_data (f_e p ! i)) \<noteq> 0 \<and> curtime > lr_dtime (e_data (f_e p ! i))
        then (case frag_pool_free_alt p i H of
                None \<Rightarrow> None
              | Some (p, H) \<Rightarrow> limit_expire curtime is p H)
        else limit_expire curtime is p H
      else Some (p, H))"

record server_state =
  sv_keepalive :: "keepalive_sock_t frag_pool_t"
  sv_kheap :: heap
  sv_limit :: "limit_req_t frag_pool_t"
  sv_lheap :: heap
  sv_requests :: "sock list"
  sv_closed :: "sock list"

text \<open>
  The whole of \<^verbatim>\<open>event_iter\<close>: \<open>restart\<close> is the life time of a worker (\<^verbatim>\<open>config.restart_timeout\<close>, 0 for no
  limit) and \<open>start\<close> the time it started; past it the worker exits with a status (\<open>Inl\<close>) that makes the master
  start another one, and does nothing else.
\<close>

definition WORKER_RESTART_STATUS_CODE :: nat where "WORKER_RESTART_STATUS_CODE = 0xFE"

definition worker_expired :: "int \<Rightarrow> int \<Rightarrow> int \<Rightarrow> bool" where
  "worker_expired restart start curtime \<longleftrightarrow> restart \<noteq> 0 \<and> curtime - start > restart"

definition event_iter :: "server_config \<Rightarrow> int \<Rightarrow> int \<Rightarrow> int \<Rightarrow> server_state \<Rightarrow> (nat + server_state) option" where
  "event_iter config restart start curtime s =
     (if worker_expired restart start curtime then Some (Inl WORKER_RESTART_STATUS_CODE)
      else do {
          (kp, kH, closed) \<leftarrow> keepalive_expire config curtime (sv_requests s)
            [0..<f_real_len (sv_keepalive s)] (sv_keepalive s) (sv_kheap s) (sv_closed s);
          let s = s\<lparr>sv_keepalive := kp, sv_kheap := kH, sv_closed := closed\<rparr>;
          let s = (if idle_request_structures config
                   then s\<lparr>sv_requests := take (prealloc_request_structures config) (sv_requests s) @
                          release_idle (drop (prealloc_request_structures config) (sv_requests s))\<rparr>
                   else s);
          if cfg_limit_req config then do {
            (lp, lH) \<leftarrow> limit_expire curtime [0..<f_real_len (sv_limit s)] (sv_limit s) (sv_lheap s);
            Some (Inr (s\<lparr>sv_limit := lp, sv_lheap := lH\<rparr>)) }
          else Some (Inr s) })"

section \<open>The clock and the limits\<close>

text \<open>
  One round of \<^verbatim>\<open>_time_routine\<close>: every fiftieth round reads the system time (microseconds in
  \<open>now\<close>), the others add the interval.
\<close>

definition time_tick :: "nat \<Rightarrow> nat \<times> nat \<Rightarrow> nat \<times> nat \<Rightarrow> nat \<times> nat" where
  "time_tick i now cur =
     (if i mod 50 = 0 then (fst now, fst now * 1000 + snd now div 1000)
      else let msec = snd cur + 100 in (msec div 1000, msec))"

definition pr_set_limits :: "nat \<Rightarrow> nat \<Rightarrow> nat" where
  "pr_set_limits maxfds prealloc = max ((maxfds + 2 ^ 32 - prealloc + 2 ^ 32 - 2) mod 2 ^ 32) 2"

section \<open>The contents of a table\<close>

text \<open>What the loops over a pool see: the data of the slots in use, in slot order.\<close>

definition used :: "'a frag_pool_elem_t list \<Rightarrow> 'a list" where
  "used xs = map e_data (filter (\<lambda>x. \<not> e_free x) xs)"

definition tbl :: "'a frag_pool_t \<Rightarrow> 'a list" where
  "tbl p = used (f_e p)"

lemma used_simps [simp]:
  "used [] = []" "used (x # xs) = (if e_free x then used xs else e_data x # used xs)" "used (xs @ ys) = used xs @ used ys"
  by (simp_all add: used_def)

lemma used_free: "\<forall>x \<in> set xs. e_free x \<Longrightarrow> used xs = []"
  by (induction xs) auto

lemma tbl_nodes: "tbl p = map snd (frag_nodes p)"
  by (simp add: tbl_def used_def frag_nodes_def comp_def)

lemma take_real_len: "frag_inv p H \<Longrightarrow> take (f_real_len p) (f_e p) = f_e p"
  by (simp add: frag_inv_def frag_pre_def)

lemma length_f_e: "frag_inv p H \<Longrightarrow> length (f_e p) = f_real_len p"
  by (simp add: frag_inv_def frag_pre_def)

text \<open>Overwriting the data of a slot.\<close>

lemma slot_store_inv:
  assumes "i < length (f_e p)"
  shows "frag_inv (p\<lparr>f_e := (f_e p)[i := (f_e p ! i)\<lparr>e_data := d\<rparr>]\<rparr>) H = frag_inv p H"
proof -
  let ?es = "(f_e p)[i := (f_e p ! i)\<lparr>e_data := d\<rparr>]"
  have ptr: "map e_ptr ?es = map e_ptr (f_e p)" by simp
  have fr: "map e_free ?es = map e_free (f_e p)" using assms by (intro nth_equalityI) (auto simp: nth_list_update)
  have "length (filter (\<lambda>b. \<not> b) (map e_free ?es)) = length (filter (\<lambda>b. \<not> b) (map e_free (f_e p)))" by (simp only: fr)
  then have "length (filter (\<lambda>x. \<not> e_free x) ?es) = length (filter (\<lambda>x. \<not> e_free x) (f_e p))"
    by (simp add: filter_map comp_def)
  moreover have "e_ptr ` set ?es = e_ptr ` set (f_e p)" using ptr by (metis set_map)
  moreover have "e_free (last ?es) = e_free (last (f_e p))"
  proof -
    have "f_e p \<noteq> []" using assms by auto
    then show ?thesis by (cases "i = length (f_e p) - 1") (simp_all add: last_conv_nth)
  qed
  ultimately show ?thesis by (simp add: frag_inv_def frag_pre_def)
qed

lemma used_store:
  "i < length xs \<Longrightarrow> \<not> e_free (xs ! i) \<Longrightarrow>
   \<exists>ys zs. used xs = ys @ e_data (xs ! i) # zs \<and> used (xs[i := (xs ! i)\<lparr>e_data := d\<rparr>]) = ys @ d # zs"
proof (induction xs arbitrary: i)
  case (Cons x xs)
  show ?case
  proof (cases i)
    case 0
    then show ?thesis using Cons.prems by - (rule exI [of _ "[]"], auto)
  next
    case (Suc j)
    then obtain ys zs where "used xs = ys @ e_data (xs ! j) # zs" "used (xs[j := (xs ! j)\<lparr>e_data := d\<rparr>]) = ys @ d # zs"
      using Cons.IH [of j] Cons.prems by auto
    then show ?thesis using Suc by - (rule exI [of _ "used [x] @ ys"], auto)
  qed
qed simp

lemma used_mem: "i < length xs \<Longrightarrow> \<not> e_free (xs ! i) \<Longrightarrow> e_data (xs ! i) \<in> set (used xs)"
  by (auto simp: used_def)

text \<open>Releasing a slot, position by position.\<close>

lemma used_take_free:
  "i < length xs \<Longrightarrow> used (take k (xs[i := (xs ! i)\<lparr>e_free := True\<rparr>])) = used (take (min i k) xs) @ used (drop (Suc i) (take k xs))"
proof (induction xs arbitrary: i k)
  case (Cons x xs)
  show ?case
  proof (cases i)
    case 0
    then show ?thesis by (cases k) auto
  next
    case (Suc j)
    then show ?thesis using Cons.IH [of j "k - 1"] Cons.prems by (cases k) auto
  qed
qed simp

lemma release_slots:
  assumes inv: "frag_inv p H" and i: "i < f_real_len p" and u: "\<not> e_free (f_e p ! i)"
  obtains q H' where "frag_pool_free_alt p i H = Some (q, H')" "frag_inv q H'" "f_real_len q \<le> f_real_len p"
    "used (take (Suc i) (f_e q)) = used (take i (f_e p))" "used (drop (Suc i) (f_e q)) = used (drop (Suc i) (f_e p))" "H' \<subseteq> H"
proof -
  let ?es = "(f_e p)[i := (f_e p ! i)\<lparr>e_free := True\<rparr>]"
  have len: "i < length (f_e p)" "length (f_e p) = f_real_len p" using inv i by (auto simp: length_f_e)
  obtain q H' where q: "frag_release p i H = Some (q, H')" "frag_inv q H'"
    "trims (p\<lparr>f_cur_len := dec32 (f_cur_len p), f_e := ?es\<rparr>) q" "H' \<subseteq> H"
    using frag_release_trims [OF assms] by blast
  then obtain ys where ys: "?es = f_e q @ ys" "\<forall>x \<in> set ys. e_free x" by (auto simp: trims_def)
  have "length (f_e q) \<le> length (f_e p)" using arg_cong [OF ys(1), of length] by simp
  then have r: "f_real_len q \<le> f_real_len p" using len q(2) length_f_e by metis
  have free: "used (take k ys) = []" "used (drop k ys) = []" for k
    using ys(2) by (auto intro!: used_free dest: in_set_takeD in_set_dropD)
  have t: "used (take k (f_e q)) = used (take k ?es)" "used (drop k (f_e q)) = used (drop k ?es)" for k
    unfolding ys(1) by (simp_all add: free)
  have "used (take (Suc i) ?es) = used (take i (f_e p))" using used_take_free [OF len(1), of "Suc i"] by simp
  moreover have "drop (Suc i) ?es = drop (Suc i) (f_e p)" by simp
  ultimately show thesis
    using that [of q H'] q r t len u by (simp add: frag_pool_free_alt_def)
qed

text \<open>
  A loop that releases every slot in use whose data satisfies \<open>P\<close>, remembering them, and its effect:
  the table is filtered.
\<close>

fun sweep :: "('a \<Rightarrow> bool) \<Rightarrow> nat list \<Rightarrow> 'a frag_pool_t \<Rightarrow> heap \<Rightarrow> 'a list \<Rightarrow> ('a frag_pool_t \<times> heap \<times> 'a list) option" where
  "sweep P [] p H gone = Some (p, H, gone)"
| "sweep P (i # is) p H gone =
     (if i < f_real_len p then
        if \<not> e_free (f_e p ! i) \<and> P (e_data (f_e p ! i))
        then (case frag_pool_free_alt p i H of
                None \<Rightarrow> None | Some (q, H) \<Rightarrow> sweep P is q H (gone @ [e_data (f_e p ! i)]))
        else sweep P is p H gone
      else Some (p, H, gone))"

lemma used_Suc:
  "i < length xs \<Longrightarrow> used (take (Suc i) xs) = used (take i xs) @ used [xs ! i] \<and> used (drop i xs) = used [xs ! i] @ used (drop (Suc i) xs)"
  by (simp add: take_Suc_conv_app_nth Cons_nth_drop_Suc [symmetric] del: used_simps(2)) (simp add: Cons_nth_drop_Suc [symmetric])

lemma sweep_from:
  "frag_inv p H \<Longrightarrow> f_real_len p \<le> n \<Longrightarrow>
   \<exists>q H'. sweep P [i..<n] p H gone = Some (q, H', gone @ filter P (used (drop i (f_e p)))) \<and> frag_inv q H' \<and>
     tbl q = used (take i (f_e p)) @ filter (\<lambda>d. \<not> P d) (used (drop i (f_e p)))"
proof (induction "n - i" arbitrary: i p H gone)
  case 0
  then have "[i..<n] = []" "length (f_e p) \<le> i" by (auto simp: length_f_e)
  then show ?case using 0 by (simp add: tbl_def)
next
  case (Suc m)
  then have ii: "[i..<n] = i # [Suc i..<n]" by (simp add: upt_conv_Cons)
  have len: "length (f_e p) = f_real_len p" using Suc.prems by (simp add: length_f_e)
  show ?case
  proof (cases "i < f_real_len p")
    case False
    then show ?thesis using ii len Suc.prems by (simp add: tbl_def)
  next
    case True
    have sp: "used (take (Suc i) (f_e p)) = used (take i (f_e p)) @ used [f_e p ! i]"
      "used (drop i (f_e p)) = used [f_e p ! i] @ used (drop (Suc i) (f_e p))" using used_Suc [of i "f_e p"] True len by auto
    show ?thesis
    proof (cases "\<not> e_free (f_e p ! i) \<and> P (e_data (f_e p ! i))")
      case rel: True
      then obtain q H' where q: "frag_pool_free_alt p i H = Some (q, H')" "frag_inv q H'" "f_real_len q \<le> f_real_len p"
        "used (take (Suc i) (f_e q)) = used (take i (f_e p))" "used (drop (Suc i) (f_e q)) = used (drop (Suc i) (f_e p))"
        using release_slots [OF Suc.prems(1) True] by blast
      let ?g = "gone @ [e_data (f_e p ! i)]"
      obtain r H'' where "sweep P [Suc i..<n] q H' ?g = Some (r, H'', ?g @ filter P (used (drop (Suc i) (f_e q))))" "frag_inv r H''"
        "tbl r = used (take (Suc i) (f_e q)) @ filter (\<lambda>d. \<not> P d) (used (drop (Suc i) (f_e q)))"
        using Suc.hyps(1) [of "Suc i" q H' ?g, OF _ q(2)] Suc.hyps(2) Suc.prems(2) q(3) by fastforce
      then show ?thesis using ii True rel q sp by simp
    next
      case keep: False
      obtain r H'' where "sweep P [Suc i..<n] p H gone = Some (r, H'', gone @ filter P (used (drop (Suc i) (f_e p))))" "frag_inv r H''"
        "tbl r = used (take (Suc i) (f_e p)) @ filter (\<lambda>d. \<not> P d) (used (drop (Suc i) (f_e p)))"
        using Suc.hyps(1) [of "Suc i" p H gone, OF _ Suc.prems] Suc.hyps(2) by fastforce
      moreover have "used [f_e p ! i] @ xs = filter (\<lambda>d. \<not> P d) (used [f_e p ! i]) @ xs" "filter P (used [f_e p ! i]) = []" for xs
        using keep by auto
      ultimately show ?thesis using ii True keep sp by (auto simp: if_distrib)
    qed
  qed
qed

lemma sweep_ok:
  assumes "frag_inv p H"
  shows "\<exists>q H'. sweep P [0..<f_real_len p] p H gone = Some (q, H', gone @ filter P (tbl p)) \<and> frag_inv q H' \<and>
     tbl q = filter (\<lambda>d. \<not> P d) (tbl p)"
  using sweep_from [OF assms, of "f_real_len p" P 0 gone] by (simp add: tbl_def)

lemma limit_expire_sweep:
  "limit_expire curtime is p H = map_option (\<lambda>(p, H, g). (p, H)) (sweep (\<lambda>c. lr_dtime c \<noteq> 0 \<and> curtime > lr_dtime c) is p H g)"
  by (induction "is" arbitrary: p H g) (auto split: option.split)

definition keepalive_over :: "server_config \<Rightarrow> int \<Rightarrow> sock list \<Rightarrow> keepalive_sock_t \<Rightarrow> bool" where
  "keepalive_over config curtime rs k \<longleftrightarrow>
     (curtime - ks_time k > keepalive_timeout_val config \<or> curtime - ks_time k < 0) \<and> ks_sock k \<notin> set rs"

lemma keepalive_expire_sweep:
  "keepalive_expire config curtime rs is p H (closed @ map ks_sock g) =
   map_option (\<lambda>(p, H, g). (p, H, closed @ map ks_sock g)) (sweep (keepalive_over config curtime rs) is p H g)"
proof (induction "is" arbitrary: p H g)
  case (Cons i js)
  show ?case
  proof (cases "i < f_real_len p \<and> \<not> e_free (f_e p ! i) \<and> keepalive_over config curtime rs (e_data (f_e p ! i))")
    case True
    then show ?thesis
      using Cons.IH [of _ _ "g @ [e_data (f_e p ! i)]"] by (simp add: Let_def keepalive_over_def split: option.split)
  next
    case False
    then show ?thesis using Cons.IH [of p H g] by (auto simp: Let_def keepalive_over_def)
  qed
qed simp

section \<open>Insertion\<close>

lemma insert_tbl:
  assumes "frag_inv p H" "fresh a H" "f_real_len p + 1 < 2 ^ 32" "frag_pool_alloc a u p H = (k, q, H')"
  shows "frag_inv (frag_pool_store k v q) H' \<and> mset (tbl (frag_pool_store k v q)) = add_mset v (mset (tbl p))"
proof -
  have "frag_inv (frag_pool_store k v q) H'"
    "mset (frag_nodes (frag_pool_store k v q)) = add_mset (k, v) (mset (frag_nodes p))"
    using fp.insert_node [OF assms, of v] by auto
  then show ?thesis by (simp add: tbl_nodes)
qed

text \<open>Two lists with the same elements count the same.\<close>

lemma length_filter_mset: "mset xs = mset ys \<Longrightarrow> length (filter P xs) = length (filter P ys)"
  by (metis mset_filter size_mset)

lemma distinct_map_mset: "mset xs = mset ys \<Longrightarrow> distinct (map f xs) = distinct (map f ys)"
  by (metis mset_map mset_eq_imp_distinct_iff)

section \<open>Sockets that are kept alive\<close>

definition keepalive_inv :: "keepalive_sock_t frag_pool_t \<Rightarrow> heap \<Rightarrow> bool" where
  "keepalive_inv p H \<longleftrightarrow> frag_inv p H \<and> distinct (map ks_sock (tbl p))"

definition with_peer :: "(sock \<Rightarrow> ip option) \<Rightarrow> keepalive_sock_t list \<Rightarrow> nat" where
  "with_peer peer ks = length (filter (\<lambda>k. peer (ks_sock k) \<noteq> None) ks)"

definition of_client :: "(sock \<Rightarrow> ip option) \<Rightarrow> ip \<Rightarrow> keepalive_sock_t list \<Rightarrow> nat" where
  "of_client peer addr ks = length (filter (\<lambda>k. peer (ks_sock k) = Some addr) ks)"

lemma keepalive_scan_Inl:
  "keepalive_scan peer s addr i t c xs = Inl j \<Longrightarrow>
     i \<le> j \<and> j - i < length xs \<and> \<not> e_free (xs ! (j - i)) \<and> ks_sock (e_data (xs ! (j - i))) = s"
proof (induction peer s addr i t c xs rule: keepalive_scan.induct)
  case (2 peer s addr i t c x xs)
  have step: "keepalive_scan peer s addr (Suc i) t' c' xs = Inl j \<Longrightarrow>
      (Suc i \<le> j \<and> j - Suc i < length xs \<and> \<not> e_free (xs ! (j - Suc i)) \<and> ks_sock (e_data (xs ! (j - Suc i))) = s) \<Longrightarrow>
      i \<le> j \<and> j - i < length (x # xs) \<and> \<not> e_free ((x # xs) ! (j - i)) \<and> ks_sock (e_data ((x # xs) ! (j - i))) = s" for t' c'
    by (auto simp: Suc_diff_Suc nth_Cons')
  show ?case
  proof (cases "e_free x \<or> ks_sock (e_data x) \<noteq> s")
    case True
    then show ?thesis using "2.prems" "2.IH" step
      by (cases "e_free x"; cases "peer (ks_sock (e_data x))") auto
  next
    case False
    then show ?thesis using "2.prems" by auto
  qed
qed simp

lemma keepalive_scan_Inr:
  "keepalive_scan peer s addr i t c xs = Inr (t', c') \<Longrightarrow>
     s \<notin> ks_sock ` set (used xs) \<and> t' = t + with_peer peer (used xs) \<and> c' = c + of_client peer addr (used xs)"
proof (induction peer s addr i t c xs rule: keepalive_scan.induct)
  case (1 peer s addr i t c)
  then show ?case by (simp add: with_peer_def of_client_def)
next
  case (2 peer s addr i t c x xs)
  then show ?case
    by (cases "e_free x"; cases "peer (ks_sock (e_data x))")
      (auto simp: with_peer_def of_client_def split: if_splits)
qed

text \<open>A socket that is in the table gets the new time; another one is admitted within the limits.\<close>

lemma keepalive_renewed:
  assumes inv: "keepalive_inv p H" and i: "i < length (f_e p)" "\<not> e_free (f_e p ! i)" "ks_sock (e_data (f_e p ! i)) = s"
    and q: "q = p\<lparr>f_e := (f_e p)[i := (f_e p ! i)\<lparr>e_data := (e_data (f_e p ! i))\<lparr>ks_time := t\<rparr>\<rparr>]\<rparr>"
  shows "keepalive_inv q H \<and> \<lparr>ks_sock = s, ks_time = t\<rparr> \<in> set (tbl q) \<and> map ks_sock (tbl q) = map ks_sock (tbl p) \<and> s \<in> set (map ks_sock (tbl p))"
proof -
  let ?k = "(e_data (f_e p ! i))\<lparr>ks_time := t\<rparr>"
  have fi: "frag_inv p H" and d: "distinct (map ks_sock (tbl p))" using inv by (auto simp: keepalive_inv_def)
  obtain ys zs where yz: "tbl p = ys @ e_data (f_e p ! i) # zs" "tbl q = ys @ ?k # zs"
    using used_store [OF i(1,2), of ?k] q by (auto simp: tbl_def)
  have "?k = \<lparr>ks_sock = s, ks_time = t\<rparr>" using i(3) by (cases "e_data (f_e p ! i)") simp
  moreover have "map ks_sock (tbl q) = map ks_sock (tbl p)" using yz by simp
  moreover have "frag_inv q H" using fi slot_store_inv [OF i(1)] q by simp
  moreover have "s \<in> set (map ks_sock (tbl p))" using yz(1) i(3) by simp
  ultimately show ?thesis using d yz(2) by (auto simp: keepalive_inv_def)
qed

lemma keepalive_admitted:
  assumes inv: "keepalive_inv p H" and f: "fresh a H" "f_real_len p + 1 < 2 ^ 32"
    and al: "frag_pool_alloc a u p H = (k, p1, H1)" and s: "s \<notin> ks_sock ` set (tbl p)" "peer s = Some addr"
  shows "keepalive_inv (frag_pool_store k \<lparr>ks_sock = s, ks_time = t\<rparr> p1) H1 \<and>
    set (tbl (frag_pool_store k \<lparr>ks_sock = s, ks_time = t\<rparr> p1)) = insert \<lparr>ks_sock = s, ks_time = t\<rparr> (set (tbl p)) \<and>
    with_peer peer (tbl (frag_pool_store k \<lparr>ks_sock = s, ks_time = t\<rparr> p1)) = Suc (with_peer peer (tbl p)) \<and>
    of_client peer addr (tbl (frag_pool_store k \<lparr>ks_sock = s, ks_time = t\<rparr> p1)) = Suc (of_client peer addr (tbl p))"
proof -
  let ?v = "\<lparr>ks_sock = s, ks_time = t\<rparr>" and ?q = "frag_pool_store k \<lparr>ks_sock = s, ks_time = t\<rparr> p1"
  have fi: "frag_inv p H" and d: "distinct (map ks_sock (tbl p))" using inv by (auto simp: keepalive_inv_def)
  have i: "frag_inv ?q H1" "mset (tbl ?q) = mset (?v # tbl p)" using insert_tbl [OF fi f al, of ?v] by auto
  have "distinct (map ks_sock (tbl ?q))" using distinct_map_mset [OF i(2), of ks_sock] d s(1) by simp
  moreover have "set (tbl ?q) = insert ?v (set (tbl p))" using i(2) by (metis list.set(2) mset_eq_setD)
  moreover have "with_peer peer (tbl ?q) = Suc (with_peer peer (tbl p))" "of_client peer addr (tbl ?q) = Suc (of_client peer addr (tbl p))"
    using length_filter_mset [OF i(2)] s(2) by (auto simp: with_peer_def of_client_def)
  ultimately show ?thesis using i(1) by (auto simp: keepalive_inv_def)
qed

text \<open>
  C39.  On an IPv4 address, the table of keep-alive sockets has no socket twice, and the two limits hold at every admission: a
  socket is admitted anew only if afterwards at most the configured number of live connections is kept
  for its client and in total; a socket that is already there is only given the new time; a refusal
  leaves the table as it was.  (On an IPv6 address \<^verbatim>\<open>keepalive_ipv6_overrun\<close> below holds instead.)
\<close>

theorem new_keepalive_socket_limits:
  assumes inv: "keepalive_inv p H" and f: "fresh a H" "f_real_len p + 1 < 2 ^ 32"
    and ip4: "\<not> ipv6_addr config"
  shows "\<exists>ok q H'. new_keepalive_socket config peer curtime a u s p H = Some (ok, q, H') \<and> keepalive_inv q H' \<and>
    (\<not> ok \<longrightarrow> q = p \<and> H' = H) \<and>
    (ok \<longrightarrow> \<lparr>ks_sock = s, ks_time = curtime\<rparr> \<in> set (tbl q) \<and> set (map ks_sock (tbl q)) = insert s (set (map ks_sock (tbl p)))) \<and>
    (ok \<and> s \<notin> set (map ks_sock (tbl p)) \<longrightarrow>
       with_peer peer (tbl q) \<le> keepalive_max_conn config \<and>
       (\<exists>addr. peer s = Some addr \<and> of_client peer addr (tbl q) \<le> keepalive_max_conn_per_client config))"
proof (cases "peer s")
  case None
  then show ?thesis using inv by (intro exI [of _ False] exI [of _ p] exI [of _ H]) (simp add: new_keepalive_socket_def)
next
  case (Some addr)
  have "frag_inv p H" using inv by (simp add: keepalive_inv_def)
  note tk = take_real_len [OF this]
  show ?thesis
  proof (cases "keepalive_scan peer s addr 0 0 0 (f_e p)")
    case (Inl i)
    let ?q = "p\<lparr>f_e := (f_e p)[i := (f_e p ! i)\<lparr>e_data := (e_data (f_e p ! i))\<lparr>ks_time := curtime\<rparr>\<rparr>]\<rparr>"
    have i: "i < length (f_e p)" "\<not> e_free (f_e p ! i)" "ks_sock (e_data (f_e p ! i)) = s"
      using keepalive_scan_Inl [OF Inl] by auto
    have "new_keepalive_socket config peer curtime a u s p H = Some (True, ?q, H)"
      using Some Inl tk ip4 by (simp add: new_keepalive_socket_def)
    moreover have "insert s (set (map ks_sock (tbl p))) = set (map ks_sock (tbl p))" using keepalive_renewed [OF inv i refl] by blast
    ultimately show ?thesis using keepalive_renewed [OF inv i refl, of curtime]
      by (intro exI [of _ True] exI [of _ ?q] exI [of _ H]) (auto simp del: set_map)
  next
    case (Inr tc)
    obtain t c where tc: "tc = (t, c)" by (cases tc)
    have sc: "s \<notin> ks_sock ` set (tbl p)" "t = with_peer peer (tbl p)" "c = of_client peer addr (tbl p)"
      using keepalive_scan_Inr [of peer s addr 0 0 0 "f_e p" t c] Inr tc by (auto simp: tbl_def)
    show ?thesis
    proof (cases "c \<ge> keepalive_max_conn_per_client config \<or> t \<ge> keepalive_max_conn config")
      case True
      then have "new_keepalive_socket config peer curtime a u s p H = Some (False, p, H)"
        using Some Inr tc tk ip4 by (auto simp: new_keepalive_socket_def)
      then show ?thesis using inv by (intro exI [of _ False] exI [of _ p] exI [of _ H]) simp
    next
      case False
      obtain k p1 H1 where al: "frag_pool_alloc a u p H = (k, p1, H1)" by (cases "frag_pool_alloc a u p H") auto
      have "new_keepalive_socket config peer curtime a u s p H = Some (True, frag_pool_store k \<lparr>ks_sock = s, ks_time = curtime\<rparr> p1, H1)"
        using Some Inr tc tk ip4 False al by (simp add: new_keepalive_socket_def)
      then show ?thesis using keepalive_admitted [of p H a u k p1 H1 s peer addr curtime, OF inv f al sc(1) Some] False Some sc
        by (intro exI [of _ True] exI conjI) auto
    qed
  qed
qed

theorem new_keepalive_socket_limits_witness:
  "\<exists>q. new_keepalive_socket \<lparr>keepalive_max_conn_per_client = 2, keepalive_max_conn = 10, keepalive_timeout_val = 25,
       limit_rate = 1, limit_delay = 1, limit_sim_threshold = 1, prealloc_request_structures = 1,
       idle_request_structures = False, cfg_limit_req = False, cfg_limit_sim_req = False, ipv6_addr = False\<rparr> (\<lambda>s. Some ''ip'') 100 7 \<lparr>ks_sock = 0, ks_time = 0\<rparr> 5
       \<lparr>f_cur_len = 0, f_reserved_len = 0, f_real_len = 0, f_node_size = 16, f_e = []\<rparr> {} = Some (True, q, {7}) \<and>
     keepalive_inv q {7} \<and> \<lparr>ks_sock = 5, ks_time = 100\<rparr> \<in> set (tbl q)"
proof -
  let ?c = "\<lparr>keepalive_max_conn_per_client = 2, keepalive_max_conn = 10, keepalive_timeout_val = 25,
       limit_rate = 1, limit_delay = 1, limit_sim_threshold = 1, prealloc_request_structures = 1,
       idle_request_structures = False, cfg_limit_req = False, cfg_limit_sim_req = False, ipv6_addr = False\<rparr>"
  let ?p = "\<lparr>f_cur_len = 0, f_reserved_len = 0, f_real_len = 0, f_node_size = 16, f_e = []\<rparr>"
  obtain q where q: "new_keepalive_socket ?c (\<lambda>s. Some ''ip'') 100 7 \<lparr>ks_sock = 0, ks_time = 0\<rparr> 5 ?p {} = Some (True, q, {7})"
    by (simp add: new_keepalive_socket_def frag_pool_alloc_def allocator_malloc_def Let_def)
  have "keepalive_inv ?p {}" by (simp add: keepalive_inv_def frag_inv_def frag_pre_def tbl_def)
  from new_keepalive_socket_limits [OF this, of 7 ?c "\<lambda>s. Some ''ip''" 100 "\<lparr>ks_sock = 0, ks_time = 0\<rparr>" 5] q
  show ?thesis by (auto simp: fresh_def)
qed

text \<open>
  On an IPv6 address every request that asks for keeping its connection writes past the static addresses.
\<close>

theorem keepalive_ipv6_overrun:
  "ipv6_addr config \<Longrightarrow> peer s = Some addr \<Longrightarrow> new_keepalive_socket config peer curtime a u s p H = None"
  by (simp add: new_keepalive_socket_def)

lemma remove_keepalive_socket_ok:
  assumes "keepalive_inv p H"
  shows "\<exists>q H'. remove_keepalive_socket s p H = Some (q, H') \<and> keepalive_inv q H' \<and>
     set (tbl q) = {k \<in> set (tbl p). ks_sock k \<noteq> s}"
proof -
  have fi: "frag_inv p H" and d: "distinct (map ks_sock (tbl p))" using assms by (auto simp: keepalive_inv_def)
  note tk = take_real_len [OF fi]
  show ?thesis
  proof (cases "find_from (\<lambda>x. \<not> e_free x \<and> ks_sock (e_data x) = s) 0 (f_e p)")
    case None
    then have "\<forall>k \<in> set (tbl p). ks_sock k \<noteq> s" by (auto simp: find_from_None tbl_def used_def)
    then show ?thesis using None tk assms by (auto simp: remove_keepalive_socket_def)
  next
    case (Some i)
    have i: "i < f_real_len p" "\<not> e_free (f_e p ! i)" "ks_sock (e_data (f_e p ! i)) = s"
      using find_from_0_SomeD [OF Some] length_f_e [OF fi] by auto
    obtain q H' where q: "frag_pool_free_alt p i H = Some (q, H')" "frag_inv q H'"
      "mset (frag_nodes p) = add_mset (e_ptr (f_e p ! i), e_data (f_e p ! i)) (mset (frag_nodes q))"
      using frag_pool_free_alt_ok [OF fi i(1,2)] by metis
    have m: "mset (tbl p) = mset (e_data (f_e p ! i) # tbl q)"
      using arg_cong [OF q(3), of "image_mset snd"] by (simp add: tbl_nodes)
    have "distinct (map ks_sock (e_data (f_e p ! i) # tbl q))" using d distinct_map_mset [OF m, of ks_sock] by simp
    moreover have "set (tbl p) = insert (e_data (f_e p ! i)) (set (tbl q))" using m by (metis list.set(2) mset_eq_setD)
    ultimately have "set (tbl q) = {k \<in> set (tbl p). ks_sock k \<noteq> s}" "distinct (map ks_sock (tbl q))"
      using i(3) by (auto simp: image_iff)
    then show ?thesis using Some tk q by (simp add: remove_keepalive_socket_def keepalive_inv_def)
  qed
qed

section \<open>The request rate\<close>

text \<open>The table as a map from clients to their records, and what a request and the clean-up do to it.\<close>

definition lim :: "limit_req_t frag_pool_t \<Rightarrow> ip \<Rightarrow> limit_req_t option" where
  "lim p = map_of (map (\<lambda>c. (lr_addr c, c)) (tbl p))"

definition limit_inv :: "limit_req_t frag_pool_t \<Rightarrow> heap \<Rightarrow> bool" where
  "limit_inv p H \<longleftrightarrow> frag_inv p H \<and> distinct (map lr_addr (tbl p))"

definition limit_spec :: "server_config \<Rightarrow> int \<Rightarrow> ip \<Rightarrow> (ip \<Rightarrow> limit_req_t option) \<Rightarrow> bool \<times> (ip \<Rightarrow> limit_req_t option)" where
  "limit_spec config t bin m = (case m bin of
      None \<Rightarrow> (False, m(bin \<mapsto> \<lparr>lr_addr = bin, lr_time = t, lr_dtime = 0, lr_req = 1\<rparr>))
    | Some c \<Rightarrow>
        if lr_req c > limit_rate config then (True, m)
        else if t - lr_time c > 1 then (False, m(bin := None))
        else if inc32 (lr_req c) > limit_rate config
        then (True, m(bin \<mapsto> c\<lparr>lr_req := inc32 (lr_req c), lr_dtime := t + limit_delay config\<rparr>))
        else (False, m(bin \<mapsto> c\<lparr>lr_req := inc32 (lr_req c)\<rparr>)))"

lemma map_of_permute:
  assumes "mset xs = mset ys" "distinct (map lr_addr xs)"
  shows "map_of (map (\<lambda>c. (lr_addr c, c)) xs) = map_of (map (\<lambda>c. (lr_addr c, c)) ys)"
proof -
  have d: "distinct (map lr_addr ys)" using assms distinct_map_mset by blast
  have st: "set xs = set ys" using assms(1) by (metis mset_eq_setD)
  have m: "map_of (map (\<lambda>c. (lr_addr c, c)) zs) (lr_addr k) = Some k"
    if "distinct (map lr_addr zs)" "k \<in> set zs" for zs k using that by (intro map_of_is_SomeI) (auto simp: comp_def)
  show ?thesis using st by (intro map_of_eqI) (auto simp: m [OF d] m [OF assms(2)])
qed

lemma lim_insert:
  assumes "mset (tbl q) = mset (c # tbl p)" "distinct (map lr_addr (c # tbl p))"
  shows "lim q = (lim p)(lr_addr c \<mapsto> c)" "distinct (map lr_addr (tbl q))"
  using map_of_permute [of "c # tbl p" "tbl q"] assms distinct_map_mset [OF assms(1), of lr_addr] by (auto simp: lim_def)

lemma lim_release:
  assumes "mset (tbl p) = mset (c # tbl q)" "distinct (map lr_addr (tbl p))"
  shows "lim q = (lim p)(lr_addr c := None)" "distinct (map lr_addr (tbl q))" "lim p (lr_addr c) = Some c"
proof -
  have d: "distinct (map lr_addr (c # tbl q))" using distinct_map_mset [OF assms(1), of lr_addr] assms(2) by simp
  have p: "lim p = (lim q)(lr_addr c \<mapsto> c)" using map_of_permute [OF assms] by (simp add: lim_def)
  moreover have "lim q (lr_addr c) = None" using d by (auto simp: lim_def map_of_eq_None_iff)
  ultimately show "lim q = (lim p)(lr_addr c := None)" "lim p (lr_addr c) = Some c" by auto
  show "distinct (map lr_addr (tbl q))" using d by simp
qed

lemma lim_update:
  assumes i: "i < length (f_e p)" "\<not> e_free (f_e p ! i)" and a: "lr_addr c = lr_addr (e_data (f_e p ! i))"
    and d: "distinct (map lr_addr (tbl p))"
  defines "q \<equiv> p\<lparr>f_e := (f_e p)[i := (f_e p ! i)\<lparr>e_data := c\<rparr>]\<rparr>"
  shows "lim q = (lim p)(lr_addr c \<mapsto> c)" "distinct (map lr_addr (tbl q))"
proof -
  obtain ys zs where yz: "tbl p = ys @ e_data (f_e p ! i) # zs" "tbl q = ys @ c # zs"
    using used_store [OF i, of c] by (auto simp: tbl_def q_def)
  have "map lr_addr (tbl q) = map lr_addr (tbl p)" using yz a by simp
  then show dq: "distinct (map lr_addr (tbl q))" using d by simp
  have "lim q = map_of (map (\<lambda>c. (lr_addr c, c)) (c # ys @ zs))"
    unfolding lim_def using dq yz by (intro map_of_permute) simp_all
  moreover have "lim p = map_of (map (\<lambda>c. (lr_addr c, c)) (e_data (f_e p ! i) # ys @ zs))"
    unfolding lim_def using d yz by (intro map_of_permute) simp_all
  ultimately show "lim q = (lim p)(lr_addr c \<mapsto> c)" using a by simp
qed

lemma limit_requests_refines:
  assumes inv: "limit_inv p H" and f: "fresh a H" "f_real_len p + 1 < 2 ^ 32"
  shows "\<exists>b q H'. limit_requests config t a u bin p H = Some (b, q, H') \<and> limit_inv q H' \<and>
     limit_spec config t bin (lim p) = (b, lim q)"
proof -
  have fi: "frag_inv p H" and d: "distinct (map lr_addr (tbl p))" using inv by (auto simp: limit_inv_def)
  note tk = take_real_len [OF fi]
  show ?thesis
  proof (cases "find_from (\<lambda>x. \<not> e_free x \<and> lr_addr (e_data x) = bin) 0 (f_e p)")
    case None
    then have no: "bin \<notin> lr_addr ` set (tbl p)" by (auto simp: find_from_None tbl_def used_def)
    then have m: "lim p bin = None" by (auto simp: lim_def map_of_eq_None_iff image_image)
    let ?c = "\<lparr>lr_addr = bin, lr_time = t, lr_dtime = 0, lr_req = 1\<rparr>"
    obtain k p1 H1 where al: "frag_pool_alloc a u p H = (k, p1, H1)" by (cases "frag_pool_alloc a u p H") auto
    have i: "frag_inv (frag_pool_store k ?c p1) H1" "mset (tbl (frag_pool_store k ?c p1)) = mset (?c # tbl p)"
      using insert_tbl [OF fi f al, of ?c] by auto
    then show ?thesis using None tk al m lim_insert [OF i(2)] d no
      by (auto simp: limit_requests_def limit_spec_def limit_inv_def)
  next
    case (Some i)
    have i: "i < length (f_e p)" "\<not> e_free (f_e p ! i)" "lr_addr (e_data (f_e p ! i)) = bin"
      using find_from_0_SomeD [OF Some] by auto
    have ir: "i < f_real_len p" using i(1) length_f_e [OF fi] by simp
    let ?c = "e_data (f_e p ! i)"
    obtain q H' where q: "frag_pool_free_alt p i H = Some (q, H')" "frag_inv q H'"
      "mset (frag_nodes p) = add_mset (e_ptr (f_e p ! i), ?c) (mset (frag_nodes q))"
      using frag_pool_free_alt_ok [OF fi ir i(2)] by metis
    have m: "mset (tbl p) = mset (?c # tbl q)" using arg_cong [OF q(3), of "image_mset snd"] by (simp add: tbl_nodes)
    note rel = lim_release [OF m d]
    have lp: "lim p bin = Some ?c" using rel(3) i(3) by simp
    have upd: "limit_inv (p\<lparr>f_e := (f_e p)[i := (f_e p ! i)\<lparr>e_data := c\<rparr>]\<rparr>) H"
      "lim (p\<lparr>f_e := (f_e p)[i := (f_e p ! i)\<lparr>e_data := c\<rparr>]\<rparr>) = (lim p)(bin \<mapsto> c)" if "lr_addr c = bin" for c
      using lim_update [OF i(1,2), of c] d that i(3) fi slot_store_inv [OF i(1)] by (auto simp: limit_inv_def)
    show ?thesis
      using Some tk lp i(3) q(1,2) rel(1,2) inv upd
      by (auto simp: limit_requests_def limit_spec_def limit_inv_def Let_def not_le [symmetric])
  qed
qed

lemma limit_expire_ok:
  assumes "limit_inv p H"
  shows "\<exists>q H'. limit_expire t [0..<f_real_len p] p H = Some (q, H') \<and> limit_inv q H' \<and>
     tbl q = filter (\<lambda>c. \<not> (lr_dtime c \<noteq> 0 \<and> t > lr_dtime c)) (tbl p)"
proof -
  obtain q H' where q: "sweep (\<lambda>c. lr_dtime c \<noteq> 0 \<and> t > lr_dtime c) [0..<f_real_len p] p H [] =
      Some (q, H', filter (\<lambda>c. lr_dtime c \<noteq> 0 \<and> t > lr_dtime c) (tbl p))" "frag_inv q H'"
    "tbl q = filter (\<lambda>c. \<not> (lr_dtime c \<noteq> 0 \<and> t > lr_dtime c)) (tbl p)"
    using sweep_ok [of p H _ "[]"] assms by (fastforce simp: limit_inv_def)
  then show ?thesis
    using assms by (simp add: limit_expire_sweep [of t _ p H "[]"] limit_inv_def distinct_map_filter)
qed

text \<open>
  C7.  The rate limiter on its slots behaves like a table with one record per client: a request in the
  second of the first one counts, the one that exceeds the rate is refused and starts the delay, further
  ones are refused without effect, and one after the second drops the record.  The operation never faults.
\<close>

theorem limit_requests_refinement:
  assumes "limit_inv p H" "fresh a H" "f_real_len p + 1 < 2 ^ 32"
  shows "\<exists>b q H'. limit_requests config t a u bin p H = Some (b, q, H') \<and> limit_inv q H' \<and>
     limit_spec config t bin (lim p) = (b, lim q)"
  by (rule limit_requests_refines [OF assms])

theorem limit_requests_refinement_witness:
  "\<exists>b q H'. limit_requests \<lparr>keepalive_max_conn_per_client = 2, keepalive_max_conn = 10, keepalive_timeout_val = 25,
       limit_rate = 1, limit_delay = 60, limit_sim_threshold = 1, prealloc_request_structures = 1,
       idle_request_structures = False, cfg_limit_req = False, cfg_limit_sim_req = False, ipv6_addr = False\<rparr> 100 7 \<lparr>lr_addr = [], lr_time = 0, lr_dtime = 0, lr_req = 0\<rparr> ''ip''
       \<lparr>f_cur_len = 0, f_reserved_len = 0, f_real_len = 0, f_node_size = 32, f_e = []\<rparr> {} = Some (b, q, H') \<and> \<not> b \<and>
     lim q ''ip'' = Some \<lparr>lr_addr = ''ip'', lr_time = 100, lr_dtime = 0, lr_req = 1\<rparr>"
proof -
  let ?p = "\<lparr>f_cur_len = 0, f_reserved_len = 0, f_real_len = 0, f_node_size = 32, f_e = []\<rparr>"
  have i: "limit_inv ?p {}" "fresh 7 {}" "f_real_len ?p + 1 < 2 ^ 32" "lim ?p = Map.empty"
    by (simp_all add: limit_inv_def frag_inv_def frag_pre_def tbl_def fresh_def lim_def)
  let ?c = "\<lparr>keepalive_max_conn_per_client = 2, keepalive_max_conn = 10, keepalive_timeout_val = 25,
       limit_rate = 1, limit_delay = 60, limit_sim_threshold = 1, prealloc_request_structures = 1,
       idle_request_structures = False, cfg_limit_req = False, cfg_limit_sim_req = False, ipv6_addr = False\<rparr>"
  obtain b q H' where q: "limit_requests ?c 100 7 \<lparr>lr_addr = [], lr_time = 0, lr_dtime = 0, lr_req = 0\<rparr> ''ip'' ?p {} = Some (b, q, H')"
    "limit_spec ?c 100 ''ip'' (lim ?p) = (b, lim q)"
    using limit_requests_refinement [OF i(1-3)] by blast
  then have "\<not> b" "lim q ''ip'' = Some \<lparr>lr_addr = ''ip'', lr_time = 100, lr_dtime = 0, lr_req = 1\<rparr>"
    unfolding i(4) by (auto simp: limit_spec_def dest: fun_cong [of _ _ "''ip''"])
  with q(1) show ?thesis by blast
qed

text \<open>What happens to the table up to the time \<open>D\<close>, from any clients.\<close>

inductive limit_run :: "server_config \<Rightarrow> int \<Rightarrow> limit_req_t frag_pool_t \<Rightarrow> heap \<Rightarrow> limit_req_t frag_pool_t \<Rightarrow> heap \<Rightarrow> bool"
  for config D p0 H0 where
  start: "limit_run config D p0 H0 p0 H0"
| request: "limit_run config D p0 H0 p H \<Longrightarrow> fresh a H \<Longrightarrow> f_real_len p + 1 < 2 ^ 32 \<Longrightarrow> t \<le> D \<Longrightarrow>
     limit_requests config t a u bin p H = Some (b, q, H') \<Longrightarrow> limit_run config D p0 H0 q H'"
| iter: "limit_run config D p0 H0 p H \<Longrightarrow> t \<le> D \<Longrightarrow>
     limit_expire t [0..<f_real_len p] p H = Some (q, H') \<Longrightarrow> limit_run config D p0 H0 q H'"

lemma limit_run_keeps:
  assumes "limit_run config D p0 H0 p H" "limit_inv p0 H0" "lim p0 bin = Some c" "lr_req c > limit_rate config" "lr_dtime c = D"
  shows "limit_inv p H \<and> lim p bin = Some c"
  using assms
proof (induction rule: limit_run.induct)
  case start
  then show ?case by simp
next
  case (request p H a t u b' b q H')
  then have IH: "limit_inv p H" "lim p bin = Some c" by auto
  then obtain b1 q1 H1 where "limit_requests config t a u b' p H = Some (b1, q1, H1)" "limit_inv q1 H1"
    "limit_spec config t b' (lim p) = (b1, lim q1)" using limit_requests_refines [OF IH(1) request.hyps(2,3)] by blast
  then have r: "limit_inv q H'" "limit_spec config t b' (lim p) = (b, lim q)" using request.hyps by auto
  have "lim q bin = Some c"
  proof (cases "b' = bin")
    case True
    then show ?thesis using r(2) IH(2) request.prems(3) by (simp add: limit_spec_def)
  next
    case False
    then have "snd (limit_spec config t b' (lim p)) bin = lim p bin" by (simp add: limit_spec_def split: option.split)
    then show ?thesis using r(2) IH(2) by simp
  qed
  then show ?case using r by simp
next
  case (iter p H t q H')
  then have IH: "limit_inv p H" "lim p bin = Some c" by auto
  have q: "limit_inv q H'" "tbl q = filter (\<lambda>c. \<not> (lr_dtime c \<noteq> 0 \<and> t > lr_dtime c)) (tbl p)"
    using limit_expire_ok [OF IH(1), of t] iter.hyps by auto
  have "c \<in> set (tbl p)" "lr_addr c = bin" using IH(2) by (auto simp: lim_def dest!: map_of_SomeD)
  then have "c \<in> set (tbl q)" using q(2) iter by auto
  moreover have "distinct (map lr_addr (tbl q))" using q by (simp add: limit_inv_def)
  ultimately have "lim q bin = Some c" using \<open>lr_addr c = bin\<close>
    by (simp add: lim_def map_of_eq_Some_iff comp_def) auto
  then show ?case using q by simp
qed

text \<open>
  C38.  A client that exceeds the rate is locked out for the configured delay: from the request that
  crosses the limit at \<open>t0\<close> on, every request of that client up to \<open>t0 + limit_delay\<close> is refused and
  changes nothing, whatever other clients do and however often the periodic clean-up runs in between.
\<close>

theorem rate_limit_lockout:
  assumes inv: "limit_inv p H" and f: "fresh a H" "f_real_len p + 1 < 2 ^ 32"
    and c0: "lim p bin = Some c0" "lr_req c0 \<le> limit_rate config"
    and cross: "limit_requests config t0 a u bin p H = Some (True, p1, H1)"
    and run: "limit_run config (t0 + limit_delay config) p1 H1 q H'"
    and f': "fresh a' H'" "f_real_len q + 1 < 2 ^ 32"
  shows "\<exists>q' H''. limit_requests config t a' u' bin q H' = Some (True, q', H'') \<and> lim q' = lim q"
proof -
  obtain b p' H2 where "limit_requests config t0 a u bin p H = Some (b, p', H2)" "limit_inv p' H2"
    "limit_spec config t0 bin (lim p) = (b, lim p')" using limit_requests_refines [OF inv f] by blast
  then have p1: "limit_inv p1 H1" "limit_spec config t0 bin (lim p) = (True, lim p1)" using cross by auto
  have m1: "lim p1 = (lim p)(bin \<mapsto> c0\<lparr>lr_req := inc32 (lr_req c0), lr_dtime := t0 + limit_delay config\<rparr>)"
    "inc32 (lr_req c0) > limit_rate config"
    using p1(2) c0 by (auto simp: limit_spec_def split: if_splits)
  let ?c = "c0\<lparr>lr_req := inc32 (lr_req c0), lr_dtime := t0 + limit_delay config\<rparr>"
  have q: "limit_inv q H'" "lim q bin = Some ?c"
    using limit_run_keeps [OF run p1(1), of bin ?c] m1 by auto
  then have "limit_spec config t bin (lim q) = (True, lim q)" using m1(2) by (simp add: limit_spec_def)
  then show ?thesis using limit_requests_refines [OF q(1) f', of config t u' bin] by auto
qed

theorem rate_limit_lockout_witness:
  "\<exists>p1 q'. limit_requests \<lparr>keepalive_max_conn_per_client = 2, keepalive_max_conn = 10, keepalive_timeout_val = 25,
       limit_rate = 1, limit_delay = 60, limit_sim_threshold = 1, prealloc_request_structures = 1,
       idle_request_structures = False, cfg_limit_req = False, cfg_limit_sim_req = False, ipv6_addr = False\<rparr> 101 8 \<lparr>lr_addr = [], lr_time = 0, lr_dtime = 0, lr_req = 0\<rparr> ''ip''
       \<lparr>f_cur_len = 1, f_reserved_len = 0, f_real_len = 1, f_node_size = 32,
        f_e = [\<lparr>e_ptr = 7, e_data = \<lparr>lr_addr = ''ip'', lr_time = 100, lr_dtime = 0, lr_req = 1\<rparr>, e_free = False\<rparr>]\<rparr> {7} =
       Some (True, p1, {7}) \<and>
     limit_requests \<lparr>keepalive_max_conn_per_client = 2, keepalive_max_conn = 10, keepalive_timeout_val = 25,
       limit_rate = 1, limit_delay = 60, limit_sim_threshold = 1, prealloc_request_structures = 1,
       idle_request_structures = False, cfg_limit_req = False, cfg_limit_sim_req = False, ipv6_addr = False\<rparr> 160 8 \<lparr>lr_addr = [], lr_time = 0, lr_dtime = 0, lr_req = 0\<rparr> ''ip''
       p1 {7} = q' \<and> (\<exists>q H'. q' = Some (True, q, H') \<and> lim q = lim p1)"
proof -
  define c where "c = \<lparr>keepalive_max_conn_per_client = 2, keepalive_max_conn = 10, keepalive_timeout_val = 25,
       limit_rate = 1, limit_delay = 60, limit_sim_threshold = 1, prealloc_request_structures = 1,
       idle_request_structures = False, cfg_limit_req = False, cfg_limit_sim_req = False, ipv6_addr = False\<rparr>"
  define u where "u = \<lparr>lr_addr = [], lr_time = 0, lr_dtime = 0, lr_req = 0\<rparr>"
  define r where "r = \<lparr>lr_addr = ''ip'', lr_time = 100, lr_dtime = 0, lr_req = 1\<rparr>"
  define p where "p = \<lparr>f_cur_len = 1, f_reserved_len = 0, f_real_len = 1, f_node_size = 32,
        f_e = [\<lparr>e_ptr = 7, e_data = r, e_free = False\<rparr>]\<rparr>"
  have i: "limit_inv p {7}" "fresh 8 {7}" "f_real_len p + 1 < 2 ^ 32" "lim p ''ip'' = Some r" "lr_req r \<le> limit_rate c"
    by (simp_all add: limit_inv_def frag_inv_def frag_pre_def tbl_def fresh_def lim_def p_def r_def c_def)
  obtain p1 where p1: "limit_requests c 101 8 u ''ip'' p {7} = Some (True, p1, {7})" "f_real_len p1 = 1"
    by (simp add: limit_requests_def p_def r_def c_def Let_def)
  have "\<exists>q' H''. limit_requests c 160 8 u ''ip'' p1 {7} = Some (True, q', H'') \<and> lim q' = lim p1"
    by (rule rate_limit_lockout [OF i p1(1) limit_run.start i(2)]) (simp add: p1(2))
  then show ?thesis using p1(1) unfolding c_def u_def p_def r_def by blast
qed

section \<open>Simultaneous requests\<close>

definition sim_keep :: "(sock \<Rightarrow> ip option) \<Rightarrow> sock \<Rightarrow> sock \<Rightarrow> bool" where
  "sim_keep peer s c \<longleftrightarrow> c \<noteq> s \<and> peer c \<noteq> None"

definition sim_count :: "(sock \<Rightarrow> ip option) \<Rightarrow> ip \<Rightarrow> sock list \<Rightarrow> nat" where
  "sim_count peer bin cs = length (filter (\<lambda>c. peer c = Some bin) cs)"

lemma sim_count_append [simp]: "sim_count peer bin (xs @ ys) = sim_count peer bin xs + sim_count peer bin ys"
  by (simp add: sim_count_def)

definition sim_result :: "server_config \<Rightarrow> (sock \<Rightarrow> ip option) \<Rightarrow> ip \<Rightarrow> sock list \<Rightarrow> nat \<Rightarrow> heap \<Rightarrow>
    (sock frag_pool_t \<times> heap + sock frag_pool_t \<times> heap) option \<Rightarrow> bool" where
  "sim_result config peer bin cs n H r = (case r of
      None \<Rightarrow> False
    | Some (Inl (q, H')) \<Rightarrow> frag_inv q H' \<and> limit_sim_threshold config \<le> sim_count peer bin (tbl q)
    | Some (Inr (q, H')) \<Rightarrow> frag_inv q H' \<and> f_real_len q \<le> n \<and> H' \<subseteq> H \<and> tbl q = cs \<and>
        (sim_count peer bin cs < limit_sim_threshold config \<or> sim_count peer bin cs = 0))"

lemma sim_result_mono:
  "sim_result config peer bin cs n H r \<Longrightarrow> n \<le> n' \<Longrightarrow> H \<subseteq> H' \<Longrightarrow> sim_result config peer bin cs n' H' r"
  by (auto simp: sim_result_def split: option.splits sum.splits prod.splits)

lemma limit_sim_loop_ok:
  "\<not> ipv6_addr config \<Longrightarrow> frag_inv p H \<Longrightarrow> f_real_len p \<le> n \<Longrightarrow> tot = sim_count peer bin (used (take i (f_e p))) \<Longrightarrow>
   tot < limit_sim_threshold config \<or> tot = 0 \<Longrightarrow>
   sim_result config peer bin (used (take i (f_e p)) @ filter (sim_keep peer s) (used (drop i (f_e p)))) (f_real_len p) H
     (limit_sim_loop config peer bin s [i..<n] tot p H)"
proof (induction "n - i" arbitrary: i tot p H)
  case 0
  then have "[i..<n] = []" "length (f_e p) \<le> i" by (auto simp: length_f_e)
  then show ?case using 0 by (simp add: tbl_def sim_result_def)
next
  case (Suc m)
  then have ii: "[i..<n] = i # [Suc i..<n]" "m = n - Suc i" by (simp_all add: upt_conv_Cons)
  have len: "length (f_e p) = f_real_len p" using Suc.prems by (simp add: length_f_e)
  show ?case
  proof (cases "i < f_real_len p")
    case False
    then show ?thesis using ii len Suc.prems by (simp add: tbl_def sim_result_def)
  next
    case True
    let ?x = "f_e p ! i"
    have sp: "used (take (Suc i) (f_e p)) = used (take i (f_e p)) @ used [?x]"
      "used (drop i (f_e p)) = used [?x] @ used (drop (Suc i) (f_e p))" using used_Suc [of i "f_e p"] True len by auto
    note IH = Suc.hyps(1) [OF ii(2)]
    consider "e_free ?x" | "\<not> e_free ?x" "\<not> sim_keep peer s (e_data ?x)"
      | "\<not> e_free ?x" "sim_keep peer s (e_data ?x)" by blast
    then show ?thesis
    proof cases
      case 1
      then show ?thesis using IH [OF Suc.prems(1-3), of tot] Suc.prems ii True sp by simp
    next
      case 2
      then obtain q H' where q: "frag_pool_free_alt p i H = Some (q, H')" "frag_inv q H'" "f_real_len q \<le> f_real_len p"
        "used (take (Suc i) (f_e q)) = used (take i (f_e p))" "used (drop (Suc i) (f_e q)) = used (drop (Suc i) (f_e p))" "H' \<subseteq> H"
        using release_slots [OF Suc.prems(2) True] by blast
      have "sim_result config peer bin (used (take (Suc i) (f_e q)) @ filter (sim_keep peer s) (used (drop (Suc i) (f_e q))))
          (f_real_len q) H' (limit_sim_loop config peer bin s [Suc i..<n] tot q H')"
        using IH [OF Suc.prems(1) q(2), of tot] q Suc.prems by simp
      then show ?thesis using 2 ii True q sp by (auto simp: Let_def sim_keep_def intro: sim_result_mono)
    next
      case 3
      show ?thesis
      proof (cases "peer (e_data ?x) = Some bin")
        case False
        then show ?thesis using 3 IH [OF Suc.prems(1-3), of tot] Suc.prems ii True sp
          by (auto simp: Let_def sim_keep_def sim_count_def)
      next
        case mt: True
        then have t1: "sim_count peer bin (used (take (Suc i) (f_e p))) = Suc tot"
          using Suc.prems(4) sp(1) 3 by (simp add: sim_count_def)
        show ?thesis
        proof (cases "Suc tot \<ge> limit_sim_threshold config")
          case True
          have "tbl p = used (take (Suc i) (f_e p)) @ used (drop (Suc i) (f_e p))"
            using used_simps(3) [of "take (Suc i) (f_e p)" "drop (Suc i) (f_e p)"] by (simp add: tbl_def del: used_simps)
          then have "limit_sim_threshold config \<le> sim_count peer bin (tbl p)" using True t1 by simp
          then show ?thesis using 3 mt True \<open>i < f_real_len p\<close> ii Suc.prems(1,2) by (simp add: Let_def sim_keep_def sim_result_def)
        next
          case False
          then show ?thesis using 3 mt IH [OF Suc.prems(1-3), of "Suc tot"] t1 ii Suc.prems(1) \<open>i < f_real_len p\<close> sp
            by (simp add: Let_def sim_keep_def)
        qed
      qed
    qed
  qed
qed

text \<open>
  The limit of simultaneous requests holds on an IPv4 address: a connection is refused only if its client already has
  the threshold of live connections in the table; otherwise exactly the stale entries and the old entry of the
  socket are dropped, the socket is entered, and its client has at most the threshold of live connections.
\<close>

theorem limit_sim_requests_ok:
  assumes inv: "frag_inv p H" and f: "fresh a H" "f_real_len p + 1 < 2 ^ 32"
    and s: "peer s = Some bin" and th: "0 < limit_sim_threshold config" and ip4: "\<not> ipv6_addr config"
  shows "\<exists>b q H'. limit_sim_requests config peer a u bin s p H = Some (b, q, H') \<and> frag_inv q H' \<and>
    (if b then limit_sim_threshold config \<le> sim_count peer bin (tbl q)
     else mset (tbl q) = add_mset s (mset (filter (sim_keep peer s) (tbl p))) \<and>
          sim_count peer bin (tbl q) \<le> limit_sim_threshold config)"
proof -
  let ?r = "limit_sim_loop config peer bin s [0..<f_real_len p] 0 p H" and ?cs = "filter (sim_keep peer s) (tbl p)"
  have res: "sim_result config peer bin ?cs (f_real_len p) H ?r"
    using limit_sim_loop_ok [OF ip4 inv, of "f_real_len p" 0 peer bin 0 s] by (simp add: sim_count_def tbl_def)
  show ?thesis
  proof (cases ?r)
    case None
    then show ?thesis using res by (simp add: sim_result_def)
  next
    case (Some x)
    show ?thesis
    proof (cases x)
      case (Inl y)
      then show ?thesis using res Some by (cases y) (auto simp: sim_result_def limit_sim_requests_def)
    next
      case (Inr y)
      obtain q H1 where y: "y = (q, H1)" by (cases y)
      have q: "frag_inv q H1" "f_real_len q \<le> f_real_len p" "H1 \<subseteq> H" "tbl q = ?cs"
        "sim_count peer bin ?cs < limit_sim_threshold config"
        using res Some Inr y th by (auto simp: sim_result_def)
      obtain k q1 H2 where al: "frag_pool_alloc a u q H1 = (k, q1, H2)" by (cases "frag_pool_alloc a u q H1") auto
      have "fresh a H1" using f(1) q(3) by (auto simp: fresh_def)
      then have ins: "frag_inv (frag_pool_store k s q1) H2" "mset (tbl (frag_pool_store k s q1)) = mset (s # tbl q)"
        using insert_tbl [OF q(1) _ _ al, of s] f(2) q(2) by auto
      have "sim_count peer bin (tbl (frag_pool_store k s q1)) = Suc (sim_count peer bin ?cs)"
        using length_filter_mset [OF ins(2)] s q(4) by (simp add: sim_count_def)
      then show ?thesis using Some Inr y al ins q by (auto simp: limit_sim_requests_def)
    qed
  qed
qed

theorem limit_sim_requests_ok_witness:
  "\<exists>b q H'. limit_sim_requests \<lparr>keepalive_max_conn_per_client = 2, keepalive_max_conn = 10, keepalive_timeout_val = 25,
       limit_rate = 1, limit_delay = 60, limit_sim_threshold = 3, prealloc_request_structures = 1,
       idle_request_structures = False, cfg_limit_req = False, cfg_limit_sim_req = False, ipv6_addr = False\<rparr> (\<lambda>s. Some ''ip'') 7 0 ''ip'' 5
       \<lparr>f_cur_len = 0, f_reserved_len = 0, f_real_len = 0, f_node_size = 4, f_e = []\<rparr> {} = Some (b, q, H') \<and> frag_inv q H'"
  using limit_sim_requests_ok [of "\<lparr>f_cur_len = 0, f_reserved_len = 0, f_real_len = 0, f_node_size = 4, f_e = []\<rparr>" "{}" 7
      "\<lambda>s. Some ''ip''" 5 "''ip''" "\<lparr>keepalive_max_conn_per_client = 2, keepalive_max_conn = 10, keepalive_timeout_val = 25,
       limit_rate = 1, limit_delay = 60, limit_sim_threshold = 3, prealloc_request_structures = 1,
       idle_request_structures = False, cfg_limit_req = False, cfg_limit_sim_req = False, ipv6_addr = False\<rparr>" 0]
  by (auto simp: frag_inv_def frag_pre_def fresh_def)

section \<open>Request structures\<close>

text \<open>No two structures serve the same socket.\<close>

definition requests_inv :: "sock list \<Rightarrow> bool" where
  "requests_inv rs \<longleftrightarrow> distinct (filter (\<lambda>s. s \<noteq> -1) rs)"

lemma requests_inv_claim:
  assumes "requests_inv rs" "s \<notin> set rs" "i < length rs" "rs ! i = -1"
  shows "requests_inv (rs[i := s])"
proof -
  have rs: "rs = take i rs @ -1 # drop (Suc i) rs" using assms(3,4) by (metis id_take_nth_drop)
  have u: "rs[i := s] = take i rs @ s # drop (Suc i) rs" using assms(3) by (simp add: upd_conv_take_nth_drop)
  have d: "distinct (filter (\<lambda>s. s \<noteq> -1) (take i rs) @ filter (\<lambda>s. s \<noteq> -1) (drop (Suc i) rs))"
    using assms(1) by (subst (asm) rs) (simp add: requests_inv_def)
  have "s \<notin> set (take i rs)" "s \<notin> set (drop (Suc i) rs)" using assms(2) by (auto dest: in_set_takeD in_set_dropD)
  then show ?thesis using d unfolding u by (auto simp: requests_inv_def)
qed

text \<open>
  Every socket with an event gets a request structure of its own: \<^verbatim>\<open>event_fetch_request\<close> returns
  the structure that already serves the socket, else claims a free one, else appends a new one; no two
  structures ever serve the same socket, and all other structures are left alone.
\<close>

theorem event_fetch_request_unique:
  assumes "requests_inv rs" "s \<noteq> -1"
  shows "let (i, rs') = event_fetch_request s rs in
     i < length rs' \<and> rs' ! i = s \<and> requests_inv rs' \<and> (\<forall>j < length rs. j \<noteq> i \<longrightarrow> rs' ! j = rs ! j) \<and>
     (s \<in> set rs \<longrightarrow> rs' = rs) \<and> (\<forall>j < length rs. rs ! j \<noteq> -1 \<longrightarrow> rs' ! j = rs ! j)"
proof (cases "find_from (\<lambda>x. x = s) 0 rs")
  case (Some i)
  then show ?thesis using find_from_0_SomeD [OF Some] assms(1) by (simp add: event_fetch_request_def)
next
  case no: None
  then have s: "s \<notin> set rs" by (auto simp: find_from_None)
  show ?thesis
  proof (cases "find_from (\<lambda>x. x = -1) 0 rs")
    case (Some i)
    have i: "i < length rs" "rs ! i = -1" using find_from_0_SomeD [OF Some] by auto
    then show ?thesis using no Some s requests_inv_claim [OF assms(1) s i]
      by (auto simp: event_fetch_request_def nth_list_update)
  next
    case None
    then show ?thesis using no s assms by (auto simp: event_fetch_request_def requests_inv_def nth_append)
  qed
qed

theorem event_fetch_request_unique_witness:
  "event_fetch_request 9 [4, -1, 7] = (1, [4, 9, 7]) \<and> requests_inv [4, 9, 7]"
proof -
  have e: "event_fetch_request 9 [4, -1, 7] = (1, [4, 9, 7])" by (simp add: event_fetch_request_def)
  show ?thesis using event_fetch_request_unique [of "[4, -1, 7]" 9] e by (simp add: requests_inv_def)
qed

text \<open>
  \<^verbatim>\<open>event_find_request\<close> is not a pure lookup: for a socket that no structure serves it claims a
  free structure, so that a hang-up event on an idle connection occupies a structure.
\<close>

theorem event_find_request_claims:
  assumes "s \<notin> set rs" "-1 \<in> set rs"
  shows "\<exists>i. event_find_request s rs = (Some i, rs[i := s]) \<and> i < length rs \<and> rs ! i = -1"
proof -
  have "find_from (\<lambda>x. x = s) 0 rs = None" using assms(1) by (auto simp: find_from_None)
  moreover obtain i where i: "find_from (\<lambda>x. x = -1) 0 rs = Some i"
    using assms(2) by (cases "find_from (\<lambda>x. x = -1) 0 rs") (auto simp: find_from_None)
  ultimately show ?thesis using find_from_0_SomeD [OF i] by (auto simp: event_find_request_def)
qed

theorem event_find_request_claims_witness:
  "\<exists>i. event_find_request 9 [4, -1] = (Some i, [4, -1][i := 9]) \<and> i < 2"
  using event_find_request_claims [of 9 "[4, -1]"] by (simp add: event_find_request_def)

lemma event_startup_eq: "event_startup n rs = rs @ replicate n (-1)"
proof (induction n arbitrary: rs)
  case (Suc n)
  then show ?case by simp
qed simp

section \<open>The periodic work\<close>

lemma release_idle_filter: "release_idle rs = filter (\<lambda>s. s \<noteq> -1) rs"
  by (induction rs) auto

definition server_inv :: "server_config \<Rightarrow> server_state \<Rightarrow> bool" where
  "server_inv config s \<longleftrightarrow> keepalive_inv (sv_keepalive s) (sv_kheap s) \<and> limit_inv (sv_limit s) (sv_lheap s) \<and>
     requests_inv (sv_requests s) \<and> prealloc_request_structures config \<le> length (sv_requests s)"

text \<open>
  C12.  The periodic work keeps all invariants and does exactly what it is for: the sockets closed are
  those whose keep-alive time is over and that no request is using (and only they leave the table), idle
  structures beyond the preallocated ones are released while every structure in use stays, and the records
  of the rate limiter whose delay has passed are dropped.
\<close>

theorem event_iter_ok:
  assumes "server_inv config s" "\<not> worker_expired restart start t"
  shows "\<exists>s'. event_iter config restart start t s = Some (Inr s') \<and> server_inv config s' \<and>
    sv_closed s' = sv_closed s @ map ks_sock (filter (keepalive_over config t (sv_requests s)) (tbl (sv_keepalive s))) \<and>
    tbl (sv_keepalive s') = filter (\<lambda>k. \<not> keepalive_over config t (sv_requests s) k) (tbl (sv_keepalive s)) \<and>
    filter (\<lambda>r. r \<noteq> -1) (sv_requests s') = filter (\<lambda>r. r \<noteq> -1) (sv_requests s) \<and>
    tbl (sv_limit s') = (if cfg_limit_req config
       then filter (\<lambda>c. \<not> (lr_dtime c \<noteq> 0 \<and> t > lr_dtime c)) (tbl (sv_limit s)) else tbl (sv_limit s))"
proof -
  let ?rs = "sv_requests s" and ?n = "prealloc_request_structures config"
  have inv: "frag_inv (sv_keepalive s) (sv_kheap s)" "distinct (map ks_sock (tbl (sv_keepalive s)))"
    "limit_inv (sv_limit s) (sv_lheap s)" "requests_inv ?rs" "?n \<le> length ?rs"
    using assms(1) by (auto simp: server_inv_def keepalive_inv_def)
  let ?P = "keepalive_over config t ?rs"
  obtain kp kH where k: "sweep ?P [0..<f_real_len (sv_keepalive s)] (sv_keepalive s) (sv_kheap s) [] =
      Some (kp, kH, filter ?P (tbl (sv_keepalive s)))" "frag_inv kp kH" "tbl kp = filter (\<lambda>k. \<not> ?P k) (tbl (sv_keepalive s))"
    using sweep_ok [OF inv(1), of ?P "[]"] by auto
  have ke: "keepalive_expire config t ?rs [0..<f_real_len (sv_keepalive s)] (sv_keepalive s) (sv_kheap s) (sv_closed s) =
      Some (kp, kH, sv_closed s @ map ks_sock (filter ?P (tbl (sv_keepalive s))))"
    using keepalive_expire_sweep [of config t ?rs _ _ _ "sv_closed s" "[]"] k(1) by simp
  obtain lp lH where l: "limit_expire t [0..<f_real_len (sv_limit s)] (sv_limit s) (sv_lheap s) = Some (lp, lH)"
    "limit_inv lp lH" "tbl lp = filter (\<lambda>c. \<not> (lr_dtime c \<noteq> 0 \<and> t > lr_dtime c)) (tbl (sv_limit s))"
    using limit_expire_ok [OF inv(3), of t] by auto
  let ?rs' = "take ?n ?rs @ release_idle (drop ?n ?rs)"
  have f: "filter (\<lambda>r. r \<noteq> -1) ?rs' = filter (\<lambda>r. r \<noteq> -1) ?rs"
  proof -
    have "filter (\<lambda>r. r \<noteq> -1) ?rs = filter (\<lambda>r. r \<noteq> -1) (take ?n ?rs @ drop ?n ?rs)" by simp
    then show ?thesis by (simp add: release_idle_filter del: append_take_drop_id)
  qed
  then have r: "requests_inv ?rs'" "?n \<le> length ?rs'" using inv(4,5) by (simp_all add: requests_inv_def)
  have ki: "keepalive_inv kp kH" using k(2,3) inv(2) by (simp add: keepalive_inv_def distinct_map_filter)
  show ?thesis
    using ke l f r ki k(3) inv assms(2)
    by (cases "idle_request_structures config"; cases "cfg_limit_req config")
      (simp_all add: event_iter_def server_inv_def)
qed

theorem event_iter_ok_witness:
  "\<exists>s'. event_iter \<lparr>keepalive_max_conn_per_client = 2, keepalive_max_conn = 10, keepalive_timeout_val = 25,
       limit_rate = 1, limit_delay = 60, limit_sim_threshold = 3, prealloc_request_structures = 1,
       idle_request_structures = True, cfg_limit_req = True, cfg_limit_sim_req = False, ipv6_addr = False\<rparr> 3600 0 200
       \<lparr>sv_keepalive = \<lparr>f_cur_len = 1, f_reserved_len = 0, f_real_len = 1, f_node_size = 16,
          f_e = [\<lparr>e_ptr = 7, e_data = \<lparr>ks_sock = 4, ks_time = 100\<rparr>, e_free = False\<rparr>]\<rparr>,
        sv_kheap = {7}, sv_limit = \<lparr>f_cur_len = 0, f_reserved_len = 0, f_real_len = 0, f_node_size = 32, f_e = []\<rparr>, sv_lheap = {},
        sv_requests = [5, -1, 6], sv_closed = []\<rparr> = Some (Inr s') \<and> sv_closed s' = [4] \<and> tbl (sv_keepalive s') = []"
proof -
  define c where "c = \<lparr>keepalive_max_conn_per_client = 2, keepalive_max_conn = 10, keepalive_timeout_val = 25,
       limit_rate = 1, limit_delay = 60, limit_sim_threshold = 3, prealloc_request_structures = 1,
       idle_request_structures = True, cfg_limit_req = True, cfg_limit_sim_req = False, ipv6_addr = False\<rparr>"
  define s where "s = \<lparr>sv_keepalive = \<lparr>f_cur_len = 1, f_reserved_len = 0, f_real_len = 1, f_node_size = 16,
          f_e = [\<lparr>e_ptr = 7, e_data = \<lparr>ks_sock = 4, ks_time = 100\<rparr>, e_free = False\<rparr>]\<rparr>,
        sv_kheap = {7}, sv_limit = \<lparr>f_cur_len = 0, f_reserved_len = 0, f_real_len = 0, f_node_size = 32, f_e = []\<rparr>, sv_lheap = {},
        sv_requests = [5, -1, 6], sv_closed = []\<rparr>"
  have t: "tbl (sv_keepalive s) = [\<lparr>ks_sock = 4, ks_time = 100\<rparr>]" "sv_requests s = [5, -1, 6]" "sv_closed s = []"
    by (simp_all add: s_def tbl_def used_def)
  have "server_inv c s"
    by (simp add: server_inv_def keepalive_inv_def limit_inv_def requests_inv_def frag_inv_def frag_pre_def tbl_def used_def c_def s_def)
  from event_iter_ok [OF this, of 3600 0 200] obtain s' where s': "event_iter c 3600 0 200 s = Some (Inr s')"
    "sv_closed s' = sv_closed s @ map ks_sock (filter (keepalive_over c 200 (sv_requests s)) (tbl (sv_keepalive s)))"
    "tbl (sv_keepalive s') = filter (\<lambda>k. \<not> keepalive_over c 200 (sv_requests s) k) (tbl (sv_keepalive s))" by (auto simp: worker_expired_def)
  have "keepalive_over c 200 [5, -1, 6] \<lparr>ks_sock = 4, ks_time = 100\<rparr>" by (simp add: keepalive_over_def c_def)
  then have "event_iter c 3600 0 200 s = Some (Inr s') \<and> sv_closed s' = [4] \<and> tbl (sv_keepalive s') = []" using s' unfolding t by simp
  then show ?thesis unfolding c_def s_def by blast
qed

section \<open>Accepting connections\<close>

text \<open>
  The accept loop of \<^verbatim>\<open>event_routine\<close>: the connections waiting on the listening socket, each with its
  address and what \<^verbatim>\<open>malloc\<close> returns for it.  A connection over a limit is closed and ends the loop.
  The result: the tables, the sockets added to the event set, those closed, and what is left waiting.
\<close>

record accept_state =
  ac_limit :: "limit_req_t frag_pool_t"
  ac_lheap :: heap
  ac_sim :: "sock frag_pool_t"
  ac_sheap :: heap
  ac_added :: "sock list"
  ac_refused :: "sock list"

fun accept_loop :: "server_config \<Rightarrow> (sock \<Rightarrow> ip option) \<Rightarrow> int \<Rightarrow> limit_req_t \<Rightarrow>
    (sock \<times> ip \<times> addr \<times> addr) list \<Rightarrow> accept_state \<Rightarrow> (accept_state \<times> (sock \<times> ip \<times> addr \<times> addr) list) option" where
  "accept_loop config peer t u [] st = Some (st, [])"
| "accept_loop config peer t u ((s, ip, a1, a2) # waiting) st =
     do { (over, st) \<leftarrow> (if cfg_limit_req config
            then map_option (\<lambda>(b, p, H). (b, st\<lparr>ac_limit := p, ac_lheap := H\<rparr>))
                   (limit_requests config t a1 u ip (ac_limit st) (ac_lheap st))
            else Some (False, st));
          if over then Some (st\<lparr>ac_refused := ac_refused st @ [s]\<rparr>, waiting)
          else do {
            (sim, st) \<leftarrow> (if cfg_limit_sim_req config
              then map_option (\<lambda>(b, p, H). (b, st\<lparr>ac_sim := p, ac_sheap := H\<rparr>))
                     (limit_sim_requests config peer a2 0 ip s (ac_sim st) (ac_sheap st))
              else Some (False, st));
            if sim then Some (st\<lparr>ac_refused := ac_refused st @ [s]\<rparr>, waiting)
            else accept_loop config peer t u waiting (st\<lparr>ac_added := ac_added st @ [s]\<rparr>) } }"

text \<open>
  One refused connection holds up the others: the loop stops at it although the listening socket
  is edge-triggered and is not reported again for connections that are already waiting.
\<close>

theorem accept_loop_stops:
  assumes "cfg_limit_req config" "limit_requests config t a1 u ip (ac_limit st) (ac_lheap st) = Some (True, p, H)"
  shows "\<exists>st'. accept_loop config peer t u ((s, ip, a1, a2) # waiting) st = Some (st', waiting) \<and> ac_added st' = ac_added st"
  using assms by simp

theorem accept_loop_stops_witness:
  "\<exists>st'. accept_loop \<lparr>keepalive_max_conn_per_client = 2, keepalive_max_conn = 10, keepalive_timeout_val = 25,
       limit_rate = 0, limit_delay = 60, limit_sim_threshold = 3, prealloc_request_structures = 1,
       idle_request_structures = False, cfg_limit_req = True, cfg_limit_sim_req = False, ipv6_addr = False\<rparr> (\<lambda>s. None) 100 \<lparr>lr_addr = [], lr_time = 0, lr_dtime = 0, lr_req = 0\<rparr>
       [(5, ''ip'', 8, 9), (6, ''other'', 10, 11)]
       \<lparr>ac_limit = \<lparr>f_cur_len = 1, f_reserved_len = 0, f_real_len = 1, f_node_size = 32,
          f_e = [\<lparr>e_ptr = 7, e_data = \<lparr>lr_addr = ''ip'', lr_time = 100, lr_dtime = 0, lr_req = 1\<rparr>, e_free = False\<rparr>]\<rparr>,
        ac_lheap = {7}, ac_sim = \<lparr>f_cur_len = 0, f_reserved_len = 0, f_real_len = 0, f_node_size = 4, f_e = []\<rparr>, ac_sheap = {},
        ac_added = [], ac_refused = []\<rparr> = Some (st', [(6, ''other'', 10, 11)])"
proof -
  let ?c = "\<lparr>keepalive_max_conn_per_client = 2, keepalive_max_conn = 10, keepalive_timeout_val = 25,
       limit_rate = 0, limit_delay = 60, limit_sim_threshold = 3, prealloc_request_structures = 1,
       idle_request_structures = False, cfg_limit_req = True, cfg_limit_sim_req = False, ipv6_addr = False\<rparr>"
  let ?p = "\<lparr>f_cur_len = 1, f_reserved_len = 0, f_real_len = 1, f_node_size = 32,
          f_e = [\<lparr>e_ptr = 7, e_data = \<lparr>lr_addr = ''ip'', lr_time = 100, lr_dtime = 0, lr_req = 1\<rparr>, e_free = False\<rparr>]\<rparr>"
  have "limit_requests ?c 100 8 \<lparr>lr_addr = [], lr_time = 0, lr_dtime = 0, lr_req = 0\<rparr> ''ip'' ?p {7} = Some (True, ?p, {7})"
    by (simp add: limit_requests_def)
  then show ?thesis
    using accept_loop_stops [of ?c 100 8 "\<lparr>lr_addr = [], lr_time = 0, lr_dtime = 0, lr_req = 0\<rparr>" "''ip''"
        "\<lparr>ac_limit = ?p, ac_lheap = {7}, ac_sim = \<lparr>f_cur_len = 0, f_reserved_len = 0, f_real_len = 0, f_node_size = 4, f_e = []\<rparr>,
          ac_sheap = {}, ac_added = [], ac_refused = []\<rparr>" ?p "{7}" "\<lambda>s. None" 5 9 "[(6, ''other'', 10, 11)]"] by auto
qed

section \<open>The clock\<close>

text \<open>The seconds are the milliseconds rounded down, in every round.\<close>

lemma time_tick_consistent:
  "snd now < 1000000 \<Longrightarrow> fst (time_tick i now cur) = snd (time_tick i now cur) div 1000"
  by (simp add: time_tick_def Let_def less_mult_imp_div_less)

lemma pr_set_limits_range: "2 \<le> pr_set_limits maxfds prealloc"
  by (simp add: pr_set_limits_def)

end
