(* ===== verification/Static_Content.thy ===== *)
theory Static_Content
  imports Memcache
begin

text \<open>
  \<^verbatim>\<open>static_content_preprocessor.c\<close>: a list of files of the template directory is loaded, stripped of
  white space on demand, joined and put into the cache under one name.  The results of the file system
  are an argument: for each path whether \<^verbatim>\<open>open\<close> succeeds, the size, what \<^verbatim>\<open>read\<close> delivers and the previous
  contents of the block that receives it.
\<close>

section \<open>Stripping white space\<close>

text \<open>The in-place loop with its two indices.\<close>

function strip_loop :: "nat \<Rightarrow> nat \<Rightarrow> nat \<Rightarrow> mem \<Rightarrow> nat \<times> mem" where
  "strip_loop n i k m =
     (if i < n then
        (if IS_SPACE (m ! i) then strip_loop n (Suc i) k m
         else strip_loop n (Suc i) (Suc k) (if i \<noteq> k then m[k := m ! i] else m))
      else (k, m))"
  by pat_completeness auto
termination by (relation "measure (\<lambda>(n, i, k, m). n - i)") auto

declare strip_loop.simps [simp del]

definition strip_spaces :: "str_t \<Rightarrow> str_t" where
  "strip_spaces c = (let (k, m) = strip_loop (s_len c) 0 0 (s_str c) in \<lparr>s_str = m, s_len = k\<rparr>)"

lemma strip_loop_filter:
  assumes "k \<le> i" "i \<le> n" "n \<le> length m"
  shows "\<exists>m'. strip_loop n i k m = (k + length (filter (\<lambda>c. \<not> IS_SPACE c) (drop i (take n m))), m') \<and> length m' = length m \<and>
     take (k + length (filter (\<lambda>c. \<not> IS_SPACE c) (drop i (take n m)))) m' = take k m @ filter (\<lambda>c. \<not> IS_SPACE c) (drop i (take n m))"
  using assms
proof (induction n i k m rule: strip_loop.induct)
  case (1 n i k m)
  show ?case
  proof (cases "i < n")
    case False
    then show ?thesis using "1.prems" by (subst strip_loop.simps) simp
  next
    case True
    then have d: "drop i (take n m) = m ! i # drop (Suc i) (take n m)" using "1.prems" by (simp add: Cons_nth_drop_Suc [symmetric])
    show ?thesis
    proof (cases "IS_SPACE (m ! i)")
      case sp: True
      then show ?thesis using "1.IH"(1) [OF True sp] "1.prems" True by (simp add: strip_loop.simps [of n i] d)
    next
      case sp: False
      let ?m = "if i \<noteq> k then m[k := m ! i] else m"
      have l: "length ?m = length m" and dr: "drop (Suc i) (take n ?m) = drop (Suc i) (take n m)"
        using "1.prems" by (auto simp: drop_update_cancel take_update_swap)
      have tk: "take (Suc k) ?m = take k m @ [m ! i]"
        using "1.prems" True by (cases "i = k") (auto simp: take_Suc_conv_app_nth)
      obtain m' where m': "strip_loop n (Suc i) (Suc k) ?m = (Suc k + length (filter (\<lambda>c. \<not> IS_SPACE c) (drop (Suc i) (take n m))), m')"
        "length m' = length m" "take (Suc k + length (filter (\<lambda>c. \<not> IS_SPACE c) (drop (Suc i) (take n m)))) m' =
           take (Suc k) ?m @ filter (\<lambda>c. \<not> IS_SPACE c) (drop (Suc i) (take n m))"
        using "1.IH"(2) [OF True sp] "1.prems" True unfolding dr l by auto
      then show ?thesis using True sp unfolding d tk by (simp add: strip_loop.simps [of n i])
    qed
  qed
qed

text \<open>The bytes of a loaded file.\<close>

definition text_of :: "str_t \<Rightarrow> string" where
  "text_of c = take (s_len c) (s_str c)"

lemma strip_spaces_law:
  assumes "s_len c \<le> length (s_str c)"
  shows "text_of (strip_spaces c) = filter (\<lambda>x. \<not> IS_SPACE x) (text_of c) \<and> s_len (strip_spaces c) \<le> length (s_str (strip_spaces c))"
proof -
  obtain m' where "strip_loop (s_len c) 0 0 (s_str c) = (length (filter (\<lambda>x. \<not> IS_SPACE x) (text_of c)), m')" "length m' = length (s_str c)"
    "take (length (filter (\<lambda>x. \<not> IS_SPACE x) (text_of c))) m' = filter (\<lambda>x. \<not> IS_SPACE x) (text_of c)"
    using strip_loop_filter [of 0 0 "s_len c" "s_str c"] assms by (auto simp: text_of_def)
  moreover have "length (filter (\<lambda>x. \<not> IS_SPACE x) (text_of c)) \<le> length (s_str c)"
    by (rule order.trans [OF length_filter_le]) (simp add: text_of_def)
  ultimately show ?thesis by (simp add: strip_spaces_def text_of_def)
qed

text \<open>
  Stripping in place is filtering: what remains of a file are its bytes other than blanks, tabs and
  line feeds, in their order, and the loop never touches a byte behind the file.
\<close>

theorem strip_spaces_filter:
  assumes "s_len c \<le> length (s_str c)"
  shows "text_of (strip_spaces c) = filter (\<lambda>x. \<not> IS_SPACE x) (text_of c) \<and> s_len (strip_spaces c) \<le> length (s_str (strip_spaces c))"
  by (rule strip_spaces_law [OF assms])

theorem strip_spaces_filter_witness:
  "text_of (strip_spaces \<lparr>s_str = ''a b '' @ [LF] @ ''c'' @ [NUL], s_len = 6\<rparr>) = ''abc''"
  using strip_spaces_filter [of "\<lparr>s_str = ''a b '' @ [LF] @ ''c'' @ [NUL], s_len = 6\<rparr>"]
  by (simp add: text_of_def IS_SPACE_def)

section \<open>Loading and caching\<close>

type_synonym os_file = "bool \<times> int \<times> string option \<times> mem"

definition load_path :: "(string \<Rightarrow> os_file) \<Rightarrow> string \<Rightarrow> res_state \<Rightarrow> str_t option \<times> res_state" where
  "load_path os p st = (case os p of (open_ok, size0, rd_res, junk) \<Rightarrow> load_file_contents open_ok size0 rd_res junk st)"

text \<open>The first loop; it stops at a file that cannot be loaded.\<close>

fun sc_load :: "(string \<Rightarrow> os_file) \<Rightarrow> bool \<Rightarrow> string list \<Rightarrow> str_t list \<Rightarrow> res_state \<Rightarrow> bool \<times> str_t list \<times> res_state" where
  "sc_load os strip [] content st = (True, content, st)"
| "sc_load os strip (p # ps) content st =
     (case load_path os p st of
        (None, st) \<Rightarrow> (False, content, st)
      | (Some c, st) \<Rightarrow> sc_load os strip ps (content @ [if strip then strip_spaces c else c]) st)"

text \<open>The second loop: the files are appended to the first one and released.\<close>

fun sc_join :: "char \<Rightarrow> str_t \<Rightarrow> str_t list \<Rightarrow> res_state \<Rightarrow> (str_t \<times> res_state) option" where
  "sc_join u c0 [] st = Some (c0, st)"
| "sc_join u c0 (c # cs) st =
     (let n = s_len c0 + s_len c in
      do { m \<leftarrow> memcpy_at (realloc_list u n (s_str c0)) (n - s_len c) (take (s_len c) (s_str c));
           sc_join u \<lparr>s_str = m, s_len = n\<rparr> cs (st\<lparr>r_blocks := r_blocks st - 1\<rparr>) })"

record sc_state =
  sc_cwd :: cwd_state
  sc_res :: res_state
  sc_cache :: cache_state

text \<open>
  \<^verbatim>\<open>static_content_preprocess_and_cache\<close>: the result is the address of the content on the server, the
  empty one after an error.  The counters see the blocks this function allocates; the block of the entry
  belongs to the cache.
\<close>

definition static_content_preprocess_and_cache ::
  "char \<Rightarrow> int \<Rightarrow> (z_result \<times> string) list \<Rightarrow> (string \<Rightarrow> 32 word) \<Rightarrow> int \<Rightarrow> nat option \<Rightarrow> (string \<Rightarrow> bool) \<Rightarrow> string \<Rightarrow> string \<Rightarrow>
   (string \<Rightarrow> os_file) \<Rightarrow> string \<Rightarrow> string list \<Rightarrow> bool \<Rightarrow> sc_state \<Rightarrow> (string \<times> sc_state) option" where
  "static_content_preprocess_and_cache u base calls crc now fd chdir_ok template_dir cache_prefix os name paths strip st =
     (let (cwd, ws) = save_and_change_cwd fd chdir_ok template_dir (sc_cwd st) in
      if cwd = None then Some ([], st\<lparr>sc_cwd := ws\<rparr>)
      else
        (case sc_load os strip paths [] (sc_res st) of
           (False, content, rs) \<Rightarrow>
             Some ([], st\<lparr>sc_cwd := snd (restore_cwd cwd ws), sc_res := rs\<lparr>r_blocks := r_blocks rs - length content\<rparr>\<rparr>)
         | (True, content, rs) \<Rightarrow>
             (case content of
                [] \<Rightarrow> None
              | c0 # cs \<Rightarrow>
                  do { (c, rs) \<leftarrow> sc_join u c0 cs rs;
                       cache \<leftarrow> cache_store u base calls crc now (Some (\<lambda>t n. None)) name (take (s_len c) (s_str c)) (sc_cache st);
                       Some (cache_prefix @ name,
                         \<lparr>sc_cwd = snd (restore_cwd cwd ws), sc_res = rs\<lparr>r_blocks := r_blocks rs - 1 + 1\<rparr>, sc_cache = cache\<rparr>) })))"

text \<open>The file is there and is read completely.\<close>

definition has_file :: "(string \<Rightarrow> os_file) \<Rightarrow> string \<Rightarrow> string \<Rightarrow> bool" where
  "has_file os p b \<longleftrightarrow> (\<exists>junk. os p = (True, int (length b), Some b, junk) \<and> length junk = length b + 1)"

definition whole :: "str_t \<Rightarrow> bool" where
  "whole c \<longleftrightarrow> s_len c \<le> length (s_str c)"

lemma load_path_ok:
  assumes "has_file os p b"
  shows "\<exists>c. load_path os p st = (Some c, st\<lparr>r_blocks := r_blocks st + 1\<rparr>) \<and> whole c \<and> text_of c = b"
proof -
  obtain junk where j: "os p = (True, int (length b), Some b, junk)" "length junk = length b + 1"
    using assms by (auto simp: has_file_def)
  then have "length (drop (length b) junk) = 1" by simp
  then obtain x where "drop (length b) junk = [x]" by (auto simp del: length_drop simp: length_Suc_conv)
  then show ?thesis using j
    by (cases st) (simp add: load_path_def load_file_contents_def Let_def whole_def text_of_def nat_add_distrib list_update_append)
qed

lemma sc_load_ok:
  assumes "list_all2 (has_file os) ps bs" "\<forall>c \<in> set content. whole c"
  shows "\<exists>cs. sc_load os strip ps content st = (True, content @ cs, st\<lparr>r_blocks := r_blocks st + length ps\<rparr>) \<and>
     (\<forall>c \<in> set cs. whole c) \<and> map text_of cs = (if strip then map (filter (\<lambda>x. \<not> IS_SPACE x)) bs else bs)"
  using assms
proof (induction ps bs arbitrary: content st rule: list_all2_induct)
  case Nil
  then show ?case by simp
next
  case (Cons p ps b bs)
  obtain c where c: "load_path os p st = (Some c, st\<lparr>r_blocks := r_blocks st + 1\<rparr>)" "whole c" "text_of c = b"
    using load_path_ok [OF Cons.hyps(1)] by blast
  let ?c = "if strip then strip_spaces c else c"
  have w: "whole ?c" "text_of ?c = (if strip then filter (\<lambda>x. \<not> IS_SPACE x) b else b)"
    using strip_spaces_law [of c] c by (auto simp: whole_def)
  obtain cs where cs: "sc_load os strip ps (content @ [?c]) (st\<lparr>r_blocks := r_blocks st + 1\<rparr>) =
      (True, (content @ [?c]) @ cs, st\<lparr>r_blocks := r_blocks st + 1\<rparr>\<lparr>r_blocks := r_blocks st + 1 + length ps\<rparr>)"
     "\<forall>c \<in> set cs. whole c" "map text_of cs = (if strip then map (filter (\<lambda>x. \<not> IS_SPACE x)) bs else bs)"
    using Cons.IH [of "content @ [?c]" "st\<lparr>r_blocks := r_blocks st + 1\<rparr>"] Cons.prems w(1) by auto
  show ?case
    using c(1) cs w by (intro exI [of _ "?c # cs"]) (cases st, auto)
qed

lemma sc_load_append:
  "sc_load os strip ps content rs = (True, content', rs') \<Longrightarrow> sc_load os strip (ps @ qs) content rs = sc_load os strip qs content' rs'"
  by (induction ps arbitrary: content rs) (auto split: prod.splits option.splits)

lemma sc_join_ok:
  assumes "whole c0" "\<forall>c \<in> set cs. whole c" "length cs \<le> r_blocks st"
  shows "\<exists>c. sc_join u c0 cs st = Some (c, st\<lparr>r_blocks := r_blocks st - length cs\<rparr>) \<and> whole c \<and>
     text_of c = text_of c0 @ concat (map text_of cs)"
  using assms
proof (induction cs arbitrary: c0 st)
  case Nil
  then show ?case by simp
next
  case (Cons c cs)
  let ?n = "s_len c0 + s_len c"
  have w: "s_len c0 \<le> length (s_str c0)" "s_len c \<le> length (s_str c)" using Cons.prems by (auto simp: whole_def)
  have r: "realloc_list u ?n (s_str c0) = text_of c0 @ drop (s_len c0) (realloc_list u ?n (s_str c0))"
    using take_realloc_list [of "s_len c0" ?n "s_str c0" u] w(1) by (metis append_take_drop_id le_add1 text_of_def)
  have m: "memcpy_at (realloc_list u ?n (s_str c0)) (?n - s_len c) (take (s_len c) (s_str c)) = Some (text_of c0 @ text_of c)"
    using w memcpy_at_append [of "text_of c0" "s_len c0" "drop (s_len c0) (realloc_list u ?n (s_str c0))" "text_of c" "[]"] r
    by (simp add: text_of_def)
  let ?c = "\<lparr>s_str = text_of c0 @ text_of c, s_len = ?n\<rparr>"
  have "whole ?c" "text_of ?c = text_of c0 @ text_of c" using w by (simp_all add: whole_def text_of_def)
  then show ?case
    using Cons.IH [of ?c "st\<lparr>r_blocks := r_blocks st - 1\<rparr>"] Cons.prems m by (cases st) (auto simp: Let_def)
qed

lemma change_and_restore:
  assumes "\<forall>e \<in> set (w_saved ws). fst e \<noteq> d" "chdir_ok dir"
  shows "\<exists>ws'. save_and_change_cwd (Some d) chdir_ok dir ws = (Some d, ws') \<and> snd (restore_cwd (Some d) ws') = ws"
proof -
  have "filter (\<lambda>e. fst e \<noteq> d) (w_saved ws) = w_saved ws" using assms(1) by (simp add: filter_id_conv)
  then show ?thesis using assms(2) by (simp add: save_and_change_cwd_def save_cwd_def restore_cwd_def close_dir_def)
qed

text \<open>
  Preprocessing a list of files that are all there: the cache then holds, under the given name, the
  bytes of the files one after the other, without white space if that was asked for; the address
  returned is the name behind the cache prefix; the working directory and all descriptors are as before,
  and one block (the address) is left to the caller.
\<close>

theorem static_content_cached:
  assumes cache: "cache_inv (sc_cache st)" "storable (sc_cache st) name calls" "cache_find name False (sc_cache st) = None"
    and files: "list_all2 (has_file os) paths bs" "paths \<noteq> []"
    and dir: "\<forall>e \<in> set (w_saved (sc_cwd st)). fst e \<noteq> d" "chdir_ok template_dir"
  shows "\<exists>st'. static_content_preprocess_and_cache u base calls crc now (Some d) chdir_ok template_dir cache_prefix os name paths strip st =
       Some (cache_prefix @ name, st') \<and> sc_cwd st' = sc_cwd st \<and> sc_res st' = (sc_res st)\<lparr>r_blocks := r_blocks (sc_res st) + 1\<rparr> \<and>
     cache_inv (sc_cache st') \<and>
     cache_find name False (sc_cache st') =
       Some (now, concat (if strip then map (filter (\<lambda>x. \<not> IS_SPACE x)) bs else bs), False)"
proof -
  obtain ws where ws: "save_and_change_cwd (Some d) chdir_ok template_dir (sc_cwd st) = (Some d, ws)" "snd (restore_cwd (Some d) ws) = sc_cwd st"
    using change_and_restore [of "sc_cwd st" d chdir_ok template_dir] dir by blast
  let ?rs = "(sc_res st)\<lparr>r_blocks := r_blocks (sc_res st) + length paths\<rparr>"
  obtain cs where cs: "sc_load os strip paths [] (sc_res st) = (True, cs, ?rs)" "\<forall>c \<in> set cs. whole c"
    "map text_of cs = (if strip then map (filter (\<lambda>x. \<not> IS_SPACE x)) bs else bs)"
    using sc_load_ok [OF files(1), of "[]" strip "sc_res st"] by auto
  have "length cs = length paths" using arg_cong [OF cs(3), of length] list_all2_lengthD [OF files(1)] by simp
  then obtain c0 cs' where c0: "cs = c0 # cs'" "length paths = Suc (length cs')" using files(2) by (cases cs) auto
  obtain c where c: "sc_join u c0 cs' ?rs = Some (c, ?rs\<lparr>r_blocks := r_blocks ?rs - length cs'\<rparr>)" "whole c"
    "text_of c = concat (map text_of cs)" using sc_join_ok [of c0 cs' ?rs u] cs(2) c0 by auto
  let ?data = "concat (if strip then map (filter (\<lambda>x. \<not> IS_SPACE x)) bs else bs)"
  have data: "take (s_len c) (s_str c) = ?data" using c(3) cs(3) by (simp add: text_of_def)
  obtain s' where s': "cache_store u base calls crc now (Some (\<lambda>t n. None)) name ?data (sc_cache st) = Some s'" "cache_inv s'"
    "cache_view s' = cache_view (sc_cache st) @ [(name, now, ?data, Some (gzip_member crc calls ?data))]"
    using cache_store_law [OF cache(1,2)] by blast
  have fnd: "cache_find name False s' = Some (now, ?data, False)"
    using cache(3) unfolding cache_find_view [OF s'(2)] cache_find_view [OF cache(1)] s'(3)
    by (auto simp: cache_pick_def map_add_def split: option.splits)
  let ?st = "\<lparr>sc_cwd = sc_cwd st, sc_res = (sc_res st)\<lparr>r_blocks := r_blocks (sc_res st) + 1\<rparr>, sc_cache = s'\<rparr>"
  have "static_content_preprocess_and_cache u base calls crc now (Some d) chdir_ok template_dir cache_prefix os name paths strip st =
       Some (cache_prefix @ name, ?st)"
    unfolding static_content_preprocess_and_cache_def ws(1) Let_def prod.case cs(1) c0(1) list.case
    using ws(2) c(1) c0(2) by (simp add: data s'(1))
  then show ?thesis using s'(2) fnd by (intro exI [of _ ?st]) simp
qed

definition sample_state :: sc_state where
  "sample_state = \<lparr>sc_cwd = \<lparr>w_cwd = ''/srv'', w_saved = []\<rparr>, sc_res = \<lparr>r_fds = 3, r_blocks = 5\<rparr>, sc_cache = cache_create CHR ''u'' 0\<rparr>"

theorem static_content_cached_witness:
  "\<exists>st'. static_content_preprocess_and_cache CHR ''u'' 64 [(Z_STREAM_END, ''z'')] (\<lambda>_. 7) 100 (Some 9) (\<lambda>p. True) ''/tpl'' ''/cache/''
      (\<lambda>p. if p = ''a'' then (True, 3, Some ''x y'', ''????'') else (True, 1, Some ''z'', ''??'')) ''all.js'' [''a'', ''b''] True sample_state =
      Some (''/cache/all.js'', st') \<and> cache_find ''all.js'' False (sc_cache st') = Some (100, ''xyz'', False)"
proof -
  let ?os = "\<lambda>p. if p = ''a'' then (True, 3, Some ''x y'', ''????'') else (True, 1, Some ''z'', ''??'')"
  have c: "cache_inv (sc_cache sample_state)" "cache_find ''all.js'' False (sc_cache sample_state) = None"
    using cache_create_inv [of "CHR ''u''" 0] cache_find_view by (auto simp: sample_state_def)
  have "storable (sc_cache sample_state) ''all.js'' [(Z_STREAM_END, ''z'')]"
    by (simp add: storable_def cache_create_def buf_create_def GZIP_BUFFER_SIZE_def sample_state_def)
  moreover have "list_all2 (has_file ?os) [''a'', ''b''] [''x y'', ''z'']" by (simp add: has_file_def)
  ultimately show ?thesis
    using static_content_cached [OF c(1) _ c(2), of "[(Z_STREAM_END, ''z'')]" ?os "[''a'', ''b'']" "[''x y'', ''z'']" 9 "\<lambda>p. True" "''/tpl''"
        "CHR ''u''" 64 "\<lambda>_. 7" 100 "''/cache/''" True] by (auto simp: sample_state_def IS_SPACE_def)
qed

text \<open>
  If one of the files cannot be loaded, nothing is stored and nothing leaks: the blocks of the files
  loaded before it are released, the working directory is restored, and the whole state is as before.
\<close>

theorem static_content_failure:
  assumes files: "list_all2 (has_file os) ps bs" "\<forall>rs. load_path os p rs = (None, rs)"
    and dir: "\<forall>e \<in> set (w_saved (sc_cwd st)). fst e \<noteq> d" "chdir_ok template_dir"
  shows "static_content_preprocess_and_cache u base calls crc now (Some d) chdir_ok template_dir cache_prefix os name (ps @ p # ps') strip st =
     Some ([], st)"
proof -
  obtain ws where ws: "save_and_change_cwd (Some d) chdir_ok template_dir (sc_cwd st) = (Some d, ws)" "snd (restore_cwd (Some d) ws) = sc_cwd st"
    using change_and_restore [of "sc_cwd st" d chdir_ok template_dir] dir by blast
  obtain cs where cs: "sc_load os strip ps [] (sc_res st) = (True, cs, (sc_res st)\<lparr>r_blocks := r_blocks (sc_res st) + length ps\<rparr>)"
    "map text_of cs = (if strip then map (filter (\<lambda>x. \<not> IS_SPACE x)) bs else bs)"
    using sc_load_ok [OF files(1), of "[]" strip "sc_res st"] by auto
  have "length cs = length ps" using arg_cong [OF cs(2), of length] list_all2_lengthD [OF files(1)] by simp
  then show ?thesis
    using ws sc_load_append [OF cs(1), of "p # ps'"] files(2) by (cases st) (simp add: static_content_preprocess_and_cache_def Let_def)
qed

theorem static_content_failure_witness:
  "static_content_preprocess_and_cache CHR ''u'' 64 [] (\<lambda>_. 7) 100 (Some 9) (\<lambda>p. True) ''/tpl'' ''/cache/''
      (\<lambda>p. if p = ''a'' then (True, 3, Some ''x y'', ''????'') else (False, 0, None, [])) ''all.js'' ([''a''] @ ''b'' # [''c'']) False sample_state =
      Some ([], sample_state)"
  by (rule static_content_failure [of _ _ "[''x y'']"]) (simp_all add: has_file_def load_path_def load_file_contents_def sample_state_def)

end
