(* ===== verification/Web_Allocator.thy ===== *)
theory Web_Allocator
  imports Common_Containers
begin

text \<open>
  The allocator of the page handlers (\<^verbatim>\<open>web_allocator.c\<close> and the macros of \<^verbatim>\<open>web_handler.h\<close>): every
  block a handler allocates is noted in a list, and when the handler has returned the blocks it did not
  free are collected.  \<open>ptr\<close> is what \<^verbatim>\<open>malloc\<close> returns, 0 being \<^verbatim>\<open>NULL\<close>.
\<close>

record web_alloc =
  wa_ptr :: addr
  wa_free :: bool

text \<open>A failed allocation leaves the handler with the status 500 (\<open>Inl\<close>).\<close>

definition web_allocator_malloc :: "addr \<Rightarrow> web_alloc list \<Rightarrow> heap \<Rightarrow> nat + addr \<times> web_alloc list \<times> heap" where
  "web_allocator_malloc ptr al H =
     (if ptr = 0 then Inl 500 else Inr (ptr, al @ [\<lparr>wa_ptr = ptr, wa_free = False\<rparr>], allocator_malloc ptr H))"

fun web_allocator_free :: "addr \<Rightarrow> web_alloc list \<Rightarrow> heap \<Rightarrow> (web_alloc list \<times> heap) option" where
  "web_allocator_free ptr [] H = Some ([], H)"
| "web_allocator_free ptr (a # al) H =
     (if ptr = wa_ptr a \<and> \<not> wa_free a
      then map_option (\<lambda>H. (a\<lparr>wa_free := True\<rparr> # al, H)) (allocator_free ptr H)
      else map_option (\<lambda>(al, H). (a # al, H)) (web_allocator_free ptr al H))"

fun collect_loop :: "web_alloc list \<Rightarrow> heap \<Rightarrow> heap option" where
  "collect_loop [] H = Some H"
| "collect_loop (a # al) H = do { H \<leftarrow> (if \<not> wa_free a then allocator_free (wa_ptr a) H else Some H); collect_loop al H }"

definition web_allocator_garbage_collect :: "web_alloc list \<Rightarrow> heap \<Rightarrow> (web_alloc list \<times> heap) option" where
  "web_allocator_garbage_collect al H = map_option (\<lambda>H. ([], H)) (collect_loop al H)"

definition web_allocator_init :: "web_alloc list" where
  "web_allocator_init = []"

text \<open>\<^verbatim>\<open>gc_realloc\<close> is the plain \<^verbatim>\<open>realloc\<close>: the block moves and the list is not told.\<close>

definition gc_realloc :: "addr \<Rightarrow> addr \<Rightarrow> heap \<Rightarrow> heap option" where
  "gc_realloc ptr new H = map_option (allocator_malloc new) (allocator_free ptr H)"

section \<open>No leaks and no double frees\<close>

definition live :: "web_alloc list \<Rightarrow> addr list" where
  "live al = map wa_ptr (filter (\<lambda>a. \<not> wa_free a) al)"

lemma live_simps [simp]: "live [] = []" "live (a # al) = (if wa_free a then live al else wa_ptr a # live al)" "live (xs @ ys) = live xs @ live ys"
  by (simp_all add: live_def)

text \<open>The blocks in the heap are those of before (\<open>H0\<close>) and the live ones of the list.\<close>

definition web_inv :: "heap \<Rightarrow> web_alloc list \<Rightarrow> heap \<Rightarrow> bool" where
  "web_inv H0 al H \<longleftrightarrow> distinct (live al) \<and> 0 \<notin> set (live al) \<and> set (live al) \<inter> H0 = {} \<and> H = H0 \<union> set (live al)"

lemma web_allocator_free_ok:
  assumes "distinct (live al)" "0 \<notin> set (live al)" "set (live al) \<subseteq> H"
  shows "\<exists>al'. web_allocator_free ptr al H = Some (al', if ptr \<in> set (live al) then H - {ptr} else H) \<and>
     live al' = filter (\<lambda>a. a \<noteq> ptr) (live al)"
  using assms
proof (induction al)
  case (Cons a al)
  show ?case
  proof (cases "ptr = wa_ptr a \<and> \<not> wa_free a")
    case True
    then have "ptr \<noteq> 0" "ptr \<in> H" "ptr \<notin> set (live al)" using Cons.prems by auto
    moreover have "filter (\<lambda>a. a \<noteq> ptr) (live al) = live al" using \<open>ptr \<notin> set (live al)\<close> by (auto simp: filter_id_conv)
    ultimately show ?thesis using True by (auto simp: allocator_free_def)
  next
    case False
    obtain al' where "web_allocator_free ptr al H = Some (al', if ptr \<in> set (live al) then H - {ptr} else H)"
      "live al' = filter (\<lambda>a. a \<noteq> ptr) (live al)" using Cons.IH Cons.prems by (auto split: if_splits)
    then show ?thesis using False by (cases a) auto
  qed
qed simp

lemma collect_loop_ok:
  "distinct (live al) \<Longrightarrow> 0 \<notin> set (live al) \<Longrightarrow> set (live al) \<subseteq> H \<Longrightarrow> collect_loop al H = Some (H - set (live al))"
proof (induction al arbitrary: H)
  case (Cons a al)
  show ?case
  proof (cases "wa_free a")
    case True
    then show ?thesis using Cons by simp
  next
    case False
    then have "collect_loop al (H - {wa_ptr a}) = Some (H - {wa_ptr a} - set (live al))" using Cons.prems by (intro Cons.IH) auto
    moreover have "H - {wa_ptr a} - set (live al) = H - set (live (a # al))" using False by auto
    ultimately show ?thesis using False Cons.prems by (simp add: allocator_free_def)
  qed
qed simp

text \<open>What a handler does with the allocator.\<close>

inductive handler_run :: "heap \<Rightarrow> web_alloc list \<Rightarrow> heap \<Rightarrow> bool" for H0 where
  start: "handler_run H0 web_allocator_init H0"
| malloc: "handler_run H0 al H \<Longrightarrow> fresh ptr H \<Longrightarrow> web_allocator_malloc ptr al H = Inr (ptr, al', H') \<Longrightarrow> handler_run H0 al' H'"
| free: "handler_run H0 al H \<Longrightarrow> web_allocator_free ptr al H = Some (al', H') \<Longrightarrow> handler_run H0 al' H'"

lemma handler_run_inv: "handler_run H0 al H \<Longrightarrow> web_inv H0 al H"
proof (induction rule: handler_run.induct)
  case start
  then show ?case by (simp add: web_inv_def web_allocator_init_def)
next
  case (malloc al H ptr al' H')
  then show ?case by (auto simp: web_inv_def web_allocator_malloc_def fresh_def allocator_malloc_def split: if_splits)
next
  case (free al H ptr al' H')
  then have i: "distinct (live al)" "0 \<notin> set (live al)" "set (live al) \<inter> H0 = {}" "H = H0 \<union> set (live al)" by (auto simp: web_inv_def)
  from web_allocator_free_ok [OF i(1,2), of H ptr] i(4) free(2)
  have "live al' = filter (\<lambda>a. a \<noteq> ptr) (live al)" "H' = (if ptr \<in> set (live al) then H - {ptr} else H)" by auto
  then show ?case using i by (auto simp: web_inv_def)
qed

text \<open>
  Whatever a handler allocates and frees, in any order and with any pointers, no block is freed
  twice and no foreign block is freed, and after the collection the heap is exactly what it was before the
  handler ran.
\<close>

theorem web_allocator_clean:
  assumes "handler_run H0 al H"
  shows "web_allocator_free ptr al H \<noteq> None \<and> web_allocator_garbage_collect al H = Some ([], H0)"
proof -
  have i: "distinct (live al)" "0 \<notin> set (live al)" "set (live al) \<inter> H0 = {}" "H = H0 \<union> set (live al)"
    using handler_run_inv [OF assms] by (auto simp: web_inv_def)
  have "H - set (live al) = H0" using i by auto
  then show ?thesis
    using web_allocator_free_ok [OF i(1,2), of H ptr] collect_loop_ok [OF i(1,2), of H] i(4)
    by (auto simp: web_allocator_garbage_collect_def)
qed

theorem web_allocator_clean_witness:
  "web_allocator_garbage_collect [\<lparr>wa_ptr = 5, wa_free = True\<rparr>, \<lparr>wa_ptr = 6, wa_free = False\<rparr>] {1, 6} = Some ([], {1})"
proof -
  have "handler_run {1} [\<lparr>wa_ptr = 5, wa_free = False\<rparr>] {5, 1}"
    by (rule handler_run.malloc [OF handler_run.start, of 5])
      (simp_all add: fresh_def web_allocator_malloc_def web_allocator_init_def allocator_malloc_def)
  from handler_run.malloc [OF this, of 6]
  have "handler_run {1} [\<lparr>wa_ptr = 5, wa_free = False\<rparr>, \<lparr>wa_ptr = 6, wa_free = False\<rparr>] {6, 5, 1}"
    by (simp add: fresh_def web_allocator_malloc_def allocator_malloc_def)
  from handler_run.free [OF this, of 5]
  have "handler_run {1} [\<lparr>wa_ptr = 5, wa_free = True\<rparr>, \<lparr>wa_ptr = 6, wa_free = False\<rparr>] ({6, 5, 1} - {5})"
    by (simp add: allocator_free_def)
  moreover have "{6, 5, 1} - {5} = {1, 6 :: nat}" by auto
  ultimately show ?thesis using web_allocator_clean by metis
qed

text \<open>
  \<^verbatim>\<open>gc_realloc\<close> breaks this: once a block of a handler has moved, the collection frees the old
  address, which is not live any more.
\<close>

theorem gc_realloc_double_free:
  assumes "fresh p H0" "fresh q (insert p H0)" "gc_realloc p q (insert p H0) = Some H"
  shows "web_allocator_garbage_collect [\<lparr>wa_ptr = p, wa_free = False\<rparr>] H = None"
  using assms by (auto simp: gc_realloc_def allocator_free_def fresh_def allocator_malloc_def web_allocator_garbage_collect_def)

theorem gc_realloc_double_free_witness:
  "web_allocator_garbage_collect [\<lparr>wa_ptr = 5, wa_free = False\<rparr>] {6, 1} = None"
proof -
  have "gc_realloc 5 6 (insert 5 {1}) = Some {6, 1}" by (auto simp: gc_realloc_def allocator_free_def allocator_malloc_def)
  then show ?thesis using gc_realloc_double_free [of 5 "{1}" 6 "{6, 1}"] by (simp add: fresh_def)
qed

end
