(* ===== verification/File_Storage.thy ===== *)
theory File_Storage
  imports Core_Server
begin

text \<open>
  \<^verbatim>\<open>file_temporary_storage.c\<close>: the table of the rate limiter survives a restart of the server in a file.
  A node is the string of its bytes; the file system is a map from paths to contents, \<open>open_ok\<close> says
  whether the file can be opened for writing, and the addresses \<^verbatim>\<open>malloc\<close> returns, with what the fresh
  blocks hold, are arguments.
\<close>

type_synonym fs = "string \<rightharpoonup> string"

definition frag_pool_save :: "string \<Rightarrow> bool \<Rightarrow> mem frag_pool_t \<Rightarrow> string \<Rightarrow> fs \<Rightarrow> bool \<times> fs" where
  "frag_pool_save temp_dir open_ok p filename fs =
     (if \<not> open_ok then (False, fs)
      else (True, fs(temp_dir @ filename \<mapsto> concat (map e_data (filter (\<lambda>x. \<not> e_free x) (take (f_real_len p) (f_e p)))))))"

text \<open>The reading loop: one new node for every \<open>size\<close> bytes.\<close>

fun load_nodes :: "nat \<Rightarrow> (addr \<times> mem) list \<Rightarrow> nat \<Rightarrow> string \<Rightarrow> mem frag_pool_t \<Rightarrow> heap \<Rightarrow> (mem frag_pool_t \<times> heap) option" where
  "load_nodes sz as 0 bytes p H = Some (p, H)"
| "load_nodes sz [] (Suc n) bytes p H = None"
| "load_nodes sz ((a, u) # as) (Suc n) bytes p H =
     (let (r, p, H) = frag_pool_alloc a u p H in
      if length bytes < sz then None
      else load_nodes sz as n (drop sz bytes) (frag_pool_store r (take sz bytes) p) H)"

definition frag_pool_load :: "nat \<Rightarrow> (addr \<times> mem) list \<Rightarrow> (addr \<times> mem) list \<Rightarrow> string \<Rightarrow> string \<Rightarrow> fs \<Rightarrow> heap \<Rightarrow>
    (mem frag_pool_t \<times> heap) option \<times> fs" where
  "frag_pool_load sz nodes as temp_dir filename fs H =
     (let path = temp_dir @ filename in
      case fs path of
        None \<Rightarrow> (None, fs)
      | Some bytes \<Rightarrow>
          if length bytes mod sz \<noteq> 0 then (None, fs(path := None))
          else (let (p, H) = frag_pool_create sz nodes H in
                (load_nodes sz as (length bytes div sz) bytes p H, fs(path := None))))"

section \<open>Saving and loading\<close>

definition all_fresh :: "addr list \<Rightarrow> heap \<Rightarrow> bool" where
  "all_fresh as H \<longleftrightarrow> distinct as \<and> 0 \<notin> set as \<and> set as \<inter> H = {}"

lemma frag_pool_alloc_heap:
  assumes "frag_inv p H" "frag_pool_alloc a u p H = (r, q, H')"
  shows "H' = H \<or> H' = insert a H" "f_real_len q \<le> f_real_len p + 1"
  using assms by (auto simp: frag_pool_alloc_def allocator_malloc_def inc32_def Let_def split: option.splits)

lemma load_nodes_ok:
  assumes "frag_inv p H" "\<forall>d \<in> set ds. length d = sz" "all_fresh (map fst as) H" "length ds \<le> length as" "f_real_len p + length ds < 2 ^ 32"
  shows "\<exists>q H'. load_nodes sz as (length ds) (concat ds) p H = Some (q, H') \<and> frag_inv q H' \<and> mset (tbl q) = mset (tbl p) + mset ds"
  using assms
proof (induction ds arbitrary: as p H)
  case Nil
  then show ?case by simp
next
  case (Cons d ds)
  obtain a u as' where as: "as = (a, u) # as'" using Cons.prems(4) by (cases as) auto
  obtain r q H1 where al: "frag_pool_alloc a u p H = (r, q, H1)" by (metis prod_cases3)
  have fr: "fresh a H" using Cons.prems(3) as by (auto simp: all_fresh_def fresh_def)
  let ?q = "frag_pool_store r d q"
  have i: "frag_inv ?q H1" "mset (frag_nodes ?q) = add_mset (r, d) (mset (frag_nodes p))"
    using fp.insert_node [OF Cons.prems(1) fr _ al] Cons.prems(5) by auto
  have t: "mset (tbl ?q) = add_mset d (mset (tbl p))"
    using arg_cong [OF i(2), of "image_mset snd"] by (simp add: tbl_nodes)
  have h: "all_fresh (map fst as') H1" "f_real_len ?q \<le> f_real_len p + 1"
    using frag_pool_alloc_heap [OF Cons.prems(1) al] Cons.prems(3) as by (auto simp: all_fresh_def frag_pool_store_def)
  obtain q' H' where "load_nodes sz as' (length ds) (concat ds) ?q H1 = Some (q', H')" "frag_inv q' H'" "mset (tbl q') = mset (tbl ?q) + mset ds"
    using Cons.IH [OF i(1) _ h(1)] Cons.prems as h(2) by auto
  then show ?case using as al t Cons.prems(2) by simp
qed

lemma length_concat_nodes: "\<forall>d \<in> set ds. length d = sz \<Longrightarrow> length (concat ds) = length ds * sz"
  by (induction ds) auto

lemma frag_pool_create_empty: "frag_pool_create sz ns H = (p, H') \<Longrightarrow> tbl p = []"
  by (auto simp: frag_pool_create_def tbl_def used_def filter_map comp_def split_def)

lemma frag_pool_create_fresh:
  assumes "frag_pool_create sz ns H = (p, H')"
  shows "H' = H \<union> set (map fst ns)" "f_real_len p = length ns"
proof -
  have "foldr allocator_malloc xs H = H \<union> set xs" for xs by (induction xs) (auto simp: allocator_malloc_def)
  then show "H' = H \<union> set (map fst ns)" "f_real_len p = length ns" using assms by (auto simp: frag_pool_create_def)
qed

text \<open>
  A table that was saved when the server went down is there again after it has started: loading
  gives a well-formed pool with exactly the nodes that were in use, whatever slots they had, and removes
  the file.
\<close>

theorem frag_pool_save_load:
  assumes inv: "frag_inv p H0" "0 < sz" "\<forall>d \<in> set (tbl p). length d = sz"
    and fr: "all_fresh (map fst nodes @ map fst as) H" and size: "length (tbl p) \<le> length as" "length nodes + length (tbl p) < 2 ^ 32"
    and sv: "frag_pool_save temp_dir True p filename fs = (b, fs1)"
  shows "\<exists>q H'. frag_pool_load sz nodes as temp_dir filename fs1 H = (Some (q, H'), fs(temp_dir @ filename := None)) \<and>
     frag_inv q H' \<and> mset (tbl q) = mset (tbl p)"
proof -
  have fs1: "fs1 = fs(temp_dir @ filename \<mapsto> concat (tbl p))"
    using sv inv(1) by (auto simp: frag_pool_save_def tbl_def used_def take_real_len)
  have len: "length (concat (tbl p)) = length (tbl p) * sz"
    by (rule length_concat_nodes [OF inv(3)])
  obtain p0 H1 where cr: "frag_pool_create sz nodes H = (p0, H1)" by (meson surj_pair)
  have i0: "frag_inv p0 H1" using frag_pool_create_inv [of nodes sz H p0 H1] fr size(2) cr by (auto simp: all_fresh_def)
  have "all_fresh (map fst as) H1" using fr frag_pool_create_fresh [OF cr] by (auto simp: all_fresh_def)
  then obtain q H' where "load_nodes sz as (length (tbl p)) (concat (tbl p)) p0 H1 = Some (q, H')" "frag_inv q H'" "mset (tbl q) = mset (tbl p0) + mset (tbl p)"
    using load_nodes_ok [OF i0 inv(3) _ size(1)] size(2) frag_pool_create_fresh [OF cr] by auto
  then show ?thesis
    using frag_pool_create_empty [OF cr] fs1 len inv(2) cr by (simp add: frag_pool_load_def)
qed

theorem frag_pool_save_load_witness:
  "\<exists>q H'. frag_pool_load 2 [] [(7, ''??'')] ''/tmp/'' ''f'' [''/tmp/f'' \<mapsto> ''ab''] {} = (Some (q, H'), Map.empty) \<and> mset (tbl q) = {#''ab''#}"
proof -
  define p where "p = \<lparr>f_cur_len = 1, f_reserved_len = 1, f_real_len = 1, f_node_size = 2, f_e = [\<lparr>e_ptr = 3, e_data = ''ab'', e_free = False\<rparr>]\<rparr>"
  have i: "frag_inv p {3}" "tbl p = [''ab'']" by (simp_all add: p_def frag_inv_def frag_pre_def tbl_def used_def)
  have "frag_pool_save ''/tmp/'' True p ''f'' Map.empty = (True, [''/tmp/f'' \<mapsto> ''ab''])" by (simp add: p_def frag_pool_save_def)
  from frag_pool_save_load [OF i(1) _ _ _ _ _ this, of 2 "[]" "[(7, ''??'')]" "{}"] show ?thesis
    unfolding i(2) by (auto simp: all_fresh_def)
qed

end
