(* ===== verification/Config_Parser.thy ===== *)
theory Config_Parser
  imports Common_Strings
begin

text \<open>
  The parser of the configuration file (\<^verbatim>\<open>config_parser.c\<close>).  A pointer into a file is the rest of the
  text from it on, the empty text being the terminating \<^verbatim>\<open>'\0'\<close>.  The parser ends names and strings by
  writing a \<^verbatim>\<open>'\0'\<close> into the text, always behind the place it has reached, so that this only shows in
  the line numbers, which are counted in the text as it has become: \<open>lost\<close> is the number of line feeds
  that were overwritten.  \<^term>\<open>None\<close> is an access outside of a block (or a parser that does not return),
  \<open>Inl\<close> an error reported to the user.
\<close>

section \<open>Settings\<close>

text \<open>
  The value of a setting; \<open>V_unset\<close> is a structure nothing has been assigned to (its type is then the
  first one of the enumeration, a string that is \<^verbatim>\<open>NULL\<close>).  A floating point number is kept as its text.
\<close>

datatype config_value = V_unset | V_string string | V_bool bool | V_int int | V_int64 int | V_float string | V_group

datatype config_setting_t = Setting
  (st_name: "string option") (st_value: config_value) (st_file: string) (st_line: nat) (st_childs: "config_setting_t list")

record config_error =
  error_text :: string
  error_file :: string
  error_line :: "nat option"

text \<open>What opening and reading a file gives.\<close>

datatype file_result = No_File string | Io_Error | Content string

definition CONFIG_VALID_SYMBOL :: "char \<Rightarrow> bool" where
  "CONFIG_VALID_SYMBOL c \<longleftrightarrow> IS_SYM c \<or> IS_SPACE c \<or> c = CR \<or> c = LF"

definition CONFIG_VALID_NAME_SYMBOL :: "char \<Rightarrow> bool" where
  "CONFIG_VALID_NAME_SYMBOL c \<longleftrightarrow> IS_LOWER c \<or> IS_UPPER c \<or> IS_DIGIT c \<or> c = CHR ''-'' \<or> c = CHR ''_''"

section \<open>Lines and files\<close>

definition newlines :: "string \<Rightarrow> nat" where
  "newlines s = length (filter (\<lambda>c. c = LF) s)"

definition config_get_line_by_ptr :: "string \<Rightarrow> nat \<Rightarrow> string \<Rightarrow> nat" where
  "config_get_line_by_ptr text lost ptr = 1 + newlines (take (length text - length ptr) text) - lost"

definition config_quick_validate :: "string \<Rightarrow> string \<Rightarrow> config_error option" where
  "config_quick_validate file content =
     (case dropWhile CONFIG_VALID_SYMBOL content of
        [] \<Rightarrow> None
      | ptr \<Rightarrow> Some \<lparr>error_text = ''this is not a text file'', error_file = file,
                     error_line = Some (config_get_line_by_ptr content 0 ptr)\<rparr>)"

text \<open>For an empty file the block has one byte and two are written.\<close>

definition config_load_file_contents :: "string \<Rightarrow> file_result \<Rightarrow> (config_error + string) option" where
  "config_load_file_contents file r =
     (case r of
        Content [] \<Rightarrow> None
      | Content content \<Rightarrow>
          (case config_quick_validate file content of Some e \<Rightarrow> Some (Inl e) | None \<Rightarrow> Some (Inr content))
      | _ \<Rightarrow> Some (Inl \<lparr>error_text = ''I/O error'', error_file = file, error_line = Some 0\<rparr>))"

section \<open>White space and comments\<close>

text \<open>\<^verbatim>\<open>strstr(c, "*/")\<close> and two steps further.\<close>

fun after_close :: "string \<Rightarrow> string option" where
  "after_close (c # d # r) = (if c = CHR ''*'' \<and> d = CHR ''/'' then Some r else after_close (d # r))"
| "after_close _ = None"

lemma after_close_length: "after_close t = Some r \<Longrightarrow> length r < length t"
  by (induction t rule: after_close.induct) (auto split: if_splits)

function config_jump_to_nonspace :: "string \<Rightarrow> string" where
  "config_jump_to_nonspace t =
     (case t of
        [] \<Rightarrow> []
      | c # cs \<Rightarrow>
          if c = CHR ''#'' \<or> (c = CHR ''/'' \<and> cs \<noteq> [] \<and> hd cs = CHR ''/'')
          then (case dropWhile (\<lambda>x. x \<noteq> LF) t of [] \<Rightarrow> [] | x # r \<Rightarrow> config_jump_to_nonspace r)
          else if c = CHR ''/'' \<and> cs \<noteq> [] \<and> hd cs = CHR ''*''
          then (case after_close t of None \<Rightarrow> [] | Some r \<Rightarrow> config_jump_to_nonspace r)
          else if IS_SPACE c \<or> c = CR \<or> c = LF then config_jump_to_nonspace cs
          else t)"
  by pat_completeness auto
termination
proof (relation "measure length", goal_cases)
  case (2 t c cs x r)
  have "length (dropWhile (\<lambda>x. x \<noteq> LF) t) \<le> length t" by (rule length_dropWhile_le)
  then show ?case using 2 by simp
next
  case (3 t c cs r)
  then show ?case using after_close_length [of t r] by simp
qed auto

declare config_jump_to_nonspace.simps [simp del]

definition skip_semicolon :: "string \<Rightarrow> string" where
  "skip_semicolon t = (case t of c # cs \<Rightarrow> if c = CHR '';'' then cs else t | [] \<Rightarrow> [])"

section \<open>Names and values\<close>

definition named :: "string \<Rightarrow> config_setting_t \<Rightarrow> bool" where
  "named name s \<longleftrightarrow> st_name s = Some name"

definition config_find_child_by_name :: "config_setting_t list \<Rightarrow> string \<Rightarrow> config_setting_t option" where
  "config_find_child_by_name childs name = find (named name) childs"

text \<open>An error at \<open>ptr\<close>, in a file whose text is \<open>text\<close>.\<close>

definition config_error_at :: "string \<Rightarrow> string \<Rightarrow> nat \<Rightarrow> string \<Rightarrow> string \<Rightarrow> config_error" where
  "config_error_at file text lost ptr msg =
     \<lparr>error_text = msg, error_file = file, error_line = Some (config_get_line_by_ptr text lost ptr)\<rparr>"

definition config_parse_setting_name ::
  "string \<Rightarrow> string \<Rightarrow> nat \<Rightarrow> config_setting_t list \<Rightarrow> string \<Rightarrow> config_error + string \<times> nat \<times> string" where
  "config_parse_setting_name file text lost siblings ptr =
     (let name = takeWhile CONFIG_VALID_NAME_SYMBOL ptr; p = dropWhile CONFIG_VALID_NAME_SYMBOL ptr in
      if name = [] then Inl (config_error_at file text lost p ''name for the setting object not found'')
      else if config_find_child_by_name siblings name \<noteq> None
      then Inl (config_error_at file text lost p ''duplicate setting name'')
      else Inr (name, config_get_line_by_ptr text lost ptr, p))"

text \<open>The text up to the closing quote, and what is behind it.\<close>

definition config_parse_string :: "string \<Rightarrow> string \<Rightarrow> nat \<Rightarrow> string \<Rightarrow> config_error + string \<times> string" where
  "config_parse_string file text lost ptr =
     (case dropWhile (\<lambda>c. c \<noteq> CHR 0x22) ptr of
        [] \<Rightarrow> Inl (config_error_at file text lost [] ''unexpected end of file, expected end of string (closing quote)'')
      | q # r \<Rightarrow> Inr (takeWhile (\<lambda>c. c \<noteq> CHR 0x22) ptr, r))"

definition hex_digit_value :: "char \<Rightarrow> nat option" where
  "hex_digit_value c =
     (if IS_DIGIT c then Some (ord c - 48)
      else if 97 \<le> ord c \<and> ord c \<le> 102 then Some (ord c - 87)
      else if 65 \<le> ord c \<and> ord c \<le> 70 then Some (ord c - 55) else None)"

definition is_digit_of :: "nat \<Rightarrow> char \<Rightarrow> bool" where
  "is_digit_of base c \<longleftrightarrow> (case hex_digit_value c of None \<Rightarrow> False | Some d \<Rightarrow> d < base)"

fun base_value :: "nat \<Rightarrow> nat \<Rightarrow> string \<Rightarrow> nat" where
  "base_value base acc [] = acc"
| "base_value base acc (c # cs) = base_value base (base * acc + the (hex_digit_value c)) cs"

text \<open>\<^verbatim>\<open>strtoll(s, &endptr, 0)\<close> on a text that begins with a digit: the base is found in its prefix.\<close>

definition strtoll_0 :: "string \<Rightarrow> int \<times> string" where
  "strtoll_0 t =
     (let (base, ds) =
        (case t of
           c0 # c1 # c2 # r \<Rightarrow>
             if c0 = CHR ''0'' \<and> (c1 = CHR ''x'' \<or> c1 = CHR ''X'') \<and> is_digit_of 16 c2 then (16, c2 # r)
             else if c0 = CHR ''0'' then (8, t) else (10, t)
         | c0 # r \<Rightarrow> if c0 = CHR ''0'' then (8, t) else (10, t)
         | [] \<Rightarrow> (10, t)) in
      (min (2 ^ 63 - 1) (int (base_value base 0 (takeWhile (is_digit_of base) ds))), dropWhile (is_digit_of base) ds))"

text \<open>
  What \<^verbatim>\<open>strtod\<close> takes as a number from a text that begins with a digit: digits, a point and digits, an
  exponent; or the same in hexadecimal with a binary exponent.
\<close>

definition exponent_end :: "char set \<Rightarrow> string \<Rightarrow> string" where
  "exponent_end es t =
     (case t of
        e # r \<Rightarrow>
          (let d = (case r of s # r' \<Rightarrow> if s = CHR ''+'' \<or> s = CHR ''-'' then r' else r | [] \<Rightarrow> r) in
           if e \<in> es \<and> d \<noteq> [] \<and> IS_DIGIT (hd d) then dropWhile IS_DIGIT d else t)
      | [] \<Rightarrow> t)"

definition point_end :: "(char \<Rightarrow> bool) \<Rightarrow> string \<Rightarrow> string" where
  "point_end P t = (case dropWhile P t of c # r \<Rightarrow> if c = CHR ''.'' then dropWhile P r else c # r | [] \<Rightarrow> [])"

definition strtod_end :: "string \<Rightarrow> string" where
  "strtod_end t =
     (case t of
        c0 # c1 # r \<Rightarrow>
          if c0 = CHR ''0'' \<and> (c1 = CHR ''x'' \<or> c1 = CHR ''X'') \<and> r \<noteq> [] \<and> is_digit_of 16 (hd r)
          then exponent_end {CHR ''p'', CHR ''P''} (point_end (is_digit_of 16) r)
          else exponent_end {CHR ''e'', CHR ''E''} (point_end IS_DIGIT t)
      | _ \<Rightarrow> exponent_end {CHR ''e'', CHR ''E''} (point_end IS_DIGIT t))"

definition config_parse_int :: "string \<Rightarrow> config_value \<times> string" where
  "config_parse_int t =
     (let (val, endptr) = strtoll_0 t;
          (v, endptr) =
            (if endptr \<noteq> [] \<and> hd endptr = CHR ''.''
             then (let e = strtod_end t in (V_float (take (length t - length e) t), e))
             else if val > 2 ^ 31 - 1 then (V_int64 val, endptr)
             else (V_int val, endptr)) in
      (v, config_jump_to_nonspace endptr))"

text \<open>\<^verbatim>\<open>strncasecmp(ptr, word, strlen(word)) == 0\<close> for a lower case word.\<close>

definition starts_with_word :: "string \<Rightarrow> string \<Rightarrow> bool" where
  "starts_with_word word t \<longleftrightarrow> map TO_LOWER (take (length word) t) = word"

text \<open>The values that are no groups, with the text behind them.\<close>

definition parse_scalar :: "string \<Rightarrow> string \<Rightarrow> nat \<Rightarrow> string \<Rightarrow> config_error + config_value \<times> string" where
  "parse_scalar file text lost ptr =
     (if ptr \<noteq> [] \<and> hd ptr = CHR 0x22 then
        (case config_parse_string file text lost (tl ptr) of
           Inl e \<Rightarrow> Inl e
         | Inr (s, r) \<Rightarrow> Inr (V_string s, skip_semicolon (config_jump_to_nonspace r)))
      else if ptr \<noteq> [] \<and> IS_DIGIT (hd ptr) then
        (case config_parse_int ptr of (v, r) \<Rightarrow> Inr (v, skip_semicolon r))
      else if starts_with_word ''false'' ptr then
        Inr (V_bool False, skip_semicolon (config_jump_to_nonspace (drop 5 ptr)))
      else if starts_with_word ''true'' ptr then
        Inr (V_bool True, skip_semicolon (config_jump_to_nonspace (drop 4 ptr)))
      else Inl (config_error_at file text lost ptr ''unrecognized value type for setting''))"

section \<open>Groups and included files\<close>

text \<open>
  The name of a setting and the sign behind it.  The character behind the name is overwritten, which
  loses a line feed if it is one.
\<close>

definition parse_name_part ::
  "string \<Rightarrow> string \<Rightarrow> nat \<Rightarrow> config_setting_t list \<Rightarrow> string \<Rightarrow> config_error + string \<times> nat \<times> nat \<times> string" where
  "parse_name_part file text lost siblings ptr =
     (case config_parse_setting_name file text lost siblings ptr of
        Inl e \<Rightarrow> Inl e
      | Inr (name, line, p) \<Rightarrow>
          let q = config_jump_to_nonspace p in
          if q = [] \<or> (hd q \<noteq> CHR '':'' \<and> hd q \<noteq> CHR ''='')
          then Inl (config_error_at file text lost q ''invalid character after the setting name (expected one of \":\" or \"=\")'')
          else Inr (name, line, if hd p = LF then lost + 1 else lost, config_jump_to_nonspace (tl q)))"

text \<open>
  \<^verbatim>\<open>config_parse_command\<close> up to the parsing of the included file: its name, its text and the pointer behind
  the command.  \<open>files\<close> is the file system and \<open>anc\<close> are the files of the settings around this one.  In two
  of the error branches the line is counted in the text \<^verbatim>\<open>""\<close>, outside of which the loop runs: no line.
\<close>

definition config_parse_command ::
  "(string \<Rightarrow> file_result) \<Rightarrow> string \<Rightarrow> string list \<Rightarrow> string \<Rightarrow> nat \<Rightarrow> string \<Rightarrow> (config_error + string \<times> string \<times> string) option" where
  "config_parse_command files file anc text lost ptr =
     (if \<not> starts_with_word ''include'' ptr
      then Some (Inl (config_error_at file text lost ptr ''unknown command after \"@\"''))
      else let p = config_jump_to_nonspace (drop 7 ptr) in
        if p = [] \<or> hd p \<noteq> CHR 0x22
        then Some (Inl (config_error_at file text lost p ''expected a quoted string after \"@include\"''))
        else (case config_parse_string file text lost (tl p) of
           Inl e \<Rightarrow> Some (Inl e)
         | Inr (f, r) \<Rightarrow>
             if f \<in> set anc
             then Some (Inl \<lparr>error_text = ''inclusion of this file will lead to an infinite loop'', error_file = f, error_line = None\<rparr>)
             else let q = skip_semicolon (config_jump_to_nonspace r) in
               (case files f of
                  No_File msg \<Rightarrow> Some (Inl \<lparr>error_text = msg, error_file = f, error_line = None\<rparr>)
                | res \<Rightarrow>
                    (case config_load_file_contents f res of
                       None \<Rightarrow> None
                     | Some (Inl e) \<Rightarrow> Some (Inl e)
                     | Some (Inr content) \<Rightarrow> Some (Inr (f, content, q))))))"

text \<open>
  The loop over the settings of a group: \<open>root\<close> tells whether the group is the whole configuration, \<open>grp\<close>
  whether its type has been set.  The result: the pointer behind the group, its type, its settings and
  the overwritten line feeds.
\<close>

partial_function (option) config_parse_childs ::
  "(string \<Rightarrow> file_result) \<Rightarrow> bool \<Rightarrow> string \<Rightarrow> string list \<Rightarrow> string \<Rightarrow> nat \<Rightarrow> bool \<Rightarrow> config_setting_t list \<Rightarrow> string \<Rightarrow>
   (config_error + string \<times> bool \<times> config_setting_t list \<times> nat) option" where
  "config_parse_childs files root file anc text lost grp childs ptr =
     (if ptr = [] then Some (Inr (ptr, grp, childs, lost))
      else (case config_jump_to_nonspace ptr of
         [] \<Rightarrow> Some (Inr ([], True, childs, lost))
       | c # cs \<Rightarrow>
           if c = CHR ''}'' \<and> \<not> root then Some (Inr (skip_semicolon cs, True, childs, lost))
           else if c = CHR ''@'' then
             Option.bind (config_parse_command files file (file # anc) text lost cs) (\<lambda>r. case r of
                Inl e \<Rightarrow> Some (Inl e)
              | Inr (f, content, q) \<Rightarrow>
                  Option.bind (config_parse_childs files False f (file # anc) content 0 False [] content) (\<lambda>r. case r of
                     Inl e \<Rightarrow> Some (Inl e)
                   | Inr (t, g, inc, l) \<Rightarrow>
                       config_parse_childs files root file anc text lost True (childs @ [Setting None V_group f 0 inc]) q))
           else (case parse_name_part file text lost childs (c # cs) of
              Inl e \<Rightarrow> Some (Inl e)
            | Inr (name, line, lost, p) \<Rightarrow>
                if p \<noteq> [] \<and> hd p = CHR ''{'' then
                  Option.bind (config_parse_childs files False file (file # anc) text lost False [] (tl p)) (\<lambda>r. case r of
                     Inl e \<Rightarrow> Some (Inl e)
                   | Inr (t, g, sub, lost) \<Rightarrow>
                       config_parse_childs files root file anc text lost True
                         (childs @ [Setting (Some name) (if g then V_group else V_unset) file line sub])
                         (skip_semicolon (config_jump_to_nonspace t)))
                else (case parse_scalar file text lost p of
                   Inl e \<Rightarrow> Some (Inl e)
                 | Inr (v, t) \<Rightarrow>
                     config_parse_childs files root file anc text lost True
                       (childs @ [Setting (Some name) v file line []]) t))))"

declare config_parse_childs.simps [code]

definition config_read :: "(string \<Rightarrow> file_result) \<Rightarrow> string \<Rightarrow> file_result \<Rightarrow> (config_error + config_setting_t) option" where
  "config_read files filename f =
     Option.bind (config_load_file_contents filename f) (\<lambda>r. case r of
        Inl e \<Rightarrow> Some (Inl e)
      | Inr content \<Rightarrow>
          Option.bind (config_parse_childs files True filename [] content 0 False [] content) (\<lambda>r. case r of
             Inl e \<Rightarrow> Some (Inl e)
           | Inr (t, g, childs, lost) \<Rightarrow> Some (Inr (Setting None (if g then V_group else V_unset) filename 0 childs))))"

section \<open>The parser returns\<close>

named_theorems shorter

lemma dropWhile_shorter [shorter]: "length (dropWhile P t) \<le> length t"
  by (rule length_dropWhile_le)

lemma jump_shorter [shorter]: "length (config_jump_to_nonspace t) \<le> length t"
proof (induction t rule: config_jump_to_nonspace.induct)
  case (1 t)
  show ?case
  proof (cases t)
    case (Cons c cs)
    note IH = "1.IH"(1) [OF Cons] "1.IH"(2) [OF Cons] "1.IH"(3) [OF Cons]
    consider (line) "c = CHR ''#'' \<or> (c = CHR ''/'' \<and> cs \<noteq> [] \<and> hd cs = CHR ''/'')"
      | (block) "\<not> (c = CHR ''#'' \<or> (c = CHR ''/'' \<and> cs \<noteq> [] \<and> hd cs = CHR ''/''))" "c = CHR ''/'' \<and> cs \<noteq> [] \<and> hd cs = CHR ''*''"
      | (other) "\<not> (c = CHR ''#'' \<or> (c = CHR ''/'' \<and> cs \<noteq> [] \<and> hd cs = CHR ''/''))" "\<not> (c = CHR ''/'' \<and> cs \<noteq> [] \<and> hd cs = CHR ''*'')" by blast
    then show ?thesis
    proof cases
      case line
      then have e: "config_jump_to_nonspace t = (case dropWhile (\<lambda>x. x \<noteq> LF) t of [] \<Rightarrow> [] | x # r \<Rightarrow> config_jump_to_nonspace r)"
        by (subst config_jump_to_nonspace.simps) (simp only: Cons list.case if_True)
      show ?thesis
      proof (cases "dropWhile (\<lambda>x. x \<noteq> LF) t")
        case (Cons x r)
        then have "length r < length t" using dropWhile_shorter [of "\<lambda>x. x \<noteq> LF" t] by simp
        then show ?thesis using IH(1) [OF line Cons] e Cons by simp
      next
        case Nil
        then show ?thesis unfolding e Nil by simp
      qed
    next
      case block
      then have e: "config_jump_to_nonspace t = (case after_close t of None \<Rightarrow> [] | Some r \<Rightarrow> config_jump_to_nonspace r)"
        by (subst config_jump_to_nonspace.simps) (simp add: Cons)
      show ?thesis
      proof (cases "after_close t")
        case (Some r)
        then show ?thesis using IH(2) [OF block Some] e after_close_length [OF Some] by simp
      next
        case None
        then show ?thesis unfolding e None by simp
      qed
    next
      case other
      then have e: "config_jump_to_nonspace t = (if IS_SPACE c \<or> c = CR \<or> c = LF then config_jump_to_nonspace cs else t)"
        by (subst config_jump_to_nonspace.simps) (simp only: Cons list.case if_False)
      then show ?thesis using IH(3) [OF other] Cons by (simp split: if_splits)
    qed
  qed (simp add: config_jump_to_nonspace.simps)
qed

lemma skip_semicolon_shorter [shorter]: "length (skip_semicolon t) \<le> length t"
  by (simp add: skip_semicolon_def split: list.split)

lemma point_end_shorter [shorter]: "length (point_end P t) \<le> length t"
proof -
  have "length (dropWhile P r) \<le> length t" if "dropWhile P t = c # r" for c r
    using dropWhile_shorter [of P t] dropWhile_shorter [of P r] that by simp
  then show ?thesis using dropWhile_shorter [of P t] by (auto simp: point_end_def split: list.split)
qed

lemma exponent_end_shorter [shorter]: "length (exponent_end es t) \<le> length t"
proof (cases t)
  case (Cons e r)
  have "length (dropWhile IS_DIGIT d) \<le> length r" if "d = r \<or> d = tl r" for d
    using that dropWhile_shorter [of IS_DIGIT d] by (auto intro: order.trans)
  then show ?thesis by (auto simp: Cons exponent_end_def Let_def le_SucI split: list.splits)
qed (simp add: exponent_end_def)

lemma strtod_end_shorter [shorter]: "length (strtod_end t) \<le> length t"
proof -
  have e: "length (exponent_end es (point_end P r)) \<le> length r" for es P r
    by (rule order.trans [OF exponent_end_shorter point_end_shorter])
  have "strtod_end t = exponent_end {CHR ''e'', CHR ''E''} (point_end IS_DIGIT t) \<or>
    strtod_end t = exponent_end {CHR ''p'', CHR ''P''} (point_end (is_digit_of 16) (drop 2 t))"
    by (auto simp: strtod_end_def split: list.split)
  then show ?thesis using e [of "{CHR ''e'', CHR ''E''}" IS_DIGIT t] e [of "{CHR ''p'', CHR ''P''}" "is_digit_of 16" "drop 2 t"] by auto
qed

lemma strtoll_0_shorter: "length (snd (strtoll_0 t)) \<le> length t"
  using dropWhile_shorter le_SucI
  by (auto simp: strtoll_0_def Let_def intro!: order.trans [OF dropWhile_shorter] split: list.split)

lemma config_parse_int_shorter: "length (snd (config_parse_int t)) \<le> length t"
  using strtoll_0_shorter [of t] strtod_end_shorter [of t]
  by (auto simp: config_parse_int_def Let_def intro: order.trans [OF jump_shorter] split: prod.split)

lemma config_parse_string_shorter: "config_parse_string file text lost t = Inr (s, r) \<Longrightarrow> length r < length t"
  using dropWhile_shorter [of "\<lambda>c. c \<noteq> CHR 0x22" t] by (auto simp: config_parse_string_def split: list.splits)

lemma skip_jump_shorter [shorter]: "length (skip_semicolon (config_jump_to_nonspace t)) \<le> length t"
  by (rule order.trans [OF skip_semicolon_shorter jump_shorter])

lemma parse_scalar_shorter:
  assumes "parse_scalar file text lost p = Inr (v, t)"
  shows "length t \<le> length p"
proof -
  consider (str) s r where "config_parse_string file text lost (tl p) = Inr (s, r)" "t = skip_semicolon (config_jump_to_nonspace r)"
    | (int) "t = skip_semicolon (snd (config_parse_int p))" | (word) n where "t = skip_semicolon (config_jump_to_nonspace (drop n p))"
    using assms by (auto simp: parse_scalar_def split: if_splits sum.splits prod.splits)
  then show ?thesis
  proof cases
    case str
    then show ?thesis using config_parse_string_shorter [OF str(1)] skip_jump_shorter [of r] by simp
  next
    case int
    then show ?thesis using skip_semicolon_shorter [of "snd (config_parse_int p)"] config_parse_int_shorter [of p] by simp
  next
    case word
    then show ?thesis using skip_jump_shorter [of "drop n p"] by simp
  qed
qed

lemma parse_name_part_shorter:
  assumes "parse_name_part file text lost sib t = Inr (name, line, lost', p)"
  shows "length p < length t"
proof -
  let ?d = "dropWhile CONFIG_VALID_NAME_SYMBOL t" and ?q = "config_jump_to_nonspace (dropWhile CONFIG_VALID_NAME_SYMBOL t)"
  have n: "takeWhile CONFIG_VALID_NAME_SYMBOL t \<noteq> []" "p = config_jump_to_nonspace (tl ?q)"
    using assms by (auto simp: parse_name_part_def config_parse_setting_name_def Let_def split: sum.splits prod.splits if_splits)
  have "length (takeWhile CONFIG_VALID_NAME_SYMBOL t @ ?d) = length t" by simp
  then have "length ?d < length t" using n(1) by (cases "takeWhile CONFIG_VALID_NAME_SYMBOL t") auto
  then show ?thesis using n(2) jump_shorter [of ?d] jump_shorter [of "tl ?q"] by simp
qed

lemma config_parse_command_ok:
  assumes "\<forall>f. files f \<noteq> Content []"
  shows "\<exists>r. config_parse_command files file anc text lost p = Some r \<and>
     (\<forall>f content q. r = Inr (f, content, q) \<longrightarrow> length q \<le> length p \<and> f \<notin> set anc \<and> files f = Content content)"
proof -
  let ?p = "config_jump_to_nonspace (drop 7 p)"
  have l: "length (tl ?p) \<le> length p" using jump_shorter [of "drop 7 p"] by simp
  have c: "config_load_file_contents f (files f) \<noteq> None" for f
    using assms by (auto simp: config_load_file_contents_def split: file_result.splits list.splits option.splits)
  have d: "files f = Content content" if "config_load_file_contents f (files f) = Some (Inr content)" for f content
    using that by (auto simp: config_load_file_contents_def split: file_result.splits list.splits option.splits)
  show ?thesis
  proof (cases "starts_with_word ''include'' p \<and> ?p \<noteq> [] \<and> hd ?p = CHR 0x22")
    case True
    show ?thesis
    proof (cases "config_parse_string file text lost (tl ?p)")
      case (Inl e)
      then show ?thesis using True by (simp add: config_parse_command_def)
    next
      case (Inr fr)
      obtain f r where fr: "fr = (f, r)" by (cases fr)
      have "length (skip_semicolon (config_jump_to_nonspace r)) \<le> length p"
        using config_parse_string_shorter [OF Inr [unfolded fr]] l skip_jump_shorter [of r] by simp
      define Q where "Q = skip_semicolon (config_jump_to_nonspace r)"
      have Q: "length Q \<le> length p" unfolding Q_def by fact
      have e: "config_parse_command files file anc text lost p =
        (if f \<in> set anc then Some (Inl \<lparr>error_text = ''inclusion of this file will lead to an infinite loop'', error_file = f, error_line = None\<rparr>)
         else (case files f of No_File msg \<Rightarrow> Some (Inl \<lparr>error_text = msg, error_file = f, error_line = None\<rparr>)
            | res \<Rightarrow> (case config_load_file_contents f res of None \<Rightarrow> None | Some (Inl e) \<Rightarrow> Some (Inl e)
                | Some (Inr content) \<Rightarrow> Some (Inr (f, content, Q)))))"
        unfolding Q_def using True Inr fr by (simp add: config_parse_command_def Let_def)
      show ?thesis
      proof (cases "f \<in> set anc \<or> (\<exists>msg. files f = No_File msg)")
        case False
        obtain x where x: "config_load_file_contents f (files f) = Some x" using c [of f] by auto
        have "config_parse_command files file anc text lost p = Some (case x of Inl e \<Rightarrow> Inl e | Inr content \<Rightarrow> Inr (f, content, Q))"
          unfolding e using False x by (cases "files f"; cases x) simp_all
        then show ?thesis using False Q d [of f] x by (cases x) simp_all
      next
        case True
        then show ?thesis unfolding e by auto
      qed
    qed
  qed (auto simp: config_parse_command_def Let_def)
qed

definition parse_returns :: "(config_error + string \<times> bool \<times> config_setting_t list \<times> nat) option \<Rightarrow> string \<Rightarrow> bool" where
  "parse_returns r ptr \<longleftrightarrow> (\<exists>x. r = Some x \<and> (\<forall>t g cs l. x = Inr (t, g, cs, l) \<longrightarrow> length t \<le> length ptr))"

lemma parse_returns_Some:
  "parse_returns (Some (Inl e)) ptr" "parse_returns (Some (Inr (t, g, cs, l))) ptr \<longleftrightarrow> length t \<le> length ptr"
  by (auto simp: parse_returns_def)

lemma parse_returns_mono: "parse_returns r p \<Longrightarrow> length p \<le> length q \<Longrightarrow> parse_returns r q"
  by (fastforce simp: parse_returns_def)

lemma parse_returns_bind:
  assumes "parse_returns r p" "\<And>t g cs l. length t \<le> length p \<Longrightarrow> parse_returns (f (t, g, cs, l)) q"
  shows "parse_returns (Option.bind r (\<lambda>r. case r of Inl e \<Rightarrow> Some (Inl e) | Inr x \<Rightarrow> f x)) q"
proof -
  obtain x where x: "r = Some x" "\<forall>t g cs l. x = Inr (t, g, cs, l) \<longrightarrow> length t \<le> length p" using assms(1) by (auto simp: parse_returns_def)
  show ?thesis
  proof (cases x)
    case (Inl e)
    then show ?thesis using x by (simp add: parse_returns_Some)
  next
    case (Inr y)
    then show ?thesis using x assms(2) by (cases y) auto
  qed
qed

lemma config_parse_childs_returns:
  assumes fin: "finite {f. \<exists>c. files f = Content c}" and ne: "\<forall>f. files f \<noteq> Content []"
  shows "parse_returns (config_parse_childs files root fl anc tx lost grp childs ptr) ptr"
proof (induction "(card ({f. \<exists>c. files f = Content c} - set (fl # anc)), length ptr)"
    arbitrary: root fl anc tx lost grp childs ptr rule: wf_induct_rule [OF wf_lex_prod [OF wf_less_than wf_less_than]])
  case (1 fl anc ptr root tx lost grp childs)
  let ?F = "{f. \<exists>c. files f = Content c}"
  have IH: "parse_returns (config_parse_childs files r fv anc' x l g cs p) p"
    if "card (?F - set (fv # anc')) < card (?F - set (fl # anc)) \<or> set (fv # anc') = set (fl # anc) \<and> length p < length ptr"
    for r fv anc' x l g cs p
    using that by (intro "1.hyps") auto
  show ?case
  proof (cases "config_jump_to_nonspace ptr")
    case Nil
    then show ?thesis by (subst config_parse_childs.simps) (simp add: parse_returns_Some)
  next
    case (Cons c cs)
    have len: "Suc (length cs) \<le> length ptr" using jump_shorter [of ptr] Cons by simp
    then have ne_ptr: "ptr \<noteq> []" by auto
    consider (close) "c = CHR ''}'' \<and> \<not> root" | (inc) "\<not> (c = CHR ''}'' \<and> \<not> root)" "c = CHR ''@''"
      | (set) "\<not> (c = CHR ''}'' \<and> \<not> root)" "c \<noteq> CHR ''@''" by blast
    then show ?thesis
    proof cases
      case close
      then show ?thesis using Cons ne_ptr skip_semicolon_shorter [of cs] len
        by (subst config_parse_childs.simps) (simp add: parse_returns_Some)
    next
      case inc
      obtain r where r: "config_parse_command files fl (fl # anc) tx lost cs = Some r"
        "\<forall>f content q. r = Inr (f, content, q) \<longrightarrow> length q \<le> length cs \<and> f \<notin> set (fl # anc) \<and> files f = Content content"
        using config_parse_command_ok [OF ne] by blast
      show ?thesis
      proof (cases r)
        case (Inl e)
        then show ?thesis using Cons ne_ptr inc r(1) by (subst config_parse_childs.simps) (simp add: parse_returns_Some)
      next
        case (Inr x)
        obtain f content q where x: "r = Inr (f, content, q)" using Inr by (cases x) auto
        then have q: "length q < length ptr" "f \<notin> set (fl # anc)" "f \<in> ?F" using r(2) len by auto
        have "card (?F - set (f # fl # anc)) < card (?F - set (fl # anc))"
          using q(2,3) fin by (intro psubset_card_mono) auto
        then have i: "parse_returns (config_parse_childs files False f (fl # anc) content 0 False [] content) content" by (intro IH) simp
        have "parse_returns (config_parse_childs files root fl anc tx lost True cs' q) ptr" for cs'
          using q(1) by (intro parse_returns_mono [OF IH]) simp_all
        then show ?thesis using Cons ne_ptr inc r(1) x
          by (subst config_parse_childs.simps) (auto intro!: parse_returns_bind [OF i] split: prod.split)
      qed
    next
      case set
      show ?thesis
      proof (cases "parse_name_part fl tx lost childs (c # cs)")
        case (Inl e)
        then show ?thesis using Cons ne_ptr set by (subst config_parse_childs.simps) (auto simp: parse_returns_Some)
      next
        case (Inr x)
        obtain name line lost' p where x: "parse_name_part fl tx lost childs (c # cs) = Inr (name, line, lost', p)" using Inr by (cases x) auto
        have p: "length p < length ptr" using parse_name_part_shorter [OF x] len by simp
        have go: "parse_returns (config_parse_childs files root fl anc tx l True cs' t) ptr" if "length t \<le> length p" for l cs' t
          using p that by (intro parse_returns_mono [OF IH]) simp_all
        show ?thesis
        proof (cases "p \<noteq> [] \<and> hd p = CHR ''{''")
          case True
          have i: "parse_returns (config_parse_childs files False fl (fl # anc) tx lost' False [] (tl p)) (tl p)"
            using p by (intro IH) auto
          have "length (skip_semicolon (config_jump_to_nonspace t)) \<le> length p" if "length t \<le> length (tl p)" for t
            using skip_jump_shorter [of t] that by simp
          then show ?thesis using Cons ne_ptr set x True go
            by (subst config_parse_childs.simps) (auto intro!: parse_returns_bind [OF i] split: prod.split)
        next
          case False
          then show ?thesis using Cons ne_ptr set x go parse_scalar_shorter
            by (subst config_parse_childs.simps) (auto simp: parse_returns_Some split: sum.split)
        qed
      qed
    qed
  qed
qed


definition file_contents_ok :: "(string \<Rightarrow> file_result) \<Rightarrow> bool" where
  "file_contents_ok files \<longleftrightarrow> finite {f. \<exists>c. files f = Content c} \<and> (\<forall>f. files f \<noteq> Content [])"

lemma config_load_ok: "r \<noteq> Content [] \<Longrightarrow> config_load_file_contents f r \<noteq> None"
  by (auto simp: config_load_file_contents_def split: file_result.splits list.splits option.splits)

lemma config_read_returns_law:
  assumes "file_contents_ok files" "f \<noteq> Content []"
  shows "\<exists>r. config_read files filename f = Some r"
proof -
  obtain x where x: "config_load_file_contents filename f = Some x" using config_load_ok [OF assms(2)] by blast
  show ?thesis
  proof (cases x)
    case (Inl e)
    then show ?thesis using x by (simp add: config_read_def)
  next
    case (Inr content)
    have "parse_returns (config_parse_childs files True filename [] content 0 False [] content) content"
      using assms(1) by (intro config_parse_childs_returns) (simp_all add: file_contents_ok_def)
    then obtain y where y: "config_parse_childs files True filename [] content 0 False [] content = Some y"
      by (auto simp: parse_returns_def)
    show ?thesis using x Inr y by (cases y) (auto simp: config_read_def split: prod.split)
  qed
qed

section \<open>The settings that are read\<close>

text \<open>
  A group of settings as every reader may rely on it: the names of its settings are non-empty, made of the
  characters of names, and pairwise different; only groups have settings, an included file is a group without
  a name, and an integer lies in the range of its type.
\<close>

definition value_ok :: "config_value \<Rightarrow> bool" where
  "value_ok v \<longleftrightarrow> (case v of V_int i \<Rightarrow> 0 \<le> i \<and> i < 2 ^ 31 | V_int64 i \<Rightarrow> 2 ^ 31 \<le> i \<and> i < 2 ^ 63 | V_string s \<Rightarrow> CHR 0x22 \<notin> set s | _ \<Rightarrow> True)"

fun setting_ok :: "config_setting_t \<Rightarrow> bool" where
  "setting_ok (Setting n v f l cs) \<longleftrightarrow>
     (case n of None \<Rightarrow> v = V_group | Some name \<Rightarrow> name \<noteq> [] \<and> list_all CONFIG_VALID_NAME_SYMBOL name) \<and>
     value_ok v \<and> (v \<noteq> V_group \<longrightarrow> v \<noteq> V_unset \<longrightarrow> cs = []) \<and>
     distinct (map the (filter (\<lambda>x. x \<noteq> None) (map st_name cs))) \<and> list_all setting_ok cs"

definition group_ok :: "config_setting_t list \<Rightarrow> bool" where
  "group_ok cs \<longleftrightarrow> distinct (map the (filter (\<lambda>x. x \<noteq> None) (map st_name cs))) \<and> list_all setting_ok cs"

lemma setting_ok_iff:
  "setting_ok (Setting n v f l cs) \<longleftrightarrow>
     (case n of None \<Rightarrow> v = V_group | Some name \<Rightarrow> name \<noteq> [] \<and> list_all CONFIG_VALID_NAME_SYMBOL name) \<and>
     value_ok v \<and> (v \<noteq> V_group \<longrightarrow> v \<noteq> V_unset \<longrightarrow> cs = []) \<and> group_ok cs"
  by (simp add: group_ok_def)

lemma group_ok_Nil [simp]: "group_ok []"
  by (simp add: group_ok_def)

lemma find_None_names:
  "config_find_child_by_name childs name = None \<longleftrightarrow> name \<notin> set (map the (filter (\<lambda>x. x \<noteq> None) (map st_name childs)))"
  by (induction childs) (auto simp: config_find_child_by_name_def named_def)

lemma group_ok_snoc:
  "group_ok (cs @ [s]) \<longleftrightarrow> group_ok cs \<and> setting_ok s \<and> (\<forall>n. st_name s = Some n \<longrightarrow> config_find_child_by_name cs n = None)"
  by (cases "st_name s") (auto simp: group_ok_def find_None_names)

lemma parse_name_part_name:
  assumes "parse_name_part fl tx lost childs ptr = Inr (name, line, lost', p)"
  shows "name \<noteq> [] \<and> list_all CONFIG_VALID_NAME_SYMBOL name \<and> config_find_child_by_name childs name = None"
  using assms set_takeWhileD
  by (fastforce simp: parse_name_part_def config_parse_setting_name_def Let_def list_all_iff split: if_splits sum.splits)

lemma strtoll_0_range: "strtoll_0 t = (v, r) \<Longrightarrow> 0 \<le> v \<and> v < 2 ^ 63"
  by (auto simp: strtoll_0_def Let_def split: prod.splits)

lemma parse_int_ok: "config_parse_int t = (v, r) \<Longrightarrow> value_ok v \<and> v \<noteq> V_group"
  using strtoll_0_range by (fastforce simp: config_parse_int_def Let_def value_ok_def split: prod.splits if_splits)

lemma parse_scalar_ok:
  assumes "parse_scalar fl tx lost p = Inr (v, t)"
  shows "value_ok v \<and> v \<noteq> V_group"
  using assms parse_int_ok set_takeWhileD
  by (fastforce simp: parse_scalar_def value_ok_def config_parse_string_def split: if_splits sum.splits prod.splits list.splits)


declare setting_ok.simps [simp del]

definition gives_ok :: "(config_error + string \<times> bool \<times> config_setting_t list \<times> nat) option \<Rightarrow> bool" where
  "gives_ok r \<longleftrightarrow> (\<forall>t g cs l. r = Some (Inr (t, g, cs, l)) \<longrightarrow> group_ok cs)"

lemma gives_ok_simps [simp]: "gives_ok None" "gives_ok (Some (Inl e))" "gives_ok (Some (Inr (t, g, cs, l))) \<longleftrightarrow> group_ok cs"
  by (auto simp: gives_ok_def)

lemma gives_ok_bind:
  assumes "gives_ok r" "\<And>t g cs l. group_ok cs \<Longrightarrow> gives_ok (f (t, g, cs, l))"
  shows "gives_ok (Option.bind r (\<lambda>r. case r of Inl e \<Rightarrow> Some (Inl e) | Inr x \<Rightarrow> f x))"
proof (cases r)
  case (Some x)
  then show ?thesis using assms by (cases x) auto
qed simp

lemma gives_ok_bind_any:
  fixes f :: "string \<times> string \<times> string \<Rightarrow> _"
  assumes "\<And>x. gives_ok (f x)"
  shows "gives_ok (Option.bind r (\<lambda>r. case r of Inl e \<Rightarrow> Some (Inl e) | Inr x \<Rightarrow> f x))"
proof (cases r)
  case (Some x)
  then show ?thesis using assms by (cases x) auto
qed simp

lemma gives_ok_case: "(\<And>e. s = Inl e \<Longrightarrow> gives_ok (f e)) \<Longrightarrow> (\<And>x. s = Inr x \<Longrightarrow> gives_ok (g x)) \<Longrightarrow> gives_ok (case s of Inl e \<Rightarrow> f e | Inr x \<Rightarrow> g x)"
  by (cases s) auto

lemma config_parse_childs_group_ok:
  assumes "group_ok childs"
  shows "gives_ok (config_parse_childs files root fl anc tx lost grp childs ptr)"
proof (cases "config_parse_childs files root fl anc tx lost grp childs ptr")
  case (Some y)
  let ?P = "\<lambda>files root fl anc tx lost grp childs ptr y. group_ok childs \<longrightarrow> gives_ok (Some y)"
  have "?P files root fl anc tx lost grp childs ptr y"
  proof (rule config_parse_childs.raw_induct [where P = ?P, OF _ Some], goal_cases)
    case (1 rec files root fl anc tx lost grp childs ptr y)
    have IH: "gives_ok (rec files root fl anc tx lost grp childs ptr)" if "group_ok childs"
      for files root fl anc tx lost grp childs ptr
      using 1(1) that by (cases "rec files root fl anc tx lost grp childs ptr") auto
    show ?case
    proof
      assume a: "group_ok childs"
      show "gives_ok (Some y)" unfolding 1(2) [symmetric]
        by (auto intro!: gives_ok_bind gives_ok_bind_any gives_ok_case IH a
              dest!: parse_scalar_ok parse_name_part_name simp: group_ok_snoc setting_ok_iff value_ok_def split: list.split)
    qed
  qed
  then show ?thesis using assms Some by simp
qed simp


section \<open>Reading back what was written\<close>

definition print_value :: "config_value \<Rightarrow> string" where
  "print_value v =
     (case v of
        V_string s \<Rightarrow> [CHR 0x22] @ s @ [CHR 0x22]
      | V_bool b \<Rightarrow> (if b then ''true'' else ''false'')
      | V_int i \<Rightarrow> numeral_of 10 (nat i)
      | V_int64 i \<Rightarrow> numeral_of 10 (nat i)
      | _ \<Rightarrow> [])"

fun print_setting :: "config_setting_t \<Rightarrow> string" where
  "print_setting (Setting n v f l cs) =
     [LF] @ (case n of None \<Rightarrow> [] | Some name \<Rightarrow> name) @ '': '' @
     (if v = V_group then ''{'' @ concat (map print_setting cs) @ ''}'' else print_value v) @ '';''"

text \<open>The settings a configuration file can express directly, without inclusion and floating point numbers.\<close>

fun printable :: "config_setting_t \<Rightarrow> bool" where
  "printable (Setting n v f l cs) \<longleftrightarrow>
     n \<noteq> None \<and> (case v of V_unset \<Rightarrow> False | V_float s \<Rightarrow> False | V_string s \<Rightarrow> list_all CONFIG_VALID_SYMBOL s | _ \<Rightarrow> True) \<and>
     list_all printable cs"

text \<open>A setting without the place it was read from.\<close>

fun erase :: "config_setting_t \<Rightarrow> config_setting_t" where
  "erase (Setting n v f l cs) = Setting n v [] 0 (map erase cs)"

lemma jump_stays:
  assumes "c \<noteq> CHR ''#''" "c \<noteq> CHR ''/''" "\<not> IS_SPACE c" "c \<noteq> CR" "c \<noteq> LF"
  shows "config_jump_to_nonspace (c # t) = c # t"
  using assms by (subst config_jump_to_nonspace.simps) simp

lemma jump_space: "c = CHR '' '' \<or> c = LF \<Longrightarrow> config_jump_to_nonspace (c # t) = config_jump_to_nonspace t"
  by (subst config_jump_to_nonspace.simps) (auto simp: IS_SPACE_def)

lemma jump_nil [simp]: "config_jump_to_nonspace [] = []"
  by (subst config_jump_to_nonspace.simps) simp

lemma name_symbol_not: "CONFIG_VALID_NAME_SYMBOL c \<Longrightarrow> c \<notin> set ''#/@}:={; ''" "CONFIG_VALID_NAME_SYMBOL c \<Longrightarrow> \<not> IS_SPACE c \<and> c \<noteq> CR \<and> c \<noteq> LF"
  by (auto simp: CONFIG_VALID_NAME_SYMBOL_def IS_LOWER_def IS_UPPER_def IS_DIGIT_def IS_SPACE_def)

lemma takeWhile_name:
  assumes "list_all P name" "\<not> P c"
  shows "takeWhile P (name @ c # t) = name" "dropWhile P (name @ c # t) = c # t"
  using assms by (auto simp: takeWhile_append takeWhile_tail list_all_iff dropWhile_append)

lemma is_digit_of_10: "is_digit_of 10 c \<longleftrightarrow> IS_DIGIT c"
  by (auto simp: is_digit_of_def hex_digit_value_def IS_DIGIT_def)

lemma base_value_10: "list_all IS_DIGIT ds \<Longrightarrow> base_value 10 acc ds = digits_value acc ds"
  by (induction ds arbitrary: acc) (auto simp: hex_digit_value_def)

lemma numeral_of_10_first: "0 < n \<Longrightarrow> hd (numeral_of 10 n) \<noteq> CHR ''0''"
proof (induction n rule: less_induct)
  case (less n)
  show ?case
  proof (cases "n < 10")
    case True
    then have "ord (digit_char n) = 48 + n" using digit_char_digit by blast
    then have "digit_char n \<noteq> CHR ''0''" using less.prems by (auto simp del: of_char_of)
    then show ?thesis using True by (simp add: numeral_of.simps [of 10 n])
  next
    case False
    then show ?thesis using less.IH [of "n div 10"] by (simp add: numeral_of.simps [of 10 n])
  qed
qed

lemma strtoll_0_numeral:
  assumes "n < 2 ^ 63" "\<not> IS_DIGIT c" "c \<noteq> CHR ''x''" "c \<noteq> CHR ''X''"
  shows "strtoll_0 (numeral_of 10 n @ c # t) = (int n, c # t)"
proof (cases "n = 0")
  case True
  have "\<not> is_digit_of 8 c" using assms(2) by (auto simp: is_digit_of_def hex_digit_value_def)
  moreover have "is_digit_of 8 (CHR ''0'')" "hex_digit_value (CHR ''0'') = Some 0" by (auto simp: is_digit_of_def hex_digit_value_def IS_DIGIT_def)
  ultimately show ?thesis using True assms
    by (cases t) (auto simp: strtoll_0_def numeral_of.simps digit_char_def x_to_str_chartable_def)
next
  case False
  obtain d ds where d: "numeral_of 10 n = d # ds" by (cases "numeral_of 10 n") auto
  have dig: "list_all IS_DIGIT (d # ds)" "digits_value 0 (d # ds) = n" using numeral_of_10 [of n] d by (auto simp: list_all_iff)
  have nz: "d \<noteq> CHR ''0''" using numeral_of_10_first [of n] False d by simp
  have "strtoll_0 (numeral_of 10 n @ c # t) =
    (min (2 ^ 63 - 1) (int (base_value 10 0 (takeWhile IS_DIGIT ((d # ds) @ c # t)))), dropWhile IS_DIGIT ((d # ds) @ c # t))"
    unfolding d strtoll_0_def using nz by (auto simp: is_digit_of_10 [abs_def] split: list.split)
  also have "\<dots> = (min (2 ^ 63 - 1) (int n), c # t)" unfolding takeWhile_name [OF dig(1) assms(2)] base_value_10 [OF dig(1)] dig(2) ..
  finally show ?thesis using assms(1) by simp
qed


lemma parse_scalar_print:
  assumes "value_ok v" "v \<noteq> V_group" "v \<noteq> V_unset" "\<And>s. v \<noteq> V_float s"
  shows "parse_scalar fl tx lost (print_value v @ '';'' @ rest) = Inr (v, rest) \<and> (print_value v @ '';'' @ rest \<noteq> [] \<and> hd (print_value v @ '';'' @ rest) \<noteq> CHR ''{'')"
proof -
  have js: "skip_semicolon (config_jump_to_nonspace ('';'' @ rest)) = rest"
    by (simp add: jump_stays IS_SPACE_def skip_semicolon_def)
  have num: "parse_scalar fl tx lost (numeral_of 10 n @ '';'' @ rest) = Inr (if int n > 2 ^ 31 - 1 then V_int64 (int n) else V_int (int n), rest)
      \<and> hd (numeral_of 10 n) \<noteq> CHR ''{''" if "n < 2 ^ 63" for n
  proof -
    obtain d ds where d: "numeral_of 10 n = d # ds" by (cases "numeral_of 10 n") auto
    have dig: "IS_DIGIT d" using numeral_of_10 [of n] d by auto
    then have dn: "d \<noteq> CHR 0x22" "d \<noteq> CHR ''{''" by (auto simp: IS_DIGIT_def)
    have st: "strtoll_0 (numeral_of 10 n @ '';'' @ rest) = (int n, '';'' @ rest)"
      using strtoll_0_numeral [of n "CHR '';''" rest] that by (simp add: IS_DIGIT_def)
    have "config_parse_int (numeral_of 10 n @ '';'' @ rest) = (if int n > 2 ^ 31 - 1 then V_int64 (int n) else V_int (int n), config_jump_to_nonspace ('';'' @ rest))"
      unfolding config_parse_int_def st by simp
    moreover have "parse_scalar fl tx lost (numeral_of 10 n @ '';'' @ rest) =
        (case config_parse_int (numeral_of 10 n @ '';'' @ rest) of (v, r) \<Rightarrow> Inr (v, skip_semicolon r))"
      using d dig dn by (simp add: parse_scalar_def)
    ultimately show ?thesis using js d dn by simp
  qed
  show ?thesis
  proof (cases v)
    case (V_string s)
    have "list_all (\<lambda>c. c \<noteq> CHR 0x22) s" using assms(1) V_string by (auto simp: value_ok_def list_all_iff)
    note tw = takeWhile_name [OF this, of "CHR 0x22" "'';'' @ rest"]
    have "config_parse_string fl tx lost (s @ CHR 0x22 # '';'' @ rest) = Inr (s, '';'' @ rest)"
      unfolding config_parse_string_def using tw by simp
    then show ?thesis using js V_string by (simp add: parse_scalar_def print_value_def)
  next
    case (V_bool b)
    then show ?thesis using js
      by (cases b) (simp_all add: parse_scalar_def print_value_def IS_DIGIT_def starts_with_word_def TO_LOWER_def IS_UPPER_def)
  next
    case (V_int i)
    then show ?thesis using num [of "nat i"] assms(1) by (auto simp: value_ok_def print_value_def nat_less_iff)
  next
    case (V_int64 i)
    then show ?thesis using num [of "nat i"] assms(1) by (auto simp: value_ok_def print_value_def nat_less_iff)
  qed (use assms in auto)
qed

lemma parse_name_part_print:
  assumes "name \<noteq> []" "list_all CONFIG_VALID_NAME_SYMBOL name" "config_find_child_by_name childs name = None"
  shows "\<exists>line. parse_name_part fl tx lost childs (name @ '': '' @ r) = Inr (name, line, lost, config_jump_to_nonspace r)"
proof -
  have "\<not> CONFIG_VALID_NAME_SYMBOL (CHR '':'')" by (auto dest: name_symbol_not)
  note tw = takeWhile_name [OF assms(2) this, of "'' '' @ r"]
  have "config_jump_to_nonspace ('': '' @ r) = '': '' @ r" by (simp add: jump_stays IS_SPACE_def)
  then show ?thesis using assms tw by (simp add: parse_name_part_def config_parse_setting_name_def Let_def jump_space)
qed


text \<open>Behind a setting, what follows must not begin with another semicolon.\<close>

definition no_semicolon :: "string \<Rightarrow> bool" where
  "no_semicolon t \<longleftrightarrow> skip_semicolon (config_jump_to_nonspace t) = config_jump_to_nonspace t"

lemma jump_idem: "config_jump_to_nonspace (config_jump_to_nonspace t) = config_jump_to_nonspace t"
proof (induction t rule: config_jump_to_nonspace.induct)
  case (1 t)
  show ?case
  proof (cases t)
    case (Cons c cs)
    show ?thesis using "1.IH" [OF Cons] Cons
      by (subst (2 3) config_jump_to_nonspace.simps) (auto split: list.split option.split simp: config_jump_to_nonspace.simps [of "c # cs"])
  qed simp
qed

lemma parse_childs_jump:
  "config_parse_childs files root fl anc tx lost True childs (config_jump_to_nonspace t) = config_parse_childs files root fl anc tx lost True childs t"
proof (cases "config_jump_to_nonspace t")
  case Nil
  then show ?thesis by (subst (1 2) config_parse_childs.simps) simp
next
  case (Cons c cs)
  then have j: "t \<noteq> []" "config_jump_to_nonspace (c # cs) = c # cs" using jump_idem [of t] by auto
  show ?thesis unfolding Cons
    by (subst (1 2) config_parse_childs.simps) (simp only: j Cons list.distinct(1) list.distinct(2) if_False list.case)
qed


definition reads_setting :: "config_setting_t \<Rightarrow> bool" where
  "reads_setting s \<longleftrightarrow> (\<forall>files root fl anc tx lost grp childs rest.
     config_find_child_by_name childs (the (st_name s)) = None \<longrightarrow> no_semicolon rest \<longrightarrow>
     (\<exists>s' lost'. erase s' = erase s \<and>
        config_parse_childs files root fl anc tx lost grp childs (print_setting s @ rest) =
        config_parse_childs files root fl anc tx lost' True (childs @ [s']) rest))"

lemma print_setting_first:
  assumes "setting_ok s" "printable s"
  obtains c r where "print_setting s = LF # c # r" "CONFIG_VALID_NAME_SYMBOL c"
proof (cases s)
  case (Setting n v f l cs)
  then obtain name where "n = Some name" "name \<noteq> []" "list_all CONFIG_VALID_NAME_SYMBOL name"
    using assms by (auto simp: setting_ok_iff)
  then show ?thesis using that Setting by (cases name) auto
qed

lemma no_semicolon_print:
  assumes "list_all setting_ok ts" "list_all printable ts" "no_semicolon rest"
  shows "no_semicolon (concat (map print_setting ts) @ rest)"
proof (cases ts)
  case (Cons s ss)
  obtain c r where c: "print_setting s = LF # c # r" "CONFIG_VALID_NAME_SYMBOL c"
    using print_setting_first [of s] assms(1,2) Cons by auto
  have "config_jump_to_nonspace (c # u) = c # u" for u using name_symbol_not [OF c(2)] by (intro jump_stays) auto
  then show ?thesis using Cons c(1) name_symbol_not [OF c(2)]
    by (simp add: no_semicolon_def jump_space skip_semicolon_def)
qed (use assms in simp)

lemma erase_name: "erase s' = erase s \<Longrightarrow> st_name s' = st_name s"
  by (cases s; cases s') simp

lemma reads_settings:
  assumes "list_all reads_setting ts" "list_all setting_ok ts" "list_all printable ts" "no_semicolon rest"
    and "distinct (map the (filter (\<lambda>x. x \<noteq> None) (map st_name (childs @ ts))))"
  shows "\<exists>ts' lost'. map erase ts' = map erase ts \<and>
    config_parse_childs files root fl anc tx lost grp childs (concat (map print_setting ts) @ rest) =
    config_parse_childs files root fl anc tx lost' (grp \<or> ts \<noteq> []) (childs @ ts') rest"
  using assms
proof (induction ts arbitrary: childs lost grp)
  case Nil
  then show ?case by (intro exI [of _ "[]"] exI [of _ lost]) simp
next
  case (Cons s ts)
  have n: "st_name s \<noteq> None" using Cons.prems(3) by (cases s) simp
  then have "config_find_child_by_name childs (the (st_name s)) = None" using Cons.prems(5) unfolding find_None_names by auto
  moreover have "no_semicolon (concat (map print_setting ts) @ rest)" using Cons.prems by (intro no_semicolon_print) auto
  ultimately obtain s' lost1 where s': "erase s' = erase s"
      "config_parse_childs files root fl anc tx lost grp childs (print_setting s @ concat (map print_setting ts) @ rest) =
       config_parse_childs files root fl anc tx lost1 True (childs @ [s']) (concat (map print_setting ts) @ rest)"
    using Cons.prems(1) unfolding reads_setting_def list.pred_inject by blast
  have "distinct (map the (filter (\<lambda>x. x \<noteq> None) (map st_name ((childs @ [s']) @ ts))))"
    using Cons.prems(5) erase_name [OF s'(1)] by simp
  then obtain ts' lost' where "map erase ts' = map erase ts"
      "config_parse_childs files root fl anc tx lost1 True (childs @ [s']) (concat (map print_setting ts) @ rest) =
       config_parse_childs files root fl anc tx lost' True ((childs @ [s']) @ ts') rest"
    using Cons.IH [of "childs @ [s']" lost1 True] Cons.prems by auto
  then show ?case using s' by (intro exI [of _ "s' # ts'"] exI [of _ lost']) simp
qed

lemma parse_childs_scalar:
  assumes "ptr \<noteq> []" "config_jump_to_nonspace ptr = u" "u \<noteq> []" "hd u \<noteq> CHR ''}''" "hd u \<noteq> CHR ''@''"
    and "parse_name_part fl tx lost childs u = Inr (name, line, lost', p)" "hd p \<noteq> CHR ''{''" "parse_scalar fl tx lost' p = Inr (v, t)"
  shows "config_parse_childs files root fl anc tx lost grp childs ptr =
    config_parse_childs files root fl anc tx lost' True (childs @ [Setting (Some name) v fl line []]) t"
  using assms by (cases u) (simp_all add: config_parse_childs.simps [of _ _ _ _ _ _ _ _ ptr])

lemma parse_childs_group:
  assumes "ptr \<noteq> []" "config_jump_to_nonspace ptr = u" "u \<noteq> []" "hd u \<noteq> CHR ''}''" "hd u \<noteq> CHR ''@''"
    and "parse_name_part fl tx lost childs u = Inr (name, line, lost', CHR ''{'' # p)"
    and "config_parse_childs files False fl (fl # anc) tx lost' False [] p = Some (Inr (t, True, sub, lost''))"
  shows "config_parse_childs files root fl anc tx lost grp childs ptr =
    config_parse_childs files root fl anc tx lost'' True (childs @ [Setting (Some name) V_group fl line sub])
      (skip_semicolon (config_jump_to_nonspace t))"
  using assms by (cases u) (simp_all add: config_parse_childs.simps [of _ _ _ _ _ _ _ _ ptr])

lemma jump_print_value:
  assumes "v \<noteq> V_group" "v \<noteq> V_unset" "\<And>s. v \<noteq> V_float s"
  shows "config_jump_to_nonspace (print_value v @ t) = print_value v @ t"
proof -
  have "config_jump_to_nonspace (numeral_of 10 n @ t) = numeral_of 10 n @ t" for n
  proof -
    obtain d ds where d: "numeral_of 10 n = d # ds" by (cases "numeral_of 10 n") auto
    have "IS_DIGIT d" using numeral_of_10 [of n] d by auto
    then show ?thesis unfolding d append_Cons by (intro jump_stays) (auto simp: IS_DIGIT_def IS_SPACE_def)
  qed
  then show ?thesis using assms by (cases v) (auto simp: print_value_def jump_stays IS_SPACE_def)
qed

lemma reads_setting_all: "setting_ok s \<Longrightarrow> printable s \<Longrightarrow> reads_setting s"
proof (induction s)
  case (Setting n v f l cs)
  obtain name where n: "n = Some name" "name \<noteq> []" "list_all CONFIG_VALID_NAME_SYMBOL name"
    using Setting.prems by (auto simp: setting_ok_iff)
  have cs: "list_all setting_ok cs" "list_all printable cs" "list_all reads_setting cs"
    "distinct (map the (filter (\<lambda>x. x \<noteq> None) (map st_name cs)))"
    using Setting by (auto simp: setting_ok_iff group_ok_def list_all_iff)
  show ?case unfolding reads_setting_def
  proof (intro allI impI)
    fix files root fl anc tx lost grp childs rest
    assume new: "config_find_child_by_name childs (the (st_name (Setting n v f l cs))) = None" and rest: "no_semicolon rest"
    let ?p = "config_parse_childs files root fl anc tx"
    let ?body = "(if v = V_group then ''{'' @ concat (map print_setting cs) @ ''}'' else print_value v) @ '';'' @ rest"
    have new': "config_find_child_by_name childs name = None" using new n(1) by simp
    obtain line where line: "parse_name_part fl tx lost childs (name @ '': '' @ ?body) = Inr (name, line, lost, config_jump_to_nonspace ?body)"
      using parse_name_part_print [OF n(2,3) new', of fl tx lost ?body] by blast
    obtain c nm where c: "name = c # nm" using n(2) by (cases name) auto
    have cv: "CONFIG_VALID_NAME_SYMBOL c" using n(3) c by simp
    have j: "config_jump_to_nonspace (LF # name @ '': '' @ ?body) = name @ '': '' @ ?body"
      using name_symbol_not [OF cv] c jump_stays [of c] by (simp add: jump_space)
    have cn: "name @ '': '' @ ?body \<noteq> []" "hd (name @ '': '' @ ?body) \<noteq> CHR ''}''" "hd (name @ '': '' @ ?body) \<noteq> CHR ''@''"
      using name_symbol_not [OF cv] c by auto
    have pn: "print_setting (Setting n v f l cs) @ rest = LF # name @ '': '' @ ?body" using n(1) by simp
    show "\<exists>s' lost'. erase s' = erase (Setting n v f l cs) \<and>
        ?p lost grp childs (print_setting (Setting n v f l cs) @ rest) = ?p lost' True (childs @ [s']) rest"
    proof (cases "v = V_group")
      case False
      then have v: "value_ok v" "v \<noteq> V_unset" "\<And>s. v \<noteq> V_float s" "cs = []" using Setting.prems by (auto simp: setting_ok_iff)
      have jb: "config_jump_to_nonspace ?body = ?body" using jump_print_value [OF False v(2,3)] False by simp
      have ps: "parse_scalar fl tx lost ?body = Inr (v, rest)" "?body \<noteq> []" "hd ?body \<noteq> CHR ''{''"
        using parse_scalar_print [OF v(1) False v(2,3), of fl tx lost rest] False by auto
      have "?p lost grp childs (LF # name @ '': '' @ ?body) = ?p lost True (childs @ [Setting (Some name) v fl line []]) rest"
        by (rule parse_childs_scalar [OF list.distinct(2) j cn line [unfolded jb] ps(3,1)])
      then show ?thesis using n(1) v(4) pn by (intro exI [of _ "Setting (Some name) v fl line []"] exI [of _ lost]) simp
    next
      case True
      let ?in = "concat (map print_setting cs) @ ''};'' @ rest"
      have b: "?body = CHR ''{'' # ?in" using True by simp
      have jb: "config_jump_to_nonspace ?body = CHR ''{'' # ?in" unfolding b by (rule jump_stays) (auto simp: IS_SPACE_def)
      have ns: "no_semicolon (''};'' @ rest)" by (simp add: no_semicolon_def jump_stays IS_SPACE_def skip_semicolon_def)
      obtain cs' lost1 where cs': "map erase cs' = map erase cs"
          "config_parse_childs files False fl (fl # anc) tx lost False [] ?in =
           config_parse_childs files False fl (fl # anc) tx lost1 (False \<or> cs \<noteq> []) ([] @ cs') (''};'' @ rest)"
        using reads_settings [OF cs(3,1,2) ns, of "[]" files False fl "fl # anc" tx lost False] cs(4) by auto
      have "config_parse_childs files False fl (fl # anc) tx lost1 (False \<or> cs \<noteq> []) ([] @ cs') (''};'' @ rest) = Some (Inr (rest, True, cs', lost1))"
        by (subst config_parse_childs.simps) (simp add: jump_stays IS_SPACE_def skip_semicolon_def)
      note inner = cs'(2) [unfolded this]
      have "?p lost grp childs (LF # name @ '': '' @ ?body) = ?p lost1 True (childs @ [Setting (Some name) V_group fl line cs']) (skip_semicolon (config_jump_to_nonspace rest))"
        by (rule parse_childs_group [OF list.distinct(2) j cn line [unfolded jb] inner])
      also have "\<dots> = ?p lost1 True (childs @ [Setting (Some name) V_group fl line cs']) rest"
        using rest unfolding no_semicolon_def by (simp only: parse_childs_jump)
      finally show ?thesis using n(1) True pn cs'(1) by (intro exI [of _ "Setting (Some name) V_group fl line cs'"] exI [of _ lost1]) simp
    qed
  qed
qed


lemma valid_name_symbol: "CONFIG_VALID_NAME_SYMBOL c \<Longrightarrow> CONFIG_VALID_SYMBOL c"
  by (auto simp: CONFIG_VALID_NAME_SYMBOL_def CONFIG_VALID_SYMBOL_def IS_SYM_def IS_LOWER_def IS_UPPER_def IS_DIGIT_def)

lemma print_value_valid:
  assumes "case v of V_string s \<Rightarrow> list_all CONFIG_VALID_SYMBOL s | _ \<Rightarrow> True"
  shows "list_all CONFIG_VALID_SYMBOL (print_value v)"
proof -
  have "list_all CONFIG_VALID_SYMBOL (numeral_of 10 n)" for n
    using numeral_of_10 [of n] by (auto simp: list_all_iff CONFIG_VALID_SYMBOL_def IS_SYM_def IS_DIGIT_def)
  then show ?thesis using assms by (cases v) (auto simp: print_value_def CONFIG_VALID_SYMBOL_def IS_SYM_def)
qed

lemma print_setting_valid: "setting_ok s \<Longrightarrow> printable s \<Longrightarrow> list_all CONFIG_VALID_SYMBOL (print_setting s)"
proof (induction s)
  case (Setting n v f l cs)
  have "list_all CONFIG_VALID_SYMBOL name" if "n = Some name" for name
    using Setting.prems(1) that valid_name_symbol by (auto simp: setting_ok_iff list_all_iff)
  moreover have "list_all CONFIG_VALID_SYMBOL (concat (map print_setting cs))"
    using Setting by (auto simp: setting_ok_iff group_ok_def list_all_iff)
  moreover have "list_all CONFIG_VALID_SYMBOL (print_value v)"
    using Setting.prems(2) by (intro print_value_valid) (auto split: config_value.splits)
  moreover have "list_all CONFIG_VALID_SYMBOL ([LF] @ '': {};'')"
    by (simp add: CONFIG_VALID_SYMBOL_def IS_SYM_def IS_SPACE_def)
  ultimately show ?case by (cases n) auto
qed

lemma config_load_valid:
  assumes "list_all CONFIG_VALID_SYMBOL content" "content \<noteq> []"
  shows "config_load_file_contents filename (Content content) = Some (Inr content)"
proof -
  have "dropWhile CONFIG_VALID_SYMBOL content = []" using assms(1) by (simp add: dropWhile_eq_Nil_conv list_all_iff)
  then show ?thesis using assms(2) by (cases content) (simp_all add: config_load_file_contents_def config_quick_validate_def)
qed

lemma config_read_print_law:
  assumes ok: "group_ok ts" "list_all printable ts" "ts \<noteq> []"
  shows "\<exists>ts'. map erase ts' = map erase ts \<and>
    config_read files filename (Content (concat (map print_setting ts))) = Some (Inr (Setting None V_group filename 0 ts'))"
proof -
  let ?c = "concat (map print_setting ts)"
  have all: "list_all setting_ok ts" "list_all reads_setting ts"
    using ok reads_setting_all by (auto simp: group_ok_def list_all_iff)
  have ne: "?c \<noteq> []" using ok(3) print_setting_first all(1) ok(2) by (cases ts) (auto, metis list.distinct(1))
  have "list_all CONFIG_VALID_SYMBOL ?c" using all(1) ok(2) print_setting_valid by (auto simp: list_all_iff)
  then have load: "config_load_file_contents filename (Content ?c) = Some (Inr ?c)" using ne by (rule config_load_valid)
  have ns: "no_semicolon []" by (simp add: no_semicolon_def skip_semicolon_def)
  obtain ts' lost' where ts': "map erase ts' = map erase ts"
      "config_parse_childs files True filename [] ?c 0 False [] ?c = config_parse_childs files True filename [] ?c lost' True ts' []"
    using reads_settings [OF all(2,1) ok(2) ns, of "[]" files True filename "[]" ?c 0 False] ok(1,3) by (auto simp: group_ok_def)
  have "config_parse_childs files True filename [] ?c lost' True ts' [] = Some (Inr ([], True, ts', lost'))"
    by (subst config_parse_childs.simps) simp
  then show ?thesis using ts' load by (auto simp: config_read_def)
qed

lemma config_read_group_ok:
  assumes "config_read files filename f = Some (Inr s)"
  shows "st_name s = None \<and> st_file s = filename \<and> group_ok (st_childs s) \<and> (st_value s = V_group \<or> st_value s = V_unset)"
proof -
  obtain content where c: "config_load_file_contents filename f = Some (Inr content)"
    using assms by (cases "config_load_file_contents filename f") (auto simp: config_read_def split: sum.splits)
  let ?p = "config_parse_childs files True filename [] content 0 False [] content"
  obtain x where x: "?p = Some x" using assms c by (cases ?p) (auto simp: config_read_def)
  obtain t g cs l where r: "x = Inr (t, g, cs, l)" using assms c x by (cases x) (auto simp: config_read_def)
  have "group_ok cs" using config_parse_childs_group_ok [OF group_ok_Nil, of files True filename "[]" content 0 False content] x r by simp
  then show ?thesis using assms c x r by (cases g) (auto simp: config_read_def)
qed

lemma config_read_empty_law: "config_read files filename (Content []) = None"
  by (simp add: config_read_def config_load_file_contents_def)

text \<open>
  C33.  Reading a configuration comes to an end, whatever the file contains unless it is empty, and whatever
  the files contain that can be included, as long as there are finitely many of them and none is empty: inclusion never
  recurs into a file that is being read, every step consumes text, and no access leaves a text.  The result is an error
  report or a tree of settings in which no group has two settings of one name, names are well formed and integers fit
  their type.  For an empty file the bytes written behind the text leave its block.
\<close>

theorem config_read_returns:
  assumes "file_contents_ok files"
  shows "(config_read files filename f = None \<longleftrightarrow> f = Content []) \<and>
    (\<forall>s. config_read files filename f = Some (Inr s) \<longrightarrow> st_name s = None \<and> st_file s = filename \<and> group_ok (st_childs s))"
  using config_read_returns_law [OF assms, of f filename] config_read_empty_law [of files filename] config_read_group_ok [of files filename f]
  by (cases "f = Content []") auto

theorem config_read_returns_witness:
  "config_read (\<lambda>f. No_File ''no such file'') ''server.conf'' (Content ''a: 1'') \<noteq> None \<and>
   config_read (\<lambda>f. No_File ''no such file'') ''server.conf'' (Content []) = None"
  using config_read_returns [of "\<lambda>f. No_File ''no such file''" "''server.conf''"] by (simp add: file_contents_ok_def)

text \<open>
  C32.  A configuration that is written out is read back unchanged: for every non-empty group of settings (strings,
  booleans, integers of both widths, nested groups to any depth) the parser returns that group, up to the
  places its settings were found at.
\<close>

theorem config_read_print:
  assumes "group_ok ts" "list_all printable ts" "ts \<noteq> []"
  shows "\<exists>ts'. map erase ts' = map erase ts \<and>
    config_read files filename (Content (concat (map print_setting ts))) = Some (Inr (Setting None V_group filename 0 ts'))"
  by (rule config_read_print_law [OF assms])

theorem config_read_print_witness:
  "\<exists>ts'. map erase ts' =
      [Setting (Some ''server'') V_group [] 0 [Setting (Some ''port'') (V_int 80) [] 0 [], Setting (Some ''root'') (V_string ''/var'') [] 0 []]] \<and>
    config_read (\<lambda>f. Io_Error) ''server.conf'' (Content (CHR 10 # ''server: {'' @ CHR 10 # ''port: 80;'' @ CHR 10 # ''root: '' @ CHR 34 # ''/var'' @ CHR 34 # '';};'')) =
      Some (Inr (Setting None V_group ''server.conf'' 0 ts'))"
proof -
  let ?ts = "[Setting (Some ''server'') V_group [] 0 [Setting (Some ''port'') (V_int 80) [] 0 [], Setting (Some ''root'') (V_string ''/var'') [] 0 []]]"
  have ok: "group_ok ?ts" "list_all printable ?ts"
    by (simp_all add: group_ok_def setting_ok.simps value_ok_def CONFIG_VALID_NAME_SYMBOL_def CONFIG_VALID_SYMBOL_def IS_LOWER_def IS_SYM_def)
  have p: "concat (map print_setting ?ts) = CHR 10 # ''server: {'' @ CHR 10 # ''port: 80;'' @ CHR 10 # ''root: '' @ CHR 34 # ''/var'' @ CHR 34 # '';};''"
    by (simp add: print_value_def numeral_of.simps digit_char_def x_to_str_chartable_def)
  show ?thesis using config_read_print [OF ok, of "\<lambda>f. Io_Error" "''server.conf''"] unfolding p by simp
qed

text \<open>
  An empty configuration file, or an empty included file, is the exception: two terminators are written to a
  block of one byte.
\<close>

theorem config_read_empty: "config_read files filename (Content []) = None"
  by (rule config_read_empty_law)

end
