(* ===== verification/Config_Lookup.thy ===== *)
theory Config_Lookup
  imports Config_Parser
begin

text \<open>
  Access to the settings that were read (\<^verbatim>\<open>config_parser.c\<close> from \<^verbatim>\<open>config_setting_path\<close> on): the dotted
  path of a setting, the search for a setting by its path, and the typed readers.
\<close>

section \<open>The path of a setting\<close>

text \<open>
  The loop of \<^verbatim>\<open>config_setting_path\<close> over the setting and its parents (\<open>names\<close>, the setting first).  \<open>path\<close>
  is \<^verbatim>\<open>path\<close>: nothing before the first name, then the text in the buffer of \<open>n\<close> bytes.  \<^term>\<open>None\<close> is a
  write behind the buffer, a result \<open>(False, t)\<close> the failure that leaves \<open>t\<close> in the buffer.
\<close>

fun path_loop :: "nat \<Rightarrow> string option \<Rightarrow> string option list \<Rightarrow> (bool \<times> string) option" where
  "path_loop n path [] = (case path of None \<Rightarrow> Some (False, []) | Some t \<Rightarrow> Some (True, str_reverse t))"
| "path_loop n path (None # names) = path_loop n path names"
| "path_loop n path (Some name # names) =
     (let t = (case path of None \<Rightarrow> [] | Some t \<Rightarrow> t @ ''.'') in
      if path \<noteq> None \<and> n \<le> length t then None
      else if n - length t \<le> length name then Some (False, t)
      else path_loop n (Some (t @ str_reverse name)) names)"

definition config_setting_path :: "string option list \<Rightarrow> nat \<Rightarrow> (bool \<times> string) option" where
  "config_setting_path names buf_len = path_loop buf_len None names"

section \<open>Looking up a setting\<close>

text \<open>The pieces of a path between its points.\<close>

fun split_path :: "string \<Rightarrow> string list" where
  "split_path [] = [[]]"
| "split_path (c # cs) =
     (if c = CHR ''.'' then [] # split_path cs else (case split_path cs of p # ps \<Rightarrow> (c # p) # ps | [] \<Rightarrow> [[c]]))"

text \<open>
  The loop over the pieces.  \<open>include\<close> is the variable of that name: it keeps what the last search in
  the included files of a group has found, also for the pieces after it.
\<close>

function (sequential) config_lookup_relative ::
    "config_setting_t option \<Rightarrow> config_setting_t \<Rightarrow> string list \<Rightarrow> config_setting_t option"
  and lookup_includes :: "config_setting_t option \<Rightarrow> config_setting_t list \<Rightarrow> string list \<Rightarrow> config_setting_t option" where
  "config_lookup_relative include locals [] = None"
| "config_lookup_relative include locals (name # pos) =
     (if name = [] then None
      else let inc = (case config_find_child_by_name (st_childs locals) name of
                        Some l \<Rightarrow> include | None \<Rightarrow> lookup_includes include (st_childs locals) (name # pos));
               found = (case config_find_child_by_name (st_childs locals) name of Some l \<Rightarrow> Some l | None \<Rightarrow> inc) in
        (case found of
           None \<Rightarrow> None
         | Some l \<Rightarrow> if pos = [] then Some l else config_lookup_relative inc l pos))"
| "lookup_includes include [] path = include"
| "lookup_includes include (c # cs) path =
     (if st_name c = None
      then (case config_lookup_relative None c path of Some x \<Rightarrow> Some x | None \<Rightarrow> lookup_includes None cs path)
      else lookup_includes include cs path)"
  by pat_completeness auto
termination
proof (relation "measures [\<lambda>x. case x of Inl (i, s, p) \<Rightarrow> length p | Inr (i, cs, p) \<Rightarrow> length p,
    \<lambda>x. case x of Inl (i, s, p) \<Rightarrow> size s | Inr (i, cs, p) \<Rightarrow> size_list size cs]", goal_cases)
  case (2 _ locals name pos)
  then show ?case by (cases locals) simp
qed auto

definition config_lookup :: "config_setting_t \<Rightarrow> string \<Rightarrow> config_setting_t option" where
  "config_lookup root path = config_lookup_relative None root (split_path path)"

section \<open>Reading a setting\<close>

definition config_setting_get_string :: "config_setting_t \<Rightarrow> string option" where
  "config_setting_get_string s = (case st_value s of V_string t \<Rightarrow> Some t | _ \<Rightarrow> None)"

definition config_setting_get_int :: "config_setting_t \<Rightarrow> int" where
  "config_setting_get_int s = (case st_value s of V_int i \<Rightarrow> i | _ \<Rightarrow> 0)"

definition config_setting_get_int64 :: "config_setting_t \<Rightarrow> int" where
  "config_setting_get_int64 s = (case st_value s of V_int64 i \<Rightarrow> i | _ \<Rightarrow> 0)"

text \<open>
  \<^verbatim>\<open>config_setting_get_bool\<close> does not look at the type; it is only defined here where the union holds a
  boolean.
\<close>

definition config_setting_get_bool :: "config_setting_t \<Rightarrow> bool option" where
  "config_setting_get_bool s = (case st_value s of V_bool b \<Rightarrow> Some b | _ \<Rightarrow> None)"

definition config_setting_get_elem :: "config_setting_t \<Rightarrow> int \<Rightarrow> config_setting_t option" where
  "config_setting_get_elem s i = (if i < 0 \<or> int (length (st_childs s)) \<le> i then None else Some (st_childs s ! nat i))"

section \<open>Paths\<close>

definition join_path :: "string list \<Rightarrow> string" where
  "join_path ps = concat (case ps of [] \<Rightarrow> [] | p # qs \<Rightarrow> p # map (\<lambda>q. ''.'' @ q) qs)"

lemma join_path_Nil [simp]: "join_path [] = []"
  by (simp add: join_path_def)

lemma join_path_snoc: "join_path (ps @ [p]) = (if ps = [] then p else join_path ps @ ''.'' @ p)"
  by (cases ps) (auto simp: join_path_def)

lemma join_path_Cons: "join_path (p # ps) = (if ps = [] then p else p @ ''.'' @ join_path ps)"
  by (cases ps) (auto simp: join_path_def)

definition named_parts :: "string option list \<Rightarrow> string list" where
  "named_parts names = map the (filter (\<lambda>x. x \<noteq> None) names)"

lemma named_parts_simps [simp]: "named_parts [] = []" "named_parts (None # ns) = named_parts ns" "named_parts (Some n # ns) = n # named_parts ns"
  by (simp_all add: named_parts_def)

lemma named_parts_append [simp]: "named_parts (xs @ ys) = named_parts xs @ named_parts ys"
  by (simp add: named_parts_def)

text \<open>The buffer holds the path of what was passed so far, read backwards.\<close>

lemma path_loop_fits:
  assumes "path = (if done = [] then None else Some (rev (join_path done)))"
    and "length (join_path (rev (named_parts names) @ done)) < n"
  shows "path_loop n path names =
    (if rev (named_parts names) @ done = [] then Some (False, []) else Some (True, join_path (rev (named_parts names) @ done)))"
  using assms
proof (induction names arbitrary: path "done")
  case Nil
  then show ?case by (simp add: str_reverse_rev)
next
  case (Cons x names)
  show ?case
  proof (cases x)
    case None
    then show ?thesis using Cons by simp
  next
    case (Some name)
    let ?t = "case path of None \<Rightarrow> [] | Some t \<Rightarrow> t @ ''.''"
    have le: "length (join_path qs) \<le> length (join_path (ps @ qs))" for ps qs
      by (induction ps) (auto simp: join_path_Cons)
    have "length (join_path (name # done)) < n" using Cons.prems(2) le [of "name # done" "rev (named_parts names)"] Some by simp
    then have fits: "length ?t + length name < n" using Cons.prems(1) by (auto simp: join_path_Cons)
    have t: "?t @ rev name = rev (join_path (name # done))" using Cons.prems(1) by (auto simp: join_path_Cons)
    have "path_loop n (Some (rev (join_path (name # done)))) names =
      (if rev (named_parts names) @ name # done = [] then Some (False, []) else Some (True, join_path (rev (named_parts names) @ name # done)))"
      using Cons.prems(2) Some by (intro Cons.IH) simp_all
    then show ?thesis using Some fits t by (simp add: Let_def str_reverse_rev)
  qed
qed


text \<open>
  The settings below a setting with the names that lead there; included files add no name.
\<close>

fun settings_below :: "string list \<Rightarrow> config_setting_t \<Rightarrow> (string list \<times> config_setting_t) list" where
  "settings_below path (Setting n v f l cs) =
     (let p = (case n of None \<Rightarrow> path | Some name \<Rightarrow> path @ [name]) in
      (p, Setting n v f l cs) # concat (map (settings_below p) cs))"

text \<open>The search without the variable that is kept: a reference for the loop.\<close>

function (sequential) find_setting :: "config_setting_t \<Rightarrow> string list \<Rightarrow> config_setting_t option"
  and find_included :: "config_setting_t list \<Rightarrow> string list \<Rightarrow> config_setting_t option" where
  "find_setting s [] = Some s"
| "find_setting s (name # pos) =
     (case config_find_child_by_name (st_childs s) name of
        Some l \<Rightarrow> find_setting l pos
      | None \<Rightarrow> find_included (st_childs s) (name # pos))"
| "find_included [] path = None"
| "find_included (c # cs) path =
     (if st_name c = None
      then (case find_setting c path of Some x \<Rightarrow> Some x | None \<Rightarrow> find_included cs path)
      else find_included cs path)"
  by pat_completeness auto
termination
proof (relation "measures [\<lambda>x. case x of Inl (s, p) \<Rightarrow> length p | Inr (cs, p) \<Rightarrow> length p,
    \<lambda>x. case x of Inl (s, p) \<Rightarrow> size s | Inr (cs, p) \<Rightarrow> size_list size cs]", goal_cases)
  case (2 s name pos)
  then show ?case by (cases s) simp
qed auto

lemma lookup_leaf:
  assumes "st_childs x = []" "list_all (\<lambda>p. p \<noteq> []) ps" "ps \<noteq> []"
  shows "config_lookup_relative (Some x) x ps = Some x"
  using assms(2,3)
proof (induction ps)
  case (Cons p ps)
  then show ?case using assms(1) by (cases "ps = []") (simp_all add: config_find_child_by_name_def)
qed simp

lemma lookup_finds:
  "list_all (\<lambda>p. p \<noteq> []) ps \<Longrightarrow> ps \<noteq> [] \<Longrightarrow> (\<And>x. find_setting s ps = Some x \<Longrightarrow> st_childs x = []) \<Longrightarrow>
    config_lookup_relative None s ps = find_setting s ps"
  "list_all (\<lambda>p. p \<noteq> []) ps \<Longrightarrow> ps \<noteq> [] \<Longrightarrow> (\<And>x. find_included cs ps = Some x \<Longrightarrow> st_childs x = []) \<Longrightarrow>
    lookup_includes None cs ps = find_included cs ps"
proof (induction s ps and cs ps rule: find_setting_find_included.induct)
  case (2 s name pos)
  show ?case
  proof (cases "config_find_child_by_name (st_childs s) name")
    case None
    have i: "lookup_includes None (st_childs s) (name # pos) = find_included (st_childs s) (name # pos)"
    proof (rule 2(1) [OF None 2(3,4)])
      show "st_childs x = []" if "find_included (st_childs s) (name # pos) = Some x" for x
        using 2(5) [of x] None that by simp
    qed
    show ?thesis
    proof (cases "find_included (st_childs s) (name # pos)")
      case None': None
      then show ?thesis using None i 2(3) by simp
    next
      case (Some x)
      then have "st_childs x = []" using 2(5) [of x] None by simp
      then show ?thesis using None i Some 2(3) lookup_leaf [of x pos] by (cases "pos = []") auto
    qed
  next
    case (Some l)
    have "config_lookup_relative None l pos = find_setting l pos" if "pos \<noteq> []"
    proof (rule 2(2) [OF Some _ that])
      show "list_all (\<lambda>p. p \<noteq> []) pos" using 2(3) by simp
      show "st_childs x = []" if "find_setting l pos = Some x" for x using 2(5) [of x] Some that by simp
    qed
    then show ?thesis using Some 2(3) by (cases "pos = []") auto
  qed
next
  case (4 c cs path)
  show ?case
  proof (cases "st_name c = None")
    case True
    have c: "config_lookup_relative None c path = find_setting c path"
      using 4(6) True by (intro 4(1) [OF True 4(4,5)]) auto
    show ?thesis
    proof (cases "find_setting c path")
      case None
      have "lookup_includes None cs path = find_included cs path"
        using 4(6) True None by (intro 4(2) [OF True None 4(4,5)]) auto
      then show ?thesis using True c None by simp
    next
      case (Some x)
      then show ?thesis using True c by simp
    qed
  next
    case False
    have "lookup_includes None cs path = find_included cs path"
      using 4(6) False by (intro 4(3) [OF False 4(4,5)]) auto
    then show ?thesis using False by auto
  qed
qed simp_all


definition own_path :: "string list \<Rightarrow> config_setting_t \<Rightarrow> string list" where
  "own_path path s = (case st_name s of None \<Rightarrow> path | Some name \<Rightarrow> path @ [name])"

lemma settings_below_eq:
  "settings_below path s = (own_path path s, s) # concat (map (settings_below (own_path path s)) (st_childs s))"
  by (cases s) (simp add: own_path_def Let_def)

declare settings_below.simps [simp del]

lemma find_child_SomeD: "config_find_child_by_name cs name = Some l \<Longrightarrow> l \<in> set cs \<and> st_name l = Some name"
  by (auto simp: config_find_child_by_name_def find_Some_iff named_def)

lemma find_setting_below:
  "find_setting s ps = Some x \<Longrightarrow> (own_path path s @ ps, x) \<in> set (settings_below path s)"
  "find_included cs ps = Some x \<Longrightarrow> \<exists>c \<in> set cs. (p @ ps, x) \<in> set (settings_below p c)"
proof (induction s ps and cs ps arbitrary: path and p rule: find_setting_find_included.induct)
  case (1 s)
  then show ?case by (subst settings_below_eq) simp
next
  case (2 s name pos)
  show ?case
  proof (cases "config_find_child_by_name (st_childs s) name")
    case None
    then show ?thesis using 2(1) [OF None] 2(3) by (auto simp: settings_below_eq [of path s])
  next
    case (Some l)
    then have "(own_path (own_path path s) l @ pos, x) \<in> set (settings_below (own_path path s) l)" using 2(2) [OF Some] 2(3) by simp
    then show ?thesis using find_child_SomeD [OF Some] by (auto simp: settings_below_eq [of path s] own_path_def [of _ l])
  qed
next
  case (4 c cs ps)
  show ?case
  proof (cases "st_name c = None \<and> find_setting c ps \<noteq> None")
    case True
    then have "find_setting c ps = Some x" using 4(4) by auto
    then have "(own_path p c @ ps, x) \<in> set (settings_below p c)" using 4(1) True by blast
    then show ?thesis using True by (auto simp: own_path_def)
  next
    case False
    then show ?thesis using 4(2,3) 4(4) by (cases "st_name c = None") auto
  qed
qed simp_all

section \<open>What a path denotes\<close>

lemma config_setting_path_law:
  assumes "length (join_path (rev (named_parts names))) < n"
  shows "config_setting_path names n = (if named_parts names = [] then Some (False, []) else Some (True, join_path (rev (named_parts names))))"
  using path_loop_fits [of None "[]" names n] assms by (simp add: config_setting_path_def)

text \<open>
  The path of a setting is the names from the outermost group to the setting, separated by points, included
  files contributing nothing; it is computed without leaving the buffer whenever it fits with its terminator.
\<close>

theorem config_setting_path_ok:
  assumes "length (join_path (rev (named_parts names))) < n" "named_parts names \<noteq> []"
  shows "config_setting_path names n = Some (True, join_path (rev (named_parts names)))"
  using config_setting_path_law [OF assms(1)] assms(2) by simp

theorem config_setting_path_ok_witness:
  "config_setting_path [Some ''listen'', None, Some ''server'', None] 256 = Some (True, ''server.listen'')"
  using config_setting_path_ok [of "[Some ''listen'', None, Some ''server'', None]" 256] by (simp add: join_path_Cons)

text \<open>
  A name that fills the buffer to the last byte but one passes the check of the room left, and the point
  that is put behind it for the next name pushes the terminator out of the buffer.
\<close>

theorem config_setting_path_overflow:
  assumes "Suc (length name) = n" "named_parts names \<noteq> []"
  shows "config_setting_path (Some name # names) n = None"
proof -
  have "path_loop n (Some t) ns = None" if "named_parts ns \<noteq> []" "Suc (length t) = n" for t ns
    using that
  proof (induction ns)
    case (Cons x ns)
    then show ?case by (cases x) (simp_all add: Let_def)
  qed simp
  from this [OF assms(2), of "rev name"] show ?thesis using assms(1) by (simp add: config_setting_path_def str_reverse_rev)
qed

theorem config_setting_path_overflow_witness: "config_setting_path [Some ''abc'', Some ''d''] 4 = None"
  by (rule config_setting_path_overflow) simp_all

lemma config_lookup_law:
  assumes "list_all (\<lambda>p. p \<noteq> []) (split_path path)"
    and "\<And>x. find_setting root (split_path path) = Some x \<Longrightarrow> st_childs x = []"
  shows "config_lookup root path = find_setting root (split_path path)"
proof -
  have "split_path path \<noteq> []" by (induction path) (auto split: list.split)
  then show ?thesis unfolding config_lookup_def using assms by (intro lookup_finds(1)) auto
qed

text \<open>
  C34.  Looking up the path of a setting that is no group gives that setting, in the file itself or in an included
  one: the loop agrees with the plain search for the pieces of the path, and what it finds lies under exactly
  these names; and it finds nothing if that search finds nothing.
\<close>

theorem config_lookup_finds:
  assumes "list_all (\<lambda>p. p \<noteq> []) (split_path path)"
    and "\<And>x. find_setting root (split_path path) = Some x \<Longrightarrow> st_childs x = []"
  shows "config_lookup root path = find_setting root (split_path path) \<and>
    (\<forall>x. config_lookup root path = Some x \<longrightarrow> (own_path [] root @ split_path path, x) \<in> set (settings_below [] root))"
  using config_lookup_law [OF assms] find_setting_below(1) [of root "split_path path" _ "[]"] by simp

definition sample_root :: config_setting_t where
  "sample_root = Setting None V_group ''server.conf'' 0
     [Setting (Some ''http'') V_group ''server.conf'' 1 [Setting (Some ''temp'') (V_string ''/tmp'') ''server.conf'' 2 []],
      Setting None V_group ''more.conf'' 0
        [Setting (Some ''server'') V_group ''more.conf'' 1 [Setting (Some ''listen'') (V_string ''h:80'') ''more.conf'' 2 []]]]"

theorem config_lookup_finds_witness:
  "config_lookup sample_root ''server.listen'' = Some (Setting (Some ''listen'') (V_string ''h:80'') ''more.conf'' 2 [])"
  using config_lookup_finds [of "''server.listen''" sample_root]
  by (simp add: sample_root_def config_find_child_by_name_def named_def)

text \<open>
  For groups this is not so: a group in an included file that has a setting of its own name is found when
  it is looked up directly, but with another file in between the search goes on into the group.
\<close>

theorem config_lookup_nested:
  assumes "g = Setting (Some ''b'') V_group f 2 [Setting (Some ''b'') (V_int 1) f 3 []]"
    and "a = Setting (Some ''a'') V_group f 1 [g]"
  shows "config_lookup (Setting None V_group f 0 [a]) ''a.b'' = Some g \<and>
    config_lookup (Setting None V_group r 0 [Setting None V_group f 0 [a]]) ''a.b'' = Some (Setting (Some ''b'') (V_int 1) f 3 [])"
  using assms by (simp add: config_lookup_def config_find_child_by_name_def named_def)

theorem config_lookup_nested_witness:
  "config_lookup (Setting None V_group [] 0 [Setting None V_group [] 0
      [Setting (Some ''a'') V_group [] 1 [Setting (Some ''b'') V_group [] 2 [Setting (Some ''b'') (V_int 1) [] 3 []]]]]) ''a.b'' =
    Some (Setting (Some ''b'') (V_int 1) [] 3 [])"
  using config_lookup_nested [OF refl refl, of "[]" "[]"] by simp

end
