(* ===== verification/Core_Config.thy ===== *)
theory Core_Config
  imports Config_Lookup
begin

text \<open>
  Loading of the configuration (\<^verbatim>\<open>core_config.c\<close>): the defaults, the directives and their checks, the walk
  over the settings and \<^verbatim>\<open>load_config\<close>.  \<^verbatim>\<open>eerr\<close> ends the process, so an operation gives the reason for the
  end (\<open>Inl\<close>) or the new configuration (\<open>Inr\<close>); \<^term>\<open>None\<close> is an access outside of an object.  \<open>stat\<close> is the
  file system the directories are looked up in.
\<close>

section \<open>The configuration\<close>

text \<open>
  The structure \<^verbatim>\<open>loaded_config\<close> and the address of the server.  A text that is not set is \<^term>\<open>None\<close>; of a
  \<^verbatim>\<open>u_str_t\<close> the text is its \<^verbatim>\<open>len\<close> bytes.
\<close>

record loaded_config =
  cf_user :: "string option"
  cf_group :: "string option"
  cf_pid :: "string option"
  cf_log :: "string option"
  cf_script_init :: string
  cf_db_replica_set :: "string option"
  cf_db_servers :: "string option"
  cf_document_root :: "string option"
  cf_temp_dir :: "string option"
  cf_data :: "string option"
  cf_template_name :: "string option"
  cf_keepalive_timeout :: string
  cf_cache_prefix :: string
  cf_keepalive_timeout_val :: int
  cf_keepalive_max_conn_per_client :: int
  cf_gzip_min_page_size :: int
  cf_limit_rate :: int
  cf_limit_delay :: int
  cf_limit_sim_threshold :: int
  cf_worker_threads :: int
  cf_prealloc_request_structures :: int
  cf_restart_timeout :: int
  cf_gzip :: bool
  cf_limit_req :: bool
  cf_limit_sim_req :: bool
  cf_gzip_level :: int
  cf_cache_update :: int
  cf_script_update :: int
  cf_tpl_cache_update :: int
  cf_idle_request_structures :: int
  http_port :: int
  http_server_tcp_addr :: "string option"

datatype config_exit =
    Unknown_Directive string nat | Invalid_Value string | Empty_Address | Invalid_Port string | Not_Absolute string
  | No_Directory string | Bad_Gzip_Level | Read_Error config_error | Missing_Directive string | No_Config_File string

type_synonym config_step = "(config_exit + loaded_config) option"

definition required_directives :: "string list" where
  "required_directives =
     [''server.listen'', ''server.user'', ''server.group'', ''server.pid-file'', ''server.log-file'', ''server.data'',
      ''http.document-root'', ''http.temp'', ''http.cache.prefix'', ''http.cache.update'',
      ''template.name'', ''database.servers'']"

text \<open>The memory of the program before anything was assigned.\<close>

definition zero_config :: loaded_config where
  "zero_config = \<lparr>cf_user = None, cf_group = None, cf_pid = None, cf_log = None, cf_script_init = [], cf_db_replica_set = None,
     cf_db_servers = None, cf_document_root = None, cf_temp_dir = None, cf_data = None, cf_template_name = None,
     cf_keepalive_timeout = [], cf_cache_prefix = [], cf_keepalive_timeout_val = 0, cf_keepalive_max_conn_per_client = 0,
     cf_gzip_min_page_size = 0, cf_limit_rate = 0, cf_limit_delay = 0, cf_limit_sim_threshold = 0, cf_worker_threads = 0,
     cf_prealloc_request_structures = 0, cf_restart_timeout = 0, cf_gzip = False, cf_limit_req = False, cf_limit_sim_req = False,
     cf_gzip_level = 0, cf_cache_update = 0, cf_script_update = 0, cf_tpl_cache_update = 0, cf_idle_request_structures = 0,
     http_port = 0, http_server_tcp_addr = None\<rparr>"

definition default_config :: "loaded_config \<Rightarrow> loaded_config" where
  "default_config c = c\<lparr>
     cf_gzip := False,
     cf_gzip_level := 6,
     cf_gzip_min_page_size := 64,
     cf_limit_req := False,
     cf_limit_rate := 64,
     cf_limit_delay := 30,
     cf_limit_sim_req := False,
     cf_limit_sim_threshold := 8,
     cf_keepalive_timeout := ''25'',
     cf_keepalive_max_conn_per_client := 4,
     cf_cache_prefix := ''/cache/'',
     cf_cache_update := 0,
     cf_tpl_cache_update := 0,
     cf_worker_threads := 5,
     cf_prealloc_request_structures := 10,
     cf_idle_request_structures := 0,
     cf_script_init := ''init.js'',
     cf_script_update := 0,
     cf_restart_timeout := 0,
     cf_db_replica_set := None\<rparr>"

section \<open>Directives\<close>

definition EINVALIDVAL :: "string \<Rightarrow> config_step" where
  "EINVALIDVAL key = Some (Inl (Invalid_Value key))"

text \<open>
  \<^verbatim>\<open>server.listen\<close>: the text behind the last colon is the port.  Without a colon the loop ends one byte in
  front of the text, and the port is read from there.
\<close>

definition directive_listen :: "string \<Rightarrow> loaded_config \<Rightarrow> config_step" where
  "directive_listen value c =
     (if CHR '':'' \<in> set value then
        (let port = rev (takeWhile (\<lambda>x. x \<noteq> CHR '':'') (rev value));
             addr = rev (tl (dropWhile (\<lambda>x. x \<noteq> CHR '':'') (rev value))) in
         if addr = [] then Some (Inl Empty_Address)
         else if \<not> is_num port \<or> atoi port \<le> 0 \<or> atoi port > 65535 then Some (Inl (Invalid_Port port))
         else Some (Inr (c\<lparr>http_port := atoi port, http_server_tcp_addr := Some addr\<rparr>)))
      else if value = [] then Some (Inl Empty_Address)
      else None)"

text \<open>The checks of the files for the process id and the log.\<close>

definition directive_file :: "string \<Rightarrow> string \<Rightarrow> loaded_config \<Rightarrow> config_step" where
  "directive_file key value c =
     (if length value < 3 \<or> last value = CHR ''/'' then EINVALIDVAL key
      else if \<not> is_path_absolute value then Some (Inl (Not_Absolute key))
      else Some (Inr c))"

text \<open>A directory that is read: one slash at its end is dropped (of an empty text the byte in front of it is read).\<close>

definition directive_dir :: "(string \<Rightarrow> mode_t option) \<Rightarrow> string \<Rightarrow> (string \<Rightarrow> loaded_config) \<Rightarrow> config_step" where
  "directive_dir stat value set_dir =
     (if value = [] then None
      else let dir = (if last value = CHR ''/'' then butlast value else value) in
        if \<not> is_directory_exists stat dir IOAR_R then Some (Inl (No_Directory dir)) else Some (Inr (set_dir dir)))"

text \<open>A word out of two.\<close>

definition directive_word :: "string \<Rightarrow> string \<Rightarrow> string \<Rightarrow> string \<Rightarrow> (int \<Rightarrow> loaded_config) \<Rightarrow> config_step" where
  "directive_word key w0 w1 value set_word =
     (if value = w0 then Some (Inr (set_word 0)) else if value = w1 then Some (Inr (set_word 1)) else EINVALIDVAL key)"

definition process_directive_string :: "(string \<Rightarrow> mode_t option) \<Rightarrow> string \<Rightarrow> string \<Rightarrow> nat \<Rightarrow> loaded_config \<Rightarrow> config_step" where
  "process_directive_string stat key value line c =
     (if key = ''server.listen'' then directive_listen value c
      else if key = ''server.user'' then Some (Inr (c\<lparr>cf_user := Some value\<rparr>))
      else if key = ''server.group'' then Some (Inr (c\<lparr>cf_group := Some value\<rparr>))
      else if key = ''server.pid-file'' then directive_file key value (c\<lparr>cf_pid := Some value\<rparr>)
      else if key = ''server.log-file'' then directive_file key value (c\<lparr>cf_log := Some value\<rparr>)
      else if key = ''http.document-root'' then directive_dir stat value (\<lambda>d. c\<lparr>cf_document_root := Some d\<rparr>)
      else if key = ''http.temp'' then
        (if \<not> is_directory_exists stat value IOAR_RW then Some (Inl (No_Directory value))
         else if value = [] then None
         else Some (Inr (c\<lparr>cf_temp_dir := Some (if last value \<noteq> CHR ''/'' then value @ ''/'' else value)\<rparr>)))
      else if key = ''server.data'' then directive_dir stat value (\<lambda>d. c\<lparr>cf_data := Some d\<rparr>)
      else if key = ''template.name'' then
        (if value = [] then EINVALIDVAL key else Some (Inr (c\<lparr>cf_template_name := Some value\<rparr>)))
      else if key = ''template.update-bytecode'' then
        directive_word key ''never'' ''source-modified'' value (\<lambda>w. c\<lparr>cf_tpl_cache_update := w\<rparr>)
      else if key = ''http.cache.prefix'' then
        (if length value < 2 \<or> hd value \<noteq> CHR ''/'' then EINVALIDVAL key
         else if last value = CHR ''/'' \<and> length value < 3 then EINVALIDVAL key
         else Some (Inr (c\<lparr>cf_cache_prefix := (if last value \<noteq> CHR ''/'' then value @ ''/'' else value)\<rparr>)))
      else if key = ''http.cache.update'' then
        directive_word key ''never'' ''source-modified'' value (\<lambda>w. c\<lparr>cf_cache_update := w\<rparr>)
      else if key = ''script.init'' then Some (Inr (c\<lparr>cf_script_init := value\<rparr>))
      else if key = ''script.update-bytecode'' then
        directive_word key ''never'' ''source-modified'' value (\<lambda>w. c\<lparr>cf_script_update := w\<rparr>)
      else if key = ''server.idle-request-structures'' then
        directive_word key ''keep'' ''free'' value (\<lambda>w. c\<lparr>cf_idle_request_structures := w\<rparr>)
      else if key = ''database.replica-set-name'' then
        Some (Inr (if value \<noteq> [] then c\<lparr>cf_db_replica_set := Some value\<rparr> else c))
      else if key = ''database.servers'' then Some (Inr (c\<lparr>cf_db_servers := Some value\<rparr>))
      else Some (Inl (Unknown_Directive key line)))"

definition process_directive_int :: "string \<Rightarrow> int \<Rightarrow> nat \<Rightarrow> loaded_config \<Rightarrow> config_step" where
  "process_directive_int key value line c =
     (if key = ''server.worker-threads'' then
        (if value < 2 then EINVALIDVAL key else Some (Inr (c\<lparr>cf_worker_threads := value\<rparr>)))
      else if key = ''server.pre-allocated-request-structures'' then
        (if value < 2 then EINVALIDVAL key else Some (Inr (c\<lparr>cf_prealloc_request_structures := value\<rparr>)))
      else if key = ''server.limits.requests.rate'' then
        (if value \<le> 0 then EINVALIDVAL key else Some (Inr (c\<lparr>cf_limit_rate := value\<rparr>)))
      else if key = ''server.limits.requests.delay'' then
        (if value \<le> 0 then EINVALIDVAL key else Some (Inr (c\<lparr>cf_limit_delay := value\<rparr>)))
      else if key = ''server.limits.simultaneous-requests.threshold'' then
        (if value \<le> 0 then EINVALIDVAL key else Some (Inr (c\<lparr>cf_limit_sim_threshold := value\<rparr>)))
      else if key = ''http.keepalive.timeout'' then
        (if value \<le> 0 then EINVALIDVAL key
         else (case int_to_str value 10 of
            None \<Rightarrow> None
          | Some s \<Rightarrow>
              if digits_in_int value < length s then None
              else Some (Inr (c\<lparr>cf_keepalive_timeout := take (digits_in_int value) s, cf_keepalive_timeout_val := value\<rparr>))))
      else if key = ''http.keepalive.max-conn-per-client'' then
        (if value \<le> 0 then EINVALIDVAL key else Some (Inr (c\<lparr>cf_keepalive_max_conn_per_client := value\<rparr>)))
      else if key = ''http.gzip.compression-level'' then
        (if value < 1 \<or> value > 9 then Some (Inl Bad_Gzip_Level) else Some (Inr (c\<lparr>cf_gzip_level := value\<rparr>)))
      else if key = ''http.gzip.threshold'' then
        (if value < 1 then EINVALIDVAL key else Some (Inr (c\<lparr>cf_gzip_min_page_size := value\<rparr>)))
      else if key = ''server.restart-timeout'' then
        (if value < 0 then EINVALIDVAL key else Some (Inr (c\<lparr>cf_restart_timeout := value\<rparr>)))
      else Some (Inl (Unknown_Directive key line)))"

definition process_directive_bool :: "string \<Rightarrow> bool \<Rightarrow> nat \<Rightarrow> loaded_config \<Rightarrow> config_step" where
  "process_directive_bool key value line c =
     (if key = ''http.gzip.enable'' then Some (Inr (c\<lparr>cf_gzip := value\<rparr>))
      else if key = ''server.limits.requests.limit'' then Some (Inr (c\<lparr>cf_limit_req := value\<rparr>))
      else if key = ''server.limits.simultaneous-requests.limit'' then Some (Inr (c\<lparr>cf_limit_sim_req := value\<rparr>))
      else Some (Inl (Unknown_Directive key line)))"

text \<open>No directive takes a 64-bit integer or a floating point number.\<close>

definition process_directive_other :: "string \<Rightarrow> nat \<Rightarrow> config_step" where
  "process_directive_other key line = Some (Inl (Unknown_Directive key line))"

section \<open>The walk over the settings\<close>

text \<open>
  \<open>up\<close> are the names of the groups around a setting.  A setting nothing was assigned to counts as a string
  that is \<^verbatim>\<open>NULL\<close>.
\<close>

fun process_conf :: "(string \<Rightarrow> mode_t option) \<Rightarrow> string option list \<Rightarrow> config_setting_t \<Rightarrow> loaded_config \<Rightarrow> config_step"
  and process_childs :: "(string \<Rightarrow> mode_t option) \<Rightarrow> string option list \<Rightarrow> config_setting_t list \<Rightarrow> loaded_config \<Rightarrow> config_step" where
  "process_conf stat up (Setting n v f line cs) c =
     (case config_setting_path (n # up) 256 of
        None \<Rightarrow> None
      | Some (ok, name) \<Rightarrow>
          (case v of
             V_unset \<Rightarrow> None
           | V_string value \<Rightarrow> process_directive_string stat name value line c
           | V_int i \<Rightarrow> process_directive_int name i line c
           | V_int64 i \<Rightarrow> process_directive_other name line
           | V_float s \<Rightarrow> process_directive_other name line
           | V_bool b \<Rightarrow> process_directive_bool name b line c
           | V_group \<Rightarrow> process_childs stat (n # up) cs c))"
| "process_childs stat up [] c = Some (Inr c)"
| "process_childs stat up (s # cs) c =
     (case process_conf stat up s c of
        Some (Inr c') \<Rightarrow> process_childs stat up cs c'
      | r \<Rightarrow> r)"

definition load_config :: "(string \<Rightarrow> file_result) \<Rightarrow> (string \<Rightarrow> mode_t option) \<Rightarrow> string \<Rightarrow> config_step" where
  "load_config files stat path =
     (case files path of
        No_File msg \<Rightarrow> Some (Inl (No_Config_File path))
      | f \<Rightarrow>
          (case config_read files path f of
             None \<Rightarrow> None
           | Some (Inl e) \<Rightarrow> Some (Inl (Read_Error e))
           | Some (Inr root) \<Rightarrow>
               (case find (\<lambda>d. config_lookup root d = None) required_directives of
                  Some d \<Rightarrow> Some (Inl (Missing_Directive d))
                | None \<Rightarrow> process_conf stat [] root (default_config zero_config))))"


section \<open>Every accepted configuration is sound\<close>

definition step_ok :: "(loaded_config \<Rightarrow> bool) \<Rightarrow> config_step \<Rightarrow> bool" where
  "step_ok P r \<longleftrightarrow> (\<forall>c. r = Some (Inr c) \<longrightarrow> P c)"

named_theorems step_rules

lemma step_ok_simps [simp]: "step_ok P None" "step_ok P (Some (Inl e))" "step_ok P (Some (Inr c)) \<longleftrightarrow> P c"
  by (auto simp: step_ok_def)

lemma step_ok_if [step_rules]: "(b \<Longrightarrow> step_ok P x) \<Longrightarrow> (\<not> b \<Longrightarrow> step_ok P y) \<Longrightarrow> step_ok P (if b then x else y)"
  by simp

lemma step_ok_invalid [simp]: "step_ok P (EINVALIDVAL key)"
  by (simp add: EINVALIDVAL_def)

lemma step_ok_word: "P (g 0) \<Longrightarrow> P (g 1) \<Longrightarrow> step_ok P (directive_word key w0 w1 value g)"
  by (simp add: directive_word_def)

lemma step_ok_dir: "(\<And>d. is_directory_exists stat d IOAR_R \<Longrightarrow> P (g d)) \<Longrightarrow> step_ok P (directive_dir stat value g)"
  by (simp add: directive_dir_def Let_def)

lemma step_ok_file:
  "(3 \<le> length value \<Longrightarrow> last value \<noteq> CHR ''/'' \<Longrightarrow> is_path_absolute value \<Longrightarrow> P c) \<Longrightarrow> step_ok P (directive_file key value c)"
  by (simp add: directive_file_def)

lemma step_ok_listen:
  "(\<And>p a. a \<noteq> [] \<Longrightarrow> 1 \<le> p \<Longrightarrow> p \<le> 65535 \<Longrightarrow> P (c\<lparr>http_port := p, http_server_tcp_addr := Some a\<rparr>)) \<Longrightarrow> step_ok P (directive_listen value c)"
  by (simp add: directive_listen_def Let_def)

definition config_valid :: "(string \<Rightarrow> mode_t option) \<Rightarrow> loaded_config \<Rightarrow> bool" where
  "config_valid stat c \<longleftrightarrow>
     (2 \<le> cf_worker_threads c \<and> 2 \<le> cf_prealloc_request_structures c \<and> 1 \<le> cf_limit_rate c \<and> 1 \<le> cf_limit_delay c \<and>
      1 \<le> cf_limit_sim_threshold c \<and> 1 \<le> cf_keepalive_max_conn_per_client c \<and> 1 \<le> cf_gzip_min_page_size c \<and>
      0 \<le> cf_restart_timeout c \<and> 1 \<le> cf_gzip_level c \<and> cf_gzip_level c \<le> 9) \<and>
     (cf_tpl_cache_update c \<in> {0, 1} \<and> cf_cache_update c \<in> {0, 1} \<and> cf_script_update c \<in> {0, 1} \<and> cf_idle_request_structures c \<in> {0, 1}) \<and>
     (if cf_keepalive_timeout_val c = 0 then cf_keepalive_timeout c = ''25''
      else 0 < cf_keepalive_timeout_val c \<and> cf_keepalive_timeout c = numeral_of 10 (nat (cf_keepalive_timeout_val c))) \<and>
     (2 < length (cf_cache_prefix c) \<and> hd (cf_cache_prefix c) = CHR ''/'' \<and> last (cf_cache_prefix c) = CHR ''/'') \<and>
     (\<forall>a. http_server_tcp_addr c = Some a \<longrightarrow> a \<noteq> [] \<and> 1 \<le> http_port c \<and> http_port c \<le> 65535) \<and>
     (\<forall>p. p \<in> {cf_pid c, cf_log c} \<longrightarrow> (\<forall>f. p = Some f \<longrightarrow> 3 \<le> length f \<and> last f \<noteq> CHR ''/'' \<and> is_path_absolute f)) \<and>
     (\<forall>d. d \<in> {cf_document_root c, cf_data c} \<longrightarrow> (\<forall>f. d = Some f \<longrightarrow> is_directory_exists stat f IOAR_R)) \<and>
     (\<forall>t. cf_temp_dir c = Some t \<longrightarrow> t \<noteq> [] \<and> last t = CHR ''/'' \<and> (\<exists>d \<in> {t, butlast t}. is_directory_exists stat d IOAR_RW)) \<and>
     (\<forall>t. cf_template_name c = Some t \<longrightarrow> t \<noteq> [])"

lemma default_config_valid: "config_valid stat (default_config zero_config)"
  by (simp add: config_valid_def default_config_def zero_config_def)

lemma string_directive_valid:
  assumes "config_valid stat c"
  shows "step_ok (config_valid stat) (process_directive_string stat key value line c)"
  unfolding process_directive_string_def
  apply (intro step_rules)
  subgoal using assms by (intro step_ok_listen) (simp add: config_valid_def)
  subgoal using assms by (simp add: config_valid_def)
  subgoal using assms by (simp add: config_valid_def)
  subgoal using assms by (intro step_ok_file) (auto simp: config_valid_def)
  subgoal using assms by (intro step_ok_file) (auto simp: config_valid_def)
  subgoal using assms by (intro step_ok_dir) (auto simp: config_valid_def)
  subgoal by simp
  subgoal by simp
  subgoal using assms by (auto simp: config_valid_def)
  subgoal using assms by (intro step_ok_dir) (auto simp: config_valid_def)
  subgoal by simp
  subgoal using assms by (simp add: config_valid_def)
  subgoal using assms by (intro step_ok_word) (simp_all add: config_valid_def)
  subgoal by simp
  subgoal by simp
  subgoal using assms by (cases "value") (auto simp: config_valid_def not_less)
  subgoal using assms by (intro step_ok_word) (simp_all add: config_valid_def)
  subgoal using assms by (simp add: config_valid_def)
  subgoal using assms by (intro step_ok_word) (simp_all add: config_valid_def)
  subgoal using assms by (intro step_ok_word) (simp_all add: config_valid_def)
  subgoal using assms by (simp add: config_valid_def)
  subgoal using assms by (simp add: config_valid_def)
  subgoal by simp
  done

lemma keepalive_text:
  assumes "0 < value"
  shows "\<exists>s. int_to_str value 10 = Some s \<and> digits_in_int value = length s \<and> s = numeral_of 10 (nat value)"
proof -
  have "int_to_str value 10 = Some (numeral_of 10 (nat value))" using x_to_str_numeral [of 10 "value"] assms by (simp add: int_to_str_def)
  moreover have "length (numeral_of 10 (nat value)) = digits_in_int value"
    using digits_in_int_loop_numeral [of "value" 1] assms by (simp add: digits_in_int_def)
  ultimately show ?thesis by simp
qed

lemma int_directive_valid:
  assumes "config_valid stat c"
  shows "step_ok (config_valid stat) (process_directive_int key value line c)"
proof -
  have k: "step_ok (config_valid stat) (case int_to_str value 10 of None \<Rightarrow> None
      | Some s \<Rightarrow> if digits_in_int value < length s then None
          else Some (Inr (c\<lparr>cf_keepalive_timeout := take (digits_in_int value) s, cf_keepalive_timeout_val := value\<rparr>)))" if "0 < value"
    using keepalive_text [OF that] assms that by (auto simp: config_valid_def)
  show ?thesis unfolding process_directive_int_def
    by (intro step_rules step_ok_simps step_ok_invalid k) (use assms in \<open>simp_all add: config_valid_def\<close>)
qed

lemma bool_directive_valid:
  assumes "config_valid stat c"
  shows "step_ok (config_valid stat) (process_directive_bool key value line c)"
  unfolding process_directive_bool_def by (intro step_rules) (use assms in \<open>simp_all add: config_valid_def\<close>)


lemma process_conf_valid:
  "config_valid stat c \<Longrightarrow> step_ok (config_valid stat) (process_conf stat up s c)"
  "config_valid stat c \<Longrightarrow> step_ok (config_valid stat) (process_childs stat up cs c)"
proof (induction stat up s c and stat up cs c rule: process_conf_process_childs.induct)
  case (1 stat up n v f line cs c)
  show ?case
  proof (cases "config_setting_path (n # up) 256")
    case (Some r)
    obtain ok name where r: "r = (ok, name)" by (cases r)
    show ?thesis using Some r 1 string_directive_valid int_directive_valid bool_directive_valid
      by (cases v) (auto simp: process_directive_other_def)
  qed simp
next
  case (3 stat up s cs c)
  show ?case
  proof (cases "process_conf stat up s c")
    case (Some r)
    then show ?thesis using 3 by (cases r) auto
  qed simp
qed simp

section \<open>The directives that are required\<close>

definition mandatory :: "(string \<times> (loaded_config \<Rightarrow> string option)) list" where
  "mandatory =
     [(''server.listen'', http_server_tcp_addr), (''server.user'', cf_user), (''server.group'', cf_group), (''server.pid-file'', cf_pid),
      (''server.log-file'', cf_log), (''server.data'', cf_data), (''http.document-root'', cf_document_root), (''http.temp'', cf_temp_dir),
      (''template.name'', cf_template_name), (''database.servers'', cf_db_servers)]"

definition keeps_set :: "loaded_config \<Rightarrow> loaded_config \<Rightarrow> bool" where
  "keeps_set c c' \<longleftrightarrow> list_all2 (\<lambda>a b. a \<noteq> None \<longrightarrow> b \<noteq> None) (map (\<lambda>m. snd m c) mandatory) (map (\<lambda>m. snd m c') mandatory)"

lemma keeps_setD: "keeps_set c c' \<Longrightarrow> m \<in> set mandatory \<Longrightarrow> snd m c \<noteq> None \<Longrightarrow> snd m c' \<noteq> None"
  by (auto simp: keeps_set_def list_all2_conv_all_nth in_set_conv_nth)

lemma keeps_set_refl [simp]: "keeps_set c c"
  by (simp add: keeps_set_def list_all2_conv_all_nth)

lemma keeps_set_trans: "keeps_set a b \<Longrightarrow> keeps_set b c \<Longrightarrow> keeps_set a c"
  by (auto simp: keeps_set_def list_all2_conv_all_nth)

lemma keeps_set_iff:
  "keeps_set c c' \<longleftrightarrow> list_all2 (\<lambda>a b. a \<noteq> None \<longrightarrow> b \<noteq> None)
     [http_server_tcp_addr c, cf_user c, cf_group c, cf_pid c, cf_log c, cf_data c, cf_document_root c, cf_temp_dir c, cf_template_name c, cf_db_servers c]
     [http_server_tcp_addr c', cf_user c', cf_group c', cf_pid c', cf_log c', cf_data c', cf_document_root c', cf_temp_dir c', cf_template_name c', cf_db_servers c']"
  by (simp add: keeps_set_def mandatory_def)

lemma string_directive_keeps: "step_ok (keeps_set c) (process_directive_string stat key value line c)"
  unfolding process_directive_string_def
  by (intro step_rules step_ok_listen step_ok_file step_ok_dir step_ok_word step_ok_invalid step_ok_simps) (simp_all add: keeps_set_iff)

lemma int_directive_keeps: "step_ok (keeps_set c) (process_directive_int key value line c)"
  unfolding process_directive_int_def
  by (intro step_rules step_ok_invalid step_ok_simps) (simp_all add: keeps_set_iff split: option.split)

lemma bool_directive_keeps: "step_ok (keeps_set c) (process_directive_bool key value line c)"
  unfolding process_directive_bool_def by (intro step_rules) (simp_all add: keeps_set_iff)

lemma process_conf_keeps:
  "step_ok (keeps_set c) (process_conf stat up s c)"
  "step_ok (keeps_set c) (process_childs stat up cs c)"
proof (induction stat up s c and stat up cs c rule: process_conf_process_childs.induct)
  case (1 stat up n v f line cs c)
  show ?case
  proof (cases "config_setting_path (n # up) 256")
    case (Some r)
    obtain ok name where r: "r = (ok, name)" by (cases r)
    show ?thesis using Some r 1 string_directive_keeps int_directive_keeps bool_directive_keeps
      by (cases v) (auto simp: process_directive_other_def)
  qed simp
next
  case (3 stat up s cs c)
  show ?case
  proof (cases "process_conf stat up s c")
    case (Some r)
    show ?thesis
    proof (cases r)
      case (Inr c')
      then have "keeps_set c c'" "step_ok (keeps_set c') (process_childs stat up cs c')" using 3 Some by auto
      then show ?thesis using Some Inr keeps_set_trans unfolding step_ok_def by (metis option.simps(5) sum.simps(6) process_childs.simps(2))
    qed (use Some in simp)
  qed simp
qed simp


lemma mandatory_keys:
  assumes "m \<in> set mandatory"
  shows "fst m \<in> {''server.listen'', ''server.user'', ''server.group'', ''server.pid-file'', ''server.log-file'', ''server.data'',
      ''http.document-root'', ''http.temp'', ''template.name'', ''database.servers''}"
  using assms by (auto simp: mandatory_def)

lemma string_directive_sets:
  assumes "m \<in> set mandatory"
  shows "step_ok (\<lambda>c'. snd m c' \<noteq> None) (process_directive_string stat (fst m) value line c)"
  using assms unfolding mandatory_def
  by (simp, elim disjE)
    (simp_all add: process_directive_string_def step_ok_listen step_ok_file step_ok_dir)

lemma other_directives_fail:
  assumes "m \<in> set mandatory"
  shows "process_directive_int (fst m) i line c = Some (Inl (Unknown_Directive (fst m) line))"
    "process_directive_bool (fst m) b line c = Some (Inl (Unknown_Directive (fst m) line))"
  using assms unfolding mandatory_def
  by (simp, elim disjE, simp_all add: process_directive_int_def process_directive_bool_def)+

lemma mandatory_short: "m \<in> set mandatory \<Longrightarrow> fst m \<noteq> [] \<and> length (fst m) < 256"
  using mandatory_keys [of m] by auto

definition is_scalar :: "config_setting_t \<Rightarrow> bool" where
  "is_scalar x \<longleftrightarrow> st_value x \<noteq> V_group"

lemma own_path_rev: "own_path (rev (named_parts up)) s = rev (named_parts (st_name s # up))"
  by (cases "st_name s") (simp_all add: own_path_def)

lemma process_leaf:
  assumes "m \<in> set mandatory" "join_path (own_path (rev (named_parts up)) s) = fst m" "is_scalar s"
  shows "step_ok (\<lambda>c'. snd m c' \<noteq> None) (process_conf stat up s c)"
proof (cases s)
  case (Setting n v f line cs)
  have j: "join_path (rev (named_parts (n # up))) = fst m" using assms(2) own_path_rev [of up s] Setting by simp
  then have "named_parts (n # up) \<noteq> []" using mandatory_short [OF assms(1)] by auto
  then have p: "config_setting_path (n # up) 256 = Some (True, fst m)"
    using config_setting_path_law [of "n # up" 256] j mandatory_short [OF assms(1)] by simp
  show ?thesis using Setting p assms(3) string_directive_sets [OF assms(1)] other_directives_fail [OF assms(1)]
    by (cases v) (simp_all add: is_scalar_def process_directive_other_def)
qed

lemma process_sets:
  assumes "m \<in> set mandatory" "join_path ps = fst m" "is_scalar x"
  shows "(ps, x) \<in> set (settings_below (rev (named_parts up)) s) \<Longrightarrow> setting_ok s \<Longrightarrow> step_ok (\<lambda>c'. snd m c' \<noteq> None) (process_conf stat up s c)"
    "\<exists>s \<in> set cs. (ps, x) \<in> set (settings_below (rev (named_parts up)) s) \<Longrightarrow> list_all setting_ok cs \<Longrightarrow> step_ok (\<lambda>c'. snd m c' \<noteq> None) (process_childs stat up cs c)"
proof (induction stat up s c and stat up cs c rule: process_conf_process_childs.induct)
  case (1 stat up n v f line cs c)
  let ?s = "Setting n v f line cs"
  consider (here) "ps = own_path (rev (named_parts up)) ?s" "x = ?s"
    | (below) "\<exists>s \<in> set cs. (ps, x) \<in> set (settings_below (rev (named_parts (n # up))) s)"
    using 1(2) own_path_rev [of up ?s] unfolding settings_below_eq [of _ ?s] by auto
  then show ?case
  proof cases
    case here
    then show ?thesis using process_leaf [OF assms(1), of up ?s] assms(2,3) by simp
  next
    case below
    then have "cs \<noteq> []" by auto
    then have v: "v = V_group \<or> v = V_unset" and cs: "list_all setting_ok cs" using 1(3) by (auto simp: setting_ok_iff group_ok_def)
    show ?thesis
    proof (cases "config_setting_path (n # up) 256")
      case (Some r)
      obtain ok name where r: "r = (ok, name)" by (cases r)
      show ?thesis using v 1(1) [OF Some r [symmetric] _ below cs] Some r by auto
    qed simp
  qed
next
  case (3 stat up s cs c)
  show ?case
  proof (cases "process_conf stat up s c")
    case (Some r)
    show ?thesis
    proof (cases r)
      case (Inr c')
      have kept: "step_ok (keeps_set c') (process_childs stat up cs c')" by (rule process_conf_keeps)
      show ?thesis
      proof (cases "\<exists>s \<in> set cs. (ps, x) \<in> set (settings_below (rev (named_parts up)) s)")
        case True
        then show ?thesis using 3 Some Inr by simp
      next
        case False
        then have "snd m c' \<noteq> None" using 3 Some Inr by simp
        then have "step_ok (\<lambda>c'. snd m c' \<noteq> None) (process_childs stat up cs c')"
          using kept keeps_setD [OF _ assms(1)] unfolding step_ok_def by blast
        then show ?thesis using Some Inr by simp
      qed
    qed (use Some in simp)
  qed simp
qed simp


lemma setting_ok_below: "setting_ok s \<Longrightarrow> (ps, x) \<in> set (settings_below path s) \<Longrightarrow> setting_ok x"
proof (induction s arbitrary: path)
  case (Setting n v f l cs)
  have "list_all setting_ok cs" using Setting.prems(1) by (simp add: setting_ok_iff group_ok_def)
  then show ?case using Setting.IH Setting.prems unfolding settings_below_eq [of path] by (auto simp: list_all_iff)
qed

lemma required_pieces: "d \<in> set required_directives \<Longrightarrow> list_all (\<lambda>p. p \<noteq> []) (split_path d)"
  by (auto simp: required_directives_def)

lemma join_split_path: "join_path (split_path p) = p"
proof (induction p)
  case (Cons c p)
  have "split_path p \<noteq> []" by (induction p) (auto split: list.split)
  then show ?case using Cons by (cases "split_path p") (auto simp: join_path_Cons split: if_splits)
qed (simp add: join_path_Cons)

lemma mandatory_required: "m \<in> set mandatory \<Longrightarrow> fst m \<in> set required_directives"
  using mandatory_keys [of m] unfolding required_directives_def by auto

lemma load_config_root:
  assumes "load_config files stat path = Some (Inr c)"
  obtains root where "config_read files path (files path) = Some (Inr root)"
    "\<forall>d \<in> set required_directives. config_lookup root d \<noteq> None"
    "process_conf stat [] root (default_config zero_config) = Some (Inr c)"
proof -
  obtain r where r: "config_read files path (files path) = Some r"
    using assms by (cases "config_read files path (files path)") (auto simp: load_config_def split: file_result.splits)
  obtain root where root: "r = Inr root" using assms r by (cases r) (auto simp: load_config_def split: file_result.splits)
  have f: "find (\<lambda>d. config_lookup root d = None) required_directives = None"
    using assms r root by (auto simp: load_config_def split: file_result.splits option.splits)
  then have "process_conf stat [] root (default_config zero_config) = Some (Inr c)"
    using assms r root by (auto simp: load_config_def split: file_result.splits)
  moreover have "\<forall>d \<in> set required_directives. config_lookup root d \<noteq> None" using f by (auto simp: find_None_iff)
  ultimately show ?thesis using that r root by blast
qed

lemma load_config_mandatory:
  assumes "load_config files stat path = Some (Inr c)" "config_read files path (files path) = Some (Inr root)" "m \<in> set mandatory"
    and scalar: "\<And>x. find_setting root (split_path (fst m)) = Some x \<Longrightarrow> is_scalar x \<and> st_childs x = []"
  shows "snd m c \<noteq> None"
proof -
  have found: "config_lookup root (fst m) \<noteq> None" and pc: "process_conf stat [] root (default_config zero_config) = Some (Inr c)"
    using load_config_root [OF assms(1)] assms(2) mandatory_required [OF assms(3)] by auto
  obtain n v f l cs where s: "root = Setting n v f l cs" by (cases root)
  have g: "n = None" "group_ok cs" using config_read_group_ok [OF assms(2)] s by auto
  have "v = V_group \<or> v = V_unset" using config_read_group_ok [OF assms(2)] s by simp
  moreover have "v \<noteq> V_unset" using pc s by (auto split: option.splits)
  ultimately have ok: "setting_ok root" using s g by (simp add: setting_ok_iff value_ok_def)
  have "config_lookup root (fst m) = find_setting root (split_path (fst m))"
    using config_lookup_law [OF required_pieces [OF mandatory_required [OF assms(3)]]] scalar by blast
  then obtain x where x: "find_setting root (split_path (fst m)) = Some x" using found by auto
  then have "(own_path [] root @ split_path (fst m), x) \<in> set (settings_below [] root)" by (rule find_setting_below)
  then have "(split_path (fst m), x) \<in> set (settings_below (rev (named_parts [])) root)" using s g(1) by (simp add: own_path_def)
  then have "step_ok (\<lambda>c'. snd m c' \<noteq> None) (process_conf stat [] root (default_config zero_config))"
    using scalar [OF x] ok by (intro process_sets(1) [OF assms(3)]) (auto simp: join_split_path)
  then show ?thesis using pc by simp
qed


definition no_groups :: "config_setting_t \<Rightarrow> bool" where
  "no_groups root \<longleftrightarrow> list_all (\<lambda>d. case find_setting root (split_path d) of None \<Rightarrow> True | Some x \<Rightarrow> is_scalar x \<and> st_childs x = []) required_directives"

lemma load_config_valid_law: "load_config files stat path = Some (Inr c) \<Longrightarrow> config_valid stat c"
  using load_config_root [of files stat path c] process_conf_valid(1) [OF default_config_valid] by (metis step_ok_simps(3))

lemma no_groupsD: "no_groups root \<Longrightarrow> m \<in> set mandatory \<Longrightarrow> find_setting root (split_path (fst m)) = Some x \<Longrightarrow> is_scalar x \<and> st_childs x = []"
  using mandatory_required [of m] by (fastforce simp: no_groups_def list_all_iff)

text \<open>
  C31.  A configuration the server starts with is sound: every number is in the range its directive requires, the
  text of the keep-alive time is its number in decimal (the default excepted), the cache prefix begins and
  ends with a slash, the directories were there with the access they need, the paths of the log and the
  process id are absolute; and if none of the required directives was given as a group, every required value
  is set and the port lies between 1 and 65535.
\<close>

theorem load_config_valid:
  assumes "load_config files stat path = Some (Inr c)" "config_read files path (files path) = Some (Inr root)" "no_groups root"
  shows "config_valid stat c \<and> (\<forall>m \<in> set mandatory. snd m c \<noteq> None) \<and> 1 \<le> http_port c \<and> http_port c \<le> 65535"
proof -
  have v: "config_valid stat c" by (rule load_config_valid_law [OF assms(1)])
  have m: "\<forall>m \<in> set mandatory. snd m c \<noteq> None"
    using load_config_mandatory [OF assms(1,2)] no_groupsD [OF assms(3)] by blast
  then have "http_server_tcp_addr c \<noteq> None" unfolding mandatory_def by simp
  then show ?thesis using v m by (auto simp: config_valid_def)
qed

definition sample_text :: string where
  "sample_text = (let q = (\<lambda>s. CHR 0x22 # s @ [CHR 0x22]) in
     ''server:{listen:'' @ q ''h:80'' @ ''user:'' @ q ''u'' @ ''group:'' @ q ''g'' @ ''pid-file:'' @ q ''/pid'' @ ''log-file:'' @ q ''/log'' @
     ''data:'' @ q ''/d'' @ ''}http:{document-root:'' @ q ''/r'' @ ''temp:'' @ q ''/t'' @ ''cache:{prefix:'' @ q ''/c'' @ ''update:'' @ q ''never'' @
     ''}}template:{name:'' @ q ''n'' @ ''}database:{servers:'' @ q ''m'' @ ''}'')"

definition sample_tree :: config_setting_t where
  "sample_tree = (let g = (\<lambda>n cs. Setting (Some n) V_group ''s'' 1 cs); t = (\<lambda>n v. Setting (Some n) (V_string v) ''s'' 1 []) in
     Setting None V_group ''s'' 0
       [g ''server'' [t ''listen'' ''h:80'', t ''user'' ''u'', t ''group'' ''g'', t ''pid-file'' ''/pid'', t ''log-file'' ''/log'', t ''data'' ''/d''],
        g ''http'' [t ''document-root'' ''/r'', t ''temp'' ''/t'', g ''cache'' [t ''prefix'' ''/c'', t ''update'' ''never'']],
        g ''template'' [t ''name'' ''n''], g ''database'' [t ''servers'' ''m'']])"

theorem load_config_valid_witness:
  "\<exists>c. load_config (\<lambda>f. Content sample_text) (\<lambda>f. Some 0x41FF) ''s'' = Some (Inr c) \<and>
     config_valid (\<lambda>f. Some 0x41FF) c \<and> (\<forall>m \<in> set mandatory. snd m c \<noteq> None) \<and> 1 \<le> http_port c \<and> http_port c \<le> 65535"
proof -
  have root: "config_read (\<lambda>f. Content sample_text) ''s'' (Content sample_text) = Some (Inr sample_tree)" by code_simp
  have lookups: "find (\<lambda>d. config_lookup sample_tree d = None) required_directives = None" and g: "no_groups sample_tree" by code_simp+
  have "\<exists>c. process_conf (\<lambda>f. Some 0x41FF) [] sample_tree (default_config zero_config) = Some (Inr c)" by (rule exI) code_simp
  then obtain c where "process_conf (\<lambda>f. Some 0x41FF) [] sample_tree (default_config zero_config) = Some (Inr c)" by blast
  then have c: "load_config (\<lambda>f. Content sample_text) (\<lambda>f. Some 0x41FF) ''s'' = Some (Inr c)"
    unfolding load_config_def file_result.case root by (simp only: option.case sum.case lookups)
  from load_config_valid [OF c root g] c show ?thesis by blast
qed

text \<open>
  The checks leave two gaps.  An address without a port, such as the name of a local socket, is not refused
  but makes the server read in front of the text; and a required directive that is given as an empty group
  passes as present although nothing is set.
\<close>

theorem load_config_gaps:
  "(value \<noteq> [] \<and> CHR '':'' \<notin> set value \<longrightarrow> process_directive_string stat ''server.listen'' value line c = None) \<and>
   config_lookup (Setting None V_group f 0 [Setting (Some ''server'') V_group f 1 [Setting (Some ''user'') V_group f 2 []]]) ''server.user'' \<noteq> None \<and>
   process_conf stat [] (Setting None V_group f 0 [Setting (Some ''server'') V_group f 1 [Setting (Some ''user'') V_group f 2 []]]) c = Some (Inr c)"
proof -
  have "config_setting_path [None] 256 = Some (False, [])" "config_setting_path [Some ''server'', None] 256 = Some (True, ''server'')"
    "config_setting_path [Some ''user'', Some ''server'', None] 256 = Some (True, ''server.user'')"
    by (simp_all add: config_setting_path_law join_path_Cons)
  then show ?thesis
    by (simp add: process_directive_string_def directive_listen_def config_lookup_def config_find_child_by_name_def named_def)
qed

theorem load_config_gaps_witness: "process_directive_string (\<lambda>f. None) ''server.listen'' ''localhost'' 1 zero_config = None"
  using load_config_gaps [of "''localhost''" "\<lambda>f. None" 1 zero_config] by simp

text \<open>
  A server whose configuration says nothing about the keep-alive time announces 25 seconds to its clients
  but keeps connections for 0 seconds.
\<close>

theorem default_keepalive:
  "cf_keepalive_timeout (default_config zero_config) = ''25'' \<and> cf_keepalive_timeout_val (default_config zero_config) = 0"
  by (simp add: default_config_def zero_config_def)

end
