(* ===== verification/Templates.thy ===== *)
theory Templates
  imports Buffers Common_Strings
begin

text \<open>
  The compiler of \<^verbatim>\<open>templates.c\<close>: included files are gathered into one text, the blocks of the text are
  found and turned into a vector of pieces (texts and variables), and the vector is kept with the text
  behind it.  The text is in memory, \<open>i\<close> an offset in it; the search for blocks with a regular expression
  (\<^verbatim>\<open>pcre_exec\<close>), the checksum (\<^verbatim>\<open>adler32\<close>) and the files are parameters.
\<close>

section \<open>Included files\<close>

text \<open>\<^verbatim>\<open>strstr\<close> and \<^verbatim>\<open>strchr\<close>: the place found, if any; outside of the memory they fault.\<close>

function strstr_at :: "string \<Rightarrow> mem \<Rightarrow> nat \<Rightarrow> nat option option" where
  "strstr_at n m i =
     (if i < length m
      then do { b \<leftarrow> matches_at m i n;
                if b then Some (Some i) else if m ! i = NUL then Some None else strstr_at n m (Suc i) }
      else None)"
  by pat_completeness auto
termination by (relation "measure (\<lambda>(n, m, i). length m - i)") auto

declare strstr_at.simps [simp del]

function strchr_at :: "char \<Rightarrow> mem \<Rightarrow> nat \<Rightarrow> nat option option" where
  "strchr_at c m i =
     (if i < length m
      then if m ! i = c then Some (Some i) else if m ! i = NUL then Some None else strchr_at c m (Suc i)
      else None)"
  by pat_completeness auto
termination by (relation "measure (\<lambda>(c, m, i). length m - i)") auto

declare strchr_at.simps [simp del]

definition cmd_include :: string where "cmd_include = ''{include ''"

abbreviation QUOTATION :: char where "QUOTATION \<equiv> CHR 0x22"

text \<open>The name of the file to include and the places of its end, for a command found at \<open>found\<close>.\<close>

definition include_name :: "mem \<Rightarrow> nat \<Rightarrow> (nat \<times> nat) option option" where
  "include_name m found =
     do { let f = found + length cmd_include;
          q \<leftarrow> rd m f;
          let f = (if q = QUOTATION then f + 1 else f);
          e \<leftarrow> strchr_at CHR ''}'' m f;
          (case e of
             None \<Rightarrow> Some None
           | Some e \<Rightarrow>
               do { p \<leftarrow> rd m (e - 1);
                    let e = (if p = QUOTATION then e - 1 else e);
                    Some (Some (if e < f then (f - 1, e + 1) else (f, e))) }) }"

text \<open>
  \<^verbatim>\<open>gather_into_single_file\<close>: every command is replaced by the contents of its file, and the search goes on at
  the beginning of these.  The flag is \<^term>\<open>False\<close> if a file cannot be loaded; the loop does not end for a file that
  includes itself.  \<open>u\<close> is what fresh memory holds.
\<close>

partial_function (option) gather_into_single_file ::
  "(string \<Rightarrow> str_t option) \<Rightarrow> char \<Rightarrow> str_t \<Rightarrow> nat \<Rightarrow> (bool \<times> str_t) option" where
  "gather_into_single_file files u c offset =
     do { r \<leftarrow> strstr_at cmd_include (s_str c) offset;
          (case r of
             None \<Rightarrow> Some (True, c)
           | Some found \<Rightarrow>
               do { n \<leftarrow> include_name (s_str c) found;
                    (case n of
                       None \<Rightarrow> Some (True, c)
                     | Some (f, e) \<Rightarrow>
                         do { m \<leftarrow> wr (s_str c) e NUL;
                              (case files (seg m f e) of
                                 None \<Rightarrow> Some (False, c\<lparr>s_str := m\<rparr>)
                               | Some inc \<Rightarrow>
                                   do { b \<leftarrow> rd m (e + 1);
                                        let e = (if b = CHR ''}'' then e + 1 else e) + 1;
                                        t \<leftarrow> strchr_at NUL m e;
                                        let len = s_len c + s_len inc - (e - found);
                                        let data = take found m @ take (s_len inc) (s_str inc) @ seg m e (the t) @ [NUL];
                                        if length data \<le> len + 1
                                        then gather_into_single_file files u
                                          \<lparr>s_str = data @ replicate (len + 1 - length data) u, s_len = len\<rparr> found
                                        else None }) }) }) }"

declare gather_into_single_file.simps [code]

section \<open>Vectors of pieces\<close>

datatype tpl_block_types = TPL_TYPE_TEXT | TPL_TYPE_VAR | TPL_TYPE_BLOCK | TPL_TYPE_TERM

text \<open>
  A piece; \<open>tb_content_length\<close> is the union of the length of a text and the checksum of a variable.  Fields of a fresh
  piece that the code does not set come from the junk piece \<open>j\<close>.
\<close>

record tpl_block =
  tb_content_offset :: nat
  tb_content_length :: "32 word"
  tb_block_checksum :: "32 word"
  tb_block_length :: int
  tb_type :: tpl_block_types

definition TPL_BLOCK_SIZE :: nat where "TPL_BLOCK_SIZE = 24"

text \<open>A vector ends with a piece of type \<^verbatim>\<open>TPL_TYPE_TERM\<close>; its size includes that.\<close>

fun calculate_vector_size :: "tpl_block list \<Rightarrow> nat option" where
  "calculate_vector_size [] = None"
| "calculate_vector_size (b # bs) = (if tb_type b = TPL_TYPE_TERM then Some 1 else map_option Suc (calculate_vector_size bs))"

definition adjust_offsets :: "nat \<Rightarrow> tpl_block list \<Rightarrow> tpl_block list option" where
  "adjust_offsets add v =
     do { n \<leftarrow> calculate_vector_size v;
          let add = (if add = 0 then TPL_BLOCK_SIZE * n else add);
          Some (map (\<lambda>b. b\<lparr>tb_content_offset := tb_content_offset b + add\<rparr>) (take (n - 1) v) @ drop (n - 1) v) }"

definition IS_VALID_TPL_VARIABLE_CHARACTER :: "char \<Rightarrow> bool" where
  "IS_VALID_TPL_VARIABLE_CHARACTER x \<longleftrightarrow>
     (of_char x \<ge> (97::nat) \<and> of_char x \<le> (122::nat)) \<or> (of_char x \<ge> (65::nat) \<and> of_char x \<le> (90::nat)) \<or>
     (of_char x \<ge> (48::nat) \<and> of_char x \<le> (57::nat)) \<or> x = CHR ''-'' \<or> x = CHR ''_'' \<or> x = CHR '' ''"

text \<open>The end of the name of a variable; \<^term>\<open>False\<close> at a character that no name has.\<close>

function name_end :: "mem \<Rightarrow> nat \<Rightarrow> (bool \<times> nat) option" where
  "name_end m i =
     (if i < length m
      then if m ! i = CHR ''}'' then Some (True, i)
           else if \<not> IS_VALID_TPL_VARIABLE_CHARACTER (m ! i) then Some (False, i)
           else name_end m (Suc i)
      else None)"
  by pat_completeness auto
termination by (relation "measure (\<lambda>(m, i). length m - i)") auto

declare name_end.simps [simp del]

definition cmd_var :: string where "cmd_var = ''{$ ''"

text \<open>
  \<^verbatim>\<open>parse_variables\<close> on the text of \<open>len\<close> bytes at \<open>p\<close>.  The search is \<^verbatim>\<open>strstr\<close>'s: it does not stop at the
  end of this text but at the terminator of the memory.  The lengths are 32 bits wide.
\<close>

partial_function (option) parse_variables_from ::
  "(string \<Rightarrow> 32 word) \<Rightarrow> tpl_block \<Rightarrow> mem \<Rightarrow> nat \<Rightarrow> nat \<Rightarrow> nat \<Rightarrow> tpl_block list \<Rightarrow> tpl_block list option option" where
  "parse_variables_from adler j m p len offset v =
     do { r \<leftarrow> strstr_at cmd_var m (p + offset);
          (case r of
             None \<Rightarrow>
               (let n = length v + 2; t = TPL_BLOCK_SIZE * n + len in
                Some (Some (v @
                  [j\<lparr>tb_type := TPL_TYPE_TEXT, tb_content_offset := offset, tb_content_length := of_nat len - of_nat offset, tb_block_length := 0\<rparr>,
                   j\<lparr>tb_type := TPL_TYPE_TERM, tb_content_offset := t, tb_content_length := of_nat t\<rparr>])))
           | Some found \<Rightarrow>
               do { let v = (if found \<noteq> p + offset
                      then v @ [j\<lparr>tb_type := TPL_TYPE_TEXT, tb_content_offset := offset, tb_content_length := of_nat (found - (p + offset)), tb_block_length := 0\<rparr>]
                      else v);
                    let f = found + length cmd_var;
                    (ok, e) \<leftarrow> name_end m f;
                    if \<not> ok then Some None
                    else if e = f then Some None
                    else do {
                      x \<leftarrow> rd m (e - 1);
                      let braceend = e + 1;
                      let e = (if x = CHR '' '' then e - 1 else e);
                      parse_variables_from adler j m p len (braceend - p)
                        (v @ [j\<lparr>tb_type := TPL_TYPE_VAR, tb_content_offset := f - p, tb_content_length := adler (seg m f e), tb_block_length := 0\<rparr>]) } }) }"

declare parse_variables_from.simps [code]

definition parse_variables :: "(string \<Rightarrow> 32 word) \<Rightarrow> tpl_block \<Rightarrow> mem \<Rightarrow> nat \<Rightarrow> nat \<Rightarrow> tpl_block list option option" where
  "parse_variables adler j m p len = parse_variables_from adler j m p len 0 []"

definition concat_vectors :: "tpl_block \<Rightarrow> tpl_block list option \<Rightarrow> tpl_block list option \<Rightarrow> tpl_block list option option" where
  "concat_vectors j v1 v2 =
     (case v1 of
        None \<Rightarrow> Some v2
      | Some w1 \<Rightarrow>
          (case v2 of
             None \<Rightarrow> Some v1
           | Some w2 \<Rightarrow>
               do { n1 \<leftarrow> calculate_vector_size w1;
                    n2 \<leftarrow> calculate_vector_size w2;
                    Some (Some (take (n1 - 1) w1 @ take (n2 - 1) w2 @
                      [j\<lparr>tb_type := TPL_TYPE_TERM, tb_content_offset := 0, tb_content_length := 0\<rparr>])) }))"

section \<open>Blocks\<close>

text \<open>
  The pieces of a text of the current block \<open>cur\<close>, put between \<open>v1\<close> and \<open>v2\<close>; \<^term>\<open>None\<close> inside is the error of
  \<^verbatim>\<open>parse_variables\<close>.
\<close>

definition block_pieces ::
  "(string \<Rightarrow> 32 word) \<Rightarrow> tpl_block \<Rightarrow> mem \<Rightarrow> tpl_block \<Rightarrow> nat \<Rightarrow> nat \<Rightarrow> tpl_block list option option" where
  "block_pieces adler j m cur p len =
     do { r \<leftarrow> parse_variables adler j m p len;
          (case r of
             None \<Rightarrow> Some None
           | Some v \<Rightarrow>
               do { v \<leftarrow> (if p \<noteq> 0 then adjust_offsets p v else Some v);
                    n \<leftarrow> calculate_vector_size v;
                    Some (Some (map (\<lambda>b. b\<lparr>tb_block_checksum := tb_block_checksum cur\<rparr>) (take (n - 1) v) @ drop (n - 1) v)) }) }"

text \<open>\<^verbatim>\<open>while (str[len - 1] != '{') len--\<close>, on the place of the end.\<close>

fun open_brace :: "mem \<Rightarrow> nat \<Rightarrow> nat option" where
  "open_brace m 0 = None"
| "open_brace m (Suc i) = do { x \<leftarrow> rd m i; if x \<noteq> CHR ''{'' then open_brace m i else Some (Suc i) }"

definition size_diff :: "nat \<Rightarrow> nat \<Rightarrow> nat" where
  "size_diff a b = nat ((int a - int b) mod 2 ^ 64)"

text \<open>The marks of the first and the last piece of a block.\<close>

definition mark_block :: "tpl_block list \<Rightarrow> tpl_block list option" where
  "mark_block v =
     do { n \<leftarrow> calculate_vector_size v;
          let l = n - 1;
          let v = v[0 := (v ! 0)\<lparr>tb_block_length := int l\<rparr>];
          Some (if l > 1 then v[l - 1 := (v ! (l - 1))\<lparr>tb_block_length := - (int l - 1)\<rparr>] else v) }"

text \<open>
  The loop of \<^verbatim>\<open>process_blocks\<close> for the block \<open>cur\<close> behind the block number \<open>i\<close>: \<open>res\<close> is the vector so far,
  \<open>prev\<close> the place up to which the text has been used.  A nested block is processed by the same loop.  A
  vector \<^verbatim>\<open>NULL\<close> (\<^term>\<open>None\<close>) is the error as well as the result for an empty block.
\<close>

function (sequential) blocks_loop ::
  "(string \<Rightarrow> 32 word) \<Rightarrow> tpl_block \<Rightarrow> mem \<Rightarrow> tpl_block list \<Rightarrow> tpl_block \<Rightarrow> nat \<Rightarrow> tpl_block list option \<Rightarrow> nat \<Rightarrow>
   tpl_block list option option" where
  "blocks_loop adler j m vec cur i res prev =
     do { seen \<leftarrow> (case res of
             None \<Rightarrow> Some []
           | Some v \<Rightarrow> map_option (\<lambda>n. map tb_block_checksum (take (n - 1) v)) (calculate_vector_size v));
          let next = (if Suc i < length vec then vec ! Suc i else cur);
          if Suc i < length vec \<and> tb_block_checksum next \<in> set seen then blocks_loop adler j m vec cur (Suc i) res prev
          else if Suc i < length vec \<and> tb_content_offset cur < tb_content_offset next \<and>
             tb_content_offset cur + unat (tb_content_length cur) > tb_content_offset next + unat (tb_content_length next)
          then do {
            tmp \<leftarrow> blocks_loop adler j m vec next (Suc i) None (tb_content_offset next);
            (case tmp of
               None \<Rightarrow> Some None
             | Some tv \<Rightarrow>
                 do { x \<leftarrow> (if tb_content_offset next = 0 then None else rd m (tb_content_offset next - 1));
                      e \<leftarrow> (if x = CHR ''}'' then map_option (\<lambda>k. k - 1) (open_brace m (tb_content_offset next)) else Some (tb_content_offset next));
                      let len = size_diff e prev;
                      upper \<leftarrow> (if len > 0 then block_pieces adler j m cur prev len else Some (Some []));
                      (case upper of
                         None \<Rightarrow> Some None
                       | Some up \<Rightarrow>
                           do { tmp \<leftarrow> (if len > 0 then concat_vectors j (Some up) (Some tv) else Some (Some tv));
                                res \<leftarrow> concat_vectors j res tmp;
                                let after = tb_content_offset next + unat (tb_content_length next);
                                y \<leftarrow> rd m after;
                                after \<leftarrow> (if y = CHR ''{'' then map_option Suc (scan (\<lambda>c. c = CHR ''}'') m after) else Some after);
                                blocks_loop adler j m vec cur (Suc i) res after }) }) }
          else do {
            let len = size_diff (tb_content_offset cur + unat (tb_content_length cur)) prev;
            last_part \<leftarrow> (if len > 0 then block_pieces adler j m cur prev len else Some (Some []));
            (case last_part of
               None \<Rightarrow> Some None
             | Some lp \<Rightarrow>
                 do { res \<leftarrow> (if len > 0 then concat_vectors j res (Some lp) else Some res);
                      (case res of None \<Rightarrow> Some None | Some v \<Rightarrow> map_option Some (mark_block v)) }) } }"
  by pat_completeness auto
termination by (relation "measure (\<lambda>(adler, j, m, vec, cur, i, res, prev). length vec - i)") auto

declare blocks_loop.simps [simp del]

definition process_blocks :: "(string \<Rightarrow> 32 word) \<Rightarrow> tpl_block \<Rightarrow> mem \<Rightarrow> tpl_block list \<Rightarrow> nat \<Rightarrow> tpl_block list option option" where
  "process_blocks adler j m vec i = blocks_loop adler j m vec (vec ! i) i None (tb_content_offset (vec ! i))"

text \<open>
  \<^verbatim>\<open>parse_blocks\<close>: the result of the search from an offset on is the name (from, to) and the contents (from,
  to) of the first block.
\<close>

type_synonym block_match = "mem \<Rightarrow> nat \<Rightarrow> nat \<Rightarrow> (nat \<times> nat \<times> nat \<times> nat) option"

record template_t =
  tpl_vector :: "tpl_block list"
  tpl_text :: string

definition block_conflict :: "nat \<Rightarrow> nat \<Rightarrow> 32 word \<Rightarrow> tpl_block \<Rightarrow> bool" where
  "block_conflict c1 c2 checksum b \<longleftrightarrow>
     (c1 \<ge> tb_content_offset b \<and> c2 \<ge> tb_content_offset b + unat (tb_content_length b) \<and>
      c1 \<le> tb_content_offset b + unat (tb_content_length b)) \<or> tb_block_checksum b = checksum"

partial_function (option) find_blocks ::
  "(string \<Rightarrow> 32 word) \<Rightarrow> block_match \<Rightarrow> mem \<Rightarrow> nat \<Rightarrow> nat \<Rightarrow> tpl_block list \<Rightarrow> tpl_block list option option" where
  "find_blocks adler re m len offset vec =
     (case re m len offset of
        None \<Rightarrow> Some (Some vec)
      | Some (n1, n2, c1, c2) \<Rightarrow>
          let checksum = adler (seg m n1 n2) in
          if list_ex (block_conflict c1 c2 checksum) vec then Some None
          else find_blocks adler re m len c1 (vec @ [\<lparr>tb_content_offset = c1, tb_content_length = of_nat (c2 - c1),
                 tb_block_checksum = checksum, tb_block_length = 0, tb_type = TPL_TYPE_BLOCK\<rparr>]))"

declare find_blocks.simps [code]

definition parse_blocks ::
  "(string \<Rightarrow> 32 word) \<Rightarrow> block_match \<Rightarrow> tpl_block \<Rightarrow> str_t \<Rightarrow> template_t option option" where
  "parse_blocks adler re j c =
     do { r \<leftarrow> find_blocks adler re (s_str c) (s_len c) 0
             [\<lparr>tb_content_offset = 0, tb_content_length = of_nat (s_len c), tb_block_checksum = 0, tb_block_length = 0, tb_type = TPL_TYPE_BLOCK\<rparr>];
          (case r of
             None \<Rightarrow> Some None
           | Some vec \<Rightarrow>
               do { v \<leftarrow> process_blocks adler j (s_str c) vec 0;
                    (case v of
                       None \<Rightarrow> Some None
                     | Some v \<Rightarrow>
                         do { n \<leftarrow> calculate_vector_size v;
                              Some (Some \<lparr>tpl_vector = take n v, tpl_text = take (s_len c) (s_str c)\<rparr>) }) }) }"

section \<open>Searching in texts\<close>

lemma seg_middle: "seg (a @ b @ c) (length a) (length a + length b) = b"
  by (simp add: seg_def)

text \<open>A text in a block of its own, with its terminator.\<close>

definition text_str :: "string \<Rightarrow> str_t" where
  "text_str x = \<lparr>s_str = x @ [NUL], s_len = length x\<rparr>"

text \<open>The command \<open>n\<close> does not begin inside \<open>t\<close>, whatever follows \<open>t\<close>.\<close>

fun clean :: "string \<Rightarrow> string \<Rightarrow> bool" where
  "clean n [] = True"
| "clean n (x # xs) = (\<not> is_prefix (x # xs) n \<and> \<not> is_prefix n (x # xs) \<and> clean n xs)"

lemma matches_terminated:
  "NUL \<in> set s \<Longrightarrow> NUL \<notin> set n \<Longrightarrow> matches_at (pre @ s) (length pre) n = Some (is_prefix n s)"
proof (induction n arbitrary: pre s)
  case (Cons x n)
  obtain y ys where s: "s = y # ys" using Cons.prems by (cases s) auto
  show ?case using Cons.IH [of ys "pre @ [y]"] Cons.prems s by auto
qed simp

lemma is_prefix_append: "is_prefix n (a @ b) \<Longrightarrow> is_prefix n a \<or> is_prefix a n"
  by (induction n a rule: is_prefix.induct) auto

lemma strstr_step:
  assumes "NUL \<in> set s" "NUL \<notin> set n" "s = x # r"
  shows "strstr_at n (pre @ s) (length pre) =
    (if is_prefix n s then Some (Some (length pre)) else if x = NUL then Some None else strstr_at n ((pre @ [x]) @ r) (length (pre @ [x])))"
  using matches_terminated [OF assms(1,2), of pre] assms(3) by (subst strstr_at.simps) simp

lemma strstr_clean:
  assumes "clean n t" "NUL \<notin> set t" "NUL \<notin> set n" "NUL \<in> set r"
  shows "strstr_at n (pre @ t @ r) (length pre) = strstr_at n ((pre @ t) @ r) (length (pre @ t))"
  using assms
proof (induction t arbitrary: pre)
  case (Cons x t)
  have "\<not> is_prefix n (x # t @ r)" using is_prefix_append [of n "x # t" r] Cons.prems by auto
  then have "strstr_at n (pre @ (x # t) @ r) (length pre) = strstr_at n ((pre @ [x]) @ t @ r) (length (pre @ [x]))"
    using strstr_step [of "(x # t) @ r" n x "t @ r" pre] Cons.prems by auto
  then show ?case using Cons.IH [of "pre @ [x]"] Cons.prems by simp
qed simp

lemma strstr_found: "NUL \<notin> set n \<Longrightarrow> NUL \<in> set r \<Longrightarrow> n \<noteq> [] \<Longrightarrow> strstr_at n (pre @ n @ r) (length pre) = Some (Some (length pre))"
proof -
  assume a: "NUL \<notin> set n" "NUL \<in> set r" "n \<noteq> []"
  then obtain x n' where "n = x # n'" by (cases n) auto
  then show ?thesis using strstr_step [of "n @ r" n x "n' @ r" pre] a by (auto simp: is_prefix_iff)
qed

lemma strstr_end: "NUL \<notin> set n \<Longrightarrow> n \<noteq> [] \<Longrightarrow> strstr_at n (pre @ NUL # r) (length pre) = Some None"
  using strstr_step [of "NUL # r" n NUL r pre] by (cases n) auto

lemma strchr_text: "c \<notin> set s \<Longrightarrow> NUL \<notin> set s \<Longrightarrow> strchr_at c (pre @ s @ c # post) (length pre) = Some (Some (length pre + length s))"
proof (induction s arbitrary: pre)
  case Nil
  then show ?case by (subst strchr_at.simps) simp
next
  case (Cons x s)
  have "strchr_at c (pre @ (x # s) @ c # post) (length pre) = strchr_at c ((pre @ [x]) @ s @ c # post) (length (pre @ [x]))"
    using Cons.prems by (subst strchr_at.simps) auto
  then show ?case using Cons.IH [of "pre @ [x]"] Cons.prems by simp
qed

section \<open>Included files are put in their places\<close>

text \<open>Templates as their authors see them.\<close>

datatype source_piece = Written string | Included string

fun source_text :: "source_piece \<Rightarrow> string" where
  "source_text (Written t) = t"
| "source_text (Included n) = cmd_include @ QUOTATION # n @ [QUOTATION, CHR ''}'']"

fun source_ok :: "source_piece \<Rightarrow> bool" where
  "source_ok (Written t) \<longleftrightarrow> clean cmd_include t \<and> NUL \<notin> set t"
| "source_ok (Included n) \<longleftrightarrow> CHR ''}'' \<notin> set n \<and> NUL \<notin> set n"

text \<open>The text that is meant: every file in its place.  A file that includes itself has none.\<close>

inductive expands :: "(string \<Rightarrow> source_piece list option) \<Rightarrow> source_piece list \<Rightarrow> string \<Rightarrow> bool" for docs where
  no_pieces: "expands docs [] []"
| written: "source_ok (Written t) \<Longrightarrow> expands docs ps x \<Longrightarrow> expands docs (Written t # ps) (t @ x)"
| included: "source_ok (Included n) \<Longrightarrow> docs n = Some qs \<Longrightarrow> expands docs qs y \<Longrightarrow> expands docs ps x \<Longrightarrow>
    expands docs (Included n # ps) (y @ x)"

definition doc_text :: "source_piece list \<Rightarrow> string" where
  "doc_text ps = concat (map source_text ps)"

definition doc_files :: "(string \<Rightarrow> source_piece list option) \<Rightarrow> string \<Rightarrow> str_t option" where
  "doc_files docs n = map_option (\<lambda>ps. text_str (doc_text ps)) (docs n)"

lemma cmd_include_simps [simp]: "NUL \<notin> set cmd_include" "cmd_include \<noteq> []" "CHR ''}'' \<notin> set cmd_include" "length cmd_include = 9"
  by (simp_all add: cmd_include_def)

lemma include_name_text:
  assumes "CHR ''}'' \<notin> set n" "NUL \<notin> set n"
  shows "include_name (pre @ cmd_include @ QUOTATION # n @ QUOTATION # CHR ''}'' # r) (length pre) =
    Some (Some (length (pre @ cmd_include @ [QUOTATION]), length (pre @ cmd_include @ QUOTATION # n)))"
proof -
  let ?pre = "pre @ cmd_include @ [QUOTATION]"
  let ?m = "pre @ cmd_include @ QUOTATION # n @ QUOTATION # CHR ''}'' # r"
  have q: "rd ?m (length pre + 9) = Some QUOTATION" using rd_at [of "pre @ cmd_include" QUOTATION "n @ QUOTATION # CHR ''}'' # r"] by simp
  have "strchr_at CHR ''}'' (?pre @ (n @ [QUOTATION]) @ CHR ''}'' # r) (length ?pre) = Some (Some (length ?pre + length (n @ [QUOTATION])))"
    using assms by (intro strchr_text) auto
  then have e: "strchr_at CHR ''}'' ?m (length pre + 9 + 1) = Some (Some (length pre + 11 + length n))" by (simp add: algebra_simps)
  have k: "length pre + 11 + length n - 1 = length (pre @ cmd_include @ QUOTATION # n)" by simp
  have p: "rd ?m (length pre + 11 + length n - 1) = Some QUOTATION"
    unfolding k using rd_at [of "pre @ cmd_include @ QUOTATION # n" QUOTATION "CHR ''}'' # r"] by (simp only: append_assoc append.simps)
  show ?thesis
    unfolding include_name_def Let_def cmd_include_simps q bind.simps simp_thms(6) if_True e option.case p by simp
qed

lemma gather_written:
  assumes "source_ok (Written t)" "NUL \<in> set r"
  shows "gather_into_single_file files u \<lparr>s_str = pre @ t @ r, s_len = l\<rparr> (length pre) =
    gather_into_single_file files u \<lparr>s_str = pre @ t @ r, s_len = l\<rparr> (length (pre @ t))"
proof -
  have "strstr_at cmd_include (pre @ t @ r) (length pre) = strstr_at cmd_include (pre @ t @ r) (length (pre @ t))"
    using strstr_clean [of cmd_include t r pre] assms by simp
  then show ?thesis
    by (subst (1 2) gather_into_single_file.simps) simp
qed

lemma gather_included:
  assumes "source_ok (Included n)" "files n = Some (text_str b)" "NUL \<notin> set r"
  shows "gather_into_single_file files u (text_str (pre @ source_text (Included n) @ r)) (length pre) =
    gather_into_single_file files u (text_str (pre @ b @ r)) (length pre)"
proof -
  let ?m = "pre @ cmd_include @ QUOTATION # n @ QUOTATION # CHR ''}'' # r @ [NUL]"
  let ?f = "length (pre @ cmd_include @ [QUOTATION])" and ?e = "length (pre @ cmd_include @ QUOTATION # n)"
  let ?m1 = "pre @ cmd_include @ QUOTATION # n @ NUL # CHR ''}'' # r @ [NUL]"
  have n: "CHR ''}'' \<notin> set n" "NUL \<notin> set n" using assms(1) by simp_all
  have c: "text_str (pre @ source_text (Included n) @ r) = \<lparr>s_str = ?m, s_len = length pre + 12 + length n + length r\<rparr>"
    by (simp add: text_str_def)
  have 1: "strstr_at cmd_include ?m (length pre) = Some (Some (length pre))" by (rule strstr_found) simp_all
  have 2: "include_name ?m (length pre) = Some (Some (?f, ?e))"
    using include_name_text [OF n, of pre "r @ [NUL]"] by simp
  have 3: "wr ?m ?e NUL = Some ?m1" by (simp add: wr_def list_update_append)
  have 4: "seg ?m1 ?f ?e = n" by (simp add: seg_def)
  have 5: "rd ?m1 (?e + 1) = Some (CHR ''}'')"
  proof -
    have "?e + 1 = length (pre @ cmd_include @ QUOTATION # n @ [NUL])" by simp
    then show ?thesis using rd_at [of "pre @ cmd_include @ QUOTATION # n @ [NUL]" "CHR ''}''" "r @ [NUL]"] by (simp only: append_assoc append.simps)
  qed
  let ?pre2 = "pre @ cmd_include @ QUOTATION # n @ [NUL, CHR ''}'']"
  have e2: "?e + 1 + 1 = length ?pre2" by simp
  have 6: "strchr_at NUL ?m1 (length ?pre2) = Some (Some (length ?pre2 + length r))"
    using strchr_text [OF assms(3,3), of ?pre2 "[]"] by simp
  have 7: "seg ?m1 (length ?pre2) (length ?pre2 + length r) = r"
    using seg_middle [of ?pre2 r "[NUL]"] by simp
  have 8: "take (length pre) ?m1 = pre" by simp
  show ?thesis
    unfolding c gather_into_single_file.simps [of files u "\<lparr>s_str = ?m, s_len = length pre + 12 + length n + length r\<rparr>"]
      str_t.simps 1 bind.simps option.case 2 prod.case 3 4 assms(2) Let_def 5 simp_thms(6) if_True e2 6 option.sel 7 8
    by (simp add: text_str_def add.commute add.left_commute)
qed

lemma expands_no_NUL: "expands docs ps x \<Longrightarrow> NUL \<notin> set x \<and> NUL \<notin> set (doc_text ps)"
  by (induction rule: expands.induct) (auto simp: doc_text_def)

lemma gather_expands:
  assumes "expands docs ps x" "NUL \<notin> set r"
  shows "gather_into_single_file (doc_files docs) u (text_str (pre @ doc_text ps @ r)) (length pre) =
    gather_into_single_file (doc_files docs) u (text_str (pre @ x @ r)) (length (pre @ x))"
  using assms
proof (induction arbitrary: pre r rule: expands.induct)
  case no_pieces
  then show ?case by (simp add: doc_text_def)
next
  case (written t ps x)
  have "gather_into_single_file (doc_files docs) u (text_str (pre @ doc_text (Written t # ps) @ r)) (length pre) =
      gather_into_single_file (doc_files docs) u (text_str ((pre @ t) @ doc_text ps @ r)) (length (pre @ t))"
    using gather_written [OF written.hyps(1), of "doc_text ps @ r @ [NUL]" "doc_files docs" u pre] by (simp add: text_str_def doc_text_def)
  then show ?case using written.IH [OF written.prems, of "pre @ t"] by simp
next
  case (included n qs y ps x)
  have f: "doc_files docs n = Some (text_str (doc_text qs))" using included.hyps by (simp add: doc_files_def)
  have r: "NUL \<notin> set (doc_text ps @ r)" using expands_no_NUL [OF included.hyps(4)] included.prems by simp
  have "gather_into_single_file (doc_files docs) u (text_str (pre @ doc_text (Included n # ps) @ r)) (length pre) =
      gather_into_single_file (doc_files docs) u (text_str (pre @ doc_text qs @ doc_text ps @ r)) (length pre)"
    using gather_included [of n "doc_files docs" "doc_text qs" "doc_text ps @ r" u pre] included.hyps(1) f r by (simp add: doc_text_def)
  also have "\<dots> = gather_into_single_file (doc_files docs) u (text_str ((pre @ y) @ doc_text ps @ r)) (length (pre @ y))"
    using included.IH(1) [OF r, of pre] by simp
  also have "\<dots> = gather_into_single_file (doc_files docs) u (text_str ((pre @ y) @ x @ r)) (length ((pre @ y) @ x))"
    by (rule included.IH(2) [OF included.prems])
  finally show ?case by simp
qed

lemma gather_law:
  assumes "expands docs ps x"
  shows "gather_into_single_file (doc_files docs) u (text_str (doc_text ps)) 0 = Some (True, text_str x)"
proof -
  have "strstr_at cmd_include (x @ [NUL]) (length x) = Some None" by (rule strstr_end) simp_all
  then have "gather_into_single_file (doc_files docs) u (text_str x) (length x) = Some (True, text_str x)"
    by (subst gather_into_single_file.simps) (simp add: text_str_def)
  then show ?thesis using gather_expands [OF assms, of "[]" u "[]"] by simp
qed

text \<open>Files that do not include each other in a circle have an expansion.\<close>

lemma expands_exists:
  assumes "\<And>n ps k. docs n = Some ps \<Longrightarrow> Included k \<in> set ps \<Longrightarrow> docs k \<noteq> None \<and> rank k < (rank n :: nat)"
    and "\<And>n ps. docs n = Some ps \<Longrightarrow> list_all source_ok ps" "docs n = Some ps"
  shows "\<exists>x. expands docs ps x"
  using assms(3)
proof (induction "rank n" arbitrary: n ps rule: less_induct)
  case less
  have "\<exists>x. expands docs qs x" if "list_all source_ok qs" "set qs \<subseteq> set ps" for qs
    using that
  proof (induction qs)
    case (Cons q qs)
    then obtain x where x: "expands docs qs x" by auto
    show ?case
    proof (cases q)
      case (Written t)
      then show ?thesis using expands.written [OF _ x] Cons.prems by auto
    next
      case (Included k)
      then obtain rs where rs: "docs k = Some rs" "rank k < rank n" using assms(1) [OF less.prems, of k] Cons.prems by auto
      obtain y where "expands docs rs y" using less.hyps [OF rs(2,1)] by blast
      then show ?thesis using expands.included [OF _ rs(1) _ x] Included Cons.prems by auto
    qed
  qed (auto intro: expands.no_pieces)
  then show ?case using assms(2) [OF less.prems] by blast
qed

section \<open>Variables are found\<close>

datatype tpl_piece = Literal string | Variable string

fun piece_text :: "tpl_piece \<Rightarrow> string" where
  "piece_text (Literal t) = t"
| "piece_text (Variable n) = cmd_var @ n @ ''}''"

fun piece_ok :: "tpl_piece \<Rightarrow> bool" where
  "piece_ok (Literal t) \<longleftrightarrow> clean cmd_var t \<and> NUL \<notin> set t"
| "piece_ok (Variable n) \<longleftrightarrow> n \<noteq> [] \<and> list_all IS_VALID_TPL_VARIABLE_CHARACTER n \<and> last n \<noteq> CHR '' ''"

text \<open>What a template stands for when \<open>f\<close> gives the value for the checksum of a name.\<close>

fun piece_value :: "(string \<Rightarrow> 32 word) \<Rightarrow> (32 word \<Rightarrow> string) \<Rightarrow> tpl_piece \<Rightarrow> string" where
  "piece_value adler f (Literal t) = t"
| "piece_value adler f (Variable n) = f (adler n)"

definition pieces_text :: "tpl_piece list \<Rightarrow> string" where
  "pieces_text ps = concat (map piece_text ps)"

text \<open>What a piece of a vector stands for, and vectors of texts and variables inside of a text of \<open>n\<close> bytes.\<close>

definition block_bytes :: "(32 word \<Rightarrow> string) \<Rightarrow> mem \<Rightarrow> tpl_block \<Rightarrow> string" where
  "block_bytes f m b = (case tb_type b of
      TPL_TYPE_TEXT \<Rightarrow> seg m (tb_content_offset b) (tb_content_offset b + unat (tb_content_length b))
    | TPL_TYPE_VAR \<Rightarrow> f (tb_content_length b)
    | _ \<Rightarrow> [])"

definition flat_block :: "nat \<Rightarrow> tpl_block \<Rightarrow> bool" where
  "flat_block n b \<longleftrightarrow> (tb_type b = TPL_TYPE_VAR \<or> tb_type b = TPL_TYPE_TEXT \<and> tb_content_offset b + unat (tb_content_length b) \<le> n)"

lemma cmd_var_simps [simp]: "NUL \<notin> set cmd_var" "cmd_var \<noteq> []" "length cmd_var = 3"
  by (simp_all add: cmd_var_def)

lemma valid_variable_character: "IS_VALID_TPL_VARIABLE_CHARACTER x \<Longrightarrow> x \<noteq> CHR ''}'' \<and> x \<noteq> NUL"
  by (auto simp: IS_VALID_TPL_VARIABLE_CHARACTER_def)

lemma name_end_text:
  "list_all IS_VALID_TPL_VARIABLE_CHARACTER n \<Longrightarrow> name_end (pre @ n @ CHR ''}'' # r) (length pre) = Some (True, length pre + length n)"
proof (induction n arbitrary: pre)
  case Nil
  then show ?case by (subst name_end.simps) simp
next
  case (Cons x n)
  have "name_end (pre @ (x # n) @ CHR ''}'' # r) (length pre) = name_end ((pre @ [x]) @ n @ CHR ''}'' # r) (length (pre @ [x]))"
    using Cons.prems valid_variable_character [of x] by (subst name_end.simps) simp
  then show ?case using Cons.IH [of "pre @ [x]"] Cons.prems by simp
qed

lemma clean_append: "clean n a \<Longrightarrow> clean n b \<Longrightarrow> clean n (a @ b)"
proof (induction a)
  case (Cons x a)
  have "is_prefix (x # a @ b) n \<Longrightarrow> is_prefix (x # a) n" unfolding is_prefix_iff by auto
  then show ?case using Cons is_prefix_append [of n "x # a" b] by auto
qed simp

lemma pieces_no_NUL: "list_all piece_ok ps \<Longrightarrow> NUL \<notin> set (pieces_text ps)"
proof (induction ps)
  case (Cons p ps)
  then show ?case using valid_variable_character by (cases p) (auto simp: pieces_text_def list_all_iff)
qed (simp add: pieces_text_def)

text \<open>
  The text \<open>lit\<close> at the end of a part, behind which only \<open>rest\<close>, without any variable, is left: the search for variables does
  not stop at the end of the part.
\<close>

lemma parse_variables_end:
  assumes "clean cmd_var lit" "NUL \<notin> set lit" "clean cmd_var rest" "NUL \<notin> set rest" "length (pre @ lit) < 2 ^ 32"
  shows "\<exists>w t. parse_variables_from adler j (q @ pre @ lit @ rest @ [NUL]) (length q) (length (pre @ lit)) (length pre) v = Some (Some (v @ [w, t])) \<and>
    tb_type t = TPL_TYPE_TERM \<and> flat_block (length (pre @ lit)) w \<and> tb_block_length w = 0 \<and> (\<forall>f. block_bytes f (pre @ lit) w = lit)"
proof -
  have "strstr_at cmd_var ((q @ pre) @ (lit @ rest) @ [NUL]) (length (q @ pre)) = Some None"
    using strstr_clean [OF clean_append [OF assms(1,3)], of "[NUL]" "q @ pre"] strstr_end [of cmd_var "q @ pre @ lit @ rest" "[]"] assms(2,4) by simp
  moreover have "(of_nat (length (pre @ lit)) - of_nat (length pre) :: 32 word) = of_nat (length lit)" by simp
  moreover have "unat (of_nat (length lit) :: 32 word) = length lit" using assms(5) by (simp add: unat_of_nat)
  ultimately show ?thesis
    by (subst parse_variables_from.simps) (simp add: Let_def flat_block_def block_bytes_def seg_def)
qed


definition text_block :: "tpl_block \<Rightarrow> nat \<Rightarrow> nat \<Rightarrow> tpl_block" where
  "text_block j off len = j\<lparr>tb_type := TPL_TYPE_TEXT, tb_content_offset := off, tb_content_length := of_nat len, tb_block_length := 0\<rparr>"

definition var_block :: "tpl_block \<Rightarrow> nat \<Rightarrow> 32 word \<Rightarrow> tpl_block" where
  "var_block j off s = j\<lparr>tb_type := TPL_TYPE_VAR, tb_content_offset := off, tb_content_length := s, tb_block_length := 0\<rparr>"

lemma var_block_simps [simp]: "block_bytes f m (var_block j k s) = f s" "flat_block n (var_block j k s)" "tb_block_length (var_block j k s) = 0"
  by (simp_all add: block_bytes_def var_block_def flat_block_def)

lemma parse_variables_var:
  assumes lit: "clean cmd_var lit" "NUL \<notin> set lit" and n: "piece_ok (Variable n)" and r: "NUL \<in> set r"
    and k_def: "k = length (pre @ lit) + 3"
  shows "parse_variables_from adler j (q @ pre @ lit @ piece_text (Variable n) @ r) (length q) len (length pre) v =
    parse_variables_from adler j (q @ pre @ lit @ piece_text (Variable n) @ r) (length q) len (length (pre @ lit @ piece_text (Variable n)))
      (v @ (if lit = [] then [] else [text_block j (length pre) (length lit)]) @ [var_block j k (adler n)])"
proof -
  let ?q = "q @ pre @ lit" and ?m = "q @ pre @ lit @ piece_text (Variable n) @ r"
  have nn: "n \<noteq> []" "list_all IS_VALID_TPL_VARIABLE_CHARACTER n" "last n \<noteq> CHR '' ''" using n by simp_all
  have 1: "strstr_at cmd_var ?m (length q + length pre) = Some (Some (length ?q))"
    using strstr_clean [OF lit, of "piece_text (Variable n) @ r" "q @ pre"] strstr_found [of cmd_var "n @ CHR ''}'' # r" ?q] r by simp
  have 2: "name_end ?m (length ?q + length cmd_var) = Some (True, length q + k + length n)"
    using name_end_text [OF nn(2), of "?q @ cmd_var" r] by (simp add: k_def add.assoc)
  have 3: "rd ?m (length q + k + length n - 1) = Some (last n)"
  proof -
    have "length q + k + length n - 1 = length (?q @ cmd_var @ butlast n)" using nn(1) by (simp add: k_def)
    moreover have "?m = (?q @ cmd_var @ butlast n) @ last n # CHR ''}'' # r" using nn(1) append_butlast_last_id [of n] by simp
    ultimately show ?thesis using rd_at by metis
  qed
  have 4: "seg ?m (length ?q + length cmd_var) (length q + k + length n) = n"
    using seg_middle [of "?q @ cmd_var" n "CHR ''}'' # r"] by (simp add: k_def add.assoc)
  have 5: "length q + k + length n + 1 - length q = length (pre @ lit @ piece_text (Variable n))" by (simp add: k_def)
  have ne: "length q + k + length n \<noteq> length ?q + length cmd_var" using nn(1) by (simp add: k_def)
  show ?thesis
    unfolding parse_variables_from.simps [of adler j ?m "length q" len "length pre"] 1 bind.simps option.case Let_def 2 prod.case not_True_eq_False if_False 3 5
    using nn(3) ne 4 by (simp add: text_block_def var_block_def k_def add.assoc)
qed

lemma parse_pieces:
  assumes "clean cmd_var lit" "NUL \<notin> set lit" "list_all piece_ok ps" "length (pre @ lit @ pieces_text ps) < 2 ^ 32"
    and rest: "clean cmd_var rest" "NUL \<notin> set rest"
  shows "\<exists>w t. parse_variables_from adler j (q @ pre @ lit @ pieces_text ps @ rest @ [NUL]) (length q) (length (pre @ lit @ pieces_text ps)) (length pre) v =
      Some (Some (v @ w @ [t])) \<and> tb_type t = TPL_TYPE_TERM \<and> w \<noteq> [] \<and> list_all (flat_block (length (pre @ lit @ pieces_text ps))) w \<and>
    list_all (\<lambda>b. tb_block_length b = 0) w \<and>
    (\<forall>f. concat (map (block_bytes f (pre @ lit @ pieces_text ps)) w) = lit @ concat (map (piece_value adler f) ps))"
  using assms(1-4)
proof (induction ps arbitrary: pre lit v)
  case Nil
  then obtain w t where "parse_variables_from adler j (q @ pre @ lit @ rest @ [NUL]) (length q) (length (pre @ lit)) (length pre) v = Some (Some (v @ [w, t]))"
    "tb_type t = TPL_TYPE_TERM" "flat_block (length (pre @ lit)) w" "tb_block_length w = 0" "\<forall>f. block_bytes f (pre @ lit) w = lit"
    using parse_variables_end [OF Nil.prems(1,2) rest, of pre adler j q v] by (auto simp: pieces_text_def)
  then show ?case by (intro exI [of _ "[w]"] exI [of _ t]) (simp add: pieces_text_def)
next
  case (Cons p ps)
  show ?case
  proof (cases p)
    case (Literal t)
    have "clean cmd_var (lit @ t)" "NUL \<notin> set (lit @ t)" using Cons.prems Literal clean_append by auto
    from Cons.IH [OF this, of pre v] show ?thesis using Cons.prems Literal by (simp add: pieces_text_def)
  next
    case (Variable n)
    let ?vt = "piece_text (Variable n)" and ?m = "pre @ lit @ pieces_text (p # ps)"
    let ?l = "if lit = [] then [] else [text_block j (length pre) (length lit)]"
    let ?v = "v @ ?l @ [var_block j (length (pre @ lit) + 3) (adler n)]"
    have m: "?m = (pre @ lit @ ?vt) @ [] @ pieces_text ps" using Variable by (simp add: pieces_text_def)
    have ok: "piece_ok (Variable n)" "list_all piece_ok ps" using Cons.prems Variable by simp_all
    have small: "length ((pre @ lit @ ?vt) @ [] @ pieces_text ps) < 2 ^ 32" using Cons.prems(4) unfolding m .
    obtain w t where w: "parse_variables_from adler j (q @ (pre @ lit @ ?vt) @ [] @ pieces_text ps @ rest @ [NUL]) (length q)
        (length ((pre @ lit @ ?vt) @ [] @ pieces_text ps)) (length (pre @ lit @ ?vt)) ?v = Some (Some (?v @ w @ [t]))"
      "tb_type t = TPL_TYPE_TERM" "list_all (flat_block (length ?m)) w" "list_all (\<lambda>b. tb_block_length b = 0) w"
      "\<And>f. concat (map (block_bytes f ?m) w) = concat (map (piece_value adler f) ps)"
      using Cons.IH [of "[]" "pre @ lit @ ?vt" ?v] ok(2) small unfolding m by auto
    have e: "q @ ?m @ rest @ [NUL] = q @ pre @ lit @ ?vt @ (pieces_text ps @ rest @ [NUL])" using m by simp
    have r: "NUL \<in> set (pieces_text ps @ rest @ [NUL])" by simp
    have s: "parse_variables_from adler j (q @ ?m @ rest @ [NUL]) (length q) (length ?m) (length pre) v = Some (Some (?v @ w @ [t]))"
      unfolding e parse_variables_var [OF Cons.prems(1,2) ok(1) r refl] using w(1) m by simp
    have u: "unat (of_nat (length lit) :: 32 word) = length lit" using Cons.prems(4) by (simp add: unat_of_nat)
    have "list_all (flat_block (length ?m)) ?l" "concat (map (block_bytes f ?m) ?l) = lit" "list_all (\<lambda>b. tb_block_length b = 0) ?l" for f
      using u seg_middle [of pre lit "pieces_text (p # ps)"] by (simp_all add: flat_block_def text_block_def block_bytes_def)
    then show ?thesis using s w(2-5) Variable
      by (intro exI [of _ "?l @ [var_block j (length (pre @ lit) + 3) (adler n)] @ w"] exI [of _ t]) simp
  qed
qed


section \<open>Templates without blocks\<close>

lemma vector_size: "list_all (\<lambda>b. tb_type b \<noteq> TPL_TYPE_TERM) w \<Longrightarrow> tb_type t = TPL_TYPE_TERM \<Longrightarrow> calculate_vector_size (w @ t # r) = Some (Suc (length w))"
  by (induction w) auto

text \<open>A piece without the marks of its block.\<close>

definition unmarked :: "tpl_block \<Rightarrow> tpl_block" where
  "unmarked b = b\<lparr>tb_block_length := 0\<rparr>"

lemma unmarked_simps [simp]:
  "tb_type (unmarked b) = tb_type b" "tb_block_checksum (unmarked b) = tb_block_checksum b"
  "block_bytes f m (unmarked b) = block_bytes f m b" "flat_block n (unmarked b) = flat_block n b"
  "unmarked (b\<lparr>tb_block_length := k\<rparr>) = unmarked b"
  by (simp_all add: unmarked_def block_bytes_def flat_block_def split: tpl_block_types.split)

lemma mark_block_unmarked:
  assumes "list_all (\<lambda>b. tb_type b \<noteq> TPL_TYPE_TERM) w" "tb_type t = TPL_TYPE_TERM" "w \<noteq> []"
  shows "\<exists>w'. mark_block (w @ [t]) = Some (w' @ [t]) \<and> map unmarked w' = map unmarked w"
proof -
  let ?w1 = "w[0 := (w ! 0)\<lparr>tb_block_length := int (length w)\<rparr>]"
  let ?w2 = "?w1[length w - 1 := (?w1 ! (length w - 1))\<lparr>tb_block_length := - (int (length w) - 1)\<rparr>]"
  have one: "map unmarked (v[i := (v ! i)\<lparr>tb_block_length := k\<rparr>]) = map unmarked v" for v i k
    by (cases "i < length v") (simp_all add: map_update list_update_same_conv list_update_beyond)
  have "length w > 0" using assms(3) by simp
  then have m: "mark_block (w @ [t]) = Some ((if length w > 1 then ?w2 else ?w1) @ [t])"
    using vector_size [OF assms(1,2), of "[]"] by (simp add: mark_block_def Let_def list_update_append nth_append)
  have "map unmarked (if length w > 1 then ?w2 else ?w1) = map unmarked w" by (simp only: one if_distrib [of "map unmarked"] if_cancel)
  with m show ?thesis by blast
qed

text \<open>
  The compiled pieces \<open>w\<close> of a part \<open>ps\<close>, of the block with the checksum \<open>c\<close>; their offsets count from the beginning of the whole
  text \<open>x\<close>.
\<close>

definition flat_pieces :: "(string \<Rightarrow> 32 word) \<Rightarrow> 32 word \<Rightarrow> string \<Rightarrow> tpl_piece list \<Rightarrow> tpl_block list \<Rightarrow> bool" where
  "flat_pieces adler c x ps w \<longleftrightarrow> w \<noteq> [] \<and> list_all (flat_block (length x)) w \<and> list_all (\<lambda>b. tb_block_checksum b = c) w \<and>
     (\<forall>f. concat (map (block_bytes f x) w) = concat (map (piece_value adler f) ps))"

lemma flat_not_term: "list_all (flat_block n) w \<Longrightarrow> list_all (\<lambda>b. tb_type b \<noteq> TPL_TYPE_TERM) w"
  by (auto simp: list_all_iff flat_block_def)

lemma flat_pieces_not_term: "flat_pieces adler c x ps w \<Longrightarrow> list_all (\<lambda>b. tb_type b \<noteq> TPL_TYPE_TERM) w \<and> w \<noteq> []"
  using flat_not_term by (auto simp: flat_pieces_def)

lemma flat_pieces_unmarked:
  assumes "flat_pieces adler c x ps w" "map unmarked w' = map unmarked w"
  shows "flat_pieces adler c x ps w'"
proof -
  have f: "list_all P w' = list_all P w" if "\<And>b. P (unmarked b) = P b" for P
  proof -
    have "list_all P v = list_all P (map unmarked v)" for v using that by (simp add: list_all_iff)
    then show ?thesis using assms(2) by metis
  qed
  have "map (block_bytes g m) v = map (block_bytes g m) (map unmarked v)" for g m v by simp
  then have "map (block_bytes g m) w' = map (block_bytes g m) w" for g m using assms(2) by metis
  then show ?thesis using assms(1) f [of "flat_block (length x)"] f [of "\<lambda>b. tb_block_checksum b = c"] assms(2)
    by (auto simp: flat_pieces_def)
qed

text \<open>Pieces of a part that is moved to its place in the text.\<close>

definition moved :: "nat \<Rightarrow> 32 word \<Rightarrow> tpl_block \<Rightarrow> tpl_block" where
  "moved k c b = b\<lparr>tb_content_offset := tb_content_offset b + k, tb_block_checksum := c\<rparr>"

lemma moved_ok:
  assumes "flat_block (length x) b"
  shows "flat_block (length (q @ x @ r)) (moved (length q) c b)" "block_bytes f (q @ x @ r) (moved (length q) c b) = block_bytes f x b"
    "tb_block_checksum (moved k c b) = c" "tb_block_length (moved k c b) = tb_block_length b"
  using assms by (auto simp: moved_def flat_block_def block_bytes_def seg_def add.commute add.left_commute)

lemma block_pieces_part:
  assumes "list_all piece_ok ps" "length (pieces_text ps) < 2 ^ 32" "clean cmd_var rest" "NUL \<notin> set rest"
  shows "\<exists>w t. block_pieces adler j (q @ pieces_text ps @ rest @ [NUL]) cur (length q) (length (pieces_text ps)) = Some (Some (w @ [t])) \<and>
    tb_type t = TPL_TYPE_TERM \<and> flat_pieces adler (tb_block_checksum cur) (q @ pieces_text ps @ rest) ps w \<and> list_all (\<lambda>b. tb_block_length b = 0) w"
proof -
  let ?x = "pieces_text ps" and ?c = "tb_block_checksum cur"
  obtain w t where w: "parse_variables adler j (q @ ?x @ rest @ [NUL]) (length q) (length ?x) = Some (Some (w @ [t]))"
    "tb_type t = TPL_TYPE_TERM" "w \<noteq> []" "list_all (flat_block (length ?x)) w" "list_all (\<lambda>b. tb_block_length b = 0) w"
    "\<And>f. concat (map (block_bytes f ?x) w) = concat (map (piece_value adler f) ps)"
    using parse_pieces [of "[]" ps "[]" rest adler j q "[]"] assms by (auto simp: parse_variables_def)
  let ?w = "map (moved (length q) ?c) w"
  note n = vector_size [OF flat_not_term [OF w(4)] w(2), of "[]"]
  have z: "map (\<lambda>b. b\<lparr>tb_block_checksum := ?c\<rparr>) w = map (moved 0 ?c) w" by (simp add: moved_def)
  have a: "adjust_offsets (length q) (w @ [t]) = Some (map (\<lambda>b. b\<lparr>tb_content_offset := tb_content_offset b + length q\<rparr>) w @ [t])" if "q \<noteq> []"
    using n that by (simp add: adjust_offsets_def)
  have nt: "list_all (\<lambda>b. tb_type b \<noteq> TPL_TYPE_TERM) (map (\<lambda>b. b\<lparr>tb_content_offset := tb_content_offset b + length q\<rparr>) w)"
    using flat_not_term [OF w(4)] by (simp add: list_all_iff)
  have "block_pieces adler j (q @ ?x @ rest @ [NUL]) cur (length q) (length ?x) = Some (Some (?w @ [t]))"
  proof (cases "q = []")
    case True
    then show ?thesis using w(1) n z by (simp add: block_pieces_def)
  next
    case False
    then show ?thesis using w(1) a [OF False] vector_size [OF nt w(2), of "[]"] by (simp add: block_pieces_def comp_def moved_def)
  qed
  moreover have "flat_pieces adler ?c (q @ ?x @ rest) ps ?w"
    unfolding flat_pieces_def
  proof (intro conjI allI)
    show "list_all (flat_block (length (q @ ?x @ rest))) ?w" using w(4) moved_ok(1) [of ?x _ q rest] by (simp add: list_all_iff)
    have "map (block_bytes f (q @ ?x @ rest)) ?w = map (block_bytes f ?x) w" for f using w(4) by (auto simp: list_all_iff moved_ok)
    then show "concat (map (block_bytes f (q @ ?x @ rest)) ?w) = concat (map (piece_value adler f) ps)" for f using w(6) by metis
  qed (use w(3) in \<open>simp_all add: list_all_iff moved_def\<close>)
  moreover have "list_all (\<lambda>b. tb_block_length b = 0) ?w" using w(5) by (simp add: list_all_iff moved_def)
  ultimately show ?thesis using w(2) by blast
qed

lemma parse_blocks_flat:
  assumes "list_all piece_ok ps" "length (pieces_text ps) < 2 ^ 32" "pieces_text ps \<noteq> []"
    and "re (pieces_text ps @ [NUL]) (length (pieces_text ps)) 0 = None"
  shows "\<exists>w t. parse_blocks adler re j (text_str (pieces_text ps)) = Some (Some \<lparr>tpl_vector = w @ [t], tpl_text = pieces_text ps\<rparr>) \<and>
    tb_type t = TPL_TYPE_TERM \<and> flat_pieces adler 0 (pieces_text ps) ps w"
proof -
  let ?n = "length (pieces_text ps)" and ?m = "pieces_text ps @ [NUL]"
  let ?root = "\<lparr>tb_content_offset = 0, tb_content_length = of_nat ?n, tb_block_checksum = 0, tb_block_length = 0, tb_type = TPL_TYPE_BLOCK\<rparr>"
  obtain w t where w: "block_pieces adler j ?m ?root 0 ?n = Some (Some (w @ [t]))" "tb_type t = TPL_TYPE_TERM" "flat_pieces adler 0 (pieces_text ps) ps w"
    using block_pieces_part [OF assms(1,2), of "[]" adler j "[]" ?root] by auto
  have nt: "list_all (\<lambda>b. tb_type b \<noteq> TPL_TYPE_TERM) w" "w \<noteq> []" using flat_pieces_not_term [OF w(3)] by simp_all
  obtain w' where w': "mark_block (w @ [t]) = Some (w' @ [t])" "map unmarked w' = map unmarked w"
    using mark_block_unmarked [OF nt(1) w(2) nt(2)] by blast
  have fp: "flat_pieces adler 0 (pieces_text ps) ps w'" by (rule flat_pieces_unmarked [OF w(3) w'(2)])
  have u: "unat (of_nat ?n :: 32 word) = ?n" using assms(2) by (simp add: unat_of_nat)
  have d: "size_diff ?n 0 = ?n" using assms(2) by (simp add: size_diff_def)
  have fb: "find_blocks adler re ?m ?n 0 [?root] = Some (Some [?root])" using assms(4) by (subst find_blocks.simps) simp
  have "process_blocks adler j ?m [?root] 0 = Some (Some (w' @ [t]))"
    using w(1) w'(1) assms(3) u d by (simp add: process_blocks_def) (subst blocks_loop.simps, simp add: concat_vectors_def)
  moreover have "calculate_vector_size (w' @ [t]) = Some (Suc (length w'))"
    using vector_size [OF flat_not_term w(2), of _ w' "[]"] fp by (auto simp: flat_pieces_def)
  ultimately have "parse_blocks adler re j (text_str (pieces_text ps)) = Some (Some \<lparr>tpl_vector = w' @ [t], tpl_text = pieces_text ps\<rparr>)"
    using fb by (simp add: parse_blocks_def text_str_def)
  then show ?thesis using fp w(2) by blast
qed


section \<open>Compiled templates\<close>

record compiled_template =
  ct_tpl :: template_t
  ct_mtime :: int
  ct_checksum :: "32 word"

record tpl_state =
  ts_compiled :: "compiled_template list"
  ts_cwd :: cwd_state

text \<open>
  \<^verbatim>\<open>tpl_compile\<close>: \<open>update\<close> is \<^verbatim>\<open>config.tpl_cache_update\<close>, \<open>stat\<close> gives the time of a file; \<open>t0\<close> is what an unset time holds.
  The files are those of the template directory \<open>dir\<close>.
\<close>

definition tpl_compile ::
  "(string \<Rightarrow> 32 word) \<Rightarrow> block_match \<Rightarrow> tpl_block \<Rightarrow> char \<Rightarrow> int \<Rightarrow> (string \<Rightarrow> str_t option) \<Rightarrow> (string \<Rightarrow> int option) \<Rightarrow> int \<Rightarrow>
   nat option \<Rightarrow> (string \<Rightarrow> bool) \<Rightarrow> string \<Rightarrow> string \<Rightarrow> tpl_state \<Rightarrow> (template_t option \<times> tpl_state) option" where
  "tpl_compile adler re j u t0 files stat update fd chdir_ok dir fname st =
     (let checksum = adler fname; cs = ts_compiled st;
          found = find_from (\<lambda>c. checksum = ct_checksum c) 0 cs in
      if update = 0 \<and> found \<noteq> None then Some (map_option (\<lambda>i. ct_tpl (cs ! i)) found, st)
      else
        let (cwd, ws) = save_and_change_cwd fd chdir_ok dir (ts_cwd st);
            leave = (\<lambda>ret cs. (ret, \<lparr>ts_compiled = cs, ts_cwd = snd (restore_cwd cwd ws)\<rparr>)) in
        if cwd = None then Some (leave None cs)
        else if stat fname \<noteq> None \<and> update = 1 \<and> found \<noteq> None \<and> the (stat fname) \<le> ct_mtime (cs ! the found)
        then Some (leave (map_option (\<lambda>i. ct_tpl (cs ! i)) found) cs)
        else (case files fname of
           None \<Rightarrow> Some (leave None cs)
         | Some c \<Rightarrow>
             do { (ok, c) \<leftarrow> gather_into_single_file files u c 0;
                  if \<not> ok then Some (leave None cs)
                  else do {
                    ret \<leftarrow> parse_blocks adler re j c;
                    (case ret of
                       None \<Rightarrow> Some (leave None cs)
                     | Some t \<Rightarrow>
                         do { v \<leftarrow> adjust_offsets 0 (tpl_vector t);
                              let t = t\<lparr>tpl_vector := v\<rparr>;
                              let ct = \<lparr>ct_tpl = t, ct_mtime = (case stat fname of Some x \<Rightarrow> x | None \<Rightarrow> t0), ct_checksum = checksum\<rparr>;
                              Some (leave (Some t) (case found of None \<Rightarrow> cs @ [ct] | Some i \<Rightarrow> cs[i := ct])) }) } }))"

text \<open>
  \<^verbatim>\<open>tpl_init\<close>: the directory of the templates is put together in a block of its own and must be there; \<open>pattern_ok\<close>
  tells whether the regular expression for blocks is compiled.  An error ends the program.
\<close>

datatype tpl_start = Template_Dir string | No_Template_Dir string | No_Block_Pattern

definition tpl_init :: "(string \<Rightarrow> mode_t option) \<Rightarrow> bool \<Rightarrow> str_t \<Rightarrow> str_t \<Rightarrow> string option \<Rightarrow> tpl_start option" where
  "tpl_init stat pattern_ok data template_name cur_template_dir =
     (case cur_template_dir of
        Some dir \<Rightarrow> Some (Template_Dir dir)
      | None \<Rightarrow>
          (let dir = cstr (s_str data) @ ''/templates/'' @ cstr (s_str template_name) in
           if length dir < s_len data + s_len template_name + 12
           then Some (if \<not> is_directory_exists stat dir IOAR_R then No_Template_Dir dir
                      else if \<not> pattern_ok then No_Block_Pattern else Template_Dir dir)
           else None))"

text \<open>The block has exactly the room that is needed, and the server starts only with a directory that is there.\<close>

lemma tpl_init_dir:
  assumes "s_len data = strlen (s_str data)" "s_len name = strlen (s_str name)"
  shows "\<exists>r. tpl_init stat pattern_ok data name None = Some r \<and> (\<forall>dir. r = Template_Dir dir \<longrightarrow> is_directory_exists stat dir IOAR_R)"
  using assms by (auto simp: tpl_init_def Let_def strlen_def cstr_def)

text \<open>A template that is not known yet is compiled to its pieces, whose offsets count from the vector on.\<close>

lemma adjust_offsets_flat:
  assumes "list_all (\<lambda>b. tb_type b \<noteq> TPL_TYPE_TERM) w" "tb_type t = TPL_TYPE_TERM"
  shows "adjust_offsets 0 (w @ [t]) = Some (map (\<lambda>b. b\<lparr>tb_content_offset := tb_content_offset b + TPL_BLOCK_SIZE * Suc (length w)\<rparr>) w @ [t])"
  using vector_size [OF assms, of "[]"] by (simp add: adjust_offsets_def TPL_BLOCK_SIZE_def)

lemma tpl_compile_new:
  assumes new: "\<forall>c \<in> set (ts_compiled st). ct_checksum c \<noteq> adler fname"
    and dir: "\<forall>e \<in> set (w_saved (ts_cwd st)). fst e \<noteq> d" "chdir_ok dir"
    and doc: "docs fname = Some qs" "expands docs qs x"
    and w: "parse_blocks adler re j (text_str x) = Some (Some \<lparr>tpl_vector = w @ [t], tpl_text = x\<rparr>)"
      "list_all (\<lambda>b. tb_type b \<noteq> TPL_TYPE_TERM) w" "tb_type t = TPL_TYPE_TERM"
  defines "tpl \<equiv> \<lparr>tpl_vector = map (\<lambda>b. b\<lparr>tb_content_offset := tb_content_offset b + TPL_BLOCK_SIZE * Suc (length w)\<rparr>) w @ [t], tpl_text = x\<rparr>"
  shows "tpl_compile adler re j u t0 (doc_files docs) stat update (Some d) chdir_ok dir fname st =
    Some (Some tpl, \<lparr>ts_compiled = ts_compiled st @ [\<lparr>ct_tpl = tpl, ct_mtime = (case stat fname of Some x \<Rightarrow> x | None \<Rightarrow> t0), ct_checksum = adler fname\<rparr>],
      ts_cwd = ts_cwd st\<rparr>)"
proof -
  have f: "find_from (\<lambda>c. adler fname = ct_checksum c) 0 (ts_compiled st) = None" using new by (auto simp: find_from_None)
  have "filter (\<lambda>e. fst e \<noteq> d) (w_saved (ts_cwd st)) = w_saved (ts_cwd st)" using dir(1) by (simp add: filter_id_conv)
  then obtain ws where ws: "save_and_change_cwd (Some d) chdir_ok dir (ts_cwd st) = (Some d, ws)" "snd (restore_cwd (Some d) ws) = ts_cwd st"
    using dir(2) by (simp add: save_and_change_cwd_def save_cwd_def restore_cwd_def close_dir_def)
  have files: "doc_files docs fname = Some (text_str (doc_text qs))" using doc(1) by (simp add: doc_files_def)
  show ?thesis
    unfolding tpl_compile_def tpl_def using f ws files gather_law [OF doc(2), of u] w(1) adjust_offsets_flat [OF w(2,3)] by (simp add: Let_def)
qed

text \<open>
  A template that was compiled is returned as it is when no updates are looked for, whatever became of its file, and also
  when updates are looked for and the file is not newer.
\<close>

lemma tpl_compile_again:
  assumes "\<forall>c \<in> set cs. ct_checksum c \<noteq> adler fname" "ct_checksum ct = adler fname"
    and dir: "\<forall>e \<in> set (w_saved ws). fst e \<noteq> d" "chdir_ok dir"
    and "update = 0 \<or> update = 1 \<and> (\<exists>time. stat fname = Some time \<and> time \<le> ct_mtime ct)"
  shows "tpl_compile adler re j u t0 files stat update (Some d) chdir_ok dir fname \<lparr>ts_compiled = cs @ [ct], ts_cwd = ws\<rparr> =
    Some (Some (ct_tpl ct), \<lparr>ts_compiled = cs @ [ct], ts_cwd = ws\<rparr>)"
proof -
  have a: "\<forall>c \<in> set cs. \<not> adler fname = ct_checksum c" using assms(1) by metis
  have f: "find_from (\<lambda>c. adler fname = ct_checksum c) 0 (cs @ [ct]) = Some (length cs)"
    using find_from_append [OF a, of ct 0 "[]"] assms(2) by simp
  have "filter (\<lambda>e. fst e \<noteq> d) (w_saved ws) = w_saved ws" using dir(1) by (simp add: filter_id_conv)
  then obtain ws' where "save_and_change_cwd (Some d) chdir_ok dir ws = (Some d, ws')" "snd (restore_cwd (Some d) ws') = ws"
    using dir(2) by (simp add: save_and_change_cwd_def save_cwd_def restore_cwd_def close_dir_def)
  then show ?thesis using f assms(5) by (auto simp: tpl_compile_def Let_def)
qed

end
