(* ===== verification/Template_Output.thy ===== *)
theory Template_Output
  imports Templates Common_Containers
begin

text \<open>
  The variables and the output of templates (\<^verbatim>\<open>templates.c\<close>): contexts with variables, the global
  variables, and \<^verbatim>\<open>tpl_complete\<close>, which writes a compiled template to a buffer, every block once for each of its
  contexts.  Variables are found by the checksum of their name alone: two names with the same checksum are one variable
  (\<^verbatim>\<open>colliding_names\<close>).
\<close>

section \<open>Variables\<close>

text \<open>A value that the variable owns (\<open>av_allocated\<close>) is the block at \<open>av_addr\<close>.\<close>

record assoc_variable =
  av_value :: string
  av_addr :: addr
  av_checksum :: "32 word"
  av_allocated :: bool

type_synonym tpl_context = "assoc_variable list"

fun var_index :: "tpl_context \<Rightarrow> 32 word \<Rightarrow> nat \<Rightarrow> nat option" where
  "var_index vars checksum 0 = None"
| "var_index vars checksum (Suc i) = (if checksum = av_checksum (vars ! i) then Some i else var_index vars checksum i)"

definition get_var :: "tpl_context \<Rightarrow> 32 word \<Rightarrow> assoc_variable option" where
  "get_var vars checksum = map_option ((!) vars) (var_index vars checksum (length vars))"

text \<open>
  The four functions that set a variable share this body: an old value is released, a new variable is put at
  the end.
\<close>

definition assign_var :: "assoc_variable \<Rightarrow> tpl_context \<Rightarrow> heap \<Rightarrow> (tpl_context \<times> heap) option" where
  "assign_var var vars H =
     (case var_index vars (av_checksum var) (length vars) of
        Some i \<Rightarrow>
          do { H \<leftarrow> (if av_allocated (vars ! i) then allocator_free (av_addr (vars ! i)) H else Some H);
               Some (vars[i := var], H) }
      | None \<Rightarrow> Some (vars @ [var], H))"

text \<open>\<open>a\<close> is the address of the copy of the value, or of the value itself.\<close>

definition tpl_set_var :: "(string \<Rightarrow> 32 word) \<Rightarrow> addr \<Rightarrow> string \<Rightarrow> string \<Rightarrow> tpl_context \<Rightarrow> heap \<Rightarrow> (tpl_context \<times> heap) option" where
  "tpl_set_var adler a name val vars H =
     assign_var \<lparr>av_value = val, av_addr = a, av_checksum = adler name, av_allocated = True\<rparr> vars (allocator_malloc a H)"

definition tpl_set_var_static :: "(string \<Rightarrow> 32 word) \<Rightarrow> addr \<Rightarrow> string \<Rightarrow> string \<Rightarrow> tpl_context \<Rightarrow> heap \<Rightarrow> (tpl_context \<times> heap) option" where
  "tpl_set_var_static adler a name val vars H =
     assign_var \<lparr>av_value = val, av_addr = a, av_checksum = adler name, av_allocated = False\<rparr> vars H"

definition tpl_set_global_var :: "(string \<Rightarrow> 32 word) \<Rightarrow> addr \<Rightarrow> string \<Rightarrow> string \<Rightarrow> tpl_context \<Rightarrow> heap \<Rightarrow> (tpl_context \<times> heap) option" where
  "tpl_set_global_var adler a name val global_vars H =
     assign_var \<lparr>av_value = val, av_addr = a, av_checksum = adler name, av_allocated = True\<rparr> global_vars (allocator_malloc a H)"

definition tpl_set_global_var_static :: "(string \<Rightarrow> 32 word) \<Rightarrow> addr \<Rightarrow> string \<Rightarrow> string \<Rightarrow> tpl_context \<Rightarrow> heap \<Rightarrow> (tpl_context \<times> heap) option" where
  "tpl_set_global_var_static adler a name val global_vars H =
     assign_var \<lparr>av_value = val, av_addr = a, av_checksum = adler name, av_allocated = False\<rparr> global_vars H"

definition tpl_context_create :: tpl_context where
  "tpl_context_create = []"

fun destroy_vars :: "tpl_context \<Rightarrow> nat \<Rightarrow> heap \<Rightarrow> heap option" where
  "destroy_vars vars 0 H = Some H"
| "destroy_vars vars (Suc i) H =
     do { H \<leftarrow> (if av_allocated (vars ! i) then allocator_free (av_addr (vars ! i)) H else Some H);
          destroy_vars vars i H }"

text \<open>The blocks of the structure and of its array are not tracked, only those of the values.\<close>

definition tpl_context_destroy :: "tpl_context \<Rightarrow> heap \<Rightarrow> heap option" where
  "tpl_context_destroy vars H = destroy_vars vars (length vars) H"

record block_context =
  bc_vars :: tpl_context
  bc_checksum :: "32 word"

definition tpl_block_context_create :: "(string \<Rightarrow> 32 word) \<Rightarrow> string \<Rightarrow> block_context" where
  "tpl_block_context_create adler name = \<lparr>bc_vars = [], bc_checksum = adler name\<rparr>"

section \<open>Output\<close>

text \<open>Bytes of a compiled template: the offset counts from the vector, behind which the text lies.\<close>

definition tpl_bytes :: "template_t \<Rightarrow> nat \<Rightarrow> nat \<Rightarrow> string option" where
  "tpl_bytes tpl off len =
     (let n = TPL_BLOCK_SIZE * length (tpl_vector tpl) in
      if n \<le> off \<and> off + len \<le> n + length (tpl_text tpl) then Some (take len (drop (off - n) (tpl_text tpl))) else None)"

definition find_var :: "tpl_context option \<Rightarrow> tpl_context option \<Rightarrow> tpl_context \<Rightarrow> 32 word \<Rightarrow> assoc_variable option" where
  "find_var local_ctx ctx global checksum =
     (case (case local_ctx of Some l \<Rightarrow> get_var l checksum | None \<Rightarrow> None) of
        Some v \<Rightarrow> Some v
      | None \<Rightarrow>
          (case (case ctx of Some c \<Rightarrow> get_var c checksum | None \<Rightarrow> None) of
             Some v \<Rightarrow> Some v
           | None \<Rightarrow> get_var global checksum))"

text \<open>The switch over the type of a piece.\<close>

definition put_piece ::
  "char \<Rightarrow> int \<Rightarrow> template_t \<Rightarrow> tpl_context option \<Rightarrow> tpl_context option \<Rightarrow> tpl_context \<Rightarrow> tpl_block \<Rightarrow> buf_t \<Rightarrow> buf_t option" where
  "put_piece u base tpl local_ctx ctx global b out =
     (case tb_type b of
        TPL_TYPE_TEXT \<Rightarrow>
          do { s \<leftarrow> tpl_bytes tpl (tb_content_offset b) (unat (tb_content_length b)); append_to_buffer u base out s }
      | TPL_TYPE_VAR \<Rightarrow>
          (case find_var local_ctx ctx global (tb_content_length b) of
             Some var \<Rightarrow> append_to_buffer u base out (av_value var)
           | None \<Rightarrow> Some out)
      | _ \<Rightarrow> Some out)"

text \<open>
  What happens at a piece: the loop goes on with the next one, which must not be the end, or it jumps (to the
  label \<^verbatim>\<open>a\<close>, without looking for the end).  \<open>sums\<close> are the checksums of the block contexts that were not used yet.
\<close>

datatype tpl_step = Next "32 word list" buf_t | Goto int "32 word list" buf_t

definition complete_step ::
  "char \<Rightarrow> int \<Rightarrow> template_t \<Rightarrow> tpl_context option \<Rightarrow> block_context list \<Rightarrow> tpl_context \<Rightarrow> nat \<Rightarrow> 32 word list \<Rightarrow> buf_t \<Rightarrow> tpl_step option" where
  "complete_step u base tpl ctx blocks global pc sums out =
     (if pc < length (tpl_vector tpl) then
        let b = tpl_vector tpl ! pc in
        if tb_block_checksum b = 0 then map_option (Next sums) (put_piece u base tpl None ctx global b out)
        else (case find_from (\<lambda>s. s = tb_block_checksum b) 0 sums of
                None \<Rightarrow> Some (if tb_block_length b > 0 then Goto (int pc + tb_block_length b) sums out else Next sums out)
              | Some i \<Rightarrow>
                  do { out \<leftarrow> put_piece u base tpl (Some (bc_vars (blocks ! i))) ctx global b out;
                       Some (if tb_block_length b < 0 then Goto (int pc + tb_block_length b) (sums[i := 0]) out
                             else if tb_block_length b = 1 then Goto (int pc) (sums[i := 0]) out
                             else Next sums out) })
      else None)"

partial_function (option) complete_loop ::
  "char \<Rightarrow> int \<Rightarrow> template_t \<Rightarrow> tpl_context option \<Rightarrow> block_context list \<Rightarrow> tpl_context \<Rightarrow> nat \<Rightarrow> 32 word list \<Rightarrow> buf_t \<Rightarrow> buf_t option" where
  "complete_loop u base tpl ctx blocks global pc sums out =
     do { r \<leftarrow> complete_step u base tpl ctx blocks global pc sums out;
          (case r of
             Goto p sums out \<Rightarrow> if p < 0 then None else complete_loop u base tpl ctx blocks global (nat p) sums out
           | Next sums out \<Rightarrow>
               if Suc pc < length (tpl_vector tpl)
               then if tb_type (tpl_vector tpl ! Suc pc) = TPL_TYPE_TERM then Some out
                    else complete_loop u base tpl ctx blocks global (Suc pc) sums out
               else None) }"

declare complete_loop.simps [code]

definition tpl_complete ::
  "char \<Rightarrow> int \<Rightarrow> template_t \<Rightarrow> tpl_context option \<Rightarrow> block_context list \<Rightarrow> tpl_context \<Rightarrow> buf_t \<Rightarrow> buf_t option" where
  "tpl_complete u base tpl ctx blocks global out =
     (if tpl_vector tpl = [] then None
      else if tb_type (hd (tpl_vector tpl)) = TPL_TYPE_TERM then Some out
      else complete_loop u base tpl ctx blocks global 0 (map bc_checksum blocks) out)"

section \<open>Contexts are maps\<close>

text \<open>A variable per checksum, and the owned values are blocks of their own.\<close>

definition owned :: "tpl_context \<Rightarrow> addr list" where
  "owned vars = map av_addr (filter av_allocated vars)"

lemma owned_simps [simp]: "owned [] = []" "owned (v # vs) = (if av_allocated v then av_addr v # owned vs else owned vs)" "owned (xs @ ys) = owned xs @ owned ys"
  by (simp_all add: owned_def)

definition vars_inv :: "heap \<Rightarrow> tpl_context \<Rightarrow> heap \<Rightarrow> bool" where
  "vars_inv H0 vars H \<longleftrightarrow> distinct (map av_checksum vars) \<and> distinct (owned vars) \<and> 0 \<notin> set (owned vars) \<and>
     set (owned vars) \<inter> H0 = {} \<and> H = H0 \<union> set (owned vars)"

definition var_value :: "tpl_context \<Rightarrow> 32 word \<Rightarrow> string option" where
  "var_value vars checksum = map_option av_value (get_var vars checksum)"

lemma option_eqI: "(\<And>v. x = Some v \<longleftrightarrow> y = Some v) \<Longrightarrow> x = y"
  by (cases x; cases y) auto

lemma var_index_SomeD: "var_index vars c n = Some i \<Longrightarrow> n \<le> length vars \<Longrightarrow> i < n \<and> av_checksum (vars ! i) = c"
  by (induction n) (auto split: if_splits)

lemma var_index_None: "var_index vars c n = None \<longleftrightarrow> (\<forall>i < n. av_checksum (vars ! i) \<noteq> c)"
  by (induction n) (auto simp: less_Suc_eq)

lemma var_index_unique:
  assumes "distinct (map av_checksum vars)" "i < length vars"
  shows "var_index vars (av_checksum (vars ! i)) (length vars) = Some i"
proof -
  have "var_index vars (av_checksum (vars ! i)) (length vars) \<noteq> None" using assms(2) by (auto simp: var_index_None)
  then obtain k where k: "var_index vars (av_checksum (vars ! i)) (length vars) = Some k" by auto
  then have "k < length vars" "av_checksum (vars ! k) = av_checksum (vars ! i)" using var_index_SomeD by blast+
  then have "k = i" using assms nth_eq_iff_index_eq [of "map av_checksum vars" k i] by simp
  then show ?thesis using k by simp
qed

lemma get_var_Some_iff:
  assumes "distinct (map av_checksum vars)"
  shows "get_var vars c = Some v \<longleftrightarrow> v \<in> set vars \<and> av_checksum v = c"
proof
  assume "get_var vars c = Some v"
  then show "v \<in> set vars \<and> av_checksum v = c" using var_index_SomeD [of vars c "length vars"] by (auto simp: get_var_def)
next
  assume "v \<in> set vars \<and> av_checksum v = c"
  then show "get_var vars c = Some v" using var_index_unique [OF assms] by (auto simp: get_var_def in_set_conv_nth)
qed

lemma assign_var_ok:
  assumes inv: "vars_inv H0 vars (H - (if av_allocated var then {av_addr var} else {}))"
    and a: "av_allocated var \<longrightarrow> av_addr var \<in> H \<and> av_addr var \<noteq> 0 \<and> av_addr var \<notin> H0 \<and> av_addr var \<notin> set (owned vars)"
    and h: "\<not> av_allocated var \<longrightarrow> vars_inv H0 vars H"
  shows "\<exists>vars' H'. assign_var var vars H = Some (vars', H') \<and> vars_inv H0 vars' H' \<and>
    (\<forall>c. get_var vars' c = (if c = av_checksum var then Some var else get_var vars c))"
proof (cases "var_index vars (av_checksum var) (length vars)")
  case None
  then have new: "\<forall>v \<in> set vars. av_checksum v \<noteq> av_checksum var" by (auto simp: var_index_None in_set_conv_nth)
  have d: "distinct (map av_checksum vars)" using inv by (simp add: vars_inv_def)
  then have d': "distinct (map av_checksum (vars @ [var]))" using new by auto
  have e: "assign_var var vars H = Some (vars @ [var], H)" using None by (simp add: assign_var_def)
  have g: "get_var (vars @ [var]) c = (if c = av_checksum var then Some var else get_var vars c)" for c
  proof (rule option_eqI)
    fix v show "get_var (vars @ [var]) c = Some v \<longleftrightarrow> (if c = av_checksum var then Some var else get_var vars c) = Some v"
      using get_var_Some_iff [OF d', of c v] get_var_Some_iff [OF d, of c v] new by auto
  qed
  have "vars_inv H0 (vars @ [var]) H" using inv a h d' by (auto simp: vars_inv_def)
  then show ?thesis using e g by blast
next
  case (Some i)
  then have i: "i < length vars" "av_checksum (vars ! i) = av_checksum var" using var_index_SomeD by blast+
  obtain xs y ys where v: "vars = xs @ y # ys" "i = length xs" using i(1) by (metis id_take_nth_drop length_take min.absorb4)
  have d: "distinct (map av_checksum vars)" using inv by (simp add: vars_inv_def)
  have y: "vars ! i = y" "vars[i := var] = xs @ var # ys" "av_checksum y = av_checksum var" using v i by (simp_all add: list_update_append)
  have d': "distinct (map av_checksum (vars[i := var]))" using d unfolding y(2) using v(1) y(3) by simp
  let ?H = "if av_allocated y then H - {av_addr y} else H"
  have "av_allocated y \<Longrightarrow> av_addr y \<in> H \<and> av_addr y \<noteq> 0"
    using inv v(1) by (auto simp: vars_inv_def split: if_splits)
  then have e: "assign_var var vars H = Some (vars[i := var], ?H)" using Some y(1) by (auto simp: assign_var_def allocator_free_def)
  have s1: "set (vars[i := var]) = insert var (set xs \<union> set ys)" unfolding y(2) by auto
  have s2: "set vars = insert y (set xs \<union> set ys)" using v(1) by auto
  have s3: "\<forall>v \<in> set xs \<union> set ys. av_checksum v \<noteq> av_checksum var" using d v(1) y(3) by (auto simp: image_iff)
  note sets = s1 s2 s3
  have g: "get_var (vars[i := var]) c = (if c = av_checksum var then Some var else get_var vars c)" for c
  proof (rule option_eqI)
    fix v' show "get_var (vars[i := var]) c = Some v' \<longleftrightarrow> (if c = av_checksum var then Some var else get_var vars c) = Some v'"
      using get_var_Some_iff [OF d', of c v'] get_var_Some_iff [OF d, of c v'] sets y(3) by auto
  qed
  have "vars_inv H0 (vars[i := var]) ?H"
  proof -
    have o: "owned vars = owned xs @ (if av_allocated y then [av_addr y] else []) @ owned ys"
      "owned (vars[i := var]) = owned xs @ (if av_allocated var then [av_addr var] else []) @ owned ys" unfolding y(2) using v(1) by simp_all
    show ?thesis using inv a h d' unfolding vars_inv_def o by (auto split: if_splits)
  qed
  then show ?thesis using e g by blast
qed

text \<open>
  The interface the pages use: an assignment changes the value under one key.  \<open>fresh a s\<close> tells that \<open>a\<close> can be the
  address of a new value.
\<close>

locale var_store =
  fixes inv :: "'s \<Rightarrow> bool"
    and val :: "'s \<Rightarrow> 'k \<Rightarrow> string option"
    and fresh :: "addr \<Rightarrow> 's \<Rightarrow> bool"
    and key :: "string \<Rightarrow> 'k"
    and assign :: "addr \<Rightarrow> string \<Rightarrow> string \<Rightarrow> 's \<Rightarrow> 's option"
  assumes assign_law: "inv s \<Longrightarrow> fresh a s \<Longrightarrow>
      \<exists>s'. assign a n v s = Some s' \<and> inv s' \<and> val s' = (val s)(key n \<mapsto> v)"
begin

fun assign_all :: "(addr \<times> string \<times> string) list \<Rightarrow> 's \<Rightarrow> 's option" where
  "assign_all [] s = Some s"
| "assign_all ((a, n, v) # xs) s = do { s \<leftarrow> assign a n v s; assign_all xs s }"

fun fresh_all :: "(addr \<times> string \<times> string) list \<Rightarrow> 's \<Rightarrow> bool" where
  "fresh_all [] s = True"
| "fresh_all ((a, n, v) # xs) s = (fresh a s \<and> (case assign a n v s of None \<Rightarrow> False | Some s \<Rightarrow> fresh_all xs s))"

lemma assign_all_law:
  "inv s \<Longrightarrow> fresh_all xs s \<Longrightarrow>
   \<exists>s'. assign_all xs s = Some s' \<and> inv s' \<and> val s' = val s ++ map_of (rev (map (\<lambda>(a, n, v). (key n, v)) xs))"
proof (induction xs arbitrary: s)
  case (Cons x xs)
  obtain a n v where x: "x = (a, n, v)" by (cases x)
  then obtain s1 where s1: "assign a n v s = Some s1" "inv s1" "val s1 = (val s)(key n \<mapsto> v)"
    using assign_law [OF Cons.prems(1), of a n v] Cons.prems(2) by auto
  have f: "fresh_all xs s1" using Cons.prems(2) x s1(1) by simp
  obtain s' where "assign_all xs s1 = Some s'" "inv s'" "val s' = val s1 ++ map_of (rev (map (\<lambda>(a, n, v). (key n, v)) xs))"
    using Cons.IH [OF s1(2) f] by blast
  then show ?case using s1 x by (auto simp: map_add_def fun_eq_iff split: option.split)
qed simp

end

lemma set_var_law:
  assumes inv: "vars_inv H0 vars H" and a: "a \<noteq> 0" "a \<notin> H"
  shows "\<exists>vars' H'. tpl_set_var adler a n v vars H = Some (vars', H') \<and> vars_inv H0 vars' H' \<and>
    var_value vars' = (var_value vars)(adler n \<mapsto> v)"
proof -
  let ?var = "\<lparr>av_value = v, av_addr = a, av_checksum = adler n, av_allocated = True\<rparr>"
  have "insert a H - {a} = H" using a(2) by simp
  then obtain vars' H' where r: "assign_var ?var vars (insert a H) = Some (vars', H')" "vars_inv H0 vars' H'"
      "\<And>c. get_var vars' c = (if c = adler n then Some ?var else get_var vars c)"
    using assign_var_ok [of H0 vars "insert a H" ?var] inv a by (auto simp: vars_inv_def)
  then show ?thesis by (auto simp: tpl_set_var_def allocator_malloc_def var_value_def fun_eq_iff)
qed

lemma set_var_static_law:
  assumes inv: "vars_inv H0 vars H"
  shows "\<exists>vars' H'. tpl_set_var_static adler a n v vars H = Some (vars', H') \<and> vars_inv H0 vars' H' \<and>
    var_value vars' = (var_value vars)(adler n \<mapsto> v)"
proof -
  let ?var = "\<lparr>av_value = v, av_addr = a, av_checksum = adler n, av_allocated = False\<rparr>"
  obtain vars' H' where r: "assign_var ?var vars H = Some (vars', H')" "vars_inv H0 vars' H'"
      "\<And>c. get_var vars' c = (if c = adler n then Some ?var else get_var vars c)"
    using assign_var_ok [of H0 vars H ?var] inv by auto
  then show ?thesis by (auto simp: tpl_set_var_static_def var_value_def fun_eq_iff)
qed

interpretation dyn: var_store "\<lambda>(vars, H). vars_inv H0 vars H" "\<lambda>(vars, H). var_value vars" "\<lambda>a (vars, H). a \<noteq> 0 \<and> a \<notin> H"
    adler "\<lambda>a n v (vars, H). tpl_set_var adler a n v vars H" for H0 adler
  by unfold_locales (use set_var_law in fastforce)

interpretation stat: var_store "\<lambda>(vars, H). vars_inv H0 vars H" "\<lambda>(vars, H). var_value vars" "\<lambda>a s. True"
    adler "\<lambda>a n v (vars, H). tpl_set_var_static adler a n v vars H" for H0 adler
  by unfold_locales (use set_var_static_law in fastforce)

lemma destroy_vars_ok:
  "n \<le> length vars \<Longrightarrow> distinct (owned (take n vars)) \<Longrightarrow> 0 \<notin> set (owned (take n vars)) \<Longrightarrow> set (owned (take n vars)) \<subseteq> H \<Longrightarrow>
   destroy_vars vars n H = Some (H - set (owned (take n vars)))"
proof (induction n arbitrary: H)
  case (Suc n)
  then have t: "take (Suc n) vars = take n vars @ [vars ! n]" by (simp add: take_Suc_conv_app_nth)
  show ?case
  proof (cases "av_allocated (vars ! n)")
    case True
    then have a: "av_addr (vars ! n) \<in> H" "av_addr (vars ! n) \<noteq> 0" "av_addr (vars ! n) \<notin> set (owned (take n vars))"
      using Suc.prems unfolding t by auto
    have "destroy_vars vars n (H - {av_addr (vars ! n)}) = Some (H - {av_addr (vars ! n)} - set (owned (take n vars)))"
      using Suc a unfolding t by (intro Suc.IH) auto
    then show ?thesis using True a unfolding t by (auto simp: allocator_free_def)
  next
    case False
    then show ?thesis using Suc unfolding t by simp
  qed
qed simp

lemma context_destroy_law: "vars_inv H0 vars H \<Longrightarrow> tpl_context_destroy vars H = Some H0"
  using destroy_vars_ok [of "length vars" vars H] by (auto simp: vars_inv_def tpl_context_destroy_def)

text \<open>The histories of a context: the assignments, the last one first.\<close>

inductive context_run :: "(string \<Rightarrow> 32 word) \<Rightarrow> heap \<Rightarrow> tpl_context \<Rightarrow> heap \<Rightarrow> (string \<times> string) list \<Rightarrow> bool" for adler H0 where
  created: "context_run adler H0 tpl_context_create H0 []"
| dynamic: "context_run adler H0 vars H h \<Longrightarrow> a \<noteq> 0 \<Longrightarrow> a \<notin> H \<Longrightarrow> tpl_set_var adler a n v vars H = Some (vars', H') \<Longrightarrow>
    context_run adler H0 vars' H' ((n, v) # h)"
| static: "context_run adler H0 vars H h \<Longrightarrow> tpl_set_var_static adler a n v vars H = Some (vars', H') \<Longrightarrow>
    context_run adler H0 vars' H' ((n, v) # h)"

definition by_sum :: "(string \<Rightarrow> 32 word) \<Rightarrow> (string \<times> string) list \<Rightarrow> 32 word \<Rightarrow> string option" where
  "by_sum adler h = map_of (map (\<lambda>(n, v). (adler n, v)) h)"

lemma by_sum_Cons [simp]: "by_sum adler ((n, v) # h) = (by_sum adler h)(adler n \<mapsto> v)"
  by (simp add: by_sum_def)

lemma by_sum_inj: "inj_on adler (insert n (fst ` set h)) \<Longrightarrow> by_sum adler h (adler n) = map_of h n"
proof (induction h)
  case (Cons e h)
  then have "inj_on adler (insert n (fst ` set h))" by (auto elim: inj_on_subset)
  moreover have "adler n = adler (fst e) \<longleftrightarrow> n = fst e" using Cons.prems by (auto dest: inj_onD)
  ultimately show ?case using Cons.IH by (cases e) auto
qed (simp add: by_sum_def)

lemma by_sum_find: "by_sum adler h c = map_option snd (find (\<lambda>(m, v). adler m = c) h)"
proof (induction h)
  case (Cons e h)
  then show ?case by (cases e) simp
qed (simp add: by_sum_def)

lemma context_run_inv: "context_run adler H0 vars H h \<Longrightarrow> vars_inv H0 vars H \<and> var_value vars = by_sum adler h"
proof (induction rule: context_run.induct)
  case created
  then show ?case by (auto simp: tpl_context_create_def vars_inv_def var_value_def get_var_def by_sum_def)
next
  case (dynamic vars H h a n v vars' H')
  then show ?case using set_var_law [of H0 vars H a adler n v] by auto
next
  case (static vars H h a n v vars' H')
  then show ?case using set_var_static_law [of H0 vars H adler a n v] by auto
qed

text \<open>
  C22.  The variables of a context of a template.  After any history of assignments, of copied and of static values, a
  name is found with the value that was given last to a name with the same checksum; so, as long as no two of the names in use
  (those assigned and the one that is asked for) have the same checksum, the context is the map from names to the values they
  were given last.  A further assignment succeeds, no value is released twice, and destroying the context releases exactly the
  values it owns.
\<close>

theorem tpl_context_refines_map:
  assumes "context_run adler H0 vars H h"
  shows "map_option av_value (get_var vars (adler n)) = map_option snd (find (\<lambda>(m, v). adler m = adler n) h) \<and>
    (inj_on adler (insert n (fst ` set h)) \<longrightarrow> map_option av_value (get_var vars (adler n)) = map_of h n) \<and>
    tpl_context_destroy vars H = Some H0 \<and>
    (a \<noteq> 0 \<and> a \<notin> H \<longrightarrow> tpl_set_var adler a n v vars H \<noteq> None) \<and> tpl_set_var_static adler a n v vars H \<noteq> None"
proof -
  have i: "vars_inv H0 vars H" "var_value vars = by_sum adler h" using context_run_inv [OF assms] by simp_all
  have g: "map_option av_value (get_var vars (adler n)) = by_sum adler h (adler n)" unfolding i(2) [symmetric] by (simp add: var_value_def)
  moreover have "by_sum adler h (adler n) = map_option snd (find (\<lambda>(m, v). adler m = adler n) h)" by (rule by_sum_find)
  moreover have "tpl_set_var adler a n v vars H \<noteq> None" if "a \<noteq> 0" "a \<notin> H" using set_var_law [OF i(1) that, of adler n v] by auto
  moreover have "tpl_set_var_static adler a n v vars H \<noteq> None" using set_var_static_law [OF i(1), of adler a n v] by auto
  ultimately show ?thesis using context_destroy_law [OF i(1)] by_sum_inj [of adler n h] by simp
qed

text \<open>The checksum of the library (RFC 1950), as a concrete function for the parameter.\<close>

definition adler32 :: "string \<Rightarrow> 32 word" where
  "adler32 s = (let (a, b) = foldl (\<lambda>(a, b) c. ((a + of_char c) mod 65521, (b + a + of_char c) mod 65521)) (1, 0) s in of_nat (b * 65536 + a :: nat))"

theorem tpl_context_refines_map_witness:
  "\<exists>vars. tpl_set_var adler32 7 ''a'' ''x'' [] {} = Some (vars, {7}) \<and>
     map_option av_value (get_var vars (adler32 ''a'')) = Some ''x'' \<and> map_option av_value (get_var vars (adler32 ''b'')) = None \<and>
     tpl_context_destroy vars {7} = Some {}"
proof -
  obtain vars where v: "tpl_set_var adler32 7 ''a'' ''x'' [] {} = Some (vars, {7})"
    by (simp add: tpl_set_var_def assign_var_def allocator_malloc_def)
  then have "tpl_set_var adler32 7 ''a'' ''x'' tpl_context_create {} = Some (vars, {7})" by (simp add: tpl_context_create_def)
  then have r: "context_run adler32 {} vars {7} [(''a'', ''x'')]"
    by (intro context_run.dynamic [OF context_run.created]) simp_all
  have "adler32 ''a'' \<noteq> adler32 ''b''" by (simp add: adler32_def)
  then show ?thesis
    using v tpl_context_refines_map [OF r, of "''a''" 1 "[]"] tpl_context_refines_map [OF r, of "''b''" 1 "[]"] by (auto simp: inj_on_def)
qed

text \<open>With this checksum there are short names that are one variable: the second assignment changes the value of the first name.\<close>

theorem colliding_names:
  "adler32 ''aca'' = adler32 ''bab'' \<and>
   (\<exists>vars H vars' H'. tpl_set_var adler32 7 ''aca'' ''x'' tpl_context_create {} = Some (vars, H) \<and> tpl_set_var adler32 8 ''bab'' ''y'' vars H = Some (vars', H') \<and>
      map_option av_value (get_var vars' (adler32 ''aca'')) = Some ''y'')"
proof -
  have c: "adler32 ''aca'' = 38600998" "adler32 ''bab'' = 38600998" by (simp_all add: adler32_def)
  then show ?thesis
    by (simp add: tpl_set_var_def tpl_context_create_def assign_var_def allocator_malloc_def allocator_free_def get_var_def)
qed

section \<open>Output of pieces\<close>

definition piece_out :: "template_t \<Rightarrow> tpl_context option \<Rightarrow> tpl_context option \<Rightarrow> tpl_context \<Rightarrow> tpl_block \<Rightarrow> string" where
  "piece_out tpl local_ctx ctx global b = (case tb_type b of
      TPL_TYPE_TEXT \<Rightarrow> (case tpl_bytes tpl (tb_content_offset b) (unat (tb_content_length b)) of Some s \<Rightarrow> s | None \<Rightarrow> [])
    | TPL_TYPE_VAR \<Rightarrow> (case find_var local_ctx ctx global (tb_content_length b) of Some var \<Rightarrow> av_value var | None \<Rightarrow> [])
    | _ \<Rightarrow> [])"

text \<open>A piece that can be put out: a variable, or a text that lies in the template.\<close>

definition in_template :: "template_t \<Rightarrow> tpl_block \<Rightarrow> bool" where
  "in_template tpl b \<longleftrightarrow> tb_type b = TPL_TYPE_VAR \<or>
     tb_type b = TPL_TYPE_TEXT \<and> tpl_bytes tpl (tb_content_offset b) (unat (tb_content_length b)) \<noteq> None"

definition out_ok :: "buf_t \<Rightarrow> string \<Rightarrow> bool" where
  "out_ok out s \<longleftrightarrow> buf_inv out \<and> b_node_size out = 1 \<and> length (buf_used out) + length s < 2 ^ 32"

lemma put_piece_ok:
  assumes "in_template tpl b" "out_ok out (piece_out tpl loc ctx glob b)"
  shows "\<exists>out'. put_piece u base tpl loc ctx glob b out = Some out' \<and> buf_inv out' \<and> b_node_size out' = 1 \<and>
    buf_used out' = buf_used out @ piece_out tpl loc ctx glob b"
proof (cases "tb_type b = TPL_TYPE_VAR")
  case True
  then show ?thesis using page.app_law [of out "piece_out tpl loc ctx glob b" u base] assms(2)
    by (cases "find_var loc ctx glob (tb_content_length b)") (auto simp: put_piece_def piece_out_def out_ok_def)
next
  case False
  then show ?thesis using page.app_law [of out "piece_out tpl loc ctx glob b" u base] assms
    by (auto simp: put_piece_def piece_out_def out_ok_def in_template_def)
qed

text \<open>From the piece \<open>pc\<close> on, the loop puts out \<open>s\<close> and comes to the piece \<open>pc'\<close>.\<close>

definition emits ::
  "char \<Rightarrow> int \<Rightarrow> template_t \<Rightarrow> tpl_context option \<Rightarrow> block_context list \<Rightarrow> tpl_context \<Rightarrow>
   nat \<Rightarrow> 32 word list \<Rightarrow> string \<Rightarrow> nat \<Rightarrow> 32 word list \<Rightarrow> bool" where
  "emits u base tpl ctx blocks glob pc sums s pc' sums' \<longleftrightarrow>
     (\<forall>out. out_ok out s \<longrightarrow> (\<exists>out'. buf_inv out' \<and> b_node_size out' = 1 \<and> buf_used out' = buf_used out @ s \<and>
        complete_loop u base tpl ctx blocks glob pc sums out = complete_loop u base tpl ctx blocks glob pc' sums' out'))"

lemma emits_refl: "emits u base tpl ctx blocks glob pc sums [] pc sums"
  by (auto simp: emits_def out_ok_def)

lemma emits_trans:
  assumes "emits u base tpl ctx blocks glob pc sums s pc' sums'" "emits u base tpl ctx blocks glob pc' sums' t pc'' sums''"
  shows "emits u base tpl ctx blocks glob pc sums (s @ t) pc'' sums''"
  unfolding emits_def
proof (intro allI impI)
  fix out assume o: "out_ok out (s @ t)"
  then have "out_ok out s" by (simp add: out_ok_def)
  then obtain out' where o': "buf_inv out'" "b_node_size out' = 1" "buf_used out' = buf_used out @ s"
      "complete_loop u base tpl ctx blocks glob pc sums out = complete_loop u base tpl ctx blocks glob pc' sums' out'"
    using assms(1) by (auto simp: emits_def)
  then have "out_ok out' t" using o by (simp add: out_ok_def)
  then obtain out2 where "buf_inv out2" "b_node_size out2 = 1" "buf_used out2 = buf_used out' @ t"
      "complete_loop u base tpl ctx blocks glob pc' sums' out' = complete_loop u base tpl ctx blocks glob pc'' sums'' out2"
    using assms(2) unfolding emits_def by blast
  then show "\<exists>out'. buf_inv out' \<and> b_node_size out' = 1 \<and> buf_used out' = buf_used out @ s @ t \<and>
      complete_loop u base tpl ctx blocks glob pc sums out = complete_loop u base tpl ctx blocks glob pc'' sums'' out'"
    using o' by (intro exI [of _ out2]) simp
qed

text \<open>The context a piece is put out with, and the step at it.\<close>

definition local_of :: "block_context list \<Rightarrow> 32 word list \<Rightarrow> tpl_block \<Rightarrow> tpl_context option" where
  "local_of blocks sums b = (if tb_block_checksum b = 0 then None
     else map_option (\<lambda>i. bc_vars (blocks ! i)) (find_from (\<lambda>s. s = tb_block_checksum b) 0 sums))"

lemma emits_next:
  assumes vec: "tpl_vector tpl = pre @ b # c # rest" and b: "in_template tpl b" and c: "tb_type c \<noteq> TPL_TYPE_TERM"
    and act: "tb_block_checksum b = 0 \<or> find_from (\<lambda>s. s = tb_block_checksum b) 0 sums \<noteq> None \<and> tb_block_length b \<noteq> 1 \<and> 0 \<le> tb_block_length b"
  shows "emits u base tpl ctx blocks glob (length pre) sums (piece_out tpl (local_of blocks sums b) ctx glob b) (Suc (length pre)) sums"
  unfolding emits_def
proof (intro allI impI)
  fix out assume o: "out_ok out (piece_out tpl (local_of blocks sums b) ctx glob b)"
  obtain out' where o': "put_piece u base tpl (local_of blocks sums b) ctx glob b out = Some out'" "buf_inv out'" "b_node_size out' = 1"
      "buf_used out' = buf_used out @ piece_out tpl (local_of blocks sums b) ctx glob b" using put_piece_ok [OF b o] by blast
  have n: "tpl_vector tpl ! length pre = b" "tpl_vector tpl ! Suc (length pre) = c" "Suc (length pre) < length (tpl_vector tpl)"
    using vec by (simp_all add: nth_append)
  have "complete_step u base tpl ctx blocks glob (length pre) sums out = Some (Next sums out')"
    using act o'(1) n by (auto simp: complete_step_def local_of_def)
  then have "complete_loop u base tpl ctx blocks glob (length pre) sums out = complete_loop u base tpl ctx blocks glob (Suc (length pre)) sums out'"
    using n c by (subst complete_loop.simps) simp
  then show "\<exists>out'. buf_inv out' \<and> b_node_size out' = 1 \<and> buf_used out' = buf_used out @ piece_out tpl (local_of blocks sums b) ctx glob b \<and>
      complete_loop u base tpl ctx blocks glob (length pre) sums out = complete_loop u base tpl ctx blocks glob (Suc (length pre)) sums out'"
    using o' by blast
qed

lemma emits_jump:
  assumes vec: "tpl_vector tpl = pre @ b # rest" and b: "in_template tpl b"
    and act: "tb_block_checksum b \<noteq> 0" "find_from (\<lambda>s. s = tb_block_checksum b) 0 sums = Some i"
    and len: "tb_block_length b < 0 \<and> int p = int (length pre) + tb_block_length b \<or> tb_block_length b = 1 \<and> p = length pre"
  shows "emits u base tpl ctx blocks glob (length pre) sums (piece_out tpl (Some (bc_vars (blocks ! i))) ctx glob b) p (sums[i := 0])"
  unfolding emits_def
proof (intro allI impI)
  let ?s = "piece_out tpl (Some (bc_vars (blocks ! i))) ctx glob b"
  fix out assume o: "out_ok out ?s"
  obtain out' where o': "put_piece u base tpl (Some (bc_vars (blocks ! i))) ctx glob b out = Some out'" "buf_inv out'" "b_node_size out' = 1"
      "buf_used out' = buf_used out @ ?s" using put_piece_ok [OF b o] by blast
  have n: "tpl_vector tpl ! length pre = b" "length pre < length (tpl_vector tpl)" using vec by simp_all
  have "complete_step u base tpl ctx blocks glob (length pre) sums out = Some (Goto (int p) (sums[i := 0]) out')"
    using act o'(1) n len by (auto simp: complete_step_def)
  then have "complete_loop u base tpl ctx blocks glob (length pre) sums out = complete_loop u base tpl ctx blocks glob p (sums[i := 0]) out'"
    by (subst complete_loop.simps) simp
  then show "\<exists>out'. buf_inv out' \<and> b_node_size out' = 1 \<and> buf_used out' = buf_used out @ ?s \<and>
      complete_loop u base tpl ctx blocks glob (length pre) sums out = complete_loop u base tpl ctx blocks glob p (sums[i := 0]) out'"
    using o' by blast
qed

lemma emits_skip:
  assumes "tpl_vector tpl = pre @ b # rest" "tb_block_checksum b \<noteq> 0" "find_from (\<lambda>s. s = tb_block_checksum b) 0 sums = None" "0 < tb_block_length b"
    "int p = int (length pre) + tb_block_length b"
  shows "emits u base tpl ctx blocks glob (length pre) sums [] p sums"
proof -
  have "complete_step u base tpl ctx blocks glob (length pre) sums out = Some (Goto (int p) sums out)" for out
    using assms by (simp add: complete_step_def)
  then have "complete_loop u base tpl ctx blocks glob (length pre) sums out = complete_loop u base tpl ctx blocks glob p sums out" for out
    by (subst complete_loop.simps) simp
  then show ?thesis by (auto simp: emits_def out_ok_def)
qed


section \<open>Blocks are repeated\<close>

lemma in_template_not_term: "in_template tpl b \<Longrightarrow> tb_type b \<noteq> TPL_TYPE_TERM"
  by (auto simp: in_template_def)

lemma emits_row:
  assumes "tpl_vector tpl = pre @ bs @ c # rest" "list_all (in_template tpl) bs" "tb_type c \<noteq> TPL_TYPE_TERM"
    and "\<forall>b \<in> set bs. (tb_block_checksum b = 0 \<or> find_from (\<lambda>s. s = tb_block_checksum b) 0 sums \<noteq> None \<and> tb_block_length b \<noteq> 1 \<and> 0 \<le> tb_block_length b) \<and>
      local_of blocks sums b = loc"
  shows "emits u base tpl ctx blocks glob (length pre) sums (concat (map (piece_out tpl loc ctx glob) bs)) (length (pre @ bs)) sums"
  using assms
proof (induction bs arbitrary: pre)
  case Nil
  then show ?case by (simp add: emits_refl)
next
  case (Cons b bs)
  obtain c' rest' where n: "bs @ c # rest = c' # rest'" by (cases bs) auto
  have "tb_type c' \<noteq> TPL_TYPE_TERM" using n Cons.prems(2,3) in_template_not_term by (cases bs) auto
  then have 1: "emits u base tpl ctx blocks glob (length pre) sums (piece_out tpl loc ctx glob b) (length (pre @ [b])) sums"
    using emits_next [of tpl pre b c' rest' sums u base ctx blocks glob] Cons.prems n by auto
  have 2: "emits u base tpl ctx blocks glob (length (pre @ [b])) sums (concat (map (piece_out tpl loc ctx glob) bs)) (length ((pre @ [b]) @ bs)) sums"
    using Cons.prems by (intro Cons.IH) auto
  show ?case using emits_trans [OF 1 2] by simp
qed

text \<open>The marks of a block, as the compiler sets them.\<close>

definition marked :: "tpl_block list \<Rightarrow> bool" where
  "marked bs \<longleftrightarrow> bs \<noteq> [] \<and> tb_block_length (hd bs) = int (length bs) \<and>
     (length bs > 1 \<longrightarrow> tb_block_length (last bs) = - (int (length bs) - 1)) \<and> (\<forall>b \<in> set (tl (butlast bs)). tb_block_length b = 0)"

lemma emits_round:
  assumes vec: "tpl_vector tpl = pre @ bs @ rest" and bs: "list_all (in_template tpl) bs" "marked bs" "list_all (\<lambda>b. tb_block_checksum b = c) bs"
    and c: "c \<noteq> 0" "find_from (\<lambda>s. s = c) 0 sums = Some i"
  shows "emits u base tpl ctx blocks glob (length pre) sums (concat (map (piece_out tpl (Some (bc_vars (blocks ! i))) ctx glob) bs)) (length pre) (sums[i := 0])"
proof -
  obtain xs l where l: "bs = xs @ [l]" using bs(2) by (cases bs rule: rev_exhaust) (auto simp: marked_def)
  have li: "in_template tpl l" "tb_block_checksum l = c" using bs l by auto
  show ?thesis
  proof (cases "xs = []")
    case True
    then have "tb_block_length l = 1" using bs(2) l by (simp add: marked_def)
    then show ?thesis using emits_jump [of tpl pre l rest sums i "length pre" u base ctx blocks glob] vec li c l True by simp
  next
    case False
    then obtain x ys where x: "xs = x # ys" by (cases xs) auto
    have m: "tb_block_length x = int (length bs)" "tb_block_length l = - int (length xs)" "\<forall>b \<in> set ys. tb_block_length b = 0"
      using bs(2) l x by (auto simp: marked_def)
    have act: "\<forall>b \<in> set xs. (tb_block_checksum b = 0 \<or> find_from (\<lambda>s. s = tb_block_checksum b) 0 sums \<noteq> None \<and> tb_block_length b \<noteq> 1 \<and> 0 \<le> tb_block_length b) \<and>
        local_of blocks sums b = Some (bc_vars (blocks ! i))"
      using bs(3) l c m x by (auto simp: list_all_iff local_of_def)
    have 1: "emits u base tpl ctx blocks glob (length pre) sums (concat (map (piece_out tpl (Some (bc_vars (blocks ! i))) ctx glob) xs)) (length (pre @ xs)) sums"
      using vec l bs(1) act in_template_not_term [OF li(1)] by (intro emits_row [of tpl pre xs l rest]) auto
    have 2: "emits u base tpl ctx blocks glob (length (pre @ xs)) sums (piece_out tpl (Some (bc_vars (blocks ! i))) ctx glob l) (length pre) (sums[i := 0])"
      using vec l li c m(2) x by (intro emits_jump [of tpl "pre @ xs" l rest]) auto
    show ?thesis using emits_trans [OF 1 2] l by simp
  qed
qed

text \<open>The contexts that belong to a block, in their order.\<close>

definition contexts_of :: "32 word \<Rightarrow> 32 word list \<Rightarrow> nat list" where
  "contexts_of c sums = filter (\<lambda>i. sums ! i = c) [0..<length sums]"

definition use_up :: "32 word \<Rightarrow> 32 word list \<Rightarrow> 32 word list" where
  "use_up c sums = map (\<lambda>s. if s = c then 0 else s) sums"

lemma contexts_of_first:
  assumes "find_from (\<lambda>s. s = c) 0 sums = Some i" "c \<noteq> 0"
  shows "contexts_of c sums = i # contexts_of c (sums[i := 0])" "use_up c (sums[i := 0]) = use_up c sums"
proof -
  have i: "i < length sums" "sums ! i = c" "\<forall>j < i. sums ! j \<noteq> c" using find_from_0_SomeD [OF assms(1)] by auto
  have r: "[0..<length sums] = [0..<i] @ i # [Suc i..<length sums]" using i(1) by (metis less_imp_add_positive upt_add_eq_append upt_conv_Cons zero_le)
  have "filter (\<lambda>k. sums[i := 0] ! k = c) [Suc i..<length sums] = filter (\<lambda>k. sums ! k = c) [Suc i..<length sums]"
    by (rule filter_cong) auto
  then show "contexts_of c sums = i # contexts_of c (sums[i := 0])"
    unfolding contexts_of_def length_list_update r using i assms(2) by (simp add: filter_empty_conv)
  show "use_up c (sums[i := 0]) = use_up c sums" unfolding use_up_def map_update using i by (simp add: list_update_same_conv)
qed

lemma contexts_of_none: "find_from (\<lambda>s. s = c) 0 sums = None \<Longrightarrow> contexts_of c sums = [] \<and> use_up c sums = sums"
  by (auto simp: contexts_of_def use_up_def find_from_None filter_empty_conv dest: nth_mem intro: map_idI)

lemma contexts_of_other: "c \<noteq> c' \<Longrightarrow> c \<noteq> 0 \<Longrightarrow> contexts_of c (use_up c' sums) = contexts_of c sums"
  unfolding contexts_of_def use_up_def length_map by (rule filter_cong) auto

lemma emits_block:
  assumes vec: "tpl_vector tpl = pre @ bs @ rest" and bs: "list_all (in_template tpl) bs" "marked bs" "list_all (\<lambda>b. tb_block_checksum b = c) bs" "c \<noteq> 0"
  shows "emits u base tpl ctx blocks glob (length pre) sums
    (concat (map (\<lambda>i. concat (map (piece_out tpl (Some (bc_vars (blocks ! i))) ctx glob) bs)) (contexts_of c sums))) (length (pre @ bs)) (use_up c sums)"
proof (induction "length (contexts_of c sums)" arbitrary: sums)
  case 0
  then have "find_from (\<lambda>s. s = c) 0 sums = None" using contexts_of_first(1) [of c sums] bs(4) by (cases "find_from (\<lambda>s. s = c) 0 sums") auto
  moreover obtain b bs' where b: "bs = b # bs'" using bs(2) by (cases bs) (auto simp: marked_def)
  ultimately have "emits u base tpl ctx blocks glob (length pre) sums [] (length (pre @ bs)) sums"
    using emits_skip [of tpl pre b "bs' @ rest" sums "length (pre @ bs)" u base ctx blocks glob] vec bs by (auto simp: marked_def)
  then show ?case using 0 contexts_of_none [OF \<open>find_from (\<lambda>s. s = c) 0 sums = None\<close>] by simp
next
  case (Suc n)
  then obtain i where i: "find_from (\<lambda>s. s = c) 0 sums = Some i" using contexts_of_none [of c sums] by (cases "find_from (\<lambda>s. s = c) 0 sums") auto
  note f = contexts_of_first [OF i bs(4)]
  have "n = length (contexts_of c (sums[i := 0]))" using Suc.hyps(2) f(1) by simp
  from emits_trans [OF emits_round [OF vec bs(1-3) bs(4) i] Suc.hyps(1) [OF this]] show ?case unfolding f by simp
qed


text \<open>A template as a row of plain parts and blocks, and what it should give.\<close>

datatype segment = Plain "tpl_block list" | Repeated "32 word" "tpl_block list"

fun seg_blocks :: "segment \<Rightarrow> tpl_block list" where
  "seg_blocks (Plain bs) = bs"
| "seg_blocks (Repeated c bs) = bs"

fun seg_sums :: "segment \<Rightarrow> 32 word list" where
  "seg_sums (Plain bs) = []"
| "seg_sums (Repeated c bs) = [c]"

fun seg_ok :: "template_t \<Rightarrow> segment \<Rightarrow> bool" where
  "seg_ok tpl (Plain bs) \<longleftrightarrow> bs \<noteq> [] \<and> list_all (in_template tpl) bs \<and> list_all (\<lambda>b. tb_block_checksum b = 0) bs"
| "seg_ok tpl (Repeated c bs) \<longleftrightarrow> c \<noteq> 0 \<and> list_all (in_template tpl) bs \<and> marked bs \<and> list_all (\<lambda>b. tb_block_checksum b = c) bs"

fun seg_out :: "template_t \<Rightarrow> tpl_context option \<Rightarrow> block_context list \<Rightarrow> tpl_context \<Rightarrow> segment \<Rightarrow> string" where
  "seg_out tpl ctx blocks glob (Plain bs) = concat (map (piece_out tpl None ctx glob) bs)"
| "seg_out tpl ctx blocks glob (Repeated c bs) =
     concat (map (\<lambda>bc. concat (map (piece_out tpl (Some (bc_vars bc)) ctx glob) bs)) (filter (\<lambda>bc. bc_checksum bc = c) blocks))"

text \<open>The contexts are still there for the blocks \<open>cs\<close>.\<close>

definition unused :: "32 word list \<Rightarrow> block_context list \<Rightarrow> 32 word list \<Rightarrow> bool" where
  "unused cs blocks sums \<longleftrightarrow> (\<forall>c \<in> set cs. map ((!) blocks) (contexts_of c sums) = filter (\<lambda>bc. bc_checksum bc = c) blocks)"

lemma unused_start: "unused cs blocks (map bc_checksum blocks)"
proof -
  have "filter (\<lambda>bc. bc_checksum bc = c) blocks = map ((!) blocks) (filter (\<lambda>i. bc_checksum (blocks ! i) = c) [0..<length blocks])" for c
    by (subst map_nth [symmetric, of blocks]) (simp only: filter_map comp_def)
  moreover have "contexts_of c (map bc_checksum blocks) = filter (\<lambda>i. bc_checksum (blocks ! i) = c) [0..<length blocks]" for c
    unfolding contexts_of_def length_map by (rule filter_cong) auto
  ultimately show ?thesis by (simp add: unused_def)
qed

lemma seg_not_term: "seg_ok tpl s \<Longrightarrow> \<exists>b bs. seg_blocks s = b # bs \<and> tb_type b \<noteq> TPL_TYPE_TERM"
  using in_template_not_term by (cases s; cases "seg_blocks s") (auto simp: marked_def)

lemma emits_segments:
  assumes "tpl_vector tpl = pre @ concat (map seg_blocks segs) @ c # rest" "list_all (seg_ok tpl) segs" "tb_type c \<noteq> TPL_TYPE_TERM"
    "distinct (concat (map seg_sums segs))" "unused (concat (map seg_sums segs)) blocks sums"
  shows "\<exists>sums'. emits u base tpl ctx blocks glob (length pre) sums (concat (map (seg_out tpl ctx blocks glob) segs))
    (length (pre @ concat (map seg_blocks segs))) sums'"
  using assms
proof (induction segs arbitrary: pre sums)
  case Nil
  then show ?case by (intro exI [of _ sums]) (simp add: emits_refl)
next
  case (Cons s segs)
  let ?pre = "pre @ seg_blocks s"
  have vec: "tpl_vector tpl = ?pre @ concat (map seg_blocks segs) @ c # rest" using Cons.prems(1) by simp
  have "\<exists>sums1. emits u base tpl ctx blocks glob (length pre) sums (seg_out tpl ctx blocks glob s) (length ?pre) sums1 \<and>
      unused (concat (map seg_sums segs)) blocks sums1"
  proof (cases s)
    case (Plain bs)
    obtain c' rest' where n: "concat (map seg_blocks segs) @ c # rest = c' # rest'" "tb_type c' \<noteq> TPL_TYPE_TERM"
      using seg_not_term Cons.prems(2,3) by (cases segs) fastforce+
    have "emits u base tpl ctx blocks glob (length pre) sums (concat (map (piece_out tpl None ctx glob) bs)) (length (pre @ bs)) sums"
      using Cons.prems(1,2) Plain n by (intro emits_row [of tpl pre bs c' rest']) (auto simp: list_all_iff local_of_def)
    then show ?thesis using Plain Cons.prems(5) by auto
  next
    case (Repeated k bs)
    have k: "list_all (in_template tpl) bs" "marked bs" "list_all (\<lambda>b. tb_block_checksum b = k) bs" "k \<noteq> 0" using Cons.prems(2) Repeated by auto
    have v: "tpl_vector tpl = pre @ bs @ (concat (map seg_blocks segs) @ c # rest)" using Cons.prems(1) Repeated by simp
    have m: "map ((!) blocks) (contexts_of k sums) = filter (\<lambda>bc. bc_checksum bc = k) blocks" using Cons.prems(5) Repeated by (simp add: unused_def)
    have "emits u base tpl ctx blocks glob (length pre) sums (seg_out tpl ctx blocks glob s) (length ?pre) (use_up k sums)"
      using emits_block [OF v k, of u base ctx blocks glob sums] unfolding Repeated seg_out.simps seg_blocks.simps m [symmetric] by (simp add: comp_def)
    moreover have "unused (concat (map seg_sums segs)) blocks (use_up k sums)"
      unfolding unused_def
    proof
      fix d assume d: "d \<in> set (concat (map seg_sums segs))"
      then obtain s' where "s' \<in> set segs" "d \<in> set (seg_sums s')" by auto
      then have "d \<noteq> 0" using Cons.prems(2) by (cases s' rule: segment.exhaust) (auto simp: list_all_iff)
      moreover have "d \<noteq> k" using Cons.prems(4) Repeated d by auto
      ultimately show "map ((!) blocks) (contexts_of d (use_up k sums)) = filter (\<lambda>bc. bc_checksum bc = d) blocks"
        using Cons.prems(5) d contexts_of_other [of d k sums] by (simp add: unused_def)
    qed
    ultimately show ?thesis by blast
  qed
  then obtain sums1 where 1: "emits u base tpl ctx blocks glob (length pre) sums (seg_out tpl ctx blocks glob s) (length ?pre) sums1"
    "unused (concat (map seg_sums segs)) blocks sums1" by blast
  have "list_all (seg_ok tpl) segs" "distinct (concat (map seg_sums segs))" using Cons.prems(2,4) by simp_all
  from Cons.IH [OF vec this(1) Cons.prems(3) this(2) 1(2)] obtain sums2 where
    2: "emits u base tpl ctx blocks glob (length ?pre) sums1 (concat (map (seg_out tpl ctx blocks glob) segs)) (length (?pre @ concat (map seg_blocks segs))) sums2"
    by blast
  from emits_trans [OF 1(1) 2] show ?case by auto
qed

lemma complete_law:
  assumes vec: "tpl_vector tpl = concat (map seg_blocks segs) @ bs @ [t]" and t: "tb_type t = TPL_TYPE_TERM"
    and segs: "list_all (seg_ok tpl) segs" "seg_ok tpl (Plain bs)" "distinct (concat (map seg_sums segs))"
    and o: "out_ok out (concat (map (seg_out tpl ctx blocks glob) (segs @ [Plain bs])))"
  shows "\<exists>out'. tpl_complete u base tpl ctx blocks glob out = Some out' \<and> buf_inv out' \<and> b_node_size out' = 1 \<and>
    buf_used out' = buf_used out @ concat (map (seg_out tpl ctx blocks glob) (segs @ [Plain bs]))"
proof -
  let ?pre = "concat (map seg_blocks segs)" and ?sums = "map bc_checksum blocks"
  obtain xs l where l: "bs = xs @ [l]" using segs(2) by (cases bs rule: rev_exhaust) auto
  have li: "in_template tpl l" "tb_block_checksum l = 0" using segs(2) l by auto
  obtain c rest where c: "bs @ [t] = c # rest" "tb_type c \<noteq> TPL_TYPE_TERM" using seg_not_term [OF segs(2)] by auto
  obtain sums where 1: "emits u base tpl ctx blocks glob 0 ?sums (concat (map (seg_out tpl ctx blocks glob) segs)) (length ?pre) sums"
    using emits_segments [of tpl "[]" segs c rest blocks ?sums u base ctx glob] vec c segs(1,3) unused_start by auto
  have 2: "emits u base tpl ctx blocks glob (length ?pre) sums (concat (map (piece_out tpl None ctx glob) xs)) (length (?pre @ xs)) sums"
    using vec l segs(2) in_template_not_term [OF li(1)] by (intro emits_row [of tpl ?pre xs l "[t]"]) (auto simp: list_all_iff local_of_def)
  let ?s = "concat (map (seg_out tpl ctx blocks glob) segs) @ concat (map (piece_out tpl None ctx glob) xs)"
  have os: "out_ok out ?s" using o l by (simp add: out_ok_def)
  obtain out1 where o1: "buf_inv out1" "b_node_size out1 = 1" "buf_used out1 = buf_used out @ ?s"
      "complete_loop u base tpl ctx blocks glob 0 ?sums out = complete_loop u base tpl ctx blocks glob (length (?pre @ xs)) sums out1"
    using emits_trans [OF 1 2] os unfolding emits_def by blast
  have "out_ok out1 (piece_out tpl None ctx glob l)" using o o1 l by (simp add: out_ok_def)
  then obtain out2 where o2: "put_piece u base tpl None ctx glob l out1 = Some out2" "buf_inv out2" "b_node_size out2 = 1"
      "buf_used out2 = buf_used out1 @ piece_out tpl None ctx glob l" using put_piece_ok [OF li(1)] by blast
  have n: "tpl_vector tpl ! length (?pre @ xs) = l" "tpl_vector tpl ! Suc (length (?pre @ xs)) = t" "Suc (length (?pre @ xs)) < length (tpl_vector tpl)"
    using vec l by (simp_all add: nth_append)
  have "complete_loop u base tpl ctx blocks glob (length (?pre @ xs)) sums out1 = Some out2"
    using n li(2) o2(1) t by (subst complete_loop.simps) (simp add: complete_step_def)
  moreover have "tpl_vector tpl \<noteq> []" using vec by simp
  moreover have "tb_type (hd (tpl_vector tpl)) \<noteq> TPL_TYPE_TERM"
    using vec c segs(1) seg_not_term by (cases segs) fastforce+
  ultimately have "tpl_complete u base tpl ctx blocks glob out = Some out2" using o1(4) by (simp add: tpl_complete_def)
  then show ?thesis using o1(3) o2 l by simp
qed


text \<open>
  On a marked vector that ends with a plain part and has no nested blocks, \<^verbatim>\<open>tpl_complete\<close> ends and puts out plain parts
  once and every block once for each of its contexts, in the order of the contexts and with their variables, blocks without a
  context not at all; a variable has the value of the block's context, else of the page's, else the global one, else none.
\<close>

theorem tpl_complete_blocks:
  assumes "tpl_vector tpl = concat (map seg_blocks segs) @ bs @ [t]" "tb_type t = TPL_TYPE_TERM"
    and "list_all (seg_ok tpl) segs" "seg_ok tpl (Plain bs)" "distinct (concat (map seg_sums segs))"
    and "out_ok out (concat (map (seg_out tpl ctx blocks glob) (segs @ [Plain bs])))"
  shows "\<exists>out'. tpl_complete u base tpl ctx blocks glob out = Some out' \<and> buf_inv out' \<and>
    buf_used out' = buf_used out @ concat (map (seg_out tpl ctx blocks glob) (segs @ [Plain bs]))"
  using complete_law [OF assms] by blast

definition demo_block :: "tpl_block_types \<Rightarrow> nat \<Rightarrow> 32 word \<Rightarrow> 32 word \<Rightarrow> int \<Rightarrow> tpl_block" where
  "demo_block ty off len c l = \<lparr>tb_content_offset = off, tb_content_length = len, tb_block_checksum = c, tb_block_length = l, tb_type = ty\<rparr>"

definition demo_template :: template_t where
  "demo_template = \<lparr>tpl_vector = [demo_block TPL_TYPE_TEXT 96 2 5 2, demo_block TPL_TYPE_VAR 0 9 5 (- 1), demo_block TPL_TYPE_TEXT 98 1 0 0, demo_block TPL_TYPE_TERM 0 0 0 0],
     tpl_text = ''hi.''\<rparr>"

definition demo_var :: "string \<Rightarrow> assoc_variable" where
  "demo_var v = \<lparr>av_value = v, av_addr = 0, av_checksum = 9, av_allocated = False\<rparr>"

definition empty_page :: buf_t where
  "empty_page = \<lparr>b_cur_len = 0, b_reserved_len = 0, b_node_size = 1, b_base = 0, b_data = []\<rparr>"

theorem tpl_complete_blocks_witness:
  "\<exists>out'. tpl_complete CHR ''u'' 0 demo_template None [\<lparr>bc_vars = [demo_var ''A''], bc_checksum = 5\<rparr>, \<lparr>bc_vars = [demo_var ''B''], bc_checksum = 5\<rparr>] [] empty_page = Some out' \<and>
     buf_used out' = ''hiAhiB.''"
proof -
  let ?bs = "[demo_block TPL_TYPE_TEXT 96 2 5 2, demo_block TPL_TYPE_VAR 0 9 5 (- 1)]"
  let ?bl = "[\<lparr>bc_vars = [demo_var ''A''], bc_checksum = 5\<rparr>, \<lparr>bc_vars = [demo_var ''B''], bc_checksum = 5\<rparr>]"
  note defs = demo_template_def demo_block_def demo_var_def tpl_bytes_def TPL_BLOCK_SIZE_def Let_def in_template_def marked_def
  have o: "concat (map (seg_out demo_template None ?bl []) ([Repeated 5 ?bs] @ [Plain [demo_block TPL_TYPE_TEXT 98 1 0 0]])) = ''hiAhiB.''"
    by (simp add: defs piece_out_def find_var_def get_var_def)
  have v: "tpl_vector demo_template = concat (map seg_blocks [Repeated 5 ?bs]) @ [demo_block TPL_TYPE_TEXT 98 1 0 0] @ [demo_block TPL_TYPE_TERM 0 0 0 0]"
    by (simp add: demo_template_def)
  have k: "out_ok empty_page ''hiAhiB.''" by (simp add: out_ok_def empty_page_def buf_inv_def buf_used_def)
  have "buf_used empty_page = []" by (simp add: empty_page_def buf_used_def)
  then show ?thesis
    using tpl_complete_blocks [OF v, of empty_page None ?bl "[]" "CHR ''u''" 0] o k
    by (simp add: defs) blast
qed

section \<open>From the files to the page\<close>

definition value_of :: "tpl_context option \<Rightarrow> tpl_context option \<Rightarrow> tpl_context \<Rightarrow> 32 word \<Rightarrow> string" where
  "value_of local_ctx ctx glob c = (case find_var local_ctx ctx glob c of Some var \<Rightarrow> av_value var | None \<Rightarrow> [])"

lemma flat_piece_out:
  assumes "flat_block (length x) b" "tpl_text tpl = x"
  defines "b' \<equiv> b\<lparr>tb_content_offset := tb_content_offset b + TPL_BLOCK_SIZE * length (tpl_vector tpl)\<rparr>"
  shows "in_template tpl b' \<and> piece_out tpl loc ctx glob b' = block_bytes (value_of loc ctx glob) x b"
proof (cases "tb_type b = TPL_TYPE_VAR")
  case True
  then show ?thesis by (simp add: b'_def in_template_def piece_out_def block_bytes_def value_of_def)
next
  case False
  then have f: "tb_type b = TPL_TYPE_TEXT" "tb_content_offset b + unat (tb_content_length b) \<le> length x" using assms(1) by (auto simp: flat_block_def)
  then have "tpl_bytes tpl (tb_content_offset b') (unat (tb_content_length b')) =
      Some (seg x (tb_content_offset b) (tb_content_offset b + unat (tb_content_length b)))"
    using assms(2) by (simp add: tpl_bytes_def Let_def b'_def seg_def)
  then show ?thesis using f by (simp add: b'_def in_template_def piece_out_def block_bytes_def)
qed

text \<open>The pieces with their offsets from the vector of \<open>n\<close> pieces on.\<close>

definition from_vector :: "nat \<Rightarrow> tpl_block list \<Rightarrow> tpl_block list" where
  "from_vector n = map (\<lambda>b. b\<lparr>tb_content_offset := tb_content_offset b + TPL_BLOCK_SIZE * n\<rparr>)"

lemma flat_pieces_out:
  assumes fp: "flat_pieces adler c x ps w" and tpl: "tpl_text tpl = x" "length (tpl_vector tpl) = n"
  shows "list_all (in_template tpl) (from_vector n w)" "list_all (\<lambda>b. tb_block_checksum b = c) (from_vector n w)" "from_vector n w \<noteq> []"
    "concat (map (piece_out tpl loc ctx glob) (from_vector n w)) = concat (map (piece_value adler (value_of loc ctx glob)) ps)"
proof -
  have w: "w \<noteq> []" "\<forall>b \<in> set w. flat_block (length x) b \<and> tb_block_checksum b = c" using fp by (auto simp: flat_pieces_def list_all_iff)
  have p: "in_template tpl (b\<lparr>tb_content_offset := tb_content_offset b + TPL_BLOCK_SIZE * n\<rparr>)"
    "piece_out tpl loc ctx glob (b\<lparr>tb_content_offset := tb_content_offset b + TPL_BLOCK_SIZE * n\<rparr>) = block_bytes (value_of loc ctx glob) x b"
    if "b \<in> set w" for b using flat_piece_out [of x b tpl loc ctx glob] w(2) tpl that by auto
  from p(2) have "map (piece_out tpl loc ctx glob) (from_vector n w) = map (block_bytes (value_of loc ctx glob) x) w" by (simp add: from_vector_def)
  then show "concat (map (piece_out tpl loc ctx glob) (from_vector n w)) = concat (map (piece_value adler (value_of loc ctx glob)) ps)"
    using fp by (simp only: flat_pieces_def)
qed (use assms in \<open>auto simp: from_vector_def list_all_iff flat_pieces_def dest: flat_piece_out\<close>)

text \<open>
  C20.  From the files to the page, for a template without blocks whose files do not include themselves, and none of whose
  compiled companions has the checksum of its name: when it is compiled for the first time it is its text with the included
  files in their places, put out with every variable replaced by the value that the checksum of its name has in the context of
  the page, else in the global one, else by nothing.  The working directory is as before.  The compiled template is kept:
  when it is asked for again it is returned as it is, whatever the files are then, if updates are not looked for or if
  the file is not newer than it was.
\<close>

theorem template_rendered:
  assumes new: "\<forall>c \<in> set (ts_compiled st). ct_checksum c \<noteq> adler fname"
    and dir: "\<forall>e \<in> set (w_saved (ts_cwd st)). fst e \<noteq> d" "chdir_ok dir"
    and doc: "docs fname = Some qs" "expands docs qs (pieces_text ps)"
    and ps: "list_all piece_ok ps" "length (pieces_text ps) < 2 ^ 32" "pieces_text ps \<noteq> []"
    and re: "re (pieces_text ps @ [NUL]) (length (pieces_text ps)) 0 = None"
    and out: "out_ok out (concat (map (piece_value adler (value_of None ctx glob)) ps))"
  shows "\<exists>tpl st' out'. tpl_compile adler re j u t0 (doc_files docs) stat update (Some d) chdir_ok dir fname st = Some (Some tpl, st') \<and>
    ts_cwd st' = ts_cwd st \<and>
    (\<forall>files' stat' update'. update' = 0 \<or> update' = 1 \<and> (\<exists>time time'. stat fname = Some time \<and> stat' fname = Some time' \<and> time' \<le> time) \<longrightarrow>
       tpl_compile adler re j u t0 files' stat' update' (Some d) chdir_ok dir fname st' = Some (Some tpl, st')) \<and>
    tpl_complete u base tpl ctx [] glob out = Some out' \<and> buf_used out' = buf_used out @ concat (map (piece_value adler (value_of None ctx glob)) ps)"
proof -
  obtain w t where w: "parse_blocks adler re j (text_str (pieces_text ps)) = Some (Some \<lparr>tpl_vector = w @ [t], tpl_text = pieces_text ps\<rparr>)"
    "tb_type t = TPL_TYPE_TERM" "flat_pieces adler 0 (pieces_text ps) ps w" using parse_blocks_flat [of ps re adler j] ps re by blast
  have nt: "list_all (\<lambda>b. tb_type b \<noteq> TPL_TYPE_TERM) w" using flat_pieces_not_term [OF w(3)] by simp
  let ?w = "map (\<lambda>b. b\<lparr>tb_content_offset := tb_content_offset b + TPL_BLOCK_SIZE * Suc (length w)\<rparr>) w"
  let ?tpl = "\<lparr>tpl_vector = ?w @ [t], tpl_text = pieces_text ps\<rparr>"
  let ?ct = "\<lparr>ct_tpl = ?tpl, ct_mtime = (case stat fname of Some x \<Rightarrow> x | None \<Rightarrow> t0), ct_checksum = adler fname\<rparr>"
  let ?st = "\<lparr>ts_compiled = ts_compiled st @ [?ct], ts_cwd = ts_cwd st\<rparr>"
  have c: "tpl_compile adler re j u t0 (doc_files docs) stat update (Some d) chdir_ok dir fname st = Some (Some ?tpl, ?st)"
    by (rule tpl_compile_new [where docs = docs and qs = qs]) (use new dir doc w(1,2) nt in auto)
  have again: "tpl_compile adler re j u t0 files' stat' update' (Some d) chdir_ok dir fname ?st = Some (Some ?tpl, ?st)"
    if "update' = 0 \<or> update' = 1 \<and> (\<exists>time time'. stat fname = Some time \<and> stat' fname = Some time' \<and> time' \<le> time)" for files' stat' update'
    using tpl_compile_again [of "ts_compiled st" adler fname ?ct "ts_cwd st" d chdir_ok dir update' stat'] new dir that by auto
  have p: "seg_ok ?tpl (Plain ?w)" "seg_out ?tpl ctx [] glob (Plain ?w) = concat (map (piece_value adler (value_of None ctx glob)) ps)"
    using flat_pieces_out [OF w(3), of ?tpl "Suc (length w)"] by (simp_all add: from_vector_def)
  have "tpl_vector ?tpl = concat (map seg_blocks []) @ ?w @ [t]" by simp
  from complete_law [OF this w(2) _ p(1), of out ctx "[]" glob u base] obtain out' where "tpl_complete u base ?tpl ctx [] glob out = Some out'"
      "buf_used out' = buf_used out @ concat (map (piece_value adler (value_of None ctx glob)) ps)" using out p(2) by auto
  then show ?thesis using c again by (intro exI [of _ ?tpl] exI [of _ ?st] exI [of _ out']) auto
qed


definition demo_adler :: "string \<Rightarrow> 32 word" where "demo_adler s = of_nat (length s)"

definition demo_state :: tpl_state where
  "demo_state = \<lparr>ts_compiled = [], ts_cwd = \<lparr>w_cwd = ''/'', w_saved = []\<rparr>\<rparr>"

definition demo_docs :: "string \<Rightarrow> source_piece list option" where
  "demo_docs n = (if n = ''v.tpl'' then Some [Included ''h'', Written ''!''] else if n = ''h'' then Some [Written ''Hi {$ who}''] else None)"

theorem template_rendered_witness:
  "\<exists>tpl st' out'. tpl_compile demo_adler (\<lambda>_ _ _. None) (demo_block TPL_TYPE_TEXT 0 0 0 0) CHR ''u'' 0 (doc_files demo_docs) (\<lambda>_. None) 0 (Some 3) (\<lambda>_. True) ''/tpl'' ''v.tpl'' demo_state = Some (Some tpl, st') \<and>
     tpl_complete CHR ''u'' 0 tpl (Some [\<lparr>av_value = ''Joe'', av_addr = 0, av_checksum = 3, av_allocated = False\<rparr>]) [] [] empty_page = Some out' \<and>
     buf_used out' = ''Hi Joe!''"
proof -
  let ?ps = "[Literal ''Hi '', Variable ''who'', Literal ''!'']"
  let ?ctx = "Some [\<lparr>av_value = ''Joe'', av_addr = 0, av_checksum = 3, av_allocated = False\<rparr>]"
  have w: "source_ok (Written ''!'')" "source_ok (Written ''Hi {$ who}'')" "source_ok (Included ''h'')" by (simp_all add: cmd_include_def)
  have "expands demo_docs [Written ''Hi {$ who}''] (''Hi {$ who}'' @ [])" by (intro expands.written w expands.no_pieces)
  moreover have "expands demo_docs [Written ''!''] (''!'' @ [])" by (intro expands.written w expands.no_pieces)
  ultimately have e: "expands demo_docs [Included ''h'', Written ''!''] (pieces_text ?ps)"
    using expands.included [of "''h''" demo_docs "[Written ''Hi {$ who}'']" "''Hi {$ who}''" "[Written ''!'']" "''!''"] w
    by (simp add: demo_docs_def pieces_text_def cmd_var_def)
  have p: "list_all piece_ok ?ps" by (simp add: cmd_var_def IS_VALID_TPL_VARIABLE_CHARACTER_def)
  have v: "concat (map (piece_value demo_adler (value_of None ?ctx [])) ?ps) = ''Hi Joe!''"
    by (simp add: demo_adler_def value_of_def find_var_def get_var_def)
  have k: "out_ok empty_page ''Hi Joe!''" "buf_used empty_page = []" by (simp_all add: out_ok_def empty_page_def buf_inv_def buf_used_def)
  have d: "demo_docs ''v.tpl'' = Some [Included ''h'', Written ''!'']" by (simp add: demo_docs_def)
  have st: "\<forall>c \<in> set (ts_compiled demo_state). ct_checksum c \<noteq> demo_adler ''v.tpl''" "\<forall>e \<in> set (w_saved (ts_cwd demo_state)). fst e \<noteq> 3" by (simp_all add: demo_state_def)
  have l: "length (pieces_text ?ps) < 2 ^ 32" "pieces_text ?ps \<noteq> []" by (simp_all add: pieces_text_def cmd_var_def)
  show ?thesis
    using template_rendered [where st = demo_state and adler = demo_adler and fname = "''v.tpl''" and d = 3 and dir = "''/tpl''" and docs = demo_docs and
        chdir_ok = "\<lambda>_. True" and re = "\<lambda>_ _ _. None" and ctx = ?ctx and glob = "[]" and out = empty_page and
        qs = "[Included ''h'', Written ''!'']" and ps = ?ps and j = "demo_block TPL_TYPE_TEXT 0 0 0 0" and u = "CHR ''u''" and ?t0.0 = 0 and
        stat = "\<lambda>_. None" and update = 0 and base = 0, unfolded v k(2), OF st _ d e p l refl k(1)]
    by (simp only: append_Nil simp_thms) blast
qed

text \<open>
  Variables in blocks do not work.  The text in front of a block, of \<open>len\<close> bytes, is not ended for the search of variables: a
  variable behind it (in the block) is taken for one of this text, and the piece behind the variable gets a negative
  length, which as an unsigned number of 32 bits is almost four gigabytes.
\<close>

theorem template_block_variable:
  assumes "piece_ok (Literal x)" "piece_ok (Variable n)" "piece_ok (Literal r)"
    and "len < length (x @ piece_text (Variable n))" "length (x @ piece_text (Variable n)) < 2 ^ 32"
  shows "\<exists>v w t. parse_variables adler j (x @ piece_text (Variable n) @ r @ [NUL]) 0 len = Some (Some (v @ [w, t])) \<and>
    tb_type w = TPL_TYPE_TEXT \<and> unat (tb_content_length w) = 2 ^ 32 + len - length (x @ piece_text (Variable n))"
proof -
  let ?k = "length (x @ piece_text (Variable n))"
  have x: "clean cmd_var x" "NUL \<notin> set x" and r: "clean cmd_var r" "NUL \<notin> set r" using assms(1,3) by simp_all
  have "strstr_at cmd_var ((x @ piece_text (Variable n)) @ r @ [NUL]) ?k = Some None"
    using strstr_clean [OF r, of "[NUL]" "x @ piece_text (Variable n)"] strstr_end [of cmd_var "x @ piece_text (Variable n) @ r" "[]"] by simp
  then have e: "\<exists>w t. parse_variables_from adler j (x @ piece_text (Variable n) @ r @ [NUL]) 0 len ?k v = Some (Some (v @ [w, t])) \<and>
      tb_type w = TPL_TYPE_TEXT \<and> tb_content_length w = of_nat len - of_nat ?k" for v
    by (subst parse_variables_from.simps) (simp add: Let_def)
  have "(of_nat len - of_nat ?k :: 32 word) = of_nat (2 ^ 32 + len - ?k)"
  proof -
    have "(of_nat (2 ^ 32 + len - ?k) :: 32 word) = of_nat (2 ^ 32) + of_nat len - of_nat ?k"
      using assms(5) by (subst of_nat_diff) simp_all
    then show ?thesis by simp
  qed
  moreover have "2 ^ 32 + len - ?k < 2 ^ 32" using assms(4) by simp
  ultimately have u: "unat (of_nat len - of_nat ?k :: 32 word) = 2 ^ 32 + len - ?k" by (simp add: unat_of_nat)
  show ?thesis
    using parse_variables_var [OF x assms(2), of "r @ [NUL]" _ "[]" adler j "[]" len "[]"] e u unfolding parse_variables_def by fastforce
qed

theorem template_block_variable_witness:
  "\<exists>v w t. parse_variables demo_adler (demo_block TPL_TYPE_TEXT 0 0 0 0) (''x{block b}'' @ piece_text (Variable ''v'') @ ''{end b}'' @ [NUL]) 0 1 = Some (Some (v @ [w, t])) \<and>
     unat (tb_content_length w) = 4294967282"
  using template_block_variable [of "''x{block b}''" "''v''" "''{end b}''" 1 demo_adler "demo_block TPL_TYPE_TEXT 0 0 0 0"]
  by (auto simp: cmd_var_def IS_VALID_TPL_VARIABLE_CHARACTER_def)

text \<open>
  A block at the very end of a template loses its mark to the template as a whole, whose last piece it is: after the block
  the template is put out from its beginning once more.
\<close>

theorem template_block_at_end:
  "\<exists>v out'. mark_block [demo_block TPL_TYPE_TEXT 72 1 0 0, demo_block TPL_TYPE_TEXT 73 1 5 1, demo_block TPL_TYPE_TERM 0 0 0 0] = Some v \<and>
     tpl_complete CHR ''u'' 0 \<lparr>tpl_vector = v, tpl_text = ''xT''\<rparr> None [\<lparr>bc_vars = [], bc_checksum = 5\<rparr>] [] empty_page = Some out' \<and> buf_used out' = ''xTx''"
proof -
  let ?v = "[demo_block TPL_TYPE_TEXT 72 1 0 2, demo_block TPL_TYPE_TEXT 73 1 5 (- 1), demo_block TPL_TYPE_TERM 0 0 0 0]"
  let ?t = "\<lparr>tpl_vector = ?v, tpl_text = ''xT''\<rparr>" and ?bl = "[\<lparr>bc_vars = [], bc_checksum = 5\<rparr>]"
  note defs = demo_block_def in_template_def tpl_bytes_def TPL_BLOCK_SIZE_def Let_def piece_out_def local_of_def
  have m: "mark_block [demo_block TPL_TYPE_TEXT 72 1 0 0, demo_block TPL_TYPE_TEXT 73 1 5 1, demo_block TPL_TYPE_TERM 0 0 0 0] = Some ?v"
    by (simp add: mark_block_def demo_block_def)
  have 1: "emits CHR ''u'' 0 ?t None ?bl [] 0 s ''x'' 1 s" for s
    using emits_next [of ?t "[]" "?v ! 0" "?v ! 1" "[?v ! 2]" s "CHR ''u''" 0 None ?bl "[]"] by (simp add: defs)
  have 2: "emits CHR ''u'' 0 ?t None ?bl [] 1 [5] ''T'' 0 [0]"
    using emits_jump [of ?t "[?v ! 0]" "?v ! 1" "[?v ! 2]" "[5]" 0 0 "CHR ''u''" 0 None ?bl "[]"] by (simp add: defs)
  have k: "buf_used empty_page = []" "out_ok empty_page ''xTx''" by (simp_all add: out_ok_def empty_page_def buf_inv_def buf_used_def)
  obtain out where o: "buf_used out = ''xTx''" "complete_loop CHR ''u'' 0 ?t None ?bl [] 0 [5] empty_page = complete_loop CHR ''u'' 0 ?t None ?bl [] 1 [0] out"
    using emits_trans [OF emits_trans [OF 1 2] 1] k unfolding emits_def by fastforce
  have "complete_loop CHR ''u'' 0 ?t None ?bl [] 1 [0] out = Some out"
    by (subst complete_loop.simps) (simp add: complete_step_def demo_block_def)
  then show ?thesis using m o by (simp add: tpl_complete_def demo_block_def)
qed

end
