(* ===== verification/Template_Blocks.thy ===== *)
theory Template_Blocks
  imports Template_Output Http_Headers
begin

text \<open>
  Templates with blocks (\<^verbatim>\<open>templates.c\<close>), from the text to the page: what \<^verbatim>\<open>parse_blocks\<close> makes of a text with blocks is a
  vector that \<^verbatim>\<open>tpl_complete\<close> puts out as it is meant.  This holds for blocks that are not nested, when there is text in front of
  the first block and behind the last one, and when all variables are in front of the first block; the theorems at the end of
  this theory and of \<^verbatim>\<open>Template_Output\<close> show what becomes of other templates.
\<close>

section \<open>The text of a template with blocks\<close>

text \<open>A block: its name, its contents and the text behind it.\<close>

type_synonym block_part = "string \<times> string \<times> string"

definition block_start :: "string \<Rightarrow> string" where "block_start n = ''{block '' @ n @ ''}''"
definition block_stop :: "string \<Rightarrow> string" where "block_stop n = ''{end '' @ n @ ''}''"

fun parts_text :: "block_part list \<Rightarrow> string" where
  "parts_text [] = []"
| "parts_text ((n, b, t) # bl) = block_start n @ b @ block_stop n @ t @ parts_text bl"

fun block_part_ok :: "block_part \<Rightarrow> bool" where
  "block_part_ok (n, b, t) \<longleftrightarrow> CHR ''{'' \<notin> set n \<and> CHR ''}'' \<notin> set n \<and> NUL \<notin> set n \<and>
     b \<noteq> [] \<and> piece_ok (Literal b) \<and> piece_ok (Literal t)"

text \<open>What \<^verbatim>\<open>pcre_exec\<close> finds in the text, which begins at \<open>p\<close>, when it is asked from the beginning and then from the contents of each block on.\<close>

fun found_blocks :: "block_match \<Rightarrow> mem \<Rightarrow> nat \<Rightarrow> nat \<Rightarrow> nat \<Rightarrow> block_part list \<Rightarrow> bool" where
  "found_blocks re m len off p [] \<longleftrightarrow> re m len off = None"
| "found_blocks re m len off p ((n, b, t) # bl) \<longleftrightarrow>
     (let c = p + length (block_start n) in
      re m len off = Some (p + 7, p + 7 + length n, c, c + length b) \<and>
      found_blocks re m len c (c + length b + length (block_stop n) + length t) bl)"

fun block_vec :: "(string \<Rightarrow> 32 word) \<Rightarrow> nat \<Rightarrow> block_part list \<Rightarrow> tpl_block list" where
  "block_vec adler p [] = []"
| "block_vec adler p ((n, b, t) # bl) =
     (let c = p + length (block_start n) in
      \<lparr>tb_content_offset = c, tb_content_length = of_nat (length b), tb_block_checksum = adler n, tb_block_length = 0, tb_type = TPL_TYPE_BLOCK\<rparr> #
      block_vec adler (c + length b + length (block_stop n) + length t) bl)"

lemma block_marks [simp]:
  "length (block_start n) = 8 + length n" "length (block_stop n) = 6 + length n" "NUL \<in> set (block_start n) \<longleftrightarrow> NUL \<in> set n" "NUL \<in> set (block_stop n) \<longleftrightarrow> NUL \<in> set n"
  by (auto simp: block_start_def block_stop_def)

lemma clean_no_brace: "CHR ''{'' \<notin> set n \<Longrightarrow> clean cmd_var n"
  by (induction n) (auto simp: cmd_var_def is_prefix_iff)

lemma clean_brace: "x \<noteq> CHR ''$'' \<Longrightarrow> CHR ''{'' \<notin> set (x # s) \<Longrightarrow> clean cmd_var (CHR ''{'' # x # s)"
  using clean_no_brace [of "x # s"] by (auto simp: cmd_var_def is_prefix_iff)

lemma clean_block_marks: "CHR ''{'' \<notin> set n \<Longrightarrow> clean cmd_var (block_start n)" "CHR ''{'' \<notin> set n \<Longrightarrow> clean cmd_var (block_stop n)"
  unfolding block_start_def block_stop_def append.simps by (rule clean_brace; simp)+

lemma part_texts:
  assumes "block_part_ok (n, b, t)"
  shows "clean cmd_var (block_start n)" "clean cmd_var (block_stop n)" "clean cmd_var b" "clean cmd_var t"
    "NUL \<notin> set n" "NUL \<notin> set b" "NUL \<notin> set t"
  using assms by (simp_all add: clean_block_marks)

lemma parts_clean: "list_all block_part_ok bl \<Longrightarrow> clean cmd_var (parts_text bl) \<and> NUL \<notin> set (parts_text bl)"
  by (induction bl rule: parts_text.induct) (auto simp: clean_block_marks intro!: clean_append)

section \<open>The blocks are found\<close>

definition root_block :: "nat \<Rightarrow> tpl_block" where
  "root_block n = \<lparr>tb_content_offset = 0, tb_content_length = of_nat n, tb_block_checksum = 0, tb_block_length = 0, tb_type = TPL_TYPE_BLOCK\<rparr>"

definition ends_by :: "nat \<Rightarrow> tpl_block \<Rightarrow> bool" where
  "ends_by p b \<longleftrightarrow> tb_content_offset b + unat (tb_content_length b) \<le> p"

lemma find_blocks_parts:
  assumes "list_all block_part_ok bl" "found_blocks re m len off (length q) bl" "m = q @ parts_text bl @ [NUL]" "len = length q + length (parts_text bl)" "len < 2 ^ 32"
    and "list_all (ends_by (length q)) vs" "distinct (map (\<lambda>b. adler (fst b)) bl)"
    and "\<forall>b \<in> set bl. adler (fst b) \<noteq> 0 \<and> adler (fst b) \<notin> tb_block_checksum ` set vs"
  shows "find_blocks adler re m len off (root_block len # vs) = Some (Some (root_block len # vs @ block_vec adler (length q) bl))"
  using assms
proof (induction bl arbitrary: off q vs)
  case Nil
  then show ?case by (subst find_blocks.simps) simp
next
  case (Cons part bl)
  obtain n b t where part: "part = (n, b, t)" by (cases part)
  let ?c = "length q + length (block_start n)" and ?q = "q @ block_start n @ b @ block_stop n @ t"
  let ?e = "\<lparr>tb_content_offset = ?c, tb_content_length = of_nat (length b), tb_block_checksum = adler n, tb_block_length = 0, tb_type = TPL_TYPE_BLOCK\<rparr>"
  have u: "unat (of_nat len :: 32 word) = len" "unat (of_nat (length b) :: 32 word) = length b"
    using Cons.prems(4,5) by (simp_all only: unat_of_nat) (simp_all add: part)
  have name: "seg m (length q + 7) (length q + 7 + length n) = n"
    using seg_middle [of "q @ ''{block ''" n "''}'' @ b @ block_stop n @ t @ parts_text bl @ [NUL]"] Cons.prems(3) by (simp add: part block_start_def eval_nat_numeral)
  have re: "re m len off = Some (length q + 7, length q + 7 + length n, ?c, ?c + length b)" using Cons.prems(2) by (simp add: part Let_def)
  have nc: "\<not> list_ex (block_conflict ?c (?c + length b) (adler n)) (root_block len # vs)"
    using Cons.prems(4,6,8) u by (auto simp: part list_ex_iff list_all_iff block_conflict_def ends_by_def root_block_def image_iff)
  have "find_blocks adler re m len off (root_block len # vs) = find_blocks adler re m len ?c (root_block len # vs @ [?e])"
    unfolding find_blocks.simps [of adler re m len off] re using nc name by (simp add: Let_def)
  also have "\<dots> = Some (Some (root_block len # (vs @ [?e]) @ block_vec adler (length ?q) bl))"
  proof (rule Cons.IH)
    show "list_all (ends_by (length ?q)) (vs @ [?e])" using Cons.prems(6) u by (auto simp: list_all_iff ends_by_def)
    show "\<forall>x \<in> set bl. adler (fst x) \<noteq> 0 \<and> adler (fst x) \<notin> tb_block_checksum ` set (vs @ [?e])"
      using Cons.prems(7,8) by (auto simp: part image_iff)
  qed (use Cons.prems in \<open>auto simp: part Let_def add.assoc\<close>)
  finally show ?case by (simp add: part Let_def add.assoc)
qed

section \<open>The vector of a template with blocks\<close>

lemma mark_block_marked:
  assumes "list_all (\<lambda>b. tb_type b \<noteq> TPL_TYPE_TERM) w" "tb_type t = TPL_TYPE_TERM" "w \<noteq> []" "list_all (\<lambda>b. tb_block_length b = 0) w"
  shows "\<exists>w'. mark_block (w @ [t]) = Some (w' @ [t]) \<and> map unmarked w' = map unmarked w \<and> marked w'"
proof (cases "length w = 1")
  case True
  then obtain b where w: "w = [b]" by (cases w) auto
  then show ?thesis using assms by (intro exI [of _ "[b\<lparr>tb_block_length := 1\<rparr>]"]) (simp add: mark_block_def marked_def)
next
  case False
  then obtain b mid l where w: "w = b # mid @ [l]" using assms(3) by (cases w; cases "tl w" rule: rev_cases) auto
  let ?w = "b\<lparr>tb_block_length := int (length w)\<rparr> # mid @ [l\<lparr>tb_block_length := - (int (length w) - 1)\<rparr>]"
  have "mark_block (w @ [t]) = Some (?w @ [t])"
    using vector_size [OF assms(1,2), of "[]"] w by (simp add: mark_block_def Let_def list_update_append nth_append)
  moreover have "marked ?w" using w assms(4) by (auto simp: marked_def butlast_append list_all_iff)
  ultimately show ?thesis using w by (intro exI [of _ ?w]) simp
qed

text \<open>The contents of a block, which no other block lies in.\<close>

lemma blocks_loop_body:
  assumes "piece_ok (Literal b)" "b \<noteq> []" "clean cmd_var rest" "NUL \<notin> set rest" "length b < 2 ^ 32"
    and cur: "tb_content_offset cur = length q" "tb_content_length cur = of_nat (length b)"
    and "Suc i < length vec \<Longrightarrow> length q + length b \<le> tb_content_offset (vec ! Suc i)"
    and sz: "length q < 2 ^ 32"
  shows "\<exists>w t. blocks_loop adler j (q @ b @ rest @ [NUL]) vec cur i None (length q) = Some (Some (w @ [t])) \<and> tb_type t = TPL_TYPE_TERM \<and>
    flat_pieces adler (tb_block_checksum cur) (q @ b @ rest) [Literal b] w \<and> marked w"
proof -
  obtain w t where w: "block_pieces adler j (q @ b @ rest @ [NUL]) cur (length q) (length b) = Some (Some (w @ [t]))" "tb_type t = TPL_TYPE_TERM"
      "flat_pieces adler (tb_block_checksum cur) (q @ b @ rest) [Literal b] w" "list_all (\<lambda>b. tb_block_length b = 0) w"
    using block_pieces_part [of "[Literal b]" rest adler j q cur] assms(1,3-5) by (auto simp: pieces_text_def)
  obtain w' where w': "mark_block (w @ [t]) = Some (w' @ [t])" "map unmarked w' = map unmarked w" "marked w'"
    using mark_block_marked [OF _ w(2) _ w(4)] flat_pieces_not_term [OF w(3)] by blast
  have u: "unat (tb_content_length cur) = length b" using cur(2) assms(5) by (simp add: unat_of_nat)
  have d: "size_diff (length q + length b) (length q) = length b" using assms(5) by (simp add: size_diff_def)
  have "blocks_loop adler j (q @ b @ rest @ [NUL]) vec cur i None (length q) = map_option Some (mark_block (w @ [t]))"
  proof (cases "Suc i < length vec")
    case True
    then have "length q + length b \<le> tb_content_offset (vec ! Suc i) + unat (tb_content_length (vec ! Suc i))" using assms(8) by linarith
    then show ?thesis using True w(1) assms(2) unfolding blocks_loop.simps [of adler j _ vec cur i] by (simp add: Let_def u d cur(1) concat_vectors_def)
  next
    case False
    then show ?thesis using w(1) assms(2) unfolding blocks_loop.simps [of adler j _ vec cur i] by (simp add: Let_def u d cur(1) concat_vectors_def)
  qed
  then show ?thesis using w'(1,3) w(2) flat_pieces_unmarked [OF w(3) w'(2)] by auto
qed

lemma open_brace_text: "CHR ''{'' \<notin> set s \<Longrightarrow> open_brace (a @ CHR ''{'' # s @ r) (Suc (length a + length s)) = Some (Suc (length a))"
proof (induction s arbitrary: r rule: rev_induct)
  case Nil
  then show ?case using rd_at [of a "CHR ''{''" r] by simp
next
  case (snoc x s)
  have "rd (a @ CHR ''{'' # (s @ [x]) @ r) (length (a @ CHR ''{'' # s)) = Some x" using rd_at [of "a @ CHR ''{'' # s" x r] by simp
  then have "open_brace (a @ CHR ''{'' # (s @ [x]) @ r) (Suc (length a + length (s @ [x]))) =
      open_brace (a @ CHR ''{'' # s @ x # r) (Suc (length a + length s))" using snoc.prems by auto
  then show ?case using snoc.IH [of "x # r"] snoc.prems by (simp only: set_append) simp
qed

lemma drop_ConsD: "drop i xs = e # es \<Longrightarrow> i < length xs \<and> xs ! i = e \<and> drop (Suc i) xs = es"
proof -
  assume a: "drop i xs = e # es"
  then have "i < length xs" by (metis drop_all list.distinct(1) not_le_imp_less)
  then show ?thesis using a Cons_nth_drop_Suc [of i xs] by simp
qed

lemma block_vec_start: "block_vec adler p bl = e # es \<Longrightarrow> p \<le> tb_content_offset e"
  by (cases bl) (auto simp: Let_def)

definition is_vector :: "tpl_block list option \<Rightarrow> tpl_block list \<Rightarrow> bool" where
  "is_vector v w \<longleftrightarrow> list_all (\<lambda>b. tb_type b \<noteq> TPL_TYPE_TERM) w \<and> (v = None \<and> w = [] \<or> (\<exists>t. v = Some (w @ [t]) \<and> tb_type t = TPL_TYPE_TERM))"

lemma concat_vectors_law:
  assumes "is_vector v1 w1" "is_vector v2 w2"
  shows "\<exists>v. concat_vectors j v1 v2 = Some v \<and> is_vector v (w1 @ w2)"
proof -
  have n: "list_all (\<lambda>b. tb_type b \<noteq> TPL_TYPE_TERM) w1" "list_all (\<lambda>b. tb_type b \<noteq> TPL_TYPE_TERM) w2" using assms by (simp_all add: is_vector_def)
  show ?thesis
  proof (cases "v1 = None \<or> v2 = None")
    case True
    then show ?thesis using assms by (auto simp: is_vector_def concat_vectors_def)
  next
    case False
    then obtain t1 t2 where t: "v1 = Some (w1 @ [t1])" "tb_type t1 = TPL_TYPE_TERM" "v2 = Some (w2 @ [t2])" "tb_type t2 = TPL_TYPE_TERM"
      using assms by (auto simp: is_vector_def)
    then show ?thesis using n vector_size [OF n(1) t(2), of "[]"] vector_size [OF n(2) t(4), of "[]"] by (simp add: concat_vectors_def is_vector_def)
  qed
qed

lemma is_vector_seen:
  "is_vector v w \<Longrightarrow> (case v of None \<Rightarrow> Some [] | Some v \<Rightarrow> map_option (\<lambda>n. map tb_block_checksum (take (n - 1) v)) (calculate_vector_size v)) =
   Some (map tb_block_checksum w)"
  using vector_size [of w _ "[]"] by (auto simp: is_vector_def)

text \<open>A part of the text of the template as a whole: nothing, or its pieces.\<close>

definition plain_part :: "(string \<Rightarrow> 32 word) \<Rightarrow> string \<Rightarrow> tpl_piece list \<Rightarrow> segment list \<Rightarrow> bool" where
  "plain_part adler x ps sp \<longleftrightarrow> (if pieces_text ps = [] then sp = [] else \<exists>w. sp = [Plain w] \<and> flat_pieces adler 0 x ps w)"

lemma upper_part:
  assumes "list_all piece_ok ps" "length (pieces_text ps) < 2 ^ 32" "clean cmd_var rest" "NUL \<notin> set rest" "tb_block_checksum cur = 0"
    and "is_vector (Some tv) w"
  shows "\<exists>sp up tmp. (if 0 < length (pieces_text ps) then block_pieces adler j (q @ pieces_text ps @ rest @ [NUL]) cur (length q) (length (pieces_text ps)) else Some (Some [])) = Some (Some up) \<and>
    (if 0 < length (pieces_text ps) then concat_vectors j (Some up) (Some tv) else Some (Some tv)) = Some tmp \<and>
    plain_part adler (q @ pieces_text ps @ rest) ps sp \<and> is_vector tmp (concat (map seg_blocks sp) @ w)"
proof (cases "pieces_text ps = []")
  case True
  then show ?thesis using assms(6) by (auto simp: plain_part_def)
next
  case False
  obtain up t where up: "block_pieces adler j (q @ pieces_text ps @ rest @ [NUL]) cur (length q) (length (pieces_text ps)) = Some (Some (up @ [t]))" "tb_type t = TPL_TYPE_TERM"
      "flat_pieces adler 0 (q @ pieces_text ps @ rest) ps up"
    using block_pieces_part [OF assms(1-4), of adler j q cur] assms(5) by auto
  then have "is_vector (Some (up @ [t])) up" using flat_pieces_not_term by (auto simp: is_vector_def)
  from concat_vectors_law [OF this assms(6), of j] obtain tmp where "concat_vectors j (Some (up @ [t])) (Some tv) = Some tmp" "is_vector tmp (up @ w)" by blast
  then show ?thesis using False up by (intro exI [of _ "[Plain up]"] exI [of _ "up @ [t]"] exI [of _ tmp]) (simp add: plain_part_def)
qed

lemma blocks_loop_step:
  assumes ok: "block_part_ok (n, b, t)" "list_all piece_ok ps" "list_all block_part_ok bl"
    and x: "x = q @ pieces_text ps @ parts_text ((n, b, t) # bl)" "length x < 2 ^ 32"
    and vec: "drop (Suc i) vec = block_vec adler (length (q @ pieces_text ps)) ((n, b, t) # bl)"
    and cur: "cur = root_block (length x)"
    and res: "is_vector res rw" "adler n \<notin> tb_block_checksum ` set rw"
  shows "\<exists>sp wb res'. plain_part adler x ps sp \<and> flat_pieces adler (adler n) x [Literal b] wb \<and> marked wb \<and> is_vector res' (rw @ concat (map seg_blocks sp) @ wb) \<and>
    blocks_loop adler j (x @ [NUL]) vec cur i res (length q) =
    blocks_loop adler j (x @ [NUL]) vec cur (Suc i) res' (length (q @ pieces_text ps @ block_start n @ b @ block_stop n))"
proof -
  let ?s = "q @ pieces_text ps" and ?q = "q @ pieces_text ps @ block_start n" and ?after = "block_stop n @ t @ parts_text bl"
  let ?e = "\<lparr>tb_content_offset = length ?q, tb_content_length = of_nat (length b), tb_block_checksum = adler n, tb_block_length = 0, tb_type = TPL_TYPE_BLOCK\<rparr>"
  note pt = part_texts [OF ok(1)] and bl = parts_clean [OF ok(3)]
  have b: "b \<noteq> []" "piece_ok (Literal b)" "CHR ''{'' \<notin> set n" "CHR ''}'' \<notin> set n" using ok(1) by simp_all
  have xb: "x = ?q @ b @ ?after" using x(1) by simp
  have sz: "length b < 2 ^ 32" "length ?q < 2 ^ 32" "length (pieces_text ps) < 2 ^ 32" "length ?s < 2 ^ 32" using x by simp_all
  have e: "Suc i < length vec" "vec ! Suc i = ?e" "drop (Suc (Suc i)) vec = block_vec adler (length ?q + length b + length (block_stop n) + length t) bl"
    using drop_ConsD [OF vec [unfolded block_vec.simps Let_def]] by (simp_all add: add.assoc)
  have clean: "clean cmd_var ?after" "NUL \<notin> set ?after" using pt bl by (auto intro!: clean_append)
  have nn: "length ?q + length b \<le> tb_content_offset (vec ! Suc (Suc i))" if "Suc (Suc i) < length vec"
    using block_vec_start [OF e(3) [symmetric, unfolded Cons_nth_drop_Suc [OF that, symmetric]]] by simp
  obtain wb tb where w: "blocks_loop adler j (x @ [NUL]) vec ?e (Suc i) None (length ?q) = Some (Some (wb @ [tb]))" "tb_type tb = TPL_TYPE_TERM"
      "flat_pieces adler (adler n) x [Literal b] wb" "marked wb"
    using blocks_loop_body [OF b(2,1) clean sz(1) _ _ nn sz(2), of ?e adler j] by (auto simp: xb)
  have vb: "is_vector (Some (wb @ [tb])) wb" using flat_pieces_not_term [OF w(3)] w(2) by (simp add: is_vector_def)
  have cl: "clean cmd_var (block_start n @ b @ ?after)" "NUL \<notin> set (block_start n @ b @ ?after)" using pt clean by (auto intro!: clean_append)
  have xs: "q @ pieces_text ps @ (block_start n @ b @ ?after) @ [NUL] = x @ [NUL]" "q @ pieces_text ps @ block_start n @ b @ ?after = x" by (simp_all add: xb)
  have c0: "tb_block_checksum cur = 0" "tb_content_offset cur = 0" "tb_content_length cur = of_nat (length x)" using cur by (simp_all add: root_block_def)
  obtain sp up tmp where up: "(if 0 < length (pieces_text ps) then block_pieces adler j (x @ [NUL]) cur (length q) (length (pieces_text ps)) else Some (Some [])) = Some (Some up)"
      "(if 0 < length (pieces_text ps) then concat_vectors j (Some up) (Some (wb @ [tb])) else Some (Some (wb @ [tb]))) = Some tmp"
      "plain_part adler x ps sp" "is_vector tmp (concat (map seg_blocks sp) @ wb)"
    using upper_part [OF ok(2) sz(3) cl c0(1) vb, of adler j q, unfolded xs] by (elim exE conjE)
  obtain res' where res': "concat_vectors j res tmp = Some res'" "is_vector res' (rw @ concat (map seg_blocks sp) @ wb)"
    using concat_vectors_law [OF res(1) up(4), of j] by auto
  have r1: "rd (x @ [NUL]) (length ?q - 1) = Some CHR ''}''"
    using rd_at [of "?s @ ''{block '' @ n" "CHR ''}''" "b @ ?after @ [NUL]"] by (simp add: xb block_start_def)
  have r2: "open_brace (x @ [NUL]) (length ?q) = Some (Suc (length ?s))"
  proof -
    have m: "x @ [NUL] = ?s @ CHR ''{'' # (''block '' @ n @ ''}'') @ b @ ?after @ [NUL]" by (simp add: xb block_start_def)
    have l: "length ?q = Suc (length ?s + length (''block '' @ n @ ''}''))" by simp
    show ?thesis unfolding m l by (rule open_brace_text) (use b(3) in auto)
  qed
  have m: "x @ [NUL] = (?q @ b) @ (''{end '' @ n) @ CHR ''}'' # t @ parts_text bl @ [NUL]" "length ?q + length b = length (?q @ b)"
    by (simp_all add: xb block_stop_def)
  have r3: "rd (x @ [NUL]) (length ?q + length b) = Some CHR ''{''" unfolding m append.simps(2) by (rule rd_at)
  have r4: "scan (\<lambda>c. c = CHR ''}'') (x @ [NUL]) (length ?q + length b) = Some (length ?q + length b + (5 + length n))"
  proof -
    have l: "5 + length n = length (''{end '' @ n)" by simp
    show ?thesis unfolding m l by (rule scan_text) (use b(4) in auto)
  qed
  have u: "unat (of_nat (length b) :: 32 word) = length b" "unat (of_nat (length x) :: 32 word) = length x" using sz x(2) by (simp_all only: unat_of_nat) simp_all
  have d: "size_diff (length ?s) (length q) = length (pieces_text ps)" using sz by (simp add: size_diff_def)
  have lt: "length ?q + length b < length x" by (simp add: xb)
  define o1 where "o1 = length ?q"
  define s1 where "s1 = length ?s"
  define m1 where "m1 = x @ [NUL]"
  define p1 where "p1 = length (pieces_text ps)"
  have pos: "0 < length ?q" by simp
  note f = pos r1 r2 r3 r4 u d lt w(1) up(1,2) e(2)
  note f1 = f [folded o1_def s1_def m1_def p1_def]
  have "blocks_loop adler j m1 vec cur i res (length q) = blocks_loop adler j m1 vec cur (Suc i) res' (Suc (o1 + length b + (5 + length n)))"
    unfolding blocks_loop.simps [of adler j _ vec cur i] is_vector_seen [OF res(1)] bind.simps Let_def
    using e(1) res(2) c0 f1 res'(1) by (cases "p1 = 0"; simp) auto
  moreover have "Suc (o1 + length b + (5 + length n)) = length (q @ pieces_text ps @ block_start n @ b @ block_stop n)" by (simp add: o1_def)
  ultimately show ?thesis using up(3) w(3,4) res'(2) unfolding m1_def by metis
qed

text \<open>The segments of a template: the part \<open>ps\<close>, then the blocks with the texts behind them.\<close>

fun laid :: "(string \<Rightarrow> 32 word) \<Rightarrow> string \<Rightarrow> tpl_piece list \<Rightarrow> block_part list \<Rightarrow> segment list \<Rightarrow> bool" where
  "laid adler x ps [] segs \<longleftrightarrow> (\<exists>w. segs = [Plain w] \<and> flat_pieces adler 0 x ps w)"
| "laid adler x ps ((n, b, t) # bl) segs \<longleftrightarrow>
     (\<exists>sp wb segs'. segs = sp @ Repeated (adler n) wb # segs' \<and> plain_part adler x ps sp \<and> flat_pieces adler (adler n) x [Literal b] wb \<and> marked wb \<and>
        laid adler x [Literal t] bl segs')"

lemma blocks_loop_last:
  assumes "list_all piece_ok ps" "x = q @ pieces_text ps" "pieces_text ps \<noteq> []" "length x < 2 ^ 32" "drop (Suc i) vec = []" "cur = root_block (length x)" "is_vector res rw"
  shows "\<exists>w t. blocks_loop adler j (x @ [NUL]) vec cur i res (length q) = map_option Some (mark_block (rw @ w @ [t])) \<and> tb_type t = TPL_TYPE_TERM \<and> flat_pieces adler 0 x ps w"
proof -
  have c: "tb_block_checksum cur = 0" "tb_content_offset cur = 0" "unat (tb_content_length cur) = length x"
    using assms(4,6) by (simp_all add: root_block_def unat_of_nat)
  have s: "size_diff (length x) (length q) = length (pieces_text ps)" "length (pieces_text ps) < 2 ^ 32" using assms(2,4) by (simp_all add: size_diff_def)
  obtain w t where w: "block_pieces adler j (x @ [NUL]) cur (length q) (length (pieces_text ps)) = Some (Some (w @ [t]))" "tb_type t = TPL_TYPE_TERM" "flat_pieces adler 0 x ps w"
    using block_pieces_part [OF assms(1) s(2), of "[]" adler j q cur] c assms(2) by auto
  have "is_vector (Some (w @ [t])) w" using w flat_pieces_not_term by (auto simp: is_vector_def)
  from concat_vectors_law [OF assms(7) this, of j] obtain v where v: "concat_vectors j res (Some (w @ [t])) = Some v" "is_vector v (rw @ w)" by blast
  then obtain t' where t': "v = Some (rw @ w @ [t'])" "tb_type t' = TPL_TYPE_TERM" using w(3) by (auto simp: is_vector_def flat_pieces_def)
  have "blocks_loop adler j (x @ [NUL]) vec cur i res (length q) = map_option Some (mark_block (rw @ w @ [t']))"
    unfolding blocks_loop.simps [of adler j _ vec cur i] is_vector_seen [OF assms(7)] bind.simps Let_def using assms(3,5) c s w(1) v(1) t' by simp
  then show ?thesis using w(3) t'(2) by blast
qed

lemma blocks_loop_parts:
  assumes "list_all piece_ok ps" "list_all block_part_ok bl" "x = q @ pieces_text ps @ parts_text bl" "length x < 2 ^ 32"
    "drop (Suc i) vec = block_vec adler (length (q @ pieces_text ps)) bl" "cur = root_block (length x)" "is_vector res rw"
    "distinct (map (\<lambda>b. adler (fst b)) bl)" "\<forall>b \<in> set bl. adler (fst b) \<noteq> 0 \<and> adler (fst b) \<notin> tb_block_checksum ` set rw"
    "if bl = [] then pieces_text ps \<noteq> [] else snd (snd (last bl)) \<noteq> []"
  shows "\<exists>segs t. blocks_loop adler j (x @ [NUL]) vec cur i res (length q) = map_option Some (mark_block (rw @ concat (map seg_blocks segs) @ [t])) \<and>
    tb_type t = TPL_TYPE_TERM \<and> laid adler x ps bl segs"
  using assms
proof (induction bl arbitrary: ps q i res rw)
  case Nil
  then obtain w t where "blocks_loop adler j (x @ [NUL]) vec cur i res (length q) = map_option Some (mark_block (rw @ w @ [t]))" "tb_type t = TPL_TYPE_TERM" "flat_pieces adler 0 x ps w"
    using blocks_loop_last [of ps x q i vec cur res rw adler j] by auto
  then show ?case by (intro exI [of _ "[Plain w]"]) auto
next
  case (Cons part bl)
  obtain n b t where part: "part = (n, b, t)" by (cases part)
  let ?q = "q @ pieces_text ps @ block_start n @ b @ block_stop n"
  have ok: "block_part_ok (n, b, t)" "list_all block_part_ok bl" "adler n \<notin> tb_block_checksum ` set rw" using Cons.prems(2,9) part by simp_all
  obtain sp wb res' where r: "plain_part adler x ps sp" "flat_pieces adler (adler n) x [Literal b] wb" "marked wb" "is_vector res' (rw @ concat (map seg_blocks sp) @ wb)"
      "blocks_loop adler j (x @ [NUL]) vec cur i res (length q) = blocks_loop adler j (x @ [NUL]) vec cur (Suc i) res' (length ?q)"
    using blocks_loop_step [OF ok(1) Cons.prems(1) ok(2) Cons.prems(3) [unfolded part] Cons.prems(4) Cons.prems(5) [unfolded part] Cons.prems(6,7) ok(3), of j] by blast
  have sums: "tb_block_checksum ` set (rw @ concat (map seg_blocks sp) @ wb) \<subseteq> insert 0 (insert (adler n) (tb_block_checksum ` set rw))"
    using r(1,2) by (auto simp: plain_part_def flat_pieces_def list_all_iff split: if_splits)
  have "\<exists>segs t'. blocks_loop adler j (x @ [NUL]) vec cur (Suc i) res' (length ?q) =
      map_option Some (mark_block ((rw @ concat (map seg_blocks sp) @ wb) @ concat (map seg_blocks segs) @ [t'])) \<and> tb_type t' = TPL_TYPE_TERM \<and> laid adler x [Literal t] bl segs"
  proof (rule Cons.IH)
    show "drop (Suc (Suc i)) vec = block_vec adler (length (?q @ pieces_text [Literal t])) bl"
      using drop_ConsD [OF Cons.prems(5) [unfolded part block_vec.simps Let_def]] by (simp add: pieces_text_def add.assoc)
    show "\<forall>x \<in> set bl. adler (fst x) \<noteq> 0 \<and> adler (fst x) \<notin> tb_block_checksum ` set (rw @ concat (map seg_blocks sp) @ wb)"
    proof
      fix y assume y: "y \<in> set bl"
      then have "adler (fst y) \<noteq> adler n" using Cons.prems(8) by (auto simp: part image_iff)
      then show "adler (fst y) \<noteq> 0 \<and> adler (fst y) \<notin> tb_block_checksum ` set (rw @ concat (map seg_blocks sp) @ wb)" using sums Cons.prems(9) y by auto
    qed
  qed (use Cons.prems ok r(4) part in \<open>auto simp: pieces_text_def split: if_splits\<close>)
  then obtain segs t' where s: "blocks_loop adler j (x @ [NUL]) vec cur (Suc i) res' (length ?q) =
      map_option Some (mark_block ((rw @ concat (map seg_blocks sp) @ wb) @ concat (map seg_blocks segs) @ [t']))" "tb_type t' = TPL_TYPE_TERM" "laid adler x [Literal t] bl segs" by blast
  then show ?case using r(1-3,5) part by (intro exI [of _ "sp @ Repeated (adler n) wb # segs"] exI [of _ t']) auto
qed

lemma laid_ConsI:
  "plain_part adler x ps sp \<Longrightarrow> flat_pieces adler (adler n) x [Literal b] wb \<Longrightarrow> marked wb \<Longrightarrow> laid adler x [Literal t] bl segs \<Longrightarrow>
   laid adler x ps ((n, b, t) # bl) (sp @ Repeated (adler n) wb # segs)"
  by auto

text \<open>The marks of the template as a whole are on its first and its last text.\<close>

lemma laid_last:
  "laid adler x ps bl segs \<Longrightarrow> \<exists>s z. segs = s @ [Plain z] \<and> z \<noteq> [] \<and> (\<forall>z'. map unmarked z' = map unmarked z \<longrightarrow> laid adler x ps bl (s @ [Plain z']))"
proof (induction bl arbitrary: ps segs)
  case Nil
  then obtain w where w: "segs = [] @ [Plain w]" "flat_pieces adler 0 x ps w" by auto
  have "laid adler x ps [] ([] @ [Plain z'])" if "map unmarked z' = map unmarked w" for z' using flat_pieces_unmarked [OF w(2) that] by simp
  moreover have "w \<noteq> []" using w(2) by (simp add: flat_pieces_def)
  ultimately show ?case using w(1) by blast
next
  case (Cons part bl)
  obtain n b t where part: "part = (n, b, t)" by (cases part)
  obtain sp wb segs' where s: "segs = sp @ Repeated (adler n) wb # segs'" "plain_part adler x ps sp" "flat_pieces adler (adler n) x [Literal b] wb" "marked wb"
      "laid adler x [Literal t] bl segs'" using Cons.prems part by auto
  obtain s' z where z: "segs' = s' @ [Plain z]" "z \<noteq> []" "\<forall>z'. map unmarked z' = map unmarked z \<longrightarrow> laid adler x [Literal t] bl (s' @ [Plain z'])"
    using Cons.IH [OF s(5)] by blast
  then show ?case using s part by (intro exI [of _ "sp @ Repeated (adler n) wb # s'"] exI [of _ z]) (auto simp del: laid.simps intro: laid_ConsI)
qed

lemma laid_not_term: "laid adler x ps bl segs \<Longrightarrow> list_all (\<lambda>b. tb_type b \<noteq> TPL_TYPE_TERM) (concat (map seg_blocks segs))"
proof (induction bl arbitrary: ps segs)
  case Nil
  then show ?case using flat_pieces_not_term by auto
next
  case (Cons part bl)
  obtain n b t where part: "part = (n, b, t)" by (cases part)
  obtain sp wb segs' where s: "segs = sp @ Repeated (adler n) wb # segs'" "plain_part adler x ps sp" "flat_pieces adler (adler n) x [Literal b] wb"
      "laid adler x [Literal t] bl segs'" using Cons.prems part by auto
  have "list_all (\<lambda>b. tb_type b \<noteq> TPL_TYPE_TERM) (concat (map seg_blocks sp))" using s(2) flat_pieces_not_term by (auto simp: plain_part_def split: if_splits)
  then show ?case using Cons.IH [OF s(4)] flat_pieces_not_term [OF s(3)] s(1) by simp
qed

lemma mark_block_ends:
  assumes "list_all (\<lambda>b. tb_type b \<noteq> TPL_TYPE_TERM) (a @ mid @ z)" "tb_type t = TPL_TYPE_TERM" "a \<noteq> []" "z \<noteq> []"
  shows "\<exists>a' z'. mark_block (a @ mid @ z @ [t]) = Some (a' @ mid @ z' @ [t]) \<and> map unmarked a' = map unmarked a \<and> map unmarked z' = map unmarked z"
proof -
  obtain h a1 z1 l where e: "a = h # a1" "z = z1 @ [l]" using assms(3,4) by (cases a; cases z rule: rev_cases) auto
  let ?n = "length (a @ mid @ z)"
  have "mark_block (a @ mid @ z @ [t]) = Some ((h\<lparr>tb_block_length := int ?n\<rparr> # a1) @ mid @ (z1 @ [l\<lparr>tb_block_length := - (int ?n - 1)\<rparr>]) @ [t])"
    using vector_size [OF assms(1,2), of "[]"] e by (simp add: mark_block_def Let_def list_update_append nth_append)
  then show ?thesis using e by (intro exI [of _ "h\<lparr>tb_block_length := int ?n\<rparr> # a1"] exI [of _ "z1 @ [l\<lparr>tb_block_length := - (int ?n - 1)\<rparr>]"]) simp
qed

lemma laid_marked:
  assumes "laid adler x ps bl segs" "bl \<noteq> []" "pieces_text ps \<noteq> []" "tb_type t = TPL_TYPE_TERM"
  shows "\<exists>segs'. mark_block (concat (map seg_blocks segs) @ [t]) = Some (concat (map seg_blocks segs') @ [t]) \<and> laid adler x ps bl segs'"
proof -
  obtain n b u bl' where bl: "bl = (n, b, u) # bl'" using assms(2) by (cases bl) auto
  obtain w wb segs1 where s: "segs = Plain w # Repeated (adler n) wb # segs1" "flat_pieces adler 0 x ps w" "flat_pieces adler (adler n) x [Literal b] wb" "marked wb"
      "laid adler x [Literal u] bl' segs1" using assms(1,3) bl by (auto simp: plain_part_def)
  obtain s1 z where z: "segs1 = s1 @ [Plain z]" "z \<noteq> []" "\<forall>z'. map unmarked z' = map unmarked z \<longrightarrow> laid adler x [Literal u] bl' (s1 @ [Plain z'])"
    using laid_last [OF s(5)] by blast
  let ?mid = "wb @ concat (map seg_blocks s1)"
  have "list_all (\<lambda>b. tb_type b \<noteq> TPL_TYPE_TERM) (w @ ?mid @ z)" using laid_not_term [OF assms(1)] s(1) z(1) by simp
  from mark_block_ends [OF this assms(4) _ z(2)] obtain w' z' where m: "mark_block (w @ ?mid @ z @ [t]) = Some (w' @ ?mid @ z' @ [t])"
      "map unmarked w' = map unmarked w" "map unmarked z' = map unmarked z" using s(2) by (auto simp: flat_pieces_def)
  have "laid adler x ps bl (Plain w' # Repeated (adler n) wb # s1 @ [Plain z'])"
    using laid_ConsI [OF _ s(3,4) z(3) [rule_format, OF m(3)], of ps "[Plain w']"] flat_pieces_unmarked [OF s(2) m(2)] assms(3) bl
    by (simp add: plain_part_def del: laid.simps)
  then show ?thesis using m(1) s(1) z(1) by (intro exI [of _ "Plain w' # Repeated (adler n) wb # s1 @ [Plain z']"]) simp
qed

lemma parse_blocks_parts:
  assumes "list_all piece_ok ps" "pieces_text ps \<noteq> []" "list_all block_part_ok bl" "bl \<noteq> []" "snd (snd (last bl)) \<noteq> []"
    and x: "x = pieces_text ps @ parts_text bl" "length x < 2 ^ 32"
    and names: "distinct (map (\<lambda>b. adler (fst b)) bl)" "\<forall>b \<in> set bl. adler (fst b) \<noteq> 0"
    and re: "found_blocks re (x @ [NUL]) (length x) 0 (length (pieces_text ps)) bl"
  shows "\<exists>segs t. parse_blocks adler re j (text_str x) = Some (Some \<lparr>tpl_vector = concat (map seg_blocks segs) @ [t], tpl_text = x\<rparr>) \<and>
    tb_type t = TPL_TYPE_TERM \<and> laid adler x ps bl segs"
proof -
  let ?root = "root_block (length x)" and ?bv = "block_vec adler (length (pieces_text ps)) bl"
  have f: "find_blocks adler re (x @ [NUL]) (length x) 0 [?root] = Some (Some (?root # ?bv))"
    using find_blocks_parts [of bl re "x @ [NUL]" "length x" 0 "pieces_text ps" "[]" adler] assms by simp
  obtain segs t where s: "blocks_loop adler j (x @ [NUL]) (?root # ?bv) ?root 0 None 0 = map_option Some (mark_block (concat (map seg_blocks segs) @ [t]))" "tb_type t = TPL_TYPE_TERM"
      "laid adler x ps bl segs"
    using blocks_loop_parts [of ps bl x "[]" 0 "?root # ?bv" adler ?root None "[]" j] assms by (auto simp: is_vector_def)
  obtain segs' where m: "mark_block (concat (map seg_blocks segs) @ [t]) = Some (concat (map seg_blocks segs') @ [t])" "laid adler x ps bl segs'"
    using laid_marked [OF s(3) assms(4,2) s(2)] by blast
  have "process_blocks adler j (x @ [NUL]) (?root # ?bv) 0 = Some (Some (concat (map seg_blocks segs') @ [t]))"
    using s(1) m(1) by (simp add: process_blocks_def root_block_def)
  then have "parse_blocks adler re j (text_str x) = Some (Some \<lparr>tpl_vector = concat (map seg_blocks segs') @ [t], tpl_text = x\<rparr>)"
    using f vector_size [OF laid_not_term [OF m(2)] s(2), of "[]"] by (simp add: parse_blocks_def text_str_def root_block_def)
  then show ?thesis using m(2) s(2) by blast
qed

section \<open>From the files to the page\<close>

fun seg_from :: "nat \<Rightarrow> segment \<Rightarrow> segment" where
  "seg_from k (Plain w) = Plain (from_vector k w)"
| "seg_from k (Repeated c w) = Repeated c (from_vector k w)"

text \<open>What the blocks and the texts behind them should give: every block once for each context with its name.\<close>

fun parts_out :: "(string \<Rightarrow> 32 word) \<Rightarrow> block_context list \<Rightarrow> block_part list \<Rightarrow> string" where
  "parts_out adler blocks [] = []"
| "parts_out adler blocks ((n, b, t) # bl) =
     concat (replicate (length (filter (\<lambda>bc. bc_checksum bc = adler n) blocks)) b) @ t @ parts_out adler blocks bl"

lemma from_vector_append: "from_vector k (v @ w) = from_vector k v @ from_vector k w"
  by (simp add: from_vector_def)

lemma from_vector_segs: "from_vector k (concat (map seg_blocks ss)) = concat (map seg_blocks (map (seg_from k) ss))"
proof (induction ss)
  case (Cons a ss)
  then show ?case by (cases a) (simp_all add: from_vector_append)
qed (simp add: from_vector_def)

lemma marked_from_vector [simp]: "marked (from_vector k w) \<longleftrightarrow> marked w"
  by (cases w rule: rev_cases; cases "butlast w") (auto simp: marked_def from_vector_def butlast_append hd_append map_tl [symmetric])

lemma pieces_empty: "pieces_text ps = [] \<Longrightarrow> concat (map (piece_value adler f) ps) = []"
proof (induction ps)
  case (Cons p ps)
  then show ?case by (cases p) (auto simp: pieces_text_def cmd_var_def)
qed simp

lemma laid_out:
  assumes "laid adler x ps bl segs" "tpl_text tpl = x" "length (tpl_vector tpl) = k" "\<forall>b \<in> set bl. adler (fst b) \<noteq> 0"
  shows "list_all (seg_ok tpl) (map (seg_from k) segs) \<and> concat (map seg_sums (map (seg_from k) segs)) = map (\<lambda>b. adler (fst b)) bl \<and>
    concat (map (seg_out tpl ctx blocks glob) (map (seg_from k) segs)) = concat (map (piece_value adler (value_of None ctx glob)) ps) @ parts_out adler blocks bl"
  using assms(1,4)
proof (induction bl arbitrary: ps segs)
  case Nil
  then obtain w where w: "segs = [Plain w]" "flat_pieces adler 0 x ps w" by auto
  then show ?case using flat_pieces_out [OF w(2) assms(2,3)] by simp
next
  case (Cons part bl)
  obtain n b t where part: "part = (n, b, t)" by (cases part)
  obtain sp wb segs' where s: "segs = sp @ Repeated (adler n) wb # segs'" "plain_part adler x ps sp" "flat_pieces adler (adler n) x [Literal b] wb" "marked wb"
      "laid adler x [Literal t] bl segs'" using Cons.prems(1) part by auto
  have n: "adler n \<noteq> 0" using Cons.prems(2) part by simp
  have p: "list_all (seg_ok tpl) (map (seg_from k) sp)" "concat (map seg_sums (map (seg_from k) sp)) = []"
      "concat (map (seg_out tpl ctx blocks glob) (map (seg_from k) sp)) = concat (map (piece_value adler (value_of None ctx glob)) ps)"
    using s(2) pieces_empty flat_pieces_out [OF _ assms(2,3), of adler 0 ps] by (auto simp: plain_part_def split: if_splits)
  have "concat (map (piece_out tpl (Some v) ctx glob) (from_vector k wb)) = b" for v using flat_pieces_out(4) [OF s(3) assms(2,3)] by simp
  then have r: "seg_ok tpl (seg_from k (Repeated (adler n) wb))" "seg_out tpl ctx blocks glob (seg_from k (Repeated (adler n) wb)) =
      concat (replicate (length (filter (\<lambda>bc. bc_checksum bc = adler n) blocks)) b)"
    using flat_pieces_out(1,2) [OF s(3) assms(2,3)] s(4) n by (simp_all add: map_replicate_const)
  show ?case using Cons.IH [OF s(5)] Cons.prems(2) p r s(1) part by simp
qed

text \<open>
  C21.  Templates with blocks, from the files to the page.  The blocks are not nested, their names have checksums of their own and their contents
  are not empty; there is text in front of the first block and behind the last one; all variables are in front of the first
  block; the regular expression finds the blocks in their order; the template is new and its files do not include
  themselves.  Then the template is compiled, and \<^verbatim>\<open>tpl_complete\<close> ends and puts out the text in front of the blocks with the values of
  its variables, and every block as often as there are contexts with the checksum of its name (not at all without one), each
  followed by the text behind it.  Of the conditions, those on variables and on the text around the blocks are needed: see \<^verbatim>\<open>template_block_variable\<close>,
  \<^verbatim>\<open>template_block_at_end\<close> and \<^verbatim>\<open>template_block_at_start\<close>.
\<close>

theorem template_blocks_rendered:
  assumes new: "\<forall>c \<in> set (ts_compiled st). ct_checksum c \<noteq> adler fname"
    and dir: "\<forall>e \<in> set (w_saved (ts_cwd st)). fst e \<noteq> d" "chdir_ok dir"
    and doc: "docs fname = Some qs" "expands docs qs (pieces_text ps @ parts_text bl)"
    and ps: "list_all piece_ok ps" "pieces_text ps \<noteq> []"
    and bl: "list_all block_part_ok bl" "bl \<noteq> []" "snd (snd (last bl)) \<noteq> []"
    and size: "length (pieces_text ps @ parts_text bl) < 2 ^ 32"
    and names: "distinct (map (\<lambda>b. adler (fst b)) bl)" "\<forall>b \<in> set bl. adler (fst b) \<noteq> 0"
    and re: "found_blocks re (pieces_text ps @ parts_text bl @ [NUL]) (length (pieces_text ps @ parts_text bl)) 0 (length (pieces_text ps)) bl"
    and out: "out_ok out (concat (map (piece_value adler (value_of None ctx glob)) ps) @ parts_out adler blocks bl)"
  shows "\<exists>tpl st' out'. tpl_compile adler re j u t0 (doc_files docs) stat update (Some d) chdir_ok dir fname st = Some (Some tpl, st') \<and>
    ts_cwd st' = ts_cwd st \<and> tpl_complete u base tpl ctx blocks glob out = Some out' \<and>
    buf_used out' = buf_used out @ concat (map (piece_value adler (value_of None ctx glob)) ps) @ parts_out adler blocks bl"
proof -
  let ?x = "pieces_text ps @ parts_text bl"
  obtain segs t where s: "parse_blocks adler re j (text_str ?x) = Some (Some \<lparr>tpl_vector = concat (map seg_blocks segs) @ [t], tpl_text = ?x\<rparr>)" "tb_type t = TPL_TYPE_TERM"
      "laid adler ?x ps bl segs" using parse_blocks_parts [of ps bl ?x adler re j] ps bl size names re by auto
  let ?w = "concat (map seg_blocks segs)"
  let ?k = "Suc (length ?w)"
  let ?tpl = "\<lparr>tpl_vector = from_vector ?k ?w @ [t], tpl_text = ?x\<rparr>"
  obtain st' where c: "tpl_compile adler re j u t0 (doc_files docs) stat update (Some d) chdir_ok dir fname st = Some (Some ?tpl, st')" "ts_cwd st' = ts_cwd st"
    using tpl_compile_new [where chdir_ok = chdir_ok and dir = dir, OF new dir doc s(1) laid_not_term [OF s(3)] s(2), of u t0 stat update] by (simp add: from_vector_def)
  have l: "list_all (seg_ok ?tpl) (map (seg_from ?k) segs)" "concat (map seg_sums (map (seg_from ?k) segs)) = map (\<lambda>b. adler (fst b)) bl"
      "concat (map (seg_out ?tpl ctx blocks glob) (map (seg_from ?k) segs)) = concat (map (piece_value adler (value_of None ctx glob)) ps) @ parts_out adler blocks bl"
    using laid_out [OF s(3), of ?tpl ?k ctx blocks glob] names(2) by (simp_all add: from_vector_def)
  obtain s1 z where z: "segs = s1 @ [Plain z]" using laid_last [OF s(3)] by blast
  have v: "tpl_vector ?tpl = concat (map seg_blocks (map (seg_from ?k) s1)) @ from_vector ?k z @ [t]" using z by (simp add: from_vector_append from_vector_segs)
  have "\<exists>out'. tpl_complete u base ?tpl ctx blocks glob out = Some out' \<and> buf_inv out' \<and> b_node_size out' = 1 \<and>
    buf_used out' = buf_used out @ concat (map (seg_out ?tpl ctx blocks glob) (map (seg_from ?k) s1 @ [Plain (from_vector ?k z)]))"
    by (rule complete_law [OF v s(2)]) (use l out names(1) z in auto)
  then show ?thesis using c l(3) z by auto
qed

definition demo_page :: "string \<Rightarrow> source_piece list option" where
  "demo_page f = (if f = ''v'' then Some [Written ''Hi {$ who}{block b}x{end b}.''] else None)"

definition demo_match :: block_match where
  "demo_match m len off = (if off = 0 then Some (17, 18, 19, 20) else None)"

definition demo_loop :: "block_context list" where
  "demo_loop = [\<lparr>bc_vars = [], bc_checksum = adler32 ''b''\<rparr>, \<lparr>bc_vars = [], bc_checksum = adler32 ''b''\<rparr>]"

theorem template_blocks_rendered_witness:
  "\<exists>tpl st' out'. tpl_compile adler32 demo_match (demo_block TPL_TYPE_TEXT 0 0 0 0) CHR ''u'' 0 (doc_files demo_page) (\<lambda>_. None) 0 (Some 3) (\<lambda>_. True) ''/tpl'' ''v'' demo_state = Some (Some tpl, st') \<and>
     tpl_complete CHR ''u'' 0 tpl (Some [\<lparr>av_value = ''Joe'', av_addr = 0, av_checksum = adler32 ''who'', av_allocated = False\<rparr>]) demo_loop [] empty_page = Some out' \<and>
     buf_used out' = ''Hi Joexx.''"
proof -
  let ?ps = "[Literal ''Hi '', Variable ''who'']" and ?bl = "[(''b'', ''x'', ''.'')]"
  let ?ctx = "Some [\<lparr>av_value = ''Joe'', av_addr = 0, av_checksum = adler32 ''who'', av_allocated = False\<rparr>]"
  have x: "pieces_text ?ps @ parts_text ?bl = ''Hi {$ who}{block b}x{end b}.''" by (simp add: pieces_text_def cmd_var_def block_start_def block_stop_def)
  have "source_ok (Written ''Hi {$ who}{block b}x{end b}.'')" by (simp add: cmd_include_def)
  then have "expands demo_page [Written ''Hi {$ who}{block b}x{end b}.''] (''Hi {$ who}{block b}x{end b}.'' @ [])" by (intro expands.written expands.no_pieces)
  then have e: "expands demo_page [Written ''Hi {$ who}{block b}x{end b}.''] (pieces_text ?ps @ parts_text ?bl)" unfolding x by simp
  have v: "concat (map (piece_value adler32 (value_of None ?ctx [])) ?ps) @ parts_out adler32 demo_loop ?bl = ''Hi Joexx.''"
    by (simp add: value_of_def find_var_def get_var_def demo_loop_def)
  have k: "out_ok empty_page ''Hi Joexx.''" "buf_used empty_page = []" by (simp_all add: out_ok_def empty_page_def buf_inv_def buf_used_def)
  have d: "demo_page ''v'' = Some [Written ''Hi {$ who}{block b}x{end b}.'']" by (simp add: demo_page_def)
  have st: "\<forall>c \<in> set (ts_compiled demo_state). ct_checksum c \<noteq> adler32 ''v''" "\<forall>e \<in> set (w_saved (ts_cwd demo_state)). fst e \<noteq> 3" by (simp_all add: demo_state_def)
  have p: "list_all piece_ok ?ps" "pieces_text ?ps \<noteq> []" "list_all block_part_ok ?bl" "?bl \<noteq> []" "snd (snd (last ?bl)) \<noteq> []"
    by (simp_all add: cmd_var_def IS_VALID_TPL_VARIABLE_CHARACTER_def pieces_text_def)
  have n: "length (pieces_text ?ps @ parts_text ?bl) < 2 ^ 32" "distinct (map (\<lambda>b. adler32 (fst b)) ?bl)" "\<forall>b \<in> set ?bl. adler32 (fst b) \<noteq> 0"
    by (simp_all add: x adler32_def del: parts_text.simps)
  have re: "found_blocks demo_match (pieces_text ?ps @ parts_text ?bl @ [NUL]) (length (pieces_text ?ps @ parts_text ?bl)) 0 (length (pieces_text ?ps)) ?bl"
    by (simp add: demo_match_def pieces_text_def)
  show ?thesis
    using template_blocks_rendered [where st = demo_state and adler = adler32 and fname = "''v''" and d = 3 and dir = "''/tpl''" and docs = demo_page and
        chdir_ok = "\<lambda>_. True" and re = demo_match and ctx = ?ctx and glob = "[]" and out = empty_page and blocks = demo_loop and
        ps = ?ps and bl = ?bl and j = "demo_block TPL_TYPE_TEXT 0 0 0 0" and u = "CHR ''u''" and ?t0.0 = 0 and
        stat = "\<lambda>_. None" and update = 0 and base = 0, unfolded v k(2), OF st _ d e p n re k(1)]
    by (simp only: append_Nil simp_thms) blast
qed

text \<open>
  A block at the very beginning of a template loses its mark as well: its first piece gets the length of the whole template, and
  without a context for the block everything is left out, also the text behind it, and the loop goes on behind the end of the vector.
\<close>

theorem template_block_at_start:
  "\<exists>v. mark_block [demo_block TPL_TYPE_TEXT 72 1 5 1, demo_block TPL_TYPE_TEXT 73 1 0 0, demo_block TPL_TYPE_TERM 0 0 0 0] = Some v \<and>
     tpl_complete CHR ''u'' 0 \<lparr>tpl_vector = v, tpl_text = ''Tx''\<rparr> None [] [] empty_page = None"
proof -
  let ?v = "[demo_block TPL_TYPE_TEXT 72 1 5 2, demo_block TPL_TYPE_TEXT 73 1 0 (- 1), demo_block TPL_TYPE_TERM 0 0 0 0]"
  have m: "mark_block [demo_block TPL_TYPE_TEXT 72 1 5 1, demo_block TPL_TYPE_TEXT 73 1 0 0, demo_block TPL_TYPE_TERM 0 0 0 0] = Some ?v"
    by (simp add: mark_block_def demo_block_def)
  have "complete_loop CHR ''u'' 0 \<lparr>tpl_vector = ?v, tpl_text = ''Tx''\<rparr> None [] [] 2 [] empty_page = None"
    by (subst complete_loop.simps) (simp add: complete_step_def demo_block_def put_piece_def)
  moreover have "complete_loop CHR ''u'' 0 \<lparr>tpl_vector = ?v, tpl_text = ''Tx''\<rparr> None [] [] 0 [] empty_page =
      complete_loop CHR ''u'' 0 \<lparr>tpl_vector = ?v, tpl_text = ''Tx''\<rparr> None [] [] 2 [] empty_page"
    by (subst complete_loop.simps) (simp add: complete_step_def demo_block_def)
  ultimately show ?thesis using m by (simp add: tpl_complete_def demo_block_def)
qed

end
