(* ===== verification/Sha1.thy ===== *)
theory Sha1
  imports Prelude
begin

text \<open>
  The message digest of \<^verbatim>\<open>web/utils/sha1.c\<close> (the branch without OpenSSL): a context with a block of 64 bytes is filled
  byte by byte, every full block is worked into the five words of the digest, and the last blocks hold the padding.
  The reference is the standard's definition on whole messages: padding, blocks, schedule and rounds by number.
\<close>

unbundle bit_operations_syntax

section \<open>The program\<close>

record SHA1Context =
  Intermediate_Hash :: "32 word list"
  Length_Low :: "32 word"
  Length_High :: "32 word"
  Message_Block_Index :: nat
  Message_Block :: "8 word list"
  Computed :: bool
  Corrupted :: bool

definition SHA1HashSize :: nat where "SHA1HashSize = 20"

definition SHA1CircularShift :: "nat \<Rightarrow> 32 word \<Rightarrow> 32 word" where
  "SHA1CircularShift bits w = push_bit bits w OR drop_bit (32 - bits) w"

text \<open>The first loops of \<^verbatim>\<open>SHA1ProcessMessageBlock\<close>: the words of the block, and the words made from them.\<close>

definition message_words :: "8 word list \<Rightarrow> 32 word list" where
  "message_words blk =
     map (\<lambda>t. push_bit 24 (ucast (blk ! (t * 4))) OR push_bit 16 (ucast (blk ! (t * 4 + 1))) OR
              push_bit 8 (ucast (blk ! (t * 4 + 2))) OR ucast (blk ! (t * 4 + 3))) [0..<16]"

definition further_words :: "32 word list \<Rightarrow> 32 word list" where
  "further_words W =
     foldl (\<lambda>W t. W @ [SHA1CircularShift 1 (W ! (t - 3) XOR W ! (t - 8) XOR W ! (t - 14) XOR W ! (t - 16))]) W [16..<80]"

type_synonym sha1_regs = "32 word \<times> 32 word \<times> 32 word \<times> 32 word \<times> 32 word"

text \<open>One of the four loops of rounds: \<open>f\<close> is its function of three words and \<open>k\<close> its constant.\<close>

definition rounds :: "(32 word \<Rightarrow> 32 word \<Rightarrow> 32 word \<Rightarrow> 32 word) \<Rightarrow> 32 word \<Rightarrow> 32 word list \<Rightarrow> nat list \<Rightarrow> sha1_regs \<Rightarrow> sha1_regs" where
  "rounds f k W ts regs =
     foldl (\<lambda>(A, B, C, D, E) t. (SHA1CircularShift 5 A + f B C D + E + W ! t + k, A, SHA1CircularShift 30 B, C, D)) regs ts"

definition SHA1ProcessMessageBlock :: "SHA1Context \<Rightarrow> SHA1Context" where
  "SHA1ProcessMessageBlock c =
     (let W = further_words (message_words (Message_Block c));
          H = Intermediate_Hash c;
          r = (H ! 0, H ! 1, H ! 2, H ! 3, H ! 4);
          r = rounds (\<lambda>B C D. (B AND C) OR (NOT B AND D)) 0x5A827999 W [0..<20] r;
          r = rounds (\<lambda>B C D. B XOR C XOR D) 0x6ED9EBA1 W [20..<40] r;
          r = rounds (\<lambda>B C D. (B AND C) OR (B AND D) OR (C AND D)) 0x8F1BBCDC W [40..<60] r;
          (A, B, C, D, E) = rounds (\<lambda>B C D. B XOR C XOR D) 0xCA62C1D6 W [60..<80] r in
      c\<lparr>Intermediate_Hash := [H ! 0 + A, H ! 1 + B, H ! 2 + C, H ! 3 + D, H ! 4 + E], Message_Block_Index := 0\<rparr>)"

text \<open>\<^verbatim>\<open>Message_Block[Message_Block_Index++] = b\<close>\<close>

definition put_byte :: "8 word \<Rightarrow> SHA1Context \<Rightarrow> SHA1Context option" where
  "put_byte b c =
     (if Message_Block_Index c < length (Message_Block c)
      then Some (c\<lparr>Message_Block := (Message_Block c)[Message_Block_Index c := b], Message_Block_Index := Suc (Message_Block_Index c)\<rparr>)
      else None)"

function zero_to :: "nat \<Rightarrow> SHA1Context \<Rightarrow> SHA1Context option" where
  "zero_to n c = (if Message_Block_Index c < n then do { c \<leftarrow> put_byte 0 c; zero_to n c } else Some c)"
  by pat_completeness auto
termination by (relation "measure (\<lambda>(n, c). n - Message_Block_Index c)") (auto simp: put_byte_def split: if_splits)

declare zero_to.simps [simp del]

definition length_bytes :: "SHA1Context \<Rightarrow> 8 word list" where
  "length_bytes c =
     [ucast (drop_bit 24 (Length_High c)), ucast (drop_bit 16 (Length_High c)), ucast (drop_bit 8 (Length_High c)), ucast (Length_High c),
      ucast (drop_bit 24 (Length_Low c)), ucast (drop_bit 16 (Length_Low c)), ucast (drop_bit 8 (Length_Low c)), ucast (Length_Low c)]"

definition SHA1PadMessage :: "SHA1Context \<Rightarrow> SHA1Context option" where
  "SHA1PadMessage c =
     do { c \<leftarrow> (if Message_Block_Index c > 55
             then do { c \<leftarrow> put_byte 0x80 c; c \<leftarrow> zero_to 64 c; zero_to 56 (SHA1ProcessMessageBlock c) }
             else do { c \<leftarrow> put_byte 0x80 c; zero_to 56 c });
          if 64 \<le> length (Message_Block c)
          then Some (SHA1ProcessMessageBlock (c\<lparr>Message_Block := take 56 (Message_Block c) @ length_bytes c @ drop 64 (Message_Block c)\<rparr>))
          else None }"

definition SHA1Reset :: "SHA1Context \<Rightarrow> SHA1Context" where
  "SHA1Reset c = c\<lparr>Length_Low := 0, Length_High := 0, Message_Block_Index := 0,
     Intermediate_Hash := [0x67452301, 0xEFCDAB89, 0x98BADCFE, 0x10325476, 0xC3D2E1F0], Computed := False, Corrupted := False\<rparr>"

definition SHA1Result :: "SHA1Context \<Rightarrow> (8 word list \<times> SHA1Context) option" where
  "SHA1Result c =
     do { c \<leftarrow> (if \<not> Computed c
             then map_option (\<lambda>c. c\<lparr>Message_Block := replicate 64 0, Length_Low := 0, Length_High := 0, Computed := True\<rparr>) (SHA1PadMessage c)
             else Some c);
          Some (map (\<lambda>i. ucast (drop_bit (8 * (3 - (i AND 3))) (Intermediate_Hash c ! drop_bit 2 i))) [0..<SHA1HashSize], c) }"

text \<open>The body of the loop of \<^verbatim>\<open>SHA1Input\<close> for one byte, and the loop; the message lies in \<open>m\<close>, its next byte at \<open>i\<close>.\<close>

definition input_byte :: "8 word \<Rightarrow> SHA1Context \<Rightarrow> SHA1Context option" where
  "input_byte b c =
     do { c \<leftarrow> put_byte b c;
          let c = c\<lparr>Length_Low := Length_Low c + 8\<rparr>;
          let c = (if Length_Low c = 0
                   then let c = c\<lparr>Length_High := Length_High c + 1\<rparr> in
                        if Length_High c = 0 then c\<lparr>Corrupted := True\<rparr> else c
                   else c);
          Some (if Message_Block_Index c = 64 then SHA1ProcessMessageBlock c else c) }"

fun SHA1Input :: "8 word list \<Rightarrow> nat \<Rightarrow> nat \<Rightarrow> SHA1Context \<Rightarrow> SHA1Context option" where
  "SHA1Input m i 0 c = Some c"
| "SHA1Input m i (Suc n) c =
     (if Corrupted c then Some c
      else if i < length m then do { c \<leftarrow> input_byte (m ! i) c; SHA1Input m (Suc i) n c }
      else None)"

text \<open>\<open>ctx\<close> is what the context on the stack holds before it is reset.\<close>

definition sha1 :: "SHA1Context \<Rightarrow> 8 word list \<Rightarrow> 32 word \<Rightarrow> 8 word list option" where
  "sha1 ctx data len = do { c \<leftarrow> SHA1Input data 0 (unat len) (SHA1Reset ctx); map_option fst (SHA1Result c) }"

section \<open>The standard\<close>

text \<open>Words and rounds by their number.\<close>

fun word_at :: "8 word list \<Rightarrow> nat \<Rightarrow> 32 word" where
  "word_at blk t =
     (if t < 16 then word_rcat (take 4 (drop (4 * t) blk))
      else word_rotl 1 (word_at blk (t - 3) XOR word_at blk (t - 8) XOR word_at blk (t - 14) XOR word_at blk (t - 16)))"

declare word_at.simps [simp del]

definition round_function :: "nat \<Rightarrow> 32 word \<Rightarrow> 32 word \<Rightarrow> 32 word \<Rightarrow> 32 word" where
  "round_function t x y z =
     (if t < 20 then (x AND y) XOR (NOT x AND z)
      else if 40 \<le> t \<and> t < 60 then (x AND y) XOR (x AND z) XOR (y AND z)
      else x XOR y XOR z)"

definition round_constant :: "nat \<Rightarrow> 32 word" where
  "round_constant t = [0x5A827999, 0x6ED9EBA1, 0x8F1BBCDC, 0xCA62C1D6] ! (t div 20)"

fun spec_round :: "8 word list \<Rightarrow> sha1_regs \<Rightarrow> nat \<Rightarrow> sha1_regs" where
  "spec_round blk (a, b, c, d, e) t =
     (word_rotl 5 a + round_function t b c d + e + round_constant t + word_at blk t, a, word_rotl 30 b, c, d)"

fun compress :: "sha1_regs \<Rightarrow> 8 word list \<Rightarrow> sha1_regs" where
  "compress (h0, h1, h2, h3, h4) blk =
     (case foldl (spec_round blk) (h0, h1, h2, h3, h4) [0..<80] of
        (a, b, c, d, e) \<Rightarrow> (h0 + a, h1 + b, h2 + c, h3 + d, h4 + e))"

function blocks_of :: "nat \<Rightarrow> 'a list \<Rightarrow> 'a list list" where
  "blocks_of n xs = (if n = 0 \<or> length xs < n then [] else take n xs # blocks_of n (drop n xs))"
  by pat_completeness auto
termination by (relation "measure (\<lambda>(n, xs). length xs)") auto

declare blocks_of.simps [simp del]

definition big_endian :: "nat \<Rightarrow> nat \<Rightarrow> 8 word list" where
  "big_endian k n = map (\<lambda>i. of_nat (n div 256 ^ (k - 1 - i))) [0..<k]"

definition padded :: "8 word list \<Rightarrow> 8 word list" where
  "padded msg = msg @ [0x80] @ replicate ((119 - length msg mod 64) mod 64) 0 @ big_endian 8 (8 * length msg)"

definition sha1_start :: sha1_regs where
  "sha1_start = (0x67452301, 0xEFCDAB89, 0x98BADCFE, 0x10325476, 0xC3D2E1F0)"

fun digest_of :: "sha1_regs \<Rightarrow> 8 word list" where
  "digest_of (h0, h1, h2, h3, h4) = concat (map (\<lambda>h. big_endian 4 (unat h)) [h0, h1, h2, h3, h4])"

definition sha1_standard :: "8 word list \<Rightarrow> 8 word list" where
  "sha1_standard msg = digest_of (foldl compress sha1_start (blocks_of 64 (padded msg)))"


section \<open>Words and rounds\<close>

lemma circular_shift: "0 < n \<Longrightarrow> n < 32 \<Longrightarrow> SHA1CircularShift n w = word_rotl n w"
proof (rule bit_eqI)
  fix k :: nat assume a: "0 < n" "n < 32" "possible_bit TYPE(32 word) k"
  then have k: "k < 32" by (simp add: possible_bit_def)
  show "bit (SHA1CircularShift n w) k = bit (word_rotl n w) k"
  proof (cases "n \<le> k")
    case True
    then have "(k + 32 - n) mod 32 = k - n" using k by (simp add: mod_if)
    then show ?thesis using True k a
      by (auto simp: SHA1CircularShift_def bit_or_iff bit_push_bit_iff bit_drop_bit_eq bit_word_rotl_iff dest: bit_imp_le_length)
  next
    case False
    then have "(k + 32 - n) mod 32 = 32 - n + k" using k a by (subst mod_less) simp_all
    then show ?thesis using False k a
      by (auto simp: SHA1CircularShift_def bit_or_iff bit_push_bit_iff bit_drop_bit_eq bit_word_rotl_iff)
  qed
qed

lemma choice_eq: "(x AND y) OR (NOT x AND z) = (x AND y) XOR (NOT x AND (z :: 32 word))"
  by (rule bit_eqI) (auto simp: bit_simps)

lemma majority_eq: "(x AND y) OR (x AND z) OR (y AND z) = (x AND y) XOR (x AND z) XOR (y AND (z :: 32 word))"
  by (rule bit_eqI) (auto simp: bit_simps)

lemma four_bytes: "push_bit 24 (ucast a) OR push_bit 16 (ucast b) OR push_bit 8 (ucast c) OR ucast d = (word_rcat [a, b, c, d :: 8 word] :: 32 word)"
proof (rule bit_word_eqI)
  fix k :: nat assume k: "k < LENGTH(32)"
  have "bit (word_rcat [a, b, c, d] :: 32 word) k = bit (horner_sum uint (2 ^ LENGTH(8)) [d, c, b, a]) k"
    using k by (simp only: word_rcat_def comp_apply rev.simps append.simps bit_word_of_int_iff simp_thms)
  then have r: "bit (word_rcat [a, b, c, d] :: 32 word) k = (k div 8 < 4 \<and> bit ([d, c, b, a] ! (k div 8)) (k mod 8))"
    unfolding bit_horner_sum_uint_exp_iff by auto
  consider "k < 8" | "8 \<le> k" "k < 16" | "16 \<le> k" "k < 24" | "24 \<le> k" "k < 32" using k by fastforce
  then show "bit (push_bit 24 (ucast a) OR push_bit 16 (ucast b) OR push_bit 8 (ucast c) OR (ucast d :: 32 word)) k = bit (word_rcat [a, b, c, d] :: 32 word) k"
    unfolding r by cases (auto simp: bit_or_iff bit_push_bit_iff bit_ucast_iff div_nat_eqI mod_if le_div_geq dest: bit_imp_le_length)
qed

lemma message_words_eq:
  assumes "length blk = 64"
  shows "message_words blk = map (word_at blk) [0..<16]"
proof -
  have "take 4 (drop (4 * t) blk) = [blk ! (t * 4), blk ! (t * 4 + 1), blk ! (t * 4 + 2), blk ! (t * 4 + 3)]" if "t < 16" for t
    using that assms take_Suc_conv_app_nth [of 3 "drop (4 * t) blk"] take_Suc_conv_app_nth [of 2 "drop (4 * t) blk"]
      take_Suc_conv_app_nth [of 1 "drop (4 * t) blk"] take_Suc_conv_app_nth [of 0 "drop (4 * t) blk"]
    by (simp add: mult.commute eval_nat_numeral)
  then show ?thesis by (auto simp: message_words_def four_bytes word_at.simps)
qed

lemma further_words_upto:
  assumes "16 \<le> n" "W = map (word_at blk) [0..<16]"
  shows "foldl (\<lambda>W t. W @ [SHA1CircularShift 1 (W ! (t - 3) XOR W ! (t - 8) XOR W ! (t - 14) XOR W ! (t - 16))]) W [16..<n] = map (word_at blk) [0..<n]"
  using assms(1)
proof (induction n rule: dec_induct)
  case base
  then show ?case using assms(2) by simp
next
  case (step n)
  have "word_at blk n = word_rotl 1 (word_at blk (n - 3) XOR word_at blk (n - 8) XOR word_at blk (n - 14) XOR word_at blk (n - 16))"
    using step(1) by (subst word_at.simps) simp
  then show ?case using step by (simp add: circular_shift)
qed

lemma words_eq: "length blk = 64 \<Longrightarrow> further_words (message_words blk) = map (word_at blk) [0..<80]"
  unfolding further_words_def by (rule further_words_upto [OF _ message_words_eq]) simp_all

lemma rounds_eq:
  assumes "\<And>t x y z. t \<in> set ts \<Longrightarrow> f x y z = round_function t x y z \<and> k = round_constant t \<and> t < 80"
  shows "rounds f k (map (word_at blk) [0..<80]) ts regs = foldl (spec_round blk) regs ts"
  unfolding rounds_def
proof (rule foldl_cong, rule refl, rule refl)
  fix r t assume "t \<in> set ts"
  then show "(case r of (A, B, C, D, E) \<Rightarrow> \<lambda>t. (SHA1CircularShift 5 A + f B C D + E + map (word_at blk) [0..<80] ! t + k, A, SHA1CircularShift 30 B, C, D)) t = spec_round blk r t"
    using assms [of t] by (cases r) (simp add: circular_shift)
qed

fun regs_of :: "32 word list \<Rightarrow> sha1_regs" where
  "regs_of H = (H ! 0, H ! 1, H ! 2, H ! 3, H ! 4)"

text \<open>A block is worked into the digest as the standard says.\<close>

lemma process_block:
  assumes "length (Message_Block c) = 64"
  shows "\<exists>H. SHA1ProcessMessageBlock c = c\<lparr>Intermediate_Hash := H, Message_Block_Index := 0\<rparr> \<and> length H = 5 \<and>
    regs_of H = compress (regs_of (Intermediate_Hash c)) (Message_Block c)"
proof -
  let ?b = "Message_Block c" and ?r = "regs_of (Intermediate_Hash c)"
  let ?W = "map (word_at ?b) [0..<80]"
  have u: "[0..<80] = [0..<20] @ [20..<40] @ [40..<60] @ [60..<80 :: nat]" by (simp add: upt_rec)
  note sp = round_function_def round_constant_def choice_eq majority_eq
  have 1: "rounds (\<lambda>B C D. (B AND C) OR (NOT B AND D)) 0x5A827999 ?W [0..<20] r = foldl (spec_round ?b) r [0..<20]" for r
    by (rule rounds_eq) (auto simp: sp div_nat_eqI)
  have 2: "rounds (\<lambda>B C D. B XOR C XOR D) 0x6ED9EBA1 ?W [20..<40] r = foldl (spec_round ?b) r [20..<40]" for r
    by (rule rounds_eq) (auto simp: sp div_nat_eqI)
  have 3: "rounds (\<lambda>B C D. (B AND C) OR (B AND D) OR (C AND D)) 0x8F1BBCDC ?W [40..<60] r = foldl (spec_round ?b) r [40..<60]" for r
    by (rule rounds_eq) (auto simp: sp)
  have 4: "rounds (\<lambda>B C D. B XOR C XOR D) 0xCA62C1D6 ?W [60..<80] r = foldl (spec_round ?b) r [60..<80]" for r
    by (rule rounds_eq) (auto simp: sp)
  show ?thesis
    unfolding SHA1ProcessMessageBlock_def words_eq [OF assms] Let_def 1 2 3 4
    by (auto simp del: upt_rec_numeral simp: u split: prod.splits)
qed


declare regs_of.simps [simp del] compress.simps [simp del]

section \<open>Messages\<close>

lemma blocks_of_short: "length xs < n \<Longrightarrow> blocks_of n xs = []"
  by (simp add: blocks_of.simps)

lemma blocks_of_one: "length xs = n \<Longrightarrow> n > 0 \<Longrightarrow> blocks_of n (xs @ ys) = xs # blocks_of n ys"
  by (subst blocks_of.simps) simp

lemma blocks_of_append: "n dvd length xs \<Longrightarrow> n > 0 \<Longrightarrow> blocks_of n (xs @ ys) = blocks_of n xs @ blocks_of n ys"
proof (induction n xs rule: blocks_of.induct)
  case (1 n xs)
  show ?case
  proof (cases "xs = []")
    case True
    then show ?thesis using 1 by (simp add: blocks_of_short)
  next
    case False
    then have l: "n \<le> length xs" using 1 by (simp add: dvd_imp_le)
    then have "blocks_of n (drop n xs @ ys) = blocks_of n (drop n xs) @ blocks_of n ys" using 1 by (simp add: dvd_diff_nat)
    then show ?thesis using l 1 by (simp add: blocks_of.simps [of n "xs @ ys"] blocks_of.simps [of n xs])
  qed
qed

definition tail_of :: "8 word list \<Rightarrow> 8 word list" where
  "tail_of p = drop (length p - length p mod 64) p"

lemma length_tail: "length (tail_of p) = length p mod 64"
  by (simp add: tail_of_def)

lemma blocks_extend: "blocks_of 64 (p @ x) = blocks_of 64 p @ blocks_of 64 (tail_of p @ x)"
proof -
  let ?q = "take (length p - length p mod 64) p"
  have d: "64 dvd length ?q" by (simp add: dvd_minus_mod)
  have p: "p = ?q @ tail_of p" by (simp add: tail_of_def)
  have "blocks_of 64 p = blocks_of 64 ?q" using blocks_of_append [OF d, of "tail_of p"] p length_tail [of p] by (simp add: blocks_of_short)
  moreover have "blocks_of 64 (p @ x) = blocks_of 64 ?q @ blocks_of 64 (tail_of p @ x)"
    using blocks_of_append [OF d, of "tail_of p @ x"] p by (metis append.assoc zero_less_numeral)
  ultimately show ?thesis by simp
qed

lemma tail_snoc: "tail_of (p @ [b]) = (if length p mod 64 = 63 then [] else tail_of p @ [b])"
proof (cases "length p mod 64 = 63")
  case True
  then have "Suc (length p) mod 64 = 0" by (simp add: mod_Suc)
  then show ?thesis using True by (simp add: tail_of_def)
next
  case False
  then have "Suc (length p) mod 64 = Suc (length p mod 64)" by (simp add: mod_Suc)
  moreover have "Suc (length p) - Suc (length p mod 64) = length p - length p mod 64" by simp
  ultimately show ?thesis using False by (simp add: tail_of_def)
qed

text \<open>The context after the bytes \<open>p\<close>: full blocks are in the digest, the rest is in the block.\<close>

definition absorbed :: "8 word list \<Rightarrow> SHA1Context \<Rightarrow> bool" where
  "absorbed p c \<longleftrightarrow> length (Message_Block c) = 64 \<and> \<not> Computed c \<and> \<not> Corrupted c \<and> Message_Block_Index c = length p mod 64 \<and>
     take (length p mod 64) (Message_Block c) = tail_of p \<and> length (Intermediate_Hash c) = 5 \<and>
     regs_of (Intermediate_Hash c) = foldl compress sha1_start (blocks_of 64 p) \<and>
     unat (Length_High c) * 2 ^ 32 + unat (Length_Low c) = 8 * length p"

lemma absorbed_reset: "length (Message_Block ctx) = 64 \<Longrightarrow> absorbed [] (SHA1Reset ctx)"
  by (simp add: absorbed_def SHA1Reset_def tail_of_def sha1_start_def blocks_of_short regs_of.simps)

text \<open>The count of bits in two words; there is no carry out of the upper one below \<open>2 ^ 64\<close> bits.\<close>

lemma count_bits:
  fixes h l :: "32 word"
  assumes "unat h * 2 ^ 32 + unat l = 8 * n" "8 * Suc n < 2 ^ 64"
  shows "(l + 8 = 0 \<longrightarrow> h + 1 \<noteq> 0 \<and> unat (h + 1) * 2 ^ 32 + unat (l + 8) = 8 * Suc n) \<and>
    (l + 8 \<noteq> 0 \<longrightarrow> unat h * 2 ^ 32 + unat (l + 8) = 8 * Suc n)"
proof -
  have "unat l < 2 ^ LENGTH(32)" "unat h < 2 ^ LENGTH(32)" by (rule unsigned_less)+
  then have b: "unat l < 2 ^ 32" "unat h < 2 ^ 32" by simp_all
  have "(8 :: nat) dvd unat h * 2 ^ 32" by simp
  then have "8 dvd unat l" using assms(1) by (metis dvd_add_right_iff dvd_triv_left)
  then obtain q where "unat l = 8 * q" by (rule dvdE)
  then have l: "unat l + 8 \<le> 2 ^ 32" using b by simp
  have u: "unat (l + 8) = (unat l + 8) mod 2 ^ 32" "unat (h + 1) = (unat h + 1) mod 2 ^ 32" by (simp_all add: unat_word_ariths)
  show ?thesis
  proof (cases "unat l + 8 = 2 ^ 32")
    case True
    then have "unat h + 1 < 2 ^ 32" using assms by simp
    then have "unat (h + 1) = unat h + 1" using u by simp
    moreover from this have "h + 1 \<noteq> 0" by (metis Suc_eq_plus1 nat.distinct(1) unat_0)
    moreover have "l + 8 = 0" using True u by (simp add: unat_eq_zero)
    ultimately show ?thesis using True assms by simp
  next
    case False
    then have "unat (l + 8) = unat l + 8" using u l by simp
    moreover from this have "l + 8 \<noteq> 0" by auto
    ultimately show ?thesis using assms by simp
  qed
qed

lemma put_byte_tail:
  assumes "length (Message_Block c) = 64" "Message_Block_Index c = length r" "take (length r) (Message_Block c) = r" "length r < 64"
  shows "\<exists>blk. put_byte b c = Some (c\<lparr>Message_Block := blk, Message_Block_Index := Suc (length r)\<rparr>) \<and> length blk = 64 \<and> take (Suc (length r)) blk = r @ [b]"
  using assms by (auto simp: put_byte_def take_Suc_conv_app_nth)

lemma input_byte_absorbed:
  assumes a: "absorbed p c" and n: "8 * Suc (length p) < 2 ^ 64"
  shows "\<exists>c'. input_byte b c = Some c' \<and> absorbed (p @ [b]) c'"
proof -
  let ?r = "tail_of p"
  have r: "length ?r = length p mod 64" "length p mod 64 < 64" by (simp_all add: length_tail)
  obtain blk where blk: "put_byte b c = Some (c\<lparr>Message_Block := blk, Message_Block_Index := Suc (length ?r)\<rparr>)"
      "length blk = 64" "take (Suc (length ?r)) blk = ?r @ [b]"
    using put_byte_tail [of c ?r b] a r by (auto simp: absorbed_def)
  define h where "h = (if Length_Low c + 8 = 0 then Length_High c + 1 else Length_High c)"
  have h: "unat h * 2 ^ 32 + unat (Length_Low c + 8) = 8 * Suc (length p)" "Length_Low c + 8 = 0 \<longrightarrow> Length_High c + 1 \<noteq> 0"
    using count_bits [OF _ n, of "Length_High c" "Length_Low c"] a by (auto simp: absorbed_def h_def)
  define c1 where "c1 = c\<lparr>Message_Block := blk, Message_Block_Index := Suc (length ?r), Length_Low := Length_Low c + 8, Length_High := h\<rparr>"
  have e: "input_byte b c = Some (if Suc (length ?r) = 64 then SHA1ProcessMessageBlock c1 else c1)"
    using blk(1) h(2) by (auto simp: input_byte_def Let_def h_def c1_def)
  have bl: "blocks_of 64 (p @ [b]) = blocks_of 64 p @ blocks_of 64 (?r @ [b])" by (rule blocks_extend)
  show ?thesis
  proof (cases "length p mod 64 = 63")
    case True
    then have f: "blk = ?r @ [b]" "Suc (length ?r) = 64" using blk r by simp_all
    obtain H where "SHA1ProcessMessageBlock c1 = c1\<lparr>Intermediate_Hash := H, Message_Block_Index := 0\<rparr>" "length H = 5"
        "regs_of H = compress (regs_of (Intermediate_Hash c)) (?r @ [b])" using process_block [of c1] blk(2) f by (auto simp: c1_def)
    moreover have "blocks_of 64 (?r @ [b]) = [?r @ [b]]" using f blocks_of_one [of "?r @ [b]" 64 "[]"] by (simp add: blocks_of_short)
    moreover have "Suc (length p) mod 64 = 0" using True by (simp add: mod_Suc)
    ultimately show ?thesis using a e f blk(2) h bl True by (simp add: absorbed_def c1_def tail_snoc)
  next
    case False
    then have "blocks_of 64 (?r @ [b]) = []" "Suc (length p) mod 64 = Suc (length ?r)" using r by (simp_all add: blocks_of_short mod_Suc)
    then show ?thesis using a e blk h bl r False by (simp add: absorbed_def c1_def tail_snoc)
  qed
qed

lemma SHA1Input_absorbed:
  assumes "absorbed p c" "i + n \<le> length m" "8 * (length p + n) < 2 ^ 64"
  shows "\<exists>c'. SHA1Input m i n c = Some c' \<and> absorbed (p @ take n (drop i m)) c'"
  using assms
proof (induction n arbitrary: i p c)
  case (Suc n)
  obtain c1 where c1: "input_byte (m ! i) c = Some c1" "absorbed (p @ [m ! i]) c1" using input_byte_absorbed [OF Suc(2)] Suc(4) by fastforce
  have "take (Suc n) (drop i m) = m ! i # take n (drop (Suc i) m)" using Suc(3) by (simp add: Cons_nth_drop_Suc [symmetric])
  then show ?case using Suc(1) [OF c1(2), of "Suc i"] Suc(2-) c1(1) by (auto simp: absorbed_def)
qed simp

section \<open>Padding\<close>

lemma zero_to_law:
  assumes "length (Message_Block c) = 64" "Message_Block_Index c = length r" "take (length r) (Message_Block c) = r" "length r \<le> n" "n \<le> 64"
  shows "\<exists>blk. zero_to n c = Some (c\<lparr>Message_Block := blk, Message_Block_Index := n\<rparr>) \<and> length blk = 64 \<and> take n blk = r @ replicate (n - length r) 0"
  using assms
proof (induction "n - length r" arbitrary: c r)
  case 0
  then show ?case by (auto simp: zero_to.simps intro!: exI [of _ "Message_Block c"])
next
  case (Suc k)
  then have "length r < 64" by linarith
  with Suc obtain blk where b: "put_byte 0 c = Some (c\<lparr>Message_Block := blk, Message_Block_Index := Suc (length r)\<rparr>)" "length blk = 64" "take (Suc (length r)) blk = r @ [0]"
    using put_byte_tail [of c r 0] by auto
  let ?c = "c\<lparr>Message_Block := blk, Message_Block_Index := Suc (length r)\<rparr>"
  have diffs: "k = n - Suc (length r)" "Suc (length r) \<le> n" using Suc(2) by linarith+
  obtain blk' where "zero_to n ?c = Some (?c\<lparr>Message_Block := blk', Message_Block_Index := n\<rparr>)" "length blk' = 64"
      "take n blk' = (r @ [0]) @ replicate (n - length (r @ [0])) 0"
    using Suc(1) [of "r @ [0]" ?c] Suc(2-) b diffs by auto
  moreover have "replicate (n - length r) (0 :: 8 word) = 0 # replicate (n - length (r @ [0])) 0"
    using Suc(2) by (metis Suc_diff_Suc length_append_singleton replicate_Suc zero_less_Suc zero_less_diff)
  moreover have "Message_Block_Index c < n" using Suc(4) diffs by simp
  ultimately show ?case using b(1) by (subst zero_to.simps) auto
qed

lemma word_byte: "ucast (drop_bit k w) = (of_nat (unat w div 2 ^ k) :: 8 word)" for w :: "32 word"
proof -
  have "ucast (drop_bit k w) = (of_nat (unat (drop_bit k w)) :: 8 word)" by (rule of_nat_unat [symmetric])
  also have "unat (drop_bit k w) = unat w div 2 ^ k" by (subst unat_drop_bit_eq) (rule drop_bit_eq_div)
  finally show ?thesis .
qed

lemma length_bytes_eq:
  assumes "unat (Length_High c) * 2 ^ 32 + unat (Length_Low c) = n"
  shows "length_bytes c = big_endian 8 n"
proof -
  let ?h = "unat (Length_High c)" and ?l = "unat (Length_Low c)"
  have "?l < 2 ^ LENGTH(32)" by (rule unsigned_less)
  then have l: "?l < 2 ^ 32" by simp
  have hi: "n div 2 ^ (32 + k) = ?h div 2 ^ k" for k
    using l assms [symmetric] by (simp add: power_add div_mult2_eq del: div_mult2_eq')
  have lo: "(of_nat (n div 2 ^ k) :: 8 word) = of_nat (?l div 2 ^ k)" if "k \<le> 24" for k
  proof -
    have "(2 :: nat) ^ (24 - k) * 2 ^ k = 2 ^ 24" using that by (simp flip: power_add)
    then have "(?h * 2 ^ (24 - k) * 256) * 2 ^ k = ?h * 2 ^ 32" by (simp add: mult.assoc) (simp add: mult.commute mult.left_commute)
    then have "n = ?l + (?h * 2 ^ (24 - k) * 256) * 2 ^ k" using assms by linarith
    then have "n div 2 ^ k = ?h * 2 ^ (24 - k) * 256 + ?l div 2 ^ k" by simp
    moreover have w: "(256 :: 8 word) = 0" by simp
    have "of_nat (x * 256) = (0 :: 8 word)" for x by (simp only: of_nat_mult of_nat_numeral w mult_zero_right)
    ultimately show ?thesis by (simp only: of_nat_add add_0)
  qed
  have u: "[0..<8] = [0, 1, 2, 3, 4, 5, 6, 7 :: nat]" by (simp add: upt_rec)
  show ?thesis
    using hi [of 24] hi [of 16] hi [of 8] hi [of 0] lo [of 24] lo [of 16] lo [of 8] lo [of 0] word_byte [of 0]
    by (simp add: length_bytes_def big_endian_def u word_byte)
qed

lemma length_big_endian [simp]: "length (big_endian k n) = k"
  by (simp add: big_endian_def)

text \<open>The padding: what remains of the message is completed to one or two blocks.\<close>

lemma padded_tail: "tail_of p @ drop (length p) (padded p) =
    (if length p mod 64 > 55
     then (tail_of p @ 0x80 # replicate (63 - length p mod 64) 0) @ replicate 56 0 @ big_endian 8 (8 * length p)
     else tail_of p @ 0x80 # replicate (55 - length p mod 64) 0 @ big_endian 8 (8 * length p))"
proof (cases "length p mod 64 > 55")
  case True
  then have e: "(119 - length p mod 64) mod 64 = 63 - length p mod 64 + 56" by (subst mod_less) (use mod_less_divisor [of 64 "length p"] in linarith)+
  have "drop (length p) (padded p) = 0x80 # replicate (63 - length p mod 64) 0 @ replicate 56 0 @ big_endian 8 (8 * length p)"
    by (simp only: padded_def e replicate_add) simp
  then show ?thesis using True by (simp only: if_True append_assoc append_Cons)
next
  case False
  then have "119 - length p mod 64 = 55 - length p mod 64 + 64" by linarith
  then have "(119 - length p mod 64) mod 64 = 55 - length p mod 64" by (simp only: mod_add_self2) simp
  then show ?thesis using False by (simp add: padded_def)
qed

lemma final_block:
  assumes "length (Message_Block c) = 64" "take 56 (Message_Block c) = r" "unat (Length_High c) * 2 ^ 32 + unat (Length_Low c) = n"
  shows "\<exists>c'. SHA1ProcessMessageBlock (c\<lparr>Message_Block := take 56 (Message_Block c) @ length_bytes c @ drop 64 (Message_Block c)\<rparr>) = c' \<and>
    length (Intermediate_Hash c') = 5 \<and> regs_of (Intermediate_Hash c') = compress (regs_of (Intermediate_Hash c)) (r @ big_endian 8 n)"
  using process_block [of "c\<lparr>Message_Block := take 56 (Message_Block c) @ length_bytes c @ drop 64 (Message_Block c)\<rparr>"]
    assms length_bytes_eq [OF assms(3)] by auto

lemma SHA1PadMessage_law:
  assumes a: "absorbed p c"
  shows "\<exists>c'. SHA1PadMessage c = Some c' \<and> length (Intermediate_Hash c') = 5 \<and>
    regs_of (Intermediate_Hash c') = foldl compress sha1_start (blocks_of 64 (padded p))"
proof -
  let ?r = "tail_of p" and ?n = "big_endian 8 (8 * length p)"
  have r: "length ?r = length p mod 64" "length p mod 64 < 64" by (simp_all add: length_tail)
  have "padded p = p @ drop (length p) (padded p)" by (simp add: padded_def)
  then have bl: "blocks_of 64 (padded p) = blocks_of 64 p @ blocks_of 64 (?r @ drop (length p) (padded p))" by (metis blocks_extend)
  obtain blk where blk: "put_byte 0x80 c = Some (c\<lparr>Message_Block := blk, Message_Block_Index := Suc (length ?r)\<rparr>)"
      "length blk = 64" "take (Suc (length ?r)) blk = ?r @ [0x80]"
    using put_byte_tail [of c ?r "0x80"] a r by (auto simp: absorbed_def)
  let ?c = "c\<lparr>Message_Block := blk, Message_Block_Index := Suc (length ?r)\<rparr>"
  note zero = zero_to_law [of ?c "?r @ [0x80]"]
  show ?thesis
  proof (cases "length p mod 64 > 55")
    case False
    let ?b = "?r @ 0x80 # replicate (55 - length p mod 64) 0"
    have "(?r @ [0x80]) @ replicate (56 - length (?r @ [0x80])) 0 = ?b" using r False by simp
    then obtain blk' where z: "zero_to 56 ?c = Some (?c\<lparr>Message_Block := blk', Message_Block_Index := 56\<rparr>)" "length blk' = 64" "take 56 blk' = ?b"
      using zero [of 56] blk r False by auto
    have "blocks_of 64 (?r @ drop (length p) (padded p)) = [?b @ ?n]"
      using blocks_of_one [of "?b @ ?n" 64 "[]"] r False padded_tail [of p] by (simp add: blocks_of_short)
    then show ?thesis
      using final_block [of "?c\<lparr>Message_Block := blk', Message_Block_Index := 56\<rparr>" ?b "8 * length p"] z blk(1) bl a False
      by (auto simp: SHA1PadMessage_def absorbed_def)
  next
    case True
    let ?b = "?r @ 0x80 # replicate (63 - length p mod 64) 0"
    have "(?r @ [0x80]) @ replicate (64 - length (?r @ [0x80])) 0 = ?b" using r True by simp
    then obtain blk' where z: "zero_to 64 ?c = Some (?c\<lparr>Message_Block := blk', Message_Block_Index := 64\<rparr>)" "length blk' = 64" "take 64 blk' = ?b"
      using zero [of 64] blk r True by auto
    let ?c' = "?c\<lparr>Message_Block := blk', Message_Block_Index := 64\<rparr>"
    obtain H where H: "SHA1ProcessMessageBlock ?c' = ?c'\<lparr>Intermediate_Hash := H, Message_Block_Index := 0\<rparr>" "length H = 5"
        "regs_of H = compress (regs_of (Intermediate_Hash c)) ?b" using process_block [of ?c'] z by auto
    obtain blk2 where y: "zero_to 56 (SHA1ProcessMessageBlock ?c') = Some (?c'\<lparr>Intermediate_Hash := H, Message_Block := blk2, Message_Block_Index := 56\<rparr>)"
        "length blk2 = 64" "take 56 blk2 = replicate 56 0"
      using zero_to_law [of "?c'\<lparr>Intermediate_Hash := H, Message_Block_Index := 0\<rparr>" "[]" 56] z H(1) by auto
    have "blocks_of 64 (?r @ drop (length p) (padded p)) = [?b, replicate 56 0 @ ?n]"
      using blocks_of_one [of ?b 64 "replicate 56 0 @ ?n"] blocks_of_one [of "replicate 56 0 @ ?n" 64 "[]"] r True padded_tail [of p]
      by (simp add: blocks_of_short)
    then show ?thesis
      using final_block [of "?c'\<lparr>Intermediate_Hash := H, Message_Block := blk2, Message_Block_Index := 56\<rparr>" "replicate 56 0" "8 * length p"]
        y z blk(1) bl a True H by (auto simp: SHA1PadMessage_def absorbed_def)
  qed
qed


section \<open>The digest\<close>

lemma digest_eq: "map (\<lambda>i. ucast (drop_bit (8 * (3 - (i AND 3))) (H ! drop_bit 2 i))) [0..<20] = digest_of (regs_of H)"
proof -
  have u: "[0..<20] = [0, 1, 2, 3, 4, 5, 6, 7, 8, 9, 10, 11, 12, 13, 14, 15, 16, 17, 18, 19 :: nat]" "[0..<4] = [0, 1, 2, 3 :: nat]"
    by (simp_all add: upt_rec)
  have w: "of_nat (unat h) = (ucast h :: 8 word)" for h :: "32 word" by (rule of_nat_unat)
  show ?thesis unfolding word_byte u(1) by (simp add: regs_of.simps big_endian_def u(2) drop_bit_eq_div w)
qed

text \<open>
  C23.  The digest of a message in pieces of one byte is the digest the standard defines on the message as a whole,
  for every message whose length fits the parameter; no access leaves the block of the context, whatever that held before.
\<close>

theorem sha1_correct:
  assumes "length (Message_Block ctx) = 64" "unat len \<le> length data"
  shows "sha1 ctx data len = Some (sha1_standard (take (unat len) data))"
proof -
  have "unat len < 2 ^ LENGTH(32)" by (rule unsigned_less)
  then have "8 * unat len < 2 ^ 64" by simp
  then obtain c where c: "SHA1Input data 0 (unat len) (SHA1Reset ctx) = Some c" "absorbed (take (unat len) data) c"
    using SHA1Input_absorbed [OF absorbed_reset [OF assms(1)], of 0 "unat len" data] assms(2) by auto
  obtain c' where "SHA1PadMessage c = Some c'" "regs_of (Intermediate_Hash c') = foldl compress sha1_start (blocks_of 64 (padded (take (unat len) data)))"
    using SHA1PadMessage_law [OF c(2)] by blast
  moreover have "\<not> Computed c" using c(2) by (simp add: absorbed_def)
  ultimately show ?thesis using c(1) digest_eq [of "Intermediate_Hash c'"]
    by (simp add: sha1_def SHA1Result_def sha1_standard_def SHA1HashSize_def del: upt_rec_numeral)
qed

section \<open>A test vector\<close>

text \<open>The digest of \<^verbatim>\<open>abc\<close>: the block, its schedule and the registers after every twentieth round.\<close>

definition abc_schedule :: "32 word list" where
  "abc_schedule =
     [0x61626380, 0, 0, 0, 0, 0, 0, 0,
      0, 0, 0, 0, 0, 0, 0, 0x18,
      0xC2C4C700, 0, 0x30, 0x85898E01, 0, 0x60, 0xB131C03, 0x30,
      0x85898EC1, 0x16263806, 0, 0x180, 0x2C4C700C, 0xF0, 0x93AFB507, 0x5898E048,
      0x8E9A9202, 0x600, 0xB131C0F0, 0x16263BC6, 0x4EBED41E, 0x626380A1, 0x16263806, 0x18C0,
      0xD2E138C4, 0xF00, 0x3AFB5079, 0x898E04E5, 0xE2BA3C2B, 0x60C0, 0x53A37CD, 0x74458547,
      0xDA9415ED, 0x26380A16, 0x626383A1, 0x4EBF54DE, 0x3835B44B, 0xF600, 0x1E84C7A3, 0x98E04D98,
      0x651D16A0, 0x62658CA1, 0x458544D6, 0x44584CB7, 0x7BA06619, 0x6380AEA2, 0xAE55269, 0x627B49A1,
      0x7CD45C9D, 0xF0000, 0xFB50753A, 0xEC6765E8, 0xBA3C2BE2, 0x60C000, 0x3A37CD05, 0x458546F4,
      0xB8599DD6, 0x380A1A26, 0x1E02203, 0xE7CC3456, 0xE6E60B69, 0xF60A00, 0x5795EF4F, 0x822E0879]"

lemma abc_padded: "padded [0x61, 0x62, 0x63] = [0x61, 0x62, 0x63, 0x80] @ replicate 59 0 @ [0x18]"
proof -
  have "replicate 59 (0 :: 8 word) = replicate 52 0 @ replicate 7 0" by (simp flip: replicate_add)
  also have "replicate 7 (0 :: 8 word) = [0, 0, 0, 0, 0, 0, 0]" by (simp add: numeral_eq_Suc)
  finally show ?thesis by (simp add: padded_def big_endian_def upt_rec)
qed

lemma abc_words: "further_words (message_words ([0x61, 0x62, 0x63, 0x80] @ replicate 59 0 @ [0x18])) = abc_schedule"
proof -
  have "message_words ([0x61, 0x62, 0x63, 0x80] @ replicate 59 0 @ [0x18]) =
      [0x61626380, 0, 0, 0, 0, 0, 0, 0, 0, 0, 0, 0, 0, 0, 0, 0x18]"
    by (simp add: message_words_def upt_rec nth_append nth_Cons')
  then show ?thesis by (simp add: further_words_def SHA1CircularShift_def upt_rec abc_schedule_def)
qed

lemma abc_rounds1: "rounds (\<lambda>B C D. (B AND C) OR (NOT B AND D)) 0x5A827999 abc_schedule [0..<20] (0x67452301, 0xEFCDAB89, 0x98BADCFE, 0x10325476, 0xC3D2E1F0) = (0xFD9E1D7D, 0xDC64901D, 0x20AA99CA, 0xD3A49608, 0xC82F758B)"
  by (simp add: rounds_def SHA1CircularShift_def upt_rec abc_schedule_def)

lemma abc_rounds2: "rounds (\<lambda>B C D. B XOR C XOR D) 0x6ED9EBA1 abc_schedule [20..<40] (0xFD9E1D7D, 0xDC64901D, 0x20AA99CA, 0xD3A49608, 0xC82F758B) = (0x32DE1CBA, 0x4C986405, 0xF718E5CF, 0x3D447F6, 0xF72EEC32)"
  by (simp add: rounds_def SHA1CircularShift_def upt_rec abc_schedule_def)

lemma abc_rounds3: "rounds (\<lambda>B C D. (B AND C) OR (B AND D) OR (C AND D)) 0x8F1BBCDC abc_schedule [40..<60] (0x32DE1CBA, 0x4C986405, 0xF718E5CF, 0x3D447F6, 0xF72EEC32) = (0x3F52DE5A, 0x9D785FD, 0x3498BFD4, 0xF211824F, 0xD79915AB)"
  by (simp add: rounds_def SHA1CircularShift_def upt_rec abc_schedule_def)

lemma abc_rounds4: "rounds (\<lambda>B C D. B XOR C XOR D) 0xCA62C1D6 abc_schedule [60..<80] (0x3F52DE5A, 0x9D785FD, 0x3498BFD4, 0xF211824F, 0xD79915AB) = (0x42541B35, 0x5738D5E1, 0x21834873, 0x681E6DF6, 0xD8FDF6AD)"
  by (simp add: rounds_def SHA1CircularShift_def upt_rec abc_schedule_def)

lemma standard_abc: "sha1_standard [0x61, 0x62, 0x63] = [0xA9, 0x99, 0x3E, 0x36, 0x47, 0x6, 0x81, 0x6A, 0xBA, 0x3E, 0x25, 0x71, 0x78, 0x50, 0xC2, 0x6C, 0x9C, 0xD0, 0xD8, 0x9D]"
proof -
  let ?b = "[0x61, 0x62, 0x63, 0x80] @ replicate 59 0 @ [0x18] :: 8 word list" and ?H = "[0x67452301, 0xEFCDAB89, 0x98BADCFE, 0x10325476, 0xC3D2E1F0]"
  let ?c = "\<lparr>Intermediate_Hash = ?H, Length_Low = 0, Length_High = 0, Message_Block_Index = 0, Message_Block = ?b, Computed = False, Corrupted = False\<rparr>"
  have r: "sha1_start = regs_of ?H" by (simp add: sha1_start_def regs_of.simps)
  have "Intermediate_Hash (SHA1ProcessMessageBlock ?c) = [0xA9993E36, 0x4706816A, 0xBA3E2571, 0x7850C26C, 0x9CD0D89D]"
    unfolding SHA1ProcessMessageBlock_def Let_def SHA1Context.simps abc_words
    by (simp del: upt_rec_numeral add: abc_rounds1 abc_rounds2 abc_rounds3 abc_rounds4)
  then have "compress sha1_start ?b = (0xA9993E36, 0x4706816A, 0xBA3E2571, 0x7850C26C, 0x9CD0D89D)" using process_block [of ?c] r by (auto simp: regs_of.simps)
  moreover have "blocks_of 64 (padded [0x61, 0x62, 0x63]) = [?b]"
    using blocks_of_one [of ?b 64 "[]"] by (simp add: abc_padded blocks_of_short)
  ultimately show ?thesis by (simp add: sha1_standard_def big_endian_def upt_rec)
qed

theorem sha1_correct_witness:
  "sha1 \<lparr>Intermediate_Hash = [], Length_Low = 1, Length_High = 2, Message_Block_Index = 3, Message_Block = replicate 64 5, Computed = True, Corrupted = True\<rparr>
     [0x61, 0x62, 0x63] 3 = Some [0xA9, 0x99, 0x3E, 0x36, 0x47, 0x6, 0x81, 0x6A, 0xBA, 0x3E, 0x25, 0x71, 0x78, 0x50, 0xC2, 0x6C, 0x9C, 0xD0, 0xD8, 0x9D]"
  by (subst sha1_correct) (simp_all add: standard_abc)

end
