(* ===== verification/Select_Loop.thy ===== *)
theory Select_Loop
  imports Core_Server "HOL-Library.Multiset"
begin

text \<open>
  The event loop on \<^verbatim>\<open>select\<close> (\<^verbatim>\<open>event_wrapper_select.c\<close>, the branch for POSIX): a table of sockets with what is awaited on
  each, in arrays of fixed size from which entries are removed by moving the last one to their place, and the rounds of
  the loop: sets of descriptors, \<^verbatim>\<open>select\<close>, new connections, the calls for the sockets that are ready.
\<close>

section \<open>The table\<close>

definition SELECT_MAX_CONNECTIONS :: nat where "SELECT_MAX_CONNECTIONS = 10000"

definition SELECT_READ :: nat where "SELECT_READ = 1"

definition SELECT_WRITE :: nat where "SELECT_WRITE = 2"

record select_table =
  socklist :: "sock list"
  sockmask :: "nat list"
  socklist_len :: nat
  maxfd_plus_one :: int

definition recalc_maxfd_plus_one :: "sock \<Rightarrow> select_table \<Rightarrow> select_table" where
  "recalc_maxfd_plus_one sockfd t =
     t\<lparr>maxfd_plus_one := foldl (\<lambda>m i. if socklist t ! i \<ge> m then socklist t ! i + 1 else m) (sockfd + 1) [0..<socklist_len t]\<rparr>"

definition select_add :: "sock \<Rightarrow> sock \<Rightarrow> select_table \<Rightarrow> select_table" where
  "select_add sockfd fd t =
     (if socklist_len t \<ge> SELECT_MAX_CONNECTIONS then t
      else recalc_maxfd_plus_one sockfd
        (t\<lparr>socklist := (socklist t)[socklist_len t := fd], sockmask := (sockmask t)[socklist_len t := SELECT_READ], socklist_len := Suc (socklist_len t)\<rparr>))"

text \<open>The place of a socket (the loops that break at the first match), and the removal of an entry.\<close>

definition sock_place :: "sock \<Rightarrow> select_table \<Rightarrow> nat option" where
  "sock_place fd t = find_from (\<lambda>s. s = fd) 0 (take (socklist_len t) (socklist t))"

definition remove_entry :: "nat \<Rightarrow> select_table \<Rightarrow> select_table" where
  "remove_entry i t =
     (let l = socklist_len t - 1 in
      t\<lparr>socklist_len := l, socklist := (socklist t)[i := socklist t ! l], sockmask := (sockmask t)[i := sockmask t ! l]\<rparr>)"

definition select_socket_del_from_event_list :: "sock \<Rightarrow> sock \<Rightarrow> select_table \<Rightarrow> select_table" where
  "select_socket_del_from_event_list sockfd fd t =
     recalc_maxfd_plus_one sockfd (case sock_place fd t of Some i \<Rightarrow> remove_entry i t | None \<Rightarrow> t)"

definition set_select_event_mask :: "sock \<Rightarrow> nat \<Rightarrow> select_table \<Rightarrow> select_table" where
  "set_select_event_mask fd m t = (case sock_place fd t of Some i \<Rightarrow> t\<lparr>sockmask := (sockmask t)[i := m]\<rparr> | None \<Rightarrow> t)"

definition set_read_mask :: "sock \<Rightarrow> select_table \<Rightarrow> select_table" where
  "set_read_mask fd = set_select_event_mask fd SELECT_READ"

definition set_write_mask :: "sock \<Rightarrow> select_table \<Rightarrow> select_table" where
  "set_write_mask fd = set_select_event_mask fd SELECT_WRITE"

definition disable_events_for_socket :: "sock \<Rightarrow> select_table \<Rightarrow> select_table" where
  "disable_events_for_socket fd = set_select_event_mask fd 0"

section \<open>A round of the loop\<close>

text \<open>
  The sets of descriptors for \<^verbatim>\<open>select\<close>: those awaited for reading, for writing, and all.  A set has room for the
  descriptors below \<open>FD_SETSIZE\<close>, a constant of the system; beyond it the program writes behind the set.  Sockets
  that were closed (\<open>alive\<close> is what \<^verbatim>\<open>fcntl\<close> tells) are removed, and the place is looked at once more.
\<close>

type_synonym fd_sets = "sock set \<times> sock set \<times> sock set"

definition fits :: "nat \<Rightarrow> sock \<Rightarrow> bool" where
  "fits setsize fd \<longleftrightarrow> 0 \<le> fd \<and> fd < int setsize"

function fill_sets :: "nat \<Rightarrow> sock \<Rightarrow> (sock \<Rightarrow> bool) \<Rightarrow> nat \<Rightarrow> select_table \<Rightarrow> fd_sets \<Rightarrow> (select_table \<times> fd_sets) option" where
  "fill_sets setsize sockfd alive i t (rfds, wfds, exfds) =
     (if i < socklist_len t then
        let fd = socklist t ! i in
        if \<not> alive fd then fill_sets setsize sockfd alive i (recalc_maxfd_plus_one sockfd (remove_entry i t)) (rfds, wfds, exfds)
        else if fits setsize fd then
          fill_sets setsize sockfd alive (Suc i) t
            (if sockmask t ! i = SELECT_READ then insert fd rfds else rfds,
             if sockmask t ! i \<noteq> SELECT_READ \<and> sockmask t ! i = SELECT_WRITE then insert fd wfds else wfds,
             insert fd exfds)
        else None
      else Some (t, rfds, wfds, exfds))"
  by pat_completeness auto
termination
  by (relation "measure (\<lambda>(_, _, _, i, t, _). socklist_len t - i)") (auto simp: remove_entry_def recalc_maxfd_plus_one_def Let_def)

declare fill_sets.simps [simp del]

text \<open>
  What the call for a socket does to its own entry: nothing, another mask, or (the connection ends) its removal.
  The calls themselves, \<open>call\<close>, act on a state \<open>'s\<close> of the server.
\<close>

datatype sock_event = Exceptional | Readable | Writable

datatype entry_action = Keep_Entry | Set_Mask nat | Remove_Entry

fun act_on_entry :: "sock \<Rightarrow> sock \<Rightarrow> entry_action \<Rightarrow> select_table \<Rightarrow> select_table" where
  "act_on_entry sockfd fd Keep_Entry t = t"
| "act_on_entry sockfd fd (Set_Mask m) t = set_select_event_mask fd m t"
| "act_on_entry sockfd fd Remove_Entry t = select_socket_del_from_event_list sockfd fd t"

lemma act_on_entry_len: "socklist_len (act_on_entry sockfd fd a t) \<le> socklist_len t"
  by (cases a) (auto simp: set_select_event_mask_def select_socket_del_from_event_list_def recalc_maxfd_plus_one_def remove_entry_def Let_def split: option.split)

definition event_on :: "fd_sets \<Rightarrow> sock \<Rightarrow> sock_event option" where
  "event_on ready fd =
     (case ready of (R, W, X) \<Rightarrow> if fd \<in> X then Some Exceptional else if fd \<in> R then Some Readable else if fd \<in> W then Some Writable else None)"

function serve_ready :: "sock \<Rightarrow> (sock_event \<Rightarrow> sock \<Rightarrow> 's \<Rightarrow> entry_action \<times> 's) \<Rightarrow> fd_sets \<Rightarrow> nat \<Rightarrow> select_table \<Rightarrow> 's \<Rightarrow>
    (sock_event \<times> sock) list \<Rightarrow> select_table \<times> 's \<times> (sock_event \<times> sock) list" where
  "serve_ready sockfd call ready i t s log =
     (if i < socklist_len t then
        let fd = socklist t ! i in
        (case event_on ready fd of
           None \<Rightarrow> serve_ready sockfd call ready (Suc i) t s log
         | Some e \<Rightarrow> serve_ready sockfd call ready (Suc i) (act_on_entry sockfd fd (fst (call e fd s)) t) (snd (call e fd s)) (log @ [(e, fd)]))
      else (t, s, log))"
  by pat_completeness auto
termination
proof (relation "measure (\<lambda>(_, _, _, i, t, _). socklist_len t - i)", goal_cases)
  case (3 sockfd call ready i t s log fd e)
  then show ?case using act_on_entry_len [of sockfd fd "fst (call e fd s)" t] by simp
qed simp_all

declare serve_ready.simps [simp del]

text \<open>
  What happens around a round: sockets that are open, those that can be read, written or have an exception, the
  connections that are admitted when the listening socket can be read, and whether \<^verbatim>\<open>select\<close> succeeds.
\<close>

record loop_env =
  le_alive :: "sock \<Rightarrow> bool"
  le_readable :: "sock \<Rightarrow> bool"
  le_writable :: "sock \<Rightarrow> bool"
  le_exceptional :: "sock \<Rightarrow> bool"
  le_admitted :: "sock list"
  le_select_ok :: bool

text \<open>\<^verbatim>\<open>select(nfds, ...)\<close> looks at the descriptors below \<open>nfds\<close> only and leaves those in the sets that are ready.\<close>

definition select_result :: "int \<Rightarrow> loop_env \<Rightarrow> fd_sets \<Rightarrow> fd_sets" where
  "select_result nfds env sets =
     (case sets of (R, W, X) \<Rightarrow>
        (Set.filter (\<lambda>s. s < nfds \<and> le_readable env s) R, Set.filter (\<lambda>s. s < nfds \<and> le_writable env s) W,
         Set.filter (\<lambda>s. s < nfds \<and> le_exceptional env s) X))"

definition select_round :: "nat \<Rightarrow> sock \<Rightarrow> (sock_event \<Rightarrow> sock \<Rightarrow> 's \<Rightarrow> entry_action \<times> 's) \<Rightarrow> loop_env \<Rightarrow> select_table \<Rightarrow> 's \<Rightarrow>
    (select_table \<times> 's \<times> (sock_event \<times> sock) list) option" where
  "select_round setsize sockfd call env t s =
     (if fits setsize sockfd then do {
        (t, sets) \<leftarrow> fill_sets setsize sockfd (le_alive env) 0 t ({sockfd}, {}, {});
        let (R, W, X) = select_result (maxfd_plus_one t) env sets;
        if \<not> le_select_ok env \<or> R \<union> W \<union> X = {} then Some (t, s, [])
        else let t = (if sockfd \<in> R then foldl (\<lambda>t fd. select_add sockfd fd t) t (le_admitted env) else t) in
             Some (serve_ready sockfd call (R, W, X) 0 t s []) }
      else None)"

fun select_rounds :: "nat \<Rightarrow> sock \<Rightarrow> (sock_event \<Rightarrow> sock \<Rightarrow> 's \<Rightarrow> entry_action \<times> 's) \<Rightarrow> loop_env list \<Rightarrow> select_table \<Rightarrow> 's \<Rightarrow>
    (select_table \<times> 's \<times> (sock_event \<times> sock) list list) option" where
  "select_rounds setsize sockfd call [] t s = Some (t, s, [])"
| "select_rounds setsize sockfd call (env # envs) t s =
     do { (t, s, log) \<leftarrow> select_round setsize sockfd call env t s;
          (t, s, logs) \<leftarrow> select_rounds setsize sockfd call envs t s;
          Some (t, s, log # logs) }"


section \<open>The entries of the table\<close>

definition entries :: "select_table \<Rightarrow> (sock \<times> nat) list" where
  "entries t = zip (take (socklist_len t) (socklist t)) (take (socklist_len t) (sockmask t))"

definition table_ok :: "select_table \<Rightarrow> bool" where
  "table_ok t \<longleftrightarrow> length (socklist t) = SELECT_MAX_CONNECTIONS \<and> length (sockmask t) = SELECT_MAX_CONNECTIONS \<and>
     socklist_len t \<le> SELECT_MAX_CONNECTIONS"

definition swap_remove :: "nat \<Rightarrow> 'a list \<Rightarrow> 'a list" where
  "swap_remove i xs = butlast (xs[i := last xs])"

lemma length_swap_remove [simp]: "length (swap_remove i xs) = length xs - 1"
  by (simp add: swap_remove_def)

lemma nth_swap_remove:
  "k < length xs - 1 \<Longrightarrow> swap_remove i xs ! k = (if k = i then last xs else xs ! k)"
  by (auto simp: swap_remove_def nth_butlast nth_list_update)

lemma length_entries [simp]: "table_ok t \<Longrightarrow> length (entries t) = socklist_len t"
  by (simp add: entries_def table_ok_def)

lemma nth_entries: "table_ok t \<Longrightarrow> i < socklist_len t \<Longrightarrow> entries t ! i = (socklist t ! i, sockmask t ! i)"
  by (simp add: entries_def table_ok_def)

lemma recalc_entries [simp]:
  "entries (recalc_maxfd_plus_one sockfd t) = entries t" "table_ok (recalc_maxfd_plus_one sockfd t) = table_ok t"
  "socklist_len (recalc_maxfd_plus_one sockfd t) = socklist_len t" "sock_place fd (recalc_maxfd_plus_one sockfd t) = sock_place fd t"
  by (simp_all add: recalc_maxfd_plus_one_def entries_def table_ok_def sock_place_def)

lemma find_from_fst: "find_from (\<lambda>s. s = fd) k (map fst xs) = find_from (\<lambda>e. fst e = fd) k xs"
  by (induction xs arbitrary: k) auto

lemma sock_place_entries:
  assumes "table_ok t"
  shows "sock_place fd t = find_from (\<lambda>e. fst e = fd) 0 (entries t)"
proof -
  have "map fst (entries t) = take (socklist_len t) (socklist t)" using assms by (simp add: entries_def table_ok_def)
  then show ?thesis using find_from_fst [of fd 0 "entries t"] by (simp add: sock_place_def)
qed

lemma add_entries:
  assumes "table_ok t"
  shows "table_ok (select_add sockfd fd t)"
    "entries (select_add sockfd fd t) = (if length (entries t) < SELECT_MAX_CONNECTIONS then entries t @ [(fd, SELECT_READ)] else entries t)"
  using assms by (auto simp: select_add_def table_ok_def entries_def recalc_maxfd_plus_one_def take_Suc_conv_app_nth)

lemma remove_entries:
  assumes "table_ok t" "i < socklist_len t"
  shows "table_ok (remove_entry i t)" "entries (remove_entry i t) = swap_remove i (entries t)" "socklist_len (remove_entry i t) = socklist_len t - 1"
proof -
  show ok: "table_ok (remove_entry i t)" "socklist_len (remove_entry i t) = socklist_len t - 1"
    using assms by (auto simp: remove_entry_def table_ok_def Let_def)
  have "entries t \<noteq> []" using assms by (metis length_0_conv length_entries not_less_zero)
  then have l: "last (entries t) = (socklist t ! (socklist_len t - 1), sockmask t ! (socklist_len t - 1))"
    using assms by (simp add: last_conv_nth nth_entries)
  show "entries (remove_entry i t) = swap_remove i (entries t)"
  proof (rule nth_equalityI)
    fix k assume "k < length (entries (remove_entry i t))"
    then have k: "k < socklist_len t - 1" using ok by simp
    then have "entries (remove_entry i t) ! k = (socklist (remove_entry i t) ! k, sockmask (remove_entry i t) ! k)"
      using ok by (simp add: nth_entries)
    then show "entries (remove_entry i t) ! k = swap_remove i (entries t) ! k"
      using k assms l by (auto simp: nth_swap_remove nth_entries remove_entry_def Let_def nth_list_update table_ok_def)
  qed (use assms ok in simp)
qed

lemma place_less: "table_ok t \<Longrightarrow> sock_place fd t = Some i \<Longrightarrow> i < socklist_len t \<and> fst (entries t ! i) = fd"
  using find_from_0_SomeD [of "\<lambda>e. fst e = fd" "entries t" i] by (simp add: sock_place_entries)

lemma del_entries:
  assumes "table_ok t"
  shows "table_ok (select_socket_del_from_event_list sockfd fd t)"
    "entries (select_socket_del_from_event_list sockfd fd t) =
       (case find_from (\<lambda>e. fst e = fd) 0 (entries t) of Some i \<Rightarrow> swap_remove i (entries t) | None \<Rightarrow> entries t)"
  using assms place_less [OF assms, of fd]
  by (auto simp: select_socket_del_from_event_list_def remove_entries sock_place_entries split: option.split)

lemma mask_entries:
  assumes "table_ok t"
  shows "table_ok (set_select_event_mask fd m t)"
    "entries (set_select_event_mask fd m t) =
       (case find_from (\<lambda>e. fst e = fd) 0 (entries t) of Some i \<Rightarrow> (entries t)[i := (fd, m)] | None \<Rightarrow> entries t)"
proof -
  show ok: "table_ok (set_select_event_mask fd m t)" using assms by (auto simp: set_select_event_mask_def table_ok_def split: option.split)
  have len: "socklist_len (set_select_event_mask fd m t) = socklist_len t" by (auto simp: set_select_event_mask_def split: option.split)
  show "entries (set_select_event_mask fd m t) =
       (case find_from (\<lambda>e. fst e = fd) 0 (entries t) of Some i \<Rightarrow> (entries t)[i := (fd, m)] | None \<Rightarrow> entries t)"
  proof (cases "sock_place fd t")
    case None
    then show ?thesis using assms by (simp add: set_select_event_mask_def sock_place_entries)
  next
    case (Some i)
    then have i: "i < socklist_len t" "socklist t ! i = fd" using place_less [OF assms Some] assms by (auto simp: nth_entries)
    have "entries (set_select_event_mask fd m t) = (entries t)[i := (fd, m)]"
    proof (rule nth_equalityI)
      fix k assume "k < length (entries (set_select_event_mask fd m t))"
      then show "entries (set_select_event_mask fd m t) ! k = (entries t)[i := (fd, m)] ! k"
        using ok len assms Some i by (auto simp: nth_entries set_select_event_mask_def nth_list_update table_ok_def)
    qed (use ok len assms in simp)
    then show ?thesis using Some assms by (simp add: sock_place_entries)
  qed
qed

section \<open>The table is a map\<close>

text \<open>Removal of an entry, on the multiset of entries.\<close>

lemma mset_swap_remove: "i < length xs \<Longrightarrow> mset (swap_remove i xs) = mset xs - {#xs ! i#}"
proof (cases xs rule: rev_cases)
  case (snoc ys z)
  assume i: "i < length xs"
  show ?thesis
  proof (cases "i = length ys")
    case True
    then show ?thesis using snoc by (simp add: swap_remove_def)
  next
    case False
    then have "i < length ys" using i snoc by simp
    then show ?thesis using snoc by (simp add: swap_remove_def list_update_append mset_update nth_append)
  qed
qed simp

lemma swap_remove_map:
  assumes "distinct (map fst xs)" "i < length xs"
  shows "distinct (map fst (swap_remove i xs))" "map_of (swap_remove i xs) = (map_of xs)(fst (xs ! i) := None)" "set (swap_remove i xs) = set xs - {xs ! i}"
proof -
  have m: "mset (map fst (swap_remove i xs)) = mset (map fst xs) - {#fst (xs ! i)#}"
    using assms(2) by (simp add: mset_swap_remove image_mset_Diff)
  then show d: "distinct (map fst (swap_remove i xs))" using assms(1) by (metis distinct_remove1 mset_eq_imp_distinct_iff mset_remove1)
  show s: "set (swap_remove i xs) = set xs - {xs ! i}"
    using assms mset_swap_remove [OF assms(2)] by (metis distinct_map set_mset_mset mset_remove1 set_remove1_eq)
  show "map_of (swap_remove i xs) = (map_of xs)(fst (xs ! i) := None)"
  proof (rule ext)
    fix k
    have key: "e = xs ! i" if "e \<in> set xs" "fst e = fst (xs ! i)" for e using that assms by (metis distinct_map inj_on_def nth_mem)
    show "map_of (swap_remove i xs) k = ((map_of xs)(fst (xs ! i) := None)) k"
    proof (cases "k = fst (xs ! i)")
      case True
      then have "k \<notin> fst ` set (swap_remove i xs)" using key s by force
      then show ?thesis using True by (simp add: map_of_eq_None_iff)
    next
      case False
      then have "map_of (swap_remove i xs) k = Some v \<longleftrightarrow> map_of xs k = Some v" for v
        unfolding map_of_eq_Some_iff [OF d] map_of_eq_Some_iff [OF assms(1)] s by (auto dest: arg_cong [of _ _ fst])
      then show ?thesis using False by (metis fun_upd_other not_Some_eq)
    qed
  qed
qed

lemma recalc_max:
  assumes "table_ok t"
  shows "maxfd_plus_one (recalc_maxfd_plus_one sockfd t) = Max (insert sockfd (fst ` set (entries t))) + 1"
proof -
  have "foldl (\<lambda>m i. if xs ! i \<ge> m then xs ! i + 1 else m) (a + 1) [0..<n] = Max (insert a (set (take n xs))) + 1" if "n \<le> length xs" for n a and xs :: "int list"
    using that
  proof (induction n)
    case (Suc n)
    have "Max (insert a (set (take (Suc n) xs))) = max (xs ! n) (Max (insert a (set (take n xs))))"
      using Suc(2) Max_insert [of "insert a (set (take n xs))" "xs ! n"] by (simp add: take_Suc_conv_app_nth insert_commute)
    then show ?case using Suc by (auto simp: max_def)
  qed simp
  moreover have "fst ` set (entries t) = set (take (socklist_len t) (socklist t))"
    using assms by (metis entries_def length_take map_fst_zip set_map table_ok_def)
  ultimately show ?thesis using assms by (simp add: recalc_maxfd_plus_one_def table_ok_def)
qed

text \<open>No socket is there twice, and the bound given to \<^verbatim>\<open>select\<close> is above every socket.\<close>

definition select_inv :: "sock \<Rightarrow> select_table \<Rightarrow> bool" where
  "select_inv sockfd t \<longleftrightarrow> table_ok t \<and> distinct (map fst (entries t)) \<and> maxfd_plus_one t = Max (insert sockfd (fst ` set (entries t))) + 1"

definition interest :: "select_table \<Rightarrow> sock \<Rightarrow> nat option" where
  "interest t = map_of (entries t)"

lemma dom_interest: "select_inv sockfd t \<Longrightarrow> card (dom (interest t)) = length (entries t)"
  by (metis card_image distinct_card distinct_map dom_map_of_conv_image_fst interest_def length_map select_inv_def)

lemma add_law:
  assumes "select_inv sockfd t" "interest t fd = None"
  shows "select_inv sockfd (select_add sockfd fd t) \<and> interest (select_add sockfd fd t) =
    (if card (dom (interest t)) < SELECT_MAX_CONNECTIONS then (interest t)(fd \<mapsto> SELECT_READ) else interest t)"
proof (cases "length (entries t) < SELECT_MAX_CONNECTIONS")
  case True
  have ok: "table_ok t" using assms by (simp add: select_inv_def)
  have fd: "fd \<notin> fst ` set (entries t)" using assms(2) by (simp add: interest_def map_of_eq_None_iff)
  obtain u where u: "select_add sockfd fd t = recalc_maxfd_plus_one sockfd u" using True ok by (simp add: select_add_def)
  have "maxfd_plus_one (select_add sockfd fd t) = Max (insert sockfd (fst ` set (entries (select_add sockfd fd t)))) + 1"
    using recalc_max [of u sockfd] add_entries(1) [OF ok, of sockfd fd] unfolding u by simp
  moreover have "map_of (entries t @ [(fd, SELECT_READ)]) = (map_of (entries t))(fd \<mapsto> SELECT_READ)"
    using assms(2) by (auto simp: interest_def map_add_def fun_eq_iff split: option.split)
  ultimately show ?thesis
    using True assms fd dom_interest [OF assms(1)] add_entries [OF ok, of sockfd fd] by (auto simp: select_inv_def interest_def)
next
  case False
  then show ?thesis using assms dom_interest [OF assms(1)] by (auto simp: select_add_def select_inv_def)
qed

lemma del_law:
  assumes "select_inv sockfd t"
  shows "select_inv sockfd (select_socket_del_from_event_list sockfd fd t) \<and>
    interest (select_socket_del_from_event_list sockfd fd t) = (interest t)(fd := None)"
proof -
  let ?d = "select_socket_del_from_event_list sockfd fd t"
  have t: "table_ok t" "distinct (map fst (entries t))" using assms by (simp_all add: select_inv_def)
  have "distinct (map fst (entries ?d)) \<and> map_of (entries ?d) = (map_of (entries t))(fd := None)"
  proof (cases "find_from (\<lambda>e. fst e = fd) 0 (entries t)")
    case None
    then have "entries ?d = entries t" using del_entries(2) [OF t(1), of sockfd fd] by simp
    moreover have "map_of (entries t) fd = None" using None by (auto simp: find_from_None map_of_eq_None_iff)
    ultimately show ?thesis using t(2) by (simp add: fun_upd_idem)
  next
    case (Some i)
    then have "i < length (entries t)" "fst (entries t ! i) = fd" using find_from_0_SomeD [OF Some] by simp_all
    then show ?thesis using swap_remove_map [OF t(2), of i] Some del_entries(2) [OF t(1), of sockfd fd] by simp
  qed
  moreover have "maxfd_plus_one ?d = Max (insert sockfd (fst ` set (entries ?d))) + 1"
    using recalc_max [of "case sock_place fd t of Some i \<Rightarrow> remove_entry i t | None \<Rightarrow> t" sockfd] del_entries(1) [OF t(1), of sockfd fd]
    by (simp add: select_socket_del_from_event_list_def)
  ultimately show ?thesis using del_entries(1) [OF t(1)] by (simp add: select_inv_def interest_def)
qed

lemma map_of_update: "distinct (map fst xs) \<Longrightarrow> i < length xs \<Longrightarrow> fst (xs ! i) = k \<Longrightarrow> map_of (xs[i := (k, v)]) = (map_of xs)(k \<mapsto> v)"
proof (induction xs arbitrary: i)
  case (Cons x xs)
  show ?case
  proof (cases i)
    case (Suc j)
    then have "map_of (xs[j := (k, v)]) = (map_of xs)(k \<mapsto> v)" "fst x \<noteq> k" using Cons by auto
    then show ?thesis using Suc by (auto simp: fun_eq_iff)
  qed (use Cons in \<open>simp add: fun_eq_iff\<close>)
qed simp

lemma mask_law:
  assumes "select_inv sockfd t"
  shows "select_inv sockfd (set_select_event_mask fd m t) \<and>
    interest (set_select_event_mask fd m t) = (if interest t fd = None then interest t else (interest t)(fd \<mapsto> m))"
proof (cases "find_from (\<lambda>e. fst e = fd) 0 (entries t)")
  case None
  then have "set_select_event_mask fd m t = t" using assms by (simp add: set_select_event_mask_def sock_place_entries select_inv_def)
  then show ?thesis using assms None by (auto simp: find_from_None interest_def map_of_eq_None_iff)
next
  case (Some i)
  let ?xs = "entries t" and ?m = "set_select_event_mask fd m t"
  have t: "table_ok t" "distinct (map fst ?xs)" using assms by (simp_all add: select_inv_def)
  have i: "i < length ?xs" "fst (?xs ! i) = fd" using find_from_0_SomeD [OF Some] by simp_all
  have e: "entries ?m = ?xs[i := (fd, m)]" using mask_entries(2) [OF t(1), of fd m] Some by simp
  have f: "map fst (?xs[i := (fd, m)]) = map fst ?xs" using i by (metis fst_conv list_update_id map_update nth_map)
  have "map_of (?xs[i := (fd, m)]) = (map_of ?xs)(fd \<mapsto> m)"
    using t(2) i by (rule map_of_update)
  moreover obtain y where "map_of ?xs fd = Some y" using i by (metis map_of_eq_None_iff imageI not_None_eq nth_mem)
  moreover have "maxfd_plus_one ?m = maxfd_plus_one t" by (auto simp: set_select_event_mask_def split: option.split)
  moreover have "fst ` set (?xs[i := (fd, m)]) = fst ` set ?xs" using f by (metis set_map)
  ultimately show ?thesis using assms mask_entries(1) [OF t(1), of fd m] e f by (simp add: select_inv_def interest_def)
qed


text \<open>
  What the server relies on, whatever the system offers for it: a set of sockets, each with what is awaited on it.
  \<open>capacity\<close> bounds the number of sockets; an addition beyond it has no effect.
\<close>

datatype event_op = Add_Sock sock | Del_Sock sock | Mask_Sock sock nat

fun map_op :: "nat \<Rightarrow> event_op \<Rightarrow> (sock \<Rightarrow> nat option) \<Rightarrow> (sock \<Rightarrow> nat option)" where
  "map_op capacity (Add_Sock fd) M = (if card (dom M) < capacity then M(fd \<mapsto> SELECT_READ) else M)"
| "map_op capacity (Del_Sock fd) M = M(fd := None)"
| "map_op capacity (Mask_Sock fd m) M = (if M fd = None then M else M(fd \<mapsto> m))"

fun op_allowed :: "event_op \<Rightarrow> (sock \<Rightarrow> nat option) \<Rightarrow> bool" where
  "op_allowed (Add_Sock fd) M \<longleftrightarrow> M fd = None"
| "op_allowed _ M \<longleftrightarrow> True"

fun ops_allowed :: "nat \<Rightarrow> event_op list \<Rightarrow> (sock \<Rightarrow> nat option) \<Rightarrow> bool" where
  "ops_allowed capacity [] M \<longleftrightarrow> True"
| "ops_allowed capacity (x # xs) M \<longleftrightarrow> op_allowed x M \<and> ops_allowed capacity xs (map_op capacity x M)"

locale event_set =
  fixes capacity :: nat
    and valid :: "'t \<Rightarrow> bool"
    and awaited :: "'t \<Rightarrow> sock \<Rightarrow> nat option"
    and add :: "sock \<Rightarrow> 't \<Rightarrow> 't"
    and del :: "sock \<Rightarrow> 't \<Rightarrow> 't"
    and set_mask :: "sock \<Rightarrow> nat \<Rightarrow> 't \<Rightarrow> 't"
  assumes add: "valid t \<Longrightarrow> awaited t fd = None \<Longrightarrow> valid (add fd t) \<and> awaited (add fd t) = map_op capacity (Add_Sock fd) (awaited t)"
    and del: "valid t \<Longrightarrow> valid (del fd t) \<and> awaited (del fd t) = map_op capacity (Del_Sock fd) (awaited t)"
    and set_mask: "valid t \<Longrightarrow> valid (set_mask fd m t) \<and> awaited (set_mask fd m t) = map_op capacity (Mask_Sock fd m) (awaited t)"
begin

fun exec :: "event_op \<Rightarrow> 't \<Rightarrow> 't" where
  "exec (Add_Sock fd) t = add fd t"
| "exec (Del_Sock fd) t = del fd t"
| "exec (Mask_Sock fd m) t = set_mask fd m t"

lemma exec_law: "valid t \<Longrightarrow> op_allowed x (awaited t) \<Longrightarrow> valid (exec x t) \<and> awaited (exec x t) = map_op capacity x (awaited t)"
  using add del set_mask by (cases x) auto

lemma exec_all: "valid t \<Longrightarrow> ops_allowed capacity xs (awaited t) \<Longrightarrow>
    valid (fold exec xs t) \<and> awaited (fold exec xs t) = fold (map_op capacity) xs (awaited t)"
  by (induction xs arbitrary: t) (auto simp: exec_law)

end

interpretation sel: event_set SELECT_MAX_CONNECTIONS "select_inv sockfd" interest "select_add sockfd"
    "select_socket_del_from_event_list sockfd" set_select_event_mask
  by unfold_locales (auto simp: add_law del_law mask_law)

definition select_exec :: "sock \<Rightarrow> event_op \<Rightarrow> select_table \<Rightarrow> select_table" where
  "select_exec sockfd x =
     (case x of Add_Sock fd \<Rightarrow> select_add sockfd fd | Del_Sock fd \<Rightarrow> select_socket_del_from_event_list sockfd fd
      | Mask_Sock fd m \<Rightarrow> set_select_event_mask fd m)"

lemma select_exec_eq: "select_exec sockfd = sel.exec sockfd"
  by (auto simp: fun_eq_iff select_exec_def split: event_op.split)

text \<open>
  C29.  The table of the loop is a map from sockets to what is awaited on them: after any sequence of additions (of new
  sockets), removals and changes of masks it holds what the map does, every socket once, and the bound that is given to
  \<^verbatim>\<open>select\<close> is above all of them.  A socket beyond the capacity is left out.
\<close>

theorem select_table_refines_map:
  assumes "select_inv sockfd t" "ops_allowed SELECT_MAX_CONNECTIONS ops (interest t)"
  shows "select_inv sockfd (fold (select_exec sockfd) ops t) \<and>
    interest (fold (select_exec sockfd) ops t) = fold (map_op SELECT_MAX_CONNECTIONS) ops (interest t) \<and>
    (\<forall>fd \<in> dom (interest (fold (select_exec sockfd) ops t)). fd < maxfd_plus_one (fold (select_exec sockfd) ops t))"
proof -
  let ?t = "fold (select_exec sockfd) ops t"
  have r: "select_inv sockfd ?t" "interest ?t = fold (map_op SELECT_MAX_CONNECTIONS) ops (interest t)"
    using sel.exec_all [OF assms] unfolding select_exec_eq by simp_all
  have "fd < maxfd_plus_one ?t" if "fd \<in> dom (interest ?t)" for fd
  proof -
    have "fd \<in> fst ` set (entries ?t)" using that by (simp add: interest_def dom_map_of_conv_image_fst)
    then have "fd \<le> Max (insert sockfd (fst ` set (entries ?t)))" by simp
    then show ?thesis using r(1) by (simp add: select_inv_def)
  qed
  then show ?thesis using r by blast
qed

definition empty_table :: select_table where
  "empty_table = \<lparr>socklist = replicate 10000 0, sockmask = replicate 10000 0, socklist_len = 0, maxfd_plus_one = 4\<rparr>"

lemma empty_table_inv: "select_inv 3 empty_table" "interest empty_table = Map.empty"
  by (simp_all add: select_inv_def table_ok_def entries_def empty_table_def SELECT_MAX_CONNECTIONS_def interest_def)

theorem select_table_refines_map_witness:
  "interest (fold (select_exec 3) [Add_Sock 5, Add_Sock 7, Mask_Sock 7 SELECT_WRITE, Del_Sock 5] empty_table) = [7 \<mapsto> 2]"
  using select_table_refines_map [of 3 empty_table "[Add_Sock 5, Add_Sock 7, Mask_Sock 7 SELECT_WRITE, Del_Sock 5]"]
  by (simp add: empty_table_inv SELECT_MAX_CONNECTIONS_def SELECT_WRITE_def fun_eq_iff)


section \<open>No socket waits for ever\<close>

text \<open>A socket has one entry, with the mask \<open>m\<close> at the place \<open>p\<close>.\<close>

definition seen :: "sock \<Rightarrow> nat \<Rightarrow> (sock \<times> nat) list \<Rightarrow> nat \<Rightarrow> bool" where
  "seen s m xs p \<longleftrightarrow> p < length xs \<and> xs ! p = (s, m) \<and> (\<forall>q < length xs. q \<noteq> p \<longrightarrow> fst (xs ! q) \<noteq> s)"

text \<open>Removal of another entry leaves a socket at its place, or moves it forward to that of the removed one.\<close>

lemma seen_swap:
  assumes "seen s m xs p" "i < length xs" "i \<noteq> p"
  shows "\<exists>p' \<le> p. (p' = p \<or> p' = i) \<and> seen s m (swap_remove i xs) p'"
proof -
  have "xs \<noteq> []" using assms(2) by auto
  then have xs: "last xs = xs ! (length xs - 1)" "p < length xs" "xs ! p = (s, m)" "\<And>q. q < length xs \<Longrightarrow> fst (xs ! q) = s \<Longrightarrow> q = p"
    using assms(1) unfolding seen_def by (blast intro: last_conv_nth)+
  show ?thesis
  proof (cases "p = length xs - 1")
    case True
    then have "i < length xs - 1" "i \<le> p" using assms(2,3) by simp_all
    moreover have "seen s m (swap_remove i xs) i" unfolding seen_def
    proof (intro conjI allI impI)
      fix q assume q: "q < length (swap_remove i xs)" "q \<noteq> i"
      then have "fst (xs ! q) \<noteq> s" using xs(4) [of q] True by force
      then show "fst (swap_remove i xs ! q) \<noteq> s" using q by (simp add: nth_swap_remove)
    qed (use calculation True xs(1-3) in \<open>simp_all add: nth_swap_remove\<close>)
    ultimately show ?thesis by blast
  next
    case False
    then have "p < length xs - 1" using xs(2) by simp
    moreover have "seen s m (swap_remove i xs) p" unfolding seen_def
    proof (intro conjI allI impI)
      fix q assume q: "q < length (swap_remove i xs)" "q \<noteq> p"
      have "fst (xs ! (length xs - 1)) \<noteq> s" using xs(2) xs(4) [of "length xs - 1"] False by force
      moreover have "fst (xs ! q) \<noteq> s" using q xs(4) [of q] by force
      ultimately show "fst (swap_remove i xs ! q) \<noteq> s" using q xs(1) by (simp add: nth_swap_remove)
    qed (use calculation assms(3) xs(1-3) in \<open>simp_all add: nth_swap_remove\<close>)
    ultimately show ?thesis by blast
  qed
qed

lemma seen_snoc: "seen s m xs p \<Longrightarrow> fd \<noteq> s \<Longrightarrow> seen s m (xs @ [(fd, k)]) p"
  by (auto simp: seen_def nth_append less_Suc_eq)

lemma seen_update:
  assumes "seen s m xs p" "fst (xs ! i) = fd" "fd \<noteq> s"
  shows "seen s m (xs[i := (fd, k)]) p"
proof -
  have "i \<noteq> p" using assms by (auto simp: seen_def)
  moreover have "fst (xs[i := (fd, k)] ! q) \<noteq> s" if "q < length xs" "q \<noteq> p" for q
    using that assms by (cases "q = i") (auto simp: seen_def)
  ultimately show ?thesis using assms(1) by (simp add: seen_def)
qed

lemma set_swap_remove: "i < length xs \<Longrightarrow> set (swap_remove i xs) \<subseteq> set xs"
  by (metis in_diffD mset_swap_remove set_mset_mset subsetI)

lemma act_on_entry_law:
  assumes "table_ok t"
  shows "table_ok (act_on_entry sockfd fd a t)" "fst ` set (entries (act_on_entry sockfd fd a t)) \<subseteq> fst ` set (entries t)"
    "seen s m (entries t) p \<Longrightarrow> fd \<noteq> s \<Longrightarrow> \<exists>p' \<le> p. seen s m (entries (act_on_entry sockfd fd a t)) p'"
proof -
  have r: "i < length (entries t)" "fst (entries t ! i) = fd" if "find_from (\<lambda>e. fst e = fd) 0 (entries t) = Some i" for i
    using find_from_0_SomeD [OF that] by simp_all
  show "table_ok (act_on_entry sockfd fd a t)" using assms by (cases a) (simp_all add: mask_entries del_entries)
  show "fst ` set (entries (act_on_entry sockfd fd a t)) \<subseteq> fst ` set (entries t)"
  proof (cases "find_from (\<lambda>e. fst e = fd) 0 (entries t)")
    case None
    then show ?thesis using assms by (cases a) (simp_all add: mask_entries del_entries)
  next
    case (Some i)
    have "map fst ((entries t)[i := (fd, k)]) = map fst (entries t)" for k
      using r [OF Some] by (metis fst_conv list_update_id map_update nth_map)
    then have "fst ` set ((entries t)[i := (fd, k)]) = fst ` set (entries t)" for k by (metis set_map)
    then show ?thesis using Some assms set_swap_remove [OF r(1) [OF Some]] by (cases a) (auto simp: mask_entries del_entries)
  qed
  show "\<exists>p' \<le> p. seen s m (entries (act_on_entry sockfd fd a t)) p'" if s: "seen s m (entries t) p" "fd \<noteq> s"
  proof (cases "find_from (\<lambda>e. fst e = fd) 0 (entries t)")
    case None
    then show ?thesis using assms s by (cases a) (auto simp: mask_entries del_entries)
  next
    case (Some i)
    have "i \<noteq> p" using r [OF Some] s by (auto simp: seen_def)
    then have "\<exists>p' \<le> p. seen s m (swap_remove i (entries t)) p'" using seen_swap [OF s(1) r(1) [OF Some]] by blast
    moreover have "seen s m ((entries t)[i := (fd, k)]) p" for k by (rule seen_update [OF s(1) r(2) [OF Some] s(2)])
    ultimately show ?thesis using Some assms s(1) by (cases a) (auto simp: mask_entries del_entries)
  qed
qed

text \<open>In which set a socket is put for its mask.\<close>

definition in_set :: "nat \<Rightarrow> sock \<Rightarrow> sock set \<Rightarrow> sock set \<Rightarrow> bool" where
  "in_set m s R W \<longleftrightarrow> (m = SELECT_READ \<longrightarrow> s \<in> R) \<and> (m = SELECT_WRITE \<longrightarrow> s \<in> W)"

text \<open>The sets hold the sockets that are awaited; closed sockets are gone.\<close>

lemma fill_sets_law:
  assumes "table_ok t" "\<forall>fd \<in> fst ` set (entries t). fits n fd"
  shows "\<exists>t' R W X. fill_sets n sockfd alive i t (rfds, wfds, exfds) = Some (t', R, W, X) \<and> table_ok t' \<and>
    set (entries t') \<subseteq> set (entries t) \<and> rfds \<subseteq> R \<and> wfds \<subseteq> W \<and>
    (\<forall>p. seen s m (entries t) p \<and> alive s \<longrightarrow> (\<exists>p' \<le> p. seen s m (entries t') p' \<and> (i \<le> p \<longrightarrow> in_set m s R W)))"
  using assms
proof (induction n sockfd alive i t "(rfds, wfds, exfds)" arbitrary: rfds wfds exfds rule: fill_sets.induct)
  case (1 n sockfd alive i t rfds wfds exfds)
  let ?fd = "socklist t ! i"
  consider (out) "\<not> i < socklist_len t" | (dead) "i < socklist_len t" "\<not> alive ?fd" | (alive) "i < socklist_len t" "alive ?fd" by blast
  then show ?case
  proof cases
    case out
    have "\<not> i \<le> p" if "seen s m (entries t) p" for p using that out 1(3) by (simp add: seen_def)
    then show ?thesis using out 1(3) by (subst fill_sets.simps) auto
  next
    case dead
    let ?t = "recalc_maxfd_plus_one sockfd (remove_entry i t)"
    have e: "entries ?t = swap_remove i (entries t)" "table_ok ?t" using remove_entries [OF 1(3) dead(1)] by simp_all
    have sub: "set (entries ?t) \<subseteq> set (entries t)" using e(1) set_swap_remove [of i "entries t"] dead(1) 1(3) by simp
    then have "\<forall>fd \<in> fst ` set (entries ?t). fits n fd" using 1(4) by blast
    from 1(1) [OF dead(1) refl dead(2) e(2) this] obtain t' R W X where
      r: "fill_sets n sockfd alive i ?t (rfds, wfds, exfds) = Some (t', R, W, X)" "table_ok t'" "set (entries t') \<subseteq> set (entries ?t)" "rfds \<subseteq> R" "wfds \<subseteq> W"
        "\<And>p. seen s m (entries ?t) p \<Longrightarrow> alive s \<Longrightarrow> \<exists>p' \<le> p. seen s m (entries t') p' \<and> (i \<le> p \<longrightarrow> in_set m s R W)" by blast
    have "\<exists>p' \<le> p. seen s m (entries t') p' \<and> (i \<le> p \<longrightarrow> in_set m s R W)" if p: "seen s m (entries t) p" "alive s" for p
    proof -
      have "fst (entries t ! i) \<noteq> s" using dead p(2) 1(3) by (auto simp: nth_entries)
      then have "i \<noteq> p" using p(1) by (auto simp: seen_def)
      then obtain p1 where "p1 \<le> p" "p1 = p \<or> p1 = i" "seen s m (entries ?t) p1"
        using seen_swap [OF p(1), of i] dead(1) 1(3) e(1) by auto
      then show ?thesis using r(6) [of p1] p(2) by (metis le_trans order_refl)
    qed
    then show ?thesis using r dead sub by (subst fill_sets.simps) auto
  next
    case alive
    let ?r = "if sockmask t ! i = SELECT_READ then insert ?fd rfds else rfds"
    let ?w = "if sockmask t ! i \<noteq> SELECT_READ \<and> sockmask t ! i = SELECT_WRITE then insert ?fd wfds else wfds"
    have f: "fits n ?fd" using 1(3,4) alive(1) by (metis fst_conv image_eqI length_entries nth_entries nth_mem)
    from 1(2) [OF alive(1) refl _ f 1(3,4)] alive(2) obtain t' R W X where
      r: "fill_sets n sockfd alive (Suc i) t (?r, ?w, insert ?fd exfds) =
          Some (t', R, W, X)" "table_ok t'" "set (entries t') \<subseteq> set (entries t)" "?r \<subseteq> R" "?w \<subseteq> W"
        "\<And>p. seen s m (entries t) p \<Longrightarrow> alive s \<Longrightarrow> \<exists>p' \<le> p. seen s m (entries t') p' \<and> (Suc i \<le> p \<longrightarrow> in_set m s R W)" by blast
    have "in_set m s R W" if "seen s m (entries t) i"
      using that r(4,5) 1(3) alive(1) by (auto simp: in_set_def seen_def nth_entries SELECT_READ_def SELECT_WRITE_def)
    then have "\<exists>p' \<le> p. seen s m (entries t') p' \<and> (i \<le> p \<longrightarrow> in_set m s R W)" if "seen s m (entries t) p" "alive s" for p
      using r(6) [OF that] that(1) by (metis not_less_eq_eq order_antisym)
    moreover have "rfds \<subseteq> R" "wfds \<subseteq> W" using r(4,5) by (auto split: if_splits)
    ultimately show ?thesis using r(1-3) alive f by (subst fill_sets.simps) (simp add: Let_def)
  qed
qed


lemma serve_out: "\<not> i < socklist_len t \<Longrightarrow> serve_ready sockfd call ready i t st log = (t, st, log)"
  by (subst serve_ready.simps) simp

lemma serve_idle:
  "i < socklist_len t \<Longrightarrow> event_on ready (socklist t ! i) = None \<Longrightarrow>
   serve_ready sockfd call ready i t st log = serve_ready sockfd call ready (Suc i) t st log"
  by (subst serve_ready.simps) (simp add: Let_def)

lemma serve_call:
  "i < socklist_len t \<Longrightarrow> event_on ready (socklist t ! i) = Some e \<Longrightarrow>
   serve_ready sockfd call ready i t st log =
     serve_ready sockfd call ready (Suc i) (act_on_entry sockfd (socklist t ! i) (fst (call e (socklist t ! i) st)) t) (snd (call e (socklist t ! i) st))
       (log @ [(e, socklist t ! i)])"
  by (subst serve_ready.simps) (simp add: Let_def)

lemma serve_ready_log: "set log \<subseteq> set (snd (snd (serve_ready sockfd call ready i t st log)))"
proof (induction sockfd call ready i t st log rule: serve_ready.induct)
  case (1 sockfd call ready i t st log)
  then show ?case by (subst serve_ready.simps) (auto simp: Let_def split: option.split)
qed

lemma serve_ready_ok:
  assumes "table_ok t"
  shows "table_ok (fst (serve_ready sockfd call ready i t st log)) \<and>
    fst ` set (entries (fst (serve_ready sockfd call ready i t st log))) \<subseteq> fst ` set (entries t)"
  using assms
proof (induction sockfd call ready i t st log rule: serve_ready.induct)
  case (1 sockfd call ready i t st log)
  show ?case
  proof (cases "i < socklist_len t")
    case True
    show ?thesis
    proof (cases "event_on ready (socklist t ! i)")
      case None
      show ?thesis using 1(1) [OF True refl None 1(3)] unfolding serve_idle [OF True None] .
    next
      case (Some e)
      show ?thesis
        using 1(2) [OF True refl Some act_on_entry_law(1) [OF 1(3)]] act_on_entry_law(2) [OF 1(3)] unfolding serve_call [OF True Some] by blast
    qed
  qed (use 1(3) in \<open>simp add: serve_out\<close>)
qed

text \<open>A socket that is ready is served, or it comes nearer to the beginning of the table.\<close>

lemma serve_ready_seen:
  assumes "table_ok t" "seen s m (entries t) p"
  shows "s \<in> snd ` set (snd (snd (serve_ready sockfd call ready i t st log))) \<or>
    (\<exists>p' \<le> p. seen s m (entries (fst (serve_ready sockfd call ready i t st log))) p' \<and> (i \<le> p \<and> event_on ready s \<noteq> None \<longrightarrow> p' < p))"
  using assms
proof (induction sockfd call ready i t st log arbitrary: p rule: serve_ready.induct)
  case (1 sockfd call ready i t st log p)
  let ?fd = "socklist t ! i"
  have p: "p < socklist_len t" "entries t ! p = (s, m)" using 1(3,4) by (auto simp: seen_def)
  consider (out) "\<not> i < socklist_len t" | (idle) "i < socklist_len t" "event_on ready ?fd = None" | (call) e where "i < socklist_len t" "event_on ready ?fd = Some e"
    by fastforce
  then show ?case
  proof cases
    case out
    then show ?thesis using 1(4) p by (auto simp: serve_out)
  next
    case idle
    have "i = p \<Longrightarrow> ?fd = s" using p 1(3) by (auto simp: nth_entries)
    then have "i \<le> p \<and> event_on ready s \<noteq> None \<Longrightarrow> Suc i \<le> p" using idle(2) by (metis Suc_leI le_neq_implies_less)
    then show ?thesis using 1(1) [OF idle(1) refl idle(2) 1(3,4)] unfolding serve_idle [OF idle] by blast
  next
    case (call e)
    let ?t = "act_on_entry sockfd ?fd (fst (call e ?fd st)) t" and ?s = "snd (call e ?fd st)"
    have eq: "serve_ready sockfd call ready i t st log = serve_ready sockfd call ready (Suc i) ?t ?s (log @ [(e, ?fd)])"
      by (rule serve_call [OF call])
    show ?thesis
    proof (cases "?fd = s")
      case True
      then have "(e, s) \<in> set (snd (snd (serve_ready sockfd call ready i t st log)))" unfolding eq
        using serve_ready_log [of "log @ [(e, ?fd)]" sockfd call ready "Suc i" ?t ?s] by auto
      then show ?thesis by force
    next
      case False
      then have "i \<noteq> p" using p 1(3) by (auto simp: nth_entries)
      obtain p1 where p1: "p1 \<le> p" "seen s m (entries ?t) p1" using act_on_entry_law(3) [OF 1(3,4) False] by blast
      have "q \<le> p \<and> (i \<le> p \<and> ev \<longrightarrow> q < p)" if "q \<le> p1" "Suc i \<le> p1 \<and> ev \<longrightarrow> q < p1" for q ev
        using that p1(1) \<open>i \<noteq> p\<close> by (cases "p1 = p") auto
      then show ?thesis using 1(2) [OF call(1) refl call(2) act_on_entry_law(1) [OF 1(3)] p1(2)] unfolding eq by blast
    qed
  qed
qed

lemma admit_law:
  assumes "table_ok t"
  shows "table_ok (foldl (\<lambda>t fd. select_add sockfd fd t) t fds) \<and>
    fst ` set (entries (foldl (\<lambda>t fd. select_add sockfd fd t) t fds)) \<subseteq> fst ` set (entries t) \<union> set fds \<and>
    (\<forall>p. seen s m (entries t) p \<and> s \<notin> set fds \<longrightarrow> seen s m (entries (foldl (\<lambda>t fd. select_add sockfd fd t) t fds)) p)"
  using assms
proof (induction fds arbitrary: t)
  case (Cons fd fds)
  have "fst ` set (entries (select_add sockfd fd t)) \<subseteq> fst ` set (entries t) \<union> {fd}"
    "seen s m (entries t) p \<Longrightarrow> s \<noteq> fd \<Longrightarrow> seen s m (entries (select_add sockfd fd t)) p" for p
    using add_entries(2) [OF Cons(2), of sockfd fd] seen_snoc by auto
  then show ?case using Cons(1) [OF add_entries(1) [OF Cons(2)], of sockfd fd] by (auto 4 4)
qed simp


text \<open>The bound given to \<^verbatim>\<open>select\<close> stays above every socket in the table, so that none is left out.\<close>

definition bounded :: "sock \<Rightarrow> select_table \<Rightarrow> bool" where
  "bounded sockfd t \<longleftrightarrow> (\<forall>fd \<in> insert sockfd (fst ` set (entries t)). fd < maxfd_plus_one t)"

lemma bounded_recalc: "table_ok t \<Longrightarrow> bounded sockfd (recalc_maxfd_plus_one sockfd t)"
proof -
  assume ok: "table_ok t"
  have "fd \<le> Max (insert sockfd (fst ` set (entries t)))" if "fd \<in> insert sockfd (fst ` set (entries t))" for fd
    using that by (intro Max_ge) auto
  then show ?thesis unfolding bounded_def recalc_entries recalc_max [OF ok] by force
qed

lemma select_inv_bounded: "select_inv sockfd t \<Longrightarrow> bounded sockfd t"
proof -
  assume "select_inv sockfd t"
  then have "fd < maxfd_plus_one t" if "fd \<in> insert sockfd (fst ` set (entries t))" for fd
    using that Max_ge [of "insert sockfd (fst ` set (entries t))" fd] by (auto simp: select_inv_def)
  then show ?thesis by (simp add: bounded_def)
qed

lemma bounded_add:
  assumes "table_ok t" "bounded sockfd t"
  shows "bounded sockfd (select_add sockfd fd t)"
proof (cases "socklist_len t \<ge> SELECT_MAX_CONNECTIONS")
  case False
  let ?t = "t\<lparr>socklist := (socklist t)[socklist_len t := fd], sockmask := (sockmask t)[socklist_len t := SELECT_READ], socklist_len := Suc (socklist_len t)\<rparr>"
  have "table_ok ?t" using assms(1) False by (simp add: table_ok_def)
  from bounded_recalc [OF this, of sockfd] show ?thesis using False by (simp add: select_add_def)
qed (use assms in \<open>simp add: select_add_def\<close>)

lemma bounded_admit:
  "table_ok t \<Longrightarrow> bounded sockfd t \<Longrightarrow> bounded sockfd (foldl (\<lambda>t fd. select_add sockfd fd t) t fds)"
  by (induction fds arbitrary: t) (simp_all add: bounded_add add_entries)

lemma bounded_act:
  assumes "table_ok t" "bounded sockfd t"
  shows "bounded sockfd (act_on_entry sockfd fd a t)"
proof (cases a)
  case (Set_Mask m)
  have mx: "maxfd_plus_one (set_select_event_mask fd m t) = maxfd_plus_one t" by (simp add: set_select_event_mask_def split: option.split)
  have "fst ` set (entries (set_select_event_mask fd m t)) \<subseteq> fst ` set (entries t)"
    using act_on_entry_law(2) [OF assms(1), of sockfd fd a] Set_Mask by simp
  then have "bounded sockfd (set_select_event_mask fd m t)" using assms(2) unfolding bounded_def mx by blast
  then show ?thesis using Set_Mask by simp
next
  case Remove_Entry
  have "table_ok (case sock_place fd t of Some i \<Rightarrow> remove_entry i t | None \<Rightarrow> t)"
    using assms(1) remove_entries(1) place_less by (auto split: option.split)
  then show ?thesis using Remove_Entry by (simp add: select_socket_del_from_event_list_def bounded_recalc)
qed (use assms in simp)

lemma bounded_fill:
  "fill_sets n sockfd alive i t sets = Some (t', sets') \<Longrightarrow> table_ok t \<Longrightarrow> bounded sockfd t \<Longrightarrow> bounded sockfd t'"
proof (induction n sockfd alive i t sets rule: fill_sets.induct)
  case (1 n sockfd alive i t rfds wfds exfds)
  note step = 1(3) [unfolded fill_sets.simps [of n sockfd alive i t rfds wfds exfds]]
  show ?case
  proof (cases "i < socklist_len t \<and> \<not> alive (socklist t ! i)")
    case True
    then have i: "i < socklist_len t" "\<not> alive (socklist t ! i)" by simp_all
    have ok: "table_ok (remove_entry i t)" by (rule remove_entries(1) [OF 1(4) i(1)])
    show ?thesis using 1(1) [OF i(1) refl i(2)] step i ok bounded_recalc [OF ok] by simp
  next
    case False
    then show ?thesis using step 1(2,4,5) by (auto simp: Let_def split: if_splits)
  qed
qed

lemma bounded_serve:
  "table_ok t \<Longrightarrow> bounded sockfd t \<Longrightarrow> bounded sockfd (fst (serve_ready sockfd call ready i t st log))"
proof (induction sockfd call ready i t st log rule: serve_ready.induct)
  case (1 sockfd call ready i t st log)
  show ?case
  proof (cases "i < socklist_len t")
    case True
    show ?thesis
    proof (cases "event_on ready (socklist t ! i)")
      case None
      show ?thesis using 1(1) [OF True refl None 1(3,4)] unfolding serve_idle [OF True None] .
    next
      case (Some e)
      show ?thesis using 1(2) [OF True refl Some act_on_entry_law(1) [OF 1(3)] bounded_act [OF 1(3,4)]] unfolding serve_call [OF True Some] .
    qed
  qed (use 1(4) in \<open>simp add: serve_out\<close>)
qed

text \<open>The descriptors of the table, and those that are admitted, have room in a set.\<close>

definition all_fit :: "nat \<Rightarrow> select_table \<Rightarrow> bool" where
  "all_fit n t \<longleftrightarrow> (\<forall>fd \<in> fst ` set (entries t). fits n fd)"

definition env_fits :: "nat \<Rightarrow> loop_env \<Rightarrow> bool" where
  "env_fits n env \<longleftrightarrow> (\<forall>fd \<in> set (le_admitted env). fits n fd)"

text \<open>
  In this round \<open>s\<close> is open and ready for what is awaited on it, \<^verbatim>\<open>select\<close> succeeds, and no new connection has the
  descriptor \<open>s\<close>.
\<close>

definition awaits_service :: "nat \<Rightarrow> sock \<Rightarrow> loop_env \<Rightarrow> bool" where
  "awaits_service m s env \<longleftrightarrow> le_alive env s \<and> (if m = SELECT_READ then le_readable env s else m = SELECT_WRITE \<and> le_writable env s) \<and>
     le_select_ok env \<and> s \<notin> set (le_admitted env)"

lemma select_round_law:
  assumes "fits n sockfd" "table_ok t" "all_fit n t" "env_fits n env" "bounded sockfd t"
  shows "\<exists>t' st' log. select_round n sockfd call env t st = Some (t', st', log) \<and> table_ok t' \<and> all_fit n t' \<and> bounded sockfd t' \<and>
    (\<forall>p. seen s m (entries t) p \<and> awaits_service m s env \<longrightarrow>
       s \<in> snd ` set log \<or> (\<exists>p' < p. seen s m (entries t') p'))"
proof -
  obtain t1 R W X where f: "fill_sets n sockfd (le_alive env) 0 t ({sockfd}, {}, {}) = Some (t1, R, W, X)" "table_ok t1"
      "set (entries t1) \<subseteq> set (entries t)"
      "\<And>p. seen s m (entries t) p \<Longrightarrow> le_alive env s \<Longrightarrow> (\<exists>p' \<le> p. seen s m (entries t1) p' \<and> in_set m s R W)"
    using fill_sets_law [OF assms(2), of n sockfd "le_alive env" 0 "{sockfd}" "{}" "{}" s m] assms(3) unfolding all_fit_def by auto
  have bd1: "bounded sockfd t1" by (rule bounded_fill [OF f(1) assms(2,5)])
  have fit1: "all_fit n t1" using assms(3) f(3) by (auto simp: all_fit_def)
  define ready where "ready = select_result (maxfd_plus_one t1) env (R, W, X)"
  define none where "none \<longleftrightarrow> \<not> le_select_ok env \<or> fst ready \<union> fst (snd ready) \<union> snd (snd ready) = {}"
  define t2 where "t2 = (if sockfd \<in> fst ready then foldl (\<lambda>t fd. select_add sockfd fd t) t1 (le_admitted env) else t1)"
  have r: "select_round n sockfd call env t st = Some (if none then (t1, st, []) else serve_ready sockfd call ready 0 t2 st [])"
    using assms(1) f(1) by (auto simp: select_round_def select_result_def Let_def ready_def none_def t2_def)
  have on: "event_on ready s \<noteq> None \<and> (le_select_ok env \<longrightarrow> \<not> none)"
    if "seen s m (entries t1) p'" "in_set m s R W" "awaits_service m s env" for p'
  proof -
    have "s \<in> fst ` set (entries t1)" using that(1) by (metis fst_conv image_eqI nth_mem seen_def)
    then have "s < maxfd_plus_one t1" using bd1 unfolding bounded_def by blast
    then show ?thesis using that(2,3)
      by (auto simp: ready_def none_def select_result_def event_on_def awaits_service_def in_set_def split: if_splits)
  qed
  have t2: "table_ok t2" "all_fit n t2" "\<And>p. seen s m (entries t1) p \<Longrightarrow> s \<notin> set (le_admitted env) \<Longrightarrow> seen s m (entries t2) p"
    using admit_law [OF f(2), of sockfd "le_admitted env" s m] f(2) fit1 assms(4) unfolding t2_def all_fit_def env_fits_def by (auto 4 3)
  have bd2: "bounded sockfd t2" using bounded_admit [OF f(2) bd1] bd1 by (simp add: t2_def)
  show ?thesis
  proof (cases none)
    case True
    have "\<not> awaits_service m s env" if "seen s m (entries t) p" for p
      using True f(4) [OF that] on unfolding awaits_service_def by blast
    then show ?thesis using r True f(2) fit1 bd1 by auto
  next
    case False
    let ?v = "serve_ready sockfd call ready 0 t2 st []"
    have "s \<in> snd ` set (snd (snd ?v)) \<or> (\<exists>p' < p. seen s m (entries (fst ?v)) p')"
      if p: "seen s m (entries t) p" "awaits_service m s env" for p
    proof -
      obtain p1 where p1: "p1 \<le> p" "seen s m (entries t1) p1" "in_set m s R W" using f(4) [OF p(1)] p(2) by (auto simp: awaits_service_def)
      then have "event_on ready s \<noteq> None" using on p(2) by blast
      then show ?thesis using serve_ready_seen [OF t2(1) t2(3) [OF p1(2)], of sockfd call ready 0 st "[]"] p p1(1)
        by (auto simp: awaits_service_def)
    qed
    moreover have "table_ok (fst ?v)" "all_fit n (fst ?v)" using serve_ready_ok [OF t2(1), of sockfd call ready 0 st "[]"] t2(2) unfolding all_fit_def by blast+
    moreover have "bounded sockfd (fst ?v)" by (rule bounded_serve [OF t2(1) bd2])
    ultimately show ?thesis using r False by (cases ?v) auto
  qed
qed

lemma select_rounds_total:
  assumes "fits n sockfd" "table_ok t" "all_fit n t" "bounded sockfd t" "list_all (env_fits n) envs"
  shows "\<exists>r. select_rounds n sockfd call envs t st = Some r"
  using assms(2-)
proof (induction envs arbitrary: t st)
  case (Cons env envs)
  have "env_fits n env" using Cons(5) by simp
  from select_round_law [OF assms(1) Cons(2,3) this Cons(4), of call st] obtain t1 st1 log where
    "select_round n sockfd call env t st = Some (t1, st1, log)" "table_ok t1" "all_fit n t1" "bounded sockfd t1" by blast
  then show ?case using Cons(1) [of t1 st1] Cons(5) by auto
qed simp

lemma select_rounds_serve:
  assumes "fits n sockfd" "table_ok t" "all_fit n t" "bounded sockfd t" "list_all (env_fits n) envs"
    and "seen s m (entries t) p" "p < length envs" "list_all (awaits_service m s) (take (Suc p) envs)"
  shows "\<exists>t' st' logs. select_rounds n sockfd call envs t st = Some (t', st', logs) \<and> (\<exists>k \<le> p. s \<in> snd ` set (logs ! k))"
  using assms(2-)
proof (induction envs arbitrary: t st p)
  case (Cons env envs)
  have env: "env_fits n env" "awaits_service m s env" using Cons(5,8) by simp_all
  from select_round_law [OF assms(1) Cons(2,3) env(1) Cons(4), of call st s m] obtain t1 st1 log where
    r: "select_round n sockfd call env t st = Some (t1, st1, log)" "table_ok t1" "all_fit n t1" "bounded sockfd t1"
      "s \<in> snd ` set log \<or> (\<exists>p' < p. seen s m (entries t1) p')"
    using Cons(6) env(2) by blast
  obtain t' st' logs where rs: "select_rounds n sockfd call envs t1 st1 = Some (t', st', logs)"
    using select_rounds_total [OF assms(1) r(2-4), of envs call st1] Cons(5) by auto
  have rr: "select_rounds n sockfd call (env # envs) t st = Some (t', st', log # logs)" using r(1) rs by simp
  show ?case
  proof (cases "s \<in> snd ` set log")
    case True
    then have "s \<in> snd ` set ((log # logs) ! 0)" by simp
    then show ?thesis using rr by blast
  next
    case False
    then obtain p' where p': "p' < p" "seen s m (entries t1) p'" using r(5) by blast
    have "set (take (Suc p') envs) \<subseteq> set (take p envs)" using p'(1) by (intro set_take_subset_set_take) simp
    then have "list_all (awaits_service m s) (take (Suc p') envs)" using Cons(8) by (auto simp: list_all_iff)
    then obtain k where "k \<le> p'" "s \<in> snd ` set (logs ! k)"
      using Cons(1) [OF r(2-4) _ p'(2), of st1] Cons(5,7) p'(1) rs by auto
    then have "Suc k \<le> p" "s \<in> snd ` set ((log # logs) ! Suc k)" using p'(1) by simp_all
    then show ?thesis using rr by blast
  qed
qed simp

text \<open>
  C6.  No socket starves in the loop, although an entry that is moved to the place of a closed one is passed over in this
  round: a socket that awaits reading or writing at the place \<open>p\<close> of the table and stays ready for it is served within the next \<open>p + 1\<close>
  rounds in which \<^verbatim>\<open>select\<close> succeeds, whatever the other sockets and their handlers do; in particular the bound given to
  \<^verbatim>\<open>select\<close> never leaves it out.  All descriptors have to be below \<^verbatim>\<open>FD_SETSIZE\<close> (\<open>n\<close>), the room of the sets.
\<close>

theorem select_no_starvation:
  assumes "fits n sockfd" "select_inv sockfd t" "all_fit n t" "list_all (env_fits n) envs"
    and "p < socklist_len t" "entries t ! p = (s, m)" "p < length envs" "list_all (awaits_service m s) (take (Suc p) envs)"
  shows "\<exists>t' st' logs. select_rounds n sockfd call envs t st = Some (t', st', logs) \<and> (\<exists>k \<le> p. s \<in> snd ` set (logs ! k))"
proof -
  have ok: "table_ok t" "distinct (map fst (entries t))" using assms(2) by (simp_all add: select_inv_def)
  have "seen s m (entries t) p"
    using assms(5,6) ok nth_eq_iff_index_eq [OF ok(2), of _ p] by (auto simp: seen_def)
  then show ?thesis by (rule select_rounds_serve [OF assms(1) ok(1) assms(3) select_inv_bounded [OF assms(2)] assms(4) _ assms(7,8)])
qed

text \<open>
  A table with the sockets 5 and 7: socket 7 is ready in both rounds, the handler of 5 closes its connection, so that 7 is
  moved to the first place and is passed over in the first round.
\<close>

definition two_sockets :: select_table where
  "two_sockets = \<lparr>socklist = 5 # 7 # replicate 9998 0, sockmask = 1 # 1 # replicate 9998 0, socklist_len = 2, maxfd_plus_one = 8\<rparr>"

definition both_readable :: loop_env where
  "both_readable = \<lparr>le_alive = \<lambda>_. True, le_readable = \<lambda>s. s \<in> {5, 7}, le_writable = \<lambda>_. False, le_exceptional = \<lambda>_. False, le_admitted = [], le_select_ok = True\<rparr>"

theorem select_no_starvation_witness:
  "\<exists>t' st' logs. select_rounds 1024 3 (\<lambda>e fd n. (if fd = 5 then Remove_Entry else Keep_Entry, Suc n)) [both_readable, both_readable] two_sockets (0 :: nat) = Some (t', st', logs) \<and>
     (\<exists>k \<le> 1. 7 \<in> snd ` set (logs ! k))"
proof -
  have e: "entries two_sockets = [(5, 1), (7, 1)]" "table_ok two_sockets"
    by (simp_all add: entries_def two_sockets_def table_ok_def SELECT_MAX_CONNECTIONS_def numeral_2_eq_2)
  moreover from e have "select_inv 3 two_sockets" by (simp add: select_inv_def two_sockets_def)
  ultimately show ?thesis
    using select_no_starvation [of 1024 3 two_sockets "[both_readable, both_readable]" 1 7 1]
    by (simp add: fits_def all_fit_def env_fits_def both_readable_def awaits_service_def SELECT_READ_def two_sockets_def numeral_2_eq_2)
qed

end
