(* ===== verification/Event_Loop.thy ===== *)
theory Event_Loop
  imports Core_Server Http_Worker
begin

text \<open>
  The event loop of \<^verbatim>\<open>core_server.c\<close> on epoll, put together from its parts: an event of the listening socket admits
  connections, a readable socket is served (\<^verbatim>\<open>http_serve_client\<close>, which ends in \<^verbatim>\<open>http_error\<close> or \<^verbatim>\<open>http_response\<close>),
  a writable one continues its output, one that hung up is cleaned up.  The epoll set is a map from sockets to
  the events awaited; results of system calls for an event are in its \<open>loop_world\<close>.
\<close>

section \<open>State\<close>

definition EPOLLIN :: nat where "EPOLLIN = 1"
definition EPOLLOUT :: nat where "EPOLLOUT = 4"
definition EPOLLHUP :: nat where "EPOLLHUP = 16"

text \<open>A request structure: what \<open>req_state\<close> has, the path of the request, the page it goes to, the file it sends.\<close>

record loop_req =
  lq_req :: req_state
  lq_path :: path_state
  lq_func :: "nat option"
  lq_file_open :: bool

text \<open>
  The calls of the handlers that change what is awaited, in the order they are made; \<open>lp_mask\<close> is what epoll makes of them.
\<close>

datatype event_call = Await sock nat | Await_New sock | Drop_Sock sock

record loop_state =
  lp_reqs :: "loop_req list"
  lp_keepalive :: "keepalive_sock_t frag_pool_t"
  lp_kheap :: heap
  lp_queue :: "nat pqueue_t"
  lp_posts :: nat
  lp_cache :: cache_state
  lp_accept :: accept_state
  lp_mask :: "sock \<Rightarrow> nat option"
  lp_calls :: "event_call list"
  lp_closed :: "sock list"

record loop_config =
  lc_server :: server_config
  lc_resp :: resp_config
  lc_srvfd :: sock

text \<open>
  What the system does around an event: the bytes received, the answers of the calls that send, the peers of
  the sockets, the time, the address of a new block and what memory that is not set holds, the connections waiting.
\<close>

record loop_world =
  lw_recv :: "recv_result list"
  lw_resp :: resp_world
  lw_peer :: "sock \<Rightarrow> ip option"
  lw_time :: int
  lw_addr :: addr
  lw_base :: int
  lw_keepalive_junk :: keepalive_sock_t
  lw_limit_junk :: limit_req_t
  lw_req_junk :: loop_req
  lw_waiting :: "(sock \<times> ip \<times> addr \<times> addr) list"

definition loop_socks :: "loop_req list \<Rightarrow> sock list" where
  "loop_socks reqs = map (\<lambda>q. rq_sock (lq_req q)) reqs"

section \<open>Request structures\<close>

definition claim_req :: "sock \<Rightarrow> loop_req \<Rightarrow> loop_req" where
  "claim_req fd q = q\<lparr>lq_req := (lq_req q)\<lparr>rq_sock := fd\<rparr>\<rparr>"

definition fetch_req :: "loop_config \<Rightarrow> loop_world \<Rightarrow> sock \<Rightarrow> loop_req list \<Rightarrow> nat \<times> loop_req list" where
  "fetch_req cfg w fd reqs =
     (let i = fst (event_fetch_request fd (loop_socks reqs)); j = lw_req_junk w in
      (i, if i < length reqs then reqs[i := claim_req fd (reqs ! i)]
          else reqs @ [claim_req fd (j\<lparr>lq_req := http_prepare (rw_junk (lw_resp w)) (lw_base w) (rc_gzip (lc_resp cfg)) True (lq_req j),
                 lq_path := (lq_path j)\<lparr>pa_cap := HTTP_PATH_PREALLOC, pa_path := []\<rparr>\<rparr>)]))"

text \<open>\<^verbatim>\<open>epoll_ctl\<close> with \<^verbatim>\<open>EPOLL_CTL_MOD\<close>: no effect on a socket that is not in the set.\<close>

definition mod_mask :: "sock \<Rightarrow> nat \<Rightarrow> loop_state \<Rightarrow> loop_state" where
  "mod_mask s m st =
     st\<lparr>lp_mask := (if lp_mask st s = None then lp_mask st else (lp_mask st)(s \<mapsto> m)), lp_calls := lp_calls st @ [Await s m]\<rparr>"

text \<open>\<^verbatim>\<open>http_cleanup\<close> of the structure number \<open>i\<close>; a socket that is closed leaves the epoll set.\<close>

definition cleanup_req :: "loop_config \<Rightarrow> loop_world \<Rightarrow> nat \<Rightarrow> loop_state \<Rightarrow> loop_state" where
  "cleanup_req cfg w i st =
     (case http_cleanup (rw_junk (lw_resp w)) (lw_base w) (rc_gzip (lc_resp cfg)) (lq_req (lp_reqs st ! i)) of
        (r, ev) \<Rightarrow>
          let st = st\<lparr>lp_reqs := (lp_reqs st)[i := (lp_reqs st ! i)\<lparr>lq_req := r\<rparr>]\<rparr> in
          (case ev of
             Wait_For_Input s \<Rightarrow> mod_mask s EPOLLIN st
           | Close_Socket s \<Rightarrow> st\<lparr>lp_mask := (lp_mask st)(s := None), lp_calls := lp_calls st @ [Drop_Sock s], lp_closed := lp_closed st @ [s]\<rparr>))"

section \<open>A readable socket\<close>

text \<open>Putting an answer into the structure; what is left to send is awaited with \<^verbatim>\<open>EPOLLOUT\<close>.\<close>

definition store_out :: "nat \<Rightarrow> out_req \<Rightarrow> loop_state \<Rightarrow> loop_state" where
  "store_out i out st =
     (let q = lp_reqs st ! i; r = lq_req q; st = st\<lparr>lp_reqs := (lp_reqs st)[i := q\<lparr>lq_req := r\<lparr>rq_out := out\<rparr>\<rparr>]\<rparr> in
      if o_epollout out then mod_mask (rq_sock r) EPOLLOUT st else st)"

text \<open>What \<^verbatim>\<open>http_response\<close> leaves in the structure, the queue and the cache; a request for a page awaits no events.\<close>

definition store_resp :: "nat \<Rightarrow> resp_state \<Rightarrow> loop_state \<Rightarrow> loop_state" where
  "store_resp i s st =
     (let q = lp_reqs st ! i;
          st = store_out i (rs_out s)
            (st\<lparr>lp_reqs := (lp_reqs st)[i := q\<lparr>lq_path := rs_path s, lq_func := rs_func s, lq_file_open := rs_file_open s\<rparr>],
                lp_queue := rs_queue s, lp_posts := rs_posts s, lp_cache := rs_cache s\<rparr>) in
      if rs_events s then st else mod_mask (rq_sock (lq_req q)) 0 st)"

definition respond :: "loop_config \<Rightarrow> loop_world \<Rightarrow> nat \<Rightarrow> loop_state \<Rightarrow> (bool \<times> loop_state) option" where
  "respond cfg w i st =
     (let q = lp_reqs st ! i; r = lq_req q; h = cn_in (rq_conn r); m = b_data (cn_b (rq_conn r)) in
      map_option (\<lambda>(b, s). (b, store_resp i s st))
        (http_response (lc_resp cfg) (lw_resp w) i m (uri_str h) (uri_len h) (map (header_text m) (hi_p h))
           \<lparr>rs_out = rq_out r, rs_path = lq_path q, rs_events = True, rs_func = lq_func q, rs_queue = lp_queue st,
            rs_posts = lp_posts st, rs_cache = lp_cache st, rs_file_open = lq_file_open q\<rparr>))"

text \<open>The connection after the received bytes have been worked on; the flag for keeping it alive is one field in the program.\<close>

definition store_conn :: "nat \<Rightarrow> conn \<Rightarrow> keepalive_sock_t frag_pool_t \<times> heap \<Rightarrow> loop_state \<Rightarrow> loop_state" where
  "store_conn i c k st =
     (let q = lp_reqs st ! i; r = lq_req q; out = (rq_out r)\<lparr>o_keepalive := hi_keepalive (cn_in c), o_epollout := False\<rparr> in
      st\<lparr>lp_reqs := (lp_reqs st)[i := q\<lparr>lq_req := r\<lparr>rq_conn := c, rq_out := out\<rparr>\<rparr>], lp_keepalive := fst k, lp_kheap := snd k\<rparr>)"

definition loop_nks :: "loop_config \<Rightarrow> loop_world \<Rightarrow> sock \<Rightarrow> (keepalive_sock_t frag_pool_t \<times> heap) option \<Rightarrow> bool \<times> (keepalive_sock_t frag_pool_t \<times> heap) option" where
  "loop_nks cfg w s k =
     (case k of
        Some (p, H) \<Rightarrow>
          (case new_keepalive_socket (lc_server cfg) (lw_peer w) (lw_time w) (lw_addr w) (lw_keepalive_junk w) s p H of
             Some (b, p, H) \<Rightarrow> (b, Some (p, H))
           | None \<Rightarrow> (False, None))
      | None \<Rightarrow> (False, None))"

definition loop_rks :: "sock \<Rightarrow> (keepalive_sock_t frag_pool_t \<times> heap) option \<Rightarrow> (keepalive_sock_t frag_pool_t \<times> heap) option" where
  "loop_rks s k = (case k of Some (p, H) \<Rightarrow> remove_keepalive_socket s p H | None \<Rightarrow> None)"

text \<open>\<^verbatim>\<open>http_serve_client\<close> with the calls it ends in.\<close>

definition serve_req :: "loop_config \<Rightarrow> loop_world \<Rightarrow> nat \<Rightarrow> loop_state \<Rightarrow> (bool \<times> loop_state) option" where
  "serve_req cfg w i st =
     (let r = lq_req (lp_reqs st ! i) in
      do { (res, c, k, _) \<leftarrow> http_serve_client (loop_nks cfg w (rq_sock r)) (loop_rks (rq_sock r)) (rw_junk (lw_resp w)) (lw_base w)
             (rq_conn r) (Some (lp_keepalive st, lp_kheap st)) (lw_recv w);
           k \<leftarrow> k;
           let st = store_conn i c k st;
           (case res of
              Wait \<Rightarrow> Some (False, st)
            | Closed \<Rightarrow> Some (True, st)
            | Http_Error code \<Rightarrow>
                map_option (\<lambda>(b, out). (b, store_out i out st))
                  (http_error (rc_keepalive_timeout (lc_resp cfg)) (rw_writev (lw_resp w)) code (rq_out (lq_req (lp_reqs st ! i))))
            | Http_Response \<Rightarrow> respond cfg w i st) })"

section \<open>The dispatch\<close>

definition admit :: "loop_config \<Rightarrow> loop_world \<Rightarrow> loop_state \<Rightarrow> loop_state option" where
  "admit cfg w st =
     do { (ac, _) \<leftarrow> accept_loop (lc_server cfg) (lw_peer w) (lw_time w) (lw_limit_junk w) (lw_waiting w) ((lp_accept st)\<lparr>ac_added := [], ac_refused := []\<rparr>);
          Some (st\<lparr>lp_accept := ac, lp_mask := foldl (\<lambda>M s. M(s \<mapsto> EPOLLIN)) (lp_mask st) (ac_added ac), lp_calls := lp_calls st @ map Await_New (ac_added ac), lp_closed := lp_closed st @ ac_refused ac\<rparr>) }"

definition out_req_event :: "loop_config \<Rightarrow> loop_world \<Rightarrow> sock \<Rightarrow> loop_state \<Rightarrow> loop_state option" where
  "out_req_event cfg w fd st =
     (case find_from (\<lambda>s. s = fd) 0 (loop_socks (lp_reqs st)) of
        None \<Rightarrow> Some st
      | Some i \<Rightarrow>
          (let q = lp_reqs st ! i; r = lq_req q in
           do { (act, out) \<leftarrow> events_out_data (rw_writev (lw_resp w)) (rw_sendfile (lw_resp w)) (rq_out r);
                let st = st\<lparr>lp_reqs := (lp_reqs st)[i := q\<lparr>lq_req := r\<lparr>rq_out := out\<rparr>, lq_file_open := lq_file_open q \<and> (o_fd (rq_out r) \<longrightarrow> o_fd out)\<rparr>]\<rparr>;
                Some (if act = Waiting then st else cleanup_req cfg w i st) }))"

definition hang_up :: "loop_config \<Rightarrow> loop_world \<Rightarrow> sock \<Rightarrow> loop_state \<Rightarrow> loop_state option" where
  "hang_up cfg w fd st =
     (case fst (event_find_request fd (loop_socks (lp_reqs st))) of
        None \<Rightarrow> Some st
      | Some i \<Rightarrow>
          (let q = claim_req fd (lp_reqs st ! i); r = lq_req q; c = rq_conn r in
           do { (kp, kH) \<leftarrow> remove_keepalive_socket fd (lp_keepalive st) (lp_kheap st);
                Some (cleanup_req cfg w i
                  (st\<lparr>lp_reqs := (lp_reqs st)[i := q\<lparr>lq_req := r\<lparr>rq_conn := c\<lparr>cn_in := (cn_in c)\<lparr>hi_keepalive := False\<rparr>\<rparr>\<rparr>\<rparr>], lp_keepalive := kp, lp_kheap := kH\<rparr>)) }))"

fun loop_event :: "loop_config \<Rightarrow> loop_world \<times> sock \<times> nat \<Rightarrow> loop_state \<Rightarrow> loop_state option" where
  "loop_event cfg (w, fd, events) st =
     (if fd = lc_srvfd cfg then admit cfg w st
      else if events = EPOLLIN then
        (let (i, reqs) = fetch_req cfg w fd (lp_reqs st) in
         do { (b, st) \<leftarrow> serve_req cfg w i (st\<lparr>lp_reqs := reqs\<rparr>);
              Some (if b then cleanup_req cfg w i st else st) })
      else if events = EPOLLOUT then out_req_event cfg w fd st
      else if and events EPOLLHUP \<noteq> 0 then hang_up cfg w fd st
      else Some st)"

fun loop_events :: "loop_config \<Rightarrow> (loop_world \<times> sock \<times> nat) list \<Rightarrow> loop_state \<Rightarrow> loop_state option" where
  "loop_events cfg [] st = Some st"
| "loop_events cfg (e # es) st = do { st \<leftarrow> loop_event cfg e st; loop_events cfg es st }"


section \<open>An event touches its own connection only\<close>

text \<open>Between the states only the structure number \<open>i\<close> and what belongs to the socket \<open>fd\<close> differ.\<close>

definition only_touches :: "nat \<Rightarrow> sock \<Rightarrow> loop_state \<Rightarrow> loop_state \<Rightarrow> bool" where
  "only_touches i fd st st' \<longleftrightarrow> length (lp_reqs st') = length (lp_reqs st) \<and> (\<forall>j. j \<noteq> i \<longrightarrow> lp_reqs st' ! j = lp_reqs st ! j) \<and>
     (\<forall>s. s \<noteq> fd \<longrightarrow> lp_mask st' s = lp_mask st s) \<and> (\<forall>s. s \<noteq> fd \<longrightarrow> s \<in> set (lp_closed st') \<longrightarrow> s \<in> set (lp_closed st))"

lemma only_touches_refl: "only_touches i fd st st"
  by (simp add: only_touches_def)

lemma only_touches_trans: "only_touches i fd st st1 \<Longrightarrow> only_touches i fd st1 st2 \<Longrightarrow> only_touches i fd st st2"
  by (simp add: only_touches_def)

abbreviation sock_at :: "loop_state \<Rightarrow> nat \<Rightarrow> sock" where
  "sock_at st i \<equiv> rq_sock (lq_req (lp_reqs st ! i))"

lemma cleanup_touches:
  assumes "i < length (lp_reqs st)" "sock_at st i = fd"
  shows "only_touches i fd st (cleanup_req cfg w i st)" "sock_at (cleanup_req cfg w i st) i = -1"
  using assms by (auto simp: cleanup_req_def http_cleanup_def only_touches_def mod_mask_def Let_def split: socket_event.split)

lemma store_out_touches:
  assumes "i < length (lp_reqs st)" "sock_at st i = fd"
  shows "only_touches i fd st (store_out i out st)" "sock_at (store_out i out st) i = fd"
  using assms by (auto simp: store_out_def only_touches_def mod_mask_def Let_def)

lemma store_resp_touches:
  assumes "i < length (lp_reqs st)" "sock_at st i = fd"
  shows "only_touches i fd st (store_resp i s st)" "sock_at (store_resp i s st) i = fd"
  using assms by (auto simp: store_resp_def store_out_def only_touches_def mod_mask_def Let_def)

lemma store_conn_touches:
  assumes "i < length (lp_reqs st)" "sock_at st i = fd"
  shows "only_touches i fd st (store_conn i c k st)" "sock_at (store_conn i c k st) i = fd" "length (lp_reqs (store_conn i c k st)) = length (lp_reqs st)"
  using assms by (simp_all add: store_conn_def only_touches_def Let_def)

lemma serve_req_shape:
  assumes "serve_req cfg w i st = Some (b, st')"
  obtains c k where "st' = store_conn i c k st \<or> (\<exists>out. st' = store_out i out (store_conn i c k st)) \<or> (\<exists>s. st' = store_resp i s (store_conn i c k st))"
proof -
  obtain res c k where r: "(case res of
              Wait \<Rightarrow> Some (False, store_conn i c k st)
            | Closed \<Rightarrow> Some (True, store_conn i c k st)
            | Http_Error code \<Rightarrow>
                map_option (\<lambda>(b, out). (b, store_out i out (store_conn i c k st)))
                  (http_error (rc_keepalive_timeout (lc_resp cfg)) (rw_writev (lw_resp w)) code (rq_out (lq_req (lp_reqs (store_conn i c k st) ! i))))
            | Http_Response \<Rightarrow> respond cfg w i (store_conn i c k st)) = Some (b, st')"
    using assms unfolding serve_req_def Let_def by (auto simp: bind_eq_Some_conv)
  show ?thesis by (rule that [of c k]) (use r in \<open>cases res; auto simp: respond_def Let_def\<close>)
qed

lemma serve_touches:
  assumes "i < length (lp_reqs st)" "sock_at st i = fd" "serve_req cfg w i st = Some (b, st')"
  shows "only_touches i fd st st' \<and> sock_at st' i = fd"
proof -
  obtain c k where "st' = store_conn i c k st \<or> (\<exists>out. st' = store_out i out (store_conn i c k st)) \<or> (\<exists>s. st' = store_resp i s (store_conn i c k st))"
    using serve_req_shape [OF assms(3)] .
  then show ?thesis
    using store_conn_touches [OF assms(1,2), of c k] assms(1) store_out_touches [of i "store_conn i c k st" fd]
      store_resp_touches [of i "store_conn i c k st" fd] by (auto intro: only_touches_trans)
qed

text \<open>The structure that is fetched for a socket is its own, a free one, or a new one.\<close>

lemma fetch_req_law:
  assumes "requests_inv (loop_socks reqs)" "fd \<noteq> -1" "fetch_req cfg w fd reqs = (i, reqs')"
  shows "i < length reqs'" "rq_sock (lq_req (reqs' ! i)) = fd" "requests_inv (loop_socks reqs')" "length reqs \<le> length reqs'"
    "\<forall>j < length reqs. rq_sock (lq_req (reqs ! j)) \<notin> {-1, fd} \<longrightarrow> j \<noteq> i \<and> reqs' ! j = reqs ! j"
proof -
  let ?rs = "loop_socks reqs"
  obtain rs' where f: "event_fetch_request fd ?rs = (i, rs')" using assms(3) by (cases "event_fetch_request fd ?rs") (auto simp: fetch_req_def Let_def)
  note u = event_fetch_request_unique [OF assms(1,2), unfolded f Let_def split]
  have reqs': "reqs' = (if i < length reqs then reqs[i := claim_req fd (reqs ! i)]
      else reqs @ [claim_req fd ((lw_req_junk w)\<lparr>lq_req := http_prepare (rw_junk (lw_resp w)) (lw_base w) (rc_gzip (lc_resp cfg)) True (lq_req (lw_req_junk w)),
                 lq_path := (lq_path (lw_req_junk w))\<lparr>pa_cap := HTTP_PATH_PREALLOC, pa_path := []\<rparr>\<rparr>)])"
    using assms(3) f by (auto simp: fetch_req_def Let_def)
  have shape: "(i < length ?rs \<and> rs' = ?rs[i := fd]) \<or> (i = length ?rs \<and> rs' = ?rs @ [fd])"
    using f u by (auto simp: event_fetch_request_def list_update_id split: option.splits dest!: find_from_0_SomeD)
  have "loop_socks reqs' = rs'" using shape by (auto simp: reqs' loop_socks_def map_update claim_req_def)
  then show "requests_inv (loop_socks reqs')" using u by simp
  show "i < length reqs'" "rq_sock (lq_req (reqs' ! i)) = fd" "length reqs \<le> length reqs'"
    using shape by (auto simp: reqs' loop_socks_def claim_req_def nth_append)
  show "\<forall>j < length reqs. rq_sock (lq_req (reqs ! j)) \<notin> {-1, fd} \<longrightarrow> j \<noteq> i \<and> reqs' ! j = reqs ! j"
  proof (intro allI impI)
    fix j assume j: "j < length reqs" "rq_sock (lq_req (reqs ! j)) \<notin> {-1, fd}"
    then have "rs' ! j = rq_sock (lq_req (reqs ! j))" using u by (simp add: loop_socks_def)
    then have "j \<noteq> i" using u j by auto
    then show "j \<noteq> i \<and> reqs' ! j = reqs ! j" using j by (simp add: reqs' nth_append)
  qed
qed

lemma requests_inv_same:
  assumes "requests_inv rs" "i < length rs" "x = rs ! i \<or> x = -1"
  shows "requests_inv (rs[i := x])"
proof -
  have "filter (\<lambda>s. s \<noteq> -1) rs = filter (\<lambda>s. s \<noteq> -1) (take i rs) @ (if rs ! i = -1 then [] else [rs ! i]) @ filter (\<lambda>s. s \<noteq> -1) (drop (Suc i) rs)"
    using assms(2) by (subst id_take_nth_drop [of i rs]) simp_all
  then show ?thesis using assms by (auto simp: requests_inv_def upd_conv_take_nth_drop)
qed

lemma touches_socks:
  assumes "only_touches i fd st st'" "i < length (lp_reqs st)"
  shows "loop_socks (lp_reqs st') = (loop_socks (lp_reqs st))[i := sock_at st' i]"
  using assms by (intro nth_equalityI) (auto simp: only_touches_def loop_socks_def nth_list_update)

lemma accept_loop_socks:
  assumes "accept_loop config peer t u waiting st = Some (st', rest)"
  shows "set (ac_added st') \<subseteq> set (ac_added st) \<union> fst ` set waiting \<and> set (ac_refused st') \<subseteq> set (ac_refused st) \<union> fst ` set waiting"
  using assms
proof (induction waiting arbitrary: st)
  case (Cons x waiting)
  obtain s ip a1 a2 where x: "x = (s, ip, a1, a2)" by (cases x)
  show ?case using Cons(2) unfolding x
    by (auto simp: bind_eq_Some_conv split: if_splits dest!: Cons(1))
qed simp

lemma foldl_other: "s \<notin> set xs \<Longrightarrow> foldl (\<lambda>M s. M(s \<mapsto> v)) M xs s = M s"
  by (induction xs arbitrary: M) auto

text \<open>What an event leaves alone: the structure of another socket, what is awaited on it, and that it is open.\<close>

definition untouched :: "sock \<Rightarrow> nat \<Rightarrow> loop_state \<Rightarrow> loop_state \<Rightarrow> bool" where
  "untouched s j st st' \<longleftrightarrow> j < length (lp_reqs st') \<and> lp_reqs st' ! j = lp_reqs st ! j \<and> lp_mask st' s = lp_mask st s \<and>
     (s \<in> set (lp_closed st') \<longrightarrow> s \<in> set (lp_closed st))"

lemma touches_law:
  assumes "only_touches i fd st st'" "i < length (lp_reqs st)" "sock_at st' i \<in> {sock_at st i, -1}" "requests_inv (loop_socks (lp_reqs st))"
  shows "requests_inv (loop_socks (lp_reqs st'))" "s \<noteq> fd \<Longrightarrow> j < length (lp_reqs st) \<Longrightarrow> j \<noteq> i \<Longrightarrow> untouched s j st st'"
proof -
  show "requests_inv (loop_socks (lp_reqs st'))" unfolding touches_socks [OF assms(1,2)]
    by (rule requests_inv_same [OF assms(4)]) (use assms(2,3) in \<open>auto simp: loop_socks_def\<close>)
qed (use assms(1) in \<open>auto simp: only_touches_def untouched_def\<close>)

lemma readable_event:
  assumes inv: "requests_inv (loop_socks (lp_reqs st))" and fd: "fd \<noteq> -1"
    and f: "fetch_req cfg w fd (lp_reqs st) = (i, reqs)" and v: "serve_req cfg w i (st\<lparr>lp_reqs := reqs\<rparr>) = Some (b, st1)"
    and st': "st' = (if b then cleanup_req cfg w i st1 else st1)"
  shows "requests_inv (loop_socks (lp_reqs st'))"
    "s \<notin> {-1, fd} \<Longrightarrow> j < length (lp_reqs st) \<Longrightarrow> sock_at st j = s \<Longrightarrow> untouched s j st st'"
proof -
  let ?st = "st\<lparr>lp_reqs := reqs\<rparr>"
  note law = fetch_req_law [OF inv fd f]
  have i: "i < length (lp_reqs ?st)" "sock_at ?st i = fd" using law(1,2) by simp_all
  note t1 = serve_touches [OF i v]
  have len: "i < length (lp_reqs st1)" using t1 i(1) by (simp add: only_touches_def)
  have t: "only_touches i fd ?st st'" "sock_at st' i \<in> {sock_at ?st i, -1}"
    using t1 i(2) cleanup_touches [OF len, of fd cfg w] only_touches_trans [of i fd ?st st1] unfolding st' by auto
  show "requests_inv (loop_socks (lp_reqs st'))" by (rule touches_law(1) [OF t(1) i(1) t(2)]) (use law(3) in simp)
  show "untouched s j st st'" if "s \<notin> {-1, fd}" "j < length (lp_reqs st)" "sock_at st j = s"
  proof -
    have j: "j \<noteq> i" "reqs ! j = lp_reqs st ! j" using law(5) that by auto
    then have "untouched s j ?st st'" using touches_law(2) [OF t(1) i(1) t(2), of s j] law(3,4) that by simp
    then show ?thesis using j(2) by (simp add: untouched_def)
  qed
qed

lemma writable_event:
  assumes inv: "requests_inv (loop_socks (lp_reqs st))" and e: "out_req_event cfg w fd st = Some st'"
  shows "requests_inv (loop_socks (lp_reqs st'))"
    "s \<notin> {-1, fd} \<Longrightarrow> j < length (lp_reqs st) \<Longrightarrow> sock_at st j = s \<Longrightarrow> untouched s j st st'"
proof -
  have "requests_inv (loop_socks (lp_reqs st')) \<and> (s \<notin> {-1, fd} \<longrightarrow> j < length (lp_reqs st) \<longrightarrow> sock_at st j = s \<longrightarrow> untouched s j st st')"
  proof (cases "find_from (\<lambda>s. s = fd) 0 (loop_socks (lp_reqs st))")
    case None
    then show ?thesis using inv e by (simp add: out_req_event_def untouched_def)
  next
    case (Some i)
    then have i: "i < length (lp_reqs st)" "sock_at st i = fd" using find_from_0_SomeD [OF Some] by (auto simp: loop_socks_def)
    obtain act out where ev: "events_out_data (rw_writev (lw_resp w)) (rw_sendfile (lw_resp w)) (rq_out (lq_req (lp_reqs st ! i))) = Some (act, out)"
      using e Some by (cases "events_out_data (rw_writev (lw_resp w)) (rw_sendfile (lw_resp w)) (rq_out (lq_req (lp_reqs st ! i)))") (auto simp: out_req_event_def Let_def)
    define q where "q = (lp_reqs st ! i)\<lparr>lq_req := (lq_req (lp_reqs st ! i))\<lparr>rq_out := out\<rparr>,
      lq_file_open := lq_file_open (lp_reqs st ! i) \<and> (o_fd (rq_out (lq_req (lp_reqs st ! i))) \<longrightarrow> o_fd out)\<rparr>"
    have q: "rq_sock (lq_req q) = fd" "st' = (if act = Waiting then st\<lparr>lp_reqs := (lp_reqs st)[i := q]\<rparr> else cleanup_req cfg w i (st\<lparr>lp_reqs := (lp_reqs st)[i := q]\<rparr>))"
      using e Some i ev by (auto simp: out_req_event_def Let_def q_def)
    let ?st = "st\<lparr>lp_reqs := (lp_reqs st)[i := q]\<rparr>"
    have o: "only_touches i fd st ?st" "i < length (lp_reqs ?st)" "sock_at ?st i = fd" using i q(1) by (simp_all add: only_touches_def)
    have "only_touches i fd st st' \<and> sock_at st' i \<in> {sock_at st i, -1}"
      using cleanup_touches [OF o(2,3), of cfg w] o only_touches_trans [OF o(1)] i(2) unfolding q(2) by auto
    then show ?thesis using touches_law(1) [OF _ i(1) _ inv, of fd st'] touches_law(2) [OF _ i(1) _ inv, of fd st' s j] i(2) by auto
  qed
  then show "requests_inv (loop_socks (lp_reqs st'))"
    "s \<notin> {-1, fd} \<Longrightarrow> j < length (lp_reqs st) \<Longrightarrow> sock_at st j = s \<Longrightarrow> untouched s j st st'" by blast+
qed

lemma hang_up_event:
  assumes inv: "requests_inv (loop_socks (lp_reqs st))" and e: "hang_up cfg w fd st = Some st'"
  shows "requests_inv (loop_socks (lp_reqs st'))"
    "s \<notin> {-1, fd} \<Longrightarrow> j < length (lp_reqs st) \<Longrightarrow> sock_at st j = s \<Longrightarrow> untouched s j st st'"
proof -
  have "requests_inv (loop_socks (lp_reqs st')) \<and> (s \<notin> {-1, fd} \<longrightarrow> j < length (lp_reqs st) \<longrightarrow> sock_at st j = s \<longrightarrow> untouched s j st st')"
  proof (cases "fst (event_find_request fd (loop_socks (lp_reqs st)))")
    case None
    then show ?thesis using inv e by (simp add: hang_up_def untouched_def)
  next
    case (Some i)
    then have i: "i < length (lp_reqs st)" "sock_at st i \<in> {fd, -1}"
      by (auto simp: event_find_request_def loop_socks_def split: option.splits dest!: find_from_0_SomeD)
    obtain k where k: "remove_keepalive_socket fd (lp_keepalive st) (lp_kheap st) = Some k"
      using e Some by (cases "remove_keepalive_socket fd (lp_keepalive st) (lp_kheap st)") (auto simp: hang_up_def Let_def)
    define c where "c = rq_conn (lq_req (claim_req fd (lp_reqs st ! i)))"
    define q where "q = (claim_req fd (lp_reqs st ! i))\<lparr>lq_req := (lq_req (claim_req fd (lp_reqs st ! i)))\<lparr>rq_conn := c\<lparr>cn_in := (cn_in c)\<lparr>hi_keepalive := False\<rparr>\<rparr>\<rparr>\<rparr>"
    define st1 where "st1 = st\<lparr>lp_reqs := (lp_reqs st)[i := q], lp_keepalive := fst k, lp_kheap := snd k\<rparr>"
    have st': "st' = cleanup_req cfg w i st1" using e Some k by (simp add: hang_up_def Let_def q_def c_def st1_def split: prod.splits)
    have o: "only_touches i fd st st1" "i < length (lp_reqs st1)" "sock_at st1 i = fd" using i by (simp_all add: only_touches_def st1_def q_def claim_req_def)
    have "only_touches i fd st st' \<and> sock_at st' i \<in> {sock_at st i, -1}"
      using cleanup_touches [OF o(2,3), of cfg w] only_touches_trans [OF o(1)] unfolding st' by auto
    then show ?thesis using touches_law(1) [OF _ i(1) _ inv, of fd st'] touches_law(2) [OF _ i(1) _ inv, of fd st' s j] i(2) by auto
  qed
  then show "requests_inv (loop_socks (lp_reqs st'))"
    "s \<notin> {-1, fd} \<Longrightarrow> j < length (lp_reqs st) \<Longrightarrow> sock_at st j = s \<Longrightarrow> untouched s j st st'" by blast+
qed

lemma admit_event:
  assumes "admit cfg w st = Some st'" "s \<notin> fst ` set (lw_waiting w)" "j < length (lp_reqs st)"
  shows "lp_reqs st' = lp_reqs st" "untouched s j st st'"
proof -
  obtain ac rest where ac: "accept_loop (lc_server cfg) (lw_peer w) (lw_time w) (lw_limit_junk w) (lw_waiting w) ((lp_accept st)\<lparr>ac_added := [], ac_refused := []\<rparr>) = Some (ac, rest)"
    and st': "st' = st\<lparr>lp_accept := ac, lp_mask := foldl (\<lambda>M s. M(s \<mapsto> EPOLLIN)) (lp_mask st) (ac_added ac), lp_calls := lp_calls st @ map Await_New (ac_added ac), lp_closed := lp_closed st @ ac_refused ac\<rparr>"
    using assms(1) by (auto simp: admit_def bind_eq_Some_conv)
  have "s \<notin> set (ac_added ac)" "s \<notin> set (ac_refused ac)" using accept_loop_socks [OF ac] assms(2) by auto
  then show "lp_reqs st' = lp_reqs st" "untouched s j st st'" using assms(3) by (simp_all add: st' untouched_def foldl_other)
qed

lemma loop_event_law:
  assumes inv: "requests_inv (loop_socks (lp_reqs st))" and fd: "fd \<noteq> -1" and e: "loop_event cfg (w, fd, ev) st = Some st'"
    and s: "s \<notin> {-1, fd}" "s \<notin> fst ` set (lw_waiting w)" "j < length (lp_reqs st)" "sock_at st j = s"
  shows "requests_inv (loop_socks (lp_reqs st')) \<and> untouched s j st st'"
proof -
  obtain i reqs where f: "fetch_req cfg w fd (lp_reqs st) = (i, reqs)" by (cases "fetch_req cfg w fd (lp_reqs st)")
  consider (admit) "fd = lc_srvfd cfg" | (readable) "fd \<noteq> lc_srvfd cfg" "ev = EPOLLIN"
    | (writable) "fd \<noteq> lc_srvfd cfg" "ev = EPOLLOUT" | (other) "fd \<noteq> lc_srvfd cfg" "ev \<noteq> EPOLLIN" "ev \<noteq> EPOLLOUT" by blast
  then show ?thesis
  proof cases
    case admit
    then have a: "admit cfg w st = Some st'" using e by simp
    show ?thesis using admit_event [OF a s(2,3)] inv by simp
  next
    case readable
    then obtain b st1 where r: "serve_req cfg w i (st\<lparr>lp_reqs := reqs\<rparr>) = Some (b, st1)" "st' = (if b then cleanup_req cfg w i st1 else st1)"
      using e f by (cases "serve_req cfg w i (st\<lparr>lp_reqs := reqs\<rparr>)") auto
    show ?thesis using readable_event(1) [OF inv fd f r] readable_event(2) [OF inv fd f r s(1,3,4)] by blast
  next
    case writable
    then have a: "out_req_event cfg w fd st = Some st'" using e by (simp add: EPOLLIN_def EPOLLOUT_def)
    show ?thesis using writable_event(1) [OF inv a] writable_event(2) [OF inv a s(1,3,4)] by blast
  next
    case other
    then have "hang_up cfg w fd st = Some st' \<or> st' = st" using e by (auto split: if_splits)
    then show ?thesis using hang_up_event(1) [OF inv, of cfg w fd st'] hang_up_event(2) [OF inv _ s(1,3,4), of cfg w st'] inv s(3) by (auto simp: untouched_def)
  qed
qed

lemma loop_events_law:
  assumes "requests_inv (loop_socks (lp_reqs st))" "loop_events cfg es st = Some st'"
    and "s \<noteq> -1" "j < length (lp_reqs st)" "rq_sock (lq_req (lp_reqs st ! j)) = s"
    and "\<forall>(w, fd, ev) \<in> set es. fd \<noteq> s \<and> fd \<noteq> -1 \<and> s \<notin> fst ` set (lw_waiting w)"
  shows "requests_inv (loop_socks (lp_reqs st')) \<and> untouched s j st st'"
  using assms
proof (induction es arbitrary: st)
  case (Cons e es)
  obtain w fd ev where e: "e = (w, fd, ev)" by (cases e)
  obtain st1 where st1: "loop_event cfg (w, fd, ev) st = Some st1" "loop_events cfg es st1 = Some st'"
    using Cons(3) e by (auto simp: bind_eq_Some_conv)
  have "requests_inv (loop_socks (lp_reqs st1)) \<and> untouched s j st st1"
    by (rule loop_event_law [OF Cons(2) _ st1(1)]) (use Cons(4-7) e in auto)
  then show ?case using Cons(1) [OF _ st1(2)] Cons(4-7) by (auto simp: untouched_def)
qed (simp add: untouched_def)

text \<open>Events are handled one after the other, all of them or up to one whose handling leaves its memory.\<close>

lemma loop_events_prefix:
  "\<exists>n st'. n \<le> length es \<and> loop_events cfg (take n es) st = Some st' \<and> (n < length es \<longrightarrow> loop_event cfg (es ! n) st' = None)"
proof (induction es arbitrary: st)
  case (Cons e es)
  show ?case
  proof (cases "loop_event cfg e st")
    case None
    then show ?thesis by (intro exI [of _ 0] exI [of _ st]) simp
  next
    case (Some st1)
    obtain n st' where "n \<le> length es" "loop_events cfg (take n es) st1 = Some st'" "n < length es \<longrightarrow> loop_event cfg (es ! n) st' = None"
      using Cons by blast
    then show ?thesis using Some by (intro exI [of _ "Suc n"] exI [of _ st']) simp
  qed
qed simp

text \<open>
  C5.  Connections do not interfere: the loop handles the events of other sockets one after the other, with whatever bytes
  received and whatever results of the system calls, all of them or up to an event whose handling accesses memory outside of its
  buffers (as that of a request without a blank behind its URI does, \<^verbatim>\<open>http_parse_headers_no_blank\<close>).  As far as it
  gets, the request structure of a connection stays exactly as it was, as do the events awaited on its socket; the
  socket is not closed, and no two structures serve the same socket.
\<close>

theorem loop_events_isolated:
  assumes "requests_inv (loop_socks (lp_reqs st))" "s \<noteq> -1" "j < length (lp_reqs st)" "rq_sock (lq_req (lp_reqs st ! j)) = s"
    and "\<forall>(w, fd, ev) \<in> set es. fd \<noteq> s \<and> fd \<noteq> -1 \<and> s \<notin> fst ` set (lw_waiting w)"
  shows "\<exists>n st'. n \<le> length es \<and> loop_events cfg (take n es) st = Some st' \<and> (n < length es \<longrightarrow> loop_event cfg (es ! n) st' = None) \<and>
    requests_inv (loop_socks (lp_reqs st')) \<and> lp_reqs st' ! j = lp_reqs st ! j \<and> lp_mask st' s = lp_mask st s \<and>
    (s \<in> set (lp_closed st') \<longrightarrow> s \<in> set (lp_closed st))"
proof -
  obtain n st' where n: "n \<le> length es" "loop_events cfg (take n es) st = Some st'" "n < length es \<longrightarrow> loop_event cfg (es ! n) st' = None"
    using loop_events_prefix by blast
  have "\<forall>(w, fd, ev) \<in> set (take n es). fd \<noteq> s \<and> fd \<noteq> -1 \<and> s \<notin> fst ` set (lw_waiting w)"
    using assms(5) by (auto dest: in_set_takeD)
  from loop_events_law [OF assms(1) n(2) assms(2-4) this] n show ?thesis by (auto simp: untouched_def)
qed

section \<open>From the bytes of a request to the bytes of its answer\<close>

lemma new_keepalive_socket_Some:
  "\<not> ipv6_addr config \<Longrightarrow> \<exists>b p' H'. new_keepalive_socket config peer t a u s p H = Some (b, p', H')"
  by (auto simp: new_keepalive_socket_def Let_def split: option.split sum.split prod.split)

lemma loop_nks_some:
  assumes "ipv6_addr (lc_server cfg) \<longrightarrow> (\<forall>kv \<in> set kvs. \<not> asks_keepalive kv)"
  shows "\<exists>k'. snd (keepalive_after (loop_nks cfg w s) kvs (b, Some k)) = Some k'"
  using assms
proof (induction kvs arbitrary: b k)
  case (Cons kv kvs)
  have "\<exists>b1 p H. loop_nks cfg w s (Some k) = (b1, Some (p, H))" if "asks_keepalive kv"
    using new_keepalive_socket_Some [of "lc_server cfg" "lw_peer w" "lw_time w" "lw_addr w" "lw_keepalive_junk w" s "fst k" "snd k"] that Cons.prems
    by (cases k) (auto simp: loop_nks_def)
  then show ?case using Cons by (cases "asks_keepalive kv") auto
qed simp

text \<open>A path that can be taken over as it is: its characters are allowed, and it has no parent reference.\<close>

definition plain_path :: "string \<Rightarrow> bool" where
  "plain_path p \<longleftrightarrow> 0 < length p \<and> length p < HTTP_PATH_PREALLOC \<and> p ! 0 = CHR ''/'' \<and> list_all IS_VALID_PATH_CHARACTER (tl p) \<and> \<not> occurs ''../'' p"

lemma divide_plain:
  assumes p: "plain_path uri" and m: "seg m u (u + n) = uri" "n = length uri" "rd m (u + n) = Some NUL" and cap: "HTTP_PATH_PREALLOC \<le> pa_cap st"
  shows "http_divide_uri m u n st = Some (True, st\<lparr>pa_path := uri, pa_query := u + n, pa_query_len := 0\<rparr>)"
proof -
  have l: "u + n < length m" using rd_SomeD [OF m(3)] by simp
  then have nth: "m ! (u + k) = uri ! k" if "k < n" for k using that m(1) by (auto simp: seg_def)
  have "in_buffer m u n" using rd_SomeD [OF m(3)] by (simp add: in_buffer_def)
  moreover have "\<forall>k. 1 \<le> k \<and> k < n \<longrightarrow> IS_VALID_PATH_CHARACTER (m ! (u + k))"
  proof (intro allI impI)
    fix k assume "1 \<le> k \<and> k < n"
    then have "m ! (u + k) = tl uri ! (k - 1)" "k - 1 < length (tl uri)" using nth m(2) by (auto simp: nth_tl)
    then show "IS_VALID_PATH_CHARACTER (m ! (u + k))" using p by (simp add: plain_path_def list_all_length)
  qed
  moreover have "\<forall>k. 1 \<le> k \<and> k + 2 < n \<and> k < n \<longrightarrow> \<not> (m ! (u + k) = CHR ''.'' \<and> m ! (u + k + 1) = CHR ''.'' \<and> m ! (u + k + 2) = CHR ''/'')"
  proof (intro allI impI notI)
    fix k assume k: "1 \<le> k \<and> k + 2 < n \<and> k < n" "m ! (u + k) = CHR ''.'' \<and> m ! (u + k + 1) = CHR ''.'' \<and> m ! (u + k + 2) = CHR ''/''"
    then have "uri ! k = CHR ''.''" "uri ! (k + 1) = CHR ''.''" "uri ! (k + 2) = CHR ''/''"
      using nth [of k] nth [of "k + 1"] nth [of "k + 2"] by (simp_all add: add.assoc)
    then have "drop k uri = ''../'' @ drop (k + 3) uri" using k(1) m(2) by (simp add: Cons_nth_drop_Suc [symmetric] numeral_eq_Suc)
    then have "uri = take k uri @ ''../'' @ drop (k + 3) uri" by (metis append_take_drop_id)
    then show False using p by (metis occurs_iff plain_path_def)
  qed
  ultimately show ?thesis
    using http_divide_uri_plain [of m u n st n] p cap m(1,2) nth [of 0] by (simp add: plain_path_def Suc_le_eq)
qed

text \<open>The end of a request: the structure is as new, the socket awaits the next request or is closed.\<close>

lemma cleanup_law:
  assumes "i < length (lp_reqs st)" "sock_at st i = fd" "req_inv (rc_gzip (lc_resp cfg)) (lq_req (lp_reqs st ! i))" "lp_mask st fd \<noteq> None"
  shows "sock_at (cleanup_req cfg w i st) i = -1" "ready_for_request (rc_gzip (lc_resp cfg)) (lq_req (lp_reqs (cleanup_req cfg w i st) ! i))"
    "if hi_keepalive (cn_in (rq_conn (lq_req (lp_reqs st ! i)))) then lp_mask (cleanup_req cfg w i st) fd = Some EPOLLIN \<and> lp_closed (cleanup_req cfg w i st) = lp_closed st
     else lp_mask (cleanup_req cfg w i st) fd = None \<and> lp_closed (cleanup_req cfg w i st) = lp_closed st @ [fd]"
proof -
  show "sock_at (cleanup_req cfg w i st) i = -1" by (rule cleanup_touches(2) [OF assms(1,2)])
  have "lq_req (lp_reqs (cleanup_req cfg w i st) ! i) =
      fst (http_cleanup (rw_junk (lw_resp w)) (lw_base w) (rc_gzip (lc_resp cfg)) (lq_req (lp_reqs st ! i)))"
    using assms(1) by (simp add: cleanup_req_def mod_mask_def Let_def split: prod.split socket_event.split)
  then show "ready_for_request (rc_gzip (lc_resp cfg)) (lq_req (lp_reqs (cleanup_req cfg w i st) ! i))" using http_cleanup_ready [OF assms(3)] by simp
qed (use assms in \<open>auto simp: cleanup_req_def http_cleanup_def mod_mask_def Let_def\<close>)

definition lower_keys :: "(string \<times> string) list \<Rightarrow> header list" where
  "lower_keys kvs = map (\<lambda>kv. (map TO_LOWER (fst kv), snd kv)) kvs"

text \<open>
  A request for a cached content: the client's text, the path below the prefix of the cache that no page has registered,
  and what the cache has under its name.  On an IPv6 address it must not ask for keeping the connection, since
  \<^verbatim>\<open>new_keepalive_socket\<close> leaves its memory there.
\<close>

definition cached_request :: "loop_config \<Rightarrow> loop_world \<Rightarrow> loop_state \<Rightarrow> string \<Rightarrow> string \<Rightarrow> (string \<times> string) list \<Rightarrow> int \<Rightarrow> string \<Rightarrow> bool \<Rightarrow> bool" where
  "cached_request cfg w st uri ver kvs t content gz \<longleftrightarrow>
     (let rc = lc_resp cfg; wd = lw_resp w in
      well_formed ''GET'' uri ver kvs \<and> length (client_text ''GET'' uri ver kvs) \<le> HTTP_RECV_BUFFER \<and>
      lw_recv w = [Got (client_text ''GET'' uri ver kvs)] \<and> plain_path uri \<and> route_uri (rc_uri_map rc) uri = No_Handler \<and> \<not> rc_cache_update rc \<and>
      length (rc_cache_prefix rc) < length uri \<and> take (length (rc_cache_prefix rc)) uri = rc_cache_prefix rc \<and>
      cache_find (drop (length (rc_cache_prefix rc)) uri) (rc_gzip rc \<and> accepts_gzip (lower_keys kvs)) (lp_cache st) = Some (t, content, gz) \<and>
      tm_ok (rw_gmtime wd t) \<and> tm_ok (rw_gmtime wd (rw_now wd)) \<and> tm_ok (rw_gmtime wd (rw_now wd + HTTP_STATIC_EXPIRES)) \<and>
      length content < 2 ^ 31 \<and> length (rc_keepalive_timeout rc) \<le> 1000 \<and>
      (ipv6_addr (lc_server cfg) \<longrightarrow> (\<forall>kv \<in> set kvs. \<not> asks_keepalive kv)))"

text \<open>The answer: head and content, or the head only for a client that has this version; \<open>ty\<close> is the content type.\<close>

definition cached_reply :: "loop_config \<Rightarrow> loop_world \<Rightarrow> (string \<times> string) list \<Rightarrow> int \<Rightarrow> string \<Rightarrow> bool \<Rightarrow> out_req \<Rightarrow> string \<Rightarrow> string" where
  "cached_reply cfg w kvs t content gz out ty =
     (let wd = lw_resp w; code = (if not_modified (http_rfc822_date (rw_gmtime wd t)) (lower_keys kvs) then 304 else 200) in
      cached_head (rc_keepalive_timeout (lc_resp cfg)) ty code (rw_gmtime wd t) (rw_gmtime wd (rw_now wd))
        (rw_gmtime wd (rw_now wd + HTTP_STATIC_EXPIRES)) content gz out @ (if code = 304 then [] else content))"

lemma cached_request_served:
  fixes cfg w i st fd kvs
  defines "q \<equiv> lp_reqs st ! i" and "ka \<equiv> keepalive_after (loop_nks cfg w fd) kvs (False, Some (lp_keepalive st, lp_kheap st))"
  assumes i: "i < length (lp_reqs st)" "sock_at st i = fd" and rdy: "ready_for_request gzip (lq_req q)" "HTTP_PATH_PREALLOC \<le> pa_cap (lq_path q)"
    and req: "cached_request cfg w st uri ver kvs t content gz"
  shows "\<exists>c k r0 ty s. serve_req cfg w i st = Some (fst (http_send (rw_writev (lw_resp w)) r0), store_resp i s (store_conn i c k st)) \<and>
     rs_out s = snd (http_send (rw_writev (lw_resp w)) r0) \<and> rs_events s \<and> ready [] r0 \<and> \<not> o_fd r0 \<and>
     out_text r0 = cached_reply cfg w kvs t content gz ((rq_out (lq_req q))\<lparr>o_keepalive := fst ka, o_epollout := False\<rparr>) ty \<and>
     hi_keepalive (cn_in c) = fst ka \<and> buf_inv (cn_b c) \<and> b_node_size (cn_b c) = 1"
proof -
  let ?rc = "lc_resp cfg" and ?wd = "lw_resp w" and ?text = "client_text ''GET'' uri ver kvs"
  let ?out = "(rq_out (lq_req q))\<lparr>o_keepalive := fst ka, o_epollout := False\<rparr>" and ?k = "length (rc_cache_prefix (lc_resp cfg))"
  have c0: "head_inv (rq_conn (lq_req q))" "received (rq_conn (lq_req q)) = []" "\<not> hi_keepalive (cn_in (rq_conn (lq_req q)))"
    "o_vec ?out = []" "o_total ?out = 0" "\<not> o_fd ?out" using rdy(1) by (simp_all add: ready_for_request_def)
  have r: "well_formed ''GET'' uri ver kvs" "length (?text @ []) \<le> HTTP_RECV_BUFFER" "lw_recv w = [Got ?text]" "plain_path uri"
      "route_uri (rc_uri_map ?rc) uri = No_Handler" "\<not> rc_cache_update ?rc" "?k < length uri" "take ?k uri = rc_cache_prefix ?rc"
      "cache_find (drop ?k uri) (rc_gzip ?rc \<and> accepts_gzip (lower_keys kvs)) (lp_cache st) = Some (t, content, gz)"
      "tm_ok (rw_gmtime ?wd t)" "tm_ok (rw_gmtime ?wd (rw_now ?wd))" "tm_ok (rw_gmtime ?wd (rw_now ?wd + HTTP_STATIC_EXPIRES))"
      "length content < 2 ^ 31" "length (rc_keepalive_timeout ?rc) \<le> 1000"
    using req by (simp_all add: cached_request_def Let_def)
  obtain c where c: "http_serve_client (loop_nks cfg w fd) (loop_rks fd) (rw_junk ?wd) (lw_base w) (rq_conn (lq_req q)) (Some (lp_keepalive st, lp_kheap st)) [Got ?text] =
      Some (Http_Response, c, snd ka, [])" "parsed ''GET'' uri kvs c" "hi_keepalive (cn_in c) = fst ka" "buf_inv (cn_b c)" "b_node_size (cn_b c) = 1"
    using serve_whole_head [OF c0(1,2) r(1) refl r(2), where nks = "loop_nks cfg w fd" and k = "Some (lp_keepalive st, lp_kheap st)" and rks = "loop_rks fd"
        and u = "rw_junk ?wd" and base = "lw_base w" and rs = "[]"] c0(3) by (auto simp: ka_def)
  have "ipv6_addr (lc_server cfg) \<longrightarrow> (\<forall>kv \<in> set kvs. \<not> asks_keepalive kv)" using req by (simp add: cached_request_def Let_def)
  then obtain k where k: "snd ka = Some k" using loop_nks_some unfolding ka_def by blast
  let ?st = "store_conn i c k st" and ?m = "b_data (cn_b c)" and ?h = "cn_in c"
  have at: "lp_reqs ?st ! i = q\<lparr>lq_req := (lq_req q)\<lparr>rq_conn := c, rq_out := ?out\<rparr>\<rparr>" "lp_cache ?st = lp_cache st"
    using i(1) c(3) by (simp_all add: store_conn_def Let_def q_def)
  have ps: "seg ?m (uri_str ?h) (uri_str ?h + uri_len ?h) = uri" "uri_len ?h = length uri" "rd ?m (uri_str ?h + uri_len ?h) = Some NUL"
    "map (header_text ?m) (hi_p ?h) = lower_keys kvs" using c(2) unfolding parsed_def Let_def lower_keys_def by blast+
  note div = divide_plain [OF r(4) ps(1-3), of "lq_path q", OF rdy(2)]
  define code where "code = (if not_modified (http_rfc822_date (rw_gmtime ?wd t)) (lower_keys kvs) then 304 else 200 :: nat)"
  obtain r0 ty where b: "cached_build (rc_keepalive_timeout ?rc) (rw_gmtime ?wd t) (rw_gmtime ?wd (rw_now ?wd))
      (rw_gmtime ?wd (rw_now ?wd + HTTP_STATIC_EXPIRES)) uri (lower_keys kvs) content gz ?out = Some r0" "ready [] r0"
      "out_text r0 = cached_reply cfg w kvs t content gz ?out ty" and fd0: "\<not> o_fd r0"
    using cached_build_ok [OF r(10-12) c0(4-6) r(13,14) code_def] unfolding cached_reply_def Let_def code_def [symmetric] by blast
  define s where "s = \<lparr>rs_out = snd (http_send (rw_writev ?wd) r0), rs_path = (lq_path q)\<lparr>pa_path := uri, pa_query := uri_str ?h + uri_len ?h, pa_query_len := 0\<rparr>,
      rs_events = True, rs_func = lq_func q, rs_queue = lp_queue ?st, rs_posts = lp_posts ?st, rs_cache = lp_cache st, rs_file_open = lq_file_open q\<rparr>"
  have "respond cfg w i ?st = Some (fst (http_send (rw_writev ?wd) r0), store_resp i s ?st)"
    using div r(5-9) b(1) ps(4)
    by (simp add: respond_def Let_def at http_response_def answer_def s_def split: prod.split)
  then have "serve_req cfg w i st = Some (fst (http_send (rw_writev ?wd) r0), store_resp i s ?st)"
    using c(1) k i(2) r(3) by (simp add: serve_req_def Let_def q_def)
  then show ?thesis using b(2,3) c(3-5) fd0 by (intro exI [of _ c] exI [of _ k] exI [of _ r0] exI [of _ ty] exI [of _ s]) (simp add: s_def)
qed



section \<open>A server with two connections\<close>

definition idle_req :: "sock \<Rightarrow> loop_req" where
  "idle_req s = \<lparr>lq_req = \<lparr>rq_sock = s, rq_conn = fresh_conn, rq_out = sample_out, rq_gzip_buf = sample_buf\<rparr>,
     lq_path = \<lparr>pa_cap = 128, pa_path = [], pa_query = 0, pa_query_len = 0\<rparr>, lq_func = None, lq_file_open = False\<rparr>"

definition small_server :: loop_state where
  "small_server = \<lparr>lp_reqs = [idle_req 7, idle_req (-1)], lp_keepalive = fst (frag_pool_create 16 [] {}), lp_kheap = {},
     lp_queue = pqueue_create 0 2, lp_posts = 0, lp_cache = sample_cache,
     lp_accept = \<lparr>ac_limit = fst (frag_pool_create 32 [] {}), ac_lheap = {}, ac_sim = fst (frag_pool_create 4 [] {}), ac_sheap = {}, ac_added = [], ac_refused = []\<rparr>,
     lp_mask = [7 \<mapsto> EPOLLIN, 9 \<mapsto> EPOLLIN], lp_calls = [], lp_closed = []\<rparr>"

definition small_config :: loop_config where
  "small_config = \<lparr>lc_server = \<lparr>keepalive_max_conn_per_client = 2, keepalive_max_conn = 10, keepalive_timeout_val = 25,
       limit_rate = 0, limit_delay = 60, limit_sim_threshold = 3, prealloc_request_structures = 1,
       idle_request_structures = False, cfg_limit_req = True, cfg_limit_sim_req = False, ipv6_addr = False\<rparr>, lc_resp = sample_config, lc_srvfd = 3\<rparr>"

definition small_world :: "recv_result list \<Rightarrow> loop_world" where
  "small_world rs = \<lparr>lw_recv = rs, lw_resp = sample_world\<lparr>rw_writev := Done 10\<rparr>, lw_peer = (\<lambda>s. None), lw_time = 100, lw_addr = 5, lw_base = 0,
     lw_keepalive_junk = \<lparr>ks_sock = 0, ks_time = 0\<rparr>, lw_limit_junk = \<lparr>lr_addr = [], lr_time = 0, lr_dtime = 0, lr_req = 0\<rparr>, lw_req_junk = idle_req 0, lw_waiting = []\<rparr>"

lemmas small_defs = idle_req_def small_server_def small_config_def small_world_def sample_defs fresh_conn_def sample_buf_def

lemma idle_req_ready: "ready_for_request gzip (lq_req (idle_req s))"
  by (simp add: ready_for_request_def idle_req_def head_inv_def fresh_conn_def sample_buf_def sample_out_def buf_inv_def buf_used_def)

lemma small_fetch: "fetch_req small_config w 9 (lp_reqs small_server) = (1, [idle_req 7, idle_req 9])"
  by (simp add: fetch_req_def event_fetch_request_def loop_socks_def small_defs claim_req_def Let_def)

lemma small_gone:
  "\<exists>st'. loop_events small_config [(small_world [Gone], 9, EPOLLIN)] small_server = Some st' \<and> 9 \<in> set (lp_closed st')"
proof -
  have k: "remove_keepalive_socket 9 (lp_keepalive small_server) (lp_kheap small_server) = Some (lp_keepalive small_server, lp_kheap small_server)"
    by (simp add: remove_keepalive_socket_def small_server_def frag_pool_create_def)
  obtain c where "serve_req small_config (small_world [Gone]) 1 (small_server\<lparr>lp_reqs := [idle_req 7, idle_req 9]\<rparr>) =
      Some (True, store_conn 1 c (lp_keepalive small_server, lp_kheap small_server) (small_server\<lparr>lp_reqs := [idle_req 7, idle_req 9]\<rparr>))"
      "\<not> hi_keepalive (cn_in c)"
    by (simp add: serve_req_def idle_req_def fresh_conn_def small_world_def http_serve_client.simps Let_def loop_rks_def k)
  moreover have "lc_srvfd small_config = 3" by (simp add: small_config_def)
  ultimately show ?thesis
    by (simp add: small_fetch Let_def store_conn_def cleanup_req_def http_cleanup_def idle_req_def mod_mask_def)
qed

lemma small_requests: "requests_inv (loop_socks (lp_reqs small_server))"
  by (simp add: requests_inv_def loop_socks_def small_defs)

theorem loop_events_isolated_witness:
  "\<exists>st'. loop_events small_config [(small_world [Gone], 9, EPOLLIN)] small_server = Some st' \<and>
     9 \<in> set (lp_closed st') \<and> lp_reqs st' ! 0 = idle_req 7 \<and> lp_mask st' 7 = Some EPOLLIN \<and> 7 \<notin> set (lp_closed st')"
proof -
  obtain st' where st': "loop_events small_config [(small_world [Gone], 9, EPOLLIN)] small_server = Some st'" "9 \<in> set (lp_closed st')" using small_gone by blast
  have "\<exists>n st1. n \<le> 1 \<and> loop_events small_config (take n [(small_world [Gone], 9, EPOLLIN)]) small_server = Some st1 \<and>
      (n < 1 \<longrightarrow> loop_event small_config ([(small_world [Gone], 9, EPOLLIN)] ! n) st1 = None) \<and>
      lp_reqs st1 ! 0 = idle_req 7 \<and> lp_mask st1 7 = Some EPOLLIN \<and> 7 \<notin> set (lp_closed st1)"
    using loop_events_isolated [OF small_requests, of 7 0 "[(small_world [Gone], 9, EPOLLIN)]" small_config]
    by (auto simp: small_defs)
  then show ?thesis using st' by (auto simp: le_Suc_eq simp del: loop_event.simps)
qed


end
