(* ===== verification/Kqueue_Loop.thy ===== *)
theory Kqueue_Loop
  imports Event_Loop
begin

text \<open>
  \<^verbatim>\<open>event_wrapper_kqueue.c\<close>: the event loop of the BSD systems.  It has the handlers of \<open>Event_Loop\<close>; what they ask for is put into the
  filters of a kernel queue, one for reading and one for writing of each socket, which are registered or not and enabled or not.
  The lock \<^verbatim>\<open>wmutex\<close> is not part of the model: an event is handled as one step.  In the source the branch for a writable socket
  whose client is gone does without the lock that the same branch for a readable one takes, so that there the step is not protected
  against the worker threads.
\<close>

section \<open>The filters\<close>

datatype kq_filter = EVFILT_READ | EVFILT_WRITE

type_synonym kq_filters = "sock \<Rightarrow> kq_filter \<Rightarrow> bool option"

definition kqueue_change :: "sock \<Rightarrow> kq_filter \<Rightarrow> kq_filters \<Rightarrow> kq_filters" where
  "kqueue_change fd f k = k(fd := (k fd)(f \<mapsto> True))"

definition kq_disable_events :: "sock \<Rightarrow> kq_filters \<Rightarrow> kq_filters" where
  "kq_disable_events fd k = k(fd := (k fd)(EVFILT_READ \<mapsto> False))"

definition kq_set_read_mask :: "sock \<Rightarrow> kq_filters \<Rightarrow> kq_filters" where
  "kq_set_read_mask fd = kqueue_change fd EVFILT_READ"

definition kq_set_write_mask :: "sock \<Rightarrow> kq_filters \<Rightarrow> kq_filters" where
  "kq_set_write_mask fd = kqueue_change fd EVFILT_WRITE"

text \<open>The calls of the handlers; the system removes the filters of a socket that is closed.\<close>

fun kq_call :: "event_call \<Rightarrow> kq_filters \<Rightarrow> kq_filters" where
  "kq_call (Await s m) k = (if m = EPOLLIN then kq_set_read_mask s k else if m = EPOLLOUT then kq_set_write_mask s k else kq_disable_events s k)"
| "kq_call (Await_New s) k = kqueue_change s EVFILT_READ k"
| "kq_call (Drop_Sock s) k = k(s := (\<lambda>_. None))"

definition kq_filters_of :: "sock \<Rightarrow> loop_state \<Rightarrow> kq_filters" where
  "kq_filters_of srvfd st = fold kq_call (lp_calls st) (kqueue_change srvfd EVFILT_READ (\<lambda>_ _. None))"

section \<open>The dispatch\<close>

text \<open>An event has the filter, the amount of data that can be read and the flag \<^verbatim>\<open>EV_EOF\<close>.\<close>

record kevent =
  ke_ident :: sock
  ke_filter :: kq_filter
  ke_data :: nat
  ke_eof :: bool

fun kq_event :: "loop_config \<Rightarrow> loop_world \<times> kevent \<Rightarrow> loop_state \<Rightarrow> loop_state option" where
  "kq_event cfg (w, e) st =
     (let fd = ke_ident e in
      if fd = lc_srvfd cfg then admit cfg w st
      else if ke_filter e = EVFILT_READ then
        (if ke_data e = 0 \<and> ke_eof e then hang_up cfg w fd st
         else let (i, reqs) = fetch_req cfg w fd (lp_reqs st) in
              do { (b, st) \<leftarrow> serve_req cfg w i (st\<lparr>lp_reqs := reqs\<rparr>);
                   Some (if b then cleanup_req cfg w i st else st) })
      else if ke_eof e then hang_up cfg w fd st
      else out_req_event cfg w fd st)"

fun kq_events :: "loop_config \<Rightarrow> (loop_world \<times> kevent) list \<Rightarrow> loop_state \<Rightarrow> loop_state option" where
  "kq_events cfg [] st = Some st"
| "kq_events cfg (e # es) st = do { st \<leftarrow> kq_event cfg e st; kq_events cfg es st }"

text \<open>The event of epoll that means the same.\<close>

fun as_epoll :: "loop_world \<times> kevent \<Rightarrow> loop_world \<times> sock \<times> nat" where
  "as_epoll (w, e) = (w, ke_ident e, if ke_eof e \<and> (ke_filter e = EVFILT_READ \<longrightarrow> ke_data e = 0) then EPOLLHUP else if ke_filter e = EVFILT_READ then EPOLLIN else EPOLLOUT)"

lemma kq_event_as_epoll: "kq_event cfg e st = loop_event cfg (as_epoll e) st"
proof -
  have "and EPOLLHUP EPOLLHUP \<noteq> 0" by (simp add: EPOLLHUP_def)
  moreover have "EPOLLHUP \<noteq> EPOLLIN" "EPOLLHUP \<noteq> EPOLLOUT" "EPOLLOUT \<noteq> EPOLLIN" by (simp_all add: EPOLLIN_def EPOLLOUT_def EPOLLHUP_def)
  ultimately show ?thesis by (cases e; cases "ke_filter (snd e)") (auto simp: Let_def)
qed

lemma kq_events_as_epoll: "kq_events cfg es st = loop_events cfg (map as_epoll es) st"
proof (induction es arbitrary: st)
  case (Cons e es)
  then have "kq_events cfg es = loop_events cfg (map as_epoll es)" by (simp add: fun_eq_iff)
  then show ?case by (simp only: kq_events.simps loop_events.simps list.map kq_event_as_epoll)
qed simp

section \<open>What is awaited is reported\<close>

text \<open>What the filters of a socket have to be if its handlers wait for the events of a mask of epoll.\<close>

definition awaited :: "nat option \<Rightarrow> (kq_filter \<Rightarrow> bool option) \<Rightarrow> bool" where
  "awaited m k \<longleftrightarrow> (m = Some EPOLLIN \<longrightarrow> k EVFILT_READ = Some True) \<and> (m = Some EPOLLOUT \<longrightarrow> k EVFILT_WRITE = Some True) \<and>
     (m = Some 0 \<longrightarrow> k EVFILT_READ = Some False)"

definition kq_inv :: "sock \<Rightarrow> loop_state \<Rightarrow> bool" where
  "kq_inv srvfd st \<longleftrightarrow> (\<forall>s. awaited (lp_mask st s) (kq_filters_of srvfd st s))"

lemma masks_differ: "EPOLLIN \<noteq> EPOLLOUT" "EPOLLIN \<noteq> 0" "EPOLLOUT \<noteq> 0"
  by (simp_all add: EPOLLIN_def EPOLLOUT_def)

lemmas kq_defs = kq_set_read_mask_def kq_set_write_mask_def kqueue_change_def kq_disable_events_def

lemma kq_filters_of_call: "lp_calls st' = lp_calls st @ cs \<Longrightarrow> kq_filters_of srvfd st' = fold kq_call cs (kq_filters_of srvfd st)"
  by (simp add: kq_filters_of_def)

lemma kq_inv_same: "kq_inv srvfd st \<Longrightarrow> lp_mask st' = lp_mask st \<Longrightarrow> lp_calls st' = lp_calls st \<Longrightarrow> kq_inv srvfd st'"
  by (simp add: kq_inv_def kq_filters_of_def)

lemma kq_inv_mod_mask: "kq_inv srvfd st \<Longrightarrow> m \<in> {EPOLLIN, EPOLLOUT, 0} \<Longrightarrow> kq_inv srvfd (mod_mask s m st)"
  using masks_differ kq_filters_of_call [of "mod_mask s m st" st "[Await s m]" srvfd]
  by (auto simp: kq_inv_def awaited_def mod_mask_def kq_defs)

lemma kq_inv_drop:
  "kq_inv srvfd st \<Longrightarrow> lp_mask st' = (lp_mask st)(s := None) \<Longrightarrow> lp_calls st' = lp_calls st @ [Drop_Sock s] \<Longrightarrow> kq_inv srvfd st'"
  using kq_filters_of_call [of st' st "[Drop_Sock s]" srvfd] by (auto simp: kq_inv_def awaited_def)

lemma kq_inv_new:
  "kq_inv srvfd st \<Longrightarrow> lp_mask st' = foldl (\<lambda>M s. M(s \<mapsto> EPOLLIN)) (lp_mask st) ss \<Longrightarrow> lp_calls st' = lp_calls st @ map Await_New ss \<Longrightarrow> kq_inv srvfd st'"
proof -
  have "\<forall>s. awaited (M s) (k s) \<Longrightarrow> \<forall>s. awaited (foldl (\<lambda>M s. M(s \<mapsto> EPOLLIN)) M ss s) (fold kq_call (map Await_New ss) k s)" for M k
  proof (induction ss arbitrary: M k)
    case (Cons x ss)
    have "\<forall>s. awaited ((M(x \<mapsto> EPOLLIN)) s) (kqueue_change x EVFILT_READ k s)"
      using Cons.prems masks_differ by (auto simp: awaited_def kqueue_change_def)
    then show ?case using Cons.IH by simp
  qed simp
  then show "kq_inv srvfd st \<Longrightarrow> lp_mask st' = foldl (\<lambda>M s. M(s \<mapsto> EPOLLIN)) (lp_mask st) ss \<Longrightarrow> lp_calls st' = lp_calls st @ map Await_New ss \<Longrightarrow> kq_inv srvfd st'"
    using kq_filters_of_call [of st' st "map Await_New ss" srvfd] by (simp add: kq_inv_def)
qed

lemma kq_inv_cleanup: "kq_inv srvfd st \<Longrightarrow> kq_inv srvfd (cleanup_req cfg w i st)"
  by (auto simp: cleanup_req_def Let_def intro!: kq_inv_mod_mask split: prod.split socket_event.split
      elim: kq_inv_same [of srvfd st] kq_inv_drop [of srvfd st])

lemma kq_inv_store_out: "kq_inv srvfd st \<Longrightarrow> kq_inv srvfd (store_out i out st)"
  by (auto simp: store_out_def Let_def intro!: kq_inv_mod_mask elim: kq_inv_same [of srvfd st])

lemma kq_inv_store_resp: "kq_inv srvfd st \<Longrightarrow> kq_inv srvfd (store_resp i s st)"
  by (auto simp: store_resp_def Let_def intro!: kq_inv_mod_mask kq_inv_store_out elim: kq_inv_same [of srvfd st])

lemma kq_inv_serve:
  assumes "kq_inv srvfd st" "serve_req cfg w i st = Some (b, st')"
  shows "kq_inv srvfd st'"
proof -
  have c: "kq_inv srvfd (store_conn i c k st)" for c k
    using assms(1) by (rule kq_inv_same) (simp_all add: store_conn_def Let_def)
  show ?thesis using serve_req_shape [OF assms(2)] kq_inv_store_out [OF c] kq_inv_store_resp [OF c] c by metis
qed

lemma kq_inv_out_event: "kq_inv srvfd st \<Longrightarrow> out_req_event cfg w fd st = Some st' \<Longrightarrow> kq_inv srvfd st'"
  by (auto simp: out_req_event_def Let_def bind_eq_Some_conv intro!: kq_inv_cleanup elim: kq_inv_same [of srvfd st] split: option.splits if_splits)

lemma kq_inv_hang_up: "kq_inv srvfd st \<Longrightarrow> hang_up cfg w fd st = Some st' \<Longrightarrow> kq_inv srvfd st'"
  by (auto simp: hang_up_def Let_def bind_eq_Some_conv intro!: kq_inv_cleanup elim: kq_inv_same [of srvfd st] split: option.splits)

lemma kq_inv_admit: "kq_inv srvfd st \<Longrightarrow> admit cfg w st = Some st' \<Longrightarrow> kq_inv srvfd st'"
  by (auto simp: admit_def bind_eq_Some_conv elim!: kq_inv_new)

lemma kq_inv_event:
  assumes "kq_inv srvfd st" "kq_event cfg (w, e) st = Some st'"
  shows "kq_inv srvfd st'"
proof -
  obtain i reqs where f: "fetch_req cfg w (ke_ident e) (lp_reqs st) = (i, reqs)" by (cases "fetch_req cfg w (ke_ident e) (lp_reqs st)")
  have "kq_inv srvfd (st\<lparr>lp_reqs := reqs\<rparr>)" using assms(1) by (rule kq_inv_same) simp_all
  then show ?thesis using assms f kq_inv_serve kq_inv_cleanup kq_inv_out_event [OF assms(1)] kq_inv_hang_up [OF assms(1)] kq_inv_admit [OF assms(1)]
    by (auto simp: Let_def bind_eq_Some_conv split: if_splits)
qed

lemma kq_inv_events: "kq_inv srvfd st \<Longrightarrow> kq_events cfg es st = Some st' \<Longrightarrow> kq_inv srvfd st'"
proof (induction es arbitrary: st)
  case (Cons e es)
  obtain w k where e: "e = (w, k)" by (cases e)
  obtain st1 where st1: "kq_event cfg (w, k) st = Some st1" "kq_events cfg es st1 = Some st'"
    using Cons.prems(2) e by (auto simp: bind_eq_Some_conv simp del: kq_event.simps)
  show ?case by (rule Cons.IH [OF kq_inv_event [OF Cons.prems(1) st1(1)] st1(2)])
qed simp



section \<open>The filter for writing stays\<close>

lemma kq_write_kept: "k s EVFILT_WRITE = Some True \<Longrightarrow> Drop_Sock s \<notin> set cs \<Longrightarrow> fold kq_call cs k s EVFILT_WRITE = Some True"
proof (induction cs arbitrary: k)
  case (Cons c cs)
  have "kq_call c k s EVFILT_WRITE = Some True"
    using Cons.prems by (cases c) (auto simp: kqueue_change_def kq_set_read_mask_def kq_set_write_mask_def kq_disable_events_def)
  then show ?case using Cons by simp
qed simp

text \<open>
  A connection that had to wait for writing once is reported as writable ever after, as long as it is open: its filter is
  neither disabled nor removed, whatever the handlers ask for.  And such an event, when the connection has a request that is
  not yet complete, ends the request: what was received of it is dropped, and without keep-alive the connection is closed.
\<close>

theorem kqueue_write_filter_stays:
  assumes "lp_calls st = cs @ Await s EPOLLOUT # cs'" "Drop_Sock s \<notin> set cs'"
  shows "kq_filters_of srvfd st s EVFILT_WRITE = Some True"
proof -
  have "kq_call (Await s EPOLLOUT) k s EVFILT_WRITE = Some True" for k
    by (simp add: kq_set_write_mask_def kqueue_change_def EPOLLIN_def EPOLLOUT_def)
  then show ?thesis using assms by (simp add: kq_filters_of_def kq_write_kept del: kq_call.simps)
qed

theorem kqueue_write_event_ends_request:
  assumes "ke_ident e \<noteq> lc_srvfd cfg" "ke_filter e = EVFILT_WRITE" "\<not> ke_eof e"
    and "find_from (\<lambda>s. s = ke_ident e) 0 (loop_socks (lp_reqs st)) = Some i" "i < length (lp_reqs st)"
    and "o_total (rq_out (lq_req (lp_reqs st ! i))) = 0" "\<not> o_fd (rq_out (lq_req (lp_reqs st ! i)))"
  shows "\<exists>st'. kq_event cfg (w, e) st = Some st' \<and> sock_at st' i = -1 \<and> uri_len (cn_in (rq_conn (lq_req (lp_reqs st' ! i)))) = 0 \<and>
    (\<not> hi_keepalive (cn_in (rq_conn (lq_req (lp_reqs st ! i)))) \<longrightarrow> sock_at st i \<in> set (lp_closed st'))"
  using assms by (auto simp: out_req_event_def events_out_data_def Let_def cleanup_req_def http_cleanup_def mod_mask_def)

end
