(* ===== verification/Core_Process.thy ===== *)
theory Core_Process
  imports Common_Strings File_Storage
begin

text \<open>
  \<^verbatim>\<open>core_process.c\<close>, the command line of \<^verbatim>\<open>main.c\<close> and the shutdown of \<^verbatim>\<open>core_server.c\<close>: the master process takes the
  pid file as a lock, starts the worker under another identity and starts it again when it ends.  Whether a process can
  be signalled, the lookups of users and groups and the ends of the workers are arguments.
\<close>

section \<open>The pid file\<close>

text \<open>\<^verbatim>\<open>fscanf(f, "%d", &p)\<close>: the value, a mismatch (result 0) or the end of the file (result \<^verbatim>\<open>EOF\<close>, \<open>p\<close> as it was).\<close>

datatype fscanf_result = At_End | No_Match | Matched int

definition fscanf_int :: "string \<Rightarrow> fscanf_result" where
  "fscanf_int s =
     (case dropWhile isspace s of
        [] \<Rightarrow> At_End
      | c # cs \<Rightarrow>
          (case (if c = CHR ''-'' \<or> c = CHR ''+'' then cs else c # cs) of
             [] \<Rightarrow> No_Match
           | d # ds \<Rightarrow> if IS_DIGIT d then Matched (atoi s) else No_Match))"

type_synonym pidfile = "string option"

datatype lock_result = Locked | Already_Running | Lock_Error

definition pid_text :: "int \<Rightarrow> string" where
  "pid_text pid = (if pid < 0 then ''-'' else []) @ numeral_of 10 (nat \<bar>pid\<bar>) @ [LF]"

text \<open>
  \<^verbatim>\<open>create_pidfile\<close> looks at the file and at the process it names first: \<open>signal_ok\<close> is the success of \<^verbatim>\<open>kill(p, 0)\<close>, which is
  also denied for a process of another user (\<^verbatim>\<open>EPERM\<close>).  Then it writes the file, if it is free.
\<close>

datatype pid_check = Pid_Free | Pid_Mine | Pid_Taken

definition check_pidfile :: "(int \<Rightarrow> bool) \<Rightarrow> int \<Rightarrow> pidfile \<Rightarrow> pid_check" where
  "check_pidfile signal_ok pid file =
     (case file of
        None \<Rightarrow> Pid_Free
      | Some s \<Rightarrow>
          (case fscanf_int s of
             No_Match \<Rightarrow> Pid_Free
           | At_End \<Rightarrow> Pid_Free
           | Matched p \<Rightarrow>
               if p = 0 then Pid_Free
               else if pid \<noteq> p then (if signal_ok p then Pid_Taken else Pid_Free)
               else Pid_Mine))"

definition write_pidfile :: "bool \<Rightarrow> int \<Rightarrow> pidfile \<Rightarrow> lock_result \<times> pidfile" where
  "write_pidfile writable pid file = (if writable then (Locked, Some (pid_text pid)) else (Lock_Error, file))"

definition create_pidfile :: "(int \<Rightarrow> bool) \<Rightarrow> bool \<Rightarrow> int \<Rightarrow> pidfile \<Rightarrow> lock_result \<times> pidfile" where
  "create_pidfile signal_ok writable pid file =
     (case check_pidfile signal_ok pid file of
        Pid_Free \<Rightarrow> write_pidfile writable pid file
      | Pid_Mine \<Rightarrow> (Locked, file)
      | Pid_Taken \<Rightarrow> (Already_Running, file))"

definition remove_pidfile :: "bool \<Rightarrow> pidfile \<Rightarrow> pidfile" where
  "remove_pidfile allowed file = (if allowed then None else file)"

datatype kill_result = Not_Running | Signalled int | Kill_Error int

definition kill_master_process :: "(int \<Rightarrow> bool) \<Rightarrow> bool \<Rightarrow> pidfile \<Rightarrow> kill_result \<times> pidfile" where
  "kill_master_process signal_ok allowed file =
     (case file of
        None \<Rightarrow> (Not_Running, file)
      | Some s \<Rightarrow>
          (case fscanf_int s of
             No_Match \<Rightarrow> (Not_Running, remove_pidfile allowed file)
           | At_End \<Rightarrow> (if signal_ok 0 then Signalled 0 else Kill_Error 0, file)
           | Matched p \<Rightarrow> (if signal_ok p then Signalled p else Kill_Error p, file)))"

section \<open>Master and worker\<close>

definition statustomsg :: "nat \<Rightarrow> string option" where
  "statustomsg status =
     (if status = 2 then Some ''INT''
      else if status = 9 then Some ''KILL''
      else if status = 11 then Some ''SEGV - segmentation fault''
      else if status = 15 then Some ''TERM''
      else if status = WORKER_RESTART_STATUS_CODE then Some ''Scheduled restart''
      else None)"

text \<open>The name of the process is overwritten in place, as far as there is room.\<close>

definition setprocname :: "mem \<Rightarrow> nat \<Rightarrow> string \<Rightarrow> mem option" where
  "setprocname m p newprocname =
     do { e \<leftarrow> scan (\<lambda>c. c = NUL) m p;
          let len = e - p; let k = min len (length newprocname);
          Some (take p m @ take k newprocname @ replicate (len - k) NUL @ drop e m) }"

text \<open>
  The identity of a process whose real, effective and saved numbers agree.  A call changes a number for a privileged
  process (user 0), or leaves it; otherwise it fails.
\<close>

record cred =
  cr_uid :: nat
  cr_gid :: nat

definition setuid_call :: "nat \<Rightarrow> cred \<Rightarrow> bool \<times> cred" where
  "setuid_call u c = (if cr_uid c = 0 \<or> u = cr_uid c then (True, c\<lparr>cr_uid := u\<rparr>) else (False, c))"

definition setgid_call :: "nat \<Rightarrow> cred \<Rightarrow> bool \<times> cred" where
  "setgid_call g c = (if cr_uid c = 0 \<or> g = cr_gid c then (True, c\<lparr>cr_gid := g\<rparr>) else (False, c))"

definition WORKER_GROUP_DEFAULT :: string where "WORKER_GROUP_DEFAULT = ''nobody''"

definition worker_identity :: "(string \<Rightarrow> (nat \<times> nat) option) \<Rightarrow> (string \<Rightarrow> nat option) \<Rightarrow> string \<Rightarrow> string \<Rightarrow> cred \<Rightarrow> cred option" where
  "worker_identity getpwnam getgrnam user grp_name c =
     (case getpwnam user of
        None \<Rightarrow> None
      | Some (pw_uid, pw_gid) \<Rightarrow>
          let c = snd (setuid_call pw_uid c);
              grp = (case getgrnam grp_name of None \<Rightarrow> getgrnam WORKER_GROUP_DEFAULT | g \<Rightarrow> g) in
          Some (snd (setgid_call (case grp of None \<Rightarrow> pw_gid | Some g \<Rightarrow> g) c)))"

text \<open>How a worker ended, and what the master does then: start the next one (with the message it logs) or exit.\<close>

datatype wait_status = Exited nat | Killed nat

datatype master_next = Respawn "8 word" "nat \<times> string option" | Stop int

definition after_worker :: "8 word \<Rightarrow> wait_status \<times> int \<Rightarrow> master_next" where
  "after_worker respawn_fails e =
     (case e of
        (Exited status, t) \<Rightarrow>
          if status \<noteq> WORKER_RESTART_STATUS_CODE then Stop (int status) else Respawn respawn_fails (status, statustomsg status)
      | (Killed status, t) \<Rightarrow>
          let f = (if t \<le> 1 then respawn_fails + 1 else 0) in
          if f > 10 then Stop (-1) else Respawn f (status, statustomsg status))"

text \<open>The loop of \<^verbatim>\<open>spawn_worker\<close> in the master, over the ends of its workers: the exit code, or none while it is running.\<close>

fun supervise :: "8 word \<Rightarrow> (wait_status \<times> int) list \<Rightarrow> int option" where
  "supervise f [] = None"
| "supervise f (e # es) = (case after_worker f e of Stop c \<Rightarrow> Some c | Respawn f' _ \<Rightarrow> supervise f' es)"


section \<open>When the master gives up\<close>

fun is_crash :: "wait_status \<times> int \<Rightarrow> bool" where
  "is_crash (Killed _, _) = True"
| "is_crash (Exited _, _) = False"

abbreviation quick :: "wait_status \<times> int \<Rightarrow> bool" where
  "quick e \<equiv> snd e \<le> 1"

definition crashes :: "(wait_status \<times> int) list \<Rightarrow> (wait_status \<times> int) list" where
  "crashes h = filter is_crash h"

text \<open>
  The end of the last worker of a history is tolerated if it was a scheduled restart, or a crash such that the last
  eleven crashes were not all within a second of the start of their worker.
\<close>

definition tolerated :: "(wait_status \<times> int) list \<Rightarrow> bool" where
  "tolerated h \<longleftrightarrow>
     (case fst (last h) of
        Exited status \<Rightarrow> status = WORKER_RESTART_STATUS_CODE
      | Killed _ \<Rightarrow> \<not> (11 \<le> length (crashes h) \<and> (\<forall>e \<in> set (take 11 (rev (crashes h))). quick e)))"

fun exit_code :: "wait_status \<Rightarrow> int" where
  "exit_code (Exited status) = int status"
| "exit_code (Killed _) = -1"

lemma takeWhile_length_ge: "n \<le> length (takeWhile P xs) \<longleftrightarrow> n \<le> length xs \<and> (\<forall>x \<in> set (take n xs). P x)"
proof (induction xs arbitrary: n)
  case (Cons x xs)
  then show ?case by (cases n) auto
qed simp

text \<open>The counter of the master counts the last crashes that were quick; it never wraps around.\<close>

definition counts :: "8 word \<Rightarrow> (wait_status \<times> int) list \<Rightarrow> bool" where
  "counts f h \<longleftrightarrow> unat f = length (takeWhile quick (rev (crashes h))) \<and> unat f \<le> 10"

lemma after_worker_step:
  assumes "counts f h"
  shows "if tolerated (h @ [e]) then \<exists>f' msg. after_worker f e = Respawn f' msg \<and> counts f' (h @ [e])
         else after_worker f e = Stop (exit_code (fst e))"
proof (cases e)
  case (Pair ws t)
  show ?thesis
  proof (cases ws)
    case (Exited status)
    then show ?thesis using assms Pair by (simp add: tolerated_def after_worker_def counts_def crashes_def)
  next
    case (Killed sig)
    let ?f = "if t \<le> 1 then f + 1 else 0"
    have "unat (f + 1) = unat f + 1" using assms by (simp add: counts_def unat_word_ariths)
    then have f: "unat ?f = length (takeWhile quick (rev (crashes (h @ [e]))))"
      using assms Pair Killed by (simp add: counts_def crashes_def)
    have "tolerated (h @ [e]) \<longleftrightarrow> \<not> 11 \<le> unat ?f"
      using takeWhile_length_ge [of 11 quick "rev (crashes (h @ [e]))"] f Pair Killed by (simp add: tolerated_def)
    moreover have "?f > 10 \<longleftrightarrow> 11 \<le> unat ?f" by (auto simp: word_less_nat_alt)
    ultimately show ?thesis using f Pair Killed by (simp add: after_worker_def Let_def counts_def split: if_splits)
  qed
qed

lemma supervise_history:
  assumes "counts f h"
  shows "supervise f es = None \<longleftrightarrow> (\<forall>k < length es. tolerated (h @ take (Suc k) es))"
    and "supervise f es = Some c \<Longrightarrow>
      \<exists>k < length es. (\<forall>j < k. tolerated (h @ take (Suc j) es)) \<and> \<not> tolerated (h @ take (Suc k) es) \<and> c = exit_code (fst (es ! k))"
  using assms
proof (induction es arbitrary: f h)
  case (Cons e es)
  {
    case 1
    show ?case
    proof (cases "tolerated (h @ [e])")
      case True
      then obtain f' msg where f: "after_worker f e = Respawn f' msg" "counts f' (h @ [e])" using after_worker_step [OF 1, of e] by auto
      show ?thesis using True f(1) Cons(1) [OF f(2)] by (auto simp: less_Suc_eq_0_disj)
    qed (use after_worker_step [OF 1, of e] in auto)
  next
    case 2
    show ?case
    proof (cases "tolerated (h @ [e])")
      case True
      then obtain f' msg where f: "after_worker f e = Respawn f' msg" "counts f' (h @ [e])" using after_worker_step [OF 2(2), of e] by auto
      then obtain k where "k < length es" "\<forall>j < k. tolerated (h @ e # take (Suc j) es)" "\<not> tolerated (h @ e # take (Suc k) es)" "c = exit_code (fst (es ! k))"
        using Cons(2) [OF _ f(2)] 2(1) by auto
      then show ?thesis using True by (intro exI [of _ "Suc k"]) (auto simp: less_Suc_eq_0_disj)
    next
      case False
      then show ?thesis using after_worker_step [OF 2(2), of e] 2(1) by (intro exI [of _ 0]) auto
    qed
  }
qed simp_all

text \<open>
  C14.  The master keeps the server running: after every scheduled restart and after every crash a new worker is
  started, until a worker exits by itself (its status becomes the master's) or the last eleven crashes were all
  within a second, however many restarts and slower crashes came before; the counter of eight bits does not wrap around.
\<close>

theorem master_keeps_worker:
  "case supervise 0 es of
     None \<Rightarrow> \<forall>k < length es. tolerated (take (Suc k) es)
   | Some code \<Rightarrow> \<exists>k < length es. (\<forall>j < k. tolerated (take (Suc j) es)) \<and> \<not> tolerated (take (Suc k) es) \<and> code = exit_code (fst (es ! k))"
proof -
  have "counts 0 []" by (simp add: counts_def crashes_def)
  then show ?thesis using supervise_history [of 0 "[]" es] by (auto split: option.split)
qed

theorem master_keeps_worker_witness:
  "supervise 0 (replicate 10 (Killed 11, 0) @ [(Exited 254, 5), (Killed 11, 0), (Exited 254, 9)]) = Some (-1) \<and>
   (\<exists>k < 13. \<not> tolerated (take (Suc k) (replicate 10 (Killed 11, 0) @ [(Exited 254, 5), (Killed 11, 0), (Exited 254, 9)])))"
proof -
  let ?es = "replicate 10 (Killed 11, 0) @ [(Exited 254, 5), (Killed 11, 0), (Exited 254, 9)]"
  have "supervise 0 ?es = Some (-1)" by code_simp
  then show ?thesis using master_keeps_worker [of ?es] by auto
qed


section \<open>One master at a time\<close>

text \<open>
  Processes on the machine: the pid file, the masters among them, those on the way to become one, and all process numbers
  in use.  A start of a master is three steps, between which others can run: \<open>check_pidfile\<close>, the opening for
  writing, which empties the file (\<open>True\<close> in \<open>ma_starting\<close>), and the writing of the number.
  Three flags tell what is allowed to happen: \<open>removes\<close>, that a worker that quits has the right to remove the file
  (it calls \<^verbatim>\<open>remove_pidfile\<close>); \<open>overlap\<close>, that a master starts while another one is between its steps; and
  \<open>foreign\<close>, that a process in use cannot be signalled by the one that starts.
\<close>

record machine =
  ma_file :: pidfile
  ma_masters :: "int set"
  ma_starting :: "int \<rightharpoonup> bool"
  ma_procs :: "int set"

definition may_start :: "bool \<Rightarrow> bool \<Rightarrow> (int \<Rightarrow> bool) \<Rightarrow> int \<Rightarrow> machine \<Rightarrow> bool" where
  "may_start overlap foreign k p s \<longleftrightarrow> p \<notin> ma_procs s \<and> 0 < p \<and> p < 2 ^ 31 \<and>
     (overlap \<or> ma_starting s = Map.empty) \<and> (foreign \<or> (\<forall>q \<in> ma_procs s. k q))"

inductive machine_step :: "bool \<Rightarrow> bool \<Rightarrow> bool \<Rightarrow> machine \<Rightarrow> machine \<Rightarrow> bool" for removes overlap foreign where
  looks: "may_start overlap foreign k p s \<Longrightarrow> check_pidfile k p (ma_file s) = Pid_Free \<Longrightarrow>
    machine_step removes overlap foreign s (s\<lparr>ma_starting := (ma_starting s)(p \<mapsto> False), ma_procs := insert p (ma_procs s)\<rparr>)"
| finds_own: "may_start overlap foreign k p s \<Longrightarrow> check_pidfile k p (ma_file s) = Pid_Mine \<Longrightarrow>
    machine_step removes overlap foreign s (s\<lparr>ma_masters := insert p (ma_masters s), ma_procs := insert p (ma_procs s)\<rparr>)"
| opens: "ma_starting s p = Some False \<Longrightarrow>
    machine_step removes overlap foreign s (s\<lparr>ma_file := Some [], ma_starting := (ma_starting s)(p \<mapsto> True)\<rparr>)"
| writes: "ma_starting s p = Some True \<Longrightarrow> write_pidfile True p (ma_file s) = (Locked, f) \<Longrightarrow>
    machine_step removes overlap foreign s
      (s\<lparr>ma_file := f, ma_masters := insert p (ma_masters s), ma_starting := (ma_starting s)(p := None)\<rparr>)"
| master_ends: "p \<in> ma_masters s \<Longrightarrow>
    machine_step removes overlap foreign s (s\<lparr>ma_masters := ma_masters s - {p}, ma_procs := ma_procs s - {p}\<rparr>)"
| worker_quits: "machine_step removes overlap foreign s (s\<lparr>ma_file := remove_pidfile removes (ma_file s)\<rparr>)"
| kill_command: "kill_master_process k allowed (ma_file s) = (r, f) \<Longrightarrow> machine_step removes overlap foreign s (s\<lparr>ma_file := f\<rparr>)"
| process_starts: "q \<notin> ma_procs s \<Longrightarrow> machine_step removes overlap foreign s (s\<lparr>ma_procs := insert q (ma_procs s)\<rparr>)"
| process_ends: "q \<notin> ma_masters s \<Longrightarrow>
    machine_step removes overlap foreign s (s\<lparr>ma_starting := (ma_starting s)(q := None), ma_procs := ma_procs s - {q}\<rparr>)"

lemma pid_text_scanned:
  assumes "0 < p" "p < 2 ^ 31"
  shows "fscanf_int (pid_text p) = Matched p"
proof -
  obtain c cs where d: "numeral_of 10 (nat p) = c # cs" by (cases "numeral_of 10 (nat p)") auto
  have c: "IS_DIGIT c" "digits_value 0 (c # cs) = nat p" using numeral_of_10 [of "nat p"] d by auto
  then have s: "\<not> isspace c" "c \<noteq> CHR ''-''" "c \<noteq> CHR ''+''" by (auto simp: IS_DIGIT_def isspace_def)
  have "\<not> IS_DIGIT LF" by (simp add: IS_DIGIT_def)
  then have "digits_value 0 (c # cs @ [LF]) = nat p" using digits_value_stop [of LF 0 "c # cs" "[]"] c(2) by simp
  then have "strtol (c # cs @ [LF]) = p" using s assms by (simp add: strtol_def)
  then have "atoi (c # cs @ [LF]) = p" using assms signed_take_bit_int_eq_self [of 31 p] by (simp add: atoi_def)
  then show ?thesis using assms(1) s c(1) by (simp add: fscanf_int_def pid_text_def d)
qed

definition lock_inv :: "machine \<Rightarrow> bool" where
  "lock_inv s \<longleftrightarrow> ma_masters s \<subseteq> ma_procs s \<and> (\<forall>p \<in> dom (ma_starting s). 0 < p \<and> p < 2 ^ 31 \<and> p \<in> ma_procs s \<and> dom (ma_starting s) = {p}) \<and>
     (\<forall>m \<in> ma_masters s. ma_starting s = Map.empty \<and> 0 < m \<and> (\<exists>t. ma_file s = Some t \<and> fscanf_int t = Matched m))"

lemma lock_invD:
  "lock_inv s \<Longrightarrow> m \<in> ma_masters s \<Longrightarrow> m \<in> ma_procs s \<and> 0 < m \<and> ma_starting s = Map.empty \<and> (\<exists>t. ma_file s = Some t \<and> fscanf_int t = Matched m)"
  unfolding lock_inv_def by (meson subsetD)

lemma lock_inv_unique: "lock_inv s \<Longrightarrow> m \<in> ma_masters s \<Longrightarrow> m' \<in> ma_masters s \<Longrightarrow> m = m'"
  unfolding lock_inv_def by (metis option.inject fscanf_result.inject)

text \<open>While a master runs, nobody finds the file free.\<close>

lemma master_seen:
  assumes "lock_inv s" "may_start False False k p s" "m \<in> ma_masters s"
  shows "check_pidfile k p (ma_file s) = Pid_Taken"
proof -
  obtain t where m: "m \<in> ma_procs s" "0 < m" "ma_file s = Some t" "fscanf_int t = Matched m"
    using lock_invD [OF assms(1,3)] by (elim conjE exE)
  then have "k m" "m \<noteq> p" using assms(2) by (auto simp: may_start_def)
  then show ?thesis using m by (simp add: check_pidfile_def)
qed

lemma machine_step_lock:
  assumes "machine_step False False False s s'" "lock_inv s"
  shows "lock_inv s'"
  using assms(1)
proof (cases rule: machine_step.cases)
  case (looks k p)
  then have "ma_masters s = {}" using master_seen [OF assms(2) looks(2)] by fastforce
  then show ?thesis using looks assms(2) by (auto simp: lock_inv_def may_start_def)
next
  case (finds_own k p)
  then have "ma_masters s = {}" using master_seen [OF assms(2) finds_own(2)] by fastforce
  moreover have "\<exists>t. ma_file s = Some t \<and> fscanf_int t = Matched p"
    using finds_own(3) by (auto simp: check_pidfile_def split: option.splits fscanf_result.splits if_splits)
  ultimately show ?thesis using finds_own assms(2) by (auto simp: lock_inv_def may_start_def)
next
  case (opens p)
  then have "ma_masters s = {}" "dom (ma_starting s) = {p}" using assms(2) by (auto simp: lock_inv_def)
  then show ?thesis using opens assms(2) by (auto simp: lock_inv_def)
next
  case (writes p f)
  have p: "ma_masters s = {}" "dom (ma_starting s) = {p}" "0 < p" "p < 2 ^ 31" "p \<in> ma_procs s"
    using writes(2) assms(2) by (auto simp: lock_inv_def)
  then have "(ma_starting s)(p := None) = Map.empty" by (auto simp: fun_eq_iff)
  then show ?thesis using p writes pid_text_scanned [OF p(3,4)] by (auto simp: lock_inv_def write_pidfile_def)
next
  case (kill_command k allowed r f)
  have "f = ma_file s" if m: "m \<in> ma_masters s" for m
  proof -
    obtain t where "ma_file s = Some t" "fscanf_int t = Matched m" using lock_invD [OF assms(2) m] by (elim conjE exE)
    then show ?thesis using kill_command(2) by (simp add: kill_master_process_def)
  qed
  then consider "ma_masters s = {}" | "f = ma_file s" by blast
  then show ?thesis using kill_command(1) assms(2) by cases (simp_all add: lock_inv_def)
next
  case (process_ends q)
  then show ?thesis using assms(2) by (auto simp: lock_inv_def fun_eq_iff)
qed (use assms(2) in \<open>auto simp: lock_inv_def remove_pidfile_def\<close>)

definition no_masters :: machine where
  "no_masters = \<lparr>ma_file = None, ma_masters = {}, ma_starting = Map.empty, ma_procs = {}\<rparr>"

text \<open>
  C13.  The pid file is a lock under three conditions: the workers have no right to remove it, no master starts while another
  one is just starting, and every process in use can be signalled by the user who starts a master.  Then, whatever masters are
  started, end or are killed, and whatever other processes come and go with whatever numbers (also a stale or damaged pid
  file is allowed at the beginning), there is never more than one master.  Without any one of the conditions there can be two
  (\<^verbatim>\<open>two_masters\<close>, \<^verbatim>\<open>two_masters_race\<close> and \<^verbatim>\<open>two_masters_foreign\<close> below).
\<close>

theorem one_master:
  assumes "(machine_step False False False)\<^sup>*\<^sup>* s s'" "ma_masters s = {}" "ma_starting s = Map.empty"
  shows "\<forall>m \<in> ma_masters s'. \<forall>m' \<in> ma_masters s'. m = m'"
proof -
  have "lock_inv s" using assms(2,3) by (simp add: lock_inv_def)
  with assms(1) have "lock_inv s'" by (induction rule: rtranclp_induct) (auto intro: machine_step_lock)
  then show ?thesis using lock_inv_unique by blast
qed

text \<open>A start without interruption: \<open>create_pidfile\<close> on a file that is free.\<close>

lemma start_run:
  assumes "may_start ov f k p s" "check_pidfile k p (ma_file s) = Pid_Free" "ma_starting s p = None"
  shows "(machine_step r ov f)\<^sup>*\<^sup>* s (s\<lparr>ma_file := snd (create_pidfile k True p (ma_file s)), ma_masters := insert p (ma_masters s), ma_procs := insert p (ma_procs s)\<rparr>)"
proof -
  let ?s1 = "s\<lparr>ma_starting := (ma_starting s)(p \<mapsto> False), ma_procs := insert p (ma_procs s)\<rparr>"
  let ?s2 = "?s1\<lparr>ma_file := Some [], ma_starting := (ma_starting ?s1)(p \<mapsto> True)\<rparr>"
  let ?s3 = "?s2\<lparr>ma_file := Some (pid_text p), ma_masters := insert p (ma_masters ?s2), ma_starting := (ma_starting ?s2)(p := None)\<rparr>"
  have 1: "machine_step r ov f s ?s1" using machine_step.looks [OF assms(1,2)] .
  have 2: "machine_step r ov f ?s1 ?s2" by (rule machine_step.opens) simp
  have 3: "machine_step r ov f ?s2 ?s3" by (rule machine_step.writes) (simp_all add: write_pidfile_def)
  have "(ma_starting s)(p := None) = ma_starting s" using assms(3) by (auto simp: fun_eq_iff)
  then have "?s3 = s\<lparr>ma_file := snd (create_pidfile k True p (ma_file s)), ma_masters := insert p (ma_masters s), ma_procs := insert p (ma_procs s)\<rparr>"
    using assms(2) by (simp add: create_pidfile_def write_pidfile_def)
  then show ?thesis using 1 2 3 by (metis (no_types, lifting) converse_rtranclp_into_rtranclp rtranclp.rtrancl_refl)
qed

lemma first_master: "(machine_step r ov f)\<^sup>*\<^sup>* no_masters \<lparr>ma_file = Some (pid_text 5), ma_masters = {5}, ma_starting = Map.empty, ma_procs = {5}\<rparr>"
  using start_run [of ov f "\<lambda>_. True" 5 no_masters r]
  by (simp add: no_masters_def may_start_def check_pidfile_def create_pidfile_def write_pidfile_def)

theorem one_master_witness:
  "\<exists>s'. (machine_step False False False)\<^sup>*\<^sup>* no_masters s' \<and> ma_masters s' = {5} \<and> (\<forall>m \<in> ma_masters s'. \<forall>m' \<in> ma_masters s'. m = m')"
  using one_master [OF first_master [of False False False]] first_master [of False False False]
  by (intro exI [of _ "\<lparr>ma_file = Some (pid_text 5), ma_masters = {5}, ma_starting = Map.empty, ma_procs = {5}\<rparr>"]) (simp add: no_masters_def)

lemma second_master:
  assumes "ma_masters s = {5}" "ma_procs s = {5}" "ma_starting s = Map.empty" "f \<or> k 5" "check_pidfile k 6 (ma_file s) = Pid_Free"
  shows "\<exists>s'. (machine_step r ov f)\<^sup>*\<^sup>* s s' \<and> ma_masters s' = {5, 6}"
proof -
  have "may_start ov f k 6 s" using assms by (simp add: may_start_def)
  from start_run [OF this assms(5), of r] show ?thesis using assms(1,3) by (intro exI conjI) (assumption | simp add: insert_commute)+
qed

text \<open>
  A worker that quits, also for a scheduled restart, removes the pid file of its master if it may: then a second
  master can be started while the first is running.
\<close>

theorem two_masters: "\<exists>s'. (machine_step True False False)\<^sup>*\<^sup>* no_masters s' \<and> ma_masters s' = {5, 6}"
proof -
  let ?s = "\<lparr>ma_file = Some (pid_text 5), ma_masters = {5}, ma_starting = Map.empty, ma_procs = {5}\<rparr>"
  have "machine_step True False False ?s (?s\<lparr>ma_file := None\<rparr>)"
    using machine_step.worker_quits [of True False False ?s] by (simp add: remove_pidfile_def)
  with first_master have "(machine_step True False False)\<^sup>*\<^sup>* no_masters (?s\<lparr>ma_file := None\<rparr>)" by (rule rtranclp.rtrancl_into_rtrancl)
  moreover obtain s' where "(machine_step True False False)\<^sup>*\<^sup>* (?s\<lparr>ma_file := None\<rparr>) s'" "ma_masters s' = {5, 6}"
    using second_master [of "?s\<lparr>ma_file := None\<rparr>" False "\<lambda>_. True" True False] by (auto simp: check_pidfile_def)
  ultimately show ?thesis by (meson rtranclp_trans)
qed

text \<open>A master that is started by a user who may not signal the first one takes it for dead.\<close>

theorem two_masters_foreign: "\<exists>s'. (machine_step False False True)\<^sup>*\<^sup>* no_masters s' \<and> ma_masters s' = {5, 6}"
proof -
  let ?s = "\<lparr>ma_file = Some (pid_text 5), ma_masters = {5}, ma_starting = Map.empty, ma_procs = {5}\<rparr>"
  have "check_pidfile (\<lambda>_. False) 6 (Some (pid_text 5)) = Pid_Free" by (simp add: check_pidfile_def pid_text_scanned)
  then obtain s' where "(machine_step False False True)\<^sup>*\<^sup>* ?s s'" "ma_masters s' = {5, 6}"
    using second_master [of ?s True "\<lambda>_. False" False False] by auto
  then show ?thesis using first_master [of False False True] by (meson rtranclp_trans)
qed

text \<open>Two masters that start at the same time both find the file free.\<close>

theorem two_masters_race: "\<exists>s'. (machine_step False True False)\<^sup>*\<^sup>* no_masters s' \<and> ma_masters s' = {5, 6}"
proof -
  let ?s1 = "no_masters\<lparr>ma_starting := [5 \<mapsto> False], ma_procs := {5}\<rparr>"
  let ?s2 = "?s1\<lparr>ma_starting := [5 \<mapsto> False, 6 \<mapsto> False], ma_procs := {5, 6}\<rparr>"
  let ?s3 = "?s2\<lparr>ma_file := Some [], ma_starting := [5 \<mapsto> True, 6 \<mapsto> False]\<rparr>"
  let ?s4 = "?s3\<lparr>ma_starting := [5 \<mapsto> True, 6 \<mapsto> True]\<rparr>"
  let ?s5 = "?s4\<lparr>ma_file := Some (pid_text 5), ma_masters := {5}, ma_starting := [6 \<mapsto> True]\<rparr>"
  let ?s6 = "?s5\<lparr>ma_file := Some (pid_text 6), ma_masters := {5, 6}, ma_starting := Map.empty\<rparr>"
  have "machine_step False True False no_masters ?s1" "machine_step False True False ?s1 ?s2"
    using machine_step.looks [of True False "\<lambda>_. True" 5 no_masters False] machine_step.looks [of True False "\<lambda>_. True" 6 ?s1 False]
    by (simp_all add: no_masters_def may_start_def check_pidfile_def insert_commute)
  moreover have "machine_step False True False ?s2 ?s3" "machine_step False True False ?s3 ?s4"
    using machine_step.opens [of ?s2 5 False True False] machine_step.opens [of ?s3 6 False True False] by (simp_all add: no_masters_def fun_upd_twist)
  moreover have "machine_step False True False ?s4 ?s5" "machine_step False True False ?s5 ?s6"
    using machine_step.writes [of ?s4 5 "Some (pid_text 5)" False True False] machine_step.writes [of ?s5 6 "Some (pid_text 6)" False True False]
    by (simp_all add: no_masters_def write_pidfile_def insert_commute fun_upd_twist)
  ultimately have "(machine_step False True False)\<^sup>*\<^sup>* no_masters ?s6"
    by (meson converse_rtranclp_into_rtranclp rtranclp.rtrancl_refl)
  then show ?thesis by (intro exI [of _ ?s6]) simp
qed


section \<open>The identity of the worker\<close>

text \<open>
  A master that is started by root never runs its worker as root, unless the configured user is root: the worker
  has the user of the configuration and cannot become another one again.  But its group is still the master's, since the
  program gives up the user first and the change of the group is then refused.
\<close>

theorem worker_identity_dropped:
  assumes "cr_uid c = 0" "getpwnam user = Some (pw_uid, pw_gid)" "pw_uid \<noteq> 0"
  shows "\<exists>c'. worker_identity getpwnam getgrnam user grp_name c = Some c' \<and> cr_uid c' = pw_uid \<and> cr_gid c' = cr_gid c \<and>
    (\<forall>u. u \<noteq> pw_uid \<longrightarrow> fst (setuid_call u c') = False)"
  using assms by (auto simp: worker_identity_def setuid_call_def setgid_call_def Let_def)

theorem worker_identity_dropped_witness:
  "\<exists>c'. worker_identity [''www'' \<mapsto> (33, 33)] [''www-data'' \<mapsto> 33] ''www'' ''www-data'' \<lparr>cr_uid = 0, cr_gid = 0\<rparr> = Some c' \<and>
     cr_uid c' = 33 \<and> cr_gid c' = 0"
  using worker_identity_dropped [of "\<lparr>cr_uid = 0, cr_gid = 0\<rparr>" "[''www'' \<mapsto> (33, 33)]" "''www''" 33 33 "[''www-data'' \<mapsto> 33]" "''www-data''"] by auto

section \<open>The name of the process\<close>

lemma setprocname_ok:
  assumes "p \<le> e" "e < length m" "m ! e = NUL" "NUL \<notin> set (seg m p e)" "NUL \<notin> set new"
  shows "\<exists>m'. setprocname m p new = Some m' \<and> length m' = length m \<and> cstr (drop p m') = take (e - p) new \<and>
    take p m' = take p m \<and> drop e m' = drop e m"
proof -
  have "\<forall>k. p \<le> k \<and> k < e \<longrightarrow> m ! k \<noteq> NUL" using assms(1,2,4) by (force simp: set_seg)
  then have s: "scan (\<lambda>c. c = NUL) m p = Some e" using assms(1-3) by (simp add: scan_Some_iff)
  let ?k = "min (e - p) (length new)"
  let ?m = "take p m @ take ?k new @ replicate (e - p - ?k) NUL @ drop e m"
  have d: "drop e m = NUL # drop (Suc e) m" using assms(2,3) by (metis Cons_nth_drop_Suc)
  have "\<forall>c \<in> set (take ?k new). c \<noteq> NUL" using assms(5) by (metis in_set_takeD)
  then have "cstr (take ?k new @ replicate (e - p - ?k) NUL @ drop e m) = take ?k new"
    unfolding d by (cases "e - p - ?k") (simp_all add: cstr_def takeWhile_eq_all_conv)
  moreover have "take ?k new = take (e - p) new" by (simp add: min_def)
  ultimately have "cstr (drop p ?m) = take (e - p) new" using assms(1,2) by simp
  moreover have "length (take p m @ take ?k new @ replicate (e - p - ?k) NUL) = e" using assms(1,2) by simp
  then have "drop e ?m = drop e m" by (metis append.assoc append_eq_conv_conj)
  ultimately show ?thesis using s assms(1,2) by (intro exI [of _ ?m]) (simp add: setprocname_def Let_def)
qed

section \<open>The command line\<close>

text \<open>The options of \<^verbatim>\<open>parse_args\<close>: the path of the configuration, whether to detach, whether to kill the master; or the usage text.\<close>

record options =
  op_config :: "string option"
  op_detach :: bool
  op_kill :: bool

fun arg_loop :: "string list \<Rightarrow> options \<Rightarrow> options option" where
  "arg_loop [] opts = Some opts"
| "arg_loop (a # as) opts =
     (if a = ''-c'' then
        (case as of
           [] \<Rightarrow> None
         | path # as' \<Rightarrow> arg_loop as' (opts\<lparr>op_config := Some path\<rparr>))
      else if a = ''--detach'' \<or> a = ''-d'' then arg_loop as (opts\<lparr>op_detach := True\<rparr>)
      else if a = ''--kill'' \<or> a = ''-k'' then arg_loop as (opts\<lparr>op_kill := True\<rparr>)
      else None)"

definition parse_args :: "string list \<Rightarrow> options option" where
  "parse_args args =
     map_option (\<lambda>opts. if op_kill opts then opts\<lparr>op_detach := False\<rparr> else opts)
       (arg_loop (tl args) \<lparr>op_config = None, op_detach = False, op_kill = False\<rparr>)"

text \<open>Groups of arguments as a user writes them.\<close>

datatype arg = Config_Arg string | Detach_Arg bool | Kill_Arg bool

fun arg_text :: "arg \<Rightarrow> string list" where
  "arg_text (Config_Arg path) = [''-c'', path]"
| "arg_text (Detach_Arg long) = [if long then ''--detach'' else ''-d'']"
| "arg_text (Kill_Arg long) = [if long then ''--kill'' else ''-k'']"

fun apply_arg :: "options \<Rightarrow> arg \<Rightarrow> options" where
  "apply_arg opts (Config_Arg path) = opts\<lparr>op_config := Some path\<rparr>"
| "apply_arg opts (Detach_Arg _) = opts\<lparr>op_detach := True\<rparr>"
| "apply_arg opts (Kill_Arg _) = opts\<lparr>op_kill := True\<rparr>"

lemma arg_loop_text: "arg_loop (concat (map arg_text as) @ rest) opts = arg_loop rest (foldl apply_arg opts as)"
proof (induction as arbitrary: opts)
  case (Cons a as)
  then show ?case by (cases a) simp_all
qed simp

lemma parse_args_text:
  "parse_args (prog # concat (map arg_text as)) =
     Some \<lparr>op_config = (case [p. Config_Arg p \<leftarrow> rev as] of [] \<Rightarrow> None | p # _ \<Rightarrow> Some p),
       op_detach = ((\<exists>l. Detach_Arg l \<in> set as) \<and> \<not> (\<exists>l. Kill_Arg l \<in> set as)), op_kill = (\<exists>l. Kill_Arg l \<in> set as)\<rparr>"
proof -
  have "foldl apply_arg \<lparr>op_config = None, op_detach = False, op_kill = False\<rparr> as =
      \<lparr>op_config = (case [p. Config_Arg p \<leftarrow> rev as] of [] \<Rightarrow> None | p # _ \<Rightarrow> Some p),
       op_detach = (\<exists>l. Detach_Arg l \<in> set as), op_kill = (\<exists>l. Kill_Arg l \<in> set as)\<rparr>"
  proof (induction as rule: rev_induct)
    case (snoc a as)
    then show ?case by (cases a) (auto split: list.splits)
  qed simp
  then show ?thesis using arg_loop_text [of as "[]"] by (auto simp: parse_args_def)
qed


section \<open>Shutdown and restart\<close>

text \<open>What \<^verbatim>\<open>quit_ex\<close> works on: the flag against a second call, the listening socket, the pid file, the table of the rate limiter and the files.\<close>

record quit_state =
  qs_in_quit :: bool
  qs_listening :: bool
  qs_file :: pidfile
  qs_limit :: "mem frag_pool_t option"
  qs_fs :: fs

definition limit_file :: string where "limit_file = ''.http_limit_requests''"

definition quit_ex :: "string \<Rightarrow> bool \<Rightarrow> bool \<Rightarrow> nat \<Rightarrow> quit_state \<Rightarrow> nat option \<times> quit_state" where
  "quit_ex temp_dir open_ok removes exit_status st =
     (if qs_in_quit st then (None, st)
      else (Some exit_status,
        st\<lparr>qs_in_quit := True, qs_listening := False, qs_file := remove_pidfile removes (qs_file st),
           qs_fs := (case qs_limit st of None \<Rightarrow> qs_fs st | Some p \<Rightarrow> snd (frag_pool_save temp_dir open_ok p limit_file (qs_fs st)))\<rparr>))"

text \<open>The table a worker starts with (\<^verbatim>\<open>event_startup\<close>): the saved one, else an empty one.\<close>

definition startup_limits :: "nat \<Rightarrow> (addr \<times> mem) list \<Rightarrow> (addr \<times> mem) list \<Rightarrow> string \<Rightarrow> fs \<Rightarrow> heap \<Rightarrow> (mem frag_pool_t \<times> heap) \<times> fs" where
  "startup_limits sz nodes as temp_dir fs H =
     (case frag_pool_load sz nodes as temp_dir limit_file fs H of
        (Some r, fs) \<Rightarrow> (r, fs)
      | (None, fs) \<Rightarrow> (frag_pool_create sz nodes H, fs))"

text \<open>
  C26.  A scheduled restart does not reset the rate limits: the worker that quits saves its table, the master starts
  the next worker without counting it as a failure, and that worker has a well-formed table with exactly the records
  of its predecessor; the file is used once.
\<close>

theorem restart_keeps_limits:
  assumes inv: "frag_inv p H0" "0 < sz" "\<forall>d \<in> set (tbl p). length d = sz"
    and fr: "all_fresh (map fst nodes @ map fst as) H" and room: "length (tbl p) \<le> length as" "length nodes + length (tbl p) < 2 ^ 32"
    and st: "\<not> qs_in_quit st" "qs_limit st = Some p"
  shows "\<exists>st' q H'. quit_ex temp_dir True removes WORKER_RESTART_STATUS_CODE st = (Some WORKER_RESTART_STATUS_CODE, st') \<and>
    supervise f [(Exited WORKER_RESTART_STATUS_CODE, t)] = None \<and>
    startup_limits sz nodes as temp_dir (qs_fs st') H = ((q, H'), (qs_fs st)(temp_dir @ limit_file := None)) \<and>
    frag_inv q H' \<and> mset (tbl q) = mset (tbl p)"
proof -
  obtain b fs1 where sv: "frag_pool_save temp_dir True p limit_file (qs_fs st) = (b, fs1)" by (meson surj_pair)
  from frag_pool_save_load [OF inv fr room sv] obtain q H' where
    "frag_pool_load sz nodes as temp_dir limit_file fs1 H = (Some (q, H'), (qs_fs st)(temp_dir @ limit_file := None))" "frag_inv q H'" "mset (tbl q) = mset (tbl p)"
    by blast
  then show ?thesis using sv st by (auto simp: quit_ex_def startup_limits_def after_worker_def)
qed

theorem restart_keeps_limits_witness:
  "\<exists>p st' q H'. quit_ex ''/tmp/'' True True 254 \<lparr>qs_in_quit = False, qs_listening = True, qs_file = None, qs_limit = Some p, qs_fs = Map.empty\<rparr> = (Some 254, st') \<and>
     tbl p = [''ab''] \<and> startup_limits 2 [] [(7, ''??'')] ''/tmp/'' (qs_fs st') {} = ((q, H'), Map.empty) \<and> mset (tbl q) = {#''ab''#}"
proof -
  define p where "p = \<lparr>f_cur_len = 1, f_reserved_len = 1, f_real_len = 1, f_node_size = 2, f_e = [\<lparr>e_ptr = 3, e_data = ''ab'', e_free = False\<rparr>]\<rparr>"
  define st where "st = \<lparr>qs_in_quit = False, qs_listening = True, qs_file = None, qs_limit = Some p, qs_fs = Map.empty\<rparr>"
  have i: "frag_inv p {3}" "tbl p = [''ab'']" by (simp_all add: p_def frag_inv_def frag_pre_def tbl_def used_def)
  have "\<exists>st' q H'. quit_ex ''/tmp/'' True True WORKER_RESTART_STATUS_CODE st = (Some WORKER_RESTART_STATUS_CODE, st') \<and>
      supervise 0 [(Exited WORKER_RESTART_STATUS_CODE, 0)] = None \<and>
      startup_limits 2 [] [(7, ''??'')] ''/tmp/'' (qs_fs st') {} = ((q, H'), (qs_fs st)(''/tmp/'' @ limit_file := None)) \<and> frag_inv q H' \<and> mset (tbl q) = mset (tbl p)"
    by (rule restart_keeps_limits [OF i(1)]) (simp_all add: i(2) all_fresh_def st_def)
  then show ?thesis using i(2) by (auto simp: st_def WORKER_RESTART_STATUS_CODE_def intro!: exI [of _ p])
qed

end
