(* ===== verification/Core_Logger.thy ===== *)
theory Core_Logger
  imports Common_Strings
begin

text \<open>
  \<^verbatim>\<open>core_logger.c\<close> (the POSIX branch): messages of three levels to the console and to the log file, in the language of the
  system, with the text of the last system error where that is asked for.  The expansion of a format with its arguments, the
  translations and the texts of the system are arguments; the calls that write may change \<^verbatim>\<open>errno\<close>.
\<close>

section \<open>State\<close>

datatype logger_output = O_CONSOLE | O_FILE | O_BOTH | O_UNKNOWN

datatype logger_level = L_NOTICE | L_ERROR | L_CRITICAL

definition LOG_EMERG :: nat where "LOG_EMERG = 0"
definition LOG_ERR :: nat where "LOG_ERR = 3"

record logger =
  lg_output :: logger_output
  log_file :: "string option"
  last_error_code :: nat
  lg_errno :: nat
  lg_stdout :: string
  lg_stderr :: string
  lg_syslog :: "(nat \<times> string) list"

text \<open>
  What a call finds: \<^verbatim>\<open>vfprintf\<close> with the arguments of the call, \<^verbatim>\<open>gettext\<close>, \<^verbatim>\<open>strerror\<close>, the text of \<^verbatim>\<open>ctime\<close>, the address
  of the server (empty if there is none) with its port, and what the output leaves in \<^verbatim>\<open>errno\<close>.
\<close>

record log_env =
  en_format :: "string \<Rightarrow> string"
  en_gettext :: "string \<Rightarrow> string"
  en_strerror :: "nat \<Rightarrow> string"
  en_ctime :: string
  en_addr :: string
  en_port :: int
  en_errno :: nat

definition logger_set_console_output :: "logger \<Rightarrow> logger" where
  "logger_set_console_output l = l\<lparr>lg_output := O_CONSOLE\<rparr>"

definition logger_set_file_output :: "logger \<Rightarrow> logger" where
  "logger_set_file_output l = l\<lparr>lg_output := O_FILE\<rparr>"

definition logger_set_both_output :: "logger \<Rightarrow> logger" where
  "logger_set_both_output l = l\<lparr>lg_output := O_BOTH\<rparr>"

section \<open>The text of a message\<close>

text \<open>\<^verbatim>\<open>strstr\<close> on C strings: the place of the first occurrence.\<close>

fun strstr :: "string \<Rightarrow> string \<Rightarrow> nat option" where
  "strstr [] n = (if n = [] then Some 0 else None)"
| "strstr (c # s) n = (if is_prefix n (c # s) then Some 0 else map_option Suc (strstr s n))"

text \<open>The format with the part behind the place in the source translated.\<close>

definition localized_format :: "(string \<Rightarrow> string) \<Rightarrow> string \<Rightarrow> string" where
  "localized_format gettext fmt =
     (case strstr fmt ''): '' of
        None \<Rightarrow> fmt
      | Some i \<Rightarrow> let msg = drop (i + 3) fmt; msg_localized = gettext msg in
          if msg_localized \<noteq> msg then take (i + 3) fmt @ msg_localized else fmt)"

definition v_print_formatted_message :: "log_env \<Rightarrow> string \<Rightarrow> string" where
  "v_print_formatted_message en fmt = en_format en (localized_format (en_gettext en) fmt)"

definition print_level_str :: "log_env \<Rightarrow> logger_level \<Rightarrow> bool \<Rightarrow> string" where
  "print_level_str en level colorize =
     (case level of
        L_ERROR \<Rightarrow> (if colorize then CHR 0x1B # ''[0;37;41m'' else []) @ ''['' @ en_gettext en ''Error'' @ (if colorize then '']'' @ CHR 0x1B # ''[0;0;0m '' else ''] '')
      | L_CRITICAL \<Rightarrow> (if colorize then CHR 0x1B # ''[1;37;41m'' else []) @ ''['' @ en_gettext en ''Critical'' @ (if colorize then '']'' @ CHR 0x1B # ''[0;0;0m '' else ''] '')
      | L_NOTICE \<Rightarrow> [])"

definition save_last_error_code :: "logger \<Rightarrow> logger" where
  "save_last_error_code l = l\<lparr>last_error_code := lg_errno l\<rparr>"

definition restore_last_error_code :: "logger \<Rightarrow> logger" where
  "restore_last_error_code l = l\<lparr>lg_errno := last_error_code l\<rparr>"

definition print_sys_error :: "log_env \<Rightarrow> logger \<Rightarrow> string" where
  "print_sys_error en l = (if last_error_code l \<noteq> 0 then '': '' @ en_strerror en (last_error_code l) else [])"

section \<open>The two sinks\<close>

definition int_text :: "int \<Rightarrow> string" where
  "int_text i = (if i < 0 then ''-'' else []) @ numeral_of 10 (nat \<bar>i\<bar>)"

definition logger_log_console_line :: "log_env \<Rightarrow> bool \<Rightarrow> logger_level \<Rightarrow> string \<Rightarrow> logger \<Rightarrow> logger" where
  "logger_log_console_line en sys_error level fmt l =
     (let l = save_last_error_code l;
          t = print_level_str en level True @ v_print_formatted_message en fmt @ (if sys_error then print_sys_error en l else []) @ [LF];
          l = (if level = L_NOTICE then l\<lparr>lg_stdout := lg_stdout l @ t\<rparr> else l\<lparr>lg_stderr := lg_stderr l @ t\<rparr>) in
      restore_last_error_code (l\<lparr>lg_errno := en_errno en\<rparr>))"

definition logger_log_file_line :: "log_env \<Rightarrow> bool \<Rightarrow> logger_level \<Rightarrow> string \<Rightarrow> logger \<Rightarrow> logger" where
  "logger_log_file_line en sys_error level fmt l =
     (let l = save_last_error_code l in
      case log_file l of
        None \<Rightarrow> l\<lparr>lg_syslog := lg_syslog l @ [(LOG_ERR, en_format en fmt)], lg_errno := en_errno en\<rparr>
      | Some s \<Rightarrow>
          let t = take 24 (en_ctime en) @ '' '' @ (if en_addr en \<noteq> [] then en_addr en @ '':'' @ int_text (en_port en) @ '' '' else []) @
                print_level_str en level False @ v_print_formatted_message en fmt @ (if sys_error then print_sys_error en l else []) @ [LF] in
          restore_last_error_code (l\<lparr>log_file := Some (s @ t), lg_errno := en_errno en\<rparr>))"

definition v_logger_log_console :: "log_env \<Rightarrow> string \<Rightarrow> logger \<Rightarrow> logger" where
  "v_logger_log_console en = logger_log_console_line en False L_NOTICE"

definition v_logger_log_console_error :: "log_env \<Rightarrow> string \<Rightarrow> logger \<Rightarrow> logger" where
  "v_logger_log_console_error en = logger_log_console_line en False L_ERROR"

definition v_logger_log_console_critical :: "log_env \<Rightarrow> string \<Rightarrow> logger \<Rightarrow> logger" where
  "v_logger_log_console_critical en = logger_log_console_line en False L_CRITICAL"

definition v_logger_log_console_perror :: "log_env \<Rightarrow> string \<Rightarrow> logger \<Rightarrow> logger" where
  "v_logger_log_console_perror en = logger_log_console_line en True L_ERROR"

definition v_logger_log_console_pcritical :: "log_env \<Rightarrow> string \<Rightarrow> logger \<Rightarrow> logger" where
  "v_logger_log_console_pcritical en = logger_log_console_line en True L_CRITICAL"

definition v_logger_log_file :: "log_env \<Rightarrow> string \<Rightarrow> logger \<Rightarrow> logger" where
  "v_logger_log_file en = logger_log_file_line en False L_NOTICE"

definition v_logger_log_file_error :: "log_env \<Rightarrow> string \<Rightarrow> logger \<Rightarrow> logger" where
  "v_logger_log_file_error en = logger_log_file_line en False L_ERROR"

definition v_logger_log_file_critical :: "log_env \<Rightarrow> string \<Rightarrow> logger \<Rightarrow> logger" where
  "v_logger_log_file_critical en = logger_log_file_line en False L_CRITICAL"

definition v_logger_log_file_perror :: "log_env \<Rightarrow> string \<Rightarrow> logger \<Rightarrow> logger" where
  "v_logger_log_file_perror en = logger_log_file_line en True L_ERROR"

definition v_logger_log_file_pcritical :: "log_env \<Rightarrow> string \<Rightarrow> logger \<Rightarrow> logger" where
  "v_logger_log_file_pcritical en = logger_log_file_line en True L_CRITICAL"

section \<open>The operations\<close>

text \<open>The switch over the outputs that every operation has.\<close>

definition to_outputs :: "(logger \<Rightarrow> logger) \<Rightarrow> (logger \<Rightarrow> logger) \<Rightarrow> logger \<Rightarrow> logger" where
  "to_outputs console to_file l =
     (case lg_output l of
        O_CONSOLE \<Rightarrow> console l
      | O_FILE \<Rightarrow> to_file l
      | O_BOTH \<Rightarrow> to_file (console l)
      | O_UNKNOWN \<Rightarrow> l)"

definition logger_log :: "log_env \<Rightarrow> string \<Rightarrow> logger \<Rightarrow> logger" where
  "logger_log en fmt = to_outputs (v_logger_log_console en fmt) (v_logger_log_file en fmt)"

definition logger_log_error :: "log_env \<Rightarrow> string \<Rightarrow> logger \<Rightarrow> logger" where
  "logger_log_error en fmt = to_outputs (v_logger_log_console_error en fmt) (v_logger_log_file_error en fmt)"

definition logger_log_perror :: "log_env \<Rightarrow> string \<Rightarrow> logger \<Rightarrow> logger" where
  "logger_log_perror en fmt = to_outputs (v_logger_log_console_perror en fmt) (v_logger_log_file_perror en fmt)"

text \<open>The critical ones end the process with the code they are given.\<close>

definition logger_log_critical :: "log_env \<Rightarrow> int \<Rightarrow> string \<Rightarrow> logger \<Rightarrow> int \<times> logger" where
  "logger_log_critical en exit_code fmt l = (exit_code, to_outputs (v_logger_log_console_critical en fmt) (v_logger_log_file_critical en fmt) l)"

definition logger_log_pcritical :: "log_env \<Rightarrow> int \<Rightarrow> string \<Rightarrow> logger \<Rightarrow> int \<times> logger" where
  "logger_log_pcritical en exit_code fmt l = (exit_code, to_outputs (v_logger_log_console_pcritical en fmt) (v_logger_log_file_pcritical en fmt) l)"

text \<open>\<^verbatim>\<open>logger_init\<close>: \<open>opened\<close> is what the log file has, if it can be opened for appending; else the process exits.\<close>

definition logger_init :: "string option \<Rightarrow> string \<Rightarrow> logger \<Rightarrow> int option \<times> logger" where
  "logger_init opened path l =
     (let l = (if lg_output l = O_UNKNOWN then logger_set_both_output l else l); l = l\<lparr>log_file := opened\<rparr> in
      if opened = None
      then (Some (-1), l\<lparr>lg_syslog := lg_syslog l @ [(LOG_EMERG, ''Can't open log file '' @ [CHR 0x22] @ path @ [CHR 0x22] @ '' for writing.'')]\<rparr>)
      else (None, l))"


section \<open>The lines of the log\<close>

text \<open>The place in the source in front of every message (the macros \<^verbatim>\<open>log_msg\<close>, \<^verbatim>\<open>err\<close>, \<^verbatim>\<open>perr\<close> of \<^verbatim>\<open>common_functions.h\<close>).\<close>

definition place :: string where
  "place = ''(File '' @ [CHR 0x22] @ ''%s'' @ [CHR 0x22] @ '', line %d): ''"

datatype log_call = Log_Msg | Log_Err | Log_Perr

fun run_log :: "logger \<Rightarrow> log_env \<times> log_call \<times> string \<Rightarrow> logger" where
  "run_log l (en, Log_Msg, msg) = logger_log en (place @ msg) l"
| "run_log l (en, Log_Err, msg) = logger_log_error en (place @ msg) l"
| "run_log l (en, Log_Perr, msg) = logger_log_perror en (place @ msg) l"

text \<open>The message with the place untranslated and the rest translated as a whole, and its line in the log file.\<close>

definition error_text :: "log_env \<Rightarrow> log_call \<Rightarrow> nat \<Rightarrow> string" where
  "error_text en k e = (if k = Log_Perr \<and> e \<noteq> 0 then '': '' @ en_strerror en e else [])"

fun message_line :: "nat \<Rightarrow> log_env \<times> log_call \<times> string \<Rightarrow> string" where
  "message_line e (en, k, msg) =
     take 24 (en_ctime en) @ '' '' @ (if en_addr en = [] then [] else en_addr en @ '':'' @ int_text (en_port en) @ '' '') @
     (if k = Log_Msg then [] else ''['' @ en_gettext en ''Error'' @ ''] '') @ en_format en (place @ en_gettext en msg) @ error_text en k e"

fun console_line :: "nat \<Rightarrow> log_env \<times> log_call \<times> string \<Rightarrow> string" where
  "console_line e (en, k, msg) =
     (if k = Log_Msg then [] else CHR 0x1B # ''[0;37;41m['' @ en_gettext en ''Error'' @ '']'' @ CHR 0x1B # ''[0;0;0m '') @
     en_format en (place @ en_gettext en msg) @ error_text en k e @ [LF]"

lemma localized_place: "localized_format g (place @ msg) = place @ g msg"
  by (simp add: localized_format_def place_def Let_def)

lemmas logger_ops = logger_log_def logger_log_error_def logger_log_perror_def to_outputs_def
  v_logger_log_console_def v_logger_log_console_error_def v_logger_log_console_perror_def
  v_logger_log_file_def v_logger_log_file_error_def v_logger_log_file_perror_def
  logger_log_console_line_def logger_log_file_line_def save_last_error_code_def restore_last_error_code_def
  v_print_formatted_message_def print_level_str_def print_sys_error_def error_text_def localized_place Let_def

text \<open>One call, for each of the outputs.\<close>

lemma run_log_step:
  assumes "log_file l = Some s" "c = (en, k, msg)"
  shows "log_file (run_log l c) = Some (if lg_output l \<in> {O_FILE, O_BOTH} then s @ message_line (lg_errno l) c @ [LF] else s)"
    "lg_stdout (run_log l c) = lg_stdout l @ (if lg_output l \<in> {O_CONSOLE, O_BOTH} \<and> k = Log_Msg then console_line (lg_errno l) c else [])"
    "lg_stderr (run_log l c) = lg_stderr l @ (if lg_output l \<in> {O_CONSOLE, O_BOTH} \<and> k \<noteq> Log_Msg then console_line (lg_errno l) c else [])"
    "lg_errno (run_log l c) = lg_errno l" "lg_output (run_log l c) = lg_output l"
  using assms by (cases k; cases "lg_output l"; simp add: logger_ops)+

text \<open>The complete lines of a text, and a last one that is not complete.\<close>

fun lines_from :: "string \<Rightarrow> string \<Rightarrow> string list" where
  "lines_from acc [] = (if acc = [] then [] else [acc])"
| "lines_from acc (c # cs) = (if c = LF then acc # lines_from [] cs else lines_from (acc @ [c]) cs)"

abbreviation lines_of :: "string \<Rightarrow> string list" where
  "lines_of \<equiv> lines_from []"

lemma lines_from_line: "LF \<notin> set t \<Longrightarrow> lines_from acc (t @ LF # s) = (acc @ t) # lines_of s"
  by (induction t arbitrary: acc) auto

lemma lines_from_append: "s = [] \<and> acc = [] \<or> s \<noteq> [] \<and> last s = LF \<Longrightarrow> lines_from acc (s @ t) = lines_from acc s @ lines_of t"
proof (induction s arbitrary: acc)
  case (Cons c s)
  then show ?case by (cases "s = []") auto
qed simp

lemma lines_of_lines: "\<forall>t \<in> set ts. LF \<notin> set t \<Longrightarrow> lines_of (concat (map (\<lambda>t. t @ [LF]) ts)) = ts"
  by (induction ts) (simp_all add: lines_from_line)

lemma run_log_all:
  assumes "log_file l = Some s"
  shows "log_file (foldl run_log l cs) = Some (s @ (if lg_output l \<in> {O_FILE, O_BOTH} then concat (map (\<lambda>t. t @ [LF]) (map (message_line (lg_errno l)) cs)) else [])) \<and>
    lg_stdout (foldl run_log l cs) = lg_stdout l @ (if lg_output l \<in> {O_CONSOLE, O_BOTH} then concat [console_line (lg_errno l) c. c \<leftarrow> cs, fst (snd c) = Log_Msg] else []) \<and>
    lg_stderr (foldl run_log l cs) = lg_stderr l @ (if lg_output l \<in> {O_CONSOLE, O_BOTH} then concat [console_line (lg_errno l) c. c \<leftarrow> cs, fst (snd c) \<noteq> Log_Msg] else []) \<and>
    lg_errno (foldl run_log l cs) = lg_errno l \<and> lg_output (foldl run_log l cs) = lg_output l"
  using assms
proof (induction cs arbitrary: l s)
  case (Cons c cs)
  obtain en k msg where c: "c = (en, k, msg)" by (cases c)
  note step = run_log_step [OF Cons.prems(1) c]
  show ?case using Cons.IH [OF step(1), unfolded step(2-5)] c by (cases "lg_output l") simp_all
qed simp

text \<open>
  C24.  The log is complete, when the log file is open and ends with a complete line and when no message has a line feed of its own: after any number of
  messages, errors and system errors, the lines of the log file are those it had and, if the file is an output (alone or with the
  terminal), one line for each call, in order, with the message translated as a whole and the level and the text of the system
  error where they belong; the terminal has the same messages if it is an output (notices and errors on their own
  streams), and nothing otherwise.  The calls leave \<^verbatim>\<open>errno\<close> as it was, whatever the output does to it, so that every report of a
  system error, on both outputs, is about the error of the caller.  (Without a log file this does not hold, see
  \<^verbatim>\<open>log_file_missing_errno\<close>.)
\<close>

theorem logger_complete:
  assumes "log_file l = Some s" "s = [] \<or> last s = LF"
    and "\<forall>c \<in> set cs. LF \<notin> set (message_line (lg_errno l) c)"
  shows "\<exists>s'. log_file (foldl run_log l cs) = Some s' \<and> is_prefix s s' \<and>
    lines_of s' = lines_of s @ (if lg_output l \<in> {O_FILE, O_BOTH} then map (message_line (lg_errno l)) cs else []) \<and>
    lg_errno (foldl run_log l cs) = lg_errno l \<and>
    lg_stdout (foldl run_log l cs) = lg_stdout l @ (if lg_output l \<in> {O_CONSOLE, O_BOTH} then concat [console_line (lg_errno l) c. c \<leftarrow> cs, fst (snd c) = Log_Msg] else []) \<and>
    lg_stderr (foldl run_log l cs) = lg_stderr l @ (if lg_output l \<in> {O_CONSOLE, O_BOTH} then concat [console_line (lg_errno l) c. c \<leftarrow> cs, fst (snd c) \<noteq> Log_Msg] else [])"
proof -
  let ?ts = "map (message_line (lg_errno l)) cs"
  have "lines_of (s @ concat (map (\<lambda>t. t @ [LF]) ?ts)) = lines_of s @ ?ts"
    using lines_from_append [of s "[]"] lines_of_lines [of ?ts] assms(2,3) by auto
  then show ?thesis using run_log_all [OF assms(1), of cs] by (cases "lg_output l") (simp_all add: is_prefix_iff)
qed

definition quiet_env :: log_env where
  "quiet_env = \<lparr>en_format = (\<lambda>s. s), en_gettext = (\<lambda>s. s), en_strerror = (\<lambda>e. ''No such file''), en_ctime = ''Thu Jan  1 00:00:00 1970'' @ [LF],
     en_addr = [], en_port = 80, en_errno = 9\<rparr>"

definition open_log :: logger where
  "open_log = \<lparr>lg_output = O_BOTH, log_file = Some [], last_error_code = 0, lg_errno = 2, lg_stdout = [], lg_stderr = [], lg_syslog = []\<rparr>"

theorem logger_complete_witness:
  "\<exists>s'. log_file (foldl run_log open_log [(quiet_env, Log_Msg, ''a''), (quiet_env, Log_Perr, ''b'')]) = Some s' \<and> length (lines_of s') = 2 \<and>
     lg_errno (foldl run_log open_log [(quiet_env, Log_Msg, ''a''), (quiet_env, Log_Perr, ''b'')]) = 2"
proof -
  let ?cs = "[(quiet_env, Log_Msg, ''a''), (quiet_env, Log_Perr, ''b'')]"
  have l: "log_file open_log = Some []" "lg_output open_log = O_BOTH" "lg_errno open_log = 2" by (simp_all add: open_log_def)
  have "\<forall>c \<in> set ?cs. LF \<notin> set (message_line (lg_errno open_log) c)" by (simp add: quiet_env_def place_def error_text_def)
  from logger_complete [OF l(1) _ this] show ?thesis using l(2,3) by auto
qed

text \<open>Without a log file (before \<^verbatim>\<open>logger_init\<close>) a message goes to the system's log, but then \<^verbatim>\<open>errno\<close> is not restored.\<close>

theorem log_file_missing_errno:
  assumes "log_file l = None" "lg_output l = O_FILE"
  shows "lg_errno (run_log l (en, Log_Msg, msg)) = en_errno en"
  using assms by (simp add: logger_ops)

end
