(* ===== verification/Mapped_Memory.thy ===== *)
theory Mapped_Memory
  imports Common_Strings Buffers
begin

text \<open>
  \<^verbatim>\<open>mapped_memory.c\<close> (with \<^verbatim>\<open>mmap\<close>): the body of a big request is kept in a file that is mapped into memory.  The name of the file
  is made from the number of the socket behind the path of the directory, in the memory that \<^verbatim>\<open>core_config.c\<close> has reserved
  for it.  The files are a map from paths to contents; which calls fail is an argument.
\<close>

section \<open>Temporary files\<close>

definition TMPID_SIZE :: nat where "TMPID_SIZE = 10"

record temp_state =
  tp_path :: mem
  tp_len :: nat
  tp_id :: mem
  tp_files :: "string \<rightharpoonup> string"
  tp_open :: "nat \<rightharpoonup> string"

datatype map_error = Open_Failed string | Truncate_Failed | Map_Failed

text \<open>The file behind a descriptor gets another length: it is cut, or filled with zeros.\<close>

definition ftruncate :: "nat \<Rightarrow> nat \<Rightarrow> temp_state \<Rightarrow> temp_state" where
  "ftruncate fd n st =
     (case tp_open st fd of
        None \<Rightarrow> st
      | Some name \<Rightarrow> st\<lparr>tp_files := (tp_files st)(name \<mapsto> take n ((case tp_files st name of None \<Rightarrow> [] | Some s \<Rightarrow> s) @ replicate n NUL))\<rparr>)"


text \<open>
  \<^verbatim>\<open>create_mapped_memory\<close>: \<open>fd\<close> is the descriptor \<^verbatim>\<open>open\<close> returns, if it does; a failing call ends the process.  The file is
  created if it is not there and has the wanted length then; the mapped bytes are those of the file.
\<close>

definition create_mapped_memory :: "nat option \<Rightarrow> bool \<Rightarrow> bool \<Rightarrow> int \<Rightarrow> nat \<Rightarrow> temp_state \<Rightarrow> (map_error + (mem \<times> nat \<times> temp_state)) option" where
  "create_mapped_memory fd truncate_ok mmap_ok sock len st =
     do { s \<leftarrow> int_to_str sock 32;
          tmpid \<leftarrow> memcpy_at (tp_id st) 0 (s @ [NUL]);
          path \<leftarrow> memcpy_at (tp_path st) (tp_len st) (take TMPID_SIZE tmpid);
          let st = st\<lparr>tp_id := tmpid, tp_path := path\<rparr>; let name = cstr path;
          (case fd of
             None \<Rightarrow> Some (Inl (Open_Failed name))
           | Some fd \<Rightarrow>
               let st = st\<lparr>tp_files := (tp_files st)(name \<mapsto> (case tp_files st name of None \<Rightarrow> [] | Some c \<Rightarrow> c)), tp_open := (tp_open st)(fd \<mapsto> name)\<rparr> in
               if \<not> truncate_ok then Some (Inl Truncate_Failed)
               else let st = ftruncate fd len st in
                 if \<not> mmap_ok then Some (Inl Map_Failed)
                 else do { m \<leftarrow> tp_files st name; Some (Inr (m, fd, st)) }) }"

text \<open>\<^verbatim>\<open>destroy_mapped_memory\<close>: failing calls are logged only; \<open>m\<close> is what the memory holds at the end.\<close>

definition destroy_mapped_memory :: "bool \<Rightarrow> nat \<Rightarrow> mem \<Rightarrow> temp_state \<Rightarrow> temp_state" where
  "destroy_mapped_memory truncate_ok fd m st =
     (let st = (case tp_open st fd of None \<Rightarrow> st | Some name \<Rightarrow> st\<lparr>tp_files := (tp_files st)(name \<mapsto> m)\<rparr>);
          st = (if truncate_ok then ftruncate fd 0 st else st) in
      st\<lparr>tp_open := (tp_open st)(fd := None)\<rparr>)"

section \<open>Every connection has its own file\<close>

lemma digit_char_inj: "a < 32 \<Longrightarrow> b < 32 \<Longrightarrow> digit_char a = digit_char b \<Longrightarrow> a = b"
proof -
  assume ab: "a < 32" "b < 32" "digit_char a = digit_char b"
  have "distinct (map digit_char [0..<32])" by code_simp
  then have "inj_on digit_char (set [0..<32])" by (simp add: distinct_map del: upt_rec_numeral)
  then show "a = b" using ab by (auto dest: inj_onD)
qed

lemma numeral_of_inj: "numeral_of 32 n = numeral_of 32 m \<Longrightarrow> n = m"
proof (induction n arbitrary: m rule: less_induct)
  case (less n)
  have e: "numeral_of 32 k = (if k < 32 then [digit_char k] else numeral_of 32 (k div 32) @ [digit_char (k mod 32)])" for k
    by (subst numeral_of.simps) simp
  consider "n < 32" "m < 32" | "\<not> n < 32" "\<not> m < 32" | "n < 32" "\<not> m < 32" | "\<not> n < 32" "m < 32" by blast
  then show ?case
  proof cases
    case 2
    then have "numeral_of 32 (n div 32) = numeral_of 32 (m div 32)" "digit_char (n mod 32) = digit_char (m mod 32)"
      using less.prems e [of n] e [of m] by auto
    moreover have "n div 32 < n" using 2(1) by simp
    ultimately have "n div 32 = m div 32" "n mod 32 = m mod 32" using less.IH digit_char_inj [of "n mod 32" "m mod 32"] by auto
    then show ?thesis by (metis div_mult_mod_eq)
  qed (use less.prems e [of n] e [of m] digit_char_inj numeral_of_nonempty [of 32 "m div 32"] numeral_of_nonempty [of 32 "n div 32"] in \<open>auto simp del: numeral_of_nonempty\<close>)
qed

lemma digit_char_not_NUL: "d < 32 \<Longrightarrow> digit_char d \<noteq> NUL"
proof -
  have "\<forall>d \<in> set [0..<32]. digit_char d \<noteq> NUL" by code_simp
  then show "d < 32 \<Longrightarrow> digit_char d \<noteq> NUL" by simp
qed

lemma numeral_of_not_NUL: "NUL \<notin> set (numeral_of 32 n)"
proof (induction n rule: less_induct)
  case (less n)
  then show ?case
    using digit_char_not_NUL [of n] digit_char_not_NUL [of "n mod 32"] by (cases "n < 32") (auto simp: numeral_of.simps [of 32 n])
qed

text \<open>The memory behind the path: the directory, and room for the name.\<close>

definition temp_inv :: "string \<Rightarrow> temp_state \<Rightarrow> bool" where
  "temp_inv dir st \<longleftrightarrow> NUL \<notin> set dir \<and> tp_len st = length dir \<and> take (length dir) (tp_path st) = dir \<and>
     length dir + TMPID_SIZE \<le> length (tp_path st) \<and> length (tp_id st) = TMPID_SIZE"

abbreviation temp_name :: "string \<Rightarrow> int \<Rightarrow> string" where
  "temp_name dir s \<equiv> dir @ numeral_of 32 (nat s)"

lemma temp_name_inj: "0 \<le> s \<Longrightarrow> 0 \<le> s' \<Longrightarrow> temp_name dir s = temp_name dir s' \<Longrightarrow> s = s'"
  using numeral_of_inj [of "nat s" "nat s'"] by auto

lemma cstr_stop: "NUL \<notin> set xs \<Longrightarrow> cstr (xs @ NUL # ys) = xs"
  by (auto simp: cstr_def takeWhile_tail takeWhile_eq_all_conv)

lemma create_mapped_memory_ok:
  assumes inv: "temp_inv dir st" and s: "0 \<le> s" "s < 2 ^ 31" and new: "tp_files st (temp_name dir s) \<in> {None, Some []}"
  shows "\<exists>st'. create_mapped_memory (Some fd) True True s n st = Some (Inr (replicate n NUL, fd, st')) \<and> temp_inv dir st' \<and>
    tp_files st' = (tp_files st)(temp_name dir s \<mapsto> replicate n NUL) \<and> tp_open st' = (tp_open st)(fd \<mapsto> temp_name dir s)"
proof -
  let ?num = "numeral_of 32 (nat s)"
  have str: "int_to_str s 32 = Some ?num" using x_to_str_numeral [of 32 s] s(1) by (simp add: int_to_str_def)
  have len: "length ?num \<le> 7" using s by (intro numeral_of_length) auto
  define tid where "tid = (?num @ [NUL]) @ drop (Suc (length ?num)) (tp_id st)"
  have tid: "memcpy_at (tp_id st) 0 (?num @ [NUL]) = Some tid" "length tid = TMPID_SIZE" "take TMPID_SIZE tid = tid"
    using inv len by (auto simp: memcpy_at_def tid_def temp_inv_def TMPID_SIZE_def)
  define path where "path = dir @ tid @ drop (length dir + TMPID_SIZE) (tp_path st)"
  have path: "memcpy_at (tp_path st) (tp_len st) tid = Some path" "length path = length (tp_path st)" "take (length dir) path = dir"
    using inv tid(2) by (auto simp: memcpy_at_def path_def temp_inv_def)
  have "NUL \<notin> set (dir @ ?num)" using inv numeral_of_not_NUL by (auto simp: temp_inv_def)
  then have name: "cstr path = temp_name dir s"
    using cstr_stop [of "dir @ ?num" "drop (Suc (length ?num)) (tp_id st) @ drop (length dir + TMPID_SIZE) (tp_path st)"] by (simp add: path_def tid_def)
  show ?thesis
    using inv new path tid by (auto simp: create_mapped_memory_def str name Let_def ftruncate_def temp_inv_def)
qed

text \<open>
  C27.  Two connections never share a temporary file: the memory of each starts with zeros, whatever is done with the memory of the
  other one is not seen, also when that is given back; afterwards its descriptor is closed and its file is empty, as the
  next request on the same socket needs it.
\<close>

theorem mapped_memory_private:
  assumes inv: "temp_inv dir st" and s: "0 \<le> s" "s < 2 ^ 31" "0 \<le> s'" "s' < 2 ^ 31" "s \<noteq> s'" "fd \<noteq> fd'"
    and new: "tp_files st (temp_name dir s) \<in> {None, Some []}" "tp_files st (temp_name dir s') \<in> {None, Some []}"
  shows "\<exists>st1 st2. create_mapped_memory (Some fd) True True s n st = Some (Inr (replicate n NUL, fd, st1)) \<and>
    create_mapped_memory (Some fd') True True s' n' st1 = Some (Inr (replicate n' NUL, fd', st2)) \<and>
    (\<forall>m. let st3 = destroy_mapped_memory True fd' m st2 in
       temp_inv dir st3 \<and> tp_open st3 fd = Some (temp_name dir s) \<and> tp_files st3 (temp_name dir s) = Some (replicate n NUL) \<and>
       tp_open st3 fd' = None \<and> tp_files st3 (temp_name dir s') = Some [])"
proof -
  have ne: "temp_name dir s' \<noteq> temp_name dir s" using temp_name_inj [of s s' dir] s by auto
  obtain st1 where 1: "create_mapped_memory (Some fd) True True s n st = Some (Inr (replicate n NUL, fd, st1))" "temp_inv dir st1"
      "tp_files st1 = (tp_files st)(temp_name dir s \<mapsto> replicate n NUL)" "tp_open st1 = (tp_open st)(fd \<mapsto> temp_name dir s)"
    using create_mapped_memory_ok [OF inv s(1,2) new(1)] by blast
  have "tp_files st1 (temp_name dir s') \<in> {None, Some []}" using new(2) ne unfolding 1(3) by simp
  then obtain st2 where "create_mapped_memory (Some fd') True True s' n' st1 = Some (Inr (replicate n' NUL, fd', st2))" "temp_inv dir st2"
      "tp_files st2 = (tp_files st1)(temp_name dir s' \<mapsto> replicate n' NUL)" "tp_open st2 = (tp_open st1)(fd' \<mapsto> temp_name dir s')"
    using create_mapped_memory_ok [OF 1(2) s(3,4)] by blast
  then show ?thesis using 1 ne s(6) by (auto simp: destroy_mapped_memory_def ftruncate_def Let_def temp_inv_def)
qed

theorem mapped_memory_private_witness:
  "\<exists>st1 st2. create_mapped_memory (Some 20) True True 7 3 \<lparr>tp_path = ''/t/'' @ replicate 10 CHR ''?'', tp_len = 3, tp_id = replicate 10 NUL, tp_files = Map.empty, tp_open = Map.empty\<rparr> =
       Some (Inr ([NUL, NUL, NUL], 20, st1)) \<and>
     create_mapped_memory (Some 21) True True 8 2 st1 = Some (Inr ([NUL, NUL], 21, st2)) \<and> tp_open (destroy_mapped_memory True 21 ''ab'' st2) 21 = None"
proof -
  let ?st = "\<lparr>tp_path = ''/t/'' @ replicate 10 CHR ''?'', tp_len = 3, tp_id = replicate 10 NUL, tp_files = Map.empty, tp_open = Map.empty\<rparr>"
  have "temp_inv ''/t/'' ?st" by (simp add: temp_inv_def TMPID_SIZE_def)
  from mapped_memory_private [OF this, of 7 8 20 21 3 2] show ?thesis by (auto simp: Let_def numeral_eq_Suc)
qed

end
