(* ===== verification/Captcha.thy ===== *)
theory Captcha
  imports Buffers Memcache
begin

text \<open>
  The images of \<^verbatim>\<open>web/utils/captcha.c\<close>: the writer of PNG files (on a machine with little-endian numbers) and the reader of the
  PPM files with the symbols.  \<^verbatim>\<open>deflate\<close> is a parameter: what a call puts out depends on the inputs of the stream so far.
  Drawing and distortion work on floating-point numbers and are not modelled.
\<close>

section \<open>Writing an image\<close>

definition CAPTCHA_WIDTH :: nat where "CAPTCHA_WIDTH = 200"
definition CAPTCHA_HEIGHT :: nat where "CAPTCHA_HEIGHT = 70"
definition CAPTCHA_ROWSIZE :: nat where "CAPTCHA_ROWSIZE = 600"

text \<open>The header as the program has it in memory; the dimensions are turned into big-endian order.\<close>

definition be32 :: "32 word \<Rightarrow> string" where
  "be32 w = rev (le32 w)"

definition png_header :: string where
  "png_header = concat (map le32 [1196314761, 169478669, 218103808, 1380206665]) @ be32 (of_nat CAPTCHA_WIDTH) @ be32 (of_nat CAPTCHA_HEIGHT) @
     concat (map le32 [520, 3363454720, 241, 1229091587, 134744148, 3763331547, 0, 1413563465])"

definition png_trailer :: string where
  "png_trailer = concat (map le32 [0, 0x444E4549, 0x826042AE])"

text \<open>\<^verbatim>\<open>captcha_init\<close> puts the checksum of the first chunk into the header.\<close>

definition header_with_crc :: "(string \<Rightarrow> 32 word) \<Rightarrow> string option" where
  "header_with_crc crc = memcpy_at png_header 29 (be32 (crc (seg png_header 12 29)))"

datatype z_flush = Z_NO_FLUSH | Z_PARTIAL_FLUSH | Z_FINISH

text \<open>
  A stream of zlib: whether it can be set up, at which row it reports \<^verbatim>\<open>Z_STREAM_ERROR\<close>, and what the last of a sequence of calls puts out.
\<close>

record zlib =
  zl_init :: bool
  zl_error :: "nat \<Rightarrow> bool"
  zl_out :: "(string \<times> z_flush) list \<Rightarrow> string"

text \<open>The rows; the buffer for the output of a row has 700 bytes, and the program asserts that it is never full.\<close>

fun png_rows :: "char \<Rightarrow> int \<Rightarrow> zlib \<Rightarrow> string \<Rightarrow> nat list \<Rightarrow> (string \<times> z_flush) list \<Rightarrow> buf_t \<Rightarrow>
    ((string \<times> z_flush) list option \<times> buf_t) option" where
  "png_rows u base z d [] h b = Some (Some h, b)"
| "png_rows u base z d (i # is) h b =
     (let h = h @ [([NUL], Z_NO_FLUSH)]; s = zl_out z h in
      if zl_error z i then Some (None, b)
      else if length d < (i + 1) * CAPTCHA_ROWSIZE then None
      else let h = h @ [(take CAPTCHA_ROWSIZE (drop (i * CAPTCHA_ROWSIZE) d), Z_PARTIAL_FLUSH)]; s = s @ zl_out z h in
           if length s \<ge> CAPTCHA_ROWSIZE + 100 then None
           else do { b \<leftarrow> append_to_buffer u base b s; png_rows u base z d is h b })"

definition png_output :: "char \<Rightarrow> int \<Rightarrow> (string \<Rightarrow> 32 word) \<Rightarrow> zlib \<Rightarrow> string \<Rightarrow> string \<Rightarrow> buf_t \<Rightarrow> (bool \<times> buf_t) option" where
  "png_output u base crc z header d b =
     (if \<not> zl_init z then Some (True, b)
      else do {
        (h, b) \<leftarrow> png_rows u base z d [0..<CAPTCHA_HEIGHT] [] (fst (buf_expand u base b (of_nat (length header))));
        (case h of
           None \<Rightarrow> Some (True, b)
         | Some h \<Rightarrow>
             let s = zl_out z (h @ [([], Z_FINISH)]) in
             if length s > CAPTCHA_ROWSIZE + 100 then None
             else do {
               b \<leftarrow> append_to_buffer u base b s;
               header \<leftarrow> memcpy_at header 48 (be32 (b_cur_len b - of_nat (length header)));
               m \<leftarrow> memcpy_at (b_data b) 0 header;
               b \<leftarrow> append_to_buffer u base (b\<lparr>b_data := m\<rparr>) (be32 (crc (seg m (length header - 4) (unat (b_cur_len b)))) @ png_trailer);
               Some (False, b) }) })"

section \<open>Reading a PNG file\<close>

text \<open>A reader for the files of the standard that have one kind of row: chunks with length, type, data and checksum.\<close>

fun be_value :: "string \<Rightarrow> nat" where
  "be_value s = foldl (\<lambda>a c. 256 * a + ord c) 0 s"

function read_chunks :: "(string \<Rightarrow> 32 word) \<Rightarrow> string \<Rightarrow> (string \<times> string) list option" where
  "read_chunks crc s =
     (if s = [] then Some []
      else if length s < 12 then None
      else let n = be_value (take 4 s); body = take (4 + n) (drop 4 s) in
           if length s < 12 + n \<or> be_value (take 4 (drop (8 + n) s)) \<noteq> unat (crc body) then None
           else map_option (\<lambda>cs. (take 4 body, drop 4 body) # cs) (read_chunks crc (drop (12 + n) s)))"
  by pat_completeness auto
termination by (relation "measure (\<lambda>(crc, s). length s)") auto

declare read_chunks.simps [simp del]

definition png_signature :: string where
  "png_signature = CHR 0x89 # ''PNG'' @ [CR, LF, CHR 0x1A, LF]"

fun scanlines :: "nat \<Rightarrow> nat \<Rightarrow> string \<Rightarrow> string list option" where
  "scanlines n 0 s = (if s = [] then Some [] else None)"
| "scanlines n (Suc k) s =
     (if length s < Suc n \<or> hd s \<noteq> NUL then None
      else map_option (\<lambda>rs. take n (tl s) # rs) (scanlines n k (drop (Suc n) s)))"

text \<open>Width, height and rows of an image with three channels of eight bits, without filters and without interlacing.\<close>

definition png_decode :: "(string \<Rightarrow> 32 word) \<Rightarrow> (string \<Rightarrow> string option) \<Rightarrow> string \<Rightarrow> (nat \<times> nat \<times> string list) option" where
  "png_decode crc inflate s =
     (if take 8 s \<noteq> png_signature then None
      else do {
        cs \<leftarrow> read_chunks crc (drop 8 s);
        (case cs of
           (t, h) # cs' \<Rightarrow>
             if t \<noteq> ''IHDR'' \<or> length h \<noteq> 13 \<or> drop 8 h \<noteq> [CHR 0x08, CHR 0x02, NUL, NUL, NUL] \<or> cs' = [] \<or> last cs' \<noteq> (''IEND'', []) then None
             else let w = be_value (take 4 h); ht = be_value (take 4 (drop 4 h)) in
               do { x \<leftarrow> inflate (concat [d. (t, d) \<leftarrow> cs', t = ''IDAT'']);
                    rows \<leftarrow> scanlines (3 * w) ht x;
                    Some (w, ht, rows) }
         | [] \<Rightarrow> None) })"


section \<open>Chunks\<close>

declare be_value.simps [simp del]

lemma ord_byte: "ord (char_of (unat (w AND 0xFF :: 32 word))) = unat w mod 256"
proof -
  have "(0xFF :: 32 word) = mask 8" by (simp add: mask_eq_exp_minus_1)
  then have "w AND 0xFF = take_bit 8 w" by (simp add: take_bit_eq_mask)
  then have "unat (w AND 0xFF) = take_bit 8 (unat w)" by (simp only: unsigned_take_bit_eq)
  then have "unat (w AND 0xFF) = unat w mod 256" by (simp add: take_bit_eq_mod)
  then show ?thesis by simp
qed

lemma bytes_of_word:
  assumes "(n :: nat) < 2 ^ 32"
  shows "((n div 2 ^ 24 mod 256 * 256 + n div 2 ^ 16 mod 256) * 256 + n div 2 ^ 8 mod 256) * 256 + n mod 256 = n"
proof -
  define a b c where abc: "a = n div 2 ^ 8" "b = n div 2 ^ 16" "c = n div 2 ^ 24"
  have d: "c = b div 256" "b = a div 256" "a = n div 256" unfolding abc by (simp_all add: div_mult2_eq [symmetric])
  have "c mod 256 = c" using assms by (simp add: abc)
  moreover have "c * 256 + b mod 256 = b" unfolding d(1) by (rule div_mult_mod_eq)
  moreover have "b * 256 + a mod 256 = a" unfolding d(2) by (rule div_mult_mod_eq)
  moreover have "a * 256 + n mod 256 = n" unfolding d(3) by (rule div_mult_mod_eq)
  ultimately show ?thesis unfolding abc [symmetric] by simp
qed

lemma be_value_be32: "be_value (be32 w) = unat w"
proof -
  have b: "ord (char_of (unat (drop_bit (8 * i) w AND 0xFF))) = unat w div 2 ^ (8 * i) mod 256" for i
    unfolding ord_byte unat_drop_bit_eq drop_bit_eq_div [of _ "unat w"] ..
  have "be_value (be32 w) = ((((unat w div 2 ^ 24) mod 256) * 256 + (unat w div 2 ^ 16) mod 256) * 256 + (unat w div 2 ^ 8) mod 256) * 256 + unat w mod 256"
    using b [of 0] b [of 1] b [of 2] b [of 3] by (simp add: be32_def le32_def be_value.simps upt_rec algebra_simps)
  also have "\<dots> = unat w" using unsigned_less [of w] by (intro bytes_of_word) simp
  finally show ?thesis .
qed

lemma length_be32 [simp]: "length (be32 w) = 4"
  by (simp add: be32_def)

definition chunk :: "(string \<Rightarrow> 32 word) \<Rightarrow> string \<Rightarrow> string \<Rightarrow> string" where
  "chunk crc t d = be32 (of_nat (length d)) @ t @ d @ be32 (crc (t @ d))"

lemma read_chunk:
  assumes "length t = 4" "length d < 2 ^ 32"
  shows "read_chunks crc (chunk crc t d @ rest) = map_option (\<lambda>cs. (t, d) # cs) (read_chunks crc rest)"
proof -
  let ?s = "chunk crc t d @ rest"
  have n: "be_value (take 4 ?s) = length d" using assms(2) by (simp add: chunk_def be_value_be32 unat_of_nat)
  have l: "length ?s = 12 + length d + length rest" "drop 4 ?s = t @ d @ be32 (crc (t @ d)) @ rest" "drop (8 + length d) ?s = be32 (crc (t @ d)) @ rest"
    "drop (12 + length d) ?s = rest" using assms(1) by (simp_all add: chunk_def)
  have ne: "?s \<noteq> []" using l(1) by force
  have b: "take (4 + length d) (drop 4 ?s) = t @ d" unfolding l(2) using assms(1) by simp
  have c: "be_value (take 4 (drop (8 + length d) ?s)) = unat (crc (t @ d))" unfolding l(3) by (simp add: be_value_be32)
  have td: "take 4 (t @ d) = t" "drop 4 (t @ d) = d" using assms(1) by simp_all
  show ?thesis
    by (subst read_chunks.simps) (simp only: n b c l(1,4) ne td Let_def, simp)
qed

lemma read_chunks_Nil [simp]: "read_chunks crc [] = Some []"
  by (simp add: read_chunks.simps)

definition header_data :: string where
  "header_data = [NUL, NUL, NUL, CHR 0xC8, NUL, NUL, NUL, CHR 0x46, CHR 0x08, CHR 0x02, NUL, NUL, NUL]"

definition significant_bits :: string where
  "significant_bits = [CHR 0x08, CHR 0x08, CHR 0x08]"

lemma png_header_bytes: "png_header = png_signature @ [NUL, NUL, NUL, CHR 0x0D] @ ''IHDR'' @ header_data @ [CHR 0x3F, CHR 0x7A, CHR 0xC8, CHR 0xF1] @
    [NUL, NUL, NUL, CHR 0x03] @ ''sBIT'' @ significant_bits @ [CHR 0xDB, CHR 0xE1, CHR 0x4F, CHR 0xE0] @ [NUL, NUL, NUL, NUL] @ ''IDAT''"
  by code_simp

lemma png_trailer_bytes: "png_trailer = [NUL, NUL, NUL, NUL] @ ''IEND'' @ [CHR 0xAE, CHR 0x42, CHR 0x60, CHR 0x82]"
  by code_simp

lemma be32_consts: "be32 13 = [NUL, NUL, NUL, CHR 0x0D]" "be32 3 = [NUL, NUL, NUL, CHR 0x03]" "be32 0 = [NUL, NUL, NUL, NUL]"
    "be32 0xDBE14FE0 = [CHR 0xDB, CHR 0xE1, CHR 0x4F, CHR 0xE0]" "be32 0xAE426082 = [CHR 0xAE, CHR 0x42, CHR 0x60, CHR 0x82]"
  by code_simp+

lemma header_with_crc_bytes:
  assumes "crc (''sBIT'' @ significant_bits) = 0xDBE14FE0"
  shows "header_with_crc crc = Some (png_signature @ chunk crc ''IHDR'' header_data @ chunk crc ''sBIT'' significant_bits @ be32 0 @ ''IDAT'')"
proof -
  have s: "seg png_header 12 29 = ''IHDR'' @ header_data" unfolding png_header_bytes by (simp add: seg_def png_signature_def header_data_def)
  have "length header_data = 13" "length significant_bits = 3" by (simp_all add: header_data_def significant_bits_def)
  then show ?thesis unfolding header_with_crc_def s unfolding png_header_bytes
    using assms by (simp add: memcpy_at_def chunk_def be32_consts) (simp add: png_signature_def header_data_def significant_bits_def)
qed


section \<open>The stream of the rows\<close>

definition image_row :: "string \<Rightarrow> nat \<Rightarrow> string" where
  "image_row d i = take CAPTCHA_ROWSIZE (drop (i * CAPTCHA_ROWSIZE) d)"

text \<open>The calls for the first rows, and all that a sequence of calls puts out.\<close>

definition row_calls :: "string \<Rightarrow> nat \<Rightarrow> (string \<times> z_flush) list" where
  "row_calls d n = concat (map (\<lambda>i. [([NUL], Z_NO_FLUSH), (image_row d i, Z_PARTIAL_FLUSH)]) [0..<n])"

definition stream :: "zlib \<Rightarrow> (string \<times> z_flush) list \<Rightarrow> string" where
  "stream z h = concat (map (\<lambda>k. zl_out z (take (Suc k) h)) [0..<length h])"

lemma stream_Nil [simp]: "stream z [] = []"
  by (simp add: stream_def)

lemma stream_snoc: "stream z (h @ [x]) = stream z h @ zl_out z (h @ [x])"
proof -
  have "map (\<lambda>k. zl_out z (take (Suc k) (h @ [x]))) [0..<length h] = map (\<lambda>k. zl_out z (take (Suc k) h)) [0..<length h]" by simp
  then have "concat (map (\<lambda>k. zl_out z (take (Suc k) (h @ [x]))) [0..<length h]) = stream z h" unfolding stream_def by (rule arg_cong)
  then show ?thesis unfolding stream_def [of z "h @ [x]"] by simp
qed

lemma row_calls_Suc: "row_calls d (Suc n) = row_calls d n @ [([NUL], Z_NO_FLUSH), (image_row d n, Z_PARTIAL_FLUSH)]"
  by (simp add: row_calls_def)

lemma stream_row: "stream z (row_calls d (Suc n)) =
    stream z (row_calls d n) @ zl_out z (row_calls d n @ [([NUL], Z_NO_FLUSH)]) @ zl_out z (row_calls d (Suc n))"
  using stream_snoc [of z "row_calls d n @ [([NUL], Z_NO_FLUSH)]" "(image_row d n, Z_PARTIAL_FLUSH)"] stream_snoc [of z "row_calls d n" "([NUL], Z_NO_FLUSH)"]
  by (simp add: row_calls_Suc)

text \<open>What the program asserts of the calls for an image: no error, and the output of a row is smaller than its buffer.\<close>

definition deflates :: "zlib \<Rightarrow> string \<Rightarrow> bool" where
  "deflates z d \<longleftrightarrow> zl_init z \<and>
     (\<forall>i < CAPTCHA_HEIGHT. \<not> zl_error z i \<and>
        length (zl_out z (row_calls d i @ [([NUL], Z_NO_FLUSH)])) + length (zl_out z (row_calls d (Suc i))) < CAPTCHA_ROWSIZE + 100) \<and>
     length (zl_out z (row_calls d CAPTCHA_HEIGHT @ [([], Z_FINISH)])) \<le> CAPTCHA_ROWSIZE + 100"

lemma png_rows_law:
  assumes "buf_inv b" "b_node_size b = 1" "buf_used b = pre @ stream z (row_calls d i)" "i + n = CAPTCHA_HEIGHT"
    and "deflates z d" "length d = CAPTCHA_HEIGHT * CAPTCHA_ROWSIZE" "length (buf_used b) \<le> 56 + i * (CAPTCHA_ROWSIZE + 100)"
  shows "\<exists>b'. png_rows u base z d [i..<i + n] (row_calls d i) b = Some (Some (row_calls d CAPTCHA_HEIGHT), b') \<and> buf_inv b' \<and> b_node_size b' = 1 \<and>
    buf_used b' = pre @ stream z (row_calls d CAPTCHA_HEIGHT) \<and> length (buf_used b') \<le> 56 + CAPTCHA_HEIGHT * (CAPTCHA_ROWSIZE + 100)"
  using assms
proof (induction n arbitrary: i b)
  case 0
  then show ?case by (auto simp: upt_rec)
next
  case (Suc n)
  let ?s = "zl_out z (row_calls d i @ [([NUL], Z_NO_FLUSH)]) @ zl_out z (row_calls d (Suc i))"
  have i: "i < CAPTCHA_HEIGHT" "[i..<i + Suc n] = i # [Suc i..<Suc i + n]" using Suc.prems(4) by (simp_all add: upt_rec)
  have z: "\<not> zl_error z i" "length ?s < CAPTCHA_ROWSIZE + 100" using Suc.prems(5) i(1) by (auto simp: deflates_def)
  have d: "\<not> length d < (i + 1) * CAPTCHA_ROWSIZE" using i(1) Suc.prems(6) by (simp add: CAPTCHA_ROWSIZE_def CAPTCHA_HEIGHT_def)
  have "length (buf_used b) + length ?s < 2 ^ 32" using Suc.prems(7) z(2) i(1) by (simp add: CAPTCHA_ROWSIZE_def CAPTCHA_HEIGHT_def)
  then obtain b1 where b1: "append_to_buffer u base b ?s = Some b1" "buf_inv b1" "b_node_size b1 = 1" "buf_used b1 = buf_used b @ ?s"
    using append_to_buffer_ok [OF Suc.prems(1,2), of ?s u base] by auto
  have "png_rows u base z d (i # [Suc i..<Suc i + n]) (row_calls d i) b = png_rows u base z d [Suc i..<Suc i + n] (row_calls d (Suc i)) b1"
    using z d b1(1) by (simp add: Let_def row_calls_Suc image_row_def del: upt_Suc)
  moreover have "buf_used b1 = pre @ stream z (row_calls d (Suc i))" using b1(4) Suc.prems(3) by (simp add: stream_row)
  moreover have "length (buf_used b1) \<le> 56 + Suc i * (CAPTCHA_ROWSIZE + 100)" using b1(4) Suc.prems(7) z(2) by simp
  moreover have "Suc i + n = CAPTCHA_HEIGHT" using Suc.prems(4) by simp
  ultimately show ?case unfolding i(2) using Suc.IH [OF b1(2,3) _ _ Suc.prems(5,6)] by metis
qed

lemma header_into_buffer:
  assumes "buf_inv b" "b_node_size b = 1" "buf_used b = pre @ s" "length h = length pre"
  shows "\<exists>m. memcpy_at (b_data b) 0 h = Some m \<and> buf_inv (b\<lparr>b_data := m\<rparr>) \<and> buf_used (b\<lparr>b_data := m\<rparr>) = h @ s \<and>
    take (unat (b_cur_len b)) m = h @ s"
proof -
  have len: "length (buf_used b) = unat (b_cur_len b)" "unat (b_cur_len b) \<le> length (b_data b)" using assms(1,2) by (simp_all add: buf_used_def buf_inv_def)
  let ?m = "h @ drop (length h) (b_data b)"
  have "buf_used b = take (unat (b_cur_len b)) (b_data b)" using assms(2) by (simp add: buf_used_def)
  then have "take (unat (b_cur_len b) - length h) (drop (length h) (b_data b)) = s"
    using assms(3,4) by (metis append_eq_conv_conj drop_take)
  moreover have "length h \<le> unat (b_cur_len b)" using len(1) assms(3,4) by simp
  ultimately have t: "take (unat (b_cur_len b)) ?m = h @ s" by simp
  have "memcpy_at (b_data b) 0 h = Some ?m" using len assms(3,4) by (simp add: memcpy_at_def)
  moreover have "buf_inv (b\<lparr>b_data := ?m\<rparr>)" using assms(1) len \<open>length h \<le> _\<close> by (simp add: buf_inv_def)
  ultimately show ?thesis using t assms(2) by (intro exI [of _ ?m]) (simp add: buf_used_def)
qed


section \<open>The image can be read\<close>

text \<open>What zlib documents: the output of a finished stream is inflated to all its input.\<close>

definition zlib_law :: "zlib \<Rightarrow> (string \<Rightarrow> string option) \<Rightarrow> bool" where
  "zlib_law z inflate \<longleftrightarrow> (\<forall>h. inflate (stream z (h @ [([], Z_FINISH)])) = Some (concat (map fst h)))"

lemma scanlines_rows: "\<forall>r \<in> set rows. length r = n \<Longrightarrow> scanlines n (length rows) (concat (map ((#) NUL) rows)) = Some rows"
  by (induction rows) auto

lemma image_rows_inflated:
  assumes "length d = CAPTCHA_HEIGHT * CAPTCHA_ROWSIZE"
  shows "scanlines 600 70 (concat (map fst (row_calls d CAPTCHA_HEIGHT))) = Some (map (image_row d) [0..<CAPTCHA_HEIGHT])"
proof -
  have c: "concat (map fst (row_calls d n)) = concat (map ((#) NUL) (map (image_row d) [0..<n]))" for n
    by (induction n) (simp_all add: row_calls_def)
  have "length (image_row d i) = 600" if "i < CAPTCHA_HEIGHT" for i
    using assms that by (simp add: image_row_def CAPTCHA_ROWSIZE_def CAPTCHA_HEIGHT_def)
  then have "\<forall>r \<in> set (map (image_row d) [0..<CAPTCHA_HEIGHT]). length r = 600" by simp
  from scanlines_rows [OF this] show ?thesis unfolding c by (simp add: CAPTCHA_HEIGHT_def)
qed

lemma expand_for_header:
  assumes "buf_inv b" "b_node_size b = 1" "buf_used b = []"
  shows "buf_inv (fst (buf_expand u base b 56)) \<and> b_node_size (fst (buf_expand u base b 56)) = 1 \<and> length (buf_used (fst (buf_expand u base b 56))) = 56"
proof -
  obtain b' off where e: "buf_expand u base b 56 = (b', off)" by (meson surj_pair)
  have c: "unat (b_cur_len b) = 0" using assms by (auto simp: buf_used_def buf_inv_def)
  have n: "b_node_size b' = 1" using e assms(2) by (auto simp: buf_expand_def buf_grow_def split: if_splits)
  have "buf_inv b' \<and> unat (b_cur_len b') = 56" using buf_expand_law [OF assms(1) _ e] c assms(2) by (simp add: buf_fits_def)
  then show ?thesis using n e by (simp add: buf_used_def buf_inv_def)
qed

lemma decode_chunks:
  assumes "length s < 2 ^ 32" "inflate s = Some x" "scanlines 600 70 x = Some rows"
  shows "png_decode crc inflate (png_signature @ chunk crc ''IHDR'' header_data @ chunk crc ''sBIT'' significant_bits @ chunk crc ''IDAT'' s @ chunk crc ''IEND'' []) = Some (200, 70, rows)"
proof -
  have "read_chunks crc (chunk crc ''IHDR'' header_data @ chunk crc ''sBIT'' significant_bits @ chunk crc ''IDAT'' s @ chunk crc ''IEND'' []) =
      Some [(''IHDR'', header_data), (''sBIT'', significant_bits), (''IDAT'', s), (''IEND'', [])]"
    using assms(1) read_chunk [of "''IEND''" "[]" crc "[]"] by (simp add: read_chunk header_data_def significant_bits_def)
  moreover have "length png_signature = 8" by (simp add: png_signature_def)
  moreover have "be_value (take 4 header_data) = 200" "be_value (take 4 (drop 4 header_data)) = 70" "length header_data = 13"
      "drop 8 header_data = [CHR 0x08, CHR 0x02, NUL, NUL, NUL]" by (simp_all add: header_data_def be_value.simps)
  ultimately show ?thesis using assms(2,3) by (simp add: png_decode_def)
qed

text \<open>
  C15.  The images are valid PNG files: whatever the pixels, and whatever zlib puts out in its calls, the file that is written
  has the signature, its chunks with the right lengths and checksums, and a reader gets exactly the image of
  200 by 70 pixels.
\<close>

theorem png_output_valid:
  assumes crc: "crc (''sBIT'' @ significant_bits) = 0xDBE14FE0" "crc ''IEND'' = 0xAE426082"
    and z: "deflates z d" "zlib_law z inflate" and d: "length d = CAPTCHA_HEIGHT * CAPTCHA_ROWSIZE"
    and b: "buf_inv b" "b_node_size b = 1" "buf_used b = []"
  shows "\<exists>header b'. header_with_crc crc = Some header \<and> png_output u base crc z header d b = Some (False, b') \<and>
    png_decode crc inflate (buf_used b') = Some (CAPTCHA_WIDTH, CAPTCHA_HEIGHT, map (image_row d) [0..<CAPTCHA_HEIGHT])"
proof -
  let ?start = "png_signature @ chunk crc ''IHDR'' header_data @ chunk crc ''sBIT'' significant_bits" and ?calls = "row_calls d CAPTCHA_HEIGHT"
  let ?hd = "?start @ be32 0 @ ''IDAT''" and ?b0 = "fst (buf_expand u base b 56)" and ?s = "zl_out z (?calls @ [([], Z_FINISH)])"
  let ?z = "stream z (?calls @ [([], Z_FINISH)])"
  have l: "length ?start = 48" "length ?hd = 56" by (simp_all add: png_signature_def chunk_def header_data_def significant_bits_def)
  obtain pre where pre: "buf_used ?b0 = pre" "length pre = 56" "buf_inv ?b0" "b_node_size ?b0 = 1" using expand_for_header [OF b] by auto
  have "buf_used ?b0 = pre @ stream z (row_calls d 0)" "length (buf_used ?b0) \<le> 56 + 0 * (CAPTCHA_ROWSIZE + 100)" using pre by (simp_all add: row_calls_def)
  from png_rows_law [OF pre(3,4) this(1) _ z(1) d this(2), of CAPTCHA_HEIGHT u base] obtain b1 where
    b1: "png_rows u base z d [0..<CAPTCHA_HEIGHT] [] ?b0 = Some (Some ?calls, b1)" "buf_inv b1" "b_node_size b1 = 1"
      "buf_used b1 = pre @ stream z ?calls" "length (buf_used b1) \<le> 56 + CAPTCHA_HEIGHT * (CAPTCHA_ROWSIZE + 100)" by (auto simp: row_calls_def)
  have s: "length ?s \<le> CAPTCHA_ROWSIZE + 100" using z(1) by (simp add: deflates_def)
  then obtain b2 where b2: "append_to_buffer u base b1 ?s = Some b2" "buf_inv b2" "b_node_size b2 = 1" "buf_used b2 = pre @ ?z"
    using append_to_buffer_ok [OF b1(2,3), of ?s u base] b1(4,5) by (auto simp: stream_snoc CAPTCHA_ROWSIZE_def CAPTCHA_HEIGHT_def)
  have zl: "length ?z \<le> 50000" using b1(4,5) s by (simp add: stream_snoc CAPTCHA_ROWSIZE_def CAPTCHA_HEIGHT_def)
  have cur: "unat (b_cur_len b2) = 56 + length ?z" using b2(2-4) pre(2) by (metis buf_inv_def buf_used_def length_append length_take min.absorb2 mult_1 unsigned_1)
  have "b_cur_len b2 = of_nat (56 + length ?z)" unfolding cur [symmetric] by simp
  then have "b_cur_len b2 - of_nat (length ?hd) = of_nat (length ?z)" unfolding l(2) by simp
  then have hd: "memcpy_at ?hd 48 (be32 (b_cur_len b2 - of_nat (length ?hd))) = Some (?start @ be32 (of_nat (length ?z)) @ ''IDAT'')"
    using l by (simp add: memcpy_at_def)
  obtain m where m: "memcpy_at (b_data b2) 0 (?start @ be32 (of_nat (length ?z)) @ ''IDAT'') = Some m" "buf_inv (b2\<lparr>b_data := m\<rparr>)"
      "buf_used (b2\<lparr>b_data := m\<rparr>) = (?start @ be32 (of_nat (length ?z)) @ ''IDAT'') @ ?z" "take (unat (b_cur_len b2)) m = (?start @ be32 (of_nat (length ?z)) @ ''IDAT'') @ ?z"
    using header_into_buffer [OF b2(2-4), of "?start @ be32 (of_nat (length ?z)) @ ''IDAT''"] l(1) pre(2) by auto
  have sg: "seg m 52 (unat (b_cur_len b2)) = ''IDAT'' @ ?z" unfolding seg_def drop_take [symmetric] m(4) using l(1) by simp
  let ?t = "be32 (crc (''IDAT'' @ ?z)) @ png_trailer"
  have t: "png_trailer = chunk crc ''IEND'' []" unfolding png_trailer_bytes chunk_def using crc(2) be32_consts(3,5) by simp
  obtain b3 where b3: "append_to_buffer u base (b2\<lparr>b_data := m\<rparr>) ?t = Some b3" "buf_used b3 = (?start @ be32 (of_nat (length ?z)) @ ''IDAT'') @ ?z @ ?t"
    using append_to_buffer_ok [OF m(2), of ?t u base] b2(3) m(3) zl l(1) by (auto simp: t chunk_def)
  have "png_output u base crc z h d b = Some (False, b3)"
    if "length h = 56" "length h2 = 56" "memcpy_at h 48 (be32 (b_cur_len b2 - of_nat (length h))) = Some h2" "memcpy_at (b_data b2) 0 h2 = Some m" for h h2
    using z(1) b1(1) b2(1) b3(1) s sg that by (simp add: png_output_def deflates_def Let_def)
  from this [OF l(2) _ hd m(1)] have "png_output u base crc z ?hd d b = Some (False, b3)" using l(1) by simp
  moreover have "buf_used b3 = ?start @ chunk crc ''IDAT'' ?z @ chunk crc ''IEND'' []" using b3(2) by (simp add: t chunk_def)
  then have "png_decode crc inflate (buf_used b3) = Some (200, 70, map (image_row d) [0..<CAPTCHA_HEIGHT])"
    using decode_chunks [of ?z inflate "concat (map fst ?calls)"] zl z(2) image_rows_inflated [OF d] by (simp add: zlib_law_def)
  ultimately show ?thesis using header_with_crc_bytes [of crc, OF crc(1)] by (auto simp: CAPTCHA_WIDTH_def CAPTCHA_HEIGHT_def)
qed


text \<open>The checksum of the standard, and a compressor that stores its input.\<close>

definition crc_bit :: "32 word \<Rightarrow> 32 word" where
  "crc_bit x = (if x AND 1 = 0 then drop_bit 1 x else drop_bit 1 x XOR 0xEDB88320)"

definition crc_byte :: "32 word \<Rightarrow> char \<Rightarrow> 32 word" where
  "crc_byte r c = crc_bit (crc_bit (crc_bit (crc_bit (crc_bit (crc_bit (crc_bit (crc_bit (r XOR of_nat (ord c)))))))))"

definition crc32_standard :: "string \<Rightarrow> 32 word" where
  "crc32_standard s = foldl crc_byte 0xFFFFFFFF s XOR 0xFFFFFFFF"

definition store_zlib :: zlib where
  "store_zlib = \<lparr>zl_init = True, zl_error = (\<lambda>_. False), zl_out = (\<lambda>h. fst (last h))\<rparr>"

definition white_image :: string where
  "white_image = replicate 42000 (CHR 0xFF)"

theorem png_output_valid_witness:
  "\<exists>header b'. header_with_crc crc32_standard = Some header \<and>
     png_output CHR ''u'' 0 crc32_standard store_zlib header white_image (buf_create CHR ''u'' 0 1 256) = Some (False, b') \<and>
     png_decode crc32_standard Some (buf_used b') = Some (200, 70, map (image_row white_image) [0..<70])"
proof -
  have crc: "crc32_standard (''sBIT'' @ significant_bits) = 0xDBE14FE0" "crc32_standard ''IEND'' = 0xAE426082" 
    by (simp_all add: crc32_standard_def crc_byte_def crc_bit_def significant_bits_def)
  have out: "zl_out store_zlib h = fst (last h)" for h by (simp add: store_zlib_def)
  have l: "length white_image = CAPTCHA_HEIGHT * CAPTCHA_ROWSIZE" by (simp add: white_image_def CAPTCHA_HEIGHT_def CAPTCHA_ROWSIZE_def)
  have "deflates store_zlib white_image"
    unfolding deflates_def out row_calls_Suc by (simp add: store_zlib_def image_row_def white_image_def CAPTCHA_ROWSIZE_def min_def)
  moreover have "stream store_zlib h = concat (map fst h)" for h
    by (induction h rule: rev_induct) (simp_all add: stream_snoc out)
  then have "zlib_law store_zlib Some" by (simp add: zlib_law_def)
  moreover have "buf_inv (buf_create CHR ''u'' 0 1 256) \<and> buf_used (buf_create CHR ''u'' 0 1 256) = []" by (rule buf_create_inv) simp
  moreover have "b_node_size (buf_create CHR ''u'' 0 1 256) = 1" by (simp add: buf_create_def)
  ultimately show ?thesis
    using png_output_valid [OF crc _ _ l, where z = store_zlib and inflate = Some and b = "buf_create CHR ''u'' 0 1 256" and u = "CHR ''u''" and base = 0]
    by (simp add: CAPTCHA_WIDTH_def CAPTCHA_HEIGHT_def)
qed


section \<open>The files of the symbols\<close>

text \<open>\<^verbatim>\<open>fgets\<close>: a line with its end, at most \<open>sz - 1\<close> bytes; nothing at the end of the file.\<close>

definition fgets :: "nat \<Rightarrow> string \<Rightarrow> (string \<times> string) option" where
  "fgets sz s =
     (if s = [] then None
      else let k = (case find_from (\<lambda>c. c = LF) 0 (take (sz - 1) s) of Some i \<Rightarrow> i + 1 | None \<Rightarrow> sz - 1) in Some (take k s, drop k s))"

lemma fgets_shorter: "fgets sz s = Some (l, r) \<Longrightarrow> l \<noteq> [] \<Longrightarrow> length r < length s"
proof -
  assume "fgets sz s = Some (l, r)" "l \<noteq> []"
  then obtain k where "s \<noteq> []" "l = take k s" "r = drop k s" by (auto simp: fgets_def Let_def split: if_splits)
  then show ?thesis using \<open>l \<noteq> []\<close> by (cases k) auto
qed

text \<open>The next line that is no comment; at the end of the file the program follows a null pointer.\<close>

function ppm_get_line :: "nat \<Rightarrow> string \<Rightarrow> (string \<times> string) option" where
  "ppm_get_line sz s =
     (case fgets sz s of
        None \<Rightarrow> None
      | Some (l, r) \<Rightarrow> if l \<noteq> [] \<and> hd l = CHR ''#'' then ppm_get_line sz r else Some (l, r))"
  by pat_completeness auto
termination by (relation "measure (\<lambda>(sz, s). length s)") (auto dest: fgets_shorter)

declare ppm_get_line.simps [simp del]

text \<open>A conversion \<^verbatim>\<open>%u\<close> of \<^verbatim>\<open>sscanf\<close>: the number and the rest.\<close>

definition scan_uint :: "string \<Rightarrow> (32 word \<times> string) option" where
  "scan_uint s =
     (let t = dropWhile isspace s;
          neg = (t \<noteq> [] \<and> hd t = CHR ''-'');
          t = (if t \<noteq> [] \<and> (hd t = CHR ''-'' \<or> hd t = CHR ''+'') then tl t else t);
          v = of_nat (min (2 ^ 64 - 1) (digits_value 0 t)) in
      if t \<noteq> [] \<and> IS_DIGIT (hd t) then Some (if neg then - v else v, dropWhile IS_DIGIT t) else None)"

record ppm_image =
  pi_width :: "32 word"
  pi_height :: "32 word"
  pi_rows :: string

definition scan_size :: "string \<Rightarrow> 32 word \<times> 32 word" where
  "scan_size s =
     (case scan_uint s of
        None \<Rightarrow> (0, 0)
      | Some (w, r) \<Rightarrow> (case scan_uint r of None \<Rightarrow> (w, 0) | Some (h, _) \<Rightarrow> (w, h)))"

text \<open>\<^verbatim>\<open>ppm_load\<close>: a fault, no image, or the image.\<close>

definition ppm_load :: "string \<Rightarrow> ppm_image option option" where
  "ppm_load f =
     do { (buf, f) \<leftarrow> ppm_get_line 1024 f;
          if take 2 buf \<noteq> ''P6'' then Some None
          else do {
            (buf, f) \<leftarrow> ppm_get_line 1024 f;
            let (width, height) = scan_size (cstr buf);
            if width = 0 \<or> height = 0 then Some None
            else do {
              (buf, f) \<leftarrow> ppm_get_line 1024 f;
              if atoi (cstr buf) \<noteq> 255 then Some None
              else if of_nat (length f) \<noteq> width * height * 3 then Some None
              else Some (Some \<lparr>pi_width = width, pi_height = height, pi_rows = f\<rparr>) } } }"

text \<open>A file as tools write it, with lines of comments in front of each line of the head.\<close>

definition comment_ok :: "string \<Rightarrow> bool" where
  "comment_ok c \<longleftrightarrow> LF \<notin> set c \<and> length c < 1000"

definition comments_text :: "string list \<Rightarrow> string" where
  "comments_text cs = concat (map (\<lambda>c. ''#'' @ c @ [LF]) cs)"

definition ppm_text :: "string list \<Rightarrow> string list \<Rightarrow> string list \<Rightarrow> nat \<Rightarrow> nat \<Rightarrow> string \<Rightarrow> string" where
  "ppm_text c1 c2 c3 w h rows =
     comments_text c1 @ ''P6'' @ [LF] @ comments_text c2 @ numeral_of 10 w @ '' '' @ numeral_of 10 h @ [LF] @ comments_text c3 @ ''255'' @ [LF] @ rows"

lemma fgets_line: "LF \<notin> set l \<Longrightarrow> length l < 1001 \<Longrightarrow> fgets 1024 (l @ LF # r) = Some (l @ [LF], r)"
proof -
  assume l: "LF \<notin> set l" "length l < 1001"
  then have "take 1023 (l @ LF # r) = l @ LF # take (1022 - length l) r" by (simp add: take_Cons')
  moreover have "find_from (\<lambda>c. c = LF) 0 (l @ LF # take (1022 - length l) r) = Some (0 + length l)" using l(1) by (intro find_from_append) auto
  ultimately show ?thesis by (simp add: fgets_def)
qed

lemma ppm_get_line_comments:
  assumes "\<forall>c \<in> set cs. comment_ok c" "LF \<notin> set l" "length l < 1000" "l \<noteq> []" "hd l \<noteq> CHR ''#''"
  shows "ppm_get_line 1024 (comments_text cs @ l @ LF # r) = Some (l @ [LF], r)"
  using assms(1)
proof (induction cs)
  case Nil
  have "fgets 1024 (l @ LF # r) = Some (l @ [LF], r)" using assms(2,3) by (intro fgets_line) auto
  then show ?case using assms(4,5) by (subst ppm_get_line.simps) (simp add: comments_text_def)
next
  case (Cons c cs)
  have "fgets 1024 ((CHR ''#'' # c) @ LF # comments_text cs @ l @ LF # r) = Some ((CHR ''#'' # c) @ [LF], comments_text cs @ l @ LF # r)"
    using Cons.prems by (intro fgets_line) (auto simp: comment_ok_def)
  then have "fgets 1024 (comments_text (c # cs) @ l @ LF # r) = Some (CHR ''#'' # c @ [LF], comments_text cs @ l @ LF # r)" by (simp add: comments_text_def)
  then show ?case using Cons by (subst ppm_get_line.simps) simp
qed


lemma numeral_start: "\<exists>c cs. numeral_of 10 n = c # cs \<and> IS_DIGIT c \<and> \<not> isspace c \<and> c \<notin> {CHR ''-'', CHR ''+'', CHR ''#'', LF}"
proof -
  obtain c cs where d: "numeral_of 10 n = c # cs" by (cases "numeral_of 10 n") auto
  then have "IS_DIGIT c" using numeral_of_10 [of n] by simp
  then show ?thesis using d by (auto simp: IS_DIGIT_def isspace_def)
qed

lemma scan_uint_numeral:
  assumes "n < 2 ^ 32" "r \<noteq> []" "\<not> IS_DIGIT (hd r)"
  shows "scan_uint (numeral_of 10 n @ r) = Some (of_nat n, r)"
proof -
  obtain c cs where c: "numeral_of 10 n = c # cs" "IS_DIGIT c" "\<not> isspace c" "c \<notin> {CHR ''-'', CHR ''+''}" using numeral_start by blast
  obtain x xs where r: "r = x # xs" "\<not> IS_DIGIT x" using assms(2,3) by (cases r) auto
  have "digits_value 0 (numeral_of 10 n @ r) = n" using digits_value_stop [OF r(2), of 0 "numeral_of 10 n" xs] numeral_of_10 [of n] r(1) by simp
  moreover have "dropWhile IS_DIGIT (numeral_of 10 n @ r) = r" using numeral_of_10 [of n] r by simp
  ultimately show ?thesis using c assms(1) by (simp add: scan_uint_def Let_def min_def)
qed

lemma size_line:
  assumes "w < 2 ^ 32" "h < 2 ^ 32"
  shows "scan_size (cstr (numeral_of 10 w @ '' '' @ numeral_of 10 h @ [LF])) = (of_nat w, of_nat h)"
proof -
  have "c \<noteq> NUL" if "c \<in> set (numeral_of 10 n)" for c n using numeral_of_10 [of n] that by (auto simp: IS_DIGIT_def)
  then have p: "cstr (numeral_of 10 w @ '' '' @ numeral_of 10 h @ [LF]) = numeral_of 10 w @ CHR '' '' # numeral_of 10 h @ [LF]"
    by (auto simp: cstr_def takeWhile_eq_all_conv)
  have 1: "scan_uint (numeral_of 10 w @ CHR '' '' # numeral_of 10 h @ [LF]) = Some (of_nat w, CHR '' '' # numeral_of 10 h @ [LF])"
    using assms(1) by (intro scan_uint_numeral) (simp_all add: IS_DIGIT_def)
  have "scan_uint (CHR '' '' # s) = scan_uint s" for s by (simp add: scan_uint_def isspace_def)
  then have 2: "scan_uint (CHR '' '' # numeral_of 10 h @ [LF]) = Some (of_nat h, [LF])"
    using scan_uint_numeral [of h "[LF]"] assms(2) by (simp add: IS_DIGIT_def)
  show ?thesis unfolding p by (simp add: scan_size_def 1 2)
qed

lemma ppm_round_trip:
  assumes "\<forall>c \<in> set (c1 @ c2 @ c3). comment_ok c" "0 < w" "0 < h" "w * h * 3 < 2 ^ 32" "length rows = w * h * 3"
  shows "ppm_load (ppm_text c1 c2 c3 w h rows) = Some (Some \<lparr>pi_width = of_nat w, pi_height = of_nat h, pi_rows = rows\<rparr>)"
proof -
  let ?l2 = "numeral_of 10 w @ '' '' @ numeral_of 10 h" and ?r3 = "comments_text c3 @ ''255'' @ LF # rows"
  have wh: "w < 2 ^ 32" "h < 2 ^ 32" using assms(2-4) by (auto intro: le_less_trans [rotated])
  have lens: "length (numeral_of 10 n) \<le> 10" if "n < 2 ^ 32" for n using that by (intro numeral_of_length) auto
  have nolf: "LF \<notin> set (numeral_of 10 n)" for n using numeral_of_10 [of n] by (auto simp: IS_DIGIT_def)
  have 1: "ppm_get_line 1024 (ppm_text c1 c2 c3 w h rows) = Some (''P6'' @ [LF], comments_text c2 @ ?l2 @ LF # ?r3)"
    using assms(1) ppm_get_line_comments [of c1 "''P6''" "comments_text c2 @ ?l2 @ LF # ?r3"] by (simp add: ppm_text_def)
  have 2: "ppm_get_line 1024 (comments_text c2 @ ?l2 @ LF # ?r3) = Some (?l2 @ [LF], ?r3)"
    using assms(1) nolf [of w] nolf [of h] lens [OF wh(1)] lens [OF wh(2)] numeral_start [of w] by (intro ppm_get_line_comments) auto
  have 3: "ppm_get_line 1024 ?r3 = Some (''255'' @ [LF], rows)" using assms(1) by (intro ppm_get_line_comments) auto
  have "unat (of_nat n :: 32 word) = n" if "n < 2 ^ 32" for n using that by (simp add: unat_of_nat)
  then have nz: "(of_nat w :: 32 word) \<noteq> 0" "(of_nat h :: 32 word) \<noteq> 0" using wh assms(2,3) by (metis less_irrefl unat_0)+
  have "atoi (cstr (''255'' @ [LF])) = 255" by (simp add: cstr_def atoi_def strtol_def isspace_def char_defs)
  then show ?thesis unfolding ppm_load_def 1 using 2 3 nz assms(5) size_line [OF wh] by (simp add: Let_def)
qed

section \<open>The symbols\<close>

record captcha_sym =
  sy_rows :: string
  sy_rowbytes :: "32 word"
  sy_width :: "16 word"
  sy_height :: "16 word"
  sy_sym :: char

text \<open>
  The loop of \<^verbatim>\<open>captcha_init\<close> over the files found: the symbol is the character in front of the last dot of the path.  A path
  without a dot is read before its beginning; a file that is damaged ends the process.
\<close>

definition last_dot_of :: "string \<Rightarrow> nat option" where
  "last_dot_of path = map_option (\<lambda>i. length path - 1 - i) (find_from (\<lambda>c. c = CHR ''.'') 0 (rev path))"

fun load_syms :: "(string \<Rightarrow> string option) \<Rightarrow> string list \<Rightarrow> captcha_sym list \<Rightarrow> (string + captcha_sym list) option" where
  "load_syms files [] syms = Some (Inr syms)"
| "load_syms files (path # paths) syms =
     (case last_dot_of path of
        None \<Rightarrow> None
      | Some 0 \<Rightarrow> load_syms files paths syms
      | Some (Suc k) \<Rightarrow>
          do { f \<leftarrow> files path;
               ppm \<leftarrow> ppm_load f;
               (case ppm of
                  None \<Rightarrow> Some (Inl path)
                | Some ppm \<Rightarrow>
                    load_syms files paths (syms @ [\<lparr>sy_rows = pi_rows ppm, sy_rowbytes = pi_width ppm * 3, sy_width = ucast (pi_width ppm),
                      sy_height = ucast (pi_height ppm), sy_sym = TO_LOWER (path ! k)\<rparr>])) })"

lemma last_dot_name:
  assumes "CHR ''.'' \<notin> set ext"
  shows "last_dot_of (dir @ [c] @ ''.'' @ ext) = Some (Suc (length dir))"
proof -
  have "find_from (\<lambda>c. c = CHR ''.'') 0 (rev ext @ CHR ''.'' # c # rev dir) = Some (0 + length (rev ext))" using assms by (intro find_from_append) auto
  then show ?thesis by (simp add: last_dot_of_def)
qed

text \<open>A file of a symbol: its character and an image with some comments in its head.\<close>

definition symbol_file :: "(string \<Rightarrow> string option) \<Rightarrow> string \<Rightarrow> char \<Rightarrow> ppm_image \<Rightarrow> bool" where
  "symbol_file files dir c i \<longleftrightarrow>
     (\<exists>c1 c2 c3 w h. files (dir @ [c] @ ''.ppm'') = Some (ppm_text c1 c2 c3 w h (pi_rows i)) \<and> (\<forall>c \<in> set (c1 @ c2 @ c3). comment_ok c) \<and>
        0 < w \<and> 0 < h \<and> w * h * 3 < 2 ^ 32 \<and> length (pi_rows i) = w * h * 3 \<and> pi_width i = of_nat w \<and> pi_height i = of_nat h)"

lemma symbol_file_loaded: "symbol_file files dir c i \<Longrightarrow> \<exists>f. files (dir @ [c] @ ''.ppm'') = Some f \<and> ppm_load f = Some (Some i)"
  unfolding symbol_file_def by (elim exE conjE) (simp add: ppm_round_trip)

text \<open>
  C28.  The symbols of the captchas are those of the files: every image that was written to a file, whatever comments are in its
  head, is loaded with its width, its height and its pixels, under the character its file is named by (in lower case) and
  in the order of the files.
\<close>

theorem load_syms_files:
  assumes "\<forall>(c, i) \<in> set ps. symbol_file files dir c i"
  shows "load_syms files (map (\<lambda>p. dir @ [fst p] @ ''.ppm'') ps) syms =
    Some (Inr (syms @ map (\<lambda>(c, i). \<lparr>sy_rows = pi_rows i, sy_rowbytes = pi_width i * 3, sy_width = ucast (pi_width i), sy_height = ucast (pi_height i), sy_sym = TO_LOWER c\<rparr>) ps))"
  using assms
proof (induction ps arbitrary: syms)
  case (Cons p ps)
  obtain c i where p: "p = (c, i)" by (cases p)
  have "last_dot_of (dir @ [c] @ ''.ppm'') = Some (Suc (length dir))" using last_dot_name [of "''ppm''" dir c] by simp
  moreover obtain f where "files (dir @ [c] @ ''.ppm'') = Some f" "ppm_load f = Some (Some i)" using symbol_file_loaded Cons.prems p by fastforce
  ultimately show ?case using Cons p by (simp add: nth_append)
qed simp

theorem load_syms_files_witness:
  "load_syms [''/d/A.ppm'' \<mapsto> ppm_text [''made by hand''] [] [''x''] 2 1 ''abcdef''] [''/d/A.ppm''] [] =
     Some (Inr [\<lparr>sy_rows = ''abcdef'', sy_rowbytes = 6, sy_width = 2, sy_height = 1, sy_sym = CHR ''a''\<rparr>])"
proof -
  let ?files = "[''/d/A.ppm'' \<mapsto> ppm_text [''made by hand''] [] [''x''] 2 1 ''abcdef'']" and ?i = "\<lparr>pi_width = 2, pi_height = 1, pi_rows = ''abcdef''\<rparr>"
  have "symbol_file ?files ''/d/'' (CHR ''A'') ?i"
    unfolding symbol_file_def
    by (intro exI [of _ "[''made by hand'']"] exI [of _ "[]"] exI [of _ "[''x'']"] exI [of _ 2] exI [of _ 1]) (simp add: comment_ok_def)
  moreover have "TO_LOWER (CHR ''A'') = CHR ''a''" by code_simp
  ultimately show ?thesis using load_syms_files [of "[(CHR ''A'', ?i)]" ?files "''/d/''" "[]"] by simp
qed

end
