(* ===== verification/Spec2Isabelle.thy ===== *)
theory Spec2Isabelle
  imports Prelude Common_Containers Frag_Pool Buffers Common_Strings Http_Url Http_Headers Http_Output
    Http_File Http_Post Http_Serve Http_Response Http_Worker Core_Server Memcache Static_Content Web_Allocator
    File_Storage Config_Parser Config_Lookup Core_Config Templates Template_Output Template_Blocks
    Sha1 Select_Loop Event_Loop Kqueue_Loop Core_Process Core_Logger Mapped_Memory Captcha
begin

text \<open>
  A verification library for the Opentube engine, an event-driven HTTP server in C (\<^verbatim>\<open>src/src\<close>).

  \<^bold>\<open>The program.\<close>  One thread runs the event loop of \<^verbatim>\<open>core_server.c\<close>: it accepts connections, applies the limits of
  requests, keeps the tables of kept-alive sockets and of request structures, and calls \<^verbatim>\<open>core_http.c\<close> when a socket can
  be read or written.  \<^verbatim>\<open>http_serve_client\<close> collects the header block and the body of a request in the buffer of its
  request structure and parses them in place; \<^verbatim>\<open>http_response\<close> sends the request to a page (through a queue, to the worker
  threads), to the cache of static contents (\<^verbatim>\<open>memcache.c\<close>) or to a file.  The answer is put into an output vector and
  written as far as the socket takes it; \<^verbatim>\<open>events_out_data\<close> continues, and \<^verbatim>\<open>http_cleanup\<close> makes the structure ready for
  the next request.  Before all that \<^verbatim>\<open>core_config.c\<close> loads the configuration with the parser of \<^verbatim>\<open>config_parser.c\<close>.

  \<^bold>\<open>The theories\<close>, with what they model and show:

  \<^item> \<open>Prelude\<close>: bytes, C strings in memory (an access outside of the memory is \<^term>\<open>None\<close>), positional numerals, \<^verbatim>\<open>atoi\<close>,
    substrings, machine integers; the collections of simplification rules the components share.
  \<^item> \<open>Common_Containers\<close>, \<open>Frag_Pool\<close>, \<open>Buffers\<close> (\<^verbatim>\<open>common_functions.c\<close>, \<^verbatim>\<open>common_types.h\<close>): \<^verbatim>\<open>pool_t\<close>, \<^verbatim>\<open>frag_pool_t\<close>,
    \<^verbatim>\<open>pqueue_t\<close>, \<^verbatim>\<open>buf_t\<close>.  Addresses are numbers and the heap is the set of live blocks, so that a second release is a fault.
    Every reachable pool is well formed and releases exactly what it owns; buffers keep their contents while they grow, as
    long as their size in bytes fits 32 bits.
  \<^item> \<open>Common_Strings\<close> (\<^verbatim>\<open>common_functions.c\<close>): number printing agrees with positional notation, \<^verbatim>\<open>load_file_contents\<close>
    gives back its resources on every path, the working directory is restored.
  \<^item> \<open>Http_Url\<close>, \<open>Http_Headers\<close>, \<open>Http_Post\<close>, \<open>Http_Serve\<close> (\<^verbatim>\<open>core_http.c\<close>): parsing of paths, query strings, cookies,
    request heads and POST forms in place, and the receive loop.  The parsers stay inside their memory (with the exceptions
    that are stated as theorems) and read back what a client writes; a POST request is answered exactly when its
    announced length has arrived.
  \<^item> \<open>Http_Output\<close>, \<open>Http_File\<close>, \<open>Http_Response\<close>, \<open>Http_Worker\<close> (\<^verbatim>\<open>core_http.c\<close>, \<^verbatim>\<open>events_out_data\<close> of \<^verbatim>\<open>core_server.c\<close>):
    heads, error pages, ranges, cached contents, pages of handlers with compression and the content type the handler sets
    (\<^verbatim>\<open>web/callbacks/util.c\<close>).  Every answer is complete and its length is the announced one; a delivery in pieces puts every byte on the wire once and in order; a request
    structure that was cleaned up serves the next request like a fresh one.
  \<^item> \<open>Core_Server\<close> (\<^verbatim>\<open>core_server.c\<close>): the tables of the event loop.  The request limiter refines a map from clients to
    records; the limits hold at every admission; the periodic work drops exactly what has expired.  Of the branches for IPv6 it is modelled that
    \<^verbatim>\<open>getpeername\<close> is given more room than the static addresses have: keeping a connection and limiting simultaneous requests
    is \<^term>\<open>None\<close> there, and the claims on these tables are about IPv4.
  \<^item> \<open>Event_Loop\<close> (\<^verbatim>\<open>event_routine\<close> of \<^verbatim>\<open>core_server.c\<close> with all it calls): the dispatch of the events of epoll, put together from
    the theories above.  Events of other sockets never touch a connection, as far as their handling stays in its buffers; a request for a cached content is followed
    from the bytes received to the bytes sent, with what becomes of the connection.
  \<^item> \<open>Kqueue_Loop\<close>, \<open>Select_Loop\<close> (\<^verbatim>\<open>event_wrapper_kqueue.c\<close>, \<^verbatim>\<open>event_wrapper_select.c\<close>): the loops for other systems.  The one on
    kqueue hands its events to the same handlers, and the filters for what is awaited are always enabled, but filters for writing stay; the
    table of the one on select refines a map from sockets to masks, and no socket that stays ready is starved, as long as all
    descriptors are below \<^verbatim>\<open>FD_SETSIZE\<close>.
  \<^item> \<open>Core_Process\<close> (\<^verbatim>\<open>core_process.c\<close>, \<^verbatim>\<open>main.c\<close>, \<^verbatim>\<open>quit_ex\<close> of \<^verbatim>\<open>core_server.c\<close>): the pid file is a lock between masters, as long as no
    worker may remove it, starts of masters do not overlap and every process can be signalled; the master restarts its worker until
    it crashes eleven times at once; the worker gives up root; a restart keeps the rate limits.  A start of a master is three steps
    (looking at the file, emptying it, writing it), between which other processes run.
  \<^item> \<open>Core_Logger\<close> (\<^verbatim>\<open>core_logger.c\<close>): when the log file is open, every call adds its line to each of the outputs that are set and keeps \<^verbatim>\<open>errno\<close>.
  \<^item> \<open>Mapped_Memory\<close> (\<^verbatim>\<open>mapped_memory.c\<close>): the temporary files of big bodies, one for each connection.
  \<^item> \<open>Sha1\<close>, \<open>Captcha\<close> (\<^verbatim>\<open>web/utils\<close>): the digest agrees with the definition of the standard; the images are valid PNG files
    that a reader decodes to the pixels; the symbols are those of their files.
  \<^item> \<open>Memcache\<close>, \<open>Static_Content\<close>, \<open>Web_Allocator\<close>, \<open>File_Storage\<close> (the C files of similar names): the cache with its
    compressed copies, joining and stripping of static files, the blocks of a handler, tables saved over a restart.
  \<^item> \<open>Config_Parser\<close>, \<open>Config_Lookup\<close>, \<open>Core_Config\<close> (\<^verbatim>\<open>config_parser.c\<close>, \<^verbatim>\<open>core_config.c\<close>): the parser with included files, which
    returns unless a file is empty and reads back what is written; lookup by paths, which agrees with a plain search; the directives
    with their checks, which leave a sound configuration.
  \<^item> \<open>Templates\<close>, \<open>Template_Output\<close>, \<open>Template_Blocks\<close> (\<^verbatim>\<open>templates.c\<close>): the compiler of templates (included files, variables,
    blocks) and the output of a compiled template with the contexts of a page.  Contexts release what they own and refine maps from
    names to values, as long as no two names have the same checksum; a template without blocks is rendered to its text with the
    included files in place and the variables replaced, and a template with blocks (not nested, with text around them and all
    variables in front of them) with every block once per context.

  \<^bold>\<open>Conventions.\<close>  A structure is a record, an operation a function from state to state; a fault of the C program (an
  access outside of a block, a double release) and a loop that does not end are \<^term>\<open>None\<close>, an error that the program
  handles is a value.  Where a loop may not end it is a \<open>partial_function\<close> on options and the claims prove that it
  returns; no fuel is used.  Sizes that can wrap are words of their width.  Interfaces are locales that are interpreted on
  the definitions: the queue of the workers (\<open>lifo\<close>), the byte buffer a page is written to (\<open>byte_buffer\<close>), the pool of nodes
  behind the tables of the server (\<open>node_pool\<close>), the cache of contents (\<open>content_cache\<close>), the
  variables of a template (\<open>var_store\<close>), the set of sockets a loop awaits (\<open>event_set\<close>).

  \<^bold>\<open>Parameters.\<close>  The operating system (results of \<^verbatim>\<open>recv\<close>, \<^verbatim>\<open>writev\<close>, \<^verbatim>\<open>sendfile\<close>, \<^verbatim>\<open>stat\<close>, \<^verbatim>\<open>getpeername\<close>, the time, addresses of new blocks
  and what they contain), zlib (\<^verbatim>\<open>deflate\<close> as the list of its results, \<^verbatim>\<open>crc32\<close> and \<^verbatim>\<open>adler32\<close> as
  functions), the regular expression of the template blocks (its matches) and the pages of the
  handlers are arguments; what is needed of them is a hypothesis of the claim.

  \<^bold>\<open>Not modelled.\<close>  The set-up of sockets, signals and threads, \<^verbatim>\<open>fork\<close>, the scripting engine, the database, the translations,
  the pages in \<^verbatim>\<open>web\<close> and the Windows service: they are calls of the operating system or of libraries.  The drawing of the
  captchas works on floating-point numbers.  The locks, of the worker threads and elsewhere: a round of a worker and the handling of an event are one step each.  Branches for
  Windows are left out where the code has one for POSIX systems.
\<close>

end
